(* ===== verification/Prelude.thy ===== *)
theory Prelude
  imports Main "HOL-Library.Word"
begin

text \<open>
  Shared vocabulary of the development: the machine integers the Rust sources use, the
  outcome of a Rust computation (a value, a returned error, or a panic), checked
  arithmetic, byte strings in big and little endian, and the list facts that the
  components need about positions in sorted index lists.

  A panic (a failed assertion, an out-of-range index, \<open>unwrap\<close> of nothing, an overflow of
  the plain arithmetic operators in a build with overflow checks) is a value of its own,
  so that \<open>no panic\<close> is something a theorem can state.
\<close>

unbundle bit_operations_syntax

section \<open>Machine integers\<close>

type_synonym u8 = "8 word"
type_synonym u16 = "16 word"
type_synonym u32 = "32 word"
type_synonym u64 = "64 word"
type_synonym u128 = "128 word"

named_theorems checked_simps "characterisations of the checked arithmetic operations"
named_theorems outcome_simps "unfolding rules for the sequencing of outcomes"

section \<open>Outcomes of Rust computations\<close>

datatype ('e, 'a) outcome = Ok 'a | Err 'e | Panic

fun obind :: "('e, 'a) outcome \<Rightarrow> ('a \<Rightarrow> ('e, 'b) outcome) \<Rightarrow> ('e, 'b) outcome" where
  "obind (Ok x) f = f x"
| "obind (Err e) f = Err e"
| "obind Panic f = Panic"

fun map_err :: "('e \<Rightarrow> 'f) \<Rightarrow> ('e, 'a) outcome \<Rightarrow> ('f, 'a) outcome" where
  "map_err g (Ok x) = Ok x"
| "map_err g (Err e) = Err (g e)"
| "map_err g Panic = Panic"

fun omap :: "('a \<Rightarrow> 'b) \<Rightarrow> ('e, 'a) outcome \<Rightarrow> ('e, 'b) outcome" where
  "omap g (Ok x) = Ok (g x)"
| "omap g (Err e) = Err e"
| "omap g Panic = Panic"

definition ok_or :: "'e \<Rightarrow> 'a option \<Rightarrow> ('e, 'a) outcome" where
  "ok_or e x = (case x of None \<Rightarrow> Err e | Some y \<Rightarrow> Ok y)"

text \<open>\<open>unwrap\<close> and \<open>expect\<close>: both the error and the missing value are panics.\<close>

fun unwrap :: "('e, 'a) outcome \<Rightarrow> ('f, 'a) outcome" where
  "unwrap (Ok x) = Ok x"
| "unwrap (Err e) = Panic"
| "unwrap Panic = Panic"

definition unwrap_opt :: "'a option \<Rightarrow> ('f, 'a) outcome" where
  "unwrap_opt x = (case x of None \<Rightarrow> Panic | Some y \<Rightarrow> Ok y)"

definition require :: "bool \<Rightarrow> ('e, unit) outcome" where
  "require b = (if b then Ok () else Panic)"

lemma obind_Ok_iff [outcome_simps]:
  "obind x f = Ok y \<longleftrightarrow> (\<exists>z. x = Ok z \<and> f z = Ok y)"
  by (cases x) auto

lemma obind_Err_iff [outcome_simps]:
  "obind x f = Err e \<longleftrightarrow> x = Err e \<or> (\<exists>z. x = Ok z \<and> f z = Err e)"
  by (cases x) auto

lemma obind_Panic_iff [outcome_simps]:
  "obind x f = Panic \<longleftrightarrow> x = Panic \<or> (\<exists>z. x = Ok z \<and> f z = Panic)"
  by (cases x) auto

lemma obind_assoc: "obind (obind x f) g = obind x (\<lambda>y. obind (f y) g)"
  by (cases x) auto

lemma obind_Ok_right [simp]: "obind x Ok = x"
  by (cases x) auto

text \<open>Laws that push error translations and result maps to the leaves of a sequence.\<close>

lemma map_err_obind: "map_err g (obind x f) = obind (map_err g x) (\<lambda>y. map_err g (f y))"
  by (cases x) auto

lemma map_err_omap: "map_err g (omap h x) = omap h (map_err g x)"
  by (cases x) auto

lemma map_err_map_err: "map_err g (map_err d x) = map_err (g \<circ> d) x"
  by (cases x) auto

lemma omap_obind: "omap g (obind x f) = obind x (\<lambda>y. omap g (f y))"
  by (cases x) auto

lemma obind_omap: "obind (omap h x) f = obind x (\<lambda>y. f (h y))"
  by (cases x) auto

lemma omap_omap: "omap g (omap h x) = omap (g \<circ> h) x"
  by (cases x) auto

lemmas outcome_push = map_err_obind map_err_omap map_err_map_err omap_obind obind_omap omap_omap obind_assoc

lemma map_err_iffs [outcome_simps]:
  "map_err g x = Ok y \<longleftrightarrow> x = Ok y"
  "map_err g x = Err e \<longleftrightarrow> (\<exists>d. x = Err d \<and> e = g d)"
  "map_err g x = Panic \<longleftrightarrow> x = Panic"
  by (cases x; auto)+

lemma omap_iffs [outcome_simps]:
  "omap h x = Ok y \<longleftrightarrow> (\<exists>z. x = Ok z \<and> y = h z)"
  "omap h x = Err e \<longleftrightarrow> x = Err e"
  "omap h x = Panic \<longleftrightarrow> x = Panic"
  by (cases x; auto)+

lemma ok_or_iffs [outcome_simps]:
  "ok_or e x = Ok y \<longleftrightarrow> x = Some y"
  "ok_or e x = Err d \<longleftrightarrow> x = None \<and> d = e"
  "ok_or e x \<noteq> Panic"
  by (auto simp: ok_or_def split: option.splits)

lemma unwrap_iffs [outcome_simps]:
  "unwrap x = Ok y \<longleftrightarrow> x = Ok y"
  "unwrap x \<noteq> Err e"
  "unwrap x = Panic \<longleftrightarrow> x = Panic \<or> (\<exists>d. x = Err d)"
  by (cases x; auto)+

lemma unwrap_opt_iffs [outcome_simps]:
  "unwrap_opt m = Ok y \<longleftrightarrow> m = Some y"
  "unwrap_opt m \<noteq> Err e"
  "unwrap_opt m = Panic \<longleftrightarrow> m = None"
  by (cases m; auto simp: unwrap_opt_def)+

lemma require_iffs [outcome_simps]:
  "require b = Ok u \<longleftrightarrow> b"
  "require b \<noteq> Err e"
  "require b = Panic \<longleftrightarrow> \<not> b"
  by (auto simp: require_def)

section \<open>Checked and saturating arithmetic\<close>

definition checked_add :: "'a::len word \<Rightarrow> 'a word \<Rightarrow> 'a word option" where
  "checked_add a b = (if unat a + unat b < 2 ^ LENGTH('a) then Some (a + b) else None)"

definition checked_sub :: "'a::len word \<Rightarrow> 'a word \<Rightarrow> 'a word option" where
  "checked_sub a b = (if b \<le> a then Some (a - b) else None)"

definition checked_mul :: "'a::len word \<Rightarrow> 'a word \<Rightarrow> 'a word option" where
  "checked_mul a b = (if unat a * unat b < 2 ^ LENGTH('a) then Some (a * b) else None)"

definition saturating_add :: "'a::len word \<Rightarrow> 'a word \<Rightarrow> 'a word" where
  "saturating_add a b = (if unat a + unat b < 2 ^ LENGTH('a) then a + b else - 1)"

definition saturating_sub :: "'a::len word \<Rightarrow> 'a word \<Rightarrow> 'a word" where
  "saturating_sub a b = (if b \<le> a then a - b else 0)"

lemma unat_lt_2p: "unat (a :: 'a::len word) < 2 ^ LENGTH('a)"
  by (rule unsigned_less)

lemma unat_of_nat_id: "n < 2 ^ LENGTH('a) \<Longrightarrow> unat (of_nat n :: 'a::len word) = n"
  by (simp add: unat_of_nat)

lemma unat_ucast_up:
  fixes w :: "'a::len word"
  assumes "LENGTH('a) \<le> LENGTH('b::len)"
  shows "unat (ucast w :: 'b word) = unat w"
proof -
  have "unat w < 2 ^ LENGTH('b)"
    using unat_lt_2p [of w] power_increasing [OF assms, of "2 :: nat"] by linarith
  then show ?thesis by (simp add: unsigned_ucast_eq take_bit_nat_eq_self)
qed

lemma unat_plus_no_ovf:
  fixes a b :: "'a::len word"
  shows "unat a + unat b < 2 ^ LENGTH('a) \<Longrightarrow> unat (a + b) = unat a + unat b"
  by (simp add: unat_word_ariths)

lemma unat_times_no_ovf:
  fixes a b :: "'a::len word"
  shows "unat a * unat b < 2 ^ LENGTH('a) \<Longrightarrow> unat (a * b) = unat a * unat b"
  by (simp add: unat_word_ariths)

lemma unat_minus_no_borrow:
  fixes a b :: "'a::len word"
  shows "b \<le> a \<Longrightarrow> unat (a - b) = unat a - unat b"
  by (rule unat_sub)

lemma checked_add_Some_iff [checked_simps]:
  "checked_add a b = Some c \<longleftrightarrow> unat c = unat a + unat b"
  for a b c :: "'a::len word"
proof
  show "unat c = unat a + unat b" if "checked_add a b = Some c"
    using that by (auto simp: checked_add_def unat_plus_no_ovf split: if_splits)
  show "checked_add a b = Some c" if "unat c = unat a + unat b"
    using that unat_lt_2p [of c]
    by (simp add: checked_add_def word_unat_eq_iff unat_plus_no_ovf)
qed

lemma checked_add_None_iff [checked_simps]:
  "checked_add a b = None \<longleftrightarrow> 2 ^ LENGTH('a) \<le> unat a + unat b"
  for a b :: "'a::len word"
  by (auto simp: checked_add_def)

lemma checked_sub_Some_iff [checked_simps]:
  "checked_sub a b = Some c \<longleftrightarrow> unat a = unat b + unat c"
  for a b c :: "'a::len word"
proof -
  have "unat b \<le> unat a \<Longrightarrow> unat a = unat b + unat (a - b)"
    by (simp add: unat_minus_no_borrow word_le_nat_alt)
  then show ?thesis
    by (auto simp: checked_sub_def word_le_nat_alt word_unat_eq_iff)
qed

lemma checked_sub_None_iff [checked_simps]:
  "checked_sub a b = None \<longleftrightarrow> unat a < unat b"
  for a b :: "'a::len word"
  by (auto simp: checked_sub_def word_le_nat_alt)

lemma checked_mul_Some_iff [checked_simps]:
  "checked_mul a b = Some c \<longleftrightarrow> unat c = unat a * unat b"
  for a b c :: "'a::len word"
proof
  show "unat c = unat a * unat b" if "checked_mul a b = Some c"
    using that by (auto simp: checked_mul_def unat_times_no_ovf split: if_splits)
  show "checked_mul a b = Some c" if "unat c = unat a * unat b"
    using that unat_lt_2p [of c]
    by (simp add: checked_mul_def word_unat_eq_iff unat_times_no_ovf)
qed

lemma checked_mul_None_iff [checked_simps]:
  "checked_mul a b = None \<longleftrightarrow> 2 ^ LENGTH('a) \<le> unat a * unat b"
  for a b :: "'a::len word"
  by (auto simp: checked_mul_def)

lemma unat_saturating_add [checked_simps]:
  "unat (saturating_add a b) = min (unat a + unat b) (2 ^ LENGTH('a) - 1)"
  for a b :: "'a::len word"
proof (cases "unat a + unat b < 2 ^ LENGTH('a)")
  case True
  then show ?thesis by (simp add: saturating_add_def unat_plus_no_ovf)
next
  case False
  then have "unat (saturating_add a b) = unat (- 1 :: 'a word)"
    by (simp add: saturating_add_def)
  then show ?thesis using False by (simp add: unsigned_minus_1_eq_mask mask_eq_exp_minus_1)
qed

lemma unat_saturating_sub [checked_simps]:
  "unat (saturating_sub a b) = unat a - unat b"
  for a b :: "'a::len word"
  by (auto simp: saturating_sub_def unat_minus_no_borrow word_le_nat_alt)

text \<open>Code equations over the integers: natural numbers would be evaluated in unary.\<close>

lemma checked_arith_code [code]:
  fixes a b :: "'a::len word"
  shows "checked_add a b = (if uint a + uint b < 2 ^ LENGTH('a) then Some (a + b) else None)"
    and "checked_mul a b = (if uint a * uint b < 2 ^ LENGTH('a) then Some (a * b) else None)"
    and "saturating_add a b = (if uint a + uint b < 2 ^ LENGTH('a) then a + b else - 1)"
proof -
  have "uint a + uint b = int (unat a + unat b)" "uint a * uint b = int (unat a * unat b)"
    "(2 :: int) ^ LENGTH('a) = int (2 ^ LENGTH('a))" by simp_all
  then have "uint a + uint b < 2 ^ LENGTH('a) \<longleftrightarrow> unat a + unat b < 2 ^ LENGTH('a)"
    "uint a * uint b < 2 ^ LENGTH('a) \<longleftrightarrow> unat a * unat b < 2 ^ LENGTH('a)"
    by (simp_all only: of_nat_less_iff)
  then show "checked_add a b = (if uint a + uint b < 2 ^ LENGTH('a) then Some (a + b) else None)"
    "checked_mul a b = (if uint a * uint b < 2 ^ LENGTH('a) then Some (a * b) else None)"
    "saturating_add a b = (if uint a + uint b < 2 ^ LENGTH('a) then a + b else - 1)"
    by (simp_all only: checked_add_def checked_mul_def saturating_add_def)
qed

text \<open>
  The plain operators of Rust on unsigned integers: an overflow is a panic in a build with
  overflow checks, and the model takes that reading everywhere.
\<close>

definition padd :: "'a::len word \<Rightarrow> 'a word \<Rightarrow> ('e, 'a word) outcome" where
  "padd a b = unwrap_opt (checked_add a b)"

definition psub :: "'a::len word \<Rightarrow> 'a word \<Rightarrow> ('e, 'a word) outcome" where
  "psub a b = unwrap_opt (checked_sub a b)"

definition pmul :: "'a::len word \<Rightarrow> 'a word \<Rightarrow> ('e, 'a word) outcome" where
  "pmul a b = unwrap_opt (checked_mul a b)"

definition pdiv :: "'a::len word \<Rightarrow> 'a word \<Rightarrow> ('e, 'a word) outcome" where
  "pdiv a b = (if b = 0 then Panic else Ok (a div b))"

definition pmod :: "'a::len word \<Rightarrow> 'a word \<Rightarrow> ('e, 'a word) outcome" where
  "pmod a b = (if b = 0 then Panic else Ok (a mod b))"

lemmas plain_arith_defs = padd_def psub_def pmul_def pdiv_def pmod_def

lemma plain_arith_Ok_iffs [checked_simps]:
  "padd a b = Ok c \<longleftrightarrow> unat c = unat a + unat b"
  "psub a b = Ok c \<longleftrightarrow> unat a = unat b + unat c"
  "pmul a b = Ok c \<longleftrightarrow> unat c = unat a * unat b"
  "pdiv a b = Ok c \<longleftrightarrow> b \<noteq> 0 \<and> c = a div b"
  "pmod a b = Ok c \<longleftrightarrow> b \<noteq> 0 \<and> c = a mod b"
  by (auto simp: plain_arith_defs outcome_simps checked_simps)

lemma plain_arith_Panic_iffs [checked_simps]:
  fixes a b :: "'a::len word"
  shows "padd a b = Panic \<longleftrightarrow> 2 ^ LENGTH('a) \<le> unat a + unat b"
    and "psub a b = Panic \<longleftrightarrow> unat a < unat b"
    and "pmul a b = Panic \<longleftrightarrow> 2 ^ LENGTH('a) \<le> unat a * unat b"
    and "pdiv a b = Panic \<longleftrightarrow> b = 0"
    and "pmod a b = Panic \<longleftrightarrow> b = 0"
  by (auto simp: plain_arith_defs outcome_simps checked_simps)

lemma plain_arith_no_Err [checked_simps]:
  "padd a b \<noteq> Err e" "psub a b \<noteq> Err e" "pmul a b \<noteq> Err e" "pdiv a b \<noteq> Err e" "pmod a b \<noteq> Err e"
  by (auto simp: plain_arith_defs outcome_simps)

lemma add_mod_cancel:
  fixes x y m a :: nat
  assumes "(a + x) mod m = (a + y) mod m" and "x < m" and "y < m"
  shows "x = y"
proof -
  have "\<not> u < v" if "(a + u) mod m = (a + v) mod m" "u < m" "v < m" for u v
  proof
    assume "u < v"
    then have "m dvd (a + v) - (a + u)" using that(1) mod_eq_dvd_iff_nat [of "a + u" "a + v" m] by simp
    with \<open>u < v\<close> that(3) show False using nat_dvd_not_less [of "v - u" m] by simp
  qed
  then show ?thesis using assms by (metis linorder_neqE_nat)
qed

section \<open>Out-of-range reads\<close>

fun nth_opt :: "'a list \<Rightarrow> nat \<Rightarrow> 'a option" where
  "nth_opt [] i = None"
| "nth_opt (x # xs) 0 = Some x"
| "nth_opt (x # xs) (Suc i) = nth_opt xs i"

lemma nth_opt_eq: "nth_opt xs i = (if i < length xs then Some (xs ! i) else None)"
  by (induction xs i rule: nth_opt.induct) auto

lemma nth_opt_Some_iff: "nth_opt xs i = Some x \<longleftrightarrow> i < length xs \<and> xs ! i = x"
  by (auto simp: nth_opt_eq)

lemma nth_opt_in_set: "nth_opt xs i = Some x \<Longrightarrow> x \<in> set xs"
  by (auto simp: nth_opt_eq split: if_splits)

lemma nth_opt_size [termination_simp]:
  "nth_opt xs i = Some x \<Longrightarrow> f x < Suc (size_list f xs)"
  using nth_opt_in_set [of xs i x] size_list_estimation [of x xs "f x - 1" f]
    size_list_estimation' [of x xs "f x" f] by simp

section \<open>Association lists\<close>

lemma distinct_concat_nth:
  assumes "\<And>xs. xs \<in> set xss \<Longrightarrow> distinct xs"
    and "\<And>i j. i < j \<Longrightarrow> j < length xss \<Longrightarrow> set (xss ! i) \<inter> set (xss ! j) = {}"
  shows "distinct (concat xss)"
  using assms
proof (induction xss)
  case (Cons xs xss)
  have "set xs \<inter> set (xss ! j) = {}" if "j < length xss" for j
    using Cons.prems(2) [of 0 "Suc j"] that by simp
  then have "set xs \<inter> set (concat xss) = {}" by (force simp: in_set_conv_nth)
  moreover have "distinct (concat xss)"
    using Cons.IH Cons.prems(1) Cons.prems(2) [of "Suc _" "Suc _"] by simp
  ultimately show ?case using Cons.prems(1) by simp
qed simp

lemma map_of_append_insert:
  assumes "i \<notin> fst ` set xs"
  shows "map_of (xs @ (i, x) # ys) = (map_of (xs @ ys))(i \<mapsto> x)"
proof
  fix j
  have "map_of xs i = None" using assms by (simp add: map_of_eq_None_iff)
  then show "map_of (xs @ (i, x) # ys) j = ((map_of (xs @ ys))(i \<mapsto> x)) j"
    by (cases "map_of xs j") (auto simp: map_add_def)
qed

lemma map_of_append_remove:
  assumes "i \<notin> fst ` set xs" and "i \<notin> fst ` set ys"
  shows "(map_of (xs @ (i, x) # ys))(i := None) = map_of (xs @ ys)"
proof
  fix j
  have "map_of xs i = None" "map_of ys i = None" using assms by (simp_all add: map_of_eq_None_iff)
  then show "((map_of (xs @ (i, x) # ys))(i := None)) j = map_of (xs @ ys) j"
    by (cases "map_of xs j") (auto simp: map_add_def)
qed

text \<open>Quantities summed over the values of a finite map.\<close>

lemma sum_map_remove:
  fixes g :: "'v \<Rightarrow> nat"
  assumes "finite (dom m)" and "m p = Some x"
  shows "(\<Sum>q \<in> dom m. g (the (m q))) = (\<Sum>q \<in> dom (m(p := None)). g (the ((m(p := None)) q))) + g x"
proof -
  have "(\<Sum>q \<in> dom m - {p}. g (the ((m(p := None)) q))) = (\<Sum>q \<in> dom m - {p}. g (the (m q)))"
    by (rule sum.cong) auto
  moreover have "p \<in> dom m" using assms(2) by blast
  ultimately show ?thesis using sum.remove [of "dom m" p "\<lambda>q. g (the (m q))"] assms by simp
qed

lemma sum_map_union:
  fixes g :: "'v \<Rightarrow> nat"
  assumes "finite (dom m)" and "finite (dom n)" and "dom m \<inter> dom n = {}"
  shows "(\<Sum>q \<in> dom (m ++ n). g (the ((m ++ n) q))) = (\<Sum>q \<in> dom m. g (the (m q))) + (\<Sum>q \<in> dom n. g (the (n q)))"
proof -
  have "(\<Sum>q \<in> dom m. g (the ((m ++ n) q))) = (\<Sum>q \<in> dom m. g (the (m q)))"
  proof (rule sum.cong)
    fix q assume "q \<in> dom m"
    then have "q \<notin> dom n" using assms(3) by blast
    then show "g (the ((m ++ n) q)) = g (the (m q))" by (simp add: map_add_dom_app_simps)
  qed simp
  moreover have "(\<Sum>q \<in> dom n. g (the ((m ++ n) q))) = (\<Sum>q \<in> dom n. g (the (n q)))"
    by (rule sum.cong) (simp_all add: map_add_dom_app_simps)
  moreover have "(\<Sum>q \<in> dom m \<union> dom n. g (the ((m ++ n) q)))
      = (\<Sum>q \<in> dom m. g (the ((m ++ n) q))) + (\<Sum>q \<in> dom n. g (the ((m ++ n) q)))"
    using assms by (rule sum.union_disjoint)
  ultimately show ?thesis by (simp add: Un_commute)
qed

lemma sum_map_of:
  fixes g :: "'v \<Rightarrow> nat"
  assumes "distinct (map fst xs)"
  shows "(\<Sum>q \<in> dom (map_of xs). g (the (map_of xs q))) = (\<Sum>(k, v) \<leftarrow> xs. g v)"
proof -
  have "(\<Sum>q \<in> dom (map_of xs). g (the (map_of xs q))) = (\<Sum>q \<leftarrow> map fst xs. g (the (map_of xs q)))"
    using sum.distinct_set_conv_list [OF assms, of "\<lambda>q. g (the (map_of xs q))"]
    by (simp add: dom_map_of_conv_image_fst)
  also have "\<dots> = (\<Sum>(k, v) \<leftarrow> xs. g v)"
    using assms by (auto simp: comp_def case_prod_beta intro!: arg_cong [where f = sum_list] map_cong)
  finally show ?thesis .
qed

section \<open>Positions in ascending index lists\<close>

definition insert_at :: "nat \<Rightarrow> 'a \<Rightarrow> 'a list \<Rightarrow> 'a list" where
  "insert_at p x xs = take p xs @ x # drop p xs"

definition remove_at :: "nat \<Rightarrow> 'a list \<Rightarrow> 'a list" where
  "remove_at p xs = take p xs @ drop (Suc p) xs"

lemma length_insert_at [simp]: "p \<le> length xs \<Longrightarrow> length (insert_at p x xs) = Suc (length xs)"
  by (simp add: insert_at_def)

lemma length_remove_at [simp]: "p < length xs \<Longrightarrow> length (remove_at p xs) = length xs - 1"
  by (simp add: remove_at_def)

lemma set_insert_at: "set (insert_at p x xs) = insert x (set xs)"
proof -
  have "set xs = set (take p xs) \<union> set (drop p xs)"
    by (metis append_take_drop_id set_append)
  then show ?thesis by (auto simp: insert_at_def)
qed

lemma zip_insert_at:
  "length is = length xs \<Longrightarrow> p \<le> length is \<Longrightarrow>
   zip (insert_at p i is) (insert_at p x xs) = insert_at p (i, x) (zip is xs)"
  by (simp add: insert_at_def take_zip drop_zip)

lemma zip_remove_at:
  "length is = length xs \<Longrightarrow> p < length is \<Longrightarrow>
   zip (remove_at p is) (remove_at p xs) = remove_at p (zip is xs)"
  by (simp add: remove_at_def take_zip drop_zip)

lemma rank_split:
  fixes xs :: "'a::linorder list" and i :: 'a
  assumes "sorted xs" and "distinct xs"
  defines "r \<equiv> length (filter (\<lambda>j. j < i) xs)"
  shows "take r xs = filter (\<lambda>j. j < i) xs" and "drop r xs = filter (\<lambda>j. \<not> j < i) xs"
proof -
  have "take r xs = filter (\<lambda>j. j < i) xs \<and> drop r xs = filter (\<lambda>j. \<not> j < i) xs"
    using assms(1,2) unfolding r_def
  proof (induction xs)
    case (Cons x xs)
    show ?case
    proof (cases "x < i")
      case True
      with Cons show ?thesis by simp
    next
      case False
      with Cons.prems have ge: "\<forall>y \<in> set xs. \<not> y < i" by fastforce
      then have none: "filter (\<lambda>j. j < i) xs = []" by (simp add: filter_empty_conv)
      from ge have "filter (\<lambda>j. \<not> j < i) xs = xs" by (simp add: filter_id_conv)
      with False none show ?thesis by simp
    qed
  qed simp
  then show "take r xs = filter (\<lambda>j. j < i) xs" "drop r xs = filter (\<lambda>j. \<not> j < i) xs"
    by blast+
qed

lemma sorted_nth_rank:
  fixes xs :: "'a::linorder list" and i :: 'a
  assumes "sorted xs" and "distinct xs" and "i \<in> set xs"
  defines "r \<equiv> length (filter (\<lambda>j. j < i) xs)"
  shows "r < length xs" and "xs ! r = i"
proof -
  have split: "xs = filter (\<lambda>j. j < i) xs @ filter (\<lambda>j. \<not> j < i) xs"
    using rank_split [OF assms(1,2), of i] append_take_drop_id [of r xs] unfolding r_def by simp
  from assms(3) have mem: "i \<in> set (filter (\<lambda>j. \<not> j < i) xs)" by simp
  then obtain y ys where ys: "filter (\<lambda>j. \<not> j < i) xs = y # ys"
    by (cases "filter (\<lambda>j. \<not> j < i) xs") auto
  from ys have "y \<in> set (filter (\<lambda>j. \<not> j < i) xs)" by simp
  then have "\<not> y < i" by simp
  moreover have "sorted (y # ys)" using sorted_wrt_filter [OF assms(1)] ys by metis
  ultimately have "y = i" using mem ys by fastforce
  with split ys show "r < length xs" "xs ! r = i"
    unfolding r_def by (metis length_append length_Cons less_add_Suc1 add_Suc_right, metis nth_append_length)
qed

end
