(* ===== verification/Bit_Index.thy ===== *)
theory Bit_Index
  imports Prelude
begin

text \<open>
  Bitmaps that index compact arrays. Both the hash trie (\<open>imhamt/src/bitmap.rs\<close>) and the
  sparse array (\<open>sparse-array/src/bitmap.rs\<close>) keep an array with one cell per set bit and
  find the cell of an index by counting the set bits below it. What a client needs of such
  a bitmap is the locale \<open>bitmap_index\<close>; the laws of the array (read, insert, overwrite,
  delete) are proved in it once, for every bitmap that interprets it.
\<close>

section \<open>Set bits of a word\<close>

text \<open>\<open>u32::count_ones\<close>, \<open>u128::count_ones\<close> and \<open>u128::trailing_zeros\<close>.\<close>

definition ones :: "'a::len word \<Rightarrow> nat list" where
  "ones w = filter (bit w) [0..<LENGTH('a)]"

definition count_ones :: "'a::len word \<Rightarrow> nat" where
  "count_ones w = length (ones w)"

definition trailing_zeros :: "'a::len word \<Rightarrow> nat" where
  "trailing_zeros w = (case ones w of [] \<Rightarrow> LENGTH('a) | i # _ \<Rightarrow> i)"

lemma set_ones [simp]: "set (ones (w :: 'a::len word)) = {i. bit w i}"
  by (auto simp: ones_def dest: bit_imp_le_length)

lemma sorted_ones [simp]: "sorted (ones w)" and distinct_ones [simp]: "distinct (ones w)"
  by (simp_all add: ones_def sorted_wrt_filter)

lemma ones_zero [simp]: "ones 0 = []"
  by (simp add: ones_def)

lemma ones_eq_Nil_iff [simp]: "ones (w :: 'a::len word) = [] \<longleftrightarrow> w = 0"
proof
  assume "ones w = []"
  then have "{i. bit w i} = {}" by (metis set_ones set_empty)
  then show "w = 0" by (auto intro: bit_word_eqI)
qed simp

lemma count_ones_le: "count_ones (w :: 'a::len word) \<le> LENGTH('a)"
  unfolding count_ones_def ones_def by (metis length_filter_le length_upt diff_zero)

lemma count_ones_eq_0_iff [simp]: "count_ones w = 0 \<longleftrightarrow> w = 0"
  by (simp add: count_ones_def)

lemma ones_and_mask: "ones (w AND mask i) = filter (\<lambda>j. j < i) (ones w)"
  for w :: "'a::len word"
  by (rule sorted_distinct_set_unique) (auto simp: bit_simps sorted_wrt_filter dest: bit_imp_le_length)

text \<open>\<open>1 << i\<close> is written \<open>2 ^ i\<close>, the simplifier's normal form of \<open>push_bit i 1\<close>.\<close>

lemma count_ones_below: "count_ones (w AND (2 ^ i - 1)) = length (filter (\<lambda>j. j < i) (ones w))"
  for w :: "'a::len word"
proof -
  have "2 ^ i - 1 = (mask i :: 'a word)"
    by (simp add: mask_eq_exp_minus_1)
  then show ?thesis by (simp add: count_ones_def ones_and_mask)
qed

lemma and_bit_eq_0_iff: "w AND 2 ^ i = 0 \<longleftrightarrow> \<not> bit w i" if "i < LENGTH('a)"
  for w :: "'a::len word"
proof -
  have "w AND 2 ^ i = (if bit w i then 2 ^ i else 0)"
    by (rule bit_word_eqI) (auto simp: bit_simps)
  moreover have "(2 ^ i :: 'a word) \<noteq> 0" using that by simp
  ultimately show ?thesis by simp
qed

lemma bit_or_push: "bit (w OR 2 ^ i) j \<longleftrightarrow> bit w j \<or> j = i" if "i < LENGTH('a)"
  for w :: "'a::len word"
  using that by (auto simp: bit_simps)

lemma bit_and_not_push: "bit (w AND NOT (2 ^ i)) j \<longleftrightarrow> bit w j \<and> j \<noteq> i"
  for w :: "'a::len word"
  by (auto simp: bit_simps dest: bit_imp_le_length)

lemma trailing_zeros_props:
  fixes w :: "'a::len word"
  shows "trailing_zeros w < LENGTH('a) \<longleftrightarrow> w \<noteq> 0"
    and "w \<noteq> 0 \<Longrightarrow> ones w = trailing_zeros w # tl (ones w)"
proof -
  have "ones w = i # is \<Longrightarrow> i < LENGTH('a)" for i "is"
    by (metis bit_imp_le_length list.set_intros(1) mem_Collect_eq set_ones)
  then show "trailing_zeros w < LENGTH('a) \<longleftrightarrow> w \<noteq> 0"
    by (auto simp: trailing_zeros_def split: list.splits)
  show "w \<noteq> 0 \<Longrightarrow> ones w = trailing_zeros w # tl (ones w)"
    by (auto simp: trailing_zeros_def split: list.splits)
qed

section \<open>The interface of an index bitmap\<close>

locale bitmap_index =
  fixes elems :: "'b \<Rightarrow> 'i::linorder list"
    and rank :: "'b \<Rightarrow> 'i \<Rightarrow> nat"
    and add :: "'b \<Rightarrow> 'i \<Rightarrow> 'b"
    and del :: "'b \<Rightarrow> 'i \<Rightarrow> 'b"
    and valid :: "'i \<Rightarrow> bool"
  assumes elems_sorted: "sorted (elems b)"
    and elems_distinct: "distinct (elems b)"
    and elems_valid: "i \<in> set (elems b) \<Longrightarrow> valid i"
    and rank_count: "valid i \<Longrightarrow> rank b i = length (filter (\<lambda>j. j < i) (elems b))"
    and elems_add_set: "valid i \<Longrightarrow> set (elems (add b i)) = insert i (set (elems b))"
    and elems_del_set: "valid i \<Longrightarrow> set (elems (del b i)) = set (elems b) - {i}"
begin

lemma rank_le: "valid i \<Longrightarrow> rank b i \<le> length (elems b)"
  by (simp add: rank_count)

lemma rank_less: "i \<in> set (elems b) \<Longrightarrow> rank b i < length (elems b)"
  and nth_rank: "i \<in> set (elems b) \<Longrightarrow> elems b ! rank b i = i"
  using sorted_nth_rank [OF elems_sorted elems_distinct] rank_count elems_valid by metis+

lemma elems_add: "valid i \<Longrightarrow> i \<notin> set (elems b) \<Longrightarrow> elems (add b i) = insert_at (rank b i) i (elems b)"
proof (rule sorted_distinct_set_unique)
  assume v: "valid i" and n: "i \<notin> set (elems b)"
  let ?lo = "filter (\<lambda>j. j < i) (elems b)" and ?hi = "filter (\<lambda>j. \<not> j < i) (elems b)"
  have eq: "insert_at (rank b i) i (elems b) = ?lo @ i # ?hi"
    unfolding insert_at_def rank_count [OF v]
    using rank_split [OF elems_sorted [of b] elems_distinct [of b], of i] by simp
  show "sorted (insert_at (rank b i) i (elems b))"
    unfolding eq by (auto simp: sorted_append elems_sorted sorted_wrt_filter)
  show "distinct (insert_at (rank b i) i (elems b))"
    unfolding eq using n by (auto simp: elems_distinct)
  show "set (elems (add b i)) = set (insert_at (rank b i) i (elems b))"
    using v by (simp add: elems_add_set set_insert_at)
qed (simp_all add: elems_sorted elems_distinct)

lemma elems_del: "i \<in> set (elems b) \<Longrightarrow> elems (del b i) = remove_at (rank b i) (elems b)"
proof (rule sorted_distinct_set_unique)
  assume m: "i \<in> set (elems b)"
  let ?r = "rank b i"
  have r: "?r < length (elems b)" "elems b ! ?r = i" using rank_less [OF m] nth_rank [OF m] by auto
  have split: "elems b = take ?r (elems b) @ i # drop (Suc ?r) (elems b)"
    using r id_take_nth_drop [of ?r "elems b"] by simp
  have "sorted (take ?r (elems b) @ i # drop (Suc ?r) (elems b))"
    using elems_sorted split by metis
  then show "sorted (remove_at ?r (elems b))"
    by (auto simp: remove_at_def sorted_append)
  have d: "distinct (take ?r (elems b) @ i # drop (Suc ?r) (elems b))"
    using elems_distinct split by metis
  then show "distinct (remove_at ?r (elems b))" by (auto simp: remove_at_def)
  have "set (elems b) = insert i (set (remove_at ?r (elems b)))"
    by (subst split) (auto simp: remove_at_def)
  moreover have "i \<notin> set (remove_at ?r (elems b))" using d by (auto simp: remove_at_def)
  ultimately show "set (elems (del b i)) = set (remove_at ?r (elems b))"
    using elems_del_set [OF elems_valid [OF m]] by auto
qed (simp_all add: elems_sorted elems_distinct)

text \<open>
  The compact array as a map from indices: cell \<open>rank b i\<close> holds the value of index \<open>i\<close>.
\<close>

lemma cell_None_iff:
  "length xs = length (elems b) \<Longrightarrow> map_of (zip (elems b) xs) i = None \<longleftrightarrow> i \<notin> set (elems b)"
  by (simp add: map_of_zip_is_None)

lemma cell_get:
  "length xs = length (elems b) \<Longrightarrow> i \<in> set (elems b) \<Longrightarrow>
   map_of (zip (elems b) xs) i = Some (xs ! rank b i)"
  using map_of_zip_nth [of "elems b" xs "rank b i"] elems_distinct nth_rank [of i b] rank_less [of i b]
  by simp

lemma cell_overwrite:
  assumes "length xs = length (elems b)" and "i \<in> set (elems b)"
  shows "map_of (zip (elems b) (xs[rank b i := x])) = (map_of (zip (elems b) xs))(i \<mapsto> x)"
proof
  fix j
  show "map_of (zip (elems b) (xs[rank b i := x])) j = ((map_of (zip (elems b) xs))(i \<mapsto> x)) j"
  proof (cases "j \<in> set (elems b)")
    case True
    have "j \<noteq> i \<Longrightarrow> rank b j \<noteq> rank b i" using nth_rank True assms(2) by metis
    then show ?thesis
      using True assms cell_get [of "xs[rank b i := x]" b j] cell_get [of xs b j] rank_less [of i b]
      by auto
  next
    case False
    then have "map_of (zip (elems b) xs) j = None" "map_of (zip (elems b) (xs[rank b i := x])) j = None"
      using assms(1) by (subst cell_None_iff; simp)+
    with False assms(2) show ?thesis by auto
  qed
qed

lemma cell_insert:
  assumes "length xs = length (elems b)" and "valid i" and "i \<notin> set (elems b)"
  shows "map_of (zip (elems (add b i)) (insert_at (rank b i) x xs)) = (map_of (zip (elems b) xs))(i \<mapsto> x)"
    and "length (insert_at (rank b i) x xs) = length (elems (add b i))"
proof -
  let ?z = "zip (elems b) xs" and ?r = "rank b i"
  have le: "?r \<le> length (elems b)" using rank_le assms(2) by blast
  have "i \<notin> fst ` set (take ?r ?z)"
    using assms(3) by (auto dest!: in_set_takeD set_zip_leftD)
  then have "map_of (take ?r ?z @ (i, x) # drop ?r ?z) = (map_of (take ?r ?z @ drop ?r ?z))(i \<mapsto> x)"
    by (rule map_of_append_insert)
  then show "map_of (zip (elems (add b i)) (insert_at ?r x xs)) = (map_of ?z)(i \<mapsto> x)"
    using assms le zip_insert_at [of "elems b" xs ?r i x]
    by (simp add: elems_add insert_at_def del: map_of_append)
  show "length (insert_at ?r x xs) = length (elems (add b i))"
    using assms le by (simp add: elems_add)
qed

lemma cell_remove:
  assumes "length xs = length (elems b)" and "i \<in> set (elems b)"
  shows "map_of (zip (elems (del b i)) (remove_at (rank b i) xs)) = (map_of (zip (elems b) xs))(i := None)"
    and "length (remove_at (rank b i) xs) = length (elems (del b i))"
proof -
  let ?z = "zip (elems b) xs" and ?r = "rank b i"
  have r: "?r < length (elems b)" "elems b ! ?r = i" using rank_less nth_rank assms(2) by auto
  then have split: "?z = take ?r ?z @ (i, xs ! ?r) # drop (Suc ?r) ?z"
    using id_take_nth_drop [of ?r ?z] assms(1) by simp
  have "distinct (map fst ?z)" using assms(1) elems_distinct by simp
  then have "distinct (map fst (take ?r ?z @ (i, xs ! ?r) # drop (Suc ?r) ?z))"
    using split by metis
  then have out: "i \<notin> fst ` set (take ?r ?z)" "i \<notin> fst ` set (drop (Suc ?r) ?z)" by auto
  have "(map_of (take ?r ?z @ (i, xs ! ?r) # drop (Suc ?r) ?z))(i := None)
      = map_of (take ?r ?z @ drop (Suc ?r) ?z)"
    using out by (rule map_of_append_remove)
  then show "map_of (zip (elems (del b i)) (remove_at ?r xs)) = (map_of ?z)(i := None)"
    using split assms r zip_remove_at [of "elems b" xs ?r] elems_del [OF assms(2)]
    by (simp add: remove_at_def del: map_of_append)
  show "length (remove_at ?r xs) = length (elems (del b i))"
    using assms r by (simp add: elems_del)
qed

lemma elems_eqI: "set (elems b) = set (elems c) \<Longrightarrow> elems b = elems c"
  by (rule sorted_distinct_set_unique) (simp_all add: elems_sorted elems_distinct)

end

end
