(* ===== verification/Imhamt.thy ===== *)
theory Imhamt
  imports Bit_Index
begin

text \<open>
  The immutable hash array mapped trie of \<open>imhamt/src\<close>: bitmaps and array indices
  (\<open>bitmap.rs\<close>), level indices of a hash (\<open>hash.rs\<close>), array helpers (\<open>helper.rs\<close>), errors
  (\<open>operation.rs\<close>), nodes and the recursive operations on them (\<open>node/reference.rs\<close>).
  The hash function of the key type is code outside the repository: it is the argument
  \<open>hf\<close> of the well-formedness predicate and of the map operations.

  Every \<open>assert!\<close>, \<open>unreachable!\<close> and out-of-range slice access is a \<open>Panic\<close> branch.
  Reference-counted pointers share immutable entries, so they are transparent here.
\<close>

section \<open>Hash and level indices\<close>

text \<open>
  A level reads five bits of the hash; the shift wraps at 64. Levels stay far below the
  point where \<open>level as u32 * 5\<close> overflows: see \<open>wf_entry\<close>.
\<close>

definition level_index :: "u64 \<Rightarrow> nat \<Rightarrow> nat" where
  "level_index h level = unat (drop_bit ((level * 5) mod 64) h AND 31)"

definition level_mask :: "nat \<Rightarrow> u32" where
  "level_mask idx = push_bit (idx mod 32) 1"

section \<open>Bitmaps and array indices\<close>

type_synonym small_bitmap = u32

definition small_bitmap_new :: small_bitmap where
  "small_bitmap_new = 0"

definition small_bitmap_is_empty :: "small_bitmap \<Rightarrow> bool" where
  "small_bitmap_is_empty b \<longleftrightarrow> b = 0"

definition present :: "small_bitmap \<Rightarrow> nat" where
  "present b = count_ones b"

definition once :: "nat \<Rightarrow> small_bitmap" where
  "once idx = level_mask idx"

type_synonym array_index = nat

definition not_found :: array_index where
  "not_found = 255"

definition is_not_found :: "array_index \<Rightarrow> bool" where
  "is_not_found i \<longleftrightarrow> i = 255"

definition get_found :: "array_index \<Rightarrow> ('e, nat) outcome" where
  "get_found i = (if is_not_found i then Panic else Ok i)"

definition get_index_sparse :: "small_bitmap \<Rightarrow> nat \<Rightarrow> array_index" where
  "get_index_sparse b idx =
     (let m = level_mask idx
      in if b AND m = 0 then not_found else count_ones (b AND (m - 1)))"

definition get_sparse_pos :: "small_bitmap \<Rightarrow> nat \<Rightarrow> array_index" where
  "get_sparse_pos b idx = count_ones (b AND (level_mask idx - 1))"

definition is_set :: "small_bitmap \<Rightarrow> nat \<Rightarrow> bool" where
  "is_set b idx \<longleftrightarrow> b AND level_mask idx \<noteq> 0"

definition set_index :: "small_bitmap \<Rightarrow> nat \<Rightarrow> small_bitmap" where
  "set_index b idx = b OR level_mask idx"

definition clear_index :: "small_bitmap \<Rightarrow> nat \<Rightarrow> small_bitmap" where
  "clear_index b idx = b AND NOT (level_mask idx)"

section \<open>Array helpers\<close>

definition clone_array_and_insert_at_pos :: "'a list \<Rightarrow> 'a \<Rightarrow> nat \<Rightarrow> ('e, 'a list) outcome" where
  "clone_array_and_insert_at_pos v a pos =
     (if pos \<le> length v then Ok (insert_at pos a v) else Panic)"

definition clone_array_and_set_at_pos :: "'a list \<Rightarrow> 'a \<Rightarrow> nat \<Rightarrow> ('e, 'a list) outcome" where
  "clone_array_and_set_at_pos v a pos =
     (if pos \<le> length v then Ok (take pos v @ a # drop (pos + 1) v) else Panic)"

definition clone_array_and_remove_at_pos :: "'a list \<Rightarrow> nat \<Rightarrow> ('e, 'a list) outcome" where
  "clone_array_and_remove_at_pos v pos =
     (if pos < length v then Ok (remove_at pos v) else Panic)"

definition clone_array_and_extend :: "'a list \<Rightarrow> 'a \<Rightarrow> 'a list" where
  "clone_array_and_extend v a = v @ [a]"

section \<open>Errors\<close>

datatype insert_error = EntryExists

datatype remove_error = RemoveKeyNotFound | ValueNotMatching

datatype 'u update_error = UpdateKeyNotFound | ValueCallbackError 'u

datatype replace_error = ReplaceKeyNotFound

section \<open>Nodes, entries and collisions\<close>

type_synonym ('k, 'v) collision = "('k \<times> 'v) list"

datatype ('k, 'v) node = Node (bitmap: small_bitmap) (children: "('k, 'v) entry list")
  and ('k, 'v) entry =
    Leaf u64 'k 'v
  | LeafMany u64 "('k, 'v) collision"
  | SubNode "('k, 'v) node"

definition collision_from_vec :: "('k \<times> 'v) list \<Rightarrow> ('e, ('k, 'v) collision) outcome" where
  "collision_from_vec vec = (if length vec \<ge> 2 then Ok vec else Panic)"

definition collision_insert ::
  "('k, 'v) collision \<Rightarrow> 'k \<Rightarrow> 'v \<Rightarrow> (insert_error, ('k, 'v) collision) outcome" where
  "collision_insert col k v =
     (if list_ex (\<lambda>(lk, _). lk = k) col then Err EntryExists
      else collision_from_vec (clone_array_and_extend col (k, v)))"

text \<open>\<open>enumerate().find(..)\<close>: the first pair with the key, and its position.\<close>

fun find_record :: "nat \<Rightarrow> ('k \<times> 'v) list \<Rightarrow> 'k \<Rightarrow> (nat \<times> 'k \<times> 'v) option" where
  "find_record i [] k = None"
| "find_record i ((fk, fv) # rest) k =
     (if fk = k then Some (i, fk, fv) else find_record (Suc i) rest k)"

definition get_record_and_pos :: "('k, 'v) collision \<Rightarrow> 'k \<Rightarrow> (nat \<times> 'k \<times> 'v) option" where
  "get_record_and_pos col k = find_record 0 col k"

text \<open>
  Dropping the pair at a position: a collision of two becomes a leaf again. The source
  repeats this block in \<open>remove\<close>, \<open>remove_match\<close> and \<open>update\<close>.
\<close>

definition collision_drop_at ::
  "u64 \<Rightarrow> ('k, 'v) collision \<Rightarrow> nat \<Rightarrow> ('e, ('k, 'v) entry) outcome" where
  "collision_drop_at h col pos =
     (if length col = 2
      then case nth_opt col (if pos = 0 then 1 else 0) of
             None \<Rightarrow> Panic
           | Some (k, v) \<Rightarrow> Ok (Leaf h k v)
      else obind (clone_array_and_remove_at_pos col pos) (\<lambda>b.
           obind (collision_from_vec b) (\<lambda>c. Ok (LeafMany h c))))"

definition collision_remove ::
  "('k, 'v) collision \<Rightarrow> u64 \<Rightarrow> 'k \<Rightarrow> (remove_error, ('k, 'v) entry) outcome" where
  "collision_remove col h k =
     (case get_record_and_pos col k of
        None \<Rightarrow> Err RemoveKeyNotFound
      | Some (pos, _) \<Rightarrow> collision_drop_at h col pos)"

definition collision_remove_match ::
  "('k, 'v) collision \<Rightarrow> u64 \<Rightarrow> 'k \<Rightarrow> 'v \<Rightarrow> (remove_error, ('k, 'v) entry) outcome" where
  "collision_remove_match col h k v =
     (case get_record_and_pos col k of
        None \<Rightarrow> Err RemoveKeyNotFound
      | Some (pos, _, fv) \<Rightarrow>
          if fv \<noteq> v then Err ValueNotMatching else collision_drop_at h col pos)"

definition collision_update ::
  "('k, 'v) collision \<Rightarrow> u64 \<Rightarrow> 'k \<Rightarrow> ('v \<Rightarrow> ('u, 'v option) outcome)
   \<Rightarrow> ('u update_error, ('k, 'v) entry) outcome" where
  "collision_update col h k f =
     (case get_record_and_pos col k of
        None \<Rightarrow> Err UpdateKeyNotFound
      | Some (pos, _, v) \<Rightarrow>
          obind (map_err ValueCallbackError (f v)) (\<lambda>r.
            case r of
              None \<Rightarrow> collision_drop_at h col pos
            | Some newv \<Rightarrow>
                obind (clone_array_and_set_at_pos col (k, newv) pos) (\<lambda>b.
                obind (collision_from_vec b) (\<lambda>c. Ok (LeafMany h c)))))"

definition collision_replace ::
  "('k, 'v) collision \<Rightarrow> 'k \<Rightarrow> 'v \<Rightarrow> (replace_error, ('k, 'v) collision \<times> 'v) outcome" where
  "collision_replace col k v =
     (case get_record_and_pos col k of
        None \<Rightarrow> Err ReplaceKeyNotFound
      | Some (pos, _, oldv) \<Rightarrow>
          obind (clone_array_and_set_at_pos col (k, v) pos) (\<lambda>b.
          obind (collision_from_vec b) (\<lambda>c. Ok (c, oldv))))"

definition collision_replace_with ::
  "('k, 'v) collision \<Rightarrow> 'k \<Rightarrow> ('v \<Rightarrow> 'v) \<Rightarrow> (replace_error, ('k, 'v) collision) outcome" where
  "collision_replace_with col k f =
     (case get_record_and_pos col k of
        None \<Rightarrow> Err ReplaceKeyNotFound
      | Some (pos, _, oldv) \<Rightarrow>
          obind (clone_array_and_set_at_pos col (k, f oldv) pos) collision_from_vec)"

definition node_new :: "('k, 'v) node" where
  "node_new = Node small_bitmap_new []"

definition node_singleton :: "nat \<Rightarrow> ('k, 'v) entry \<Rightarrow> ('k, 'v) node" where
  "node_singleton idx child = Node (once idx) [child]"

definition node_is_empty :: "('k, 'v) node \<Rightarrow> bool" where
  "node_is_empty n = small_bitmap_is_empty (bitmap n)"

definition number_children :: "('k, 'v) node \<Rightarrow> nat" where
  "number_children n = present (bitmap n)"

definition get_child :: "('k, 'v) node \<Rightarrow> array_index \<Rightarrow> ('k, 'v) entry option" where
  "get_child n at = (if is_not_found at then None else nth_opt (children n) at)"

definition set_at :: "('k, 'v) node \<Rightarrow> nat \<Rightarrow> ('k, 'v) entry \<Rightarrow> ('e, ('k, 'v) node) outcome" where
  "set_at n idx child =
     (if is_set (bitmap n) idx then Panic
      else obind (get_found (get_sparse_pos (bitmap n) idx)) (\<lambda>pos.
           obind (clone_array_and_insert_at_pos (children n) child pos) (\<lambda>v.
           Ok (Node (set_index (bitmap n) idx) v))))"

definition clear_at :: "('k, 'v) node \<Rightarrow> nat \<Rightarrow> ('e, ('k, 'v) node option) outcome" where
  "clear_at n idx =
     (if \<not> is_set (bitmap n) idx then Panic
      else let new_bitmap = clear_index (bitmap n) idx
           in if small_bitmap_is_empty new_bitmap then Ok None
              else obind (get_found (get_sparse_pos (bitmap n) idx)) (\<lambda>pos.
                   obind (clone_array_and_remove_at_pos (children n) pos) (\<lambda>v.
                   Ok (Some (Node new_bitmap v)))))"

definition replace_at :: "('k, 'v) node \<Rightarrow> array_index \<Rightarrow> ('k, 'v) entry \<Rightarrow> ('e, ('k, 'v) node) outcome" where
  "replace_at n idx child =
     obind (get_found idx) (\<lambda>pos.
       if pos < length (children n) then Ok (Node (bitmap n) ((children n)[pos := child])) else Panic)"

definition clear_or_replace_at ::
  "('k, 'v) node \<Rightarrow> nat \<Rightarrow> ('k, 'v) entry option \<Rightarrow> ('e, ('k, 'v) node option) outcome" where
  "clear_or_replace_at n idx child =
     (if \<not> is_set (bitmap n) idx then Panic
      else case child of
             None \<Rightarrow> clear_at n idx
           | Some v \<Rightarrow> omap Some (replace_at n (get_index_sparse (bitmap n) idx) v))"

section \<open>Levels separate hashes\<close>

lemma level_index_less: "level_index h l < 32"
proof -
  have "unat (drop_bit ((l * 5) mod 64) h AND 31) \<le> unat (31 :: u64)"
    by (rule word_and_le1 [THEN word_le_nat_alt [THEN iffD1]])
  then show ?thesis by (simp add: level_index_def)
qed

lemma level_index_eq_bits:
  assumes "level_index h l = level_index h' l" and "j < 5"
  shows "bit h ((l * 5) mod 64 + j) \<longleftrightarrow> bit h' ((l * 5) mod 64 + j)"
proof -
  have "drop_bit ((l * 5) mod 64) h AND 31 = drop_bit ((l * 5) mod 64) h' AND 31"
    using assms(1) by (simp add: level_index_def word_unat_eq_iff)
  moreover have "(31 :: u64) = mask 5" by (simp add: mask_eq_exp_minus_1)
  ultimately have "bit (drop_bit ((l * 5) mod 64) h AND mask 5) j
      = bit (drop_bit ((l * 5) mod 64) h' AND mask 5) j" by simp
  then show ?thesis using assms(2) by (simp add: bit_simps)
qed

lemma hash_eqI:
  assumes "\<And>l. l \<le> 12 \<Longrightarrow> level_index h l = level_index h' l"
  shows "h = h'"
proof (rule bit_word_eqI)
  fix n assume "n < LENGTH(64)"
  then have n: "n < 64" by simp
  define l where "l = n div 5"
  have l: "l \<le> 12" "(l * 5) mod 64 + n mod 5 = n" using n by (auto simp: l_def)
  show "bit h n \<longleftrightarrow> bit h' n"
    using level_index_eq_bits [OF assms [OF l(1)], of "n mod 5"] l(2) by simp
qed

lemma levels_differ:
  assumes "h \<noteq> h'"
  shows "\<exists>n. level_index h (l + n) \<noteq> level_index h' (l + n)"
proof -
  obtain b where b: "b < 64" "bit h b \<noteq> bit h' b"
    using assms bit_word_eqI [of h h'] by auto
  define m where "m = 64 * l + 13 * b"
  have "(m * 5) mod 64 = (b + 64 * (5 * l + b)) mod 64" by (simp add: m_def algebra_simps)
  also have "\<dots> = b" using b(1) by (metis mod_less mod_mult_self2)
  finally have "level_index h m \<noteq> level_index h' m"
    using level_index_eq_bits [of h m h' 0] b(2) by auto
  moreover have "m = l + (m - l)" by (simp add: m_def)
  ultimately show ?thesis by metis
qed

definition level_gap :: "u64 \<Rightarrow> u64 \<Rightarrow> nat \<Rightarrow> nat" where
  "level_gap h h' l = (LEAST n. level_index h (l + n) \<noteq> level_index h' (l + n))"

lemma level_gap_decreases:
  assumes "h \<noteq> h'" and "level_index h l = level_index h' l"
  shows "level_gap h h' (Suc l) < level_gap h h' l"
proof -
  let ?P = "\<lambda>n. level_index h (l + n) \<noteq> level_index h' (l + n)"
  obtain n where n: "?P n" using levels_differ [OF assms(1)] by blast
  have zero: "\<not> ?P 0" using assms(2) by simp
  have "(LEAST n. ?P n) = Suc (LEAST n. ?P (Suc n))" by (rule Least_Suc [OF n zero])
  then show ?thesis by (simp add: level_gap_def)
qed

section \<open>The recursive operations\<close>

definition leaf_gap :: "('k, 'v) node \<Rightarrow> u64 \<Rightarrow> nat \<Rightarrow> nat" where
  "leaf_gap n h lvl = (case children n of [Leaf lh _ _] \<Rightarrow> level_gap lh h (Suc lvl) | _ \<Rightarrow> 0)"

lemma size_list_nth_opt:
  "nth_opt xs i = Some x \<Longrightarrow> xs = [x] \<or> f x + 1 < size_list f xs"
proof (induction xs i rule: nth_opt.induct)
  case (2 y ys)
  then show ?case by (cases ys) auto
qed auto

lemma get_child_nth_opt: "get_child n at = Some e \<Longrightarrow> nth_opt (children n) at = Some e"
  by (auto simp: get_child_def split: if_splits)

lemma get_child_size [termination_simp]: "get_child n at = Some (SubNode sub) \<Longrightarrow> size sub < size n"
  using nth_opt_size [of "children n" at "SubNode sub" size]
  by (cases n) (auto dest: get_child_nth_opt)

function insert_rec ::
  "('k, 'v) node \<Rightarrow> u64 \<Rightarrow> nat \<Rightarrow> 'k \<Rightarrow> 'v \<Rightarrow> (insert_error, ('k, 'v) node) outcome" where
  "insert_rec node hash lvl key val =
     (let level_hash = level_index hash lvl; idx = get_index_sparse (bitmap node) level_hash
      in if is_not_found idx then set_at node level_hash (Leaf hash key val)
         else case get_child node idx of
           None \<Rightarrow> Panic
         | Some (Leaf lh lk lv) \<Rightarrow>
             if lh = hash then
               (if lk = key then Err EntryExists
                else obind (collision_from_vec [(lk, lv), (key, val)]) (\<lambda>col.
                     replace_at node idx (LeafMany lh col)))
             else
               (let leaf_idx = level_index lh (lvl + 1);
                    entry_next_idx = level_index hash (lvl + 1);
                    subnode = node_singleton leaf_idx (Leaf lh lk lv)
                in if entry_next_idx \<noteq> leaf_idx
                   then obind (set_at subnode entry_next_idx (Leaf hash key val)) (\<lambda>sub.
                        replace_at node idx (SubNode sub))
                   else obind (insert_rec subnode hash (lvl + 1) key val) (\<lambda>r.
                        replace_at node idx (SubNode r)))
         | Some (LeafMany lh col) \<Rightarrow>
             if lh \<noteq> hash then Panic
             else obind (collision_insert col key val) (\<lambda>c. replace_at node idx (LeafMany lh c))
         | Some (SubNode sub) \<Rightarrow>
             if lvl > 13 then Panic
             else obind (insert_rec sub hash (lvl + 1) key val) (\<lambda>r. replace_at node idx (SubNode r)))"
  by pat_completeness auto
termination
proof (relation "measures [\<lambda>(n, h, l, k, v). size n, \<lambda>(n, h, l, k, v). leaf_gap n h l]", goal_cases)
  case (2 node hash lvl key val level_hash idx e lh lk lv leaf_idx entry_next_idx subnode)
  have child: "nth_opt (children node) idx = Some (Leaf lh lk lv)"
    using 2 get_child_nth_opt by metis
  have sizes: "size subnode = Suc (Suc (size (Leaf lh lk lv)))" "children subnode = [Leaf lh lk lv]"
    using 2 by (simp_all add: node_singleton_def)
  have eq: "level_index lh (Suc lvl) = level_index hash (Suc lvl)" "lh \<noteq> hash" using 2 by auto
  show ?case
  proof (cases "children node = [Leaf lh lk lv]")
    case True
    then have "size subnode = size node" using sizes by (cases node) auto
    then show ?thesis
      using True sizes level_gap_decreases [OF eq(2,1)] by (simp add: leaf_gap_def)
  next
    case False
    then have "size subnode < size node"
      using size_list_nth_opt [OF child, of size] sizes by (cases node) auto
    then show ?thesis by simp
  qed
next
  case (3 node hash lvl key val level_hash idx e sub)
  then show ?case using get_child_size by fastforce
qed simp

declare insert_rec.simps [simp del]

datatype ('k, 'v) lookup_ret = Found 'v | NotFound | ContinueIn "('k, 'v) node"

definition lookup_one ::
  "('k, 'v) node \<Rightarrow> u64 \<Rightarrow> nat \<Rightarrow> 'k \<Rightarrow> ('k, 'v) lookup_ret option" where
  "lookup_one node h lvl k =
     (let idx = get_index_sparse (bitmap node) (level_index h lvl)
      in if is_not_found idx then Some NotFound
         else case get_child node idx of
           None \<Rightarrow> None
         | Some (Leaf lh lk lv) \<Rightarrow> Some (if lh = h \<and> lk = k then Found lv else NotFound)
         | Some (LeafMany lh col) \<Rightarrow>
             Some (if lh \<noteq> h then NotFound
                   else case find (\<lambda>(lk, _). lk = k) col of
                          None \<Rightarrow> NotFound
                        | Some lkv \<Rightarrow> Found (snd lkv))
         | Some (SubNode sub) \<Rightarrow> Some (ContinueIn sub))"

text \<open>The loop of \<open>Hamt::lookup\<close>; \<open>None\<close> is the panic of a child out of range.\<close>

lemma lookup_one_size [termination_simp]: "lookup_one n h l k = Some (ContinueIn sub) \<Longrightarrow> size sub < size n"
  by (auto simp: lookup_one_def Let_def get_child_size split: if_splits option.splits entry.splits)

fun lookup_loop :: "('k, 'v) node \<Rightarrow> u64 \<Rightarrow> nat \<Rightarrow> 'k \<Rightarrow> 'v option option" where
  "lookup_loop n h lvl k =
     (case lookup_one n h lvl k of
        None \<Rightarrow> None
      | Some NotFound \<Rightarrow> Some None
      | Some (Found v) \<Rightarrow> Some (Some v)
      | Some (ContinueIn subnode) \<Rightarrow> lookup_loop subnode h (lvl + 1) k)"

declare lookup_loop.simps [simp del]

fun remove_eq_rec ::
  "('k, 'v) node \<Rightarrow> u64 \<Rightarrow> nat \<Rightarrow> 'k \<Rightarrow> 'v \<Rightarrow> (remove_error, ('k, 'v) node option) outcome" where
  "remove_eq_rec node h lvl k v =
     (let level_hash = level_index h lvl; idx = get_index_sparse (bitmap node) level_hash
      in if is_not_found idx then Err RemoveKeyNotFound
         else case get_child node idx of
           None \<Rightarrow> Panic
         | Some (Leaf lh lk lv) \<Rightarrow>
             if lh = h \<and> lk = k
             then (if lv = v then clear_at node level_hash else Err ValueNotMatching)
             else Err RemoveKeyNotFound
         | Some (LeafMany lh col) \<Rightarrow>
             if lh \<noteq> h then Panic
             else obind (collision_remove_match col h k v) (\<lambda>replacement.
                  omap Some (replace_at node idx replacement))
         | Some (SubNode sub) \<Rightarrow>
             obind (remove_eq_rec sub h (lvl + 1) k v) (\<lambda>r.
               case r of
                 None \<Rightarrow> clear_at node level_hash
               | Some newsub \<Rightarrow> omap Some (replace_at node idx (SubNode newsub))))"

fun remove_rec ::
  "('k, 'v) node \<Rightarrow> u64 \<Rightarrow> nat \<Rightarrow> 'k \<Rightarrow> (remove_error, ('k, 'v) node option) outcome" where
  "remove_rec node h lvl k =
     (let level_hash = level_index h lvl; idx = get_index_sparse (bitmap node) level_hash
      in if is_not_found idx then Err RemoveKeyNotFound
         else case get_child node idx of
           None \<Rightarrow> Panic
         | Some (Leaf lh lk lv) \<Rightarrow>
             if lh = h \<and> lk = k then clear_at node level_hash else Err RemoveKeyNotFound
         | Some (LeafMany lh col) \<Rightarrow>
             if lh \<noteq> h then Panic
             else obind (collision_remove col h k) (\<lambda>replacement.
                  omap Some (replace_at node idx replacement))
         | Some (SubNode sub) \<Rightarrow>
             obind (remove_rec sub h (lvl + 1) k) (\<lambda>r.
               case r of
                 None \<Rightarrow> clear_at node level_hash
               | Some newsub \<Rightarrow> omap Some (replace_at node idx (SubNode newsub))))"

fun update_rec ::
  "('k, 'v) node \<Rightarrow> u64 \<Rightarrow> nat \<Rightarrow> 'k \<Rightarrow> ('v \<Rightarrow> ('u, 'v option) outcome)
   \<Rightarrow> ('u update_error, ('k, 'v) node option) outcome" where
  "update_rec node h lvl k f =
     (let level_hash = level_index h lvl; idx = get_index_sparse (bitmap node) level_hash
      in if is_not_found idx then Err UpdateKeyNotFound
         else case get_child node idx of
           None \<Rightarrow> Panic
         | Some (Leaf lh lk lv) \<Rightarrow>
             if lh = h \<and> lk = k
             then obind (map_err ValueCallbackError (f lv)) (\<lambda>newv.
                  clear_or_replace_at node level_hash (map_option (Leaf lh lk) newv))
             else Err UpdateKeyNotFound
         | Some (LeafMany lh col) \<Rightarrow>
             if lh \<noteq> h then Panic
             else obind (collision_update col h k f) (\<lambda>replacement.
                  omap Some (replace_at node idx replacement))
         | Some (SubNode sub) \<Rightarrow>
             obind (update_rec sub h (lvl + 1) k f) (\<lambda>r.
               case r of
                 None \<Rightarrow> clear_at node level_hash
               | Some newsub \<Rightarrow> omap Some (replace_at node idx (SubNode newsub))))"

fun replace_rec ::
  "('k, 'v) node \<Rightarrow> u64 \<Rightarrow> nat \<Rightarrow> 'k \<Rightarrow> 'v \<Rightarrow> (replace_error, ('k, 'v) node \<times> 'v) outcome" where
  "replace_rec node h lvl k v =
     (let level_hash = level_index h lvl; idx = get_index_sparse (bitmap node) level_hash
      in if is_not_found idx then Err ReplaceKeyNotFound
         else case get_child node idx of
           None \<Rightarrow> Panic
         | Some (Leaf lh lk lv) \<Rightarrow>
             if lh = h \<and> lk = k
             then omap (\<lambda>n. (n, lv)) (replace_at node idx (Leaf lh lk v))
             else Err ReplaceKeyNotFound
         | Some (LeafMany lh col) \<Rightarrow>
             if lh \<noteq> h then Panic
             else obind (collision_replace col k v) (\<lambda>(replacement, old_value).
                  omap (\<lambda>n. (n, old_value)) (replace_at node idx (LeafMany lh replacement)))
         | Some (SubNode sub) \<Rightarrow>
             obind (replace_rec sub h (lvl + 1) k v) (\<lambda>(newsub, oldv).
               omap (\<lambda>n. (n, oldv)) (replace_at node idx (SubNode newsub))))"

fun replace_with_rec ::
  "('k, 'v) node \<Rightarrow> u64 \<Rightarrow> nat \<Rightarrow> 'k \<Rightarrow> ('v \<Rightarrow> 'v) \<Rightarrow> (replace_error, ('k, 'v) node) outcome" where
  "replace_with_rec node h lvl k f =
     (let level_hash = level_index h lvl; idx = get_index_sparse (bitmap node) level_hash
      in if is_not_found idx then Err ReplaceKeyNotFound
         else case get_child node idx of
           None \<Rightarrow> Panic
         | Some (Leaf lh lk lv) \<Rightarrow>
             if lh = h \<and> lk = k then replace_at node idx (Leaf lh lk (f lv))
             else Err ReplaceKeyNotFound
         | Some (LeafMany lh col) \<Rightarrow>
             if lh \<noteq> h then Panic
             else obind (collision_replace_with col k f) (\<lambda>replacement.
                  replace_at node idx (LeafMany lh replacement))
         | Some (SubNode sub) \<Rightarrow>
             obind (replace_with_rec sub h (lvl + 1) k f) (\<lambda>newsub.
               replace_at node idx (SubNode newsub)))"

lemmas rec_simps = remove_eq_rec.simps remove_rec.simps update_rec.simps replace_rec.simps
  replace_with_rec.simps

declare rec_simps [simp del]

primrec size_rec :: "('k, 'v) node \<Rightarrow> nat" and size_entry :: "('k, 'v) entry \<Rightarrow> nat" where
  "size_rec (Node bm cs) = sum_list (map size_entry cs)"
| "size_entry (Leaf h k v) = 1"
| "size_entry (LeafMany h col) = length col"
| "size_entry (SubNode sub) = size_rec sub"

text \<open>As in the source, the depth of a child does not count the child itself.\<close>

primrec depth_rec :: "('k, 'v) node \<Rightarrow> nat" and depth_entry :: "('k, 'v) entry \<Rightarrow> nat" where
  "depth_rec (Node bm cs) = fold max (map depth_entry cs) 0"
| "depth_entry (Leaf h k v) = 0"
| "depth_entry (LeafMany h col) = 0"
| "depth_entry (SubNode sub) = depth_rec sub"

section \<open>Cells of a node\<close>

lemma level_mask_pow: "i < 32 \<Longrightarrow> level_mask i = 2 ^ i"
  by (simp add: level_mask_def)

interpretation sb: bitmap_index ones get_sparse_pos set_index clear_index "\<lambda>i. i < 32"
  by unfold_locales
    (auto simp: get_sparse_pos_def set_index_def clear_index_def level_mask_pow count_ones_below
      bit_or_push bit_and_not_push dest: bit_imp_le_length)

text \<open>The child stored for a level index: the specification of the bitmap and array pair.\<close>

definition cell :: "('k, 'v) node \<Rightarrow> nat \<Rightarrow> ('k, 'v) entry option" where
  "cell n = map_of (zip (ones (bitmap n)) (children n))"

definition compact :: "('k, 'v) node \<Rightarrow> bool" where
  "compact n \<longleftrightarrow> length (children n) = length (ones (bitmap n))"

lemma is_set_iff: "i < 32 \<Longrightarrow> is_set b i \<longleftrightarrow> bit b i"
  by (simp add: is_set_def level_mask_pow and_bit_eq_0_iff)

lemma sparse_pos_small: "i < 32 \<Longrightarrow> get_sparse_pos b i \<le> 32"
  using sb.rank_le [of i b] count_ones_le [of b] by (simp add: count_ones_def)

lemma sparse_pos_found [simp]: "i < 32 \<Longrightarrow> \<not> is_not_found (get_sparse_pos b i)"
  using sparse_pos_small [of i b] by (simp add: is_not_found_def)

lemma get_index_sparse_eq:
  "i < 32 \<Longrightarrow> get_index_sparse b i = (if bit b i then get_sparse_pos b i else not_found)"
  by (simp add: get_index_sparse_def get_sparse_pos_def Let_def level_mask_pow and_bit_eq_0_iff)

lemma cell_None_bit: "compact n \<Longrightarrow> cell n i = None \<longleftrightarrow> \<not> bit (bitmap n) i"
  using sb.cell_None_iff [of "children n" "bitmap n" i] by (simp add: cell_def compact_def)

lemma cell_less: "cell n i = Some e \<Longrightarrow> i < 32"
  by (auto simp: cell_def dest!: map_of_SomeD set_zip_leftD bit_imp_le_length)

lemma cell_Some_pos:
  assumes "compact n" and "cell n i = Some e"
  shows "get_sparse_pos (bitmap n) i < length (children n)"
    and "children n ! get_sparse_pos (bitmap n) i = e"
    and "bit (bitmap n) i"
proof -
  show b: "bit (bitmap n) i" using cell_None_bit [OF assms(1), of i] assms(2) by simp
  then have m: "i \<in> set (ones (bitmap n))" by simp
  from sb.rank_less [OF m] assms(1) show "get_sparse_pos (bitmap n) i < length (children n)"
    by (simp add: compact_def)
  from sb.cell_get [OF _ m, of "children n"] assms show "children n ! get_sparse_pos (bitmap n) i = e"
    by (simp add: compact_def cell_def del: map_of_eq_Some_iff)
qed

lemma child_read:
  assumes "compact n" and "i < 32"
  shows "is_not_found (get_index_sparse (bitmap n) i) \<longleftrightarrow> cell n i = None"
    and "get_child n (get_index_sparse (bitmap n) i) = cell n i"
proof -
  show nf: "is_not_found (get_index_sparse (bitmap n) i) \<longleftrightarrow> cell n i = None"
    using assms cell_None_bit [OF assms(1), of i]
    by (simp add: get_index_sparse_eq is_not_found_def not_found_def)
      (use sparse_pos_found [OF assms(2), of "bitmap n"] in \<open>auto simp: is_not_found_def\<close>)
  show "get_child n (get_index_sparse (bitmap n) i) = cell n i"
  proof (cases "cell n i")
    case None
    with nf show ?thesis by (simp add: get_child_def)
  next
    case (Some e)
    with nf assms cell_Some_pos [OF assms(1) Some] show ?thesis
      by (simp add: get_child_def get_index_sparse_eq nth_opt_eq)
  qed
qed

text \<open>The results of the three array updates, when they succeed.\<close>

definition overwritten :: "('k, 'v) node \<Rightarrow> nat \<Rightarrow> ('k, 'v) entry \<Rightarrow> ('k, 'v) node" where
  "overwritten n i c = Node (bitmap n) ((children n)[get_sparse_pos (bitmap n) i := c])"

definition extended :: "('k, 'v) node \<Rightarrow> nat \<Rightarrow> ('k, 'v) entry \<Rightarrow> ('k, 'v) node" where
  "extended n i c = Node (set_index (bitmap n) i) (insert_at (get_sparse_pos (bitmap n) i) c (children n))"

definition cleared :: "('k, 'v) node \<Rightarrow> nat \<Rightarrow> ('k, 'v) node option" where
  "cleared n i =
     (let b = clear_index (bitmap n) i
      in if b = 0 then None else Some (Node b (remove_at (get_sparse_pos (bitmap n) i) (children n))))"

lemma replace_at_cell:
  assumes "compact n" and "cell n i = Some e"
  shows "replace_at n (get_index_sparse (bitmap n) i) c = Ok (overwritten n i c)"
    and "compact (overwritten n i c)" and "cell (overwritten n i c) = (cell n)(i \<mapsto> c)"
    and "bitmap (overwritten n i c) \<noteq> 0"
proof -
  note pos = cell_Some_pos [OF assms]
  have i: "i < 32" by (rule cell_less [OF assms(2)])
  show "replace_at n (get_index_sparse (bitmap n) i) c = Ok (overwritten n i c)"
    using pos i by (simp add: overwritten_def replace_at_def get_found_def get_index_sparse_eq)
  show "cell (overwritten n i c) = (cell n)(i \<mapsto> c)"
    using sb.cell_overwrite [of "children n" "bitmap n" i c] pos assms(1)
    by (simp add: cell_def compact_def overwritten_def)
  show "compact (overwritten n i c)" using assms(1) by (simp add: compact_def overwritten_def)
  show "bitmap (overwritten n i c) \<noteq> 0" using pos(3) by (auto simp: overwritten_def)
qed

lemma set_at_cell:
  assumes "compact n" and "cell n i = None" and "i < 32"
  shows "set_at n i c = Ok (extended n i c)" and "compact (extended n i c)"
    and "cell (extended n i c) = (cell n)(i \<mapsto> c)" and "bitmap (extended n i c) \<noteq> 0"
proof -
  have nb: "\<not> bit (bitmap n) i" using cell_None_bit assms by blast
  have len: "length (children n) = length (ones (bitmap n))" using assms(1) by (simp add: compact_def)
  have "get_sparse_pos (bitmap n) i \<le> length (children n)" using sb.rank_le [OF assms(3)] len by simp
  then show "set_at n i c = Ok (extended n i c)"
    using assms(3) nb
    by (simp add: extended_def set_at_def is_set_iff get_found_def clone_array_and_insert_at_pos_def)
  show "cell (extended n i c) = (cell n)(i \<mapsto> c)" "compact (extended n i c)"
    using sb.cell_insert [OF len assms(3), of c] nb by (simp_all add: cell_def compact_def extended_def)
  show "bitmap (extended n i c) \<noteq> 0"
    using sb.elems_add_set [OF assms(3), of "bitmap n"] by (auto simp: extended_def)
qed

lemma clear_at_cell:
  assumes "compact n" and "cell n i = Some e"
  shows "clear_at n i = Ok (cleared n i)"
    and "cleared n i = None \<Longrightarrow> (cell n)(i := None) = Map.empty"
    and "cleared n i = Some n' \<Longrightarrow> compact n' \<and> cell n' = (cell n)(i := None) \<and> bitmap n' \<noteq> 0"
proof -
  note pos = cell_Some_pos [OF assms]
  have i: "i < 32" by (rule cell_less [OF assms(2)])
  have len: "length (children n) = length (ones (bitmap n))" using assms(1) by (simp add: compact_def)
  let ?b = "clear_index (bitmap n) i" and ?p = "get_sparse_pos (bitmap n) i"
  let ?n' = "Node ?b (remove_at ?p (children n))"
  have c: "cell ?n' = (cell n)(i := None)" "compact ?n'"
    using sb.cell_remove [OF len] pos(3) by (simp_all add: cell_def compact_def)
  show "clear_at n i = Ok (cleared n i)"
    using pos i by (simp add: clear_at_def is_set_iff get_found_def Let_def cleared_def
        clone_array_and_remove_at_pos_def small_bitmap_is_empty_def)
  show "cleared n i = None \<Longrightarrow> (cell n)(i := None) = Map.empty"
    using c(1) by (auto simp: cleared_def cell_def Let_def split: if_splits)
  show "cleared n i = Some n' \<Longrightarrow> compact n' \<and> cell n' = (cell n)(i := None) \<and> bitmap n' \<noteq> 0"
    using c by (auto simp: cleared_def Let_def split: if_splits)
qed

section \<open>What a node stores\<close>

lemma cell_in_children: "cell n i = Some e \<Longrightarrow> e \<in> set (children n)"
  by (auto simp: cell_def dest!: map_of_SomeD set_zip_rightD)

lemma size_child: "e \<in> set cs \<Longrightarrow> size e < Suc (size_list size cs)"
  by (simp add: size_list_estimation' less_Suc_eq_le)

lemma cell_size [termination_simp]: "cell n i = Some e \<Longrightarrow> size e < size n"
  by (cases n) (auto dest!: cell_in_children size_child)

lemma zip_child_size [termination_simp]: "(i, e) \<in> set (zip js cs) \<Longrightarrow> size e < Suc (size_list size cs)"
  using size_child [of e cs] by (auto dest: set_zip_rightD)

text \<open>The value a key with a given hash has below a node or entry at a level.\<close>

function find_node :: "('k, 'v) node \<Rightarrow> u64 \<Rightarrow> nat \<Rightarrow> 'k \<Rightarrow> 'v option"
  and find_entry :: "('k, 'v) entry \<Rightarrow> u64 \<Rightarrow> nat \<Rightarrow> 'k \<Rightarrow> 'v option" where
  "find_node n h l k =
     (case cell n (level_index h l) of None \<Rightarrow> None | Some e \<Rightarrow> find_entry e h (Suc l) k)"
| "find_entry (Leaf lh lk lv) h l k = (if lh = h \<and> lk = k then Some lv else None)"
| "find_entry (LeafMany lh col) h l k = (if lh = h then map_of col k else None)"
| "find_entry (SubNode n) h l k = find_node n h l k"
  by pat_completeness auto
termination
  by (relation "measure (\<lambda>x. case x of Inl (n, _) \<Rightarrow> size n | Inr (e, _) \<Rightarrow> size e)")
    (auto simp: cell_size)

declare find_node.simps [simp del]

definition node_map :: "('k \<Rightarrow> u64) \<Rightarrow> nat \<Rightarrow> ('k, 'v) node \<Rightarrow> 'k \<rightharpoonup> 'v" where
  "node_map hf l n = (\<lambda>k. find_node n (hf k) l k)"

definition cell_map :: "('k \<Rightarrow> u64) \<Rightarrow> nat \<Rightarrow> ('k, 'v) entry option \<Rightarrow> 'k \<rightharpoonup> 'v" where
  "cell_map hf l c = (\<lambda>k. case c of None \<Rightarrow> None | Some e \<Rightarrow> find_entry e (hf k) l k)"

text \<open>
  Well-formed tries: one array cell per set bit; every stored hash is the hash of its key
  and agrees with the path of level indices that leads to it; a collision holds at least
  two different keys of one hash; a subnode is not empty and sits at most twelve levels deep,
  because thirteen levels determine all 64 bits of a hash.
\<close>

definition agrees :: "nat list \<Rightarrow> u64 \<Rightarrow> bool" where
  "agrees path h \<longleftrightarrow> (\<forall>j < length path. level_index h j = path ! j)"

fun wf_node :: "('k \<Rightarrow> u64) \<Rightarrow> nat list \<Rightarrow> ('k, 'v) node \<Rightarrow> bool"
  and wf_entry :: "('k \<Rightarrow> u64) \<Rightarrow> nat list \<Rightarrow> ('k, 'v) entry \<Rightarrow> bool" where
  "wf_node hf path (Node bm cs) \<longleftrightarrow>
     length cs = length (ones bm) \<and> (\<forall>(i, e) \<in> set (zip (ones bm) cs). wf_entry hf (path @ [i]) e)"
| "wf_entry hf path (Leaf h k v) \<longleftrightarrow> h = hf k \<and> agrees path h"
| "wf_entry hf path (LeafMany h col) \<longleftrightarrow>
     2 \<le> length col \<and> distinct (map fst col) \<and> (\<forall>k \<in> fst ` set col. hf k = h) \<and> agrees path h"
| "wf_entry hf path (SubNode n) \<longleftrightarrow> wf_node hf path n \<and> bitmap n \<noteq> 0 \<and> length path \<le> 12"

lemma wf_node_iff:
  "wf_node hf path n \<longleftrightarrow> compact n \<and> (\<forall>i e. cell n i = Some e \<longrightarrow> wf_entry hf (path @ [i]) e)"
proof (cases n)
  case (Node bm cs)
  have "compact n \<Longrightarrow> cell n i = Some e \<longleftrightarrow> (i, e) \<in> set (zip (ones bm) cs)" for i e
    using Node by (simp add: cell_def compact_def)
  then show ?thesis using Node by (auto simp: compact_def)
qed

lemma wf_node_cellD: "wf_node hf path n \<Longrightarrow> cell n i = Some e \<Longrightarrow> wf_entry hf (path @ [i]) e"
  and wf_node_compact: "wf_node hf path n \<Longrightarrow> compact n"
  by (simp_all add: wf_node_iff)

lemma agrees_snoc: "agrees (path @ [i]) h \<longleftrightarrow> agrees path h \<and> level_index h (length path) = i"
  by (auto simp: agrees_def nth_append less_Suc_eq)

lemma agrees_diff_short:
  assumes "agrees path h" and "agrees path h'" and "h \<noteq> h'"
  shows "length path \<le> 12"
proof (rule ccontr)
  assume "\<not> length path \<le> 12"
  with assms(1,2) have "level_index h l = level_index h' l" if "l \<le> 12" for l
    using that by (simp add: agrees_def)
  with assms(3) show False using hash_eqI by blast
qed

lemma node_map_cell:
  "node_map hf l n k = cell_map hf (Suc l) (cell n (level_index (hf k) l)) k"
  by (simp add: node_map_def cell_map_def find_node.simps)

text \<open>Updating the one cell a key leads to updates the map at that key only.\<close>

lemma node_map_upd:
  assumes "cell n' = (cell n)(level_index (hf k) l := c)"
    and "cell_map hf (Suc l) c = (cell_map hf (Suc l) (cell n (level_index (hf k) l)))(k := r)"
  shows "node_map hf l n' = (node_map hf l n)(k := r)"
  using assms by (auto simp: node_map_cell fun_eq_iff)

lemma wf_node_upd:
  assumes "wf_node hf path n" and "compact n'" and "cell n' = (cell n)(i := c)"
    and "\<And>e. c = Some e \<Longrightarrow> wf_entry hf (path @ [i]) e"
  shows "wf_node hf path n'"
  using assms by (auto simp: wf_node_iff)

lemma cell_map_simps [simp]:
  "cell_map hf l None = Map.empty"
  "cell_map hf l (Some (Leaf (hf lk) lk lv)) = [lk \<mapsto> lv]"
  "cell_map hf l (Some (SubNode n)) = node_map hf l n"
  by (auto simp: cell_map_def node_map_def)

lemma cell_map_LeafMany:
  assumes "\<forall>k \<in> fst ` set col. hf k = h"
  shows "cell_map hf l (Some (LeafMany h col)) = map_of col"
proof
  fix k
  have "hf k \<noteq> h \<Longrightarrow> map_of col k = None" using assms map_of_eq_None_iff [of col k] by auto
  then show "cell_map hf l (Some (LeafMany h col)) k = map_of col k" by (auto simp: cell_map_def)
qed

lemma node_map_empty: "cell n = Map.empty \<Longrightarrow> node_map hf l n = Map.empty"
  by (auto simp: node_map_cell fun_eq_iff)

lemma node_new_wf [simp]: "wf_node hf path node_new" "node_map hf l node_new = Map.empty"
  by (simp_all add: node_new_def small_bitmap_new_def node_map_empty cell_def)

lemma cell_singleton: "i < 32 \<Longrightarrow> cell (node_singleton i e) = [i \<mapsto> e] \<and> compact (node_singleton i e)"
proof -
  assume "i < 32"
  then have "set (ones (once i)) = set [i]"
    by (auto simp: once_def level_mask_pow bit_simps)
  then have "ones (once i) = [i]"
    by (intro sorted_distinct_set_unique) auto
  then show ?thesis by (simp add: node_singleton_def cell_def compact_def)
qed

lemma singleton_leaf:
  fixes v :: 'v
  assumes "agrees path (hf k)"
  defines "n \<equiv> node_singleton (level_index (hf k) (length path)) (Leaf (hf k) k v)"
  shows "wf_node hf path n" and "node_map hf (length path) n = [k \<mapsto> v]"
    and "cell n = [level_index (hf k) (length path) \<mapsto> Leaf (hf k) k v]"
proof -
  show c: "cell n = [level_index (hf k) (length path) \<mapsto> Leaf (hf k) k v]"
    unfolding n_def using cell_singleton [OF level_index_less] by blast
  have "compact n" unfolding n_def using cell_singleton [OF level_index_less] by blast
  with c show "wf_node hf path n" using assms by (auto simp: wf_node_iff agrees_snoc)
  show "node_map hf (length path) n = [k \<mapsto> v]"
    using c by (auto simp: node_map_cell fun_eq_iff)
qed

section \<open>Insertion\<close>

text \<open>Two stored keys with one hash, different from the hash at hand.\<close>

definition collides :: "('k \<Rightarrow> u64) \<Rightarrow> ('k \<rightharpoonup> 'v) \<Rightarrow> 'k \<Rightarrow> bool" where
  "collides hf m k \<longleftrightarrow>
     (\<exists>k1 k2. k1 \<in> dom m \<and> k2 \<in> dom m \<and> k1 \<noteq> k2 \<and> hf k1 = hf k2 \<and> hf k1 \<noteq> hf k)"

lemma collides_LeafMany:
  assumes "wf_entry hf p (LeafMany lh col)" and "lh \<noteq> hf k"
    and "\<And>x. x \<in> dom (map_of col) \<Longrightarrow> x \<in> dom m"
  shows "collides hf m k"
proof -
  obtain k1 v1 k2 v2 rest where col: "col = (k1, v1) # (k2, v2) # rest"
    using assms(1) by (cases col rule: remdups_adj.cases) auto
  then have "k1 \<noteq> k2" "hf k1 = lh" "hf k2 = lh" "k1 \<in> dom m" "k2 \<in> dom m"
    using assms by auto
  with assms(2) show ?thesis unfolding collides_def by (intro exI [of _ k1] exI [of _ k2]) simp
qed

text \<open>Whatever is stored below a cell on a key's path is stored in the node.\<close>

lemma cell_dom_node:
  assumes "wf_node hf path n" and "cell n i = Some e" and "e = LeafMany h col"
  shows "dom (map_of col) \<subseteq> dom (node_map hf (length path) n)"
proof -
  have wf: "wf_entry hf (path @ [i]) (LeafMany h col)"
    using wf_node_cellD [OF assms(1,2)] assms(3) by simp
  then have "hf k = h" "level_index h (length path) = i" if "k \<in> dom (map_of col)" for k
    using that wf by (auto simp: agrees_snoc dom_map_of_conv_image_fst)
  moreover have "cell_map hf (Suc (length path)) (Some (LeafMany h col)) = map_of col"
    using wf by (intro cell_map_LeafMany) simp
  ultimately show ?thesis using assms(2,3) by (force simp: node_map_cell)
qed

lemma find_agrees:
  shows "wf_node hf path n \<Longrightarrow> find_node n (hf k) (length path) k = Some v \<Longrightarrow> agrees path (hf k)"
    and "wf_entry hf path e \<Longrightarrow> find_entry e (hf k) (length path) k = Some v \<Longrightarrow> agrees path (hf k)"
proof (induction n "hf k" "length path" k and e "hf k" "length path" k
    arbitrary: path and path rule: find_node_find_entry.induct)
  case (1 n k path)
  from "1.prems"(2) obtain e where e: "cell n (level_index (hf k) (length path)) = Some e"
    "find_entry e (hf k) (Suc (length path)) k = Some v"
    by (auto simp: find_node.simps split: option.splits)
  with "1.prems"(1) have "wf_entry hf (path @ [level_index (hf k) (length path)]) e"
    by (auto dest: wf_node_cellD)
  with "1.hyps" [OF e(1)] e(2) show ?case by (force simp: agrees_snoc)
qed (auto split: if_splits)

lemma cell_SubNode_dom:
  assumes "wf_node hf path n" and "cell n i = Some (SubNode sub)"
  shows "dom (node_map hf (Suc (length path)) sub) \<subseteq> dom (node_map hf (length path) n)"
proof
  fix k assume "k \<in> dom (node_map hf (Suc (length path)) sub)"
  then obtain v where v: "find_node sub (hf k) (length (path @ [i])) k = Some v"
    by (auto simp: node_map_def)
  have "wf_node hf (path @ [i]) sub" using wf_node_cellD [OF assms] by simp
  from find_agrees(1) [OF this v] have "level_index (hf k) (length path) = i"
    by (simp add: agrees_snoc)
  with assms(2) v show "k \<in> dom (node_map hf (length path) n)"
    by (simp add: domIff node_map_def find_node.simps [of n])
qed

lemma collides_mono: "collides hf m k \<Longrightarrow> dom m \<subseteq> dom m' \<Longrightarrow> collides hf m' k"
  unfolding collides_def by blast

definition insert_spec ::
  "('k \<Rightarrow> u64) \<Rightarrow> nat list \<Rightarrow> ('k, 'v) node \<Rightarrow> 'k \<Rightarrow> 'v
   \<Rightarrow> (insert_error, ('k, 'v) node) outcome \<Rightarrow> bool" where
  "insert_spec hf path n k v r \<longleftrightarrow>
     (case r of
        Ok n' \<Rightarrow> wf_node hf path n' \<and> bitmap n' \<noteq> 0 \<and> node_map hf (length path) n k = None
          \<and> node_map hf (length path) n' = (node_map hf (length path) n)(k \<mapsto> v)
      | Err e \<Rightarrow> node_map hf (length path) n k \<noteq> None
      | Panic \<Rightarrow> collides hf (node_map hf (length path) n) k)"

text \<open>Replacing the entry in the cell of a key by one that stores the key as well.\<close>

lemma insert_spec_replace:
  assumes wf: "wf_node hf path n" and i: "i = level_index (hf k) (length path)"
    and c: "cell n i = Some e" and e': "wf_entry hf (path @ [i]) e'"
    and upd: "cell_map hf (Suc (length path)) (Some e')
      = (cell_map hf (Suc (length path)) (Some e))(k \<mapsto> v)"
    and new: "cell_map hf (Suc (length path)) (Some e) k = None"
  shows "insert_spec hf path n k v (replace_at n (get_index_sparse (bitmap n) i) e')"
proof -
  note ow = replace_at_cell [OF wf_node_compact [OF wf] c, of e']
  have "node_map hf (length path) (overwritten n i e') = (node_map hf (length path) n)(k \<mapsto> v)"
    using ow(3) upd c unfolding i by (intro node_map_upd) simp_all
  moreover have "wf_node hf path (overwritten n i e')" using wf_node_upd [OF wf ow(2,3)] e' by simp
  moreover have "node_map hf (length path) n k = None" using new c i by (simp add: node_map_cell)
  ultimately show ?thesis using ow(4) by (simp add: insert_spec_def ow(1))
qed

text \<open>The same when the new entry is a subnode built by an insertion one level down.\<close>

lemma insert_spec_subnode:
  assumes wf: "wf_node hf path n" and i: "i = level_index (hf k) (length path)"
    and c: "cell n i = Some e" and short: "length path < 12"
    and sub: "node_map hf (Suc (length path)) sub = cell_map hf (Suc (length path)) (Some e)"
    and dom: "dom (node_map hf (Suc (length path)) sub) \<subseteq> dom (node_map hf (length path) n)"
    and r: "insert_spec hf (path @ [i]) sub k v r"
  shows "insert_spec hf path n k v
    (obind r (\<lambda>s. replace_at n (get_index_sparse (bitmap n) i) (SubNode s)))"
proof (cases r)
  case (Ok s)
  then have "insert_spec hf path n k v (replace_at n (get_index_sparse (bitmap n) i) (SubNode s))"
    using r short sub by (intro insert_spec_replace [OF wf i c]) (auto simp: insert_spec_def)
  with Ok show ?thesis by simp
next
  case (Err x)
  with r sub c i show ?thesis by (simp add: insert_spec_def node_map_cell [of hf "length path"])
next
  case Panic
  with r dom show ?thesis by (auto simp: insert_spec_def intro: collides_mono)
qed

lemma collision_insert_cases:
  assumes "wf_entry hf p (LeafMany h col)" and "hf k = h"
  shows "(map_of col k \<noteq> None \<and> collision_insert col k v = Err EntryExists)
    \<or> (map_of col k = None \<and> collision_insert col k v = Ok (col @ [(k, v)])
        \<and> wf_entry hf p (LeafMany h (col @ [(k, v)])) \<and> map_of (col @ [(k, v)]) = (map_of col)(k \<mapsto> v))"
proof (cases "k \<in> fst ` set col")
  case True
  then have "list_ex (\<lambda>(lk, _). lk = k) col" by (force simp: list_ex_iff)
  with True show ?thesis by (simp add: collision_insert_def map_of_eq_None_iff)
next
  case False
  then have no: "\<not> list_ex (\<lambda>(lk, _). lk = k) col" "map_of col k = None"
    by (force simp: list_ex_iff, simp add: map_of_eq_None_iff)
  have "map_of (col @ [(k, v)]) = (map_of (col @ []))(k \<mapsto> v)"
    by (rule map_of_append_insert [OF False])
  with no False assms show ?thesis
    by (auto simp: collision_insert_def collision_from_vec_def clone_array_and_extend_def)
qed

text \<open>A leaf put into the empty cell of its key.\<close>

lemma insert_spec_add:
  assumes wf: "wf_node hf path n" and agr: "agrees path (hf k)"
    and none: "cell n (level_index (hf k) (length path)) = None"
  shows "insert_spec hf path n k v (set_at n (level_index (hf k) (length path)) (Leaf (hf k) k v))"
proof -
  define i where "i = level_index (hf k) (length path)"
  note ex = set_at_cell [OF wf_node_compact [OF wf] none level_index_less, of "Leaf (hf k) k v", folded i_def]
  have "node_map hf (length path) (extended n i (Leaf (hf k) k v)) = (node_map hf (length path) n)(k \<mapsto> v)"
    using ex(3) none by (intro node_map_upd) (auto simp: i_def)
  moreover have "wf_node hf path (extended n i (Leaf (hf k) k v))"
    using wf_node_upd [OF wf ex(2,3)] agr by (simp add: agrees_snoc i_def)
  moreover have "node_map hf (length path) n k = None"
    using none by (simp add: node_map_cell)
  ultimately show ?thesis using ex(4) by (simp add: insert_spec_def ex(1) i_def [symmetric])
qed

text \<open>One case lemma per kind of entry in the cell that the key leads to.\<close>

lemma insert_leaf_case:
  assumes wf: "wf_node hf path n" and agr: "agrees path (hf k)"
    and i: "i = level_index (hf k) (length path)" and c: "cell n i = Some (Leaf lh lk lv)"
    and IH: "\<And>sub. wf_node hf (path @ [i]) sub \<Longrightarrow> lh \<noteq> hf k \<Longrightarrow>
      sub = node_singleton (level_index lh (length path + 1)) (Leaf lh lk lv) \<Longrightarrow>
      level_index (hf k) (length path + 1) = level_index lh (length path + 1) \<Longrightarrow>
      insert_spec hf (path @ [i]) sub k v (insert_rec sub (hf k) (length path + 1) k v)"
  shows "insert_spec hf path n k v (insert_rec n (hf k) (length path) k v)"
proof -
  have i32: "i < 32" by (simp add: i level_index_less)
  note rd = child_read [OF wf_node_compact [OF wf] i32, unfolded c]
  note unf = insert_rec.simps [of n "hf k" "length path" k v, folded i]
  have agri: "agrees (path @ [i]) (hf k)" using agr by (simp add: agrees_snoc i)
  have lh: "lh = hf lk" and al: "agrees (path @ [i]) (hf lk)" using wf_node_cellD [OF wf c] by auto
  have cm: "cell_map hf (Suc (length path)) (Some (Leaf lh lk lv)) = [lk \<mapsto> lv]" using lh by simp
  consider (exists) "lk = k" | (collide) "lk \<noteq> k" "hf lk = hf k" | (split) "hf lk \<noteq> hf k" by auto
  then show ?thesis
  proof cases
    case exists
    then show ?thesis
      using rd c cm lh i by (simp add: unf insert_spec_def node_map_cell)
  next
    case collide
    then have "insert_spec hf path n k v (replace_at n (get_index_sparse (bitmap n) i)
        (LeafMany lh [(lk, lv), (k, v)]))"
      using lh agri by (intro insert_spec_replace [OF wf i c, unfolded cm])
        (auto simp: cell_map_LeafMany fun_upd_twist)
    then show ?thesis using rd lh collide by (simp add: unf collision_from_vec_def)
  next
    case split
    have short: "length path < 12" using agrees_diff_short [OF al agri split] by simp
    let ?sub = "node_singleton (level_index lh (length path + 1)) (Leaf lh lk lv)"
    have sub: "wf_node hf (path @ [i]) ?sub" "node_map hf (Suc (length path)) ?sub = [lk \<mapsto> lv]"
      "cell ?sub = [level_index lh (length path + 1) \<mapsto> Leaf lh lk lv]"
      using singleton_leaf [where path = "path @ [i]" and hf = hf and k = lk and v = lv] al lh
      by simp_all
    have dom: "dom (node_map hf (Suc (length path)) ?sub) \<subseteq> dom (node_map hf (length path) n)"
      unfolding sub(2) using c cm al by (auto simp: node_map_cell agrees_snoc)
    have lift: "insert_spec hf (path @ [i]) ?sub k v r \<Longrightarrow> insert_spec hf path n k v
        (obind r (\<lambda>s. replace_at n (get_index_sparse (bitmap n) i) (SubNode s)))" for r
      by (rule insert_spec_subnode [OF wf i c short _ dom]) (simp_all only: sub(2) cm)
    have add: "cell ?sub (level_index (hf k) (length path + 1)) = None \<Longrightarrow>
        insert_spec hf (path @ [i]) ?sub k v
          (set_at ?sub (level_index (hf k) (length path + 1)) (Leaf (hf k) k v))"
      using insert_spec_add [OF sub(1) agri, of v] by simp
    show ?thesis
      using lift [OF IH [OF sub(1) _ refl]] lift [OF add] rd lh split sub(3) by (simp add: unf Let_def)
  qed
qed

lemma insert_leafmany_case:
  assumes wf: "wf_node hf path n" and i: "i = level_index (hf k) (length path)"
    and c: "cell n i = Some (LeafMany lh col)"
  shows "insert_spec hf path n k v (insert_rec n (hf k) (length path) k v)"
proof -
  have i32: "i < 32" by (simp add: i level_index_less)
  note rd = child_read [OF wf_node_compact [OF wf] i32, unfolded c]
  note unf = insert_rec.simps [of n "hf k" "length path" k v, folded i]
  note wfc = wf_node_cellD [OF wf c]
  then have cm: "cell_map hf (Suc (length path)) (Some (LeafMany lh col)) = map_of col"
    by (simp add: cell_map_LeafMany)
  let ?c = "col @ [(k, v)]"
  consider (panic) "lh \<noteq> hf k"
    | (exists) "lh = hf k" "map_of col k \<noteq> None" "collision_insert col k v = Err EntryExists"
    | (new) "lh = hf k" "map_of col k = None" "collision_insert col k v = Ok ?c"
        "wf_entry hf (path @ [i]) (LeafMany lh ?c)" "map_of ?c = (map_of col)(k \<mapsto> v)"
    using collision_insert_cases [OF wfc, of k v] by (cases "lh = hf k") auto
  then show ?thesis
  proof cases
    case panic
    have "collides hf (node_map hf (length path) n) k"
      using collides_LeafMany [OF wfc panic] cell_dom_node [OF wf c refl] by blast
    then show ?thesis using rd panic by (simp add: unf insert_spec_def)
  next
    case exists
    then show ?thesis using rd c cm i by (simp add: unf insert_spec_def node_map_cell)
  next
    case new
    have "insert_spec hf path n k v (replace_at n (get_index_sparse (bitmap n) i) (LeafMany lh ?c))"
      using new cm cell_map_LeafMany [of ?c hf lh "Suc (length path)"]
      by (intro insert_spec_replace [OF wf i c]) auto
    then show ?thesis using rd new by (simp add: unf)
  qed
qed

lemma insert_rec_correct:
  assumes "wf_node hf path n" and "agrees path (hf k)"
  shows "insert_spec hf path n k v (insert_rec n (hf k) (length path) k v)"
  using assms
proof (induction n "hf k" "length path" k v arbitrary: path rule: insert_rec.induct)
  case (1 n k v path)
  define i where "i = level_index (hf k) (length path)"
  note wf = "1.prems"(1)
  have agr: "agrees (path @ [i]) (hf k)" using "1.prems"(2) by (simp add: agrees_snoc i_def)
  have i32: "i < 32" by (simp add: i_def level_index_less)
  note rd = child_read [OF wf_node_compact [OF wf] i32]
  note unf = insert_rec.simps [of n "hf k" "length path" k v, folded i_def]
  show ?case
  proof (cases "cell n i")
    case None
    with insert_spec_add [OF wf "1.prems"(2), folded i_def] rd show ?thesis by (simp add: unf)
  next
    case (Some e)
    note rd' = rd [unfolded Some]
    show ?thesis
    proof (cases e)
      case (Leaf lh lk lv)
      show ?thesis
        using "1.hyps"(1) [OF i_def refl, of e lh lk lv _ _ _ "path @ [i]"] rd' Leaf agr
        by (intro insert_leaf_case [OF wf "1.prems"(2) i_def Some [unfolded Leaf]]) simp
    next
      case (LeafMany lh col)
      then show ?thesis using insert_leafmany_case [OF wf i_def] Some by simp
    next
      case (SubNode sub)
      with wf_node_cellD [OF wf Some] have sub: "wf_node hf (path @ [i]) sub"
        and short: "length path < 12" by auto
      have "insert_spec hf (path @ [i]) sub k v (insert_rec sub (hf k) (length path + 1) k v)"
        using "1.hyps"(2) [OF i_def refl, of e sub "path @ [i]"] sub agr rd' SubNode short by simp
      from insert_spec_subnode [OF wf i_def Some short _ cell_SubNode_dom this] show ?thesis
        using rd' SubNode short wf Some by (simp add: unf)
    qed
  qed
qed

section \<open>Update, and the other modifications as updates\<close>

definition update_spec ::
  "('k \<Rightarrow> u64) \<Rightarrow> nat list \<Rightarrow> ('k, 'v) node \<Rightarrow> 'k \<Rightarrow> ('v \<Rightarrow> ('u, 'v option) outcome)
   \<Rightarrow> ('u update_error, ('k, 'v) node option) outcome \<Rightarrow> bool" where
  "update_spec hf path n k f r \<longleftrightarrow>
     (case r of
        Ok res \<Rightarrow> \<exists>v w. node_map hf (length path) n k = Some v \<and> f v = Ok w
          \<and> (case res of
               None \<Rightarrow> (node_map hf (length path) n)(k := w) = Map.empty
             | Some n' \<Rightarrow> wf_node hf path n' \<and> bitmap n' \<noteq> 0
                 \<and> node_map hf (length path) n' = (node_map hf (length path) n)(k := w))
      | Err UpdateKeyNotFound \<Rightarrow> node_map hf (length path) n k = None
      | Err (ValueCallbackError u) \<Rightarrow> \<exists>v. node_map hf (length path) n k = Some v \<and> f v = Err u
      | Panic \<Rightarrow> (\<exists>v. node_map hf (length path) n k = Some v \<and> f v = Panic)
          \<or> collides hf (node_map hf (length path) n) k)"

text \<open>Putting a new content into the key's cell, or clearing it.\<close>

lemma update_spec_put:
  assumes wf: "wf_node hf path n" and i: "i = level_index (hf k) (length path)"
    and c: "cell n i = Some e" and fv: "cell_map hf (Suc (length path)) (Some e) k = Some v" "f v = Ok w"
    and c': "cell_map hf (Suc (length path)) c' = (cell_map hf (Suc (length path)) (Some e))(k := w)"
    and wfc: "\<And>e'. c' = Some e' \<Longrightarrow> wf_entry hf (path @ [i]) e'"
  shows "update_spec hf path n k f
    (case c' of None \<Rightarrow> clear_at n i
     | Some e' \<Rightarrow> omap Some (replace_at n (get_index_sparse (bitmap n) i) e'))"
proof -
  note compact = wf_node_compact [OF wf]
  have nk: "node_map hf (length path) n k = Some v" using fv(1) c i by (simp add: node_map_cell)
  have upd: "node_map hf (length path) n' = (node_map hf (length path) n)(k := w)"
    if "cell n' = (cell n)(i := c')" for n'
    using node_map_upd [of n' n hf k "length path" c' w] that c c' i by simp
  show ?thesis
  proof (cases c')
    case None
    have eq: "cleared n i = None \<Longrightarrow> (node_map hf (length path) n)(k := w) = Map.empty"
    proof -
      assume "cleared n i = None"
      then have "(cell n)(i := c') = Map.empty" using clear_at_cell(2) [OF compact c] None by simp
      then have "node_map hf (length path) node_new = (node_map hf (length path) n)(k := w)"
        by (intro upd) (simp add: node_new_def small_bitmap_new_def cell_def)
      then show ?thesis by simp
    qed
    have "cleared n i = Some n' \<Longrightarrow> wf_node hf path n' \<and> bitmap n' \<noteq> 0
        \<and> node_map hf (length path) n' = (node_map hf (length path) n)(k := w)" for n'
      using clear_at_cell(3) [OF compact c] wf_node_upd [OF wf, of n' i None] upd None by auto
    with eq nk fv(2) None show ?thesis
      by (auto simp: update_spec_def clear_at_cell(1) [OF compact c] split: option.splits)
  next
    case (Some e')
    note ow = replace_at_cell [OF compact c, of e']
    have "wf_node hf path (overwritten n i e')" using wf_node_upd [OF wf ow(2,3)] wfc Some by auto
    moreover have "node_map hf (length path) (overwritten n i e') = (node_map hf (length path) n)(k := w)"
      using upd ow(3) Some by simp
    ultimately show ?thesis using ow(4) nk fv(2) Some by (auto simp: update_spec_def ow(1))
  qed
qed

text \<open>Positions in a collision.\<close>

lemma find_record_eq:
  "find_record j col k = (case map_of col k of None \<Rightarrow> None
     | Some v \<Rightarrow> Some (j + length (takeWhile (\<lambda>p. fst p \<noteq> k) col), k, v))"
  by (induction j col k rule: find_record.induct) (auto split: option.splits)

lemma map_of_record_split:
  assumes "map_of col k = Some v"
  obtains a b where "col = a @ (k, v) # b" and "k \<notin> fst ` set a"
    and "length (takeWhile (\<lambda>p. fst p \<noteq> k) col) = length a"
proof -
  let ?a = "takeWhile (\<lambda>p. fst p \<noteq> k) col" and ?d = "dropWhile (\<lambda>p. fst p \<noteq> k) col"
  have a: "k \<notin> fst ` set ?a" by (auto dest: set_takeWhileD)
  have "map_of ?a k = None" using a by (simp add: map_of_eq_None_iff)
  then have d: "map_of ?d k = Some v"
    using assms takeWhile_dropWhile_id [of "\<lambda>p. fst p \<noteq> k" col] map_of_append [of ?a ?d]
    by (simp add: map_add_def split: option.splits)
  then obtain y ys where y: "?d = y # ys" by (cases ?d) auto
  have "\<not> (fst (hd ?d) \<noteq> k)" by (rule hd_dropWhile) (use y in simp)
  with y have "fst y = k" by simp
  with d y have "y = (k, v)" by (cases y) auto
  then have "col = ?a @ (k, v) # ys" using takeWhile_dropWhile_id [of "\<lambda>p. fst p \<noteq> k" col] y by simp
  from that [OF this a refl] show thesis .
qed

lemma collision_drop_at_correct:
  assumes wf: "wf_entry hf path (LeafMany h col)" and k: "map_of col k = Some v"
  shows "\<exists>e'. collision_drop_at h col (length (takeWhile (\<lambda>q. fst q \<noteq> k) col)) = (Ok e' :: ('e, _) outcome)
    \<and> wf_entry hf path e' \<and> cell_map hf l (Some e') = (map_of col)(k := None)"
proof -
  obtain a b where col: "col = a @ (k, v) # b" and ka: "k \<notin> fst ` set a"
    and p: "length (takeWhile (\<lambda>q. fst q \<noteq> k) col) = length a"
    using map_of_record_split [OF k] by blast
  from wf col have kb: "k \<notin> fst ` set b" and wf': "distinct (map fst (a @ b))"
    "\<forall>x \<in> fst ` set (a @ b). hf x = h" "agrees path h" "1 \<le> length (a @ b)" by auto
  have map: "map_of (a @ b) = (map_of col)(k := None)"
    unfolding col by (rule map_of_append_remove [OF ka kb, symmetric])
  show ?thesis
  proof (cases "length col = 2")
    case True
    then have "length (a @ b) = 1" using col by simp
    then obtain z where "a @ b = [z]" by (cases "a @ b") auto
    then obtain zk zv where z: "a @ b = [(zk, zv)]" by (cases z) auto
    have "collision_drop_at h col (length a) = (Ok (Leaf h zk zv) :: ('e, _) outcome)"
      using True z col by (cases a) (auto simp: collision_drop_at_def append_eq_Cons_conv)
    moreover have "hf zk = h" using wf'(2) unfolding z by simp
    moreover have "(map_of col)(k := None) = [zk \<mapsto> zv]" unfolding map [symmetric] z by simp
    ultimately show ?thesis using p wf' by (intro exI [of _ "Leaf h zk zv"]) auto
  next
    case False
    then have len: "2 \<le> length (a @ b)" using wf'(4) col by auto
    then have "collision_drop_at h col (length a) = (Ok (LeafMany h (a @ b)) :: ('e, _) outcome)"
      using False col by (simp add: collision_drop_at_def clone_array_and_remove_at_pos_def
          collision_from_vec_def remove_at_def)
    then show ?thesis
      using cell_map_LeafMany [OF wf'(2), of l] map p wf' len
      by (intro exI [of _ "LeafMany h (a @ b)"]) simp
  qed
qed

lemma collision_set_at_correct:
  assumes wf: "wf_entry hf path (LeafMany h col)" and k: "map_of col k = Some v"
  shows "\<exists>col'. clone_array_and_set_at_pos col (k, w) (length (takeWhile (\<lambda>q. fst q \<noteq> k) col))
      = (Ok col' :: ('e, _) outcome)
    \<and> wf_entry hf path (LeafMany h col') \<and> cell_map hf l (Some (LeafMany h col')) = (map_of col)(k \<mapsto> w)"
proof -
  obtain a b where col: "col = a @ (k, v) # b" and ka: "k \<notin> fst ` set a"
    and p: "length (takeWhile (\<lambda>q. fst q \<noteq> k) col) = length a"
    using map_of_record_split [OF k] by blast
  let ?c = "a @ (k, w) # b"
  have map: "map_of ?c = (map_of col)(k \<mapsto> w)"
    unfolding col map_of_append_insert [OF ka] by simp
  have wf': "wf_entry hf path (LeafMany h ?c)" using wf col by simp
  then have "cell_map hf l (Some (LeafMany h ?c)) = map_of ?c" by (intro cell_map_LeafMany) simp
  with wf' map p col show ?thesis
    by (intro exI [of _ ?c]) (simp add: clone_array_and_set_at_pos_def)
qed

lemma collision_update_correct:
  fixes f :: "'v \<Rightarrow> ('u, 'v option) outcome"
  assumes wf: "wf_entry hf path (LeafMany h col)"
  shows "case map_of col k of
      None \<Rightarrow> collision_update col h k f = Err UpdateKeyNotFound
    | Some v \<Rightarrow> (case f v of
        Err u \<Rightarrow> collision_update col h k f = Err (ValueCallbackError u)
      | Panic \<Rightarrow> collision_update col h k f = Panic
      | Ok w \<Rightarrow> \<exists>e'. collision_update col h k f = Ok e' \<and> wf_entry hf path e'
          \<and> cell_map hf l (Some e') = (map_of col)(k := w))"
proof (cases "map_of col k")
  case None
  then show ?thesis by (simp add: collision_update_def get_record_and_pos_def find_record_eq)
next
  case (Some v)
  have unf: "collision_update col h k f = obind (map_err ValueCallbackError (f v)) (\<lambda>r. case r of
      None \<Rightarrow> collision_drop_at h col (length (takeWhile (\<lambda>q. fst q \<noteq> k) col))
    | Some newv \<Rightarrow> obind (clone_array_and_set_at_pos col (k, newv)
        (length (takeWhile (\<lambda>q. fst q \<noteq> k) col))) (\<lambda>b.
        obind (collision_from_vec b) (\<lambda>c. Ok (LeafMany h c))))"
    using Some by (simp add: collision_update_def get_record_and_pos_def find_record_eq)
  show ?thesis
  proof (cases "f v")
    case (Ok w)
    show ?thesis
    proof (cases w)
      case None
      with collision_drop_at_correct [OF wf Some, of l] show ?thesis using Some Ok by (simp add: unf)
    next
      case (Some w')
      obtain col' where col': "wf_entry hf path (LeafMany h col')"
        "clone_array_and_set_at_pos col (k, w') (length (takeWhile (\<lambda>q. fst q \<noteq> k) col))
          = (Ok col' :: ('u update_error, _) outcome)"
        "cell_map hf l (Some (LeafMany h col')) = (map_of col)(k \<mapsto> w')"
        using collision_set_at_correct [OF wf \<open>map_of col k = Some v\<close>, of w' l] by blast
      then have "collision_update col h k f = Ok (LeafMany h col')"
        using Some Ok by (simp add: unf collision_from_vec_def)
      with col' Some Ok \<open>map_of col k = Some v\<close> show ?thesis by simp
    qed
  qed (use Some unf in auto)
qed

lemma update_leaf_case:
  assumes wf: "wf_node hf path n" and i: "i = level_index (hf k) (length path)"
    and c: "cell n i = Some (Leaf lh lk lv)"
  shows "update_spec hf path n k f (update_rec n (hf k) (length path) k f)"
proof -
  have i32: "i < 32" by (simp add: i level_index_less)
  note compact = wf_node_compact [OF wf]
  note rd = child_read [OF compact i32, unfolded c]
  note unf = update_rec.simps [of n "hf k" "length path" k f, folded i]
  have lh: "lh = hf lk" and al: "agrees (path @ [i]) lh" using wf_node_cellD [OF wf c] by auto
  then have cm: "cell_map hf (Suc (length path)) (Some (Leaf lh lk lv)) = [lk \<mapsto> lv]" by simp
  then have nm: "node_map hf (length path) n k = [lk \<mapsto> lv] k" using c i by (simp add: node_map_cell)
  show ?thesis
  proof (cases "lk = k")
    case True
    have "is_set (bitmap n) i" using cell_Some_pos(3) [OF compact c] i32 by (simp add: is_set_iff)
    then have "update_spec hf path n k f (clear_or_replace_at n i (map_option (Leaf lh lk) w))"
      if "f lv = Ok w" for w
      using update_spec_put [OF wf i c, of lv f w "map_option (Leaf lh lk) w"] that True cm lh al
      by (cases w) (auto simp: clear_or_replace_at_def)
    then show ?thesis
      using rd lh True nm by (cases "f lv") (auto simp: unf Let_def update_spec_def)
  next
    case False
    then show ?thesis using rd nm by (simp add: unf Let_def update_spec_def)
  qed
qed

lemma update_leafmany_case:
  assumes wf: "wf_node hf path n" and i: "i = level_index (hf k) (length path)"
    and c: "cell n i = Some (LeafMany lh col)"
  shows "update_spec hf path n k f (update_rec n (hf k) (length path) k f)"
proof -
  have i32: "i < 32" by (simp add: i level_index_less)
  note rd = child_read [OF wf_node_compact [OF wf] i32, unfolded c]
  note unf = update_rec.simps [of n "hf k" "length path" k f, folded i]
  note wfc = wf_node_cellD [OF wf c]
  then have cm: "cell_map hf (Suc (length path)) (Some (LeafMany lh col)) = map_of col"
    by (simp add: cell_map_LeafMany)
  then have nm: "node_map hf (length path) n k = map_of col k" using c i by (simp add: node_map_cell)
  show ?thesis
  proof (cases "lh = hf k")
    case True
    note upd = collision_update_correct [OF wfc, of k f "Suc (length path)"]
    have un: "update_rec n (hf k) (length path) k f = obind (collision_update col lh k f)
        (\<lambda>r. omap Some (replace_at n (get_index_sparse (bitmap n) i) r))"
      using rd True by (simp add: unf Let_def)
    consider (none) "map_of col k = None" | (ok) v w where "map_of col k = Some v" "f v = Ok w"
      | (other) v where "map_of col k = Some v" "\<forall>w. f v \<noteq> Ok w" by force
    then show ?thesis
    proof cases
      case none
      then show ?thesis using upd nm by (simp add: un update_spec_def)
    next
      case (ok v w)
      then obtain e' where "collision_update col lh k f = Ok e'" "wf_entry hf (path @ [i]) e'"
        "cell_map hf (Suc (length path)) (Some e') = (map_of col)(k := w)" using upd by auto
      with update_spec_put [OF wf i c, of v f w "Some e'"] ok cm show ?thesis by (simp add: un)
    next
      case (other v)
      then show ?thesis using upd nm by (cases "f v") (auto simp: un update_spec_def)
    qed
  next
    case False
    have "collides hf (node_map hf (length path) n) k"
      using collides_LeafMany [OF wfc False] cell_dom_node [OF wf c refl] by blast
    then show ?thesis using rd False by (simp add: unf Let_def update_spec_def)
  qed
qed

lemma update_subnode_case:
  assumes wf: "wf_node hf path n" and i: "i = level_index (hf k) (length path)"
    and c: "cell n i = Some (SubNode sub)"
    and IH: "update_spec hf (path @ [i]) sub k f r"
  shows "update_spec hf path n k f (obind r (\<lambda>x. case x of None \<Rightarrow> clear_at n i
    | Some s \<Rightarrow> omap Some (replace_at n (get_index_sparse (bitmap n) i) (SubNode s))))"
proof -
  have short: "length path < 12" using wf_node_cellD [OF wf c] by simp
  have cm: "cell_map hf (Suc (length path)) (Some (SubNode sub)) = node_map hf (Suc (length path)) sub"
    by simp
  then have nm: "node_map hf (length path) n k = node_map hf (Suc (length path)) sub k"
    using c i by (simp only: node_map_cell [of hf "length path"])
  show ?thesis
  proof (cases r)
    case (Ok x)
    then obtain v w where vw: "node_map hf (Suc (length path)) sub k = Some v" "f v = Ok w"
      and x: "case x of None \<Rightarrow> (node_map hf (Suc (length path)) sub)(k := w) = Map.empty
        | Some s \<Rightarrow> wf_node hf (path @ [i]) s \<and> bitmap s \<noteq> 0
          \<and> node_map hf (Suc (length path)) s = (node_map hf (Suc (length path)) sub)(k := w)"
      using IH by (auto simp: update_spec_def cong: option.case_cong)
    from update_spec_put [OF wf i c, of v f w "map_option SubNode x"] vw x short cm Ok show ?thesis
      by (cases x) auto
  next
    case (Err y)
    then show ?thesis using IH nm by (cases y) (auto simp: update_spec_def)
  next
    case Panic
    then show ?thesis
      using IH nm collides_mono [OF _ cell_SubNode_dom [OF wf c]] by (auto simp: update_spec_def)
  qed
qed

lemma update_rec_correct:
  assumes "wf_node hf path n"
  shows "update_spec hf path n k f (update_rec n (hf k) (length path) k f)"
  using assms
proof (induction n "hf k" "length path" k f arbitrary: path rule: update_rec.induct)
  case (1 n k f path)
  define i where "i = level_index (hf k) (length path)"
  note wf = "1.prems"
  have i32: "i < 32" by (simp add: i_def level_index_less)
  note rd = child_read [OF wf_node_compact [OF wf] i32]
  note unf = update_rec.simps [of n "hf k" "length path" k f, folded i_def]
  show ?case
  proof (cases "cell n i")
    case None
    then show ?thesis using rd by (simp add: unf update_spec_def node_map_cell i_def)
  next
    case (Some e)
    note rd' = rd [unfolded Some]
    show ?thesis
    proof (cases e)
      case (Leaf lh lk lv)
      then show ?thesis using update_leaf_case [OF wf i_def, of lh lk lv f] Some by simp
    next
      case (LeafMany lh col)
      then show ?thesis using update_leafmany_case [OF wf i_def, of lh col f] Some by simp
    next
      case (SubNode sub)
      with wf_node_cellD [OF wf Some] have "wf_node hf (path @ [i]) sub" by auto
      then have "update_spec hf (path @ [i]) sub k f (update_rec sub (hf k) (Suc (length path)) k f)"
        using "1.hyps" [OF i_def refl, of e sub "path @ [i]"] rd' SubNode by simp
      from update_subnode_case [OF wf i_def _ this] Some SubNode rd' show ?thesis
        by (simp add: unf Let_def)
    qed
  qed
qed

text \<open>Removal and replacement are updates with a constant callback.\<close>

lemma found_is_set: "\<not> is_not_found (get_index_sparse b i) \<Longrightarrow> is_set b i"
  by (auto simp: get_index_sparse_def is_set_def is_not_found_def not_found_def Let_def split: if_splits)

text \<open>Operations that never return an error keep their outcome under any error translation.\<close>

lemma map_err_total [simp]:
  "map_err g (get_found i) = get_found i"
  "map_err g (clone_array_and_insert_at_pos v a p) = clone_array_and_insert_at_pos v a p"
  "map_err g (clone_array_and_remove_at_pos v p) = clone_array_and_remove_at_pos v p"
  "map_err g (clone_array_and_set_at_pos v a p) = clone_array_and_set_at_pos v a p"
  "map_err g (collision_from_vec c) = collision_from_vec c"
  by (simp_all add: get_found_def clone_array_and_insert_at_pos_def clone_array_and_remove_at_pos_def
      clone_array_and_set_at_pos_def collision_from_vec_def)

lemma map_err_node_ops [simp]:
  "map_err g (collision_drop_at h col p) = collision_drop_at h col p"
  "map_err g (clear_at n i) = clear_at n i"
  "map_err g (replace_at n a e) = replace_at n a e"
  by (auto simp: collision_drop_at_def clear_at_def replace_at_def Let_def map_err_obind
      split: option.splits intro!: arg_cong2 [where f = obind])

lemma map_err_clear_or_replace [simp]:
  "map_err g (clear_or_replace_at n i c) = clear_or_replace_at n i c"
  by (simp add: clear_or_replace_at_def map_err_omap split: option.splits)

lemma remove_rec_as_update:
  "remove_rec n h l k = map_err (\<lambda>_. RemoveKeyNotFound) (update_rec n h l k (\<lambda>_. Ok None :: (unit, _) outcome))"
proof (induction n h l k rule: remove_rec.induct)
  case (1 n h l k)
  note IH = 1 [OF refl refl, simplified]
  show ?case
    by (auto simp: remove_rec.simps [of n h l k] update_rec.simps [of n h l k] Let_def IH outcome_push
        found_is_set clear_or_replace_at_def collision_remove_def collision_update_def
        split: option.splits entry.splits intro!: arg_cong2 [where f = obind])
qed

definition match_callback :: "'v \<Rightarrow> 'v \<Rightarrow> (unit, 'v option) outcome" where
  "match_callback v x = (if x = v then Ok None else Err ())"

fun match_error :: "unit update_error \<Rightarrow> remove_error" where
  "match_error UpdateKeyNotFound = RemoveKeyNotFound"
| "match_error (ValueCallbackError _) = ValueNotMatching"

lemma remove_eq_rec_as_update:
  "remove_eq_rec n h l k v = map_err match_error (update_rec n h l k (match_callback v))"
proof (induction n h l k v rule: remove_eq_rec.induct)
  case (1 n h l k v)
  note IH = 1 [OF refl refl, simplified]
  show ?case
    by (auto simp: remove_eq_rec.simps [of n h l k v] update_rec.simps [of n h l k] Let_def IH outcome_push
        found_is_set clear_or_replace_at_def collision_remove_match_def collision_update_def match_callback_def
        split: option.splits entry.splits intro!: arg_cong2 [where f = obind])
qed

lemma replace_with_rec_as_update:
  "omap Some (replace_with_rec n h l k f)
   = map_err (\<lambda>_. ReplaceKeyNotFound) (update_rec n h l k (\<lambda>x. Ok (Some (f x)) :: (unit, _) outcome))"
proof (induction n h l k f rule: replace_with_rec.induct)
  case (1 n h l k f)
  note IH = 1 [OF refl refl, simplified, symmetric]
  show ?case
    by (auto simp: replace_with_rec.simps [of n h l k f] update_rec.simps [of n h l k] Let_def IH outcome_push
        found_is_set clear_or_replace_at_def collision_replace_with_def collision_update_def comp_def
        split: option.splits entry.splits intro!: arg_cong2 [where f = obind])
qed

lemma replace_rec_as_update:
  "omap (\<lambda>(n', _). Some n') (replace_rec n h l k v)
   = map_err (\<lambda>_. ReplaceKeyNotFound) (update_rec n h l k (\<lambda>_. Ok (Some v) :: (unit, _) outcome))"
proof (induction n h l k v rule: replace_rec.induct)
  case (1 n h l k v)
  note IH = 1 [OF refl refl, simplified, symmetric]
  show ?case
    by (auto simp: replace_rec.simps [of n h l k v] update_rec.simps [of n h l k] Let_def IH outcome_push
        found_is_set clear_or_replace_at_def collision_replace_def collision_update_def comp_def case_prod_beta
        split: option.splits entry.splits intro!: arg_cong2 [where f = obind])
qed

lemma replace_rec_old:
  assumes "wf_node hf path n" and "replace_rec n (hf k) (length path) k v = Ok (n', old)"
  shows "node_map hf (length path) n k = Some old"
  using assms
proof (induction n "hf k" "length path" k v arbitrary: path n' rule: replace_rec.induct)
  case (1 n k v path)
  define i where "i = level_index (hf k) (length path)"
  have i32: "i < 32" by (simp add: i_def level_index_less)
  note rd = child_read [OF wf_node_compact [OF "1.prems"(1)] i32]
  note IH = "1.hyps" [OF i_def refl, where path = "path @ [i]", simplified]
  have sub: "cell n i = Some (SubNode s) \<Longrightarrow> wf_node hf (path @ [i]) s" for s
    using wf_node_cellD [OF "1.prems"(1)] by fastforce
  have many: "cell n i = Some (LeafMany h col) \<Longrightarrow> find_record 0 col k = Some (p, k', x) \<Longrightarrow> map_of col k = Some x"
    for h col p k' x by (auto simp: find_record_eq split: option.splits)
  from "1.prems"(2) rd IH sub many show ?case
    by (cases "cell n i")
      (auto simp: replace_rec.simps [of n "hf k"] Let_def i_def [symmetric] outcome_simps node_map_def
        find_node.simps [of n] collision_replace_def get_record_and_pos_def
        split: entry.splits if_splits option.splits)
qed

end
