(* ===== verification/Hamt.thy ===== *)
theory Hamt
  imports Imhamt
begin

text \<open>
  The public map of \<open>imhamt/src/hamt.rs\<close> over the nodes of theory \<open>Imhamt\<close>: lookup, insertion,
  removal, replacement, update, upsert, iteration, collection and equality. The hasher
  \<open>H\<close> of the source is the argument \<open>hf\<close>.

  The locale \<open>persistent_map\<close> is what the ledgers rely on. Its laws hold for the trie as
  long as no two stored keys have the same 64-bit hash (\<open>hamt_ok\<close>); what happens otherwise
  is stated by the general theorems on well-formed tries.
\<close>

record ('k, 'v) hamt =
  root :: "('k, 'v) node"

type_synonym 'k hasher = "'k \<Rightarrow> u64"

section \<open>Operations\<close>

definition hamt_new :: "('k, 'v) hamt" where
  "hamt_new = \<lparr>root = node_new\<rparr>"

definition hamt_is_empty :: "('k, 'v) hamt \<Rightarrow> bool" where
  "hamt_is_empty m = node_is_empty (root m)"

definition hamt_size :: "('k, 'v) hamt \<Rightarrow> nat" where
  "hamt_size m = size_rec (root m)"

definition hamt_insert ::
  "'k hasher \<Rightarrow> ('k, 'v) hamt \<Rightarrow> 'k \<Rightarrow> 'v \<Rightarrow> (insert_error, ('k, 'v) hamt) outcome" where
  "hamt_insert hf m k v =
     obind (insert_rec (root m) (hf k) 0 k v) (\<lambda>newroot. Ok \<lparr>root = newroot\<rparr>)"

text \<open>The result of a removal: an emptied root becomes the empty map.\<close>

definition rebuild :: "('k, 'v) node option \<Rightarrow> ('k, 'v) hamt" where
  "rebuild newroot = (case newroot of None \<Rightarrow> hamt_new | Some r \<Rightarrow> \<lparr>root = r\<rparr>)"

definition hamt_remove_match ::
  "'k hasher \<Rightarrow> ('k, 'v) hamt \<Rightarrow> 'k \<Rightarrow> 'v \<Rightarrow> (remove_error, ('k, 'v) hamt) outcome" where
  "hamt_remove_match hf m k v = omap rebuild (remove_eq_rec (root m) (hf k) 0 k v)"

definition hamt_remove ::
  "'k hasher \<Rightarrow> ('k, 'v) hamt \<Rightarrow> 'k \<Rightarrow> (remove_error, ('k, 'v) hamt) outcome" where
  "hamt_remove hf m k = omap rebuild (remove_rec (root m) (hf k) 0 k)"

definition hamt_replace ::
  "'k hasher \<Rightarrow> ('k, 'v) hamt \<Rightarrow> 'k \<Rightarrow> 'v \<Rightarrow> (replace_error, ('k, 'v) hamt \<times> 'v) outcome" where
  "hamt_replace hf m k v =
     obind (replace_rec (root m) (hf k) 0 k v) (\<lambda>(newroot, oldv). Ok (\<lparr>root = newroot\<rparr>, oldv))"

definition hamt_replace_with ::
  "'k hasher \<Rightarrow> ('k, 'v) hamt \<Rightarrow> 'k \<Rightarrow> ('v \<Rightarrow> 'v) \<Rightarrow> (replace_error, ('k, 'v) hamt) outcome" where
  "hamt_replace_with hf m k f =
     obind (replace_with_rec (root m) (hf k) 0 k f) (\<lambda>newroot. Ok \<lparr>root = newroot\<rparr>)"

definition hamt_update ::
  "'k hasher \<Rightarrow> ('k, 'v) hamt \<Rightarrow> 'k \<Rightarrow> ('v \<Rightarrow> ('u, 'v option) outcome)
   \<Rightarrow> ('u update_error, ('k, 'v) hamt) outcome" where
  "hamt_update hf m k f = omap rebuild (update_rec (root m) (hf k) 0 k f)"

definition hamt_insert_or_update ::
  "'k hasher \<Rightarrow> ('k, 'v) hamt \<Rightarrow> 'k \<Rightarrow> 'v \<Rightarrow> ('v \<Rightarrow> ('e, 'v option) outcome)
   \<Rightarrow> ('e, ('k, 'v) hamt) outcome" where
  "hamt_insert_or_update hf m k v f =
     (case hamt_update hf m k f of
        Ok new_self \<Rightarrow> Ok new_self
      | Err UpdateKeyNotFound \<Rightarrow> unwrap (hamt_insert hf m k v)
      | Err (ValueCallbackError x) \<Rightarrow> Err x
      | Panic \<Rightarrow> Panic)"

definition hamt_insert_or_update_simple ::
  "'k hasher \<Rightarrow> ('k, 'v) hamt \<Rightarrow> 'k \<Rightarrow> 'v \<Rightarrow> ('v \<Rightarrow> 'v option) \<Rightarrow> (unit, ('k, 'v) hamt) outcome" where
  "hamt_insert_or_update_simple hf m k v f =
     (case hamt_update hf m k (\<lambda>x. Ok (f x) :: (unit, _) outcome) of
        Ok new_self \<Rightarrow> Ok new_self
      | Err (ValueCallbackError _) \<Rightarrow> Panic
      | Err UpdateKeyNotFound \<Rightarrow> unwrap (hamt_insert hf m k v)
      | Panic \<Rightarrow> Panic)"

definition hamt_lookup :: "'k hasher \<Rightarrow> ('k, 'v) hamt \<Rightarrow> 'k \<Rightarrow> ('e, 'v option) outcome" where
  "hamt_lookup hf m k = unwrap_opt (lookup_loop (root m) (hf k) 0 k)"

definition hamt_contains_key :: "'k hasher \<Rightarrow> ('k, 'v) hamt \<Rightarrow> 'k \<Rightarrow> ('e, bool) outcome" where
  "hamt_contains_key hf m k = omap (\<lambda>r. r \<noteq> None) (hamt_lookup hf m k)"

section \<open>Iteration\<close>

text \<open>
  \<open>HamtIter\<close>: a stack of slice iterators over children, innermost first, and the pairs
  left of the collision being read.
\<close>

record ('k, 'v) hamt_iterator =
  stack :: "('k, 'v) entry list list"
  content :: "('k \<times> 'v) list option"

definition hamt_iter_start :: "('k, 'v) hamt \<Rightarrow> ('k, 'v) hamt_iterator" where
  "hamt_iter_start m = \<lparr>stack = [children (root m)], content = None\<rparr>"

function hamt_iter_next :: "('k, 'v) hamt_iterator \<Rightarrow> ('k \<times> 'v) option \<times> ('k, 'v) hamt_iterator" where
  "hamt_iter_next it =
     (case content it of
        Some [] \<Rightarrow> hamt_iter_next (it\<lparr>content := None\<rparr>)
      | Some (p # ps) \<Rightarrow> (Some p, it\<lparr>content := Some ps\<rparr>)
      | None \<Rightarrow>
          (case stack it of
             [] \<Rightarrow> (None, it)
           | [] # up \<Rightarrow> hamt_iter_next (it\<lparr>stack := up\<rparr>)
           | (SubNode sub # es) # up \<Rightarrow> hamt_iter_next (it\<lparr>stack := children sub # es # up\<rparr>)
           | (Leaf _ k v # es) # up \<Rightarrow> (Some (k, v), it\<lparr>stack := es # up\<rparr>)
           | (LeafMany _ col # es) # up \<Rightarrow>
               hamt_iter_next (it\<lparr>stack := es # up, content := Some col\<rparr>)))"
  by pat_completeness auto
termination
proof (relation "measures [\<lambda>it. size_list (size_list size) (stack it), \<lambda>it. case content it of None \<Rightarrow> 0 | Some _ \<Rightarrow> 1]", goal_cases)
  case (4 it es up e esa sub)
  then show ?case by (cases sub) simp
qed simp_all

declare hamt_iter_next.simps [simp del]

text \<open>The pairs below a node in the order of the iterator.\<close>

primrec node_entries :: "('k, 'v) node \<Rightarrow> ('k \<times> 'v) list"
  and entry_entries :: "('k, 'v) entry \<Rightarrow> ('k \<times> 'v) list" where
  "node_entries (Node bm cs) = concat (map entry_entries cs)"
| "entry_entries (Leaf h k v) = [(k, v)]"
| "entry_entries (LeafMany h col) = col"
| "entry_entries (SubNode n) = node_entries n"

definition pending :: "('k, 'v) hamt_iterator \<Rightarrow> ('k \<times> 'v) list" where
  "pending it = (case content it of None \<Rightarrow> [] | Some ps \<Rightarrow> ps)
     @ concat (map (\<lambda>es. concat (map entry_entries es)) (stack it))"

lemma node_entries_children: "node_entries n = concat (map entry_entries (children n))"
  by (cases n) simp

lemma hamt_iter_next_pending:
  "case hamt_iter_next it of
     (None, it') \<Rightarrow> pending it = []
   | (Some p, it') \<Rightarrow> pending it = p # pending it'"
proof (induction it rule: hamt_iter_next.induct)
  case (1 it)
  show ?case
  proof (cases "content it")
    case (Some ps)
    with 1 show ?thesis
      by (cases ps) (auto simp: hamt_iter_next.simps [of it] pending_def split: option.splits)
  next
    case None
    note unf = hamt_iter_next.simps [of it] and none = None
    show ?thesis
    proof (cases "stack it")
      case Nil
      with None show ?thesis by (simp add: unf pending_def)
    next
      case (Cons es up)
      show ?thesis
      proof (cases es)
        case Nil
        with 1 None Cons show ?thesis by (simp add: unf pending_def split: prod.splits option.splits)
      next
        case (Cons e rest)
        with 1 None \<open>stack it = es # up\<close> show ?thesis
          by (cases e) (fastforce simp: unf pending_def node_entries_children split: prod.splits option.splits)+
      qed
    qed
  qed
qed

text \<open>Running the iterator to its end, as \<open>for\<close> loops and \<open>collect\<close> do.\<close>

function iter_collect :: "('k, 'v) hamt_iterator \<Rightarrow> ('k \<times> 'v) list" where
  "iter_collect it =
     (case hamt_iter_next it of (None, _) \<Rightarrow> [] | (Some p, it') \<Rightarrow> p # iter_collect it')"
  by pat_completeness auto
termination
proof (relation "measure (\<lambda>it. length (pending it))", goal_cases)
  case (2 it p p' it')
  then show ?case using hamt_iter_next_pending [of it] by auto
qed simp

declare iter_collect.simps [simp del]

definition hamt_iter :: "('k, 'v) hamt \<Rightarrow> ('k \<times> 'v) list" where
  "hamt_iter m = iter_collect (hamt_iter_start m)"

fun from_iter_loop ::
  "'k hasher \<Rightarrow> ('k, 'v) hamt \<Rightarrow> ('k \<times> 'v) list \<Rightarrow> (unit, ('k, 'v) hamt) outcome" where
  "from_iter_loop hf h [] = Ok h"
| "from_iter_loop hf h ((k, v) # rest) =
     (case hamt_insert hf h k v of
        Err _ \<Rightarrow> from_iter_loop hf h rest
      | Ok newh \<Rightarrow> from_iter_loop hf newh rest
      | Panic \<Rightarrow> Panic)"

definition hamt_from_iter :: "'k hasher \<Rightarrow> ('k \<times> 'v) list \<Rightarrow> (unit, ('k, 'v) hamt) outcome" where
  "hamt_from_iter hf xs = from_iter_loop hf hamt_new xs"

section \<open>Equality\<close>

fun eq_loop :: "'k hasher \<Rightarrow> ('k \<times> 'v) list \<Rightarrow> ('k, 'v) hamt \<Rightarrow> ('e, bool) outcome" where
  "eq_loop hf [] other = Ok True"
| "eq_loop hf ((k, v) # rest) other =
     obind (hamt_lookup hf other k) (\<lambda>r.
       case r of
         Some v2 \<Rightarrow> if v \<noteq> v2 then Ok False else eq_loop hf rest other
       | None \<Rightarrow> Ok False)"

definition hamt_eq :: "'k hasher \<Rightarrow> ('k, 'v) hamt \<Rightarrow> ('k, 'v) hamt \<Rightarrow> ('e, bool) outcome" where
  "hamt_eq hf self other =
     (if hamt_is_empty self \<and> hamt_is_empty other then Ok True
      else if hamt_is_empty self \<noteq> hamt_is_empty other then Ok False
      else eq_loop hf (hamt_iter self) other)"

section \<open>Invariant and abstraction\<close>

definition hamt_wf :: "'k hasher \<Rightarrow> ('k, 'v) hamt \<Rightarrow> bool" where
  "hamt_wf hf m \<longleftrightarrow> wf_node hf [] (root m)"

definition hamt_map :: "'k hasher \<Rightarrow> ('k, 'v) hamt \<Rightarrow> 'k \<rightharpoonup> 'v" where
  "hamt_map hf m = node_map hf 0 (root m)"

lemma iter_collect_pending: "iter_collect it = pending it"
proof (induction it rule: iter_collect.induct)
  case (1 it)
  then show ?case
    using hamt_iter_next_pending [of it] by (auto simp: iter_collect.simps [of it] split: prod.splits option.splits)
qed

lemma hamt_iter_entries: "hamt_iter m = node_entries (root m)"
  by (simp add: hamt_iter_def iter_collect_pending pending_def hamt_iter_start_def node_entries_children)

lemma find_map_of: "(case find (\<lambda>(lk, _). lk = k) col of None \<Rightarrow> None | Some p \<Rightarrow> Some (snd p)) = map_of col k"
  by (induction col) auto

lemma lookup_loop_correct:
  assumes "wf_node hf path n"
  shows "lookup_loop n (hf k) (length path) k = Some (node_map hf (length path) n k)"
  using assms
proof (induction n "hf k" "length path" k arbitrary: path rule: lookup_loop.induct)
  case (1 n k path)
  define i where "i = level_index (hf k) (length path)"
  have i32: "i < 32" by (simp add: i_def level_index_less)
  note rd = child_read [OF wf_node_compact [OF "1.prems"] i32]
  have sub: "cell n i = Some (SubNode s) \<Longrightarrow> wf_node hf (path @ [i]) s" for s
    using wf_node_cellD [OF "1.prems"] by fastforce
  have IH: "lookup_loop s (hf k) (Suc (length path)) k = Some (node_map hf (Suc (length path)) s k)"
    if "cell n i = Some (SubNode s)" for s
    using "1.hyps" [of _ s "path @ [i]"] sub [OF that] that rd
    by (simp add: lookup_one_def Let_def i_def [symmetric])
  show ?case
    using rd IH
    by (cases "cell n i")
      (auto simp: lookup_loop.simps [of n] lookup_one_def Let_def i_def [symmetric] node_map_def
        find_node.simps [of n] find_map_of [of k, symmetric] split: entry.splits option.splits)
qed

lemma entries_find:
  shows "wf_node hf path n \<Longrightarrow> (k, v) \<in> set (node_entries n) \<longleftrightarrow> find_node n (hf k) (length path) k = Some v"
    and "wf_entry hf path e \<Longrightarrow> (k, v) \<in> set (entry_entries e) \<longleftrightarrow> find_entry e (hf k) (length path) k = Some v"
proof (induction hf path n and hf path e rule: wf_node_wf_entry.induct)
  case (1 hf path bm cs)
  let ?n = "Node bm cs" and ?i = "level_index (hf k) (length path)"
  have compact: "compact ?n" using wf_node_compact [OF "1.prems"] .
  have len: "length cs = length (ones bm)" using compact by (simp add: compact_def)
  have IH: "(k, v) \<in> set (entry_entries e) \<longleftrightarrow> find_entry e (hf k) (Suc (length path)) k = Some v"
    if "cell ?n i = Some e" for i e
    using "1.IH" [of "(i, e)" i e] that "1.prems" by (auto simp: cell_def dest: map_of_SomeD)
  have at: "i = ?i" if "cell ?n i = Some e" "find_entry e (hf k) (Suc (length path)) k = Some v" for i e
    using find_agrees(2) [OF wf_node_cellD [OF "1.prems" that(1)], of k v] that(2) by (simp add: agrees_snoc)
  have "(k, v) \<in> set (node_entries ?n) \<longleftrightarrow> (\<exists>e \<in> set cs. (k, v) \<in> set (entry_entries e))" by simp
  also have "\<dots> \<longleftrightarrow> (\<exists>i e. cell ?n i = Some e \<and> (k, v) \<in> set (entry_entries e))"
  proof -
    have "e \<in> set cs \<longleftrightarrow> (\<exists>i. cell ?n i = Some e)" for e
      using len by (auto simp: cell_def in_set_conv_nth set_zip)
    then show ?thesis by blast
  qed
  also have "\<dots> \<longleftrightarrow> (\<exists>e. cell ?n ?i = Some e \<and> find_entry e (hf k) (Suc (length path)) k = Some v)"
    using IH at by blast
  also have "\<dots> \<longleftrightarrow> find_node ?n (hf k) (length path) k = Some v"
    by (auto simp: find_node.simps split: option.splits)
  finally show ?case .
next
  case (2 hf path h k' v')
  then show ?case by auto
next
  case (3 hf path h col)
  then show ?case by (auto dest: map_of_SomeD)
next
  case (4 hf path n)
  then show ?case by simp
qed

lemma entries_distinct:
  fixes n :: "('k, 'v) node" and e :: "('k, 'v) entry"
  shows "wf_node hf path n \<Longrightarrow> distinct (map fst (node_entries n))"
    and "wf_entry hf path e \<Longrightarrow> distinct (map fst (entry_entries e))"
proof (induction hf path n and hf path e rule: wf_node_wf_entry.induct)
  case (1 hf path bm cs)
  have len: "length cs = length (ones bm)" using "1.prems" by simp
  have at: "(ones bm ! p, cs ! p) \<in> set (zip (ones bm) cs)" if "p < length cs" for p
    using that len by (auto simp: set_zip)
  have wfe: "wf_entry hf (path @ [ones bm ! p]) (cs ! p)" if "p < length cs" for p
    using at [OF that] "1.prems" by auto
  have idx: "level_index (hf k) (length path) = ones bm ! p"
    if p: "p < length cs" and k: "k \<in> fst ` set (entry_entries (cs ! p))" for p k
  proof -
    from k obtain v where "(k, v) \<in> set (entry_entries (cs ! p))" by auto
    then have "find_entry (cs ! p) (hf k) (length (path @ [ones bm ! p])) k = Some v"
      using entries_find(2) [OF wfe [OF p]] by blast
    from find_agrees(2) [OF wfe [OF p] this] show ?thesis by (simp add: agrees_snoc)
  qed
  have "distinct (concat (map (\<lambda>e. map fst (entry_entries e)) cs))"
  proof (rule distinct_concat_nth)
    fix xs assume "xs \<in> set (map (\<lambda>e. map fst (entry_entries e)) cs)"
    then obtain p where "p < length cs" "xs = map fst (entry_entries (cs ! p))"
      by (auto simp: in_set_conv_nth)
    then show "distinct xs" using "1.IH" [OF at refl] wfe by auto
  next
    fix p q assume "p < q" and "q < length (map (\<lambda>e. map fst (entry_entries e)) cs)"
    then have pq: "p < length cs" "q < length cs" "p \<noteq> q" by simp_all
    then have "ones bm ! p \<noteq> ones bm ! q" using len by (simp add: nth_eq_iff_index_eq)
    then show "set (map (\<lambda>e. map fst (entry_entries e)) cs ! p)
        \<inter> set (map (\<lambda>e. map fst (entry_entries e)) cs ! q) = {}"
      using idx [OF pq(1)] idx [OF pq(2)] pq by (force simp: image_iff)
  qed
  then show ?case by (simp add: map_concat comp_def)
qed auto

lemma entries_nonempty:
  fixes n :: "('k, 'v) node" and e :: "('k, 'v) entry"
  shows "wf_node hf path n \<Longrightarrow> bitmap n \<noteq> 0 \<Longrightarrow> node_entries n \<noteq> []"
    and "wf_entry hf path e \<Longrightarrow> entry_entries e \<noteq> []"
proof (induction hf path n and hf path e rule: wf_node_wf_entry.induct)
  case (1 hf path bm cs)
  then obtain i rest where "ones bm = i # rest" by (cases "ones bm") auto
  moreover then obtain e es where "cs = e # es" using "1.prems" by (cases cs) auto
  ultimately show ?case using "1.IH" [of "(i, e)" i e] "1.prems" by auto
qed auto

lemma wf_bitmap_children: "wf_node hf path n \<Longrightarrow> bitmap n = 0 \<Longrightarrow> node_entries n = []"
  by (cases n) auto

section \<open>Correctness of the map operations\<close>

lemma hamt_new_wf [simp]: "hamt_wf hf hamt_new" and hamt_new_map [simp]: "hamt_map hf hamt_new = Map.empty"
  by (simp_all add: hamt_wf_def hamt_map_def hamt_new_def)

lemma hamt_lookup_wf: "hamt_wf hf m \<Longrightarrow> hamt_lookup hf m k = Ok (hamt_map hf m k)"
  using lookup_loop_correct [of hf "[]" "root m" k]
  by (simp add: hamt_wf_def hamt_map_def hamt_lookup_def unwrap_opt_def)

lemma hamt_iter_map:
  assumes "hamt_wf hf m"
  shows "distinct (map fst (hamt_iter m))" and "map_of (hamt_iter m) = hamt_map hf m"
proof -
  show d: "distinct (map fst (hamt_iter m))"
    using assms entries_distinct(1) by (auto simp: hamt_wf_def hamt_iter_entries)
  show "map_of (hamt_iter m) = hamt_map hf m"
  proof
    fix k
    have "map_of (hamt_iter m) k = Some v \<longleftrightarrow> hamt_map hf m k = Some v" for v
      using d entries_find(1) [of hf "[]" "root m" k v] assms
      by (simp add: hamt_wf_def hamt_map_def hamt_iter_entries node_map_def)
    then show "map_of (hamt_iter m) k = hamt_map hf m k"
      by (metis not_None_eq)
  qed
qed

lemma size_rec_entries:
  fixes n :: "('k, 'v) node" and e :: "('k, 'v) entry"
  shows "size_rec n = length (node_entries n)" and "size_entry e = length (entry_entries e)"
  by (induction n and e) (simp_all add: length_concat comp_def cong: map_cong)

lemma hamt_empty_map: "hamt_wf hf m \<Longrightarrow> hamt_is_empty m \<longleftrightarrow> hamt_map hf m = Map.empty"
proof -
  assume wf: "hamt_wf hf m"
  have "hamt_is_empty m \<longleftrightarrow> hamt_iter m = []"
    using wf entries_nonempty(1) wf_bitmap_children
    by (auto simp: hamt_is_empty_def node_is_empty_def small_bitmap_is_empty_def hamt_wf_def hamt_iter_entries)
  also have "\<dots> \<longleftrightarrow> hamt_map hf m = Map.empty"
    using hamt_iter_map(2) [OF wf] by (metis map_of_eq_empty_iff)
  finally show ?thesis .
qed

lemma hamt_insert_cases:
  assumes "hamt_wf hf m"
  shows "case hamt_insert hf m k v of
      Ok m' \<Rightarrow> hamt_map hf m k = None \<and> hamt_wf hf m' \<and> hamt_map hf m' = (hamt_map hf m)(k \<mapsto> v)
    | Err e \<Rightarrow> hamt_map hf m k \<noteq> None
    | Panic \<Rightarrow> collides hf (hamt_map hf m) k"
  using insert_rec_correct [of hf "[]" "root m" k v] assms
  by (cases "insert_rec (root m) (hf k) 0 k v")
    (auto simp: hamt_insert_def hamt_wf_def hamt_map_def insert_spec_def agrees_def)

lemma hamt_update_cases:
  assumes "hamt_wf hf m"
  shows "case hamt_update hf m k f of
      Ok m' \<Rightarrow> \<exists>v w. hamt_map hf m k = Some v \<and> f v = Ok w \<and> hamt_wf hf m'
        \<and> hamt_map hf m' = (hamt_map hf m)(k := w)
    | Err UpdateKeyNotFound \<Rightarrow> hamt_map hf m k = None
    | Err (ValueCallbackError u) \<Rightarrow> \<exists>v. hamt_map hf m k = Some v \<and> f v = Err u
    | Panic \<Rightarrow> (\<exists>v. hamt_map hf m k = Some v \<and> f v = Panic) \<or> collides hf (hamt_map hf m) k"
proof -
  note spec = update_rec_correct [of hf "[]" "root m" k f]
  show ?thesis
  proof (cases "update_rec (root m) (hf k) 0 k f")
    case (Ok r)
    then show ?thesis using spec assms
      by (cases r) (auto simp: hamt_update_def hamt_wf_def hamt_map_def update_spec_def rebuild_def hamt_new_def)
  next
    case (Err e)
    then show ?thesis using spec assms
      by (cases e) (auto simp: hamt_update_def hamt_wf_def hamt_map_def update_spec_def)
  next
    case Panic
    then show ?thesis using spec assms
      by (auto simp: hamt_update_def hamt_wf_def hamt_map_def update_spec_def)
  qed
qed

lemma hamt_remove_as_update:
  "hamt_remove hf m k = map_err (\<lambda>_. RemoveKeyNotFound) (hamt_update hf m k (\<lambda>_. Ok None :: (unit, _) outcome))"
  by (simp add: hamt_remove_def hamt_update_def remove_rec_as_update outcome_push)

lemma hamt_remove_match_as_update:
  "hamt_remove_match hf m k v = map_err match_error (hamt_update hf m k (match_callback v))"
  by (simp add: hamt_remove_match_def hamt_update_def remove_eq_rec_as_update outcome_push)

lemma obind_Ok_omap: "obind x (\<lambda>y. Ok (g y)) = omap g x"
  by (cases x) auto

lemma hamt_replace_with_as_update:
  "hamt_replace_with hf m k f
   = map_err (\<lambda>_. ReplaceKeyNotFound) (hamt_update hf m k (\<lambda>x. Ok (Some (f x)) :: (unit, _) outcome))"
  using replace_with_rec_as_update [of "root m" "hf k" 0 k f, symmetric]
  by (simp add: hamt_replace_with_def hamt_update_def obind_Ok_omap outcome_push rebuild_def comp_def)

lemma hamt_replace_as_update:
  "omap fst (hamt_replace hf m k v)
   = map_err (\<lambda>_. ReplaceKeyNotFound) (hamt_update hf m k (\<lambda>_. Ok (Some v) :: (unit, _) outcome))"
  using replace_rec_as_update [of "root m" "hf k" 0 k v, symmetric]
  by (simp add: hamt_replace_def hamt_update_def outcome_push rebuild_def comp_def case_prod_beta
      obind_Ok_omap)

lemma hamt_replace_old:
  "hamt_wf hf m \<Longrightarrow> hamt_replace hf m k v = Ok (m', old) \<Longrightarrow> hamt_map hf m k = Some old"
  using replace_rec_old [of hf "[]" "root m" k v]
  by (auto simp: hamt_replace_def hamt_wf_def hamt_map_def outcome_simps)

lemma eq_loop_correct:
  "hamt_wf hf b \<Longrightarrow> eq_loop hf xs b = Ok (\<forall>(k, v) \<in> set xs. hamt_map hf b k = Some v)"
  by (induction xs) (auto simp: hamt_lookup_wf split: option.splits)

section \<open>The interface the ledgers rely on\<close>

text \<open>
  A persistent map with fallible operations. \<open>fresh m k\<close> says that storing \<open>k\<close> keeps
  the invariant.
\<close>

locale persistent_map =
  fixes lookup :: "'m \<Rightarrow> 'k \<Rightarrow> ('e, 'v option) outcome"
    and ins :: "'m \<Rightarrow> 'k \<Rightarrow> 'v \<Rightarrow> (insert_error, 'm) outcome"
    and upd :: "'m \<Rightarrow> 'k \<Rightarrow> ('v \<Rightarrow> ('u, 'v option) outcome) \<Rightarrow> ('u update_error, 'm) outcome"
    and entries :: "'m \<Rightarrow> ('k \<times> 'v) list"
    and alpha :: "'m \<Rightarrow> 'k \<rightharpoonup> 'v"
    and invar :: "'m \<Rightarrow> bool"
    and fresh :: "'m \<Rightarrow> 'k \<Rightarrow> bool"
  assumes lookup_alpha: "invar m \<Longrightarrow> lookup m k = Ok (alpha m k)"
    and ins_new: "invar m \<Longrightarrow> alpha m k = None \<Longrightarrow>
      \<exists>m'. ins m k v = Ok m' \<and> alpha m' = (alpha m)(k \<mapsto> v) \<and> (fresh m k \<longrightarrow> invar m')"
    and ins_old: "invar m \<Longrightarrow> alpha m k = Some v' \<Longrightarrow> ins m k v = Err EntryExists"
    and upd_missing: "invar m \<Longrightarrow> alpha m k = None \<Longrightarrow> upd m k f = Err UpdateKeyNotFound"
    and upd_error: "invar m \<Longrightarrow> alpha m k = Some v \<Longrightarrow> f v = Err u \<Longrightarrow>
      upd m k f = Err (ValueCallbackError u)"
    and upd_panic: "invar m \<Longrightarrow> alpha m k = Some v \<Longrightarrow> f v = Panic \<Longrightarrow> upd m k f = Panic"
    and upd_ok: "invar m \<Longrightarrow> alpha m k = Some v \<Longrightarrow> f v = Ok w \<Longrightarrow>
      \<exists>m'. upd m k f = Ok m' \<and> alpha m' = (alpha m)(k := w) \<and> invar m'"
    and entries_keys: "invar m \<Longrightarrow> distinct (map fst (entries m))"
    and entries_alpha: "invar m \<Longrightarrow> map_of (entries m) = alpha m"
begin

lemma finite_dom: "invar m \<Longrightarrow> finite (dom (alpha m))"
  using entries_alpha [of m] by (metis finite_dom_map_of)

text \<open>A quantity summed over the iterator is the sum over the stored keys.\<close>

lemma sum_entries:
  fixes g :: "'k \<Rightarrow> 'v \<Rightarrow> nat"
  assumes "invar m"
  shows "sum_list (map (\<lambda>(k, v). g k v) (entries m)) = (\<Sum>k \<in> dom (alpha m). g k (the (alpha m k)))"
proof -
  have "(\<Sum>k \<in> dom (alpha m). g k (the (alpha m k))) = (\<Sum>k \<leftarrow> map fst (entries m). g k (the (alpha m k)))"
    using entries_keys [OF assms] entries_alpha [OF assms]
    by (subst sum.distinct_set_conv_list [symmetric]) (auto simp: dom_map_of_conv_image_fst [symmetric])
  also have "\<dots> = (\<Sum>(k, v) \<leftarrow> entries m. g k v)"
  proof -
    have "the (alpha m k) = v" if "(k, v) \<in> set (entries m)" for k v
      using that entries_keys [OF assms] entries_alpha [OF assms] by (metis map_of_is_SomeI option.sel)
    then show ?thesis by (auto simp: comp_def case_prod_beta intro!: arg_cong [where f = sum_list] map_cong)
  qed
  finally show ?thesis by simp
qed

text \<open>The sum after one key changes.\<close>

lemma sum_update:
  fixes g :: "'v \<Rightarrow> nat"
  assumes "invar m" and "alpha m' = (alpha m)(k := w)"
  shows "(\<Sum>x \<in> dom (alpha m'). g (the (alpha m' x))) + (case alpha m k of None \<Rightarrow> 0 | Some v \<Rightarrow> g v)
    = (\<Sum>x \<in> dom (alpha m). g (the (alpha m x))) + (case w of None \<Rightarrow> 0 | Some v \<Rightarrow> g v)"
proof -
  let ?D = "dom (alpha m) - {k}"
  have fin: "finite (dom (alpha m))" by (rule finite_dom [OF assms(1)])
  have part: "(\<Sum>x \<in> dom f. g (the (f x))) = (\<Sum>x \<in> dom f - {k}. g (the (f x)))
      + (case f k of None \<Rightarrow> 0 | Some v \<Rightarrow> g v)" if "finite (dom f)" for f :: "'k \<rightharpoonup> 'v"
    using that sum.remove [of "dom f" k "\<lambda>x. g (the (f x))"]
    by (cases "f k") (auto simp: domIff Diff_insert_absorb)
  have "dom (alpha m') - {k} = ?D" using assms(2) by auto
  moreover have "(\<Sum>x \<in> ?D. g (the (alpha m' x))) = (\<Sum>x \<in> ?D. g (the (alpha m x)))"
    using assms(2) by (intro sum.cong) auto
  moreover have "finite (dom (alpha m'))" using fin assms(2) by (simp add: dom_fun_upd)
  ultimately show ?thesis using part [of "alpha m"] part [of "alpha m'"] fin assms(2) by simp
qed

end

text \<open>No two stored keys share a hash.\<close>

definition hamt_ok :: "'k hasher \<Rightarrow> ('k, 'v) hamt \<Rightarrow> bool" where
  "hamt_ok hf m \<longleftrightarrow> hamt_wf hf m \<and> inj_on hf (dom (hamt_map hf m))"

definition hash_fresh :: "'k hasher \<Rightarrow> ('k, 'v) hamt \<Rightarrow> 'k \<Rightarrow> bool" where
  "hash_fresh hf m k \<longleftrightarrow> (\<forall>k' \<in> dom (hamt_map hf m). hf k' = hf k \<longrightarrow> k' = k)"

lemma hamt_ok_no_collision: "hamt_ok hf m \<Longrightarrow> \<not> collides hf (hamt_map hf m) k"
  unfolding hamt_ok_def collides_def by (meson inj_onD)

lemma hamt_new_ok [simp]: "hamt_ok hf hamt_new" "hash_fresh hf hamt_new k"
  by (simp_all add: hamt_ok_def hash_fresh_def)

interpretation pm: persistent_map "hamt_lookup hf" "hamt_insert hf" "hamt_update hf" hamt_iter
  "hamt_map hf" "hamt_ok hf" "hash_fresh hf"
proof
  fix m :: "('a, 'b) hamt" and k v v' and f :: "'b \<Rightarrow> ('d, 'b option) outcome" and u
  assume ok: "hamt_ok hf m"
  then have wf: "hamt_wf hf m" by (simp add: hamt_ok_def)
  note nc = hamt_ok_no_collision [OF ok, of k]
  note ins = hamt_insert_cases [OF wf, of k v] and upd = hamt_update_cases [OF wf, of k f]
  show "hamt_lookup hf m k = Ok (hamt_map hf m k)" by (rule hamt_lookup_wf [OF wf])
  show "distinct (map fst (hamt_iter m))" by (rule hamt_iter_map(1) [OF wf])
  show "map_of (hamt_iter m) = hamt_map hf m" by (rule hamt_iter_map(2) [OF wf])
  {
    assume none: "hamt_map hf m k = None"
    with ins nc obtain m' where m': "hamt_insert hf m k v = Ok m'" "hamt_wf hf m'"
      "hamt_map hf m' = (hamt_map hf m)(k \<mapsto> v)" by (auto split: outcome.splits)
    have "hash_fresh hf m k \<Longrightarrow> hamt_ok hf m'"
      using ok none m' by (auto simp: hamt_ok_def hash_fresh_def dom_fun_upd)
    with m' show "\<exists>m'. hamt_insert hf m k v = Ok m' \<and> hamt_map hf m' = (hamt_map hf m)(k \<mapsto> v)
        \<and> (hash_fresh hf m k \<longrightarrow> hamt_ok hf m')" by blast
    from upd none nc show "hamt_update hf m k f = Err UpdateKeyNotFound"
      by (auto split: outcome.splits update_error.splits)
  }
  show "hamt_map hf m k = Some v' \<Longrightarrow> hamt_insert hf m k v = Err EntryExists"
    using ins nc by (cases "hamt_insert hf m k v") (auto, metis insert_error.exhaust)
  show "hamt_map hf m k = Some v \<Longrightarrow> f v = Err u \<Longrightarrow> hamt_update hf m k f = Err (ValueCallbackError u)"
    and "hamt_map hf m k = Some v \<Longrightarrow> f v = Panic \<Longrightarrow> hamt_update hf m k f = Panic"
    using upd nc by (auto split: outcome.splits update_error.splits)
  {
    fix w assume "hamt_map hf m k = Some v" and "f v = Ok w"
    with upd nc obtain m' where m': "hamt_update hf m k f = Ok m'" "hamt_wf hf m'"
      "hamt_map hf m' = (hamt_map hf m)(k := w)"
      by (auto split: outcome.splits update_error.splits)
    have "dom (hamt_map hf m') \<subseteq> dom (hamt_map hf m)"
      using m'(3) \<open>hamt_map hf m k = Some v\<close> by (auto split: if_splits)
    then have "hamt_ok hf m'" using ok m'(2) inj_on_subset unfolding hamt_ok_def by blast
    with m' show "\<exists>m'. hamt_update hf m k f = Ok m' \<and> hamt_map hf m' = (hamt_map hf m)(k := w) \<and> hamt_ok hf m'"
      by blast
  }
qed

section \<open>Lemmas for the clients of the map\<close>

lemma hamt_remove_ok:
  assumes "hamt_ok hf m"
  shows "case hamt_map hf m k of
      None \<Rightarrow> hamt_remove hf m k = Err RemoveKeyNotFound
    | Some w \<Rightarrow> \<exists>m'. hamt_remove hf m k = Ok m' \<and> hamt_ok hf m' \<and> hamt_map hf m' = (hamt_map hf m)(k := None)"
proof (cases "hamt_map hf m k")
  case None
  then show ?thesis by (simp add: hamt_remove_as_update pm.upd_missing [OF assms None])
next
  case (Some w)
  from pm.upd_ok [OF assms Some, of "\<lambda>_. Ok None :: (unit, _) outcome"] Some
  show ?thesis by (force simp: hamt_remove_as_update)
qed

lemma hamt_remove_match_missing:
  "hamt_ok hf m \<Longrightarrow> hamt_map hf m k = None \<Longrightarrow> hamt_remove_match hf m k v = Err RemoveKeyNotFound"
  by (simp add: hamt_remove_match_as_update pm.upd_missing)

lemma hamt_remove_match_found:
  assumes "hamt_ok hf m" and "hamt_map hf m k = Some w"
  shows "w \<noteq> v \<Longrightarrow> hamt_remove_match hf m k v = Err ValueNotMatching"
    and "\<exists>m'. hamt_remove_match hf m k w = Ok m' \<and> hamt_ok hf m' \<and> hamt_map hf m' = (hamt_map hf m)(k := None)"
proof -
  show "w \<noteq> v \<Longrightarrow> hamt_remove_match hf m k v = Err ValueNotMatching"
    using pm.upd_error [OF assms, of "match_callback v" "()"]
    by (simp add: hamt_remove_match_as_update match_callback_def)
  show "\<exists>m'. hamt_remove_match hf m k w = Ok m' \<and> hamt_ok hf m' \<and> hamt_map hf m' = (hamt_map hf m)(k := None)"
    using pm.upd_ok [OF assms, of "match_callback w" None]
    by (auto simp: hamt_remove_match_as_update match_callback_def)
qed

lemma hamt_replace_ok:
  assumes "hamt_ok hf m"
  shows "case hamt_map hf m k of
      None \<Rightarrow> hamt_replace hf m k v = Err ReplaceKeyNotFound
    | Some w \<Rightarrow> \<exists>m'. hamt_replace hf m k v = Ok (m', w) \<and> hamt_ok hf m' \<and> hamt_map hf m' = (hamt_map hf m)(k \<mapsto> v)"
proof (cases "hamt_map hf m k")
  case None
  have "omap fst (hamt_replace hf m k v) = Err ReplaceKeyNotFound"
    by (simp add: hamt_replace_as_update pm.upd_missing [OF assms None])
  with None show ?thesis by (simp add: outcome_simps)
next
  case (Some w)
  obtain m' where m': "hamt_update hf m k (\<lambda>_. Ok (Some v) :: (unit, _) outcome) = Ok m'"
    "hamt_map hf m' = (hamt_map hf m)(k \<mapsto> v)" "hamt_ok hf m'"
    using pm.upd_ok [OF assms Some, of "\<lambda>_. Ok (Some v) :: (unit, _) outcome"] by auto
  have "omap fst (hamt_replace hf m k v) = Ok m'" by (simp add: hamt_replace_as_update m'(1))
  then obtain old where r: "hamt_replace hf m k v = Ok (m', old)" by (auto simp: outcome_simps)
  have "old = w" using hamt_replace_old [OF _ r] assms Some by (simp add: hamt_ok_def)
  with r m' Some show ?thesis by auto
qed

lemma hamt_upsert_ok:
  assumes "hamt_ok hf m"
  shows "case hamt_map hf m k of
      None \<Rightarrow> \<exists>m'. hamt_insert_or_update hf m k v f = Ok m' \<and> hamt_map hf m' = (hamt_map hf m)(k \<mapsto> v)
        \<and> (hash_fresh hf m k \<longrightarrow> hamt_ok hf m')
    | Some w \<Rightarrow> (case f w of
        Err e \<Rightarrow> hamt_insert_or_update hf m k v f = Err e
      | Panic \<Rightarrow> hamt_insert_or_update hf m k v f = Panic
      | Ok r \<Rightarrow> \<exists>m'. hamt_insert_or_update hf m k v f = Ok m' \<and> hamt_map hf m' = (hamt_map hf m)(k := r)
          \<and> hamt_ok hf m')"
proof (cases "hamt_map hf m k")
  case None
  then show ?thesis
    using pm.ins_new [OF assms None, of v] pm.upd_missing [OF assms None, of f]
    by (auto simp: hamt_insert_or_update_def)
next
  case (Some w)
  then show ?thesis
    using pm.upd_error [OF assms Some, of f] pm.upd_panic [OF assms Some, of f] pm.upd_ok [OF assms Some, of f]
    by (cases "f w") (force simp: hamt_insert_or_update_def)+
qed

section \<open>Properties\<close>

text \<open>
  C14. Insertion into any well-formed trie: it succeeds exactly for an absent key and then adds
  that one binding and keeps the trie well formed; it returns \<open>EntryExists\<close> only for a key that is
  present; it panics only if two stored keys already share a hash that differs from the hash of
  the new key. In particular the recursion ends and its \<open>unreachable!\<close> branch is never taken.
\<close>

theorem hamt_insert_refines:
  assumes "hamt_wf hf m"
  shows "case hamt_insert hf m k v of
      Ok m' \<Rightarrow> hamt_map hf m k = None \<and> hamt_wf hf m' \<and> hamt_map hf m' = (hamt_map hf m)(k \<mapsto> v)
    | Err e \<Rightarrow> hamt_map hf m k \<noteq> None
    | Panic \<Rightarrow> collides hf (hamt_map hf m) k"
  by (rule hamt_insert_cases [OF assms])

theorem hamt_insert_refines_witness:
  "hamt_wf (\<lambda>k. k) \<lparr>root = Node 32 [Leaf 5 5 (7 :: nat)]\<rparr> \<and>
   (case hamt_insert (\<lambda>k. k) \<lparr>root = Node 32 [Leaf 5 5 (7 :: nat)]\<rparr> 37 8 of
      Ok m' \<Rightarrow> hamt_wf (\<lambda>k. k) m' \<and> hamt_map (\<lambda>k. k) m' 37 = Some 8 \<and> hamt_map (\<lambda>k. k) m' 5 = Some 7
    | _ \<Rightarrow> False)"
proof -
  have wf: "hamt_wf (\<lambda>k. k) \<lparr>root = Node 32 [Leaf 5 5 (7 :: nat)]\<rparr>" by code_simp
  have ok: "hamt_insert (\<lambda>k. k) \<lparr>root = Node 32 [Leaf 5 5 (7 :: nat)]\<rparr> 37 8
      = Ok \<lparr>root = Node 32 [SubNode (Node 3 [Leaf 5 5 7, Leaf 37 37 8])]\<rparr>" by code_simp
  have m5: "hamt_map (\<lambda>k. k) \<lparr>root = Node 32 [Leaf 5 5 (7 :: nat)]\<rparr> 5 = Some 7" by code_simp
  show ?thesis using hamt_insert_refines [OF wf, of 37 8] wf ok m5 by simp
qed

text \<open>
  C19. \<open>update\<close> on any well-formed trie: it succeeds exactly when the key is bound and the callback
  accepts the bound value, and then rebinds or drops that key only; a missing key and a refusing
  callback are reported as such; the only other outcome is a panic of the callback, or of the
  collision assertion.
\<close>

theorem hamt_update_refines:
  assumes "hamt_wf hf m"
  shows "case hamt_update hf m k f of
      Ok m' \<Rightarrow> \<exists>v w. hamt_map hf m k = Some v \<and> f v = Ok w \<and> hamt_wf hf m'
        \<and> hamt_map hf m' = (hamt_map hf m)(k := w)
    | Err UpdateKeyNotFound \<Rightarrow> hamt_map hf m k = None
    | Err (ValueCallbackError u) \<Rightarrow> \<exists>v. hamt_map hf m k = Some v \<and> f v = Err u
    | Panic \<Rightarrow> (\<exists>v. hamt_map hf m k = Some v \<and> f v = Panic) \<or> collides hf (hamt_map hf m) k"
  by (rule hamt_update_cases [OF assms])

theorem hamt_update_refines_witness:
  "hamt_wf (\<lambda>k. k) \<lparr>root = Node 32 [SubNode (Node 3 [Leaf 5 5 (7 :: nat), Leaf 37 37 8])]\<rparr> \<and>
   (case hamt_update (\<lambda>k. k) \<lparr>root = Node 32 [SubNode (Node 3 [Leaf 5 5 (7 :: nat), Leaf 37 37 8])]\<rparr> 37
      (\<lambda>v. Ok (if v = 8 then None else Some v) :: (unit, nat option) outcome) of
      Ok m' \<Rightarrow> hamt_wf (\<lambda>k. k) m' \<and> hamt_map (\<lambda>k. k) m' 37 = None
    | _ \<Rightarrow> False)"
proof -
  let ?m = "\<lparr>root = Node 32 [SubNode (Node 3 [Leaf 5 5 (7 :: nat), Leaf 37 37 8])]\<rparr> :: (u64, nat) hamt"
  let ?f = "\<lambda>v. Ok (if v = 8 then None else Some v) :: (unit, nat option) outcome"
  have wf: "hamt_wf (\<lambda>k. k) ?m" by code_simp
  have ok: "hamt_update (\<lambda>k. k) ?m 37 ?f = Ok \<lparr>root = Node 32 [SubNode (Node 1 [Leaf 5 5 7])]\<rparr>" by code_simp
  have m37: "hamt_map (\<lambda>k. k) ?m 37 = Some 8" by code_simp
  show ?thesis using hamt_update_refines [OF wf, of 37 ?f] wf ok m37 by auto
qed

text \<open>
  Lookups of a well-formed trie end without a panic and return the bound value, for every key
  and even in the presence of hash collisions; the iterator yields every binding exactly once,
  and \<open>size\<close> counts the bound keys.
\<close>

theorem hamt_reads_refine:
  assumes "hamt_wf hf m"
  shows "hamt_lookup hf m k = Ok (hamt_map hf m k)
    \<and> hamt_contains_key hf m k = Ok (k \<in> dom (hamt_map hf m))
    \<and> distinct (map fst (hamt_iter m)) \<and> map_of (hamt_iter m) = hamt_map hf m
    \<and> hamt_size m = card (dom (hamt_map hf m))
    \<and> (hamt_is_empty m \<longleftrightarrow> hamt_map hf m = Map.empty)"
proof -
  note it = hamt_iter_map [OF assms]
  have "hamt_size m = length (map fst (hamt_iter m))"
    by (simp add: hamt_size_def size_rec_entries hamt_iter_entries)
  also have "\<dots> = card (dom (hamt_map hf m))"
    using distinct_card [OF it(1)] it(2) by (metis dom_map_of_conv_image_fst set_map)
  finally have "hamt_size m = card (dom (hamt_map hf m))" .
  then show ?thesis
    using it hamt_empty_map [OF assms]
    by (simp add: hamt_contains_key_def hamt_lookup_wf [OF assms] domIff)
qed

theorem hamt_reads_refine_witness:
  "hamt_lookup (\<lambda>k. k) \<lparr>root = Node 32 [SubNode (Node 3 [Leaf 5 5 (7 :: nat), Leaf 37 37 8])]\<rparr> 37
     = (Ok (Some 8) :: (unit, nat option) outcome) \<and>
   card (dom (hamt_map (\<lambda>k. k) \<lparr>root = Node 32 [SubNode (Node 3 [Leaf 5 5 (7 :: nat), Leaf 37 37 8])]\<rparr>)) = 2"
proof -
  let ?m = "\<lparr>root = Node 32 [SubNode (Node 3 [Leaf 5 5 (7 :: nat), Leaf 37 37 8])]\<rparr> :: (u64, nat) hamt"
  have wf: "hamt_wf (\<lambda>k. k) ?m" by code_simp
  have m37: "hamt_map (\<lambda>k. k) ?m 37 = Some 8" and sz: "hamt_size ?m = 2" by code_simp+
  have "hamt_lookup (\<lambda>k. k) ?m 37 = (Ok (hamt_map (\<lambda>k. k) ?m 37) :: (unit, nat option) outcome)
      \<and> hamt_size ?m = card (dom (hamt_map (\<lambda>k. k) ?m))"
    using hamt_reads_refine [OF wf, of 37] by blast
  with m37 sz show ?thesis by simp
qed

text \<open>
  Removal and replacement while no two stored keys share a hash: \<open>remove\<close> drops exactly the
  key, \<open>remove_match\<close> only when the stored value is the expected one, \<open>replace\<close> returns the value it
  overwrites; a missing key is an error and nothing panics. Every result keeps the invariant.
\<close>

theorem hamt_remove_replace:
  assumes "hamt_ok hf m"
  shows "(case hamt_map hf m k of
      None \<Rightarrow> hamt_remove hf m k = Err RemoveKeyNotFound
        \<and> hamt_remove_match hf m k v = Err RemoveKeyNotFound
        \<and> hamt_replace hf m k v = Err ReplaceKeyNotFound
    | Some w \<Rightarrow>
        (\<exists>m'. hamt_remove hf m k = Ok m' \<and> hamt_ok hf m' \<and> hamt_map hf m' = (hamt_map hf m)(k := None))
        \<and> (if w = v then (\<exists>m'. hamt_remove_match hf m k v = Ok m' \<and> hamt_ok hf m'
             \<and> hamt_map hf m' = (hamt_map hf m)(k := None))
           else hamt_remove_match hf m k v = Err ValueNotMatching)
        \<and> (\<exists>m'. hamt_replace hf m k v = Ok (m', w) \<and> hamt_ok hf m'
           \<and> hamt_map hf m' = (hamt_map hf m)(k \<mapsto> v)))"
proof (cases "hamt_map hf m k")
  case None
  then show ?thesis
    using hamt_remove_ok [OF assms, of k] hamt_replace_ok [OF assms, of k v]
      hamt_remove_match_missing [OF assms None] by simp
next
  case (Some w)
  then show ?thesis
    using hamt_remove_ok [OF assms, of k] hamt_replace_ok [OF assms, of k v]
      hamt_remove_match_found [OF assms Some] by (cases "w = v") auto
qed

theorem hamt_remove_replace_witness:
  "hamt_ok (\<lambda>k. k) \<lparr>root = Node 32 [Leaf 5 5 (7 :: nat)]\<rparr> \<and>
   hamt_remove_match (\<lambda>k. k) \<lparr>root = Node 32 [Leaf 5 5 (7 :: nat)]\<rparr> 5 8 = Err ValueNotMatching \<and>
   (\<exists>m'. hamt_replace (\<lambda>k. k) \<lparr>root = Node 32 [Leaf 5 5 (7 :: nat)]\<rparr> 5 8 = Ok (m', 7))"
proof -
  let ?m = "\<lparr>root = Node 32 [Leaf 5 5 (7 :: nat)]\<rparr> :: (u64, nat) hamt"
  have "hamt_wf (\<lambda>k. k) ?m" by code_simp
  then have ok: "hamt_ok (\<lambda>k. k) ?m" by (simp add: hamt_ok_def inj_on_def)
  have m5: "hamt_map (\<lambda>k. k) ?m 5 = Some 7" by code_simp
  show ?thesis using hamt_remove_replace [OF ok, of 5 8] ok m5 by auto
qed

text \<open>
  C20. The equality of maps is a sub-map test: for non-empty maps \<open>a == b\<close> holds as soon as every
  binding of \<open>a\<close> is one of \<open>b\<close>. It is therefore not symmetric.
\<close>

theorem hamt_eq_is_submap:
  assumes "hamt_wf hf a" and "hamt_wf hf b"
  shows "hamt_eq hf a b = Ok (hamt_map hf a \<subseteq>\<^sub>m hamt_map hf b
      \<and> (hamt_map hf a = Map.empty \<longleftrightarrow> hamt_map hf b = Map.empty))"
proof -
  note e = hamt_empty_map [OF assms(1)] hamt_empty_map [OF assms(2)]
  have "(k, v) \<in> set (hamt_iter a) \<longleftrightarrow> hamt_map hf a k = Some v" for k v
    using hamt_iter_map [OF assms(1)] by (metis map_of_eq_Some_iff)
  then have "(\<forall>(k, v) \<in> set (hamt_iter a). hamt_map hf b k = Some v) \<longleftrightarrow> hamt_map hf a \<subseteq>\<^sub>m hamt_map hf b"
    by (auto simp: map_le_def dom_def split: prod.splits) (metis prod.exhaust)
  then show ?thesis by (auto simp: hamt_eq_def eq_loop_correct [OF assms(2)] e)
qed

theorem hamt_eq_is_submap_witness:
  "hamt_eq (\<lambda>k. k) \<lparr>root = Node 32 [Leaf 5 5 (7 :: nat)]\<rparr>
     \<lparr>root = Node 96 [Leaf 5 5 (7 :: nat), Leaf 6 6 9]\<rparr> = (Ok True :: (unit, bool) outcome) \<and>
   hamt_eq (\<lambda>k. k) \<lparr>root = Node 96 [Leaf 5 5 (7 :: nat), Leaf 6 6 9]\<rparr>
     \<lparr>root = Node 32 [Leaf 5 5 (7 :: nat)]\<rparr> = (Ok False :: (unit, bool) outcome)"
proof -
  let ?a = "\<lparr>root = Node 32 [Leaf 5 5 (7 :: nat)]\<rparr> :: (u64, nat) hamt"
  let ?b = "\<lparr>root = Node 96 [Leaf 5 5 (7 :: nat), Leaf 6 6 9]\<rparr> :: (u64, nat) hamt"
  have wf: "hamt_wf (\<lambda>k. k) ?a" "hamt_wf (\<lambda>k. k) ?b" by code_simp+
  have "hamt_map (\<lambda>k. k) ?a = [5 \<mapsto> 7]"
    using hamt_iter_map(2) [OF wf(1)] by (simp add: hamt_iter_entries)
  moreover have "hamt_map (\<lambda>k. k) ?b = [6 \<mapsto> 9, 5 \<mapsto> 7]"
    using hamt_iter_map(2) [OF wf(2)] by (simp add: hamt_iter_entries)
  moreover have "\<not> [6 \<mapsto> 9, 5 \<mapsto> 7] \<subseteq>\<^sub>m [5 :: u64 \<mapsto> 7 :: nat]" "[5 \<mapsto> 7] \<subseteq>\<^sub>m [6 :: u64 \<mapsto> 9, 5 \<mapsto> 7 :: nat]"
    by (auto simp: map_le_def)
  ultimately show ?thesis
    by (simp add: hamt_eq_is_submap [OF wf] hamt_eq_is_submap [OF wf(2,1)])
qed

text \<open>
  C21. Two keys with one hash followed by a key with another hash that starts with the same five
  bits: the first two insertions succeed, the third one panics instead of storing the key.
\<close>

theorem hamt_insert_collision_panics:
  fixes v1 :: 'v and hf :: "'k hasher"
  assumes "k1 \<noteq> k2" and "hf k1 = hf k2" and "hf k3 \<noteq> hf k1"
    and "level_index (hf k3) 0 = level_index (hf k1) 0"
  shows "\<exists>m1 m2. hamt_insert hf hamt_new k1 v1 = Ok m1 \<and> hamt_insert hf m1 k2 v2 = Ok m2
    \<and> hamt_insert hf m2 k3 v3 = Panic"
proof -
  let ?i = "level_index (hf k1) 0"
  let ?n1 = "extended node_new ?i (Leaf (hf k1) k1 v1)"
  let ?n2 = "overwritten ?n1 ?i (LeafMany (hf k1) [(k1, v1), (k2, v2)])"
  have i: "?i < 32" by (rule level_index_less)
  have c0: "compact (node_new :: ('k, 'v) node)" "cell (node_new :: ('k, 'v) node) ?i = None"
    by (simp_all add: compact_def cell_def node_new_def small_bitmap_new_def)
  note s1 = set_at_cell [OF c0 i, of "Leaf (hf k1) k1 v1"]
  have cell1: "cell ?n1 ?i = Some (Leaf (hf k1) k1 v1)" using s1(3) by simp
  note s2 = replace_at_cell [OF s1(2) cell1, of "LeafMany (hf k1) [(k1, v1), (k2, v2)]"]
  have cell2: "cell ?n2 ?i = Some (LeafMany (hf k1) [(k1, v1), (k2, v2)])" using s2(3) by simp
  note r0 = child_read [OF c0(1) i] and r1 = child_read [OF s1(2) i] and r2 = child_read [OF s2(2) i]
  have "hamt_insert hf hamt_new k1 v1 = Ok \<lparr>root = ?n1\<rparr>"
    using r0 c0 by (simp add: s1(1) hamt_insert_def hamt_new_def insert_rec.simps [of node_new] Let_def)
  moreover have "hamt_insert hf \<lparr>root = ?n1\<rparr> k2 v2 = Ok \<lparr>root = ?n2\<rparr>"
    using r1 cell1 assms(1) assms(2) [symmetric]
    by (simp add: s2(1) hamt_insert_def insert_rec.simps [of ?n1] Let_def collision_from_vec_def)
  moreover have "hamt_insert hf \<lparr>root = ?n2\<rparr> k3 v3 = Panic"
    using r2 cell2 assms(3,4) by (simp add: hamt_insert_def insert_rec.simps [of ?n2] Let_def)
  ultimately show ?thesis by blast
qed

theorem hamt_insert_collision_panics_witness:
  "\<exists>m1 m2. hamt_insert (\<lambda>k :: nat. if k < 2 then 0 else 32) hamt_new 0 (10 :: nat) = Ok m1
    \<and> hamt_insert (\<lambda>k :: nat. if k < 2 then 0 else 32) m1 1 11 = Ok m2
    \<and> hamt_insert (\<lambda>k :: nat. if k < 2 then 0 else 32) m2 2 12 = Panic"
proof -
  have "level_index 32 0 = level_index 0 0" by code_simp
  then show ?thesis
    using hamt_insert_collision_panics [of 0 1 "\<lambda>k :: nat. if k < 2 then 0 else 32" 2 10 11 12] by simp
qed

end
