(* ===== verification/Sparse_Array.thy ===== *)
theory Sparse_Array
  imports Bit_Index
begin

text \<open>
  The byte-indexed sparse arrays of \<open>sparse-array/src\<close>: the 256-bit bitmap (\<open>bitmap.rs\<close>),
  the compact array with its builder and iterator (\<open>sparse_array.rs\<close>), and the wrapper that
  only forgets elements until \<open>shrink\<close> is called (\<open>fast.rs\<close>).

  Both arrays implement the interface \<open>byte_map\<close>; the unspent outputs of a transaction are
  stored in the second one. \<open>Arc\<close> shares immutable data and is transparent.
\<close>

section \<open>The bitmap\<close>

datatype bm_index = BitmapIndex (part0: u128) (part1: u128)

definition bm_new :: bm_index where
  "bm_new = BitmapIndex 0 0"

definition get_mask_and_part :: "u8 \<Rightarrow> u128 \<times> u8" where
  "get_mask_and_part idx = (push_bit (unat (idx mod 128)) 1, idx div 128)"

definition bm_get_index :: "bm_index \<Rightarrow> u8 \<Rightarrow> bool" where
  "bm_get_index b idx =
     (let (m, part) = get_mask_and_part idx
      in if part = 0 then part0 b AND m \<noteq> 0 else part1 b AND m \<noteq> 0)"

definition bm_set_index :: "bm_index \<Rightarrow> u8 \<Rightarrow> bm_index" where
  "bm_set_index b idx =
     (let (m, part) = get_mask_and_part idx
      in if part = 0 then BitmapIndex (part0 b OR m) (part1 b)
         else BitmapIndex (part0 b) (part1 b OR m))"

definition bm_remove_index :: "bm_index \<Rightarrow> u8 \<Rightarrow> bm_index" where
  "bm_remove_index b idx =
     (let (m, part) = get_mask_and_part idx
      in if part = 0 then BitmapIndex (part0 b AND NOT m) (part1 b)
         else BitmapIndex (part0 b) (part1 b AND NOT m))"

text \<open>The number of set indices below \<open>idx\<close>, before the cast to a byte.\<close>

definition bm_rank :: "bm_index \<Rightarrow> u8 \<Rightarrow> nat" where
  "bm_rank b idx =
     (let (m, part) = get_mask_and_part idx; below = m - 1
      in if part = 0 then count_ones (part0 b AND below)
         else count_ones (part0 b) + count_ones (part1 b AND below))"

definition bm_get_real_index :: "bm_index \<Rightarrow> u8 \<Rightarrow> u8 option" where
  "bm_get_real_index b idx =
     (if \<not> bm_get_index b idx then None else Some (of_nat (bm_rank b idx)))"

definition bm_is_empty :: "bm_index \<Rightarrow> bool" where
  "bm_is_empty b \<longleftrightarrow> part0 b = 0 \<and> part1 b = 0"

text \<open>In the second branch \<open>trailing_zeros\<close> is below 128, so the byte addition cannot overflow.\<close>

definition bm_get_first_index :: "bm_index \<Rightarrow> u8 option" where
  "bm_get_first_index b =
     (let t0 = trailing_zeros (part0 b); t1 = trailing_zeros (part1 b)
      in if t0 < 128 then Some (of_nat t0)
         else if t1 < 128 then Some (128 + of_nat t1)
         else None)"

section \<open>The compact array\<close>

record 'v sparse_array =
  sa_index :: bm_index
  sa_data :: "'v list"

definition sa_new :: "'v sparse_array" where
  "sa_new = \<lparr>sa_index = bm_new, sa_data = []\<rparr>"

definition sa_get :: "'v sparse_array \<Rightarrow> u8 \<Rightarrow> ('e, 'v option) outcome" where
  "sa_get a idx =
     (case bm_get_real_index (sa_index a) idx of
        None \<Rightarrow> Ok None
      | Some idx_real \<Rightarrow> omap Some (unwrap_opt (nth_opt (sa_data a) (unat idx_real))))"

text \<open>\<open>v[i] = x\<close> and \<open>Vec::insert\<close> with their bounds checks.\<close>

definition vec_assign :: "'a list \<Rightarrow> nat \<Rightarrow> 'a \<Rightarrow> ('e, 'a list) outcome" where
  "vec_assign v i x = (if i < length v then Ok (v[i := x]) else Panic)"

definition vec_insert :: "'a list \<Rightarrow> nat \<Rightarrow> 'a \<Rightarrow> ('e, 'a list) outcome" where
  "vec_insert v i x = (if i \<le> length v then Ok (insert_at i x v) else Panic)"

definition sa_set :: "'v sparse_array \<Rightarrow> u8 \<Rightarrow> 'v \<Rightarrow> ('e, 'v sparse_array) outcome" where
  "sa_set a idx value =
     (case bm_get_real_index (sa_index a) idx of
        Some idx_real \<Rightarrow>
          obind (vec_assign (sa_data a) (unat idx_real) value) (\<lambda>d. Ok (a\<lparr>sa_data := d\<rparr>))
      | None \<Rightarrow>
          let index = bm_set_index (sa_index a) idx
          in obind (unwrap_opt (bm_get_real_index index idx)) (\<lambda>idx_real.
             obind (vec_insert (sa_data a) (unat idx_real) value) (\<lambda>d.
             Ok \<lparr>sa_index = index, sa_data = d\<rparr>)))"

definition sa_remove :: "'v sparse_array \<Rightarrow> u8 \<Rightarrow> ('e, 'v sparse_array \<times> 'v option) outcome" where
  "sa_remove a idx =
     (let index = bm_remove_index (sa_index a) idx
      in case bm_get_real_index (sa_index a) idx of
           None \<Rightarrow> Ok (\<lparr>sa_index = index, sa_data = sa_data a\<rparr>, None)
         | Some idx_real \<Rightarrow>
             obind (unwrap_opt (nth_opt (sa_data a) (unat idx_real))) (\<lambda>v.
             Ok (\<lparr>sa_index = index, sa_data = remove_at (unat idx_real) (sa_data a)\<rparr>, Some v)))"

definition sa_is_empty :: "'v sparse_array \<Rightarrow> bool" where
  "sa_is_empty a = bm_is_empty (sa_index a)"

definition sa_contains_key :: "'v sparse_array \<Rightarrow> u8 \<Rightarrow> bool" where
  "sa_contains_key a idx = bm_get_index (sa_index a) idx"

record 'v sparse_array_builder =
  sab_index :: bm_index
  sab_data :: "'v list"

definition sab_new :: "'v sparse_array_builder" where
  "sab_new = \<lparr>sab_index = bm_new, sab_data = []\<rparr>"

definition sab_set :: "'v sparse_array_builder \<Rightarrow> u8 \<Rightarrow> 'v \<Rightarrow> ('e, 'v sparse_array_builder) outcome" where
  "sab_set a idx value =
     (case bm_get_real_index (sab_index a) idx of
        Some idx_real \<Rightarrow>
          obind (vec_assign (sab_data a) (unat idx_real) value) (\<lambda>d. Ok (a\<lparr>sab_data := d\<rparr>))
      | None \<Rightarrow>
          let index = bm_set_index (sab_index a) idx
          in obind (unwrap_opt (bm_get_real_index index idx)) (\<lambda>idx_real.
             obind (vec_insert (sab_data a) (unat idx_real) value) (\<lambda>d.
             Ok \<lparr>sab_index = index, sab_data = d\<rparr>)))"

definition sab_build :: "'v sparse_array_builder \<Rightarrow> 'v sparse_array" where
  "sab_build a = \<lparr>sa_index = sab_index a, sa_data = sab_data a\<rparr>"

record 'v sparse_array_iter =
  sai_bitmap :: bm_index
  sai_array :: "'v sparse_array"

definition sa_iter :: "'v sparse_array \<Rightarrow> 'v sparse_array_iter" where
  "sa_iter a = \<lparr>sai_bitmap = sa_index a, sai_array = a\<rparr>"

definition sa_iter_next ::
  "'v sparse_array_iter \<Rightarrow> ('e, (u8 \<times> 'v) option \<times> 'v sparse_array_iter) outcome" where
  "sa_iter_next it =
     (case bm_get_first_index (sai_bitmap it) of
        Some idx \<Rightarrow>
          obind (obind (sa_get (sai_array it) idx) unwrap_opt) (\<lambda>v.
            Ok (Some (idx, v), it\<lparr>sai_bitmap := bm_remove_index (sai_bitmap it) idx\<rparr>))
      | None \<Rightarrow> Ok (None, it))"

section \<open>The forgetful array\<close>

record 'v fast_sparse_array =
  fsa_index :: bm_index
  fsa_data :: "'v sparse_array"

definition fsa_new :: "'v fast_sparse_array" where
  "fsa_new = \<lparr>fsa_index = bm_new, fsa_data = sa_new\<rparr>"

definition fsa_get :: "'v fast_sparse_array \<Rightarrow> u8 \<Rightarrow> ('e, 'v option) outcome" where
  "fsa_get a idx = (if \<not> bm_get_index (fsa_index a) idx then Ok None else sa_get (fsa_data a) idx)"

definition fsa_set :: "'v fast_sparse_array \<Rightarrow> u8 \<Rightarrow> 'v \<Rightarrow> ('e, 'v fast_sparse_array) outcome" where
  "fsa_set a idx value =
     obind (sa_set (fsa_data a) idx value) (\<lambda>d.
       Ok \<lparr>fsa_index = bm_set_index (fsa_index a) idx, fsa_data = d\<rparr>)"

definition fsa_remove ::
  "'v fast_sparse_array \<Rightarrow> u8 \<Rightarrow> ('e, 'v fast_sparse_array \<times> 'v option) outcome" where
  "fsa_remove a idx =
     (if bm_get_index (fsa_index a) idx
      then obind (sa_get (fsa_data a) idx) (\<lambda>v.
           Ok (a\<lparr>fsa_index := bm_remove_index (fsa_index a) idx\<rparr>, v))
      else Ok (a, None))"

definition fsa_is_empty :: "'v fast_sparse_array \<Rightarrow> bool" where
  "fsa_is_empty a = bm_is_empty (fsa_index a)"

definition fsa_contains_key :: "'v fast_sparse_array \<Rightarrow> u8 \<Rightarrow> bool" where
  "fsa_contains_key a idx = bm_get_index (fsa_index a) idx"

record 'v fast_sparse_array_iter =
  fsai_bitmap :: bm_index
  fsai_array :: "'v fast_sparse_array"

definition fsa_iter :: "'v fast_sparse_array \<Rightarrow> 'v fast_sparse_array_iter" where
  "fsa_iter a = \<lparr>fsai_bitmap = fsa_index a, fsai_array = a\<rparr>"

definition fsa_iter_next ::
  "'v fast_sparse_array_iter \<Rightarrow> ('e, (u8 \<times> 'v) option \<times> 'v fast_sparse_array_iter) outcome" where
  "fsa_iter_next it =
     (case bm_get_first_index (fsai_bitmap it) of
        Some idx \<Rightarrow>
          obind (fsa_get (fsai_array it) idx) (\<lambda>item.
            case item of
              Some v \<Rightarrow> Ok (Some (idx, v), it\<lparr>fsai_bitmap := bm_remove_index (fsai_bitmap it) idx\<rparr>)
            | None \<Rightarrow> Panic)
      | None \<Rightarrow> Ok (None, it))"

section \<open>The set indices\<close>

definition bm_elems :: "bm_index \<Rightarrow> nat list" where
  "bm_elems b = ones (part0 b) @ map ((+) 128) (ones (part1 b))"

lemma u8_mod_div [simp]:
  "unat (idx mod 128 :: u8) = unat idx mod 128" "idx div 128 = 0 \<longleftrightarrow> unat idx < 128"
  by (simp_all add: unat_mod word_unat_eq_iff unat_div div_eq_0_iff)

lemma ones_less: "i \<in> set (ones w) \<Longrightarrow> i < LENGTH('a)" for w :: "'a::len word"
  by (simp add: bit_imp_le_length)

lemma bm_elems_less: "i \<in> set (bm_elems b) \<Longrightarrow> i < 256"
  using ones_less [of _ "part0 b"] ones_less [of _ "part1 b"] by (force simp: bm_elems_def)

lemma bm_elems_sorted: "sorted (bm_elems b)" and bm_elems_distinct: "distinct (bm_elems b)"
  using ones_less [of _ "part0 b"]
  by (fastforce simp: bm_elems_def sorted_append sorted_map sorted_wrt_mono_rel distinct_map)+

lemma bm_elems_mem: "i \<in> set (bm_elems b) \<longleftrightarrow>
    (if i < 128 then bit (part0 b) i else bit (part1 b) (i - 128))"
proof (cases "i < 128")
  case False
  then have "\<not> bit (part0 b) i" using bit_imp_le_length [of "part0 b" i] by auto
  with False show ?thesis by (force simp: bm_elems_def image_iff intro: exI [of _ "i - 128"])
qed (auto simp: bm_elems_def)

lemma u8_high: "\<not> unat (idx :: u8) < 128 \<Longrightarrow> unat idx mod 128 = unat idx - 128"
  using unat_lt_2p [of idx] by (simp add: mod_if)

lemma bm_get_index_iff [simp]: "bm_get_index b idx \<longleftrightarrow> unat idx \<in> set (bm_elems b)"
  using unat_lt_2p [of idx]
  by (simp add: bm_get_index_def get_mask_and_part_def bm_elems_mem and_bit_eq_0_iff u8_high)

lemma bm_elems_set: "set (bm_elems (bm_set_index b idx)) = insert (unat idx) (set (bm_elems b))"
  using unat_lt_2p [of idx]
  by (auto simp: bm_set_index_def get_mask_and_part_def bm_elems_mem bit_or_push u8_high split: if_splits)

lemma bm_elems_remove: "set (bm_elems (bm_remove_index b idx)) = set (bm_elems b) - {unat idx}"
  using unat_lt_2p [of idx]
  by (auto simp: bm_remove_index_def get_mask_and_part_def bm_elems_mem bit_and_not_push u8_high split: if_splits)

lemma bm_rank_eq: "bm_rank b idx = length (filter (\<lambda>j. j < unat idx) (bm_elems b))"
proof (cases "unat idx < 128")
  case True
  then have "filter (\<lambda>j. j < unat idx) (map ((+) 128) (ones (part1 b))) = []"
    by (simp add: filter_empty_conv)
  with True show ?thesis
    by (simp add: bm_rank_def get_mask_and_part_def bm_elems_def count_ones_below)
next
  case False
  then have all: "filter (\<lambda>j. j < unat idx) (ones (part0 b)) = ones (part0 b)"
    using ones_less [of _ "part0 b"] by (fastforce simp: filter_id_conv)
  have "filter (\<lambda>j. j < unat idx) (map ((+) 128) (ones (part1 b)))
      = map ((+) 128) (filter (\<lambda>j. j < unat idx - 128) (ones (part1 b)))"
    using False by (simp add: filter_map comp_def less_diff_conv add.commute)
  with False all show ?thesis
    by (simp add: bm_rank_def get_mask_and_part_def bm_elems_def count_ones_below u8_high count_ones_def [of "part0 b"])
qed

interpretation bm: bitmap_index bm_elems "\<lambda>b i. bm_rank b (of_nat i)" "\<lambda>b i. bm_set_index b (of_nat i)"
  "\<lambda>b i. bm_remove_index b (of_nat i)" "\<lambda>i. i < 256"
  by unfold_locales
    (simp_all add: bm_elems_sorted bm_elems_distinct bm_elems_less bm_rank_eq bm_elems_set bm_elems_remove
      unat_of_nat_id)

lemma bm_elems_length: "length (bm_elems b) \<le> 256"
proof -
  have "set (bm_elems b) \<subseteq> {..<256}" using bm_elems_less by auto
  then have "card (set (bm_elems b)) \<le> 256" using card_mono [of "{..<256 :: nat}"] by fastforce
  then show ?thesis using distinct_card [OF bm_elems_distinct, of b] by simp
qed

text \<open>For a set index the cast of the rank to a byte loses nothing.\<close>

lemma bm_real_index:
  "bm_get_real_index b idx = (if unat idx \<in> set (bm_elems b) then Some (of_nat (bm_rank b idx)) else None)"
  "unat idx \<in> set (bm_elems b) \<Longrightarrow> unat (of_nat (bm_rank b idx) :: u8) = bm_rank b idx"
proof -
  show "unat idx \<in> set (bm_elems b) \<Longrightarrow> unat (of_nat (bm_rank b idx) :: u8) = bm_rank b idx"
    using bm.rank_less [of "unat idx" b] bm_elems_length [of b] by (simp add: unat_of_nat_id)
qed (simp add: bm_get_real_index_def)

lemma bm_elems_new [simp]: "bm_elems bm_new = []"
  by (simp add: bm_elems_def bm_new_def)

lemma bm_is_empty_iff: "bm_is_empty b \<longleftrightarrow> bm_elems b = []"
  by (simp add: bm_is_empty_def bm_elems_def)

lemma bm_first:
  "bm_get_first_index b = (case bm_elems b of [] \<Rightarrow> None | i # _ \<Rightarrow> Some (of_nat i))"
proof (cases "part0 b = 0")
  case True
  then show ?thesis
    using trailing_zeros_props [of "part1 b"]
    by (cases "ones (part1 b)") (auto simp: bm_get_first_index_def bm_elems_def trailing_zeros_def)
next
  case False
  then show ?thesis
    using trailing_zeros_props [of "part0 b"]
    by (cases "ones (part0 b)") (auto simp: bm_get_first_index_def bm_elems_def)
qed

lemma bm_elems_tl:
  assumes "bm_elems b = i # is"
  shows "bm_elems (bm_remove_index b (of_nat i)) = is"
proof (rule sorted_distinct_set_unique)
  have i: "i < 256" using assms bm_elems_less [of i b] by simp
  have "distinct (i # is)" using bm_elems_distinct [of b] assms by simp
  then show "set (bm_elems (bm_remove_index b (of_nat i))) = set is"
    using assms i by (simp add: bm_elems_remove unat_of_nat_id)
  show "sorted is" "distinct is" using bm_elems_sorted [of b] bm_elems_distinct [of b] assms by simp_all
qed (simp_all add: bm_elems_sorted bm_elems_distinct)

section \<open>Iterating and shrinking\<close>

text \<open>
  Running an iterator to its end. Both iterators take the first set index, clear it in their
  copy of the bitmap and fetch the element.
\<close>

lemma bm_drain_less:
  "bm_get_first_index b = Some i \<Longrightarrow> length (bm_elems (bm_remove_index b i)) < length (bm_elems b)"
  by (cases "bm_elems b") (auto simp: bm_first bm_elems_tl)

function sa_iter_collect :: "'v sparse_array_iter \<Rightarrow> ('e, (u8 \<times> 'v) list) outcome" where
  "sa_iter_collect it =
     (case sa_iter_next it of
        Ok (Some p, it') \<Rightarrow> omap ((#) p) (sa_iter_collect it')
      | Ok (None, _) \<Rightarrow> Ok []
      | Err e \<Rightarrow> Err e
      | Panic \<Rightarrow> Panic)"
  by pat_completeness auto
termination
  by (relation "measure (\<lambda>it. length (bm_elems (sai_bitmap it)))")
    (auto simp: sa_iter_next_def outcome_simps bm_drain_less split: option.splits)

lemma fsa_iter_next_step:
  "fsa_iter_next it = Ok (Some p, it') \<Longrightarrow>
   \<exists>i. bm_get_first_index (fsai_bitmap it) = Some i \<and> it' = it\<lparr>fsai_bitmap := bm_remove_index (fsai_bitmap it) i\<rparr>"
  by (cases "bm_get_first_index (fsai_bitmap it)")
    (auto simp: fsa_iter_next_def obind_Ok_iff split: option.splits)

function fsa_iter_collect :: "'v fast_sparse_array_iter \<Rightarrow> ('e, (u8 \<times> 'v) list) outcome" where
  "fsa_iter_collect it =
     (case fsa_iter_next it of
        Ok (Some p, it') \<Rightarrow> omap ((#) p) (fsa_iter_collect it')
      | Ok (None, _) \<Rightarrow> Ok []
      | Err e \<Rightarrow> Err e
      | Panic \<Rightarrow> Panic)"
  by pat_completeness auto
termination
  by (relation "measure (\<lambda>it. length (bm_elems (fsai_bitmap it)))")
    (auto dest: fsa_iter_next_step simp: bm_drain_less)

declare sa_iter_collect.simps [simp del] fsa_iter_collect.simps [simp del]

definition sa_entries :: "'v sparse_array \<Rightarrow> ('e, (u8 \<times> 'v) list) outcome" where
  "sa_entries a = sa_iter_collect (sa_iter a)"

definition fsa_entries :: "'v fast_sparse_array \<Rightarrow> ('e, (u8 \<times> 'v) list) outcome" where
  "fsa_entries a = fsa_iter_collect (fsa_iter a)"

fun shrink_loop :: "(u8 \<times> 'v) list \<Rightarrow> 'v sparse_array_builder \<Rightarrow> ('e, 'v sparse_array_builder) outcome" where
  "shrink_loop [] b = Ok b"
| "shrink_loop ((idx, value) # rest) b = obind (sab_set b idx value) (shrink_loop rest)"

definition fsa_shrink :: "'v fast_sparse_array \<Rightarrow> ('e, 'v fast_sparse_array) outcome" where
  "fsa_shrink a =
     obind (fsa_entries a) (\<lambda>es.
     obind (shrink_loop es sab_new) (\<lambda>new_sparse_array.
     Ok (a\<lparr>fsa_data := sab_build new_sparse_array\<rparr>)))"

record 'v fast_sparse_array_builder =
  fsab_index :: bm_index
  fsab_data :: "'v sparse_array_builder"

definition fsab_new :: "'v fast_sparse_array_builder" where
  "fsab_new = \<lparr>fsab_index = bm_new, fsab_data = sab_new\<rparr>"

definition fsab_set ::
  "'v fast_sparse_array_builder \<Rightarrow> u8 \<Rightarrow> 'v \<Rightarrow> ('e, 'v fast_sparse_array_builder) outcome" where
  "fsab_set a idx value =
     obind (sab_set (fsab_data a) idx value) (\<lambda>d.
       Ok \<lparr>fsab_index = bm_set_index (fsab_index a) idx, fsab_data = d\<rparr>)"

definition fsab_build :: "'v fast_sparse_array_builder \<Rightarrow> 'v fast_sparse_array" where
  "fsab_build a = \<lparr>fsa_index = fsab_index a, fsa_data = sab_build (fsab_data a)\<rparr>"

section \<open>Invariants and abstraction\<close>

definition sa_wf :: "'v sparse_array \<Rightarrow> bool" where
  "sa_wf a \<longleftrightarrow> length (sa_data a) = length (bm_elems (sa_index a))"

definition sa_map :: "'v sparse_array \<Rightarrow> u8 \<rightharpoonup> 'v" where
  "sa_map a = (\<lambda>i. map_of (zip (bm_elems (sa_index a)) (sa_data a)) (unat i))"

definition fsa_wf :: "'v fast_sparse_array \<Rightarrow> bool" where
  "fsa_wf a \<longleftrightarrow> sa_wf (fsa_data a) \<and> set (bm_elems (fsa_index a)) \<subseteq> set (bm_elems (sa_index (fsa_data a)))"

definition fsa_map :: "'v fast_sparse_array \<Rightarrow> u8 \<rightharpoonup> 'v" where
  "fsa_map a = sa_map (fsa_data a) |` {i. unat i \<in> set (bm_elems (fsa_index a))}"

lemma sa_map_dom: "sa_wf a \<Longrightarrow> sa_map a i = None \<longleftrightarrow> unat i \<notin> set (bm_elems (sa_index a))"
  using bm.cell_None_iff [of "sa_data a" "sa_index a" "unat i"] by (simp add: sa_map_def sa_wf_def)

lemma sa_map_read:
  assumes "sa_wf a" and "unat i \<in> set (bm_elems (sa_index a))"
  shows "sa_map a i = Some (sa_data a ! bm_rank (sa_index a) i)"
    and "bm_rank (sa_index a) i < length (sa_data a)"
  using bm.cell_get [of "sa_data a" "sa_index a" "unat i"] bm.rank_less [of "unat i" "sa_index a"] assms
  by (simp_all add: sa_map_def sa_wf_def)

lemma byte_dom_elems:
  assumes "\<And>i :: u8. m i = None \<longleftrightarrow> unat i \<notin> set (bm_elems b)"
  shows "set (bm_elems b) = unat ` dom m" and "card (dom m) = length (bm_elems b)"
proof -
  show eq: "set (bm_elems b) = unat ` dom m"
  proof
    show "set (bm_elems b) \<subseteq> unat ` dom m"
    proof
      fix j assume j: "j \<in> set (bm_elems b)"
      then have "unat (of_nat j :: u8) = j" using bm_elems_less [of j b] by (simp add: unat_of_nat_id)
      with j assms [of "of_nat j"] show "j \<in> unat ` dom m" by (metis domIff image_eqI)
    qed
      show "unat ` dom m \<subseteq> set (bm_elems b)" using assms by (metis domIff image_subsetI)
  qed
  have "inj_on unat (dom m)" by (simp add: inj_on_def word_unat_eq_iff)
  then show "card (dom m) = length (bm_elems b)"
    using eq card_image [of unat "dom m"] distinct_card [OF bm_elems_distinct, of b] by simp
qed

lemma sa_map_elems: "sa_wf a \<Longrightarrow> set (bm_elems (sa_index a)) = unat ` dom (sa_map a)"
  and sa_map_card: "sa_wf a \<Longrightarrow> length (sa_data a) = card (dom (sa_map a))"
  using byte_dom_elems [of "sa_map a" "sa_index a"] sa_map_dom [of a] by (simp_all add: sa_wf_def)

lemma sa_get_map:
  assumes "sa_wf a"
  shows "sa_get a i = Ok (sa_map a i)"
proof (cases "unat i \<in> set (bm_elems (sa_index a))")
  case True
  then show ?thesis
    using sa_map_read [OF assms True] by (simp add: sa_get_def bm_real_index nth_opt_eq unwrap_opt_def)
next
  case False
  then show ?thesis using sa_map_dom [OF assms, of i] by (simp add: sa_get_def bm_real_index)
qed

text \<open>The keys of the abstraction are bytes, those of the array cells numbers.\<close>

lemma byte_upd: "(\<lambda>i. if unat i = unat k then v else m (unat i)) = (\<lambda>i. m (unat i))(k := v)" for k :: u8
  by (auto simp: fun_eq_iff word_unat_eq_iff)

lemma sa_set_spec:
  assumes "sa_wf a"
  shows "\<exists>a'. sa_set a i v = (Ok a' :: ('e, _) outcome) \<and> sa_wf a' \<and> sa_map a' = (sa_map a)(i \<mapsto> v)
    \<and> set (bm_elems (sa_index a')) = insert (unat i) (set (bm_elems (sa_index a)))"
proof (cases "unat i \<in> set (bm_elems (sa_index a))")
  case True
  let ?a' = "a\<lparr>sa_data := (sa_data a)[bm_rank (sa_index a) i := v]\<rparr>"
  have "sa_set a i v = Ok ?a'"
    using True sa_map_read(2) [OF assms True] by (simp add: sa_set_def bm_real_index vec_assign_def)
  moreover have "sa_map ?a' = (sa_map a)(i \<mapsto> v)"
    using bm.cell_overwrite [of "sa_data a" "sa_index a" "unat i" v] True assms
    by (simp add: sa_map_def sa_wf_def byte_upd)
  ultimately show ?thesis using assms True by (auto simp: sa_wf_def)
next
  case False
  let ?b = "bm_set_index (sa_index a) i" and ?r = "bm_rank (sa_index a) i"
  let ?a' = "\<lparr>sa_index = ?b, sa_data = insert_at ?r v (sa_data a)\<rparr>"
  have i256: "unat i < 256" using unat_lt_2p [of i] by simp
  have "filter (\<lambda>j. j < unat i) (bm_elems ?b) = filter (\<lambda>j. j < unat i) (bm_elems (sa_index a))"
    by (rule sorted_distinct_set_unique)
      (auto simp: bm_elems_sorted sorted_wrt_filter bm_elems_distinct bm_elems_set)
  then have r: "bm_rank ?b i = ?r" by (simp add: bm_rank_eq)
  have "?r \<le> length (sa_data a)"
    using bm.rank_le [OF i256, of "sa_index a"] assms by (simp add: sa_wf_def)
  moreover have "unat i \<in> set (bm_elems ?b)" by (simp add: bm_elems_set)
  ultimately have "sa_set a i v = Ok ?a'"
    using False bm_real_index(2) [of i ?b] r by (simp add: sa_set_def bm_real_index Let_def unwrap_opt_def vec_insert_def)
  moreover have "sa_map ?a' = (sa_map a)(i \<mapsto> v)" "sa_wf ?a'"
    using bm.cell_insert [of "sa_data a" "sa_index a" "unat i" v] False assms i256
    by (simp_all add: sa_map_def sa_wf_def byte_upd)
  ultimately show ?thesis by (auto simp: bm_elems_set)
qed

lemma sa_remove_spec:
  assumes "sa_wf a"
  shows "\<exists>a'. sa_remove a i = (Ok (a', sa_map a i) :: ('e, _) outcome) \<and> sa_wf a' \<and> sa_map a' = (sa_map a)(i := None)"
proof (cases "unat i \<in> set (bm_elems (sa_index a))")
  case True
  let ?b = "bm_remove_index (sa_index a) i"
  let ?a' = "\<lparr>sa_index = ?b, sa_data = remove_at (bm_rank (sa_index a) i) (sa_data a)\<rparr>"
  have "sa_remove a i = Ok (?a', sa_map a i)"
    using True sa_map_read [OF assms True]
    by (simp add: sa_remove_def bm_real_index Let_def nth_opt_eq unwrap_opt_def)
  moreover have "sa_map ?a' = (sa_map a)(i := None)" "sa_wf ?a'"
    using bm.cell_remove [of "sa_data a" "sa_index a" "unat i"] True assms
    by (simp_all add: sa_map_def sa_wf_def byte_upd)
  ultimately show ?thesis by blast
next
  case False
  have "bm_elems (bm_remove_index (sa_index a) i) = bm_elems (sa_index a)"
    using False by (intro bm.elems_eqI) (simp add: bm_elems_remove)
  then have "sa_map \<lparr>sa_index = bm_remove_index (sa_index a) i, sa_data = sa_data a\<rparr> = sa_map a"
    "sa_wf \<lparr>sa_index = bm_remove_index (sa_index a) i, sa_data = sa_data a\<rparr>"
    using assms by (simp_all add: sa_map_def sa_wf_def)
  moreover have "sa_map a i = None" using False sa_map_dom [OF assms] by simp
  ultimately show ?thesis
    using False by (auto simp: sa_remove_def bm_real_index Let_def fun_upd_idem)
qed

section \<open>The interface of a byte-indexed map\<close>

locale byte_map =
  fixes get :: "'a \<Rightarrow> u8 \<Rightarrow> ('e, 'v option) outcome"
    and put :: "'a \<Rightarrow> u8 \<Rightarrow> 'v \<Rightarrow> ('e, 'a) outcome"
    and take_out :: "'a \<Rightarrow> u8 \<Rightarrow> ('e, 'a \<times> 'v option) outcome"
    and emptyp :: "'a \<Rightarrow> bool"
    and has :: "'a \<Rightarrow> u8 \<Rightarrow> bool"
    and entries :: "'a \<Rightarrow> ('e, (u8 \<times> 'v) list) outcome"
    and alpha :: "'a \<Rightarrow> u8 \<rightharpoonup> 'v"
    and invar :: "'a \<Rightarrow> bool"
  assumes get_alpha: "invar a \<Longrightarrow> get a i = Ok (alpha a i)"
    and put_alpha: "invar a \<Longrightarrow> \<exists>a'. put a i v = Ok a' \<and> invar a' \<and> alpha a' = (alpha a)(i \<mapsto> v)"
    and take_alpha: "invar a \<Longrightarrow>
      \<exists>a'. take_out a i = Ok (a', alpha a i) \<and> invar a' \<and> alpha a' = (alpha a)(i := None)"
    and empty_alpha: "invar a \<Longrightarrow> emptyp a \<longleftrightarrow> alpha a = Map.empty"
    and has_alpha: "invar a \<Longrightarrow> has a i \<longleftrightarrow> i \<in> dom (alpha a)"
    and entries_alpha: "invar a \<Longrightarrow>
      \<exists>es. entries a = Ok es \<and> sorted (map fst es) \<and> distinct (map fst es) \<and> map_of es = alpha a"
begin

lemma entries_determined:
  assumes "invar a" and "invar b" and "alpha a = alpha b"
  shows "entries a = entries b"
proof -
  obtain es fs where es: "entries a = Ok es" "sorted (map fst es)" "distinct (map fst es)" "map_of es = alpha a"
    and fs: "entries b = Ok fs" "sorted (map fst fs)" "distinct (map fst fs)" "map_of fs = alpha b"
    using entries_alpha [OF assms(1)] entries_alpha [OF assms(2)] by blast
  have same: "set es = set fs"
    using es(3,4) fs(3,4) assms(3) by (metis map_of_inject_set)
  have "inj_on fst (set es \<union> set fs)"
    using es(3) same by (simp add: distinct_map)
  then have "es = fs" using es(2,3) fs(2,3) same by (rule map_sorted_distinct_set_unique)
  with es(1) fs(1) show ?thesis by simp
qed

text \<open>Storing a sequence of elements: later elements of one index win.\<close>

lemma put_many:
  assumes "invar a"
  shows "\<exists>a'. fold (\<lambda>(i, v) r. obind r (\<lambda>x. put x i v)) es (Ok a) = Ok a' \<and> invar a'
    \<and> alpha a' = alpha a ++ map_of (rev es)"
  using assms
proof (induction es arbitrary: a)
  case (Cons p es)
  obtain i v where p: "p = (i, v)" by (cases p)
  obtain a1 where a1: "put a i v = Ok a1" "invar a1" "alpha a1 = (alpha a)(i \<mapsto> v)"
    using put_alpha [OF Cons.prems] by blast
  obtain a' where "fold (\<lambda>(i, v) r. obind r (\<lambda>x. put x i v)) es (Ok a1) = Ok a'" "invar a'"
    "alpha a' = alpha a1 ++ map_of (rev es)"
    using Cons.IH [OF a1(2)] by blast
  then show ?case using a1 p by (intro exI [of _ a']) simp
qed simp

end

text \<open>Draining a bitmap through a lookup function that finds every set index.\<close>

lemma drain_bitmap:
  assumes "bm_elems b = is" and "\<And>i. unat i \<in> set is \<Longrightarrow> m i \<noteq> None"
  shows "sorted (map fst (map (\<lambda>j. (of_nat j :: u8, the (m (of_nat j)))) is))"
    and "distinct (map fst (map (\<lambda>j. (of_nat j :: u8, the (m (of_nat j)))) is))"
    and "map_of (map (\<lambda>j. (of_nat j :: u8, the (m (of_nat j)))) is) = m |` {i. unat i \<in> set is}"
proof -
  let ?es = "map (\<lambda>j. (of_nat j :: u8, the (m (of_nat j)))) is"
  have unat: "unat (of_nat j :: u8) = j" if "j \<in> set is" for j
    using bm_elems_less [of j b] assms(1) that by (simp add: unat_of_nat_id)
  have keys: "map unat (map fst ?es) = is" using unat by (simp add: map_idI comp_def)
  show d: "distinct (map fst ?es)" using keys bm_elems_distinct [of b] assms(1) by (metis distinct_map)
  have "sorted (map unat (map fst ?es))" using keys bm_elems_sorted [of b] assms(1) by simp
  then show "sorted (map fst ?es)" by (simp add: sorted_map word_le_nat_alt)
  show "map_of ?es = m |` {i. unat i \<in> set is}"
  proof
    fix i
    show "map_of ?es i = (m |` {i. unat i \<in> set is}) i"
    proof (cases "unat i \<in> set is")
      case True
      then have "(i, the (m i)) \<in> set ?es" by (force simp: image_iff intro: bexI [of _ "unat i"])
      then show ?thesis using True d assms(2) [OF True] by (simp add: restrict_map_def)
    next
      case False
      then have "i \<notin> fst ` set ?es" using unat by force
      then show ?thesis using False by (simp add: map_of_eq_None_iff restrict_map_def)
    qed
  qed
qed

lemma sa_iter_collect_eq:
  assumes "sa_wf a" and "set (bm_elems b) \<subseteq> set (bm_elems (sa_index a))"
  shows "sa_iter_collect \<lparr>sai_bitmap = b, sai_array = a\<rparr>
    = Ok (map (\<lambda>j. (of_nat j, the (sa_map a (of_nat j)))) (bm_elems b))"
  using assms(2)
proof (induction "bm_elems b" arbitrary: b)
  case Nil
  then show ?case by (simp add: sa_iter_collect.simps sa_iter_next_def bm_first)
next
  case (Cons i "is")
  note e = Cons.hyps(2) [symmetric]
  have "i \<in> set (bm_elems (sa_index a))" "i < 256" using Cons.prems e bm_elems_less [of i b] by auto
  then obtain v where v: "sa_map a (of_nat i) = Some v"
    using sa_map_dom [OF assms(1), of "of_nat i"] by (auto simp: unat_of_nat_id)
  show ?case
    using Cons.hyps(1) [of "bm_remove_index b (of_nat i)"] Cons.prems e bm_elems_tl [OF e] v
    by (simp add: sa_iter_collect.simps [of "\<lparr>sai_bitmap = b, sai_array = a\<rparr>"] sa_iter_next_def bm_first
        sa_get_map [OF assms(1)] unwrap_opt_def)
qed

lemma fsa_map_None: "fsa_wf a \<Longrightarrow> fsa_map a i = None \<longleftrightarrow> unat i \<notin> set (bm_elems (fsa_index a))"
  using sa_map_dom [of "fsa_data a" i] by (auto simp: fsa_wf_def fsa_map_def restrict_map_def)

lemma fsa_map_elems: "fsa_wf a \<Longrightarrow> set (bm_elems (fsa_index a)) = unat ` dom (fsa_map a)"
  using byte_dom_elems(1) [of "fsa_map a" "fsa_index a"] fsa_map_None [of a] by simp

lemma fsa_get_map: "fsa_wf a \<Longrightarrow> fsa_get a i = Ok (fsa_map a i)"
  by (simp add: fsa_get_def fsa_wf_def fsa_map_def restrict_map_def sa_get_map)

lemma fsa_iter_collect_eq:
  assumes "fsa_wf a" and "set (bm_elems b) \<subseteq> set (bm_elems (fsa_index a))"
  shows "fsa_iter_collect \<lparr>fsai_bitmap = b, fsai_array = a\<rparr>
    = Ok (map (\<lambda>j. (of_nat j, the (fsa_map a (of_nat j)))) (bm_elems b))"
  using assms(2)
proof (induction "bm_elems b" arbitrary: b)
  case Nil
  then show ?case by (simp add: fsa_iter_collect.simps fsa_iter_next_def bm_first)
next
  case (Cons i "is")
  note e = Cons.hyps(2) [symmetric]
  have "i \<in> set (bm_elems (fsa_index a))" "i < 256" using Cons.prems e bm_elems_less [of i b] by auto
  then obtain v where v: "fsa_map a (of_nat i) = Some v"
    using fsa_map_None [OF assms(1), of "of_nat i"] by (auto simp: unat_of_nat_id)
  show ?case
    using Cons.hyps(1) [of "bm_remove_index b (of_nat i)"] Cons.prems e bm_elems_tl [OF e] v
    by (simp add: fsa_iter_collect.simps [of "\<lparr>fsai_bitmap = b, fsai_array = a\<rparr>"] fsa_iter_next_def bm_first
        fsa_get_map [OF assms(1)])
qed

lemma bytes_empty_iff: "(\<forall>i. m i = None \<longleftrightarrow> unat (i :: u8) \<notin> set (bm_elems b)) \<Longrightarrow> bm_is_empty b \<longleftrightarrow> m = Map.empty"
proof -
  assume iff: "\<forall>i. m i = None \<longleftrightarrow> unat (i :: u8) \<notin> set (bm_elems b)"
  have "j \<in> set (bm_elems b) \<Longrightarrow> \<exists>i :: u8. unat i \<in> set (bm_elems b)" for j
    using bm_elems_less [of j b] by (intro exI [of _ "of_nat j"]) (simp add: unat_of_nat_id)
  then show ?thesis using iff by (auto simp: bm_is_empty_iff fun_eq_iff) (metis list.set_intros(1) neq_Nil_conv)
qed

interpretation sa: byte_map sa_get sa_set sa_remove sa_is_empty sa_contains_key sa_entries sa_map sa_wf
proof
  fix a :: "'a sparse_array" and i v
  assume wf: "sa_wf a"
  show "sa_get a i = Ok (sa_map a i)" by (rule sa_get_map [OF wf])
  show "\<exists>a'. sa_set a i v = (Ok a' :: ('c, _) outcome) \<and> sa_wf a' \<and> sa_map a' = (sa_map a)(i \<mapsto> v)"
    using sa_set_spec [OF wf] by blast
  show "\<exists>a'. sa_remove a i = (Ok (a', sa_map a i) :: ('c, _) outcome) \<and> sa_wf a' \<and> sa_map a' = (sa_map a)(i := None)"
    by (rule sa_remove_spec [OF wf])
  show "sa_is_empty a \<longleftrightarrow> sa_map a = Map.empty"
    unfolding sa_is_empty_def by (rule bytes_empty_iff) (simp add: sa_map_dom [OF wf])
  show "sa_contains_key a i \<longleftrightarrow> i \<in> dom (sa_map a)"
    by (simp add: sa_contains_key_def domIff sa_map_dom [OF wf])
  have "sa_map a |` {i. unat i \<in> set (bm_elems (sa_index a))} = sa_map a"
    by (rule ext) (simp add: restrict_map_def sa_map_dom [OF wf, THEN iffD2])
  then show "\<exists>es. sa_entries a = (Ok es :: ('c, _) outcome) \<and> sorted (map fst es) \<and> distinct (map fst es)
      \<and> map_of es = sa_map a"
    using drain_bitmap [of "sa_index a", OF refl, of "sa_map a"] sa_map_dom [OF wf]
    by (simp add: sa_entries_def sa_iter_def sa_iter_collect_eq [OF wf])
qed

lemma fsa_set_spec:
  assumes "fsa_wf a"
  shows "\<exists>a'. fsa_set a i v = (Ok a' :: ('e, _) outcome) \<and> fsa_wf a' \<and> fsa_map a' = (fsa_map a)(i \<mapsto> v)"
proof -
  obtain d where d: "sa_set (fsa_data a) i v = (Ok d :: ('e, _) outcome)" "sa_wf d"
    "sa_map d = (sa_map (fsa_data a))(i \<mapsto> v)"
    "set (bm_elems (sa_index d)) = insert (unat i) (set (bm_elems (sa_index (fsa_data a))))"
    using sa_set_spec [of "fsa_data a"] assms unfolding fsa_wf_def by blast
  then show ?thesis
    using assms by (auto simp: fsa_set_def fsa_wf_def bm_elems_set fsa_map_def restrict_map_def fun_eq_iff simp flip: word_unat_eq_iff)
qed

lemma fsa_remove_spec:
  assumes "fsa_wf a"
  shows "\<exists>a'. fsa_remove a i = (Ok (a', fsa_map a i) :: ('e, _) outcome) \<and> fsa_wf a'
    \<and> fsa_map a' = (fsa_map a)(i := None)"
proof (cases "unat i \<in> set (bm_elems (fsa_index a))")
  case True
  have "sa_wf (fsa_data a)" using assms by (simp add: fsa_wf_def)
  then show ?thesis
    using True assms
    by (auto simp: fsa_remove_def sa_get_map fsa_wf_def fsa_map_def restrict_map_def bm_elems_remove fun_eq_iff
        simp flip: word_unat_eq_iff)
next
  case False
  then show ?thesis
    using assms fsa_map_None [OF assms, of i] by (auto simp: fsa_remove_def fun_upd_idem)
qed

interpretation fsa: byte_map fsa_get fsa_set fsa_remove fsa_is_empty fsa_contains_key fsa_entries fsa_map fsa_wf
proof
  fix a :: "'a fast_sparse_array" and i v
  assume wf: "fsa_wf a"
  show "fsa_get a i = Ok (fsa_map a i)" by (rule fsa_get_map [OF wf])
  show "\<exists>a'. fsa_set a i v = (Ok a' :: ('c, _) outcome) \<and> fsa_wf a' \<and> fsa_map a' = (fsa_map a)(i \<mapsto> v)"
    by (rule fsa_set_spec [OF wf])
  show "\<exists>a'. fsa_remove a i = (Ok (a', fsa_map a i) :: ('c, _) outcome) \<and> fsa_wf a' \<and> fsa_map a' = (fsa_map a)(i := None)"
    by (rule fsa_remove_spec [OF wf])
  show "fsa_is_empty a \<longleftrightarrow> fsa_map a = Map.empty"
    unfolding fsa_is_empty_def by (rule bytes_empty_iff) (simp add: fsa_map_None [OF wf])
  show "fsa_contains_key a i \<longleftrightarrow> i \<in> dom (fsa_map a)"
    by (simp add: fsa_contains_key_def domIff fsa_map_None [OF wf])
  have "fsa_map a |` {i. unat i \<in> set (bm_elems (fsa_index a))} = fsa_map a"
    by (rule ext) (simp add: restrict_map_def fsa_map_None [OF wf, THEN iffD2])
  then show "\<exists>es. fsa_entries a = (Ok es :: ('c, _) outcome) \<and> sorted (map fst es) \<and> distinct (map fst es)
      \<and> map_of es = fsa_map a"
    using drain_bitmap [of "fsa_index a", OF refl, of "fsa_map a"] fsa_map_None [OF wf]
    by (simp add: fsa_entries_def fsa_iter_def fsa_iter_collect_eq [OF wf])
qed

section \<open>Builders\<close>

text \<open>A builder is an array under construction.\<close>

lemma sab_set_as_sa_set: "omap sab_build (sab_set b i v) = sa_set (sab_build b) i v"
  by (auto simp: sab_set_def sa_set_def sab_build_def outcome_push Let_def comp_def split: option.splits)

definition fsab_wf :: "'v fast_sparse_array_builder \<Rightarrow> bool" where
  "fsab_wf b \<longleftrightarrow> fsa_wf (fsab_build b)"

lemma fsab_set_as_fsa_set: "omap fsab_build (fsab_set b i v) = fsa_set (fsab_build b) i v"
  by (simp add: fsab_set_def fsa_set_def fsab_build_def sab_set_as_sa_set [symmetric] outcome_push comp_def)

lemma empty_arrays [simp]: "sa_wf sa_new" "sa_map sa_new = Map.empty" "fsa_wf fsa_new" "fsa_map fsa_new = Map.empty"
  "fsab_build fsab_new = fsa_new" "sab_build sab_new = sa_new"
  by (simp_all add: sa_wf_def sa_new_def sa_map_def fsa_wf_def fsa_new_def fsa_map_def fsab_build_def fsab_new_def
      sab_build_def sab_new_def)

text \<open>The loop of \<open>shrink\<close> is a sequence of insertions into an array under construction.\<close>

lemma shrink_loop_as_puts:
  fixes es :: "(u8 \<times> 'v) list"
  shows "omap sab_build (shrink_loop es b) = fold (\<lambda>(i, v) r. obind r (\<lambda>x. sa_set x i v)) es (Ok (sab_build b) :: ('e, _) outcome)"
proof -
  have stuck: "fold (\<lambda>(i, v) r. obind r (\<lambda>x. sa_set x i v)) es (Err e :: ('e, 'v sparse_array) outcome) = Err e"
    "fold (\<lambda>(i, v) r. obind r (\<lambda>x. sa_set x i v)) es (Panic :: ('e, 'v sparse_array) outcome) = Panic" for e es
    by (induction es) auto
  show ?thesis
  proof (induction es arbitrary: b)
    case (Cons p es)
    then show ?case
      by (cases p; cases "sab_set b (fst p) (snd p) :: ('e, _) outcome") (simp_all add: stuck sab_set_as_sa_set [symmetric])
  qed simp
qed

section \<open>Properties\<close>

text \<open>
  C23. Both sparse arrays implement a map from bytes to values without panicking, for every sequence
  of operations from the empty array: a read returns the last value stored, storing and removing
  change one index only, and removal returns the value that was there. The rank of an index
  always fits the byte it is cast to.
\<close>

theorem sparse_arrays_refine_maps:
  fixes a :: "'v sparse_array" and f :: "'v fast_sparse_array"
  assumes "sa_wf a" and "fsa_wf f"
  shows "sa_get a i = (Ok (sa_map a i) :: ('e, 'v option) outcome)
    \<and> (\<exists>a'. sa_set a i v = (Ok a' :: ('e, _) outcome) \<and> sa_wf a' \<and> sa_map a' = (sa_map a)(i \<mapsto> v))
    \<and> (\<exists>a'. sa_remove a i = (Ok (a', sa_map a i) :: ('e, _) outcome) \<and> sa_wf a' \<and> sa_map a' = (sa_map a)(i := None))
    \<and> fsa_get f i = (Ok (fsa_map f i) :: ('e, 'v option) outcome)
    \<and> (\<exists>f'. fsa_set f i v = (Ok f' :: ('e, _) outcome) \<and> fsa_wf f' \<and> fsa_map f' = (fsa_map f)(i \<mapsto> v))
    \<and> (\<exists>f'. fsa_remove f i = (Ok (f', fsa_map f i) :: ('e, _) outcome) \<and> fsa_wf f' \<and> fsa_map f' = (fsa_map f)(i := None))"
  by (intro conjI sa.get_alpha [OF assms(1)] sa.put_alpha [OF assms(1)] sa.take_alpha [OF assms(1)]
      fsa.get_alpha [OF assms(2)] fsa.put_alpha [OF assms(2)] fsa.take_alpha [OF assms(2)])

theorem sparse_arrays_refine_maps_witness:
  "sa_wf \<lparr>sa_index = BitmapIndex 4 1, sa_data = [10, 11 :: nat]\<rparr> \<and>
   sa_get \<lparr>sa_index = BitmapIndex 4 1, sa_data = [10, 11 :: nat]\<rparr> 128 = (Ok (Some 11) :: (unit, nat option) outcome) \<and>
   (\<exists>a'. sa_set \<lparr>sa_index = BitmapIndex 4 1, sa_data = [10, 11 :: nat]\<rparr> 5 12 = (Ok a' :: (unit, _) outcome)
      \<and> sa_map a' 5 = Some 12)"
proof -
  let ?a = "\<lparr>sa_index = BitmapIndex 4 1, sa_data = [10, 11 :: nat]\<rparr>"
  have wf: "sa_wf ?a" by code_simp
  have m: "sa_map ?a 128 = Some 11" by code_simp
  have "sa_get ?a 128 = (Ok (sa_map ?a 128) :: (unit, nat option) outcome)"
    and "\<exists>a'. sa_set ?a 5 12 = (Ok a' :: (unit, _) outcome) \<and> sa_wf a' \<and> sa_map a' = (sa_map ?a)(5 \<mapsto> 12)"
    using sparse_arrays_refine_maps [OF wf empty_arrays(3)] by blast+
  with wf m show ?thesis by auto
qed

text \<open>
  Iterating over a sparse array never reaches its panic, yields exactly the stored indices in
  ascending order with their values, and \<open>shrink\<close> keeps every binding while it releases the
  cells of forgotten elements: afterwards the data holds one cell per stored index.
\<close>

theorem fsa_iter_and_shrink:
  fixes f :: "'v fast_sparse_array"
  assumes "fsa_wf f"
  shows "\<exists>es f'. fsa_entries f = (Ok es :: ('e, _) outcome) \<and> sorted (map fst es) \<and> distinct (map fst es)
      \<and> map_of es = fsa_map f
      \<and> fsa_shrink f = (Ok f' :: ('e, _) outcome) \<and> fsa_wf f' \<and> fsa_map f' = fsa_map f
      \<and> length (sa_data (fsa_data f')) = card (dom (fsa_map f))"
proof -
  obtain es where es: "fsa_entries f = (Ok es :: ('e, _) outcome)" "sorted (map fst es)" "distinct (map fst es)"
    "map_of es = fsa_map f"
    using fsa.entries_alpha [OF assms] by blast
  obtain d where d: "fold (\<lambda>(i, v) r. obind r (\<lambda>x. sa_set x i v)) es (Ok sa_new :: ('e, _) outcome) = Ok d"
    "sa_wf d" "sa_map d = map_of (rev es)"
    using sa.put_many [of sa_new es] by auto
  have map_d: "sa_map d = fsa_map f"
    using d(3) es(3,4) map_of_inject_set [of "rev es" es] by (simp add: rev_map [symmetric])
  obtain b where b: "shrink_loop es sab_new = (Ok b :: ('e, _) outcome)" "sab_build b = d"
    using shrink_loop_as_puts [of es sab_new, where 'e = 'e] d(1) by (auto simp: outcome_simps)
  let ?f' = "f\<lparr>fsa_data := d\<rparr>"
  have same: "set (bm_elems (sa_index d)) = set (bm_elems (fsa_index f))"
    using sa_map_elems [OF d(2)] fsa_map_elems [OF assms] map_d by simp
  then have wf': "fsa_wf ?f'" using d(2) by (simp add: fsa_wf_def)
  have "fsa_map ?f' = fsa_map f"
    using map_d same sa_map_dom [OF d(2)] by (auto simp: fsa_map_def restrict_map_def fun_eq_iff)
  moreover have "length (sa_data d) = card (dom (fsa_map f))"
    using d(2) sa_map_card [OF d(2)] map_d by simp
  ultimately show ?thesis using es b wf' by (auto simp: fsa_shrink_def)
qed

theorem fsa_iter_and_shrink_witness:
  "fsa_wf \<lparr>fsa_index = BitmapIndex 0 1, fsa_data = \<lparr>sa_index = BitmapIndex 4 1, sa_data = [10, 11 :: nat]\<rparr>\<rparr> \<and>
   (\<exists>f'. fsa_shrink \<lparr>fsa_index = BitmapIndex 0 1, fsa_data = \<lparr>sa_index = BitmapIndex 4 1, sa_data = [10, 11 :: nat]\<rparr>\<rparr>
      = (Ok f' :: (unit, _) outcome) \<and> fsa_map f' 128 = Some 11 \<and> fsa_map f' 2 = None)"
proof -
  let ?f = "\<lparr>fsa_index = BitmapIndex 0 1, fsa_data = \<lparr>sa_index = BitmapIndex 4 1, sa_data = [10, 11 :: nat]\<rparr>\<rparr>"
  have wf: "fsa_wf ?f" by code_simp
  have "fsa_get ?f 128 = (Ok (Some 11) :: (unit, nat option) outcome)" "fsa_get ?f 2 = (Ok None :: (unit, nat option) outcome)"
    by code_simp+
  then have "fsa_map ?f 128 = Some 11" "fsa_map ?f 2 = None" by (simp_all add: fsa_get_map [OF wf])
  then show ?thesis using fsa_iter_and_shrink [OF wf, where 'e = unit] wf by metis
qed

end
