(* ===== verification/Bytes.thy ===== *)
theory Bytes
  imports Prelude
begin

text \<open>
  Fixed-width integers as byte strings: \<open>to_be_bytes\<close>, \<open>from_be_bytes\<close>, \<open>to_le_bytes\<close> and
  \<open>from_le_bytes\<close> of the Rust standard library, for every width that is a multiple of eight.
\<close>

primrec le_bytes :: "nat \<Rightarrow> 'a::len word \<Rightarrow> u8 list" where
  "le_bytes 0 w = []"
| "le_bytes (Suc n) w = ucast w # le_bytes n (drop_bit 8 w)"

primrec from_le_bytes :: "u8 list \<Rightarrow> 'a::len word" where
  "from_le_bytes [] = 0"
| "from_le_bytes (b # bs) = ucast b OR push_bit 8 (from_le_bytes bs)"

definition to_le_bytes :: "'a::len word \<Rightarrow> u8 list" where
  "to_le_bytes w = le_bytes (LENGTH('a) div 8) w"

definition to_be_bytes :: "'a::len word \<Rightarrow> u8 list" where
  "to_be_bytes w = rev (to_le_bytes w)"

definition from_be_bytes :: "u8 list \<Rightarrow> 'a::len word" where
  "from_be_bytes bs = from_le_bytes (rev bs)"

lemma length_le_bytes [simp]: "length (le_bytes n w) = n"
  by (induction n arbitrary: w) auto

lemma length_to_bytes [simp]:
  "length (to_le_bytes w) = LENGTH('a) div 8" "length (to_be_bytes w) = LENGTH('a) div 8"
  for w :: "'a::len word"
  by (simp_all add: to_le_bytes_def to_be_bytes_def)

lemma from_le_bytes_le_bytes: "from_le_bytes (le_bytes n w) = take_bit (8 * n) w"
  for w :: "'a::len word"
proof (induction n arbitrary: w)
  case (Suc n)
  have "ucast (ucast w :: u8) OR push_bit 8 (take_bit (8 * n) (drop_bit 8 w)) = take_bit (8 + 8 * n) w"
    by (rule bit_word_eqI) (auto simp: bit_simps)
  then show ?case using Suc by simp
qed simp

lemma le_bytes_from_le_bytes:
  "8 * length bs \<le> LENGTH('a) \<Longrightarrow> le_bytes (length bs) (from_le_bytes bs :: 'a::len word) = bs"
proof (induction bs)
  case (Cons b bs)
  let ?w = "from_le_bytes bs :: 'a word"
  have "ucast (ucast b OR push_bit 8 ?w) = b"
    by (rule bit_word_eqI) (use Cons.prems in \<open>auto simp: bit_simps\<close>)
  moreover have "take_bit (8 * length bs) ?w = ?w"
    using Cons from_le_bytes_le_bytes [of "length bs" ?w] by simp
  then have "bit ?w n \<Longrightarrow> n < 8 * length bs" for n by (metis bit_take_bit_iff)
  then have "drop_bit 8 (ucast b OR push_bit 8 ?w) = ?w"
    using Cons.prems by (intro bit_word_eqI) (force simp: bit_simps dest: bit_imp_le_length)
  ultimately show ?case using Cons by simp
qed simp

lemma le_bytes_roundtrip:
  fixes w :: "'a::len word"
  assumes "8 dvd LENGTH('a)"
  shows "from_le_bytes (to_le_bytes w) = w" and "from_be_bytes (to_be_bytes w) = w"
  using assms by (simp_all add: to_le_bytes_def from_be_bytes_def to_be_bytes_def from_le_bytes_le_bytes)

lemma bytes_le_roundtrip:
  assumes "8 dvd LENGTH('a::len)" and "length bs = LENGTH('a) div 8"
  shows "to_le_bytes (from_le_bytes bs :: 'a word) = bs" and "to_be_bytes (from_be_bytes bs :: 'a word) = bs"
proof -
  have le: "8 * length cs \<le> LENGTH('a)" if "length cs = LENGTH('a) div 8" for cs :: "u8 list"
    using that assms(1) by simp
  show "to_le_bytes (from_le_bytes bs :: 'a word) = bs"
    using le_bytes_from_le_bytes [OF le [OF assms(2)]] assms(2) by (simp add: to_le_bytes_def)
  show "to_be_bytes (from_be_bytes bs :: 'a word) = bs"
    using le_bytes_from_le_bytes [OF le, of "rev bs"] assms(2)
    by (simp add: to_be_bytes_def to_le_bytes_def from_be_bytes_def)
qed

text \<open>The widths that occur.\<close>

lemmas width_facts [simp] =
  le_bytes_roundtrip [where 'a = 16, simplified] le_bytes_roundtrip [where 'a = 32, simplified]
  le_bytes_roundtrip [where 'a = 64, simplified] le_bytes_roundtrip [where 'a = 128, simplified]
  bytes_le_roundtrip [where 'a = 16, simplified] bytes_le_roundtrip [where 'a = 32, simplified]
  bytes_le_roundtrip [where 'a = 64, simplified] bytes_le_roundtrip [where 'a = 128, simplified]

end
