(* ===== verification/Codec.thy ===== *)
theory Codec
  imports Bytes
begin

text \<open>
  Serialisation: the memory buffers of \<open>chain-ser/src/mempack.rs\<close> and the stream codec of
  \<open>chain-ser/src/packer.rs\<close>. Streams are instantiated with memory: a reader is the list of bytes
  that are left, a writer the list of bytes written so far. \<open>usize\<close> offsets are natural numbers:
  they are bounded by the length of a slice in memory.

  A wire format, a pair of an encoder and a reader with the law that reading inverts writing,
  is the locale \<open>format\<close>; the ledger types interpret it.
\<close>

section \<open>Memory buffers\<close>

type_synonym write_buf = "u8 list"

definition wb_new :: write_buf where
  "wb_new = []"

definition wb_put_u8 :: "write_buf \<Rightarrow> u8 \<Rightarrow> write_buf" where
  "wb_put_u8 b v = b @ [v]"

definition wb_put_u16 :: "write_buf \<Rightarrow> u16 \<Rightarrow> write_buf" where
  "wb_put_u16 b v = b @ to_be_bytes v"

definition wb_put_u32 :: "write_buf \<Rightarrow> u32 \<Rightarrow> write_buf" where
  "wb_put_u32 b v = b @ to_be_bytes v"

definition wb_put_u64 :: "write_buf \<Rightarrow> u64 \<Rightarrow> write_buf" where
  "wb_put_u64 b v = b @ to_be_bytes v"

definition wb_put_u128 :: "write_buf \<Rightarrow> u128 \<Rightarrow> write_buf" where
  "wb_put_u128 b v = b @ to_be_bytes v"

definition wb_put_bytes :: "write_buf \<Rightarrow> u8 list \<Rightarrow> write_buf" where
  "wb_put_bytes b v = b @ v"

datatype read_error =
    NotEnoughBytes nat nat
  | UnconsumedData nat
  | SizeTooBig nat nat
  | StructureInvalid string
  | UnknownTag u32
  | InvalidData string

record read_buf =
  offset :: nat
  rdata :: "u8 list"

type_synonym 'a reader = "read_buf \<Rightarrow> (read_error, 'a \<times> read_buf) outcome"

definition rb_from :: "u8 list \<Rightarrow> read_buf" where
  "rb_from s = \<lparr>offset = 0, rdata = s\<rparr>"

definition position :: "read_buf \<Rightarrow> nat" where
  "position b = offset b"

definition left :: "read_buf \<Rightarrow> (read_error, nat) outcome" where
  "left b = (if offset b \<le> length (rdata b) then Ok (length (rdata b) - offset b) else Panic)"

definition assure_size :: "read_buf \<Rightarrow> nat \<Rightarrow> (read_error, unit) outcome" where
  "assure_size b expected =
     obind (left b) (\<lambda>l. if l \<ge> expected then Ok () else Err (NotEnoughBytes l expected))"

definition expect_end :: "read_buf \<Rightarrow> (read_error, unit) outcome" where
  "expect_end b = obind (left b) (\<lambda>l. if l = 0 then Ok () else Err (UnconsumedData l))"

definition is_end :: "read_buf \<Rightarrow> (read_error, bool) outcome" where
  "is_end b = obind (left b) (\<lambda>l. Ok (l = 0))"

definition skip_bytes :: "nat \<Rightarrow> unit reader" where
  "skip_bytes sz b = obind (assure_size b sz) (\<lambda>_. Ok ((), b\<lparr>offset := offset b + sz\<rparr>))"

definition vec_slice :: "'a list \<Rightarrow> nat \<Rightarrow> nat \<Rightarrow> ('e, 'a list) outcome" where
  "vec_slice xs i j = (if i \<le> j \<and> j \<le> length xs then Ok (take (j - i) (drop i xs)) else Panic)"

definition get_slice :: "nat \<Rightarrow> u8 list reader" where
  "get_slice sz b =
     obind (assure_size b sz) (\<lambda>_.
     obind (vec_slice (rdata b) (offset b) (offset b + sz)) (\<lambda>s.
     Ok (s, b\<lparr>offset := offset b + sz\<rparr>)))"

definition get_slice_end :: "u8 list reader" where
  "get_slice_end b =
     obind (vec_slice (rdata b) (offset b) (length (rdata b))) (\<lambda>s.
     Ok (s, b\<lparr>offset := length (rdata b)\<rparr>))"

text \<open>\<open>copy_to_slice_mut\<close> fills a slice of the given length.\<close>

definition copy_to_slice_mut :: "nat \<Rightarrow> u8 list reader" where
  "copy_to_slice_mut len b = get_slice len b"

definition split_to :: "nat \<Rightarrow> read_buf reader" where
  "split_to sz b = obind (get_slice sz b) (\<lambda>(s, b'). Ok (rb_from s, b'))"

definition peek_u8 :: "u8 reader" where
  "peek_u8 b =
     obind (assure_size b 1) (\<lambda>_.
     obind (unwrap_opt (nth_opt (rdata b) (offset b))) (\<lambda>v. Ok (v, b)))"

definition get_u8 :: "u8 reader" where
  "get_u8 b =
     obind (assure_size b 1) (\<lambda>_.
     obind (unwrap_opt (nth_opt (rdata b) (offset b))) (\<lambda>v.
     Ok (v, b\<lparr>offset := offset b + 1\<rparr>)))"

definition get_u16 :: "u16 reader" where
  "get_u16 b = obind (get_slice 2 b) (\<lambda>(s, b'). Ok (from_be_bytes s, b'))"

definition get_u32 :: "u32 reader" where
  "get_u32 b = obind (get_slice 4 b) (\<lambda>(s, b'). Ok (from_be_bytes s, b'))"

definition get_nz_u32 :: "u32 reader" where
  "get_nz_u32 b = obind (get_u32 b) (\<lambda>(v, b').
     if v = 0 then Err (StructureInvalid ''received zero u32'') else Ok (v, b'))"

definition get_u64 :: "u64 reader" where
  "get_u64 b = obind (get_slice 8 b) (\<lambda>(s, b'). Ok (from_be_bytes s, b'))"

definition get_nz_u64 :: "u64 reader" where
  "get_nz_u64 b = obind (get_u64 b) (\<lambda>(v, b').
     if v = 0 then Err (StructureInvalid ''received zero u64'') else Ok (v, b'))"

definition get_u128 :: "u128 reader" where
  "get_u128 b = obind (get_slice 16 b) (\<lambda>(s, b'). Ok (from_be_bytes s, b'))"

definition read_validate :: "'a reader \<Rightarrow> unit reader" where
  "read_validate rd b = omap (\<lambda>(_, b'). ((), b')) (rd b)"

definition read_unit :: "unit reader" where
  "read_unit b = Ok ((), b)"

definition read_array :: "nat \<Rightarrow> u8 list reader" where
  "read_array n b = get_slice n b"

primrec read_vec :: "'a reader \<Rightarrow> nat \<Rightarrow> 'a list reader" where
  "read_vec rd 0 b = Ok ([], b)"
| "read_vec rd (Suc n) b =
     obind (rd b) (\<lambda>(t, b'). obind (read_vec rd n b') (\<lambda>(ts, b''). Ok (t # ts, b'')))"

text \<open>Filling a mutable slice reads as many elements as the slice is long.\<close>

definition read_mut_slice :: "'a reader \<Rightarrow> 'a list \<Rightarrow> 'a list reader" where
  "read_mut_slice rd v b = read_vec rd (length v) b"

datatype io_error = UnexpectedEof | InvalidDataIo

definition read_from_raw :: "'a reader \<Rightarrow> u8 list \<Rightarrow> (io_error, 'a) outcome" where
  "read_from_raw rd raw =
     (case rd (rb_from raw) of
        Err e \<Rightarrow> Err InvalidDataIo
      | Panic \<Rightarrow> Panic
      | Ok (h, rbuf) \<Rightarrow>
          (case expect_end rbuf of
             Err e \<Rightarrow> Err InvalidDataIo
           | Panic \<Rightarrow> Panic
           | Ok _ \<Rightarrow> Ok h))"

section \<open>The stream codec\<close>

text \<open>\<open>read_exact\<close> of a slice reader and \<open>write_all\<close> of a vector.\<close>

definition read_exact :: "u8 list \<Rightarrow> nat \<Rightarrow> (io_error, u8 list \<times> u8 list) outcome" where
  "read_exact r n = (if n \<le> length r then Ok (take n r, drop n r) else Err UnexpectedEof)"

definition write_all :: "u8 list \<Rightarrow> u8 list \<Rightarrow> (io_error, u8 list) outcome" where
  "write_all w buf = Ok (w @ buf)"

definition codec_get_u8 :: "u8 list \<Rightarrow> (io_error, u8 \<times> u8 list) outcome" where
  "codec_get_u8 r = obind (read_exact r 1) (\<lambda>(buf, r').
     obind (unwrap_opt (nth_opt buf 0)) (\<lambda>v. Ok (v, r')))"

definition codec_get_be_u16 :: "u8 list \<Rightarrow> (io_error, u16 \<times> u8 list) outcome" where
  "codec_get_be_u16 r = obind (read_exact r 2) (\<lambda>(buf, r'). Ok (from_be_bytes buf, r'))"

definition codec_get_le_u16 :: "u8 list \<Rightarrow> (io_error, u16 \<times> u8 list) outcome" where
  "codec_get_le_u16 r = obind (read_exact r 2) (\<lambda>(buf, r'). Ok (from_le_bytes buf, r'))"

definition codec_get_be_u32 :: "u8 list \<Rightarrow> (io_error, u32 \<times> u8 list) outcome" where
  "codec_get_be_u32 r = obind (read_exact r 4) (\<lambda>(buf, r'). Ok (from_be_bytes buf, r'))"

definition codec_get_le_u32 :: "u8 list \<Rightarrow> (io_error, u32 \<times> u8 list) outcome" where
  "codec_get_le_u32 r = obind (read_exact r 4) (\<lambda>(buf, r'). Ok (from_le_bytes buf, r'))"

definition codec_get_be_u64 :: "u8 list \<Rightarrow> (io_error, u64 \<times> u8 list) outcome" where
  "codec_get_be_u64 r = obind (read_exact r 8) (\<lambda>(buf, r'). Ok (from_be_bytes buf, r'))"

definition codec_get_le_u64 :: "u8 list \<Rightarrow> (io_error, u64 \<times> u8 list) outcome" where
  "codec_get_le_u64 r = obind (read_exact r 8) (\<lambda>(buf, r'). Ok (from_le_bytes buf, r'))"

definition codec_get_be_u128 :: "u8 list \<Rightarrow> (io_error, u128 \<times> u8 list) outcome" where
  "codec_get_be_u128 r = obind (read_exact r 16) (\<lambda>(buf, r'). Ok (from_be_bytes buf, r'))"

definition codec_get_le_u128 :: "u8 list \<Rightarrow> (io_error, u128 \<times> u8 list) outcome" where
  "codec_get_le_u128 r = obind (read_exact r 16) (\<lambda>(buf, r'). Ok (from_le_bytes buf, r'))"

definition codec_get_bytes :: "u8 list \<Rightarrow> nat \<Rightarrow> (io_error, u8 list \<times> u8 list) outcome" where
  "codec_get_bytes r n = read_exact r n"

definition codec_put_u8 :: "u8 list \<Rightarrow> u8 \<Rightarrow> (io_error, u8 list) outcome" where
  "codec_put_u8 w v = write_all w [v]"

definition codec_put_be_u16 :: "u8 list \<Rightarrow> u16 \<Rightarrow> (io_error, u8 list) outcome" where
  "codec_put_be_u16 w v = write_all w (to_be_bytes v)"

definition codec_put_le_u16 :: "u8 list \<Rightarrow> u16 \<Rightarrow> (io_error, u8 list) outcome" where
  "codec_put_le_u16 w v = write_all w (to_le_bytes v)"

definition codec_put_be_u32 :: "u8 list \<Rightarrow> u32 \<Rightarrow> (io_error, u8 list) outcome" where
  "codec_put_be_u32 w v = write_all w (to_be_bytes v)"

definition codec_put_le_u32 :: "u8 list \<Rightarrow> u32 \<Rightarrow> (io_error, u8 list) outcome" where
  "codec_put_le_u32 w v = write_all w (to_le_bytes v)"

definition codec_put_be_u64 :: "u8 list \<Rightarrow> u64 \<Rightarrow> (io_error, u8 list) outcome" where
  "codec_put_be_u64 w v = write_all w (to_be_bytes v)"

definition codec_put_le_u64 :: "u8 list \<Rightarrow> u64 \<Rightarrow> (io_error, u8 list) outcome" where
  "codec_put_le_u64 w v = write_all w (to_le_bytes v)"

definition codec_put_be_u128 :: "u8 list \<Rightarrow> u128 \<Rightarrow> (io_error, u8 list) outcome" where
  "codec_put_be_u128 w v = write_all w (to_be_bytes v)"

definition codec_put_le_u128 :: "u8 list \<Rightarrow> u128 \<Rightarrow> (io_error, u8 list) outcome" where
  "codec_put_le_u128 w v = write_all w (to_le_bytes v)"

definition codec_put_bytes :: "u8 list \<Rightarrow> u8 list \<Rightarrow> (io_error, u8 list) outcome" where
  "codec_put_bytes w v = write_all w v"

text \<open>A buffered writer with holes that are filled in later.\<close>

record buffered =
  inner :: "u8 list"
  buffer :: "u8 list"

record hole =
  hole_start :: nat
  hole_end :: nat

definition codec_buffered :: "u8 list \<Rightarrow> buffered" where
  "codec_buffered w = \<lparr>inner = w, buffer = []\<rparr>"

definition buffered_hole :: "buffered \<Rightarrow> nat \<Rightarrow> (io_error, hole \<times> buffered) outcome" where
  "buffered_hole s len =
     (let start = length (buffer s)
      in obind (write_all (buffer s) (replicate len 0)) (\<lambda>b.
         Ok (\<lparr>hole_start = start, hole_end = start + len\<rparr>, s\<lparr>buffer := b\<rparr>)))"

definition buffered_into_inner :: "buffered \<Rightarrow> (io_error, u8 list) outcome" where
  "buffered_into_inner s = write_all (inner s) (buffer s)"

text \<open>\<open>buf[start..end].copy_from_slice(bytes)\<close>: the range and the lengths are checked.\<close>

definition fill_hole :: "buffered \<Rightarrow> hole \<Rightarrow> u8 list \<Rightarrow> (io_error, buffered) outcome" where
  "fill_hole s h bytes =
     (if hole_start h \<le> hole_end h \<and> hole_end h \<le> length (buffer s)
         \<and> length bytes = hole_end h - hole_start h
      then Ok (s\<lparr>buffer := take (hole_start h) (buffer s) @ bytes @ drop (hole_end h) (buffer s)\<rparr>)
      else Panic)"

definition fill_hole_u8 :: "buffered \<Rightarrow> hole \<Rightarrow> u8 \<Rightarrow> (io_error, buffered) outcome" where
  "fill_hole_u8 s h v = fill_hole s h [v]"

definition fill_hole_u16 :: "buffered \<Rightarrow> hole \<Rightarrow> u16 \<Rightarrow> (io_error, buffered) outcome" where
  "fill_hole_u16 s h v = fill_hole s h (to_be_bytes v)"

definition fill_hole_u32 :: "buffered \<Rightarrow> hole \<Rightarrow> u32 \<Rightarrow> (io_error, buffered) outcome" where
  "fill_hole_u32 s h v = fill_hole s h (to_be_bytes v)"

definition fill_hole_u64 :: "buffered \<Rightarrow> hole \<Rightarrow> u64 \<Rightarrow> (io_error, buffered) outcome" where
  "fill_hole_u64 s h v = fill_hole s h (to_be_bytes v)"

definition fill_hole_u128 :: "buffered \<Rightarrow> hole \<Rightarrow> u128 \<Rightarrow> (io_error, buffered) outcome" where
  "fill_hole_u128 s h v = fill_hole s h (to_be_bytes v)"

definition buffered_len :: "buffered \<Rightarrow> nat" where
  "buffered_len s = length (buffer s)"

section \<open>What a reader consumes\<close>

definition rb_ok :: "read_buf \<Rightarrow> bool" where
  "rb_ok b \<longleftrightarrow> offset b \<le> length (rdata b)"

definition rest :: "read_buf \<Rightarrow> u8 list" where
  "rest b = drop (offset b) (rdata b)"

definition advance :: "nat \<Rightarrow> read_buf \<Rightarrow> read_buf" where
  "advance n b = b\<lparr>offset := offset b + n\<rparr>"

lemma rb_from_ok [simp]: "rb_ok (rb_from s)" "rest (rb_from s) = s"
  by (simp_all add: rb_ok_def rest_def rb_from_def)

lemma left_eq: "rb_ok b \<Longrightarrow> left b = Ok (length (rest b))"
  by (simp add: left_def rb_ok_def rest_def)

lemma assure_size_eq: "rb_ok b \<Longrightarrow>
   assure_size b n = (if n \<le> length (rest b) then Ok () else Err (NotEnoughBytes (length (rest b)) n))"
  by (simp add: assure_size_def left_eq)

lemma get_slice_eq: "rb_ok b \<Longrightarrow>
   get_slice n b = (if n \<le> length (rest b) then Ok (take n (rest b), advance n b)
                    else Err (NotEnoughBytes (length (rest b)) n))"
  by (auto simp: get_slice_def assure_size_eq vec_slice_def rb_ok_def rest_def advance_def)

lemma get_u8_eq: "rb_ok b \<Longrightarrow>
   get_u8 b = (case rest b of [] \<Rightarrow> Err (NotEnoughBytes 0 1) | v # _ \<Rightarrow> Ok (v, advance 1 b))"
  by (cases "rest b")
    (auto simp: get_u8_def assure_size_eq nth_opt_eq unwrap_opt_def advance_def rest_def dest: nth_via_drop,
      metis drop_eq_Nil list.distinct(1) not_le)

lemma advance_ok: "rb_ok b \<Longrightarrow> n \<le> length (rest b) \<Longrightarrow> rb_ok (advance n b) \<and> rest (advance n b) = drop n (rest b)"
  by (auto simp: rb_ok_def rest_def advance_def add.commute)

text \<open>A reader of fixed width that interprets the bytes it takes.\<close>

lemma fixed_width_read:
  assumes "rb_ok b" and "rest b = s @ r" and "length s = n"
  shows "get_slice n b = Ok (s, advance n b)" and "rb_ok (advance n b)" and "rest (advance n b) = r"
  using assms get_slice_eq [OF assms(1), of n] advance_ok [OF assms(1), of n] by simp_all

section \<open>The interface of a wire format\<close>

text \<open>
  \<open>valid\<close> says which values the format can carry. Reading what was written returns the value
  and leaves what follows; the cursor stays inside the buffer.
\<close>

locale format =
  fixes valid :: "'a \<Rightarrow> bool" and enc :: "'a \<Rightarrow> u8 list" and rd :: "'a reader"
  assumes rd_enc: "valid x \<Longrightarrow> rb_ok b \<Longrightarrow> rest b = enc x @ r \<Longrightarrow>
    \<exists>b'. rd b = Ok (x, b') \<and> rb_ok b' \<and> rest b' = r"
begin

lemma enc_prefix_free:
  assumes "valid x" and "valid y" and "enc x @ r = enc y @ s"
  shows "x = y" and "r = s"
proof -
  obtain b where "rd (rb_from (enc x @ r)) = Ok (x, b)" "rest b = r"
    using rd_enc [OF assms(1), of "rb_from (enc x @ r)" r] by (metis rb_from_ok)
  moreover obtain c where "rd (rb_from (enc x @ r)) = Ok (y, c)" "rest c = s"
    using rd_enc [OF assms(2), of "rb_from (enc x @ r)" s] assms(3) by (metis rb_from_ok)
  ultimately show "x = y" and "r = s" by simp_all
qed

lemma read_vec_enc:
  assumes "\<forall>x \<in> set xs. valid x" and "rb_ok b" and "rest b = concat (map enc xs) @ r"
  shows "\<exists>b'. read_vec rd (length xs) b = Ok (xs, b') \<and> rb_ok b' \<and> rest b' = r"
  using assms
proof (induction xs arbitrary: b)
  case (Cons x xs)
  have "valid x" and all: "\<forall>x \<in> set xs. valid x" and "rest b = enc x @ (concat (map enc xs) @ r)"
    using Cons.prems by simp_all
  then obtain b' where b': "rd b = Ok (x, b')" "rb_ok b'" "rest b' = concat (map enc xs) @ r"
    using rd_enc [of x b "concat (map enc xs) @ r"] Cons.prems(2) by blast
  obtain b'' where "read_vec rd (length xs) b' = Ok (xs, b'')" "rb_ok b''" "rest b'' = r"
    using Cons.IH [OF all b'(2,3)] by blast
  with b'(1) show ?case by simp
qed simp

lemma read_from_raw_enc: "valid x \<Longrightarrow> read_from_raw rd (enc x) = Ok x"
proof -
  assume "valid x"
  then obtain b' where "rd (rb_from (enc x)) = Ok (x, b')" "rb_ok b'" "rest b' = []"
    using rd_enc [of x "rb_from (enc x)" "[]"] by (metis append_Nil2 rb_from_ok)
  then show ?thesis by (simp add: read_from_raw_def expect_end_def left_eq)
qed

text \<open>Trailing bytes are refused.\<close>

lemma read_from_raw_trailing: "valid x \<Longrightarrow> r \<noteq> [] \<Longrightarrow> read_from_raw rd (enc x @ r) = Err InvalidDataIo"
proof -
  assume "valid x" and r: "r \<noteq> []"
  then obtain b' where "rd (rb_from (enc x @ r)) = Ok (x, b')" "rb_ok b'" "rest b' = r"
    using rd_enc [of x "rb_from (enc x @ r)" r] by (metis rb_from_ok)
  with r show ?thesis by (simp add: read_from_raw_def expect_end_def left_eq)
qed

end

text \<open>A format in which every accepted byte string is the encoding of what was read.\<close>

locale canonical_format = format +
  assumes rd_canonical: "rb_ok b \<Longrightarrow> rd b = Ok (x, b') \<Longrightarrow> valid x \<and> rb_ok b' \<and> rest b = enc x @ rest b'"
    and rd_total: "rb_ok b \<Longrightarrow> rd b \<noteq> Panic"
begin

lemma read_vec_canonical:
  "rb_ok b \<Longrightarrow> read_vec rd n b = Ok (xs, b') \<Longrightarrow>
   length xs = n \<and> (\<forall>x \<in> set xs. valid x) \<and> rb_ok b' \<and> rest b = concat (map enc xs) @ rest b'"
proof (induction n arbitrary: b xs)
  case (Suc n)
  from Suc.prems(2) obtain t b1 ts where t: "rd b = Ok (t, b1)" and ts: "read_vec rd n b1 = Ok (ts, b')"
    and xs: "xs = t # ts"
    by (cases "rd b") (fastforce simp: obind_Ok_iff)+
  have c: "valid t" "rb_ok b1" "rest b = enc t @ rest b1" using rd_canonical [OF Suc.prems(1) t] by simp_all
  from Suc.IH [OF c(2) ts] c xs show ?case by simp
qed simp

lemma read_from_raw_iff: "read_from_raw rd bs = Ok x \<longleftrightarrow> valid x \<and> bs = enc x"
proof
  assume ok: "read_from_raw rd bs = Ok x"
  then obtain b' where b': "rd (rb_from bs) = Ok (x, b')" "expect_end b' = Ok ()"
    by (auto simp: read_from_raw_def split: outcome.splits)
  have "valid x" "rb_ok b'" "bs = enc x @ rest b'" using rd_canonical [OF _ b'(1)] by simp_all
  moreover have "rest b' = []" using b'(2) \<open>rb_ok b'\<close> by (simp add: expect_end_def left_eq split: if_splits)
  ultimately show "valid x \<and> bs = enc x" by simp
qed (simp add: read_from_raw_enc)

end

text \<open>Two formats one after the other.\<close>

definition read_pair :: "'a reader \<Rightarrow> 'b reader \<Rightarrow> ('a \<times> 'b) reader" where
  "read_pair ra rb b = obind (ra b) (\<lambda>(x, b'). obind (rb b') (\<lambda>(y, b''). Ok ((x, y), b'')))"

locale format_pair =
  fst: canonical_format valid1 enc1 rd1 + snd: canonical_format valid2 enc2 rd2
  for valid1 :: "'a \<Rightarrow> bool" and enc1 rd1 and valid2 :: "'b \<Rightarrow> bool" and enc2 rd2
begin

lemma pair_format:
  "canonical_format (\<lambda>(x, y). valid1 x \<and> valid2 y) (\<lambda>(x, y). enc1 x @ enc2 y) (read_pair rd1 rd2)"
proof
  fix p b r assume p: "case p of (x, y) \<Rightarrow> valid1 x \<and> valid2 y" and b: "rb_ok b"
    and r: "rest b = (case p of (x, y) \<Rightarrow> enc1 x @ enc2 y) @ r"
  obtain x y where xy: "p = (x, y)" by (cases p)
  obtain b1 where b1: "rd1 b = Ok (x, b1)" "rb_ok b1" "rest b1 = enc2 y @ r"
    using fst.rd_enc [of x b "enc2 y @ r"] p b r xy by auto
  obtain b2 where "rd2 b1 = Ok (y, b2)" "rb_ok b2" "rest b2 = r"
    using snd.rd_enc [of y b1 r] p b1 xy by auto
  with b1(1) xy show "\<exists>b'. read_pair rd1 rd2 b = Ok (p, b') \<and> rb_ok b' \<and> rest b' = r"
    by (simp add: read_pair_def)
next
  fix b p b' assume b: "rb_ok b" and ok: "read_pair rd1 rd2 b = Ok (p, b')"
  then obtain x b1 y where x: "rd1 b = Ok (x, b1)" and y: "rd2 b1 = Ok (y, b')" and p: "p = (x, y)"
    by (auto simp: read_pair_def outcome_simps)
  from fst.rd_canonical [OF b x] snd.rd_canonical [OF _ y] p
  show "(case p of (x, y) \<Rightarrow> valid1 x \<and> valid2 y) \<and> rb_ok b' \<and> rest b = (case p of (x, y) \<Rightarrow> enc1 x @ enc2 y) @ rest b'"
    by auto
next
  fix b assume b: "rb_ok b"
  then show "read_pair rd1 rd2 b \<noteq> Panic"
    using fst.rd_total [OF b] fst.rd_canonical [OF b] snd.rd_total
    by (fastforce simp: read_pair_def outcome_simps)
qed

end

section \<open>The integer formats\<close>

lemma fixed_width_format:
  fixes enc :: "'a \<Rightarrow> u8 list"
  assumes "\<And>x. length (enc x) = n" and "\<And>x. dec (enc x) = x" and "\<And>s. length s = n \<Longrightarrow> enc (dec s) = s"
    and "\<And>b. rd b = obind (get_slice n b) (\<lambda>(s, b'). Ok (dec s, b'))"
  shows "canonical_format (\<lambda>_. True) enc rd"
proof
  fix x b r assume b: "rb_ok b" and r: "rest b = enc x @ r"
  from fixed_width_read [OF b r assms(1)] show "\<exists>b'. rd b = Ok (x, b') \<and> rb_ok b' \<and> rest b' = r"
    by (simp add: assms(2,4))
next
  fix b x b' assume b: "rb_ok b" and ok: "rd b = Ok (x, b')"
  then have n: "n \<le> length (rest b)" and x: "x = dec (take n (rest b))" and b': "b' = advance n b"
    by (auto simp: assms(4) get_slice_eq [OF b] split: if_splits)
  with advance_ok [OF b n] assms(3) [of "take n (rest b)"]
  show "True \<and> rb_ok b' \<and> rest b = enc x @ rest b'" by simp
next
  fix b assume "rb_ok b"
  then show "rd b \<noteq> Panic" by (simp add: assms(4) get_slice_eq)
qed

interpretation u16_format: canonical_format "\<lambda>_. True" to_be_bytes get_u16
  by (rule fixed_width_format [where n = 2 and dec = from_be_bytes]) (simp_all add: get_u16_def)

interpretation u32_format: canonical_format "\<lambda>_. True" to_be_bytes get_u32
  by (rule fixed_width_format [where n = 4 and dec = from_be_bytes]) (simp_all add: get_u32_def)

interpretation u64_format: canonical_format "\<lambda>_. True" to_be_bytes get_u64
  by (rule fixed_width_format [where n = 8 and dec = from_be_bytes]) (simp_all add: get_u64_def)

interpretation u128_format: canonical_format "\<lambda>_. True" to_be_bytes get_u128
  by (rule fixed_width_format [where n = 16 and dec = from_be_bytes]) (simp_all add: get_u128_def)

interpretation u8_format: canonical_format "\<lambda>_. True" "\<lambda>v. [v]" get_u8
proof
  fix x b r assume b: "rb_ok b" and r: "rest b = [x] @ r"
  then show "\<exists>b'. get_u8 b = Ok (x, b') \<and> rb_ok b' \<and> rest b' = r"
    using advance_ok [OF b, of 1] by (simp add: get_u8_eq [OF b])
next
  fix b x b' assume b: "rb_ok b" and "get_u8 b = Ok (x, b')"
  then show "True \<and> rb_ok b' \<and> rest b = [x] @ rest b'"
    using advance_ok [OF b, of 1] by (auto simp: get_u8_eq [OF b] split: list.splits)
next
  fix b assume "rb_ok b"
  then show "get_u8 b \<noteq> Panic" by (simp add: get_u8_eq split: list.splits)
qed

interpretation nz_u64_format: canonical_format "\<lambda>v. v \<noteq> 0" to_be_bytes get_nz_u64
proof
  fix x :: u64 and b r assume "x \<noteq> 0" "rb_ok b" "rest b = to_be_bytes x @ r"
  then show "\<exists>b'. get_nz_u64 b = Ok (x, b') \<and> rb_ok b' \<and> rest b' = r"
    using u64_format.rd_enc [where x = x and b = b and r = r] by (auto simp: get_nz_u64_def)
next
  fix b x b' assume b: "rb_ok b" and "get_nz_u64 b = Ok (x, b')"
  then show "x \<noteq> 0 \<and> rb_ok b' \<and> rest b = to_be_bytes x @ rest b'"
    using u64_format.rd_canonical [OF b] by (auto simp: get_nz_u64_def outcome_simps split: if_splits)
next
  fix b assume b: "rb_ok b"
  then show "get_nz_u64 b \<noteq> Panic"
    using u64_format.rd_total [OF b] by (auto simp: get_nz_u64_def outcome_simps split: if_splits)
qed

section \<open>Properties\<close>

lemmas codec_defs =
  codec_get_u8_def codec_get_be_u16_def codec_get_le_u16_def codec_get_be_u32_def codec_get_le_u32_def
  codec_get_be_u64_def codec_get_le_u64_def codec_get_be_u128_def codec_get_le_u128_def codec_get_bytes_def
  codec_put_u8_def codec_put_be_u16_def codec_put_le_u16_def codec_put_be_u32_def codec_put_le_u32_def
  codec_put_be_u64_def codec_put_le_u64_def codec_put_be_u128_def codec_put_le_u128_def codec_put_bytes_def

text \<open>
  What the stream codec writes, in either byte order and at every width, it reads back, with
  nothing of the following bytes consumed; writing to an empty vector and reading from it is the identity.
\<close>

theorem codec_put_get:
  "obind (codec_put_u8 [] a) (\<lambda>w. codec_get_u8 (w @ r)) = Ok (a, r)
   \<and> obind (codec_put_be_u16 [] b) (\<lambda>w. codec_get_be_u16 (w @ r)) = Ok (b, r)
   \<and> obind (codec_put_le_u16 [] b) (\<lambda>w. codec_get_le_u16 (w @ r)) = Ok (b, r)
   \<and> obind (codec_put_be_u32 [] c) (\<lambda>w. codec_get_be_u32 (w @ r)) = Ok (c, r)
   \<and> obind (codec_put_le_u32 [] c) (\<lambda>w. codec_get_le_u32 (w @ r)) = Ok (c, r)
   \<and> obind (codec_put_be_u64 [] d) (\<lambda>w. codec_get_be_u64 (w @ r)) = Ok (d, r)
   \<and> obind (codec_put_le_u64 [] d) (\<lambda>w. codec_get_le_u64 (w @ r)) = Ok (d, r)
   \<and> obind (codec_put_be_u128 [] e) (\<lambda>w. codec_get_be_u128 (w @ r)) = Ok (e, r)
   \<and> obind (codec_put_le_u128 [] e) (\<lambda>w. codec_get_le_u128 (w @ r)) = Ok (e, r)
   \<and> obind (codec_put_bytes [] s) (\<lambda>w. codec_get_bytes (w @ r) (length s)) = Ok (s, r)"
  by (simp add: codec_defs write_all_def read_exact_def unwrap_opt_def)

text \<open>
  Memory buffers: a raw buffer is accepted as an integer exactly if it is the big-endian
  encoding of that integer, so shorter and longer buffers are refused; a zero is refused
  where a non-zero integer is expected; and a written vector of integers is read back whole.
\<close>

theorem mempack_integers:
  "(read_from_raw get_u64 bs = Ok x \<longleftrightarrow> bs = to_be_bytes x)
   \<and> (read_from_raw get_u32 bs = Ok y \<longleftrightarrow> bs = to_be_bytes y)
   \<and> (read_from_raw get_u16 bs = Ok z \<longleftrightarrow> bs = to_be_bytes z)
   \<and> (read_from_raw get_u128 bs = Ok u \<longleftrightarrow> bs = to_be_bytes u)
   \<and> (read_from_raw get_nz_u64 bs = Ok x \<longleftrightarrow> x \<noteq> 0 \<and> bs = to_be_bytes x)
   \<and> read_from_raw (read_vec get_u64 (length xs)) (concat (map to_be_bytes xs)) = Ok xs"
proof -
  obtain b' where "read_vec get_u64 (length xs) (rb_from (concat (map to_be_bytes xs))) = Ok (xs, b')"
    "rb_ok b'" "rest b' = []"
    using u64_format.read_vec_enc [where b = "rb_from (concat (map to_be_bytes xs))" and xs = xs and r = "[]"] by auto
  then have "read_from_raw (read_vec get_u64 (length xs)) (concat (map to_be_bytes xs)) = Ok xs"
    by (simp add: read_from_raw_def expect_end_def left_eq)
  then show ?thesis
    by (simp add: u64_format.read_from_raw_iff u32_format.read_from_raw_iff u16_format.read_from_raw_iff
        u128_format.read_from_raw_iff nz_u64_format.read_from_raw_iff)
qed

text \<open>
  A hole reserved in a buffered writer, followed by any further writes and filled later, ends up
  with exactly the value in its place and every other byte untouched.
\<close>

theorem hole_filled_later:
  "\<exists>h s1. buffered_hole s 4 = Ok (h, s1)
     \<and> obind (codec_put_bytes (buffer s1) later) (\<lambda>b. obind (fill_hole_u32 (s1\<lparr>buffer := b\<rparr>) h v) buffered_into_inner)
       = Ok (inner s @ buffer s @ to_be_bytes v @ later)"
proof -
  let ?start = "length (buffer s)"
  let ?h = "\<lparr>hole_start = ?start, hole_end = ?start + 4\<rparr>" and ?s1 = "s\<lparr>buffer := buffer s @ replicate 4 0\<rparr>"
  have "buffered_hole s 4 = Ok (?h, ?s1)" by (simp add: buffered_hole_def write_all_def Let_def)
  moreover have "obind (codec_put_bytes (buffer ?s1) later) (\<lambda>b. obind (fill_hole_u32 (?s1\<lparr>buffer := b\<rparr>) ?h v) buffered_into_inner)
      = Ok (inner s @ buffer s @ to_be_bytes v @ later)"
    by (simp add: write_all_def codec_put_bytes_def fill_hole_u32_def fill_hole_def buffered_into_inner_def)
  ultimately show ?thesis by blast
qed

end
