(* ===== verification/Value.thy ===== *)
theory Value
  imports Codec
begin

text \<open>
  Token values (\<open>chain-impl-mockchain/src/value.rs\<close>): an amount is an unsigned 64-bit integer,
  addition and subtraction report overflow instead of wrapping, and the wire format is eight
  bytes in big-endian order.
\<close>

datatype val = Value (amount: u64)

text \<open>The derived \<open>PartialOrd\<close> and \<open>Ord\<close> compare the amounts.\<close>

instantiation val :: linorder
begin

definition less_eq_val :: "val \<Rightarrow> val \<Rightarrow> bool" where
  "less_eq_val a b \<longleftrightarrow> amount a \<le> amount b"

definition less_val :: "val \<Rightarrow> val \<Rightarrow> bool" where
  "less_val a b \<longleftrightarrow> amount a < amount b"

instance
  by intro_classes (auto simp: less_eq_val_def less_val_def val.expand)

end

datatype value_error = NegativeAmount | Overflow | FromSliceTooSmall | FromSliceTooBig

record split_value_in =
  parts :: val
  remaining :: val

definition value_zero :: val where
  "value_zero = Value 0"

definition value_checked_add :: "val \<Rightarrow> val \<Rightarrow> (value_error, val) outcome" where
  "value_checked_add a b = ok_or Overflow (map_option Value (checked_add (amount a) (amount b)))"

definition value_checked_sub :: "val \<Rightarrow> val \<Rightarrow> (value_error, val) outcome" where
  "value_checked_sub a b = ok_or NegativeAmount (map_option Value (checked_sub (amount a) (amount b)))"

definition value_saturating_add :: "val \<Rightarrow> val \<Rightarrow> val" where
  "value_saturating_add a b = Value (saturating_add (amount a) (amount b))"

text \<open>\<open>impl ops::Add\<close> and \<open>impl ops::Sub\<close>.\<close>

definition value_add :: "val \<Rightarrow> val \<Rightarrow> (value_error, val) outcome" where
  "value_add a b = value_checked_add a b"

definition value_sub :: "val \<Rightarrow> val \<Rightarrow> (value_error, val) outcome" where
  "value_sub a b = value_checked_sub a b"

definition value_sum :: "val list \<Rightarrow> (value_error, val) outcome" where
  "value_sum vs = fold (\<lambda>v acc. obind acc (\<lambda>a. value_add a v)) vs (Ok value_zero)"

text \<open>\<open>impl Sum for Value\<close>, which saturates.\<close>

definition value_iter_sum :: "val list \<Rightarrow> val" where
  "value_iter_sum vs = fold (\<lambda>v acc. value_saturating_add acc v) vs value_zero"

definition value_scale :: "val \<Rightarrow> u32 \<Rightarrow> (value_error, val) outcome" where
  "value_scale v n = ok_or Overflow (map_option Value (checked_mul (amount v) (ucast n)))"

definition split_in :: "val \<Rightarrow> u32 \<Rightarrow> (value_error, split_value_in) outcome" where
  "split_in v n =
     obind (pdiv (amount v) (ucast n)) (\<lambda>p.
     obind (pmod (amount v) (ucast n)) (\<lambda>r.
     Ok \<lparr>parts = Value p, remaining = Value r\<rparr>))"

definition value_bytes :: "val \<Rightarrow> u8 list" where
  "value_bytes v = to_be_bytes (amount v)"

definition value_deserialize :: "u8 list \<Rightarrow> (io_error, val \<times> u8 list) outcome" where
  "value_deserialize r = omap (map_prod Value id) (codec_get_be_u64 r)"

definition value_read :: "val reader" where
  "value_read b = omap (map_prod Value id) (get_u64 b)"

definition value_serialize :: "u8 list \<Rightarrow> val \<Rightarrow> (io_error, u8 list) outcome" where
  "value_serialize w v = codec_put_be_u64 w (amount v)"

definition value_try_from :: "u8 list \<Rightarrow> (value_error, val) outcome" where
  "value_try_from s =
     (if length s < 8 then Err FromSliceTooSmall
      else if length s > 8 then Err FromSliceTooBig
      else Ok (Value (from_be_bytes s)))"

section \<open>Amounts as numbers\<close>

definition coins :: "val \<Rightarrow> nat" where
  "coins v = unat (amount v)"

lemma coins_eq_iff: "coins a = coins b \<longleftrightarrow> a = b"
  by (cases a; cases b) (simp add: coins_def word_unat_eq_iff)

lemma coins_less: "coins v < 2 ^ 64"
  using unat_lt_2p [of "amount v"] by (simp add: coins_def)

lemma coins_zero [simp]: "coins value_zero = 0" "coins (Value 0) = 0"
  by (simp_all add: coins_def value_zero_def)

lemma coins_order [checked_simps]: "a \<le> b \<longleftrightarrow> coins a \<le> coins b" "a < b \<longleftrightarrow> coins a < coins b"
  by (simp_all add: less_eq_val_def less_val_def coins_def word_le_nat_alt word_less_nat_alt)

text \<open>The arithmetic operations, each by its three possible results.\<close>

lemma value_add_iffs [checked_simps]:
  "value_checked_add a b = Ok c \<longleftrightarrow> coins c = coins a + coins b"
  "value_checked_add a b = Err e \<longleftrightarrow> e = Overflow \<and> 2 ^ 64 \<le> coins a + coins b"
  "value_checked_add a b \<noteq> Panic"
  by (cases c; auto simp: value_checked_add_def outcome_simps checked_simps coins_def)+

lemma value_sub_iffs [checked_simps]:
  "value_checked_sub a b = Ok c \<longleftrightarrow> coins a = coins b + coins c"
  "value_checked_sub a b = Err e \<longleftrightarrow> e = NegativeAmount \<and> coins a < coins b"
  "value_checked_sub a b \<noteq> Panic"
  by (cases c; auto simp: value_checked_sub_def outcome_simps checked_simps coins_def)+

lemma value_ops [simp]: "value_add = value_checked_add" "value_sub = value_checked_sub"
  by (simp_all add: fun_eq_iff value_add_def value_sub_def)

lemma value_scale_iffs [checked_simps]:
  "value_scale v n = Ok c \<longleftrightarrow> coins c = coins v * unat n"
  "value_scale v n = Err e \<longleftrightarrow> e = Overflow \<and> 2 ^ 64 \<le> coins v * unat n"
  "value_scale v n \<noteq> Panic"
  by (cases c; auto simp: value_scale_def outcome_simps checked_simps coins_def unat_ucast_up)+

lemma coins_saturating [checked_simps]:
  "coins (value_saturating_add a b) = min (coins a + coins b) (2 ^ 64 - 1)"
  by (simp add: value_saturating_add_def coins_def checked_simps)

lemma value_add_cases:
  obtains (sum) c where "value_checked_add a b = Ok c" and "coins c = coins a + coins b"
  | (overflow) "value_checked_add a b = Err Overflow" and "2 ^ 64 \<le> coins a + coins b"
  using value_add_iffs [of a b] by (cases "value_checked_add a b") auto

lemma value_sub_cases:
  obtains (diff) c where "value_checked_sub a b = Ok c" and "coins a = coins b + coins c"
  | (negative) "value_checked_sub a b = Err NegativeAmount" and "coins a < coins b"
  using value_sub_iffs [of a b] by (cases "value_checked_sub a b") auto

lemma value_total_split: "(\<forall>c. value_checked_add a b \<noteq> Ok c) \<longleftrightarrow> value_checked_add a b = Err Overflow"
  by (cases "value_checked_add a b") (auto simp: value_checked_add_def ok_or_def split: option.splits)

text \<open>Summation, generalised over the accumulator.\<close>

definition coin_total :: "val list \<Rightarrow> nat" where
  "coin_total vs = sum_list (map coins vs)"

lemma coin_total_simps [simp]: "coin_total [] = 0" "coin_total (v # vs) = coins v + coin_total vs" "coin_total (xs @ ys) = coin_total xs + coin_total ys"
  by (simp_all add: coin_total_def)

lemma fold_add_stuck: "fold (\<lambda>v acc. obind acc (\<lambda>a. value_checked_add a v)) vs (Err e) = Err e"
  by (induction vs) auto

lemma fold_add_spec:
  "case fold (\<lambda>v acc. obind acc (\<lambda>a. value_checked_add a v)) vs (Ok s) of
     Ok t \<Rightarrow> coins t = coins s + coin_total vs
   | Err e \<Rightarrow> e = Overflow \<and> 2 ^ 64 \<le> coins s + coin_total vs
   | Panic \<Rightarrow> False"
proof (induction vs arbitrary: s)
  case (Cons v vs)
  show ?case
  proof (cases "value_checked_add s v")
    case (Ok c)
    then have "coins c = coins s + coins v" by (simp add: checked_simps)
    with Ok Cons [of c] show ?thesis by (simp add: add.assoc split: outcome.splits)
  next
    case (Err e)
    moreover from Err have "e = Overflow \<and> 2 ^ 64 \<le> coins s + coins v" by (simp add: checked_simps)
    ultimately show ?thesis by (simp add: fold_add_stuck)
  next
    case Panic
    then show ?thesis by (simp add: checked_simps)
  qed
qed simp

lemma value_sum_spec:
  "case value_sum vs of Ok t \<Rightarrow> coins t = coin_total vs | Err e \<Rightarrow> e = Overflow \<and> 2 ^ 64 \<le> coin_total vs | Panic \<Rightarrow> False"
  using fold_add_spec [where vs = vs and s = value_zero] by (simp add: value_sum_def split: outcome.splits)

lemma value_sum_iffs [checked_simps]:
  "value_sum vs = Ok t \<longleftrightarrow> coins t = coin_total vs"
  "value_sum vs = Err e \<longleftrightarrow> e = Overflow \<and> 2 ^ 64 \<le> coin_total vs"
  "value_sum vs \<noteq> Panic"
proof -
  show "value_sum vs = Ok t \<longleftrightarrow> coins t = coin_total vs"
  proof (cases "value_sum vs")
    case (Ok u)
    then show ?thesis using value_sum_spec [of vs] by (auto simp: coins_eq_iff [symmetric])
  next
    case (Err e)
    then show ?thesis using value_sum_spec [of vs] coins_less [of t] by auto
  qed (use value_sum_spec [of vs] in auto)
  show "value_sum vs = Err e \<longleftrightarrow> e = Overflow \<and> 2 ^ 64 \<le> coin_total vs"
  proof (cases "value_sum vs")
    case (Ok u)
    then show ?thesis using value_sum_spec [of vs] coins_less [of u] by auto
  qed (use value_sum_spec [of vs] in auto)
  show "value_sum vs \<noteq> Panic" using value_sum_spec [of vs] by auto
qed

lemma value_iter_sum_spec: "coins (value_iter_sum vs) = min (coin_total vs) (2 ^ 64 - 1)"
proof -
  have "coins (fold (\<lambda>v acc. value_saturating_add acc v) vs s) = min (coins s + coin_total vs) (2 ^ 64 - 1)" for s
  proof (induction vs arbitrary: s)
    case Nil
    then show ?case using coins_less [of s] by simp
  next
    case (Cons v vs)
    then show ?case by (simp add: checked_simps)
  qed
  from this [of value_zero] show ?thesis by (simp add: value_iter_sum_def)
qed

section \<open>The wire format\<close>

interpretation value_format: canonical_format "\<lambda>_. True" value_bytes value_read
  by (rule fixed_width_format [where n = 8 and dec = "\<lambda>s. Value (from_be_bytes s)"])
    (simp_all add: value_bytes_def value_read_def get_u64_def outcome_push comp_def case_prod_unfold map_prod_def)

lemma value_wire:
  "value_try_from bs = Ok v \<longleftrightarrow> bs = value_bytes v"
  "obind (value_serialize [] v) (\<lambda>w. value_deserialize (w @ r)) = Ok (v, r)"
proof -
  have "length bs = 8 \<Longrightarrow> Value (from_be_bytes bs) = v \<longleftrightarrow> bs = to_be_bytes (amount v)"
    by (cases v) (auto dest: sym)
  moreover have "bs = value_bytes v \<Longrightarrow> length bs = 8" by (simp add: value_bytes_def)
  ultimately show "value_try_from bs = Ok v \<longleftrightarrow> bs = value_bytes v"
    by (auto simp: value_try_from_def value_bytes_def)
  show "obind (value_serialize [] v) (\<lambda>w. value_deserialize (w @ r)) = Ok (v, r)"
    by (simp add: value_serialize_def value_deserialize_def codec_defs write_all_def read_exact_def)
qed

section \<open>Properties\<close>

text \<open>
  The checked sum of values is the exact sum of the amounts, and it fails, with \<open>Overflow\<close>,
  exactly when that sum does not fit 64 bits; the saturating sum is the exact sum capped at the maximum.
\<close>

theorem value_sum_exact:
  "(value_sum vs = Ok t \<longleftrightarrow> coins t = coin_total vs)
   \<and> ((\<exists>e. value_sum vs = Err e) \<longleftrightarrow> 2 ^ 64 \<le> coin_total vs) \<and> value_sum vs \<noteq> Panic
   \<and> coins (value_iter_sum vs) = min (coin_total vs) (2 ^ 64 - 1)"
  by (simp add: checked_simps value_iter_sum_spec)

text \<open>
  Splitting a value in \<open>n\<close> parts loses nothing: the parts and the remainder add up to the
  value and the remainder is smaller than \<open>n\<close>. Splitting in zero parts is a division by zero.
\<close>

theorem split_in_conserves:
  "case split_in v n of
     Ok s \<Rightarrow> n \<noteq> 0 \<and> coins (parts s) * unat n + coins (remaining s) = coins v \<and> coins (remaining s) < unat n
   | Err e \<Rightarrow> False
   | Panic \<Rightarrow> n = 0"
proof (cases "n = 0")
  case True
  then show ?thesis by (simp add: split_in_def pdiv_def)
next
  case False
  have u: "unat (ucast n :: u64) = unat n" by (simp add: unat_ucast_up)
  then have "(ucast n :: u64) \<noteq> 0" using False by (simp add: word_unat_eq_iff)
  with u False show ?thesis
    by (simp add: split_in_def pdiv_def pmod_def coins_def unat_div unat_mod word_unat_eq_iff)
qed

end
