(* ===== verification/Utxo.thy ===== *)
theory Utxo
  imports Hamt Sparse_Array Value
begin

text \<open>
  The ledger of unspent outputs (\<open>chain-impl-mockchain/src/utxo.rs\<close>): a hash trie from fragment
  identifiers to the sparse array of the outputs of that fragment which are still unspent. The
  model uses the trie through the facts of \<open>persistent_map\<close> and the arrays through those of
  \<open>byte_map\<close>.

  Fragment identifiers are the type variable \<open>'i\<close>, hashed by \<open>hf\<close>; addresses are \<open>'a\<close>.
\<close>

record 'a tx_output =
  out_address :: 'a
  out_value :: val

definition read_output :: "'a reader \<Rightarrow> 'a tx_output reader" where
  "read_output read_address b =
     obind (read_address b) (\<lambda>(a, b').
     obind (value_read b') (\<lambda>(v, b'').
     Ok (\<lparr>out_address = a, out_value = v\<rparr>, b'')))"

type_synonym transaction_index = u8

datatype utxo_error = AlreadyExists | TransactionNotFound | IndexNotFound

type_synonym 'a unspents = "'a tx_output fast_sparse_array"

section \<open>Outputs of one transaction\<close>

fun from_outputs_loop ::
  "(transaction_index \<times> 'a tx_output) list \<Rightarrow> 'a tx_output fast_sparse_array_builder
   \<Rightarrow> (utxo_error, 'a tx_output fast_sparse_array_builder) outcome" where
  "from_outputs_loop [] sa = Ok sa"
| "from_outputs_loop ((index, output) # rs) sa = obind (fsab_set sa index output) (from_outputs_loop rs)"

definition from_outputs ::
  "(transaction_index \<times> 'a tx_output) list \<Rightarrow> (utxo_error, 'a unspents) outcome" where
  "from_outputs outs =
     obind (require (length outs < 255)) (\<lambda>_. omap fsab_build (from_outputs_loop outs fsab_new))"

definition remove_input ::
  "'a unspents \<Rightarrow> transaction_index \<Rightarrow> (utxo_error, 'a unspents \<times> 'a tx_output) outcome" where
  "remove_input u index =
     obind (require (index < 255)) (\<lambda>_.
     obind (fsa_remove u index) (\<lambda>(t, r).
       case r of None \<Rightarrow> Err IndexNotFound | Some o' \<Rightarrow> Ok (t, o')))"

section \<open>The ledger\<close>

type_synonym ('i, 'a) utxo_ledger = "('i, 'a unspents) hamt"

record ('i, 'a) utxo_entry =
  fragment_id :: 'i
  output_index :: u8
  entry_output :: "'a tx_output"

definition utxo_new :: "('i, 'a) utxo_ledger" where
  "utxo_new = hamt_new"

definition utxo_get ::
  "'i hasher \<Rightarrow> ('i, 'a) utxo_ledger \<Rightarrow> 'i \<Rightarrow> transaction_index
   \<Rightarrow> (utxo_error, ('i, 'a) utxo_entry option) outcome" where
  "utxo_get hf l tid index =
     obind (hamt_lookup hf l tid) (\<lambda>unspent.
       case unspent of
         None \<Rightarrow> Ok None
       | Some u \<Rightarrow> omap (map_option (\<lambda>output. \<lparr>fragment_id = tid, output_index = index, entry_output = output\<rparr>))
                     (fsa_get u index))"

definition utxo_is_empty :: "('i, 'a) utxo_ledger \<Rightarrow> bool" where
  "utxo_is_empty l = hamt_is_empty l"

definition utxo_add ::
  "'i hasher \<Rightarrow> ('i, 'a) utxo_ledger \<Rightarrow> 'i \<Rightarrow> (transaction_index \<times> 'a tx_output) list
   \<Rightarrow> (utxo_error, ('i, 'a) utxo_ledger) outcome" where
  "utxo_add hf l tid outs =
     obind (require (outs \<noteq> [])) (\<lambda>_.
     obind (require (length outs < 255)) (\<lambda>_.
     obind (from_outputs outs) (\<lambda>b.
     map_err (\<lambda>_. AlreadyExists) (hamt_insert hf l tid b))))"

text \<open>
  The end of \<open>remove\<close> and \<open>remove_multiple\<close>: a transaction without unspent outputs leaves the
  trie, otherwise its array is replaced. \<open>RemoveError\<close> and \<open>ReplaceError\<close> become \<open>TransactionNotFound\<close>.
\<close>

definition utxo_put_back ::
  "'i hasher \<Rightarrow> ('i, 'a) utxo_ledger \<Rightarrow> 'i \<Rightarrow> 'a unspents \<Rightarrow> 'r
   \<Rightarrow> (utxo_error, ('i, 'a) utxo_ledger \<times> 'r) outcome" where
  "utxo_put_back hf l tid treemap result =
     (if fsa_is_empty treemap
      then omap (\<lambda>m. (m, result)) (map_err (\<lambda>_. TransactionNotFound) (hamt_remove hf l tid))
      else omap (\<lambda>(m, _). (m, result)) (map_err (\<lambda>_. TransactionNotFound) (hamt_replace hf l tid treemap)))"

definition utxo_remove ::
  "'i hasher \<Rightarrow> ('i, 'a) utxo_ledger \<Rightarrow> 'i \<Rightarrow> transaction_index
   \<Rightarrow> (utxo_error, ('i, 'a) utxo_ledger \<times> 'a tx_output) outcome" where
  "utxo_remove hf l tid index =
     obind (hamt_lookup hf l tid) (\<lambda>found.
     obind (case found of None \<Rightarrow> Err TransactionNotFound | Some out \<Rightarrow> remove_input out index) (\<lambda>(treemap, output).
     utxo_put_back hf l tid treemap output))"

fun remove_inputs ::
  "'a unspents \<Rightarrow> transaction_index list \<Rightarrow> (utxo_error, 'a unspents \<times> 'a tx_output list) outcome" where
  "remove_inputs treemap [] = Ok (treemap, [])"
| "remove_inputs treemap (index # rs) =
     obind (remove_input treemap index) (\<lambda>(t, o').
     omap (\<lambda>(t', os). (t', o' # os)) (remove_inputs t rs))"

definition utxo_remove_multiple ::
  "'i hasher \<Rightarrow> ('i, 'a) utxo_ledger \<Rightarrow> 'i \<Rightarrow> transaction_index list
   \<Rightarrow> (utxo_error, ('i, 'a) utxo_ledger \<times> 'a tx_output list) outcome" where
  "utxo_remove_multiple hf l tid indices =
     obind (hamt_lookup hf l tid) (\<lambda>found.
     obind (case found of None \<Rightarrow> Err TransactionNotFound | Some out \<Rightarrow> remove_inputs out indices) (\<lambda>(treemap, outputs).
     utxo_put_back hf l tid treemap outputs))"

fun utxo_from_iter ::
  "'i hasher \<Rightarrow> ('i, 'a) utxo_ledger \<Rightarrow> ('i \<times> (transaction_index \<times> 'a tx_output) list) list
   \<Rightarrow> (utxo_error, ('i, 'a) utxo_ledger) outcome" where
  "utxo_from_iter hf ledger [] = Ok ledger"
| "utxo_from_iter hf ledger ((tid, outputs) # rs) =
     obind (unwrap (utxo_add hf ledger tid outputs)) (\<lambda>l. utxo_from_iter hf l rs)"

section \<open>Iterators\<close>

record ('i, 'a) utxo_iter =
  ui_hamt :: "('i, 'a unspents) hamt_iterator"
  ui_unspents :: "('i \<times> 'a tx_output fast_sparse_array_iter) option"

record ('i, 'a) utxo_values =
  uv_hamt :: "('i, 'a unspents) hamt_iterator"
  uv_unspents :: "'a tx_output fast_sparse_array_iter option"

definition utxo_iter_start :: "('i, 'a) utxo_ledger \<Rightarrow> ('i, 'a) utxo_iter" where
  "utxo_iter_start l = \<lparr>ui_hamt = hamt_iter_start l, ui_unspents = None\<rparr>"

definition utxo_values_start :: "('i, 'a) utxo_ledger \<Rightarrow> ('i, 'a) utxo_values" where
  "utxo_values_start l = \<lparr>uv_hamt = hamt_iter_start l, uv_unspents = None\<rparr>"

lemma hamt_iter_next_shorter:
  "hamt_iter_next it = (Some p, it') \<Longrightarrow> length (pending it') < length (pending it)"
  using hamt_iter_next_pending [of it] by simp

function utxo_iter_next ::
  "('i, 'a) utxo_iter \<Rightarrow> (utxo_error, ('i, 'a) utxo_entry option \<times> ('i, 'a) utxo_iter) outcome" where
  "utxo_iter_next it =
     (case ui_unspents it of
        None \<Rightarrow>
          (case hamt_iter_next (ui_hamt it) of
             (None, h) \<Rightarrow> Ok (None, it\<lparr>ui_hamt := h\<rparr>)
           | (Some (tid, u), h) \<Rightarrow> utxo_iter_next \<lparr>ui_hamt = h, ui_unspents = Some (tid, fsa_iter u)\<rparr>)
      | Some (tid, o') \<Rightarrow>
          (case fsa_iter_next o' of
             Panic \<Rightarrow> Panic
           | Err e \<Rightarrow> Err e
           | Ok (None, _) \<Rightarrow> utxo_iter_next (it\<lparr>ui_unspents := None\<rparr>)
           | Ok (Some (idx, x), o'') \<Rightarrow>
               Ok (Some \<lparr>fragment_id = tid, output_index = idx, entry_output = x\<rparr>,
                   it\<lparr>ui_unspents := Some (tid, o'')\<rparr>)))"
  by pat_completeness auto
termination
  by (relation "measures [\<lambda>it. length (pending (ui_hamt it)), \<lambda>it. case ui_unspents it of None \<Rightarrow> 0 | Some _ \<Rightarrow> 1]")
    (auto dest: hamt_iter_next_shorter [OF sym])

function utxo_values_next ::
  "('i, 'a) utxo_values \<Rightarrow> (utxo_error, 'a tx_output option \<times> ('i, 'a) utxo_values) outcome" where
  "utxo_values_next it =
     (case uv_unspents it of
        None \<Rightarrow>
          (case hamt_iter_next (uv_hamt it) of
             (None, h) \<Rightarrow> Ok (None, it\<lparr>uv_hamt := h\<rparr>)
           | (Some (_, u), h) \<Rightarrow> utxo_values_next \<lparr>uv_hamt = h, uv_unspents = Some (fsa_iter u)\<rparr>)
      | Some o' \<Rightarrow>
          (case fsa_iter_next o' of
             Panic \<Rightarrow> Panic
           | Err e \<Rightarrow> Err e
           | Ok (None, _) \<Rightarrow> utxo_values_next (it\<lparr>uv_unspents := None\<rparr>)
           | Ok (Some (_, x), o'') \<Rightarrow> Ok (Some x, it\<lparr>uv_unspents := Some o''\<rparr>)))"
  by pat_completeness auto
termination
  by (relation "measures [\<lambda>it. length (pending (uv_hamt it)), \<lambda>it. case uv_unspents it of None \<Rightarrow> 0 | Some _ \<Rightarrow> 1]")
    (auto dest: hamt_iter_next_shorter [OF sym])

declare utxo_iter_next.simps [simp del] utxo_values_next.simps [simp del]

section \<open>Invariant and abstraction\<close>

text \<open>
  The ledger stands for the map from output pointers (fragment identifier and index) to outputs.
  No array in the trie is exhausted.
\<close>

definition unspents_ok :: "'a unspents \<Rightarrow> bool" where
  "unspents_ok u \<longleftrightarrow> fsa_wf u \<and> fsa_map u \<noteq> Map.empty"

definition utxo_ok :: "'i hasher \<Rightarrow> ('i, 'a) utxo_ledger \<Rightarrow> bool" where
  "utxo_ok hf l \<longleftrightarrow> hamt_ok hf l \<and> (\<forall>u \<in> ran (hamt_map hf l). unspents_ok u)"

definition utxo_map :: "'i hasher \<Rightarrow> ('i, 'a) utxo_ledger \<Rightarrow> 'i \<times> transaction_index \<rightharpoonup> 'a tx_output" where
  "utxo_map hf l = (\<lambda>(t, i). case hamt_map hf l t of None \<Rightarrow> None | Some u \<Rightarrow> fsa_map u i)"

lemma utxo_okD:
  assumes "utxo_ok hf l"
  shows "hamt_ok hf l" and "hamt_map hf l t = Some u \<Longrightarrow> fsa_wf u" and "hamt_map hf l t = Some u \<Longrightarrow> fsa_map u \<noteq> Map.empty"
  using assms by (auto simp: utxo_ok_def unspents_ok_def ran_def)

lemma utxo_new_ok [simp]: "utxo_ok hf utxo_new" "utxo_map hf utxo_new = Map.empty"
  by (auto simp: utxo_ok_def utxo_new_def utxo_map_def)

lemma utxo_present_iff: "utxo_ok hf l \<Longrightarrow> hamt_map hf l t \<noteq> None \<longleftrightarrow> (\<exists>i. utxo_map hf l (t, i) \<noteq> None)"
  using utxo_okD(3) [of hf l t] by (fastforce simp: utxo_map_def fun_eq_iff split: option.splits)

text \<open>A changed array changes the pointers of its transaction only.\<close>

lemma utxo_map_upd:
  assumes "hamt_map hf l' = (hamt_map hf l)(t := w)"
  shows "utxo_map hf l' = (\<lambda>(t', i). if t' = t then (case w of None \<Rightarrow> None | Some u \<Rightarrow> fsa_map u i) else utxo_map hf l (t', i))"
  using assms by (auto simp: utxo_map_def fun_eq_iff)

lemma utxo_ok_upd:
  assumes "utxo_ok hf l" and "hamt_ok hf l'" and "hamt_map hf l' = (hamt_map hf l)(t := w)" and "pred_option unspents_ok w"
  shows "utxo_ok hf l'"
  using assms by (auto simp: utxo_ok_def ran_def split: if_splits)

section \<open>Building and consuming the outputs of one transaction\<close>

lemma from_outputs_loop_spec:
  assumes "fsa_wf (fsab_build b)"
  shows "\<exists>b'. from_outputs_loop outs b = Ok b' \<and> fsa_wf (fsab_build b')
    \<and> fsa_map (fsab_build b') = fsa_map (fsab_build b) ++ map_of (rev outs)"
  using assms
proof (induction outs arbitrary: b)
  case (Cons p outs)
  obtain i x where p: "p = (i, x)" by (cases p)
  obtain a where a: "fsa_set (fsab_build b) i x = (Ok a :: (utxo_error, _) outcome)" "fsa_wf a" "fsa_map a = (fsa_map (fsab_build b))(i \<mapsto> x)"
    using fsa.put_alpha [OF Cons.prems] by blast
  have "omap fsab_build (fsab_set b i x) = (Ok a :: (utxo_error, _) outcome)" using a(1) by (simp add: fsab_set_as_fsa_set)
  then obtain b1 where b1: "fsab_set b i x = (Ok b1 :: (utxo_error, _) outcome)" "fsab_build b1 = a" by (auto simp: outcome_simps)
  obtain b' where "from_outputs_loop outs b1 = Ok b'" "fsa_wf (fsab_build b')"
    "fsa_map (fsab_build b') = fsa_map a ++ map_of (rev outs)"
    using Cons.IH [of b1] a(2) b1(2) by auto
  then show ?case using p a b1 by (intro exI [of _ b']) simp
qed simp

lemma from_outputs_spec:
  assumes "length outs < 255"
  shows "\<exists>u. from_outputs outs = Ok u \<and> fsa_wf u \<and> fsa_map u = map_of (rev outs)"
  using from_outputs_loop_spec [of fsab_new outs] assms by (auto simp: from_outputs_def require_def)

lemma remove_input_spec:
  assumes "fsa_wf u"
  shows "if index = 255 then remove_input u index = Panic
    else (case fsa_map u index of
        None \<Rightarrow> remove_input u index = Err IndexNotFound
      | Some o' \<Rightarrow> \<exists>u'. remove_input u index = Ok (u', o') \<and> fsa_wf u' \<and> fsa_map u' = (fsa_map u)(index := None))"
proof -
  have lt: "index < 255 \<longleftrightarrow> index \<noteq> 255"
    using unat_lt_2p [of index] by (auto simp: word_less_nat_alt word_unat_eq_iff)
  obtain u' where "fsa_remove u index = (Ok (u', fsa_map u index) :: (utxo_error, _) outcome)" "fsa_wf u'"
    "fsa_map u' = (fsa_map u)(index := None)"
    using fsa.take_alpha [OF assms] by blast
  then show ?thesis by (auto simp: remove_input_def require_def lt split: option.splits)
qed

lemma put_back_spec:
  assumes "utxo_ok hf l" and "hamt_map hf l t = Some u" and "fsa_wf u'"
  shows "\<exists>l'. utxo_put_back hf l t u' r = Ok (l', r) \<and> utxo_ok hf l'
    \<and> utxo_map hf l' = (\<lambda>(t', i). if t' = t then fsa_map u' i else utxo_map hf l (t', i))"
proof (cases "fsa_is_empty u'")
  case True
  obtain l' where l': "hamt_remove hf l t = Ok l'" "hamt_ok hf l'" "hamt_map hf l' = (hamt_map hf l)(t := None)"
    using hamt_remove_ok [OF utxo_okD(1) [OF assms(1)], of t] assms(2) by auto
  have "fsa_map u' = Map.empty" using True fsa.empty_alpha [OF assms(3)] by simp
  then show ?thesis
    using True l' utxo_ok_upd [OF assms(1) l'(2,3)] utxo_map_upd [OF l'(3)] by (auto simp: utxo_put_back_def)
next
  case False
  obtain l' where l': "hamt_replace hf l t u' = Ok (l', u)" "hamt_ok hf l'" "hamt_map hf l' = (hamt_map hf l)(t \<mapsto> u')"
    using hamt_replace_ok [OF utxo_okD(1) [OF assms(1)], of t u'] assms(2) by auto
  have "unspents_ok u'" using False fsa.empty_alpha [OF assms(3)] assms(3) by (simp add: unspents_ok_def)
  then show ?thesis
    using False l' utxo_ok_upd [OF assms(1) l'(2,3)] utxo_map_upd [OF l'(3)] by (auto simp: utxo_put_back_def)
qed

section \<open>Functional behaviour of the ledger operations\<close>

lemma utxo_lookup: "utxo_ok hf l \<Longrightarrow> hamt_lookup hf l t = Ok (hamt_map hf l t)"
  by (simp add: pm.lookup_alpha utxo_okD(1))

lemma utxo_get_spec:
  assumes "utxo_ok hf l"
  shows "utxo_get hf l t i
    = Ok (map_option (\<lambda>x. \<lparr>fragment_id = t, output_index = i, entry_output = x\<rparr>) (utxo_map hf l (t, i)))"
  using utxo_okD(2) [OF assms, of t]
  by (auto simp: utxo_get_def utxo_lookup [OF assms] utxo_map_def fsa_get_map split: option.splits)

lemma utxo_add_spec:
  assumes "utxo_ok hf l"
  shows "if outs = [] \<or> 255 \<le> length outs then utxo_add hf l t outs = Panic
    else if \<exists>i. utxo_map hf l (t, i) \<noteq> None then utxo_add hf l t outs = Err AlreadyExists
    else \<exists>l'. utxo_add hf l t outs = Ok l'
      \<and> utxo_map hf l' = (\<lambda>(t', i). if t' = t then map_of (rev outs) i else utxo_map hf l (t', i))
      \<and> (hash_fresh hf l t \<longrightarrow> utxo_ok hf l')"
proof (cases "outs = [] \<or> 255 \<le> length outs")
  case True
  then show ?thesis by (auto simp: utxo_add_def require_def)
next
  case False
  obtain u where u: "from_outputs outs = Ok u" "fsa_wf u" "fsa_map u = map_of (rev outs)"
    using from_outputs_spec [of outs] False by auto
  have "unspents_ok u" using u False by (simp add: unspents_ok_def)
  have add: "utxo_add hf l t outs = map_err (\<lambda>_. AlreadyExists) (hamt_insert hf l t u)"
    using False u by (simp add: utxo_add_def require_def)
  show ?thesis
  proof (cases "hamt_map hf l t")
    case None
    obtain l' where l': "hamt_insert hf l t u = Ok l'" "hamt_map hf l' = (hamt_map hf l)(t \<mapsto> u)"
      "hash_fresh hf l t \<longrightarrow> hamt_ok hf l'"
      using pm.ins_new [OF utxo_okD(1) [OF assms] None] by blast
    have "utxo_map hf l' = (\<lambda>(t', i). if t' = t then map_of (rev outs) i else utxo_map hf l (t', i))"
      using utxo_map_upd [OF l'(2)] u(3) by (auto simp: fun_eq_iff)
    moreover have "hash_fresh hf l t \<longrightarrow> utxo_ok hf l'"
      using utxo_ok_upd [OF assms _ l'(2)] l'(3) \<open>unspents_ok u\<close> by simp
    moreover have "\<not> (\<exists>i. utxo_map hf l (t, i) \<noteq> None)" using None by (simp add: utxo_map_def)
    ultimately show ?thesis using False l'(1) add by simp
  next
    case (Some w)
    then have "\<exists>i. utxo_map hf l (t, i) \<noteq> None" using utxo_present_iff [OF assms, of t] by blast
    moreover have "utxo_add hf l t outs = Err AlreadyExists"
      using add pm.ins_old [OF utxo_okD(1) [OF assms] Some] by simp
    ultimately show ?thesis using False by simp
  qed
qed

lemma utxo_remove_spec:
  assumes "utxo_ok hf l"
  shows "if \<forall>i. utxo_map hf l (t, i) = None then utxo_remove hf l t index = Err TransactionNotFound
    else if index = 255 then utxo_remove hf l t index = Panic
    else (case utxo_map hf l (t, index) of
        None \<Rightarrow> utxo_remove hf l t index = Err IndexNotFound
      | Some x \<Rightarrow> \<exists>l'. utxo_remove hf l t index = Ok (l', x) \<and> utxo_ok hf l'
          \<and> utxo_map hf l' = (utxo_map hf l)((t, index) := None))"
proof (cases "hamt_map hf l t")
  case None
  then show ?thesis by (simp add: utxo_remove_def utxo_lookup [OF assms] utxo_map_def)
next
  case (Some u)
  have present: "\<not> (\<forall>i. utxo_map hf l (t, i) = None)" using utxo_present_iff [OF assms, of t] Some by auto
  have um: "utxo_map hf l (t, i) = fsa_map u i" for i using Some by (simp add: utxo_map_def)
  note wf = utxo_okD(2) [OF assms Some] and ri = remove_input_spec [OF utxo_okD(2) [OF assms Some], of index]
  show ?thesis
  proof (cases "index = 255 \<or> fsa_map u index = None")
    case True
    have "utxo_remove hf l t index = obind (remove_input u index) (\<lambda>(treemap, output). utxo_put_back hf l t treemap output)"
      using Some by (simp add: utxo_remove_def utxo_lookup [OF assms])
    moreover have "remove_input u index = (if index = 255 then Panic else Err IndexNotFound)"
      using ri True by (simp split: if_splits)
    ultimately show ?thesis using True present by (cases "index = 255") (simp_all add: um)
  next
    case False
    then obtain x u' where x: "fsa_map u index = Some x" "remove_input u index = Ok (u', x)" "fsa_wf u'"
      "fsa_map u' = (fsa_map u)(index := None)"
      using ri by auto
    obtain l' where l': "utxo_put_back hf l t u' x = Ok (l', x)" "utxo_ok hf l'"
      "utxo_map hf l' = (\<lambda>(t', i). if t' = t then fsa_map u' i else utxo_map hf l (t', i))"
      using put_back_spec [OF assms Some x(3), of x] by blast
    have "utxo_map hf l' = (utxo_map hf l)((t, index) := None)"
      using l'(3) x(4) um by (auto simp: fun_eq_iff)
    with False present x l' Some um show ?thesis
      by (simp add: utxo_remove_def utxo_lookup [OF assms] del: not_None_eq)
  qed
qed

lemma remove_inputs_spec:
  assumes "fsa_wf u"
  shows "case remove_inputs u js of
      Ok (u', xs) \<Rightarrow> distinct js \<and> 255 \<notin> set js \<and> map (fsa_map u) js = map Some xs
        \<and> fsa_wf u' \<and> fsa_map u' = fsa_map u |` (- set js)
    | Err e \<Rightarrow> e = IndexNotFound \<and> \<not> (distinct js \<and> set js \<subseteq> dom (fsa_map u))
    | Panic \<Rightarrow> 255 \<in> set js"
  using assms
proof (induction js arbitrary: u)
  case Nil
  then show ?case by (simp add: restrict_map_def)
next
  case (Cons j js)
  note ri = remove_input_spec [OF Cons.prems, of j]
  show ?case
  proof (cases "j = 255 \<or> fsa_map u j = None")
    case True
    with ri show ?thesis by (auto split: if_splits)
  next
    case False
    then obtain x u1 where x: "fsa_map u j = Some x" "remove_input u j = Ok (u1, x)" "fsa_wf u1"
      "fsa_map u1 = (fsa_map u)(j := None)"
      using ri by auto
    show ?thesis
    proof (cases "remove_inputs u1 js")
      case (Ok r)
      then obtain u' xs where r: "remove_inputs u1 js = Ok (u', xs)" by (cases r) simp
      note IH = Cons.IH [OF x(3), unfolded r]
      have "j \<notin> set js"
      proof
        assume "j \<in> set js"
        then have "fsa_map u1 j \<in> set (map (fsa_map u1) js)" by simp
        also have "map (fsa_map u1) js = map Some xs" using IH by simp
        finally show False using x(4) by auto
      qed
      moreover have "map (fsa_map u1) js = map (fsa_map u) js" using x(4) calculation by auto
      moreover have "fsa_map u' = fsa_map u |` (- set (j # js))"
        using IH x(4) by (auto simp: restrict_map_def fun_eq_iff)
      ultimately show ?thesis using IH r x False by simp
    next
      case (Err e)
      then have "e = IndexNotFound" and no: "\<not> (distinct js \<and> set js \<subseteq> dom (fsa_map u1))"
        using Cons.IH [OF x(3)] by simp_all
      from no x(4) have "\<not> (distinct (j # js) \<and> set (j # js) \<subseteq> dom (fsa_map u))" by auto
      with Err x \<open>e = IndexNotFound\<close> show ?thesis by simp
    next
      case Panic
      then show ?thesis using Cons.IH [OF x(3)] x by simp
    qed
  qed
qed

lemma utxo_remove_multiple_spec:
  assumes "utxo_ok hf l"
  shows "case utxo_remove_multiple hf l t js of
      Ok (l', xs) \<Rightarrow> (\<exists>i. utxo_map hf l (t, i) \<noteq> None) \<and> distinct js \<and> 255 \<notin> set js
        \<and> map (\<lambda>j. utxo_map hf l (t, j)) js = map Some xs \<and> utxo_ok hf l'
        \<and> utxo_map hf l' = utxo_map hf l |` (- (Pair t ` set js))
    | Err TransactionNotFound \<Rightarrow> \<forall>i. utxo_map hf l (t, i) = None
    | Err e \<Rightarrow> e = IndexNotFound \<and> (\<exists>i. utxo_map hf l (t, i) \<noteq> None)
        \<and> \<not> (distinct js \<and> (\<forall>j \<in> set js. utxo_map hf l (t, j) \<noteq> None))
    | Panic \<Rightarrow> (\<exists>i. utxo_map hf l (t, i) \<noteq> None) \<and> 255 \<in> set js"
proof (cases "hamt_map hf l t")
  case None
  then show ?thesis by (simp add: utxo_remove_multiple_def utxo_lookup [OF assms] utxo_map_def)
next
  case (Some u)
  have um: "utxo_map hf l (t, i) = fsa_map u i" for i using Some by (simp add: utxo_map_def)
  have ex: "\<exists>i. utxo_map hf l (t, i) \<noteq> None" using utxo_present_iff [OF assms, of t] Some by auto
  note spec = remove_inputs_spec [OF utxo_okD(2) [OF assms Some], of js]
  show ?thesis
  proof (cases "remove_inputs u js")
    case (Ok r)
    then obtain u' xs where r: "remove_inputs u js = Ok (u', xs)" by (cases r) simp
    obtain l' where l': "utxo_put_back hf l t u' xs = Ok (l', xs)" "utxo_ok hf l'"
      "utxo_map hf l' = (\<lambda>(t', i). if t' = t then fsa_map u' i else utxo_map hf l (t', i))"
      using put_back_spec [OF assms Some, of u' xs] spec r by auto
    have "utxo_map hf l' = utxo_map hf l |` (- (Pair t ` set js))"
      using l'(3) spec r um by (auto simp: restrict_map_def fun_eq_iff)
    moreover have "utxo_remove_multiple hf l t js = Ok (l', xs)"
      using Some r l'(1) by (simp add: utxo_remove_multiple_def utxo_lookup [OF assms])
    ultimately show ?thesis using l'(2) spec r ex um by simp
  next
    case (Err e)
    then have "utxo_remove_multiple hf l t js = Err e"
      using Some by (simp add: utxo_remove_multiple_def utxo_lookup [OF assms])
    moreover have "e = IndexNotFound" "\<not> (distinct js \<and> set js \<subseteq> dom (fsa_map u))" using spec Err by simp_all
    ultimately show ?thesis using um ex by (auto simp: dom_def subset_iff)
  next
    case Panic
    then show ?thesis using Some spec ex by (simp add: utxo_remove_multiple_def utxo_lookup [OF assms])
  qed
qed

section \<open>Total value\<close>

definition utxo_total :: "'i hasher \<Rightarrow> ('i, 'a) utxo_ledger \<Rightarrow> nat" where
  "utxo_total hf l = (\<Sum>p \<in> dom (utxo_map hf l). coins (out_value (the (utxo_map hf l p))))"

lemma utxo_dom_finite: "utxo_ok hf l \<Longrightarrow> finite (dom (utxo_map hf l))"
proof (rule finite_subset)
  show "dom (utxo_map hf l) \<subseteq> dom (hamt_map hf l) \<times> UNIV" by (auto simp: utxo_map_def split: option.splits)
  show "utxo_ok hf l \<Longrightarrow> finite (dom (hamt_map hf l) \<times> (UNIV :: u8 set))"
    using pm.finite_dom [of hf l] utxo_okD(1) [of hf l] by simp
qed

lemma utxo_total_remove:
  assumes "utxo_ok hf l" and "utxo_map hf l p = Some x" and "utxo_map hf l' = (utxo_map hf l)(p := None)"
  shows "utxo_total hf l = utxo_total hf l' + coins (out_value x)"
  using sum_map_remove [OF utxo_dom_finite [OF assms(1)] assms(2), of "\<lambda>x. coins (out_value x)"] assms(3)
  by (simp add: utxo_total_def)

lemma utxo_total_add:
  assumes "utxo_ok hf l" and "\<forall>i. utxo_map hf l (t, i) = None" and "distinct (map fst outs)"
    and "utxo_map hf l' = (\<lambda>(t', i). if t' = t then map_of (rev outs) i else utxo_map hf l (t', i))"
  shows "utxo_total hf l' = utxo_total hf l + coin_total (map (out_value \<circ> snd) outs)"
proof -
  let ?new = "map (\<lambda>(i, x). ((t, i), x)) outs"
  have d: "distinct (map fst ?new)"
    using assms(3) by (simp add: comp_def case_prod_beta distinct_map inj_on_def)
  have rev_eq: "map_of (rev outs) = map_of outs"
    using assms(3) map_of_inject_set [of "rev outs" outs] by (simp add: rev_map [symmetric])
  have at: "map_of ?new (t', i) = (if t' = t then map_of outs i else None)" for t' i
    by (induction outs) auto
  have eq: "utxo_map hf l' = utxo_map hf l ++ map_of ?new"
    unfolding assms(4) rev_eq using assms(2) by (auto simp: fun_eq_iff map_add_def at split: option.splits)
  have "dom (utxo_map hf l) \<inter> dom (map_of ?new) = {}"
    using assms(2) at by (auto simp: dom_def split: if_splits)
  from sum_map_union [OF utxo_dom_finite [OF assms(1)] finite_dom_map_of this, of "\<lambda>x. coins (out_value x)"]
  have "utxo_total hf l' = utxo_total hf l + (\<Sum>(p, x) \<leftarrow> ?new. coins (out_value x))"
    using sum_map_of [OF d, of "\<lambda>x. coins (out_value x)"] by (simp add: utxo_total_def eq)
  then show ?thesis by (simp add: coin_total_def comp_def case_prod_beta)
qed

section \<open>Iteration\<close>

definition drained :: "'i \<Rightarrow> 'a tx_output fast_sparse_array_iter \<Rightarrow> ('i, 'a) utxo_entry list" where
  "drained t it = map (\<lambda>j. \<lparr>fragment_id = t, output_index = of_nat j,
     entry_output = the (fsa_map (fsai_array it) (of_nat j))\<rparr>) (bm_elems (fsai_bitmap it))"

definition utxo_pending :: "('i, 'a) utxo_iter \<Rightarrow> ('i, 'a) utxo_entry list" where
  "utxo_pending it = (case ui_unspents it of None \<Rightarrow> [] | Some (t, u) \<Rightarrow> drained t u)
     @ concat (map (\<lambda>(t, u). drained t (fsa_iter u)) (pending (ui_hamt it)))"

definition fsai_ok :: "'v fast_sparse_array_iter \<Rightarrow> bool" where
  "fsai_ok it \<longleftrightarrow> fsa_wf (fsai_array it) \<and> set (bm_elems (fsai_bitmap it)) \<subseteq> set (bm_elems (fsa_index (fsai_array it)))"

definition ui_ok :: "('i, 'a) utxo_iter \<Rightarrow> bool" where
  "ui_ok it \<longleftrightarrow> (\<forall>(t, u) \<in> set (pending (ui_hamt it)). fsa_wf u)
     \<and> (case ui_unspents it of None \<Rightarrow> True | Some (t, u) \<Rightarrow> fsai_ok u)"

lemma fsa_iter_next_drained:
  assumes "fsai_ok it"
  shows "case drained t it of
      [] \<Rightarrow> fsa_iter_next it = Ok (None, it)
    | e # es \<Rightarrow> \<exists>it'. fsa_iter_next it = Ok (Some (output_index e, entry_output e), it') \<and> fragment_id e = t
        \<and> drained t it' = es \<and> fsai_ok it'"
proof (cases "bm_elems (fsai_bitmap it)")
  case Nil
  then show ?thesis by (simp add: drained_def fsa_iter_next_def bm_first)
next
  case (Cons j js)
  have j: "j \<in> set (bm_elems (fsa_index (fsai_array it)))" "j < 256"
    using assms Cons bm_elems_less [of j "fsai_bitmap it"] by (auto simp: fsai_ok_def)
  have wf: "fsa_wf (fsai_array it)" using assms by (simp add: fsai_ok_def)
  obtain v where v: "fsa_map (fsai_array it) (of_nat j) = Some v"
    using fsa_map_None [OF wf, of "of_nat j"] j by (auto simp: unat_of_nat_id)
  show ?thesis
    using Cons v assms bm_elems_tl [OF Cons] by (auto simp: drained_def fsa_iter_next_def bm_first fsa_get_map [OF wf] fsai_ok_def)
qed

lemma utxo_iter_next_pending:
  assumes "ui_ok it"
  shows "case utxo_iter_next it of
      Ok (None, _) \<Rightarrow> utxo_pending it = []
    | Ok (Some e, it') \<Rightarrow> utxo_pending it = e # utxo_pending it' \<and> ui_ok it'
    | _ \<Rightarrow> False"
  using assms
proof (induction it rule: utxo_iter_next.induct)
  case (1 it)
  note unf = utxo_iter_next.simps [of it]
  show ?case
  proof (cases "ui_unspents it")
    case None
    show ?thesis
    proof (cases "hamt_iter_next (ui_hamt it)")
      case (Pair p h)
      show ?thesis
      proof (cases p)
        case None
        then show ?thesis
          using hamt_iter_next_pending [of "ui_hamt it"] Pair \<open>ui_unspents it = None\<close> by (simp add: unf utxo_pending_def)
      next
        case (Some tu)
        obtain t u where tu: "tu = (t, u)" by (cases tu)
        let ?it' = "\<lparr>ui_hamt = h, ui_unspents = Some (t, fsa_iter u)\<rparr>"
        have pend: "pending (ui_hamt it) = (t, u) # pending h"
          using hamt_iter_next_pending [of "ui_hamt it"] Pair Some tu by simp
        then have ok: "ui_ok ?it'" using "1.prems" by (auto simp: ui_ok_def fsai_ok_def fsa_iter_def)
        have e1: "utxo_iter_next it = utxo_iter_next ?it'" using Pair Some tu None by (simp add: unf)
        have e2: "utxo_pending it = utxo_pending ?it'" using pend None by (simp add: utxo_pending_def)
        show ?thesis unfolding e1 e2 by (rule "1.IH"(1) [OF None Pair [symmetric] Some tu [symmetric] ok])
      qed
    qed
  next
    case (Some cur)
    obtain t o' where cur: "cur = (t, o')" by (cases cur)
    have ok: "fsai_ok o'" using "1.prems" Some cur by (simp add: ui_ok_def)
    note nxt = fsa_iter_next_drained [OF ok, of t]
    show ?thesis
    proof (cases "drained t o'")
      case Nil
      let ?it' = "it\<lparr>ui_unspents := None\<rparr>"
      have r: "fsa_iter_next o' = (Ok (None, o') :: (utxo_error, _) outcome)" using fsa_iter_next_drained [OF ok, of t] Nil by simp
      have ok': "ui_ok ?it'" using "1.prems" by (simp add: ui_ok_def)
      have e1: "utxo_iter_next it = utxo_iter_next ?it'" using Some cur r by (simp add: unf)
      have e2: "utxo_pending it = utxo_pending ?it'" using Some cur Nil by (simp add: utxo_pending_def)
      show ?thesis unfolding e1 e2 by (rule "1.IH"(2) [OF Some cur [symmetric] r refl refl ok'])
    next
      case (Cons e es)
      obtain o'' where "fsa_iter_next o' = (Ok (Some (output_index e, entry_output e), o'') :: (utxo_error, _) outcome)"
        "fragment_id e = t" "drained t o'' = es" "fsai_ok o''"
        using fsa_iter_next_drained [OF ok, of t] Cons by auto
      then show ?thesis using Some cur Cons "1.prems" by (auto simp: unf utxo_pending_def ui_ok_def)
    qed
  qed
qed

text \<open>The first \<open>n\<close> results of the iterators, fewer if they end before.\<close>

primrec utxo_iter_take :: "nat \<Rightarrow> ('i, 'a) utxo_iter \<Rightarrow> (utxo_error, ('i, 'a) utxo_entry list) outcome" where
  "utxo_iter_take 0 it = Ok []"
| "utxo_iter_take (Suc n) it =
     obind (utxo_iter_next it) (\<lambda>(x, it').
       case x of None \<Rightarrow> Ok [] | Some e \<Rightarrow> omap ((#) e) (utxo_iter_take n it'))"

primrec utxo_values_take :: "nat \<Rightarrow> ('i, 'a) utxo_values \<Rightarrow> (utxo_error, 'a tx_output list) outcome" where
  "utxo_values_take 0 it = Ok []"
| "utxo_values_take (Suc n) it =
     obind (utxo_values_next it) (\<lambda>(x, it').
       case x of None \<Rightarrow> Ok [] | Some e \<Rightarrow> omap ((#) e) (utxo_values_take n it'))"

lemma utxo_iter_take_pending: "ui_ok it \<Longrightarrow> utxo_iter_take n it = Ok (take n (utxo_pending it))"
proof (induction n arbitrary: it)
  case (Suc n)
  note nxt = utxo_iter_next_pending [OF Suc.prems]
  then obtain x it' where x: "utxo_iter_next it = Ok (x, it')" by (auto split: outcome.splits)
  show ?case
  proof (cases x)
    case None
    with nxt x show ?thesis by simp
  next
    case (Some e)
    with nxt x have "utxo_pending it = e # utxo_pending it'" "ui_ok it'" by simp_all
    with Suc.IH x Some show ?thesis by simp
  qed
qed simp

text \<open>The iterator over values makes the same steps and drops the pointers.\<close>

definition values_of :: "('i, 'a) utxo_iter \<Rightarrow> ('i, 'a) utxo_values" where
  "values_of it = \<lparr>uv_hamt = ui_hamt it, uv_unspents = map_option snd (ui_unspents it)\<rparr>"

lemma values_of_simps [simp]:
  "uv_hamt (values_of it) = ui_hamt it" "uv_unspents (values_of it) = map_option snd (ui_unspents it)"
  "values_of \<lparr>ui_hamt = h, ui_unspents = x\<rparr> = \<lparr>uv_hamt = h, uv_unspents = map_option snd x\<rparr>"
  "values_of (it\<lparr>ui_unspents := x\<rparr>) = (values_of it)\<lparr>uv_unspents := map_option snd x\<rparr>"
  "values_of (it\<lparr>ui_hamt := h\<rparr>) = (values_of it)\<lparr>uv_hamt := h\<rparr>"
  by (simp_all add: values_of_def)

lemma utxo_values_next_sim:
  "utxo_values_next (values_of it) = omap (map_prod (map_option entry_output) values_of) (utxo_iter_next it)"
proof (induction it rule: utxo_iter_next.induct)
  case (1 it)
  note unf = utxo_iter_next.simps [of it] utxo_values_next.simps [of "values_of it"]
  show ?case
  proof (cases "ui_unspents it")
    case None
    show ?thesis
    proof (cases "hamt_iter_next (ui_hamt it)")
      case (Pair p h)
      show ?thesis
        using "1.IH"(1) [OF None Pair [symmetric]] Pair None by (cases p) (auto simp: unf)
    qed
  next
    case (Some cur)
    obtain t o' where cur: "cur = (t, o')" by (cases cur)
    show ?thesis
    proof (cases "fsa_iter_next o' :: (utxo_error, _) outcome")
      case (Ok r)
      then show ?thesis
        using "1.IH"(2) [OF Some cur [symmetric], of r] Some cur
        by (cases r; cases "fst r") (auto simp: unf)
    qed (use Some cur in \<open>auto simp: unf\<close>)
  qed
qed

lemma utxo_values_take_sim: "utxo_values_take n (values_of it) = omap (map entry_output) (utxo_iter_take n it)"
proof (induction n arbitrary: it)
  case (Suc n)
  show ?case
  proof (cases "utxo_iter_next it")
    case (Ok r)
    obtain x it' where "r = (x, it')" by (cases r)
    then show ?thesis using Ok Suc
      by (cases x) (simp_all add: utxo_values_next_sim outcome_push comp_def)
  qed (simp_all add: utxo_values_next_sim)
qed simp

definition entry_binding :: "('i, 'a) utxo_entry \<Rightarrow> ('i \<times> u8) \<times> 'a tx_output" where
  "entry_binding e = ((fragment_id e, output_index e), entry_output e)"

text \<open>The bindings of one transaction.\<close>

lemma drained_bindings:
  fixes u :: "'b unspents"
  assumes "fsa_wf u"
  shows "distinct (map (fst \<circ> entry_binding) (drained t (fsa_iter u)))"
    and "((t', i), x) \<in> entry_binding ` set (drained t (fsa_iter u)) \<longleftrightarrow> t' = t \<and> fsa_map u i = Some x"
proof -
  let ?es = "map (\<lambda>j. (of_nat j :: u8, the (fsa_map u (of_nat j)))) (bm_elems (fsa_index u))"
  have d: "distinct (map fst ?es)" "map_of ?es = fsa_map u |` {i. unat i \<in> set (bm_elems (fsa_index u))}"
    using drain_bitmap(2,3) [of "fsa_index u", OF refl, of "fsa_map u"] fsa_map_None [OF assms] by auto
  have "fsa_map u |` {i. unat i \<in> set (bm_elems (fsa_index u))} = fsa_map u"
    by (rule ext) (simp add: restrict_map_def fsa_map_None [OF assms, THEN iffD2])
  then have "map_of ?es = fsa_map u" using d(2) by (simp only:)
  then have mem: "(i, x) \<in> set ?es \<longleftrightarrow> fsa_map u i = Some x"
    unfolding map_of_eq_Some_iff [OF d(1), symmetric] by (simp only:)
  have eq: "map entry_binding (drained t (fsa_iter u)) = map (\<lambda>(i, x). ((t, i), x)) ?es"
    by (simp add: drained_def fsa_iter_def entry_binding_def)
  have "map (fst \<circ> entry_binding) (drained t (fsa_iter u)) = map fst (map entry_binding (drained t (fsa_iter u)))" by simp
  also have "\<dots> = map (Pair t) (map fst ?es)" unfolding eq by simp
  finally show "distinct (map (fst \<circ> entry_binding) (drained t (fsa_iter u)))"
    using d(1) by (simp add: distinct_map inj_on_def)
  have img: "((t', i), x) \<in> (\<lambda>(i, x). ((t, i), x)) ` S \<longleftrightarrow> t' = t \<and> (i, x) \<in> S" for S :: "(u8 \<times> 'b tx_output) set"
    by auto
  have "entry_binding ` set (drained t (fsa_iter u)) = (\<lambda>(i, x). ((t, i), x)) ` set ?es"
    by (simp only: set_map [symmetric] eq)
  then show "((t', i), x) \<in> entry_binding ` set (drained t (fsa_iter u)) \<longleftrightarrow> t' = t \<and> fsa_map u i = Some x"
    by (simp only: img mem)
qed

lemma concat_drained_distinct:
  assumes "distinct (map fst ps)" and "\<And>t u. (t, u) \<in> set ps \<Longrightarrow> fsa_wf u"
  shows "distinct (map (fst \<circ> entry_binding) (concat (map (\<lambda>(t, u). drained t (fsa_iter u)) ps)))"
  using assms
proof (induction ps)
  case (Cons p ps)
  obtain t u where p: "p = (t, u)" by (cases p)
  have out: "fragment_id e \<noteq> t" if "e \<in> set (concat (map (\<lambda>(t, u). drained t (fsa_iter u)) ps))" for e
    using that Cons.prems(1) p by (force simp: drained_def)
  have "fst (entry_binding e) = (fragment_id e, output_index e)" for e :: "('a, 'b) utxo_entry"
    by (simp add: entry_binding_def)
  then have disj: "set (map (fst \<circ> entry_binding) (drained t (fsa_iter u)))
      \<inter> set (map (fst \<circ> entry_binding) (concat (map (\<lambda>(t, u). drained t (fsa_iter u)) ps))) = {}"
    using out by (fastforce simp: drained_def)
  have "fsa_wf u" using Cons.prems(2) [of t u] p by simp
  then have "distinct (map (fst \<circ> entry_binding) (drained t (fsa_iter u)))" by (rule drained_bindings)
  moreover have "distinct (map (fst \<circ> entry_binding) (concat (map (\<lambda>(t, u). drained t (fsa_iter u)) ps)))"
    by (rule Cons.IH) (use Cons.prems in auto)
  ultimately show ?case using disj p by (simp only: list.map concat.simps map_append distinct_append prod.case)
qed simp

lemma utxo_pending_bindings:
  assumes "utxo_ok hf l"
  defines "es \<equiv> utxo_pending (utxo_iter_start l)"
  shows "ui_ok (utxo_iter_start l)" and "distinct (map (fst \<circ> entry_binding) es)"
    and "map_of (map entry_binding es) = utxo_map hf l"
proof -
  have wf: "hamt_wf hf l" using utxo_okD(1) [OF assms(1)] by (simp add: hamt_ok_def)
  have pend: "pending (hamt_iter_start l) = hamt_iter l" by (simp add: hamt_iter_def iter_collect_pending)
  have mem: "(t, u) \<in> set (hamt_iter l) \<longleftrightarrow> hamt_map hf l t = Some u" for t u
    using map_of_eq_Some_iff [OF hamt_iter_map(1) [OF wf], of t u] hamt_iter_map(2) [OF wf] by simp
  have arr: "(t, u) \<in> set (hamt_iter l) \<Longrightarrow> fsa_wf u" for t u
    using utxo_okD(2) [OF assms(1)] mem by blast
  then show "ui_ok (utxo_iter_start l)" by (auto simp: ui_ok_def utxo_iter_start_def pend)
  have es: "es = concat (map (\<lambda>(t, u). drained t (fsa_iter u)) (hamt_iter l))"
    by (simp add: es_def utxo_pending_def utxo_iter_start_def pend)
  show d: "distinct (map (fst \<circ> entry_binding) es)"
    unfolding es using hamt_iter_map(1) [OF wf] arr by (rule concat_drained_distinct)
  have "(p, x) \<in> set (map entry_binding es) \<longleftrightarrow> utxo_map hf l p = Some x" for p x
  proof -
    obtain t i where p: "p = (t, i)" by (cases p)
    have "(p, x) \<in> set (map entry_binding es)
        \<longleftrightarrow> (\<exists>(t', u) \<in> set (hamt_iter l). ((t, i), x) \<in> entry_binding ` set (drained t' (fsa_iter u)))"
      by (auto simp: es p)
    also have "\<dots> \<longleftrightarrow> (\<exists>(t', u) \<in> set (hamt_iter l). t = t' \<and> fsa_map u i = Some x)"
    proof (rule bex_cong [OF refl])
      fix q assume q: "q \<in> set (hamt_iter l)"
      obtain t' u where tu: "q = (t', u)" by (cases q)
      show "(case q of (t', u) \<Rightarrow> ((t, i), x) \<in> entry_binding ` set (drained t' (fsa_iter u)))
          \<longleftrightarrow> (case q of (t', u) \<Rightarrow> t = t' \<and> fsa_map u i = Some x)"
        using drained_bindings(2) [OF arr, of t' u t i x t'] q tu by simp
    qed
    also have "\<dots> \<longleftrightarrow> (\<exists>u. hamt_map hf l t = Some u \<and> fsa_map u i = Some x)" using mem by auto
    also have "\<dots> \<longleftrightarrow> utxo_map hf l p = Some x" by (auto simp: utxo_map_def p split: option.splits)
    finally show ?thesis .
  qed
  moreover have "distinct (map fst (map entry_binding es))" using d by simp
  ultimately have "map_of (map entry_binding es) p = Some x \<longleftrightarrow> utxo_map hf l p = Some x" for p x
    using map_of_eq_Some_iff [of "map entry_binding es" p x] by simp
  then show "map_of (map entry_binding es) = utxo_map hf l" by (intro ext) (metis not_None_eq)
qed

section \<open>Iterating to the end\<close>

text \<open>
  A \<open>for\<close> loop over an iterator, as a list. A fragment has at most 256 outputs, which bounds the
  number of calls to \<open>next\<close>; that the bound is never reached early is \<open>utxo_entries_complete\<close>.
\<close>

definition utxo_entries :: "('i, 'a) utxo_ledger \<Rightarrow> (utxo_error, ('i, 'a) utxo_entry list) outcome" where
  "utxo_entries l = utxo_iter_take (256 * length (hamt_iter l)) (utxo_iter_start l)"

definition utxo_all_values :: "('i, 'a) utxo_ledger \<Rightarrow> (utxo_error, 'a tx_output list) outcome" where
  "utxo_all_values l = utxo_values_take (256 * length (hamt_iter l)) (utxo_values_start l)"

lemma utxo_dom_bound:
  assumes "utxo_ok hf l"
  shows "card (dom (utxo_map hf l)) \<le> 256 * length (hamt_iter l)"
proof -
  note ok = utxo_okD(1) [OF assms]
  have fin: "finite (dom (hamt_map hf l))" by (rule pm.finite_dom [OF ok])
  have "dom (utxo_map hf l) \<subseteq> dom (hamt_map hf l) \<times> UNIV" by (auto simp: utxo_map_def split: option.splits)
  then have "card (dom (utxo_map hf l)) \<le> card (dom (hamt_map hf l) \<times> (UNIV :: u8 set))"
    using fin by (intro card_mono) auto
  also have "\<dots> = card (dom (hamt_map hf l)) * 256" by (simp add: card_cartesian_product card_word)
  also have "card (dom (hamt_map hf l)) = length (hamt_iter l)"
    using pm.entries_keys [OF ok] pm.entries_alpha [OF ok]
    by (metis dom_map_of_conv_image_fst distinct_card length_map set_map)
  finally show ?thesis by (simp add: mult.commute)
qed

lemma utxo_entries_complete:
  assumes "utxo_ok hf l"
  shows "\<exists>es. utxo_entries l = Ok es \<and> utxo_all_values l = Ok (map entry_output es)
    \<and> distinct (map (fst \<circ> entry_binding) es) \<and> map_of (map entry_binding es) = utxo_map hf l
    \<and> coin_total (map (out_value \<circ> entry_output) es) = utxo_total hf l"
proof -
  let ?es = "utxo_pending (utxo_iter_start l)"
  note b = utxo_pending_bindings [OF assms]
  have d: "distinct (map fst (map entry_binding ?es))" using b(2) by simp
  have "length ?es = card (set (map fst (map entry_binding ?es)))" using distinct_card [OF d] by simp
  also have "\<dots> = card (dom (utxo_map hf l))" using b(3) by (metis dom_map_of_conv_image_fst set_map)
  also have "\<dots> \<le> 256 * length (hamt_iter l)" by (rule utxo_dom_bound [OF assms])
  finally have "take (256 * length (hamt_iter l)) ?es = ?es" by simp
  then have "utxo_entries l = Ok ?es" and "utxo_all_values l = Ok (map entry_output ?es)"
    using utxo_iter_take_pending [OF b(1)] utxo_values_take_sim [of _ "utxo_iter_start l"]
    by (simp_all add: utxo_entries_def utxo_all_values_def utxo_values_start_def utxo_iter_start_def values_of_def)
  moreover have "coin_total (map (out_value \<circ> entry_output) ?es) = utxo_total hf l"
    using sum_map_of [OF d, of "\<lambda>x. coins (out_value x)"] b(3)
    by (simp add: utxo_total_def coin_total_def comp_def entry_binding_def split_def)
  ultimately show ?thesis using b(2,3) by blast
qed

section \<open>Sequences of ledger operations\<close>

datatype ('i, 'a) utxo_event =
    Created 'i "(transaction_index \<times> 'a tx_output) list"
  | Spent 'i transaction_index "'a tx_output"

inductive utxo_step :: "'i hasher \<Rightarrow> ('i, 'a) utxo_ledger \<Rightarrow> ('i, 'a) utxo_event \<Rightarrow> ('i, 'a) utxo_ledger \<Rightarrow> bool"
  for hf where
  step_add: "hash_fresh hf l t \<Longrightarrow> distinct (map fst outs) \<Longrightarrow> utxo_add hf l t outs = Ok l' \<Longrightarrow>
    utxo_step hf l (Created t outs) l'"
| step_spend: "utxo_remove hf l t i = Ok (l', x) \<Longrightarrow> utxo_step hf l (Spent t i x) l'"

inductive utxo_run :: "'i hasher \<Rightarrow> ('i, 'a) utxo_ledger \<Rightarrow> ('i, 'a) utxo_event list \<Rightarrow> ('i, 'a) utxo_ledger \<Rightarrow> bool"
  for hf where
  run_nil: "utxo_run hf l [] l"
| run_cons: "utxo_step hf l e l' \<Longrightarrow> utxo_run hf l' es l'' \<Longrightarrow> utxo_run hf l (e # es) l''"

inductive_cases utxo_run_appendE: "utxo_run hf l (e # es) l''"
inductive_cases utxo_stepE: "utxo_step hf l e l'"

text \<open>The effect of one step on the outputs.\<close>

lemma utxo_step_effect:
  assumes "utxo_step hf l e l'" and "utxo_ok hf l"
  shows "utxo_ok hf l' \<and> (case e of
      Created t outs \<Rightarrow> (\<forall>i. utxo_map hf l (t, i) = None) \<and> distinct (map fst outs)
        \<and> utxo_map hf l' = (\<lambda>(t', i). if t' = t then map_of (rev outs) i else utxo_map hf l (t', i))
    | Spent t i x \<Rightarrow> utxo_map hf l (t, i) = Some x \<and> utxo_map hf l' = (utxo_map hf l)((t, i) := None))"
  using assms
proof (cases rule: utxo_step.cases)
  case (step_add t outs)
  then show ?thesis using utxo_add_spec [OF assms(2), of outs t] by (auto split: if_splits)
next
  case (step_spend t i x)
  then show ?thesis using utxo_remove_spec [OF assms(2), of t i] by (auto split: if_splits option.splits)
qed

fun created_value :: "('i, 'a) utxo_event \<Rightarrow> nat" where
  "created_value (Created t outs) = coin_total (map (out_value \<circ> snd) outs)"
| "created_value (Spent t i x) = 0"

fun spent_value :: "('i, 'a) utxo_event \<Rightarrow> nat" where
  "spent_value (Created t outs) = 0"
| "spent_value (Spent t i x) = coins (out_value x)"

lemma utxo_step_total:
  assumes "utxo_step hf l e l'" and "utxo_ok hf l"
  shows "utxo_total hf l' + spent_value e = utxo_total hf l + created_value e"
  using utxo_step_effect [OF assms] utxo_total_remove [OF assms(2)] utxo_total_add [OF assms(2)]
  by (cases e) auto

lemma utxo_run_ok: "utxo_run hf l es l' \<Longrightarrow> utxo_ok hf l \<Longrightarrow>
   utxo_ok hf l' \<and> utxo_total hf l' + sum_list (map spent_value es) = utxo_total hf l + sum_list (map created_value es)"
proof (induction rule: utxo_run.induct)
  case (run_cons l e l' es l'')
  have "utxo_ok hf l'" using utxo_step_effect [OF run_cons.hyps(1) run_cons.prems] by blast
  with run_cons.IH utxo_step_total [OF run_cons.hyps(1) run_cons.prems] show ?case by auto
qed simp

text \<open>An absent output stays absent unless it is created.\<close>

lemma utxo_run_absent:
  "utxo_run hf l es l' \<Longrightarrow> utxo_ok hf l \<Longrightarrow> utxo_map hf l (t, i) = None \<Longrightarrow>
   \<forall>outs. Created t outs \<in> set es \<longrightarrow> i \<notin> fst ` set outs \<Longrightarrow>
   utxo_map hf l' (t, i) = None \<and> (\<forall>x. Spent t i x \<notin> set es)"
proof (induction rule: utxo_run.induct)
  case (run_cons l e l' es l'')
  note eff = utxo_step_effect [OF run_cons.hyps(1) run_cons.prems(1)]
  have "utxo_map hf l' (t, i) = None"
  proof (cases e)
    case (Created t' outs)
    have "map_of (rev outs) i = None" if "t' = t"
      using run_cons.prems(3) Created that by (auto simp: map_of_eq_None_iff)
    with Created eff run_cons.prems(2) show ?thesis by auto
  next
    case (Spent t' i' x)
    with eff run_cons.prems(2) show ?thesis by simp
  qed
  moreover have "\<forall>x. e \<noteq> Spent t i x" using eff run_cons.prems(2) by auto
  ultimately show ?case using run_cons.IH eff run_cons.prems(3) by auto
qed simp

lemma utxo_run_append: "utxo_run hf l (es @ fs) l'' \<longleftrightarrow> (\<exists>l'. utxo_run hf l es l' \<and> utxo_run hf l' fs l'')"
proof (induction es arbitrary: l)
  case Nil
  then show ?case by (auto intro: run_nil elim: utxo_run.cases)
next
  case (Cons e es)
  then show ?case by (fastforce intro: run_cons elim!: utxo_run_appendE)
qed

text \<open>A ledger with one fragment and two outputs, and its first states.\<close>

abbreviation coin_out :: "nat \<Rightarrow> nat tx_output" where
  "coin_out n \<equiv> \<lparr>out_address = n, out_value = Value (of_nat n)\<rparr>"

definition sample_utxo :: "(u64, nat) utxo_ledger" where
  "sample_utxo = \<lparr>root = Node 128 [Leaf 7 7 \<lparr>fsa_index = BitmapIndex 3 0,
     fsa_data = \<lparr>sa_index = BitmapIndex 3 0, sa_data = [coin_out 10, coin_out 20]\<rparr>\<rparr>]\<rparr>"

lemma sample_utxo_add: "utxo_add (\<lambda>k. k) utxo_new 7 [(0, coin_out 10), (1, coin_out 20)] = Ok sample_utxo"
  by code_simp

lemma sample_utxo_step: "utxo_step (\<lambda>k. k) utxo_new (Created 7 [(0, coin_out 10), (1, coin_out 20)]) sample_utxo"
  using sample_utxo_add by (intro step_add) (simp_all add: utxo_new_def)

lemma sample_utxo_ok: "utxo_ok (\<lambda>k. k) sample_utxo"
  and sample_utxo_map: "utxo_map (\<lambda>k. k) sample_utxo
    = (\<lambda>(t, i). if t = 7 then map_of [(1, coin_out 20), (0, coin_out 10)] i else None)"
  using utxo_step_effect [OF sample_utxo_step utxo_new_ok(1)] by (simp_all add: fun_eq_iff)

section \<open>Properties\<close>

text \<open>
  Adding the outputs of a fragment: the call panics on no outputs or on 255 and more; a fragment
  that still has unspent outputs is refused; otherwise exactly the given outputs become unspent
  and everything else stays as it was.
\<close>

theorem utxo_add_correct:
  assumes "utxo_ok hf l"
  shows "if outs = [] \<or> 255 \<le> length outs then utxo_add hf l t outs = Panic
    else if \<exists>i. utxo_map hf l (t, i) \<noteq> None then utxo_add hf l t outs = Err AlreadyExists
    else \<exists>l'. utxo_add hf l t outs = Ok l'
      \<and> utxo_map hf l' = (\<lambda>(t', i). if t' = t then map_of (rev outs) i else utxo_map hf l (t', i))
      \<and> (hash_fresh hf l t \<longrightarrow> utxo_ok hf l')"
  by (rule utxo_add_spec [OF assms])

theorem utxo_add_correct_witness:
  "utxo_ok (\<lambda>k. k) sample_utxo \<and> utxo_add (\<lambda>k. k) sample_utxo 7 [(3, coin_out 5)] = Err AlreadyExists \<and>
   (\<exists>l'. utxo_add (\<lambda>k. k) sample_utxo 8 [(3, coin_out 5)] = Ok l' \<and> utxo_map (\<lambda>k. k) l' (8, 3) = Some (coin_out 5))"
  using utxo_add_correct [OF sample_utxo_ok, of "[(3, coin_out 5)]" 7]
    utxo_add_correct [OF sample_utxo_ok, of "[(3, coin_out 5)]" 8] sample_utxo_ok
  by (auto simp: sample_utxo_map split: if_splits)

text \<open>
  Spending one output: an unknown fragment and an unknown index are reported as such, index 255 is
  an assertion failure, and a successful spend returns the output that was there and removes it and
  nothing else.
\<close>

theorem utxo_remove_correct:
  assumes "utxo_ok hf l"
  shows "if \<forall>i. utxo_map hf l (t, i) = None then utxo_remove hf l t index = Err TransactionNotFound
    else if index = 255 then utxo_remove hf l t index = Panic
    else (case utxo_map hf l (t, index) of
        None \<Rightarrow> utxo_remove hf l t index = Err IndexNotFound
      | Some x \<Rightarrow> \<exists>l'. utxo_remove hf l t index = Ok (l', x) \<and> utxo_ok hf l'
          \<and> utxo_map hf l' = (utxo_map hf l)((t, index) := None))"
  by (rule utxo_remove_spec [OF assms])

theorem utxo_remove_correct_witness:
  "utxo_remove (\<lambda>k. k) sample_utxo 7 2 = Err IndexNotFound \<and>
   (\<exists>l'. utxo_remove (\<lambda>k. k) sample_utxo 7 1 = Ok (l', coin_out 20) \<and> utxo_map (\<lambda>k. k) l' (7, 1) = None)"
  using utxo_remove_correct [OF sample_utxo_ok, of 7 2] utxo_remove_correct [OF sample_utxo_ok, of 7 1]
  by (auto simp: sample_utxo_map split: if_splits)

text \<open>
  Spending several outputs of one fragment at once: it succeeds exactly for distinct indices that
  are all unspent (and a known fragment), returns the outputs in the order asked, and removes exactly
  those.
\<close>

theorem utxo_remove_multiple_correct:
  assumes "utxo_ok hf l"
  shows "case utxo_remove_multiple hf l t js of
      Ok (l', xs) \<Rightarrow> (\<exists>i. utxo_map hf l (t, i) \<noteq> None) \<and> distinct js \<and> 255 \<notin> set js
        \<and> map (\<lambda>j. utxo_map hf l (t, j)) js = map Some xs \<and> utxo_ok hf l'
        \<and> utxo_map hf l' = utxo_map hf l |` (- (Pair t ` set js))
    | Err TransactionNotFound \<Rightarrow> \<forall>i. utxo_map hf l (t, i) = None
    | Err e \<Rightarrow> e = IndexNotFound \<and> (\<exists>i. utxo_map hf l (t, i) \<noteq> None)
        \<and> \<not> (distinct js \<and> (\<forall>j \<in> set js. utxo_map hf l (t, j) \<noteq> None))
    | Panic \<Rightarrow> (\<exists>i. utxo_map hf l (t, i) \<noteq> None) \<and> 255 \<in> set js"
  by (rule utxo_remove_multiple_spec [OF assms])

theorem utxo_remove_multiple_correct_witness:
  "case utxo_remove_multiple (\<lambda>k. k) sample_utxo 7 [1, 0] of
     Ok (l', xs) \<Rightarrow> xs = [coin_out 20, coin_out 10] \<and> utxo_map (\<lambda>k. k) l' (7, 0) = None
   | _ \<Rightarrow> False"
proof -
  have "utxo_remove_multiple (\<lambda>k. k) sample_utxo 7 [1, 0] = Ok (hamt_new, [coin_out 20, coin_out 10])" by code_simp
  then show ?thesis
    using utxo_remove_multiple_correct [OF sample_utxo_ok, of 7 "[1, 0]"] by (simp add: sample_utxo_map)
qed

text \<open>
  The iterators over the ledger yield every unspent output exactly once with its pointer, in the same
  order, and never panic: asking for any number of elements gives the first elements of one list
  whose bindings are the ledger.
\<close>

theorem utxo_iter_complete:
  assumes "utxo_ok hf l"
  shows "\<exists>es. (\<forall>n. utxo_iter_take n (utxo_iter_start l) = Ok (take n es)
      \<and> utxo_values_take n (utxo_values_start l) = Ok (take n (map entry_output es)))
    \<and> distinct (map (fst \<circ> entry_binding) es) \<and> map_of (map entry_binding es) = utxo_map hf l"
proof -
  note b = utxo_pending_bindings [OF assms]
  have "utxo_values_start l = values_of (utxo_iter_start l)"
    by (simp add: values_of_def utxo_values_start_def utxo_iter_start_def)
  then have "utxo_values_take n (utxo_values_start l) = Ok (take n (map entry_output (utxo_pending (utxo_iter_start l))))" for n
    using utxo_values_take_sim [of n "utxo_iter_start l"] utxo_iter_take_pending [OF b(1), of n] by (simp add: take_map)
  then show ?thesis using b utxo_iter_take_pending [OF b(1)] by blast
qed

theorem utxo_iter_complete_witness:
  "\<exists>es. utxo_iter_take 2 (utxo_iter_start sample_utxo) = Ok (take 2 es)
    \<and> map_of (map entry_binding es) (7, 1) = Some (coin_out 20)"
  using utxo_iter_complete [OF sample_utxo_ok] by (auto simp: sample_utxo_map)



text \<open>
  C7. No double spend: between two spends of the same output pointer in a successful sequence of
  operations, the fragment was created again with that index.
\<close>

theorem no_double_spend:
  assumes "utxo_run hf utxo_new (as @ Spent t i x # bs @ Spent t i y # cs) l"
  shows "\<exists>outs. Created t outs \<in> set bs \<and> i \<in> fst ` set outs"
proof (rule ccontr)
  assume no: "\<not> ?thesis"
  obtain l1 l2 where l1: "utxo_run hf utxo_new as l1" and s: "utxo_step hf l1 (Spent t i x) l2"
    and r: "utxo_run hf l2 (bs @ Spent t i y # cs) l"
    using assms by (auto simp: utxo_run_append elim!: utxo_run_appendE)
  obtain l3 l4 where l3: "utxo_run hf l2 bs l3" and s': "utxo_step hf l3 (Spent t i y) l4"
    using r by (auto simp: utxo_run_append elim!: utxo_run_appendE)
  have ok1: "utxo_ok hf l1" using utxo_run_ok [OF l1 utxo_new_ok(1)] by blast
  have ok2: "utxo_ok hf l2" and gone: "utxo_map hf l2 (t, i) = None" using utxo_step_effect [OF s ok1] by auto
  have "utxo_map hf l3 (t, i) = None" using utxo_run_absent [OF l3 ok2 gone] no by blast
  moreover have "utxo_ok hf l3" using utxo_run_ok [OF l3 ok2] by blast
  ultimately show False using utxo_step_effect [OF s'] by auto
qed

theorem no_double_spend_witness:
  "\<exists>l outs. utxo_run (\<lambda>k. k) utxo_new
     ([Created 7 [(0, coin_out 10)]] @ Spent 7 0 (coin_out 10)
      # [Created 7 [(0, coin_out 10)]] @ Spent 7 0 (coin_out 10) # []) (l :: (u64, nat) utxo_ledger)
   \<and> Created (7 :: u64) outs \<in> set [Created 7 [(0, coin_out 10)]] \<and> (0 :: u8) \<in> fst ` set outs"
proof -
  let ?l = "\<lparr>root = Node 128 [Leaf 7 7 \<lparr>fsa_index = BitmapIndex 1 0,
     fsa_data = \<lparr>sa_index = BitmapIndex 1 0, sa_data = [coin_out 10]\<rparr>\<rparr>]\<rparr> :: (u64, nat) utxo_ledger"
  have "utxo_add (\<lambda>k. k) utxo_new 7 [(0, coin_out 10)] = Ok ?l" by code_simp
  then have c: "utxo_step (\<lambda>k. k) utxo_new (Created 7 [(0, coin_out 10)]) ?l"
    by (intro step_add) (simp_all add: utxo_new_def)
  have "utxo_remove (\<lambda>k. k) ?l 7 0 = Ok (utxo_new, coin_out 10)" by code_simp
  then have d: "utxo_step (\<lambda>k. k) ?l (Spent 7 0 (coin_out 10)) utxo_new" by (rule step_spend)
  have run: "utxo_run (\<lambda>k. k) utxo_new
     ([Created 7 [(0, coin_out 10)]] @ Spent 7 0 (coin_out 10)
      # [Created 7 [(0, coin_out 10)]] @ Spent 7 0 (coin_out 10) # []) utxo_new"
    using c d by (auto intro!: run_cons run_nil)
  from no_double_spend [OF run] run show ?thesis by blast
qed

end
