(* ===== verification/Spending.thy ===== *)
theory Spending
  imports Value
begin

text \<open>
  Spending counters of accounts (\<open>accounting/account/spending.rs\<close>). A counter is a 32-bit word: the
  three top bits select one of eight lanes, the other 29 bits count within the lane. An account
  keeps the next counter of every lane; a spend must present exactly that counter.
\<close>

datatype account_error =
    NonExistent
  | AccountAlreadyExists
  | NonZero
  | SpendingCredentialInvalid
  | ValueErr value_error

datatype spending_counter = SpendingCounter (counter_bits: u32)

definition LANES :: nat where
  "LANES = 8"

definition UNLANED_MASK :: u32 where
  "UNLANED_MASK = push_bit 29 1 - 1"

definition LANED_MASK :: u32 where
  "LANED_MASK = NOT UNLANED_MASK"

definition lane :: "spending_counter \<Rightarrow> nat" where
  "lane c = unat (drop_bit 29 (counter_bits c))"

definition unlaned_counter :: "spending_counter \<Rightarrow> u32" where
  "unlaned_counter c = counter_bits c AND UNLANED_MASK"

text \<open>The word built by \<open>SpendingCounter::new\<close> after its assertions.\<close>

definition counter_word :: "nat \<Rightarrow> u32 \<Rightarrow> spending_counter" where
  "counter_word l c = SpendingCounter (ucast (push_bit 29 (of_nat l :: u64)) OR (c AND UNLANED_MASK))"

definition spending_counter_new :: "nat \<Rightarrow> u32 \<Rightarrow> ('e, spending_counter) outcome" where
  "spending_counter_new l c =
     obind (require (l < 8)) (\<lambda>_.
     obind (require (c < push_bit 29 1)) (\<lambda>_.
     Ok (counter_word l c)))"

definition spending_counter_zero :: spending_counter where
  "spending_counter_zero = SpendingCounter 0"

definition increment :: "spending_counter \<Rightarrow> ('e, spending_counter) outcome" where
  "increment c =
     obind (padd (unlaned_counter c) 1) (\<lambda>s.
     Ok (SpendingCounter ((counter_bits c AND LANED_MASK) OR (s AND UNLANED_MASK))))"

definition increment_nth :: "spending_counter \<Rightarrow> u32 \<Rightarrow> ('e, spending_counter) outcome" where
  "increment_nth c n =
     obind (padd (unlaned_counter c) n) (\<lambda>s.
     Ok (SpendingCounter ((counter_bits c AND LANED_MASK) OR (s AND UNLANED_MASK))))"

definition counter_to_bytes :: "spending_counter \<Rightarrow> u8 list" where
  "counter_to_bytes c = to_le_bytes (counter_bits c)"

definition counter_from_bytes :: "u8 list \<Rightarrow> spending_counter" where
  "counter_from_bytes bs = SpendingCounter (from_le_bytes bs)"

record spending_counter_increasing =
  nexts :: "spending_counter list"

text \<open>The assertions of \<open>SpendingCounter::new\<close> hold for the arguments used here (\<open>default_asserts\<close>).\<close>

definition sci_default :: spending_counter_increasing where
  "sci_default = \<lparr>nexts = map (\<lambda>i. counter_word i 0) [0..<LANES]\<rparr>"

definition new_from_counter :: "spending_counter \<Rightarrow> ('e, spending_counter_increasing) outcome" where
  "new_from_counter c =
     (if lane c < length (nexts sci_default)
      then Ok (sci_default\<lparr>nexts := (nexts sci_default)[lane c := c]\<rparr>) else Panic)"

definition new_from_counters :: "spending_counter list \<Rightarrow> spending_counter_increasing option" where
  "new_from_counters cs =
     (if length cs = LANES
      then (if list_all (\<lambda>(i, c). lane c = i) (zip [0..<length cs] cs) then Some \<lparr>nexts = cs\<rparr> else None)
      else None)"

definition get_valid_counter :: "spending_counter_increasing \<Rightarrow> ('e, spending_counter) outcome" where
  "get_valid_counter s = unwrap_opt (nth_opt (nexts s) 0)"

definition get_valid_counters :: "spending_counter_increasing \<Rightarrow> spending_counter list" where
  "get_valid_counters s = nexts s"

definition next_verify ::
  "spending_counter_increasing \<Rightarrow> spending_counter \<Rightarrow> (account_error, spending_counter_increasing) outcome" where
  "next_verify s c =
     obind (unwrap_opt (nth_opt (nexts s) (lane c))) (\<lambda>actual_counter.
       if actual_counter \<noteq> c then Err SpendingCredentialInvalid
       else obind (increment actual_counter) (\<lambda>c'. Ok (s\<lparr>nexts := (nexts s)[lane c := c']\<rparr>)))"

section \<open>Lanes and counters of a word\<close>

lemma unlaned_mask: "UNLANED_MASK = mask 29"
  by (simp add: UNLANED_MASK_def mask_eq_exp_minus_1)

lemma lane_less: "lane c < 8"
proof -
  have "unat (drop_bit 29 (counter_bits c)) = unat (counter_bits c) div 2 ^ 29"
    by (simp add: drop_bit_eq_div unat_div)
  then show ?thesis using unat_lt_2p [of "counter_bits c"] by (simp add: lane_def less_mult_imp_div_less)
qed

lemma unat_unlaned: "unat (w AND mask 29) = unat w mod 2 ^ 29" for w :: u32
  by (simp add: take_bit_eq_mask [symmetric] take_bit_eq_mod unat_mod)

definition count :: "spending_counter \<Rightarrow> nat" where
  "count c = unat (unlaned_counter c)"

lemma count_eq: "count c = unat (counter_bits c) mod 2 ^ 29"
  by (simp add: count_def unlaned_counter_def unlaned_mask unat_unlaned)

lemma count_less: "count c < 2 ^ 29"
  by (simp add: count_eq)

lemma lane_eq: "lane c = unat (counter_bits c) div 2 ^ 29"
  by (simp add: lane_def drop_bit_eq_div unat_div)

text \<open>A counter is its lane and its count.\<close>

lemma counter_eqI: "lane c = lane d \<Longrightarrow> count c = count d \<Longrightarrow> c = d"
proof -
  assume "lane c = lane d" "count c = count d"
  then have "unat (counter_bits c) = unat (counter_bits d)"
    unfolding lane_eq count_eq by (metis div_mult_mod_eq)
  then show ?thesis by (cases c; cases d) (simp add: word_unat_eq_iff)
qed

text \<open>Joining lane bits and counter bits.\<close>

lemma joined:
  fixes w s :: u32
  shows "lane (SpendingCounter ((w AND LANED_MASK) OR (s AND UNLANED_MASK))) = lane (SpendingCounter w)"
    and "count (SpendingCounter ((w AND LANED_MASK) OR (s AND UNLANED_MASK))) = unat s mod 2 ^ 29"
proof -
  have "drop_bit 29 ((w AND NOT (mask 29)) OR (s AND mask 29)) = drop_bit 29 w"
    by (rule bit_word_eqI) (auto simp: bit_simps dest: bit_imp_le_length)
  then show "lane (SpendingCounter ((w AND LANED_MASK) OR (s AND UNLANED_MASK))) = lane (SpendingCounter w)"
    by (simp add: lane_def LANED_MASK_def unlaned_mask)
  have "((w AND NOT (mask 29)) OR (s AND mask 29)) AND mask 29 = s AND mask 29"
    by (rule bit_word_eqI) (auto simp: bit_simps)
  then show "count (SpendingCounter ((w AND LANED_MASK) OR (s AND UNLANED_MASK))) = unat s mod 2 ^ 29"
    by (simp add: count_def unlaned_counter_def LANED_MASK_def unlaned_mask unat_unlaned)
qed

lemma increment_spec: "\<exists>c'. increment c = (Ok c' :: ('e, spending_counter) outcome) \<and> lane c' = lane c \<and> count c' = (count c + 1) mod 2 ^ 29"
proof -
  have lt: "unat (unlaned_counter c) + 1 < 2 ^ 32" using count_less [of c] by (simp add: count_def)
  then have "padd (unlaned_counter c) 1 = (Ok (unlaned_counter c + 1) :: ('e, u32) outcome)"
    by (simp add: plain_arith_Ok_iffs unat_plus_no_ovf)
  moreover have "unat (unlaned_counter c + 1) = count c + 1"
    using lt unat_plus_no_ovf [of "unlaned_counter c" 1] by (simp add: count_def)
  ultimately show ?thesis
    using joined [of "counter_bits c" "unlaned_counter c + 1"] by (simp add: increment_def)
qed

lemma increment_nth_spec:
  "case increment_nth c n of
     Ok c' \<Rightarrow> lane c' = lane c \<and> count c' = (count c + unat n) mod 2 ^ 29
   | Err e \<Rightarrow> False
   | Panic \<Rightarrow> 2 ^ 32 \<le> count c + unat n"
proof (cases "padd (unlaned_counter c) n :: ('a, u32) outcome")
  case (Ok s)
  then have "unat s = count c + unat n" by (simp add: checked_simps count_def)
  with Ok joined [of "counter_bits c" s] show ?thesis by (simp add: increment_nth_def)
next
  case (Err e)
  then show ?thesis by (simp add: checked_simps)
next
  case Panic
  then have "2 ^ 32 \<le> count c + unat n" by (simp add: plain_arith_Panic_iffs count_def)
  with Panic show ?thesis by (simp add: increment_nth_def)
qed

lemma counter_word_spec:
  assumes "l < 8" and "unat c < 2 ^ 29"
  shows "lane (counter_word l c) = l" and "count (counter_word l c) = unat c"
proof -
  let ?w = "ucast (push_bit 29 (of_nat l :: u64)) :: u32"
  have "unat (push_bit 29 (of_nat l :: u64)) = l * 2 ^ 29"
    using assms(1) unat_of_nat_id [where 'a = 64, of "l * 2 ^ 29"] by (simp add: push_bit_eq_mult)
  then have u: "unat ?w = l * 2 ^ 29"
    using assms(1) by (simp add: unsigned_ucast_eq take_bit_nat_eq_self)
  have lw: "?w AND LANED_MASK = ?w"
    unfolding LANED_MASK_def unlaned_mask by (rule bit_word_eqI) (auto simp: bit_simps)
  have j: "counter_word l c = SpendingCounter ((?w AND LANED_MASK) OR (c AND UNLANED_MASK))"
    by (simp add: counter_word_def lw)
  show "lane (counter_word l c) = l" unfolding j joined(1) by (simp add: lane_eq u)
  show "count (counter_word l c) = unat c" unfolding j joined(2) using assms(2) by simp
qed

section \<open>The counters of an account\<close>

definition sci_ok :: "spending_counter_increasing \<Rightarrow> bool" where
  "sci_ok s \<longleftrightarrow> length (nexts s) = LANES \<and> (\<forall>i < LANES. lane (nexts s ! i) = i)"

lemma default_asserts: "i < LANES \<Longrightarrow> spending_counter_new i 0 = Ok (counter_word i 0)"
  by (simp add: spending_counter_new_def require_def LANES_def)

lemma sci_default_ok: "sci_ok sci_default"
  by (simp add: sci_ok_def sci_default_def LANES_def counter_word_spec)

lemma new_from_counters_ok: "new_from_counters cs = Some s \<longleftrightarrow> nexts s = cs \<and> sci_ok s"
  by (cases s) (auto simp: new_from_counters_def sci_ok_def list_all_length split: if_splits)

lemma new_from_counter_ok: "\<exists>s. new_from_counter c = Ok s \<and> sci_ok s \<and> nexts s ! lane c = c"
  using sci_default_ok lane_less [of c] by (auto simp: new_from_counter_def sci_ok_def LANES_def nth_list_update)

text \<open>A step of the counters: what \<open>next_verify\<close> accepts and what it changes.\<close>

lemma next_verify_spec:
  assumes "sci_ok s"
  shows "case next_verify s c of
      Ok s' \<Rightarrow> nexts s ! lane c = c \<and> sci_ok s'
        \<and> (\<forall>j < LANES. count (nexts s' ! j) = (if j = lane c then (count c + 1) mod 2 ^ 29 else count (nexts s ! j)))
    | Err e \<Rightarrow> e = SpendingCredentialInvalid \<and> nexts s ! lane c \<noteq> c
    | Panic \<Rightarrow> False"
proof -
  have len: "lane c < length (nexts s)" using assms lane_less [of c] by (simp add: sci_ok_def LANES_def)
  obtain c' where c': "increment c = (Ok c' :: (account_error, _) outcome)" "lane c' = lane c" "count c' = (count c + 1) mod 2 ^ 29"
    using increment_spec by blast
  show ?thesis
  proof (cases "nexts s ! lane c = c")
    case True
    then have "next_verify s c = Ok (s\<lparr>nexts := (nexts s)[lane c := c']\<rparr>)"
      using len c'(1) by (simp add: next_verify_def nth_opt_eq unwrap_opt_def)
    then show ?thesis using True len assms c' by (auto simp: sci_ok_def nth_list_update)
  next
    case False
    then show ?thesis using len by (simp add: next_verify_def nth_opt_eq unwrap_opt_def)
  qed
qed

lemma next_verify_ok_iff:
  assumes "sci_ok s"
  shows "(\<exists>s'. next_verify s c = Ok s') \<longleftrightarrow> count (nexts s ! lane c) = count c"
proof -
  have "lane (nexts s ! lane c) = lane c" using assms lane_less [of c] by (simp add: sci_ok_def LANES_def)
  then have "nexts s ! lane c = c \<longleftrightarrow> count (nexts s ! lane c) = count c" using counter_eqI by metis
  moreover have "(\<exists>s'. next_verify s c = Ok s') \<longleftrightarrow> nexts s ! lane c = c"
    using next_verify_spec [OF assms, of c] by (cases "next_verify s c") auto
  ultimately show ?thesis by simp
qed

primrec verify_all ::
  "spending_counter_increasing \<Rightarrow> spending_counter list \<Rightarrow> (account_error, spending_counter_increasing) outcome" where
  "verify_all s [] = Ok s"
| "verify_all s (c # cs) = obind (next_verify s c) (\<lambda>s'. verify_all s' cs)"

lemma verify_all_counts:
  assumes "sci_ok s" and "verify_all s cs = Ok s'" and "j < LANES"
  shows "map count (filter (\<lambda>c. lane c = j) cs)
    = map (\<lambda>k. (count (nexts s ! j) + k) mod 2 ^ 29) [0..<length (filter (\<lambda>c. lane c = j) cs)]"
  using assms(1,2)
proof (induction cs arbitrary: s)
  case (Cons c cs)
  then obtain s1 where s1: "next_verify s c = Ok s1" and r: "verify_all s1 cs = Ok s'" by (auto simp: outcome_simps)
  have st: "nexts s ! lane c = c" "sci_ok s1"
    "\<And>j. j < LANES \<Longrightarrow> count (nexts s1 ! j) = (if j = lane c then (count c + 1) mod 2 ^ 29 else count (nexts s ! j))"
    using next_verify_spec [OF Cons.prems(1), of c] s1 by auto
  note IH = Cons.IH [OF st(2) r]
  let ?n = "length (filter (\<lambda>c. lane c = j) cs)"
  show ?case
  proof (cases "lane c = j")
    case True
    have "map (\<lambda>k. (count (nexts s1 ! j) + k) mod 2 ^ 29) [0..<?n] = map (\<lambda>k. (count c + Suc k) mod 2 ^ 29) [0..<?n]"
      using True st(3) [OF assms(3)] by (simp add: mod_add_left_eq)
    moreover have "count (nexts s ! j) = count c" using True st(1) by simp
    moreover have "[0..<Suc ?n] = 0 # map Suc [0..<?n]" by (simp add: map_Suc_upt upt_conv_Cons del: upt_Suc)
    ultimately show ?thesis using IH True count_less [of c] by (simp add: comp_def del: upt_Suc)
  next
    case False
    then show ?thesis using IH st(3) [OF assms(3)] by simp
  qed
qed simp

lemma lane_counters_distinct:
  assumes "sci_ok s" and "verify_all s cs = Ok s'" and "j < LANES"
    and "length (filter (\<lambda>c. lane c = j) cs) \<le> 2 ^ 29"
  shows "distinct (filter (\<lambda>c. lane c = j) cs)"
proof -
  let ?f = "\<lambda>k. (count (nexts s ! j) + k) mod 2 ^ 29" and ?n = "length (filter (\<lambda>c. lane c = j) cs)"
  note eq = verify_all_counts [OF assms(1-3)]
  have "inj_on ?f {0..<?n}"
  proof (rule inj_onI)
    fix x y assume "x \<in> {0..<?n}" "y \<in> {0..<?n}" and eq: "?f x = ?f y"
    then have "x < 2 ^ 29" "y < 2 ^ 29" using assms(4) by auto
    with eq show "x = y" by (rule add_mod_cancel)
  qed
  then have "distinct (map ?f [0..<?n])" by (simp add: distinct_map)
  then have "distinct (map count (filter (\<lambda>c. lane c = j) cs))" unfolding eq .
  then show ?thesis by (simp only: distinct_map)
qed

section \<open>Properties\<close>

text \<open>
  Building a counter and reading its lane and count back is the identity in range and an assertion
  failure out of range; incrementing keeps the lane, wraps the count within its 29 bits and never
  overflows the word; incrementing by \<open>n\<close> does the same unless the 32-bit sum overflows, which panics;
  the four bytes of a counter read back to it.
\<close>

theorem spending_counter_laws:
  "(case spending_counter_new l n of
      Ok c \<Rightarrow> l < 8 \<and> unat n < 2 ^ 29 \<and> lane c = l \<and> unlaned_counter c = n
    | Err e \<Rightarrow> False
    | Panic \<Rightarrow> 8 \<le> l \<or> 2 ^ 29 \<le> unat n)
   \<and> (\<exists>c'. increment c = (Ok c' :: ('e, spending_counter) outcome) \<and> lane c' = lane c
        \<and> unat (unlaned_counter c') = (unat (unlaned_counter c) + 1) mod 2 ^ 29)
   \<and> (case increment_nth c m :: ('e, spending_counter) outcome of
        Ok c' \<Rightarrow> lane c' = lane c \<and> unat (unlaned_counter c') = (unat (unlaned_counter c) + unat m) mod 2 ^ 29
      | Err e \<Rightarrow> False
      | Panic \<Rightarrow> 2 ^ 32 \<le> unat (unlaned_counter c) + unat m)
   \<and> counter_from_bytes (counter_to_bytes c) = c"
proof (intro conjI)
  have lt: "n < push_bit 29 1 \<longleftrightarrow> unat n < 2 ^ 29" by (simp add: word_less_nat_alt)
  show "case spending_counter_new l n of
      Ok c \<Rightarrow> l < 8 \<and> unat n < 2 ^ 29 \<and> lane c = l \<and> unlaned_counter c = n
    | Err e \<Rightarrow> False
    | Panic \<Rightarrow> 8 \<le> l \<or> 2 ^ 29 \<le> unat n"
    using counter_word_spec [of l n] lt
    by (cases "l < 8"; cases "unat n < 2 ^ 29")
      (simp_all add: spending_counter_new_def require_def count_def word_unat_eq_iff)
qed (use increment_spec [of c] increment_nth_spec [of c m, where 'a = 'e] in
    \<open>auto simp: count_def counter_from_bytes_def counter_to_bytes_def split: outcome.splits\<close>)

text \<open>
  Replay protection: in any sequence of spends that an account accepts, the counters presented on
  one lane are consecutive from the stored one, so no counter is accepted twice while fewer than
  \<open>2^29\<close> spends use that lane.
\<close>

theorem no_counter_replay:
  assumes "sci_ok s" and "verify_all s cs = Ok s'" and "j < LANES"
    and "length (filter (\<lambda>c. lane c = j) cs) \<le> 2 ^ 29"
  shows "map count (filter (\<lambda>c. lane c = j) cs)
      = map (\<lambda>k. (count (nexts s ! j) + k) mod 2 ^ 29) [0..<length (filter (\<lambda>c. lane c = j) cs)]
    \<and> distinct (filter (\<lambda>c. lane c = j) cs)"
  using verify_all_counts [OF assms(1-3)] lane_counters_distinct [OF assms] by blast

theorem no_counter_replay_witness:
  "\<exists>s'. verify_all sci_default [counter_word 2 0, counter_word 5 0, counter_word 2 1] = Ok s'
     \<and> distinct (filter (\<lambda>c. lane c = 2) [counter_word 2 0, counter_word 5 0, counter_word 2 1])"
proof -
  have "case verify_all sci_default [counter_word 2 0, counter_word 5 0, counter_word 2 1] of Ok s' \<Rightarrow> True | _ \<Rightarrow> False"
    by code_simp
  then obtain s' where s': "verify_all sci_default [counter_word 2 0, counter_word 5 0, counter_word 2 1] = Ok s'"
    by (auto split: outcome.splits)
  have len: "length (filter (\<lambda>c. lane c = 2) [counter_word 2 0, counter_word 5 0, counter_word 2 1]) \<le> 2 ^ 29"
    by (rule order_trans [OF length_filter_le]) simp
  from no_counter_replay [OF sci_default_ok s' _ len] s' show ?thesis by (simp add: LANES_def)
qed

end
