(* ===== verification/Chain_Time.thy ===== *)
theory Chain_Time
  imports Codec
begin

text \<open>
  Time (\<open>chain-time/src\<close>) and block dates (\<open>chain-impl-mockchain/src/date.rs\<close>): timelines, time
  frames that cut a timeline in slots, eras that group slots in epochs, and the date of a block.

  A point of the system clock and a duration are numbers of nanoseconds. The limits of the
  platform's clock representation are not modelled; the 64-bit slot arithmetic of the source is.
\<close>

section \<open>Timelines\<close>

type_synonym system_time = nat
type_synonym duration = nat

definition duration_from_secs :: "u64 \<Rightarrow> duration" where
  "duration_from_secs s = unat s * 1000000000"

definition as_secs :: "duration \<Rightarrow> u64" where
  "as_secs d = of_nat (d div 1000000000)"

datatype timeline = Timeline (timeline_start: system_time)

definition timeline_new :: "system_time \<Rightarrow> timeline" where
  "timeline_new start_time = Timeline start_time"

definition differential :: "timeline \<Rightarrow> system_time \<Rightarrow> duration option" where
  "differential tline t = (if timeline_start tline \<le> t then Some (t - timeline_start tline) else None)"

definition advance_timeline :: "timeline \<Rightarrow> duration \<Rightarrow> timeline" where
  "advance_timeline tline d = Timeline (timeline_start tline + d)"

text \<open>Whole seconds as a duration (\<open>units.rs\<close>, \<open>TimeOffsetSeconds\<close>).\<close>

datatype duration_seconds = DurationSeconds (seconds: u64)

definition duration_seconds_into :: "duration_seconds \<Rightarrow> duration" where
  "duration_seconds_into v = duration_from_secs (seconds v)"

section \<open>Time frames\<close>

type_synonym slot = u64

datatype slot_duration = SlotDuration (slot_secs: u64)

definition slot_duration_from_secs :: "u32 \<Rightarrow> ('e, slot_duration) outcome" where
  "slot_duration_from_secs s = obind (require (s < 600)) (\<lambda>_. Ok (SlotDuration (ucast s)))"

definition slot_duration_to_duration :: "slot_duration \<Rightarrow> duration" where
  "slot_duration_to_duration s = duration_from_secs (slot_secs s)"

record time_frame =
  tf_timeline :: timeline
  tf_slot_offset :: slot
  tf_slot_duration :: slot_duration

record slot_and_duration =
  sd_slot :: slot
  sd_offset :: duration

definition time_frame_new :: "timeline \<Rightarrow> slot_duration \<Rightarrow> time_frame" where
  "time_frame_new tline per_slot = \<lparr>tf_timeline = tline, tf_slot_offset = 0, tf_slot_duration = per_slot\<rparr>"

definition change_frame :: "time_frame \<Rightarrow> slot \<Rightarrow> slot_duration \<Rightarrow> ('e, time_frame) outcome" where
  "change_frame tf s duration_per_slot =
     obind (pmul s (slot_secs (tf_slot_duration tf))) (\<lambda>d.
     obind (padd (tf_slot_offset tf) s) (\<lambda>off.
     Ok \<lparr>tf_timeline = advance_timeline (tf_timeline tf) (duration_from_secs d),
         tf_slot_offset = off, tf_slot_duration = duration_per_slot\<rparr>))"

definition slot0 :: "time_frame \<Rightarrow> slot" where
  "slot0 tf = tf_slot_offset tf"

text \<open>\<open>t - Duration::from_secs(e)\<close> panics if the second duration is longer.\<close>

definition slot_at_precise :: "time_frame \<Rightarrow> system_time \<Rightarrow> ('e, slot_and_duration option) outcome" where
  "slot_at_precise tf at =
     (case differential (tf_timeline tf) at of
        None \<Rightarrow> Ok None
      | Some t \<Rightarrow>
          obind (pdiv (as_secs t) (slot_secs (tf_slot_duration tf))) (\<lambda>slot_nb.
          obind (pmul slot_nb (slot_secs (tf_slot_duration tf))) (\<lambda>e.
          obind (require (duration_from_secs e \<le> t)) (\<lambda>_.
          obind (padd (tf_slot_offset tf) slot_nb) (\<lambda>s.
          Ok (Some \<lparr>sd_slot = s, sd_offset = t - duration_from_secs e\<rparr>))))))"

definition slot_at :: "time_frame \<Rightarrow> system_time \<Rightarrow> ('e, slot option) outcome" where
  "slot_at tf at =
     (case differential (tf_timeline tf) at of
        None \<Rightarrow> Ok None
      | Some t \<Rightarrow>
          obind (pdiv (as_secs t) (slot_secs (tf_slot_duration tf))) (\<lambda>slot_nb.
          obind (padd (tf_slot_offset tf) slot_nb) (\<lambda>s. Ok (Some s))))"

definition slot_to_systemtime :: "time_frame \<Rightarrow> slot \<Rightarrow> ('e, system_time option) outcome" where
  "slot_to_systemtime tf s =
     (case checked_sub s (tf_slot_offset tf) of
        None \<Rightarrow> Ok None
      | Some sd \<Rightarrow>
          obind (pmul sd (slot_secs (tf_slot_duration tf))) (\<lambda>d.
          Ok (Some (timeline_start (tf_timeline tf) + duration_from_secs d))))"

section \<open>Eras\<close>

record epoch_position =
  ep_epoch :: u32
  ep_slot :: u32

record time_era =
  epoch_start :: u32
  slot_start :: slot
  slots_per_epoch :: u32

definition time_era_new :: "slot \<Rightarrow> u32 \<Rightarrow> u32 \<Rightarrow> time_era" where
  "time_era_new ss es spe = \<lparr>epoch_start = es, slot_start = ss, slots_per_epoch = spe\<rparr>"

definition pack_time_era :: "time_era \<Rightarrow> u8 list \<Rightarrow> (io_error, u8 list) outcome" where
  "pack_time_era e codec =
     obind (codec_put_be_u32 codec (epoch_start e)) (\<lambda>c.
     obind (codec_put_be_u64 c (slot_start e)) (\<lambda>c.
     codec_put_be_u32 c (slots_per_epoch e)))"

definition unpack_time_era :: "u8 list \<Rightarrow> (io_error, time_era \<times> u8 list) outcome" where
  "unpack_time_era codec =
     obind (codec_get_be_u32 codec) (\<lambda>(es, c).
     obind (codec_get_be_u64 c) (\<lambda>(ss, c).
     obind (codec_get_be_u32 c) (\<lambda>(spe, c).
     Ok (\<lparr>epoch_start = es, slot_start = ss, slots_per_epoch = spe\<rparr>, c))))"

definition from_slot_to_era :: "time_era \<Rightarrow> slot \<Rightarrow> ('e, epoch_position option) outcome" where
  "from_slot_to_era era s =
     (if s < slot_start era then Ok None
      else obind (psub s (slot_start era)) (\<lambda>slot_era_offset.
           obind (pdiv slot_era_offset (ucast (slots_per_epoch era))) (\<lambda>q.
           obind (pmod slot_era_offset (ucast (slots_per_epoch era))) (\<lambda>r.
           obind (padd (epoch_start era) (ucast q)) (\<lambda>ep.
           Ok (Some \<lparr>ep_epoch = ep, ep_slot = ucast r\<rparr>))))))"

definition from_era_to_slot :: "time_era \<Rightarrow> epoch_position \<Rightarrow> ('e, slot) outcome" where
  "from_era_to_slot era pos =
     obind (require (ep_epoch pos \<ge> epoch_start era)) (\<lambda>_.
     obind (require (ep_slot pos < slots_per_epoch era)) (\<lambda>_.
     obind (pmul (ucast (ep_epoch pos)) (ucast (slots_per_epoch era))) (\<lambda>m.
     obind (padd m (ucast (ep_slot pos))) (\<lambda>slot_offset.
     padd (slot_start era) slot_offset))))"

section \<open>Block dates\<close>

type_synonym epoch = u32
type_synonym slot_id = u32

datatype block_date = BlockDate (bd_epoch: epoch) (bd_slot: slot_id)

text \<open>The derived order is lexicographic.\<close>

instantiation block_date :: linorder
begin

definition less_eq_block_date :: "block_date \<Rightarrow> block_date \<Rightarrow> bool" where
  "less_eq_block_date a b \<longleftrightarrow> bd_epoch a < bd_epoch b \<or> (bd_epoch a = bd_epoch b \<and> bd_slot a \<le> bd_slot b)"

definition less_block_date :: "block_date \<Rightarrow> block_date \<Rightarrow> bool" where
  "less_block_date a b \<longleftrightarrow> bd_epoch a < bd_epoch b \<or> (bd_epoch a = bd_epoch b \<and> bd_slot a < bd_slot b)"

instance
  by intro_classes (auto simp: less_eq_block_date_def less_block_date_def block_date.expand)

end

definition block_date_first :: block_date where
  "block_date_first = BlockDate 0 0"

definition block_date_next :: "block_date \<Rightarrow> time_era \<Rightarrow> ('e, block_date) outcome" where
  "block_date_next d era =
     obind (require (bd_slot d < slots_per_epoch era)) (\<lambda>_.
     obind (padd (bd_slot d) 1) (\<lambda>s.
       if s = slots_per_epoch era
       then obind (padd (bd_epoch d) 1) (\<lambda>e. Ok (BlockDate e 0))
       else Ok (BlockDate (bd_epoch d) s)))"

definition block_date_next_epoch :: "block_date \<Rightarrow> ('e, block_date) outcome" where
  "block_date_next_epoch d = obind (padd (bd_epoch d) 1) (\<lambda>e. Ok (BlockDate e 0))"

definition block_date_from_position :: "epoch_position \<Rightarrow> block_date" where
  "block_date_from_position p = BlockDate (ep_epoch p) (ep_slot p)"

text \<open>Decimal numerals: \<open>Display\<close> of unsigned integers and \<open>str::parse::<u32>\<close>.\<close>

definition digit_char :: "nat \<Rightarrow> char" where
  "digit_char d = char_of (48 + d)"

function show_nat :: "nat \<Rightarrow> string" where
  "show_nat n = (if n < 10 then [digit_char n] else show_nat (n div 10) @ [digit_char (n mod 10)])"
  by pat_completeness auto
termination by (relation "measure id") auto

declare show_nat.simps [simp del]

datatype parse_int_error = EmptyNumber | InvalidDigit | PosOverflow

definition digit_value :: "char \<Rightarrow> nat option" where
  "digit_value c = (let n = of_char c :: nat in if 48 \<le> n \<and> n < 58 then Some (n - 48) else None)"

fun parse_digits :: "string \<Rightarrow> u32 \<Rightarrow> (parse_int_error, u32) outcome" where
  "parse_digits [] acc = Ok acc"
| "parse_digits (c # cs) acc =
     (case digit_value c of
        None \<Rightarrow> Err InvalidDigit
      | Some d \<Rightarrow>
          obind (ok_or PosOverflow (checked_mul acc 10)) (\<lambda>m.
          obind (ok_or PosOverflow (checked_add m (of_nat d))) (parse_digits cs)))"

definition parse_u32 :: "string \<Rightarrow> (parse_int_error, u32) outcome" where
  "parse_u32 s =
     (case s of
        [] \<Rightarrow> Err EmptyNumber
      | c # cs \<Rightarrow>
          if c = CHR ''+'' then (if cs = [] then Err InvalidDigit else parse_digits cs 0)
          else parse_digits (c # cs) 0)"

definition block_date_display :: "block_date \<Rightarrow> string" where
  "block_date_display d = show_nat (unat (bd_epoch d)) @ ''.'' @ show_nat (unat (bd_slot d))"

datatype block_date_parse_error = DotMissing | BadEpochId parse_int_error | BadSlotId parse_int_error

text \<open>\<open>s.find('.')\<close> splits at the first dot.\<close>

fun split_at_dot :: "string \<Rightarrow> (string \<times> string) option" where
  "split_at_dot [] = None"
| "split_at_dot (c # cs) =
     (if c = CHR ''.'' then Some ([], cs)
      else map_option (\<lambda>(a, b). (c # a, b)) (split_at_dot cs))"

definition block_date_from_str :: "string \<Rightarrow> (block_date_parse_error, block_date) outcome" where
  "block_date_from_str s =
     (case split_at_dot s of
        None \<Rightarrow> Err DotMissing
      | Some (ep, sp) \<Rightarrow>
          obind (map_err BadEpochId (parse_u32 ep)) (\<lambda>e.
          obind (map_err BadSlotId (parse_u32 sp)) (\<lambda>sl.
          Ok (BlockDate e sl))))"

section \<open>Eras\<close>

lemma unat_ucast_down: "unat (ucast w :: 'b::len word) = unat w mod 2 ^ LENGTH('b)" for w :: "'a::len word"
  by (simp add: unsigned_ucast_eq take_bit_eq_mod)

lemma ucast_u32_eq_0 [simp]: "(ucast (w :: u32) :: u64) = 0 \<longleftrightarrow> w = 0"
  by (simp add: word_unat_eq_iff unat_ucast_up)

definition era_offset :: "time_era \<Rightarrow> slot \<Rightarrow> nat" where
  "era_offset era s = unat s - unat (slot_start era)"

lemma from_slot_to_era_spec:
  assumes "slot_start era \<le> s" and "slots_per_epoch era \<noteq> 0"
    and "unat (epoch_start era) + era_offset era s div unat (slots_per_epoch era) < 2 ^ 32"
  shows "\<exists>p. from_slot_to_era era s = (Ok (Some p) :: ('e, _) outcome)
    \<and> unat (ep_epoch p) = unat (epoch_start era) + era_offset era s div unat (slots_per_epoch era)
    \<and> unat (ep_slot p) = era_offset era s mod unat (slots_per_epoch era)"
proof -
  let ?off = "s - slot_start era" and ?spe = "ucast (slots_per_epoch era) :: u64"
  have off: "unat ?off = era_offset era s" using assms(1) by (simp add: era_offset_def unat_minus_no_borrow)
  have spe: "unat ?spe = unat (slots_per_epoch era)" by (simp add: unat_ucast_up)
  have q: "unat (ucast (?off div ?spe) :: u32) = era_offset era s div unat (slots_per_epoch era)"
    using assms(3) unat_ucast_down [where 'b = 32, of "?off div ?spe"] by (simp add: unat_div off spe)
  have "era_offset era s mod unat (slots_per_epoch era) < 2 ^ 32"
    using assms(2) unat_lt_2p [of "slots_per_epoch era"] by (simp add: word_unat_eq_iff) (meson mod_less_divisor order_less_trans gr0I)
  then have r: "unat (ucast (?off mod ?spe) :: u32) = era_offset era s mod unat (slots_per_epoch era)"
    using unat_ucast_down [where 'b = 32, of "?off mod ?spe"] by (simp add: unat_mod off spe)
  have "checked_add (epoch_start era) (ucast (?off div ?spe)) = Some (epoch_start era + ucast (?off div ?spe))"
    using assms(3) q by (simp add: checked_add_def)
  moreover have "unat (epoch_start era + ucast (?off div ?spe) :: u32)
      = unat (epoch_start era) + era_offset era s div unat (slots_per_epoch era)"
    using assms(3) q unat_plus_no_ovf [of "epoch_start era" "ucast (?off div ?spe)"] by simp
  ultimately show ?thesis
    using assms r by (simp add: from_slot_to_era_def plain_arith_defs checked_sub_def unwrap_opt_def not_less)
qed

lemma from_era_to_slot_spec:
  assumes "epoch_start era \<le> ep_epoch p" and "ep_slot p < slots_per_epoch era"
    and "unat (slot_start era) + unat (ep_epoch p) * unat (slots_per_epoch era) + unat (ep_slot p) < 2 ^ 64"
  shows "\<exists>s. from_era_to_slot era p = (Ok s :: ('e, _) outcome)
    \<and> unat s = unat (slot_start era) + unat (ep_epoch p) * unat (slots_per_epoch era) + unat (ep_slot p)"
proof -
  let ?e = "ucast (ep_epoch p) :: u64" and ?n = "ucast (slots_per_epoch era) :: u64" and ?i = "ucast (ep_slot p) :: u64"
  have u: "unat ?e = unat (ep_epoch p)" "unat ?n = unat (slots_per_epoch era)" "unat ?i = unat (ep_slot p)"
    by (simp_all add: unat_ucast_up)
  have m: "unat (?e * ?n) = unat (ep_epoch p) * unat (slots_per_epoch era)"
    using assms(3) u unat_times_no_ovf [of ?e ?n] by simp
  have o': "unat (?e * ?n + ?i) = unat (ep_epoch p) * unat (slots_per_epoch era) + unat (ep_slot p)"
    using assms(3) u m unat_plus_no_ovf [of "?e * ?n" ?i] by simp
  have s: "unat (slot_start era + (?e * ?n + ?i))
      = unat (slot_start era) + unat (ep_epoch p) * unat (slots_per_epoch era) + unat (ep_slot p)"
    using assms(3) o' unat_plus_no_ovf [of "slot_start era" "?e * ?n + ?i"] by simp
  have "from_era_to_slot era p = (Ok (slot_start era + (?e * ?n + ?i)) :: ('e, _) outcome)"
    using assms u m o' by (simp add: from_era_to_slot_def require_def plain_arith_defs checked_mul_def checked_add_def unwrap_opt_def)
  with s show ?thesis by simp
qed

section \<open>Slots and the clock\<close>

lemma slot_to_systemtime_Some:
  "slot_to_systemtime tf s = Ok (Some t) \<longleftrightarrow>
     tf_slot_offset tf \<le> s
     \<and> (unat s - unat (tf_slot_offset tf)) * unat (slot_secs (tf_slot_duration tf)) < 2 ^ 64
     \<and> t = timeline_start (tf_timeline tf)
           + (unat s - unat (tf_slot_offset tf)) * unat (slot_secs (tf_slot_duration tf)) * 1000000000"
  by (auto simp: slot_to_systemtime_def checked_sub_def pmul_def checked_mul_def unwrap_opt_def
      duration_from_secs_def unat_times_no_ovf unat_minus_no_borrow split: if_splits)

lemma slot_at_Some:
  assumes "(at - timeline_start (tf_timeline tf)) div 1000000000 < 2 ^ 64"
  shows "slot_at tf at = Ok (Some s) \<longleftrightarrow>
     timeline_start (tf_timeline tf) \<le> at \<and> slot_secs (tf_slot_duration tf) \<noteq> 0
     \<and> unat s = unat (tf_slot_offset tf)
         + (at - timeline_start (tf_timeline tf)) div 1000000000 div unat (slot_secs (tf_slot_duration tf))"
  using assms
  by (auto simp: slot_at_def differential_def outcome_simps checked_simps as_secs_def unat_div unat_of_nat_id)

lemma change_frame_Ok:
  "change_frame tf s d = Ok tf' \<longleftrightarrow>
     unat s * unat (slot_secs (tf_slot_duration tf)) < 2 ^ 64 \<and> unat (tf_slot_offset tf) + unat s < 2 ^ 64
     \<and> tf' = \<lparr>tf_timeline = Timeline (timeline_start (tf_timeline tf)
               + unat s * unat (slot_secs (tf_slot_duration tf)) * 1000000000),
             tf_slot_offset = tf_slot_offset tf + s, tf_slot_duration = d\<rparr>"
  by (auto simp: change_frame_def plain_arith_defs checked_mul_def checked_add_def unwrap_opt_def
      advance_timeline_def duration_from_secs_def unat_times_no_ovf split: if_splits)

section \<open>Decimal numerals\<close>

lemma digit_value_char: "d < 10 \<Longrightarrow> digit_value (digit_char d) = Some d"
  by (simp add: digit_value_def digit_char_def Let_def)

text \<open>Parsing continues with the value of the digits read so far.\<close>

lemma parse_digits_append:
  "parse_digits (xs @ ys) = (\<lambda>acc. obind (parse_digits xs acc) (parse_digits ys))"
proof (induction xs)
  case (Cons c xs)
  show ?case by (rule ext) (simp add: Cons.IH obind_assoc split: option.splits)
qed simp

lemma parse_one_digit:
  assumes "d < 10" and "unat acc * 10 + d < 2 ^ 32"
  shows "\<exists>r. parse_digits [digit_char d] acc = Ok r \<and> unat r = unat acc * 10 + d"
proof -
  have m: "unat (acc * 10) = unat acc * 10" using assms(2) unat_times_no_ovf [of acc 10] by simp
  have d: "unat (of_nat d :: u32) = d" using assms(1) by (simp add: unat_of_nat_id)
  have "unat (acc * 10 + of_nat d) = unat acc * 10 + d" using assms(2) m d unat_plus_no_ovf [of "acc * 10" "of_nat d"] by simp
  then show ?thesis
    using assms m d by (simp add: digit_value_char checked_mul_def checked_add_def ok_or_def)
qed

lemma parse_show_nat: "n < 2 ^ 32 \<Longrightarrow> \<exists>r. parse_digits (show_nat n) 0 = Ok r \<and> unat r = n"
proof (induction n rule: show_nat.induct)
  case (1 n)
  show ?case
  proof (cases "n < 10")
    case True
    then show ?thesis using parse_one_digit [of n 0] 1 by (simp add: show_nat.simps [of n])
  next
    case False
    moreover have "n div 10 < 2 ^ 32" using "1.prems" by (meson div_le_dividend le_less_trans)
    ultimately obtain r where r: "parse_digits (show_nat (n div 10)) 0 = Ok r" "unat r = n div 10" using "1.IH" by auto
    have "unat r * 10 + n mod 10 = n" using r(2) by simp
    with parse_one_digit [of "n mod 10" r] 1 obtain q where "parse_digits [digit_char (n mod 10)] r = Ok q" "unat q = n" by auto
    with r False show ?thesis by (simp add: show_nat.simps [of n] parse_digits_append)
  qed
qed

lemma digit_char_not_sign: "d < 10 \<Longrightarrow> digit_char d \<noteq> CHR ''+'' \<and> digit_char d \<noteq> CHR ''.''"
  using digit_value_char [of d] by (auto simp: digit_value_def)

lemma show_nat_digits: "set (show_nat n) \<subseteq> digit_char ` {..<10}" and show_nat_nonempty: "show_nat n \<noteq> []"
proof (induction n rule: show_nat.induct)
  case (1 n)
  { case 1 show ?case using "1.IH"(1) by (subst show_nat.simps) auto }
  { case 2 show ?case by (subst show_nat.simps) auto }
qed

lemma parse_u32_show: "n < 2 ^ 32 \<Longrightarrow> \<exists>r. parse_u32 (show_nat n) = Ok r \<and> unat r = n"
proof -
  assume n: "n < 2 ^ 32"
  obtain c cs where c: "show_nat n = c # cs" using show_nat_nonempty [of n] by (cases "show_nat n") auto
  then have "c \<noteq> CHR ''+''" using show_nat_digits [of n] digit_char_not_sign by auto
  with c parse_show_nat [OF n] show ?thesis by (simp add: parse_u32_def)
qed

lemma split_at_first_dot: "CHR ''.'' \<notin> set a \<Longrightarrow> split_at_dot (a @ ''.'' @ b) = Some (a, b)"
  by (induction a) auto

section \<open>Properties\<close>

text \<open>
  An era maps a slot to its epoch and offset by Euclidean division: a slot before the era has no
  position, the offset lies within the epoch, and the position stands for exactly the distance
  of the slot from the start of the era. An era of zero slots per epoch panics.
\<close>

theorem era_position_of_slot:
  assumes "unat (epoch_start era) + era_offset era s div unat (slots_per_epoch era) < 2 ^ 32"
  shows "case from_slot_to_era era s of
      Ok None \<Rightarrow> s < slot_start era
    | Ok (Some p) \<Rightarrow> slot_start era \<le> s \<and> ep_slot p < slots_per_epoch era \<and> epoch_start era \<le> ep_epoch p
        \<and> (unat (ep_epoch p) - unat (epoch_start era)) * unat (slots_per_epoch era) + unat (ep_slot p) = era_offset era s
    | Err e \<Rightarrow> False
    | Panic \<Rightarrow> slot_start era \<le> s \<and> slots_per_epoch era = 0"
proof (cases "s < slot_start era \<or> slots_per_epoch era = 0")
  case True
  then show ?thesis
    by (cases "s < slot_start era") (auto simp: from_slot_to_era_def plain_arith_defs checked_sub_def unwrap_opt_def)
next
  case False
  then obtain p where p: "from_slot_to_era era s = (Ok (Some p) :: ('a, _) outcome)"
    "unat (ep_epoch p) = unat (epoch_start era) + era_offset era s div unat (slots_per_epoch era)"
    "unat (ep_slot p) = era_offset era s mod unat (slots_per_epoch era)"
    using from_slot_to_era_spec [of era s] assms by (auto simp: not_less)
  have "0 < unat (slots_per_epoch era)" using False by (simp add: word_unat_eq_iff)
  with p False show ?thesis by (simp add: word_less_nat_alt word_le_nat_alt not_less)
qed

theorem era_position_of_slot_witness:
  "case from_slot_to_era \<lparr>epoch_start = 2, slot_start = 2, slots_per_epoch = 4\<rparr> 20 of
     Ok (Some p) \<Rightarrow> (unat (ep_epoch p) - 2) * 4 + unat (ep_slot p) = 18
   | _ \<Rightarrow> False"
proof -
  let ?era = "\<lparr>epoch_start = 2, slot_start = 2, slots_per_epoch = 4\<rparr> :: time_era"
  have h: "unat (epoch_start ?era) + era_offset ?era 20 div unat (slots_per_epoch ?era) < 2 ^ 32" by (simp add: era_offset_def)
  have e: "from_slot_to_era ?era 20 = (Ok (Some \<lparr>ep_epoch = 6, ep_slot = 2\<rparr>) :: (unit, _) outcome)" by code_simp
  show ?thesis using era_position_of_slot [OF h, where 'a = unit] e
    by (simp add: era_offset_def from_slot_to_era_def plain_arith_defs checked_sub_def checked_add_def unwrap_opt_def)
qed

text \<open>
  Converting a slot to its position and back shifts the slot by the epochs before the era:
  \<open>from_era_to_slot\<close> multiplies the absolute epoch number by the epoch length instead of the epochs
  since the start of the era. It inverts \<open>from_slot_to_era\<close> only for an era that starts at epoch 0.
\<close>

theorem era_roundtrip_shift:
  assumes "slot_start era \<le> s" and "slots_per_epoch era \<noteq> 0"
    and "unat (epoch_start era) + era_offset era s div unat (slots_per_epoch era) < 2 ^ 32"
    and "unat s + unat (epoch_start era) * unat (slots_per_epoch era) < 2 ^ 64"
  shows "\<exists>p s'. from_slot_to_era era s = (Ok (Some p) :: ('e, _) outcome) \<and> from_era_to_slot era p = (Ok s' :: ('e, _) outcome)
    \<and> unat s' = unat s + unat (epoch_start era) * unat (slots_per_epoch era)"
proof -
  let ?n = "unat (slots_per_epoch era)"
  obtain p where p: "from_slot_to_era era s = (Ok (Some p) :: ('e, _) outcome)"
    "unat (ep_epoch p) = unat (epoch_start era) + era_offset era s div ?n" "unat (ep_slot p) = era_offset era s mod ?n"
    using from_slot_to_era_spec [OF assms(1-3)] by blast
  have n: "0 < ?n" using assms(2) by (simp add: word_unat_eq_iff)
  have le: "unat (slot_start era) \<le> unat s" using assms(1) by (simp add: word_le_nat_alt)
  have "unat (ep_epoch p) * ?n + unat (ep_slot p) = unat (epoch_start era) * ?n + era_offset era s"
    using p(2,3) by (simp add: add_mult_distrib)
  then have flat: "unat (slot_start era) + unat (ep_epoch p) * ?n + unat (ep_slot p) = unat s + unat (epoch_start era) * ?n"
    using le by (simp add: era_offset_def)
  have "epoch_start era \<le> ep_epoch p" "ep_slot p < slots_per_epoch era"
    using p n by (simp_all add: word_le_nat_alt word_less_nat_alt)
  then obtain s' where "from_era_to_slot era p = (Ok s' :: ('e, _) outcome)"
    "unat s' = unat (slot_start era) + unat (ep_epoch p) * ?n + unat (ep_slot p)"
    using from_era_to_slot_spec [of era p] flat assms(4) by auto
  with p(1) flat show ?thesis by auto
qed

theorem era_roundtrip_shift_witness:
  "\<exists>p s'. from_slot_to_era \<lparr>epoch_start = 2, slot_start = 2, slots_per_epoch = 4\<rparr> 20 = (Ok (Some p) :: (unit, _) outcome)
     \<and> from_era_to_slot \<lparr>epoch_start = 2, slot_start = 2, slots_per_epoch = 4\<rparr> p = (Ok s' :: (unit, _) outcome)
     \<and> unat s' = 28"
  using era_roundtrip_shift [of "\<lparr>epoch_start = 2, slot_start = 2, slots_per_epoch = 4\<rparr>" 20, where 'e = unit]
  by (simp add: era_offset_def)

text \<open>
  Slots and the clock: the time of a slot lies in that slot, and the slot of a time starts at most
  one slot duration before it. So slots cut the timeline without gaps or overlaps.
\<close>

theorem slot_clock_correspondence:
  assumes "slot_secs (tf_slot_duration tf) \<noteq> 0"
    and "(at - timeline_start (tf_timeline tf)) div 1000000000 < 2 ^ 64"
  shows "(slot_to_systemtime tf s = (Ok (Some at) :: ('e, _) outcome) \<longrightarrow> slot_at tf at = (Ok (Some s) :: ('e, _) outcome))
    \<and> (slot_at tf at = (Ok (Some s) :: ('e, _) outcome) \<longrightarrow>
        (\<exists>t. slot_to_systemtime tf s = (Ok (Some t) :: ('e, _) outcome) \<and> t \<le> at
           \<and> at < t + slot_duration_to_duration (tf_slot_duration tf)))"
proof -
  let ?d = "unat (slot_secs (tf_slot_duration tf))" and ?t0 = "timeline_start (tf_timeline tf)"
  let ?secs = "(at - ?t0) div 1000000000"
  have d: "0 < ?d" using assms(1) by (simp add: word_unat_eq_iff)
  have "slot_at tf at = (Ok (Some s) :: ('e, _) outcome)" if t: "slot_to_systemtime tf s = (Ok (Some at) :: ('e, _) outcome)"
  proof -
    let ?k = "unat s - unat (tf_slot_offset tf)"
    have le: "unat (tf_slot_offset tf) \<le> unat s" and at: "at = ?t0 + ?k * ?d * 1000000000"
      using t by (simp_all add: slot_to_systemtime_Some word_le_nat_alt)
    have "at - ?t0 = ?k * ?d * 1000000000" using at by (metis add_diff_cancel_left')
    then have "?secs div ?d = ?k" using d by simp
    moreover have "?t0 \<le> at" using at by (metis le_add1)
    ultimately show ?thesis using le assms(1) by (simp add: slot_at_Some [OF assms(2)])
  qed
  moreover have "\<exists>t. slot_to_systemtime tf s = (Ok (Some t) :: ('e, _) outcome) \<and> t \<le> at
      \<and> at < t + slot_duration_to_duration (tf_slot_duration tf)"
    if s: "slot_at tf at = (Ok (Some s) :: ('e, _) outcome)"
  proof -
    let ?k = "?secs div ?d"
    have at: "?t0 \<le> at" "unat s = unat (tf_slot_offset tf) + ?k" using s slot_at_Some [OF assms(2), of s] by auto
    have lo: "?k * ?d * 1000000000 \<le> at - ?t0"
      by (meson div_times_less_eq_dividend le_trans mult_le_mono1)
    have "?secs < (?k + 1) * ?d" using d by (metis add.commute dividend_less_times_div plus_1_eq_Suc mult_Suc mult.commute)
    then have "at - ?t0 < (?k + 1) * ?d * 1000000000" by (simp add: div_less_iff_less_mult)
    then have hi: "at - ?t0 < ?k * ?d * 1000000000 + ?d * 1000000000" by (simp add: add_mult_distrib)
    have "?k * ?d < 2 ^ 64" using assms(2) div_times_less_eq_dividend [of ?secs ?d] by linarith
    then have "slot_to_systemtime tf s = (Ok (Some (?t0 + ?k * ?d * 1000000000)) :: ('e, _) outcome)"
      using at by (simp add: slot_to_systemtime_Some word_le_nat_alt)
    moreover have "?t0 + ?k * ?d * 1000000000 \<le> at" using lo at(1) by linarith
    moreover have "at < ?t0 + ?k * ?d * 1000000000 + slot_duration_to_duration (tf_slot_duration tf)"
      using hi at(1) by (simp add: slot_duration_to_duration_def duration_from_secs_def)
    ultimately show ?thesis by blast
  qed
  ultimately show ?thesis by blast
qed

theorem slot_clock_correspondence_witness:
  "slot_at (time_frame_new (Timeline 1000) (SlotDuration 5)) (1000 + 80 * 1000000000) = (Ok (Some 16) :: (unit, _) outcome)"
proof -
  let ?tf = "time_frame_new (Timeline 1000) (SlotDuration 5)"
  have "slot_secs (tf_slot_duration ?tf) \<noteq> 0"
    and "(1000 + 80 * 1000000000 - timeline_start (tf_timeline ?tf)) div 1000000000 < 2 ^ 64"
    by (simp_all add: time_frame_new_def)
  moreover have "slot_to_systemtime ?tf 16 = (Ok (Some (1000 + 80 * 1000000000)) :: (unit, _) outcome)"
    by (simp add: slot_to_systemtime_Some time_frame_new_def)
  ultimately show ?thesis using slot_clock_correspondence [of ?tf "1000 + 80 * 1000000000" 16, where 'e = unit] by blast
qed


text \<open>
  A block date is followed by the date of the next slot: numbering the slots from the first epoch,
  \<open>next\<close> adds one, so it is the least later date whose slot lies in its epoch. It panics when the
  slot is outside the epoch, or when the epoch counter is exhausted.
\<close>

theorem block_date_next_successor:
  "(case block_date_next d era :: ('e, _) outcome of
      Ok d' \<Rightarrow> bd_slot d' < slots_per_epoch era \<and> d < d'
        \<and> unat (bd_epoch d') * unat (slots_per_epoch era) + unat (bd_slot d')
            = unat (bd_epoch d) * unat (slots_per_epoch era) + unat (bd_slot d) + 1
    | Err e \<Rightarrow> False
    | Panic \<Rightarrow> slots_per_epoch era \<le> bd_slot d \<or> (bd_epoch d = -1 \<and> unat (bd_slot d) + 1 = unat (slots_per_epoch era)))"
proof (cases "bd_slot d < slots_per_epoch era")
  case False
  then show ?thesis by (simp add: block_date_next_def require_def leD not_less)
next
  case slot: True
  have lt: "unat (bd_slot d) + 1 < 2 ^ 32"
    using slot unat_lt_2p [of "slots_per_epoch era"] by (simp add: word_less_nat_alt)
  then have u: "unat (bd_slot d + 1) = unat (bd_slot d) + 1" using unat_plus_no_ovf [of "bd_slot d" 1] by simp
  have step: "block_date_next d era = (if bd_slot d + 1 = slots_per_epoch era
      then obind (padd (bd_epoch d) 1) (\<lambda>e. Ok (BlockDate e 0)) else Ok (BlockDate (bd_epoch d) (bd_slot d + 1)) :: ('e, _) outcome)"
    using slot lt by (simp add: block_date_next_def require_def padd_def checked_add_def unwrap_opt_def)
  show ?thesis
  proof (cases "bd_slot d + 1 = slots_per_epoch era")
    case wrap: True
    show ?thesis
    proof (cases "unat (bd_epoch d) + 1 < 2 ^ 32")
      case True
      then have "unat (bd_epoch d + 1) = unat (bd_epoch d) + 1" using unat_plus_no_ovf [of "bd_epoch d" 1] by simp
      moreover have "unat (slots_per_epoch era) = unat (bd_slot d) + 1" using u wrap by simp
      ultimately show ?thesis using True wrap
        by (simp add: step padd_def checked_add_def unwrap_opt_def less_block_date_def word_less_nat_alt)
    next
      case False
      then have "unat (bd_epoch d) = 2 ^ 32 - 1" using unat_lt_2p [of "bd_epoch d"] by simp
      then have "bd_epoch d = -1" by (simp add: word_unat_eq_iff unsigned_minus_1_eq_mask mask_eq_exp_minus_1)
      with False wrap u show ?thesis by (simp add: step padd_def checked_add_def unwrap_opt_def)
    qed
  next
    case False
    then have "bd_slot d + 1 < slots_per_epoch era" using slot u by (simp add: word_less_nat_alt word_unat_eq_iff)
    with False u show ?thesis by (simp add: step less_block_date_def word_less_nat_alt)
  qed
qed

text \<open>
  A printed block date parses back to itself, and a packed era unpacks to itself leaving the bytes
  that follow it unread.
\<close>

theorem date_and_era_roundtrip:
  "block_date_from_str (block_date_display d) = Ok d
   \<and> (\<exists>bs. pack_time_era era out = Ok (out @ bs) \<and> unpack_time_era (bs @ tail) = Ok (era, tail))"
proof
  obtain e where e: "parse_u32 (show_nat (unat (bd_epoch d))) = Ok e" "unat e = unat (bd_epoch d)"
    using parse_u32_show [of "unat (bd_epoch d)"] unat_lt_2p [of "bd_epoch d"] by auto
  obtain s where s: "parse_u32 (show_nat (unat (bd_slot d))) = Ok s" "unat s = unat (bd_slot d)"
    using parse_u32_show [of "unat (bd_slot d)"] unat_lt_2p [of "bd_slot d"] by auto
  have "CHR ''.'' \<notin> set (show_nat (unat (bd_epoch d)))"
    using show_nat_digits [of "unat (bd_epoch d)"] digit_char_not_sign by fastforce
  then have "split_at_dot (block_date_display d) = Some (show_nat (unat (bd_epoch d)), show_nat (unat (bd_slot d)))"
    unfolding block_date_display_def by (rule split_at_first_dot)
  with e s show "block_date_from_str (block_date_display d) = Ok d"
    by (cases d) (simp add: block_date_from_str_def word_unat_eq_iff)
next
  let ?bs = "to_be_bytes (epoch_start era) @ to_be_bytes (slot_start era) @ to_be_bytes (slots_per_epoch era)"
  have "pack_time_era era out = Ok (out @ ?bs)" by (simp add: pack_time_era_def codec_put_be_u32_def codec_put_be_u64_def write_all_def)
  moreover have "unpack_time_era (?bs @ tail) = Ok (era, tail)" by (simp add: unpack_time_era_def codec_get_be_u32_def codec_get_be_u64_def read_exact_def)
  ultimately show "\<exists>bs. pack_time_era era out = Ok (out @ bs) \<and> unpack_time_era (bs @ tail) = Ok (era, tail)" by blast
qed

end
