(* ===== verification/Account.thy ===== *)
theory Account
  imports Hamt Spending Chain_Time
begin

text \<open>
  Accounts (\<open>accounting/account\<close>): the state of one account, its delegation, its last rewards and its
  tokens, and the ledger that maps account identifiers to states in a persistent hash trie.

  The identifiers of accounts, stake pools and tokens and the extra data of an account are type
  parameters; the hash functions of the two tries are parameters of the operations.
\<close>

section \<open>Last rewards\<close>

record last_rewards =
  lr_epoch :: epoch
  lr_reward :: val

definition last_rewards_default :: last_rewards where
  "last_rewards_default = \<lparr>lr_epoch = 0, lr_reward = value_zero\<rparr>"

definition add_for :: "last_rewards \<Rightarrow> epoch \<Rightarrow> val \<Rightarrow> ('e, last_rewards) outcome" where
  "add_for lr e v =
     obind (require (lr_epoch lr \<le> e)) (\<lambda>_.
       if lr_epoch lr = e
       then obind (unwrap (value_add (lr_reward lr) v)) (\<lambda>r. Ok (lr\<lparr>lr_reward := r\<rparr>))
       else Ok (lr\<lparr>lr_epoch := e, lr_reward := v\<rparr>))"

section \<open>Delegation\<close>

record 'p delegation_ratio =
  dr_parts :: u8
  dr_pools :: "('p \<times> u8) list"

datatype 'p delegation_type = NonDelegated | Full 'p | Ratio "'p delegation_ratio"

definition DELEGATION_RATIO_MAX_DECLS :: nat where
  "DELEGATION_RATIO_MAX_DECLS = 8"

text \<open>\<open>Iterator::sum\<close> of 32-bit words, which panics on overflow.\<close>

definition sum_u32 :: "u32 list \<Rightarrow> ('e, u32) outcome" where
  "sum_u32 ws = fold (\<lambda>w acc. obind acc (\<lambda>a. padd a w)) ws (Ok 0)"

definition delegation_ratio_is_valid :: "'p delegation_ratio \<Rightarrow> ('e, bool) outcome" where
  "delegation_ratio_is_valid r =
     obind (sum_u32 (map (\<lambda>x. ucast (snd x)) (dr_pools r))) (\<lambda>total_parts.
     let has_no_zero = \<not> list_ex (\<lambda>x. snd x = 0) (dr_pools r) in
     Ok (has_no_zero \<and> dr_parts r > 1 \<and> length (dr_pools r) > 1
         \<and> length (dr_pools r) \<le> DELEGATION_RATIO_MAX_DECLS \<and> total_parts = ucast (dr_parts r)))"

definition delegation_ratio_new :: "u8 \<Rightarrow> ('p \<times> u8) list \<Rightarrow> ('e, 'p delegation_ratio option) outcome" where
  "delegation_ratio_new ps pools =
     obind (sum_u32 (map (\<lambda>x. ucast (snd x)) pools)) (\<lambda>total_parts.
     let has_no_zero = \<not> list_ex (\<lambda>x. snd x = 0) pools in
     Ok (if has_no_zero \<and> ps > 1 \<and> length pools > 1 \<and> length pools \<le> DELEGATION_RATIO_MAX_DECLS
            \<and> total_parts = ucast ps
         then Some \<lparr>dr_parts = ps, dr_pools = pools\<rparr> else None))"

section \<open>The state of an account\<close>

record ('p, 'tk, 'x) account_state =
  acc_spending :: spending_counter_increasing
  acc_delegation :: "'p delegation_type"
  acc_value :: val
  acc_tokens :: "('tk, val) hamt"
  acc_last_rewards :: last_rewards
  acc_extra :: 'x

definition account_state_new :: "val \<Rightarrow> 'x \<Rightarrow> ('p, 'tk, 'x) account_state" where
  "account_state_new v e = \<lparr>acc_spending = sci_default, acc_delegation = NonDelegated, acc_value = v,
     acc_tokens = hamt_new, acc_last_rewards = last_rewards_default, acc_extra = e\<rparr>"

definition account_state_new_reward :: "epoch \<Rightarrow> val \<Rightarrow> 'x \<Rightarrow> ('e, ('p, 'tk, 'x) account_state) outcome" where
  "account_state_new_reward ep v e =
     (let st = account_state_new v e in
      obind (add_for (acc_last_rewards st) ep v) (\<lambda>lr. Ok (st\<lparr>acc_last_rewards := lr\<rparr>)))"

definition account_state_add_value ::
  "('p, 'tk, 'x) account_state \<Rightarrow> val \<Rightarrow> (value_error, ('p, 'tk, 'x) account_state) outcome" where
  "account_state_add_value st v =
     obind (value_add (acc_value st) v) (\<lambda>new_value. Ok (st\<lparr>acc_value := new_value\<rparr>))"

definition account_state_add ::
  "('p, 'tk, 'x) account_state \<Rightarrow> val \<Rightarrow> (account_error, ('p, 'tk, 'x) account_state) outcome" where
  "account_state_add st v =
     obind (map_err ValueErr (value_add (acc_value st) v)) (\<lambda>new_value. Ok (st\<lparr>acc_value := new_value\<rparr>))"

definition account_state_add_rewards ::
  "('p, 'tk, 'x) account_state \<Rightarrow> epoch \<Rightarrow> val \<Rightarrow> (value_error, ('p, 'tk, 'x) account_state) outcome" where
  "account_state_add_rewards st e v =
     obind (value_add (acc_value st) v) (\<lambda>new_value.
     let st = st\<lparr>acc_value := new_value\<rparr> in
     obind (add_for (acc_last_rewards st) e v) (\<lambda>lr. Ok (st\<lparr>acc_last_rewards := lr\<rparr>)))"

definition account_state_sub ::
  "('p, 'tk, 'x) account_state \<Rightarrow> spending_counter \<Rightarrow> val
   \<Rightarrow> (account_error, ('p, 'tk, 'x) account_state option) outcome" where
  "account_state_sub st c v =
     obind (map_err ValueErr (value_sub (acc_value st) v)) (\<lambda>new_value.
     obind (next_verify (acc_spending st) c) (\<lambda>s.
     Ok (Some (st\<lparr>acc_spending := s, acc_value := new_value\<rparr>))))"

definition account_state_token_add ::
  "'tk hasher \<Rightarrow> ('p, 'tk, 'x) account_state \<Rightarrow> 'tk \<Rightarrow> val
   \<Rightarrow> (account_error, ('p, 'tk, 'x) account_state) outcome" where
  "account_state_token_add ht st token v =
     obind (map_err ValueErr (hamt_insert_or_update ht (acc_tokens st) token v
       (\<lambda>current_value. omap Some (value_add current_value v)))) (\<lambda>toks.
     Ok (st\<lparr>acc_tokens := toks\<rparr>))"

definition account_state_set_delegation ::
  "('p, 'tk, 'x) account_state \<Rightarrow> 'p delegation_type \<Rightarrow> ('p, 'tk, 'x) account_state" where
  "account_state_set_delegation st d = st\<lparr>acc_delegation := d\<rparr>"

section \<open>The ledger of accounts\<close>

type_synonym ('i, 'p, 'tk, 'x) account_ledger = "('i, ('p, 'tk, 'x) account_state) hamt"

text \<open>\<open>impl From\<close> of the trie's errors.\<close>

fun update_error_into :: "account_error update_error \<Rightarrow> account_error" where
  "update_error_into UpdateKeyNotFound = NonExistent"
| "update_error_into (ValueCallbackError v) = v"

fun insert_error_into :: "insert_error \<Rightarrow> account_error" where
  "insert_error_into EntryExists = AccountAlreadyExists"

definition account_new :: "('i, 'p, 'tk, 'x) account_ledger" where
  "account_new = hamt_new"

definition add_account ::
  "'i hasher \<Rightarrow> ('i, 'p, 'tk, 'x) account_ledger \<Rightarrow> 'i \<Rightarrow> val \<Rightarrow> 'x
   \<Rightarrow> (account_error, ('i, 'p, 'tk, 'x) account_ledger) outcome" where
  "add_account hf l i initial_value e =
     map_err insert_error_into (hamt_insert hf l i (account_state_new initial_value e))"

definition set_delegation ::
  "'i hasher \<Rightarrow> ('i, 'p, 'tk, 'x) account_ledger \<Rightarrow> 'i \<Rightarrow> 'p delegation_type
   \<Rightarrow> (account_error, ('i, 'p, 'tk, 'x) account_ledger) outcome" where
  "set_delegation hf l i d =
     map_err update_error_into (hamt_update hf l i (\<lambda>st. Ok (Some (account_state_set_delegation st d))))"

definition account_exists :: "'i hasher \<Rightarrow> ('i, 'p, 'tk, 'x) account_ledger \<Rightarrow> 'i \<Rightarrow> ('e, bool) outcome" where
  "account_exists hf l i = hamt_contains_key hf l i"

definition get_state ::
  "'i hasher \<Rightarrow> ('i, 'p, 'tk, 'x) account_ledger \<Rightarrow> 'i \<Rightarrow> (account_error, ('p, 'tk, 'x) account_state) outcome" where
  "get_state hf l i = obind (hamt_lookup hf l i) (ok_or NonExistent)"

definition remove_account ::
  "'i hasher \<Rightarrow> ('i, 'p, 'tk, 'x) account_ledger \<Rightarrow> 'i \<Rightarrow> (account_error, ('i, 'p, 'tk, 'x) account_ledger) outcome" where
  "remove_account hf l i =
     map_err update_error_into (hamt_update hf l i
       (\<lambda>st. if acc_value st = value_zero then Ok None else Err NonZero))"

definition account_add_value ::
  "'i hasher \<Rightarrow> ('i, 'p, 'tk, 'x) account_ledger \<Rightarrow> 'i \<Rightarrow> val
   \<Rightarrow> (account_error, ('i, 'p, 'tk, 'x) account_ledger) outcome" where
  "account_add_value hf l i v =
     map_err update_error_into (hamt_update hf l i (\<lambda>st. omap Some (account_state_add st v)))"

definition add_value_or_account ::
  "'i hasher \<Rightarrow> ('i, 'p, 'tk, 'x) account_ledger \<Rightarrow> 'i \<Rightarrow> val \<Rightarrow> 'x
   \<Rightarrow> (value_error, ('i, 'p, 'tk, 'x) account_ledger) outcome" where
  "add_value_or_account hf l i v e =
     hamt_insert_or_update hf l i (account_state_new v e) (\<lambda>st. omap Some (account_state_add_value st v))"

definition add_rewards_to_account ::
  "'i hasher \<Rightarrow> ('i, 'p, 'tk, 'x) account_ledger \<Rightarrow> 'i \<Rightarrow> epoch \<Rightarrow> val \<Rightarrow> 'x
   \<Rightarrow> (value_error, ('i, 'p, 'tk, 'x) account_ledger) outcome" where
  "add_rewards_to_account hf l i ep v e =
     obind (account_state_new_reward ep v e) (\<lambda>st0.
     hamt_insert_or_update hf l i st0 (\<lambda>st. omap Some (account_state_add_rewards st ep v)))"

definition remove_value ::
  "'i hasher \<Rightarrow> ('i, 'p, 'tk, 'x) account_ledger \<Rightarrow> 'i \<Rightarrow> spending_counter \<Rightarrow> val
   \<Rightarrow> (account_error, ('i, 'p, 'tk, 'x) account_ledger) outcome" where
  "remove_value hf l i c v =
     map_err update_error_into (hamt_update hf l i (\<lambda>st. account_state_sub st c v))"

definition get_total_value :: "('i, 'p, 'tk, 'x) account_ledger \<Rightarrow> (value_error, val) outcome" where
  "get_total_value l = value_sum (map (\<lambda>(_, st). acc_value st) (hamt_iter l))"

definition token_add ::
  "'i hasher \<Rightarrow> 'tk hasher \<Rightarrow> ('i, 'p, 'tk, 'x) account_ledger \<Rightarrow> 'i \<Rightarrow> 'tk \<Rightarrow> val
   \<Rightarrow> (account_error, ('i, 'p, 'tk, 'x) account_ledger) outcome" where
  "token_add hf ht l i token v =
     map_err update_error_into (hamt_update hf l i (\<lambda>st. omap Some (account_state_token_add ht st token v)))"

definition account_from_iter ::
  "'i hasher \<Rightarrow> ('i \<times> ('p, 'tk, 'x) account_state) list \<Rightarrow> (unit, ('i, 'p, 'tk, 'x) account_ledger) outcome" where
  "account_from_iter hf kvs = hamt_from_iter hf kvs"

section \<open>The invariant\<close>

text \<open>Every account has one counter per lane and a well-formed token map.\<close>

definition account_state_ok :: "'tk hasher \<Rightarrow> ('p, 'tk, 'x) account_state \<Rightarrow> bool" where
  "account_state_ok ht st \<longleftrightarrow> sci_ok (acc_spending st) \<and> hamt_ok ht (acc_tokens st)"

definition account_ok :: "'i hasher \<Rightarrow> 'tk hasher \<Rightarrow> ('i, 'p, 'tk, 'x) account_ledger \<Rightarrow> bool" where
  "account_ok hf ht l \<longleftrightarrow> hamt_ok hf l \<and> (\<forall>i st. hamt_map hf l i = Some st \<longrightarrow> account_state_ok ht st)"

lemma account_okD:
  assumes "account_ok hf ht l"
  shows "hamt_ok hf l" and "hamt_map hf l i = Some st \<Longrightarrow> account_state_ok ht st"
  using assms by (auto simp: account_ok_def)

lemma account_new_ok [simp]: "account_ok hf ht account_new" "hamt_map hf account_new = Map.empty"
  by (simp_all add: account_ok_def account_new_def)

lemma account_state_new_ok [simp]: "account_state_ok ht (account_state_new v e)"
  by (simp add: account_state_ok_def account_state_new_def sci_default_ok)

lemma account_ok_upd:
  assumes "account_ok hf ht l" and "hamt_ok hf l'" and "hamt_map hf l' = (hamt_map hf l)(i := w)"
    and "\<And>st. w = Some st \<Longrightarrow> account_state_ok ht st"
  shows "account_ok hf ht l'"
  using assms by (auto simp: account_ok_def split: if_splits)

text \<open>An update of one account, and an update that may create it, by the result of the callback.\<close>

lemma account_update:
  assumes "account_ok hf ht l"
  shows "case hamt_map hf l i of
      None \<Rightarrow> map_err update_error_into (hamt_update hf l i f) = Err NonExistent
    | Some st \<Rightarrow> (case f st of
        Err e \<Rightarrow> map_err update_error_into (hamt_update hf l i f) = Err e
      | Panic \<Rightarrow> map_err update_error_into (hamt_update hf l i f) = Panic
      | Ok w \<Rightarrow> \<exists>l'. map_err update_error_into (hamt_update hf l i f) = Ok l'
          \<and> hamt_map hf l' = (hamt_map hf l)(i := w) \<and> hamt_ok hf l')"
proof (cases "hamt_map hf l i")
  case None
  then show ?thesis using pm.upd_missing [OF account_okD(1) [OF assms] None, of f] by simp
next
  case (Some st)
  note ok = account_okD(1) [OF assms]
  show ?thesis
  proof (cases "f st")
    case (Ok w)
    then show ?thesis using pm.upd_ok [OF ok Some, of f w] Some by auto
  qed (use Some pm.upd_error [OF ok Some, of f] pm.upd_panic [OF ok Some, of f] in auto)
qed

section \<open>Operations on a state\<close>

lemma account_state_add_spec:
  "case account_state_add st v of
     Ok st' \<Rightarrow> \<exists>n. coins n = coins (acc_value st) + coins v \<and> st' = st\<lparr>acc_value := n\<rparr>
   | Err e \<Rightarrow> e = ValueErr Overflow \<and> 2 ^ 64 \<le> coins (acc_value st) + coins v
   | Panic \<Rightarrow> False"
  by (auto simp: account_state_add_def outcome_simps checked_simps split: outcome.splits)

lemma account_state_add_value_spec:
  "case account_state_add_value st v of
     Ok st' \<Rightarrow> \<exists>n. coins n = coins (acc_value st) + coins v \<and> st' = st\<lparr>acc_value := n\<rparr>
   | Err e \<Rightarrow> e = Overflow \<and> 2 ^ 64 \<le> coins (acc_value st) + coins v
   | Panic \<Rightarrow> False"
  by (auto simp: account_state_add_value_def outcome_simps checked_simps split: outcome.splits)

text \<open>What \<open>add_for\<close> leaves: the rewards of one epoch add up, a later epoch starts over.\<close>

lemma add_for_spec:
  "case add_for lr e v of
     Ok lr' \<Rightarrow> lr_epoch lr \<le> e \<and> lr_epoch lr' = e
       \<and> coins (lr_reward lr') = (if lr_epoch lr = e then coins (lr_reward lr) else 0) + coins v
   | Err x \<Rightarrow> False
   | Panic \<Rightarrow> e < lr_epoch lr \<or> (lr_epoch lr = e \<and> 2 ^ 64 \<le> coins (lr_reward lr) + coins v)"
proof (cases "lr_epoch lr \<le> e")
  case True
  then show ?thesis
    by (cases rule: value_add_cases [of "lr_reward lr" v]) (simp_all add: add_for_def require_def)
qed (auto simp: add_for_def require_def)

lemma account_state_new_reward_spec:
  "\<exists>st. account_state_new_reward ep v e = (Ok st :: ('e, ('p, 'tk, 'x) account_state) outcome)
     \<and> acc_value st = v \<and> acc_spending st = sci_default \<and> acc_tokens st = hamt_new
     \<and> acc_delegation st = NonDelegated \<and> acc_extra st = e
     \<and> acc_last_rewards st = \<lparr>lr_epoch = ep, lr_reward = v\<rparr>"
proof (cases "add_for last_rewards_default ep v :: ('e, _) outcome")
  case (Ok lr)
  with add_for_spec [of last_rewards_default ep v, where 'a = 'e]
  have "lr_epoch lr = ep" "coins (lr_reward lr) = coins v" by (auto simp: last_rewards_default_def split: if_splits)
  then have "lr = \<lparr>lr_epoch = ep, lr_reward = v\<rparr>" by (simp add: coins_eq_iff)
  with Ok show ?thesis by (simp add: account_state_new_reward_def account_state_new_def)
next
  case Panic
  with add_for_spec [of last_rewards_default ep v, where 'a = 'e] coins_less [of v] show ?thesis
    by (auto simp: last_rewards_default_def)
qed (use add_for_spec [of last_rewards_default ep v, where 'a = 'e] in auto)

lemma account_state_add_rewards_spec:
  "case account_state_add_rewards st e v of
     Ok st' \<Rightarrow> \<exists>n lr. coins n = coins (acc_value st) + coins v
       \<and> add_for (acc_last_rewards st) e v = (Ok lr :: (value_error, _) outcome)
       \<and> st' = st\<lparr>acc_value := n, acc_last_rewards := lr\<rparr>
   | Err x \<Rightarrow> x = Overflow \<and> 2 ^ 64 \<le> coins (acc_value st) + coins v
   | Panic \<Rightarrow> coins (acc_value st) + coins v < 2 ^ 64 \<and> add_for (acc_last_rewards st) e v = (Panic :: (value_error, _) outcome)"
proof (cases rule: value_add_cases [of "acc_value st" v])
  case (sum n)
  with coins_less [of n] show ?thesis
    using add_for_spec [of "acc_last_rewards st" e v, where 'a = value_error]
    by (cases "add_for (acc_last_rewards st) e v :: (value_error, _) outcome") (auto simp: account_state_add_rewards_def)
qed (simp add: account_state_add_rewards_def)

lemma account_state_sub_spec:
  assumes "account_state_ok ht st"
  shows "if coins (acc_value st) < coins v then account_state_sub st c v = Err (ValueErr NegativeAmount)
    else if nexts (acc_spending st) ! lane c \<noteq> c then account_state_sub st c v = Err SpendingCredentialInvalid
    else \<exists>s n. account_state_sub st c v = Ok (Some (st\<lparr>acc_spending := s, acc_value := n\<rparr>))
      \<and> coins (acc_value st) = coins n + coins v \<and> next_verify (acc_spending st) c = Ok s \<and> sci_ok s"
proof (cases rule: value_sub_cases [of "acc_value st" v])
  case (diff n)
  have sci: "sci_ok (acc_spending st)" using assms by (simp add: account_state_ok_def)
  show ?thesis
    using next_verify_spec [OF sci, of c] diff assms
    by (cases "next_verify (acc_spending st) c") (auto simp: account_state_sub_def account_state_ok_def)
qed (simp add: account_state_sub_def)

section \<open>Sequences of ledger operations\<close>

datatype 'i account_event =
    Deposit 'i val
  | Withdraw 'i spending_counter val
  | Close 'i
  | Amend 'i

text \<open>
  One successful operation of the ledger. The side conditions ask that a new identifier does not
  collide with the hash of a stored one.
\<close>

inductive account_step ::
  "'i hasher \<Rightarrow> 'tk hasher \<Rightarrow> ('i, 'p, 'tk, 'x) account_ledger \<Rightarrow> 'i account_event
   \<Rightarrow> ('i, 'p, 'tk, 'x) account_ledger \<Rightarrow> bool"
  for hf ht where
  step_open: "hash_fresh hf l i \<Longrightarrow> add_account hf l i v e = Ok l' \<Longrightarrow> account_step hf ht l (Deposit i v) l'"
| step_value: "account_add_value hf l i v = Ok l' \<Longrightarrow> account_step hf ht l (Deposit i v) l'"
| step_upsert: "hash_fresh hf l i \<Longrightarrow> add_value_or_account hf l i v e = Ok l' \<Longrightarrow> account_step hf ht l (Deposit i v) l'"
| step_reward: "hash_fresh hf l i \<Longrightarrow> add_rewards_to_account hf l i ep v e = Ok l' \<Longrightarrow>
    account_step hf ht l (Deposit i v) l'"
| step_withdraw: "remove_value hf l i c v = Ok l' \<Longrightarrow> account_step hf ht l (Withdraw i c v) l'"
| step_close: "remove_account hf l i = Ok l' \<Longrightarrow> account_step hf ht l (Close i) l'"
| step_delegate: "set_delegation hf l i d = Ok l' \<Longrightarrow> account_step hf ht l (Amend i) l'"
| step_token: "(\<And>st. hamt_map hf l i = Some st \<Longrightarrow> hash_fresh ht (acc_tokens st) tk) \<Longrightarrow>
    token_add hf ht l i tk v = Ok l' \<Longrightarrow> account_step hf ht l (Amend i) l'"

inductive account_run ::
  "'i hasher \<Rightarrow> 'tk hasher \<Rightarrow> ('i, 'p, 'tk, 'x) account_ledger \<Rightarrow> 'i account_event list
   \<Rightarrow> ('i, 'p, 'tk, 'x) account_ledger \<Rightarrow> bool"
  for hf ht where
  arun_nil: "account_run hf ht l [] l"
| arun_cons: "account_step hf ht l e l' \<Longrightarrow> account_run hf ht l' es l'' \<Longrightarrow> account_run hf ht l (e # es) l''"

text \<open>What an event does to the state of its account, as the abstract ledger sees it.\<close>

primrec event_account :: "'i account_event \<Rightarrow> 'i" where
  "event_account (Deposit i v) = i"
| "event_account (Withdraw i c v) = i"
| "event_account (Close i) = i"
| "event_account (Amend i) = i"

definition account_balance :: "('p, 'tk, 'x) account_state option \<Rightarrow> nat" where
  "account_balance st = (case st of None \<Rightarrow> 0 | Some s \<Rightarrow> coins (acc_value s))"

definition counters_of :: "('p, 'tk, 'x) account_state option \<Rightarrow> spending_counter_increasing" where
  "counters_of st = (case st of None \<Rightarrow> sci_default | Some s \<Rightarrow> acc_spending s)"

fun event_effect ::
  "'i account_event \<Rightarrow> ('p, 'tk, 'x) account_state option \<Rightarrow> ('p, 'tk, 'x) account_state option \<Rightarrow> bool" where
  "event_effect (Deposit i v) old new \<longleftrightarrow>
     new \<noteq> None \<and> account_balance new = account_balance old + coins v \<and> counters_of new = counters_of old"
| "event_effect (Withdraw i c v) old new \<longleftrightarrow>
     old \<noteq> None \<and> new \<noteq> None \<and> account_balance old = account_balance new + coins v \<and> next_verify (counters_of old) c = Ok (counters_of new)"
| "event_effect (Close i) old new \<longleftrightarrow> old \<noteq> None \<and> account_balance old = 0 \<and> new = None"
| "event_effect (Amend i) old new \<longleftrightarrow>
     old \<noteq> None \<and> new \<noteq> None \<and> account_balance new = account_balance old \<and> counters_of new = counters_of old"

lemmas account_views = account_balance_def counters_of_def

text \<open>A successful update and a successful update-or-create, as one change of the abstract ledger.\<close>

lemma account_update_Ok:
  assumes "account_ok hf ht l" and "map_err update_error_into (hamt_update hf l i f) = Ok l'"
  shows "\<exists>st w. hamt_map hf l i = Some st \<and> f st = Ok w \<and> account_state_ok ht st
    \<and> hamt_map hf l' = (hamt_map hf l)(i := w) \<and> hamt_ok hf l'"
  using account_update [OF assms(1), of i f] assms account_okD(2) [OF assms(1), of i]
  by (auto split: option.splits outcome.splits)

lemma account_upsert_Ok:
  assumes "account_ok hf ht l" and "hash_fresh hf l i" and "hamt_insert_or_update hf l i st0 f = Ok l'"
  shows "hamt_ok hf l' \<and> (case hamt_map hf l i of
      None \<Rightarrow> hamt_map hf l' = (hamt_map hf l)(i \<mapsto> st0)
    | Some st \<Rightarrow> \<exists>w. f st = Ok w \<and> account_state_ok ht st \<and> hamt_map hf l' = (hamt_map hf l)(i := w))"
  using hamt_upsert_ok [OF account_okD(1) [OF assms(1)], of i st0 f] assms account_okD(2) [OF assms(1), of i]
  by (auto split: option.splits outcome.splits)

lemma account_token_add_ok:
  assumes "account_state_ok ht st" and "hash_fresh ht (acc_tokens st) tk"
    and "account_state_token_add ht st tk v = Ok st'"
  shows "\<exists>toks n. st' = st\<lparr>acc_tokens := toks\<rparr> \<and> hamt_ok ht toks
    \<and> coins n = (case hamt_map ht (acc_tokens st) tk of None \<Rightarrow> 0 | Some cur \<Rightarrow> coins cur) + coins v
    \<and> hamt_map ht toks = (hamt_map ht (acc_tokens st))(tk \<mapsto> n)"
proof -
  let ?f = "\<lambda>cur. omap Some (value_checked_add cur v)"
  have ok: "hamt_ok ht (acc_tokens st)" using assms(1) by (simp add: account_state_ok_def)
  obtain t where t: "hamt_insert_or_update ht (acc_tokens st) tk v ?f = Ok t" and st': "st' = st\<lparr>acc_tokens := t\<rparr>"
    using assms(3) by (auto simp: account_state_token_add_def outcome_simps)
  have "hamt_ok ht t \<and> (\<exists>n. coins n = (case hamt_map ht (acc_tokens st) tk of None \<Rightarrow> 0 | Some cur \<Rightarrow> coins cur) + coins v
      \<and> hamt_map ht t = (hamt_map ht (acc_tokens st))(tk \<mapsto> n))"
  proof (cases "hamt_map ht (acc_tokens st) tk")
    case None
    then show ?thesis using hamt_upsert_ok [OF ok, of tk v ?f] t assms(2) by auto
  next
    case (Some cur)
    then show ?thesis
      using hamt_upsert_ok [OF ok, of tk v ?f] t by (cases rule: value_add_cases [of cur v]) auto
  qed
  with st' show ?thesis by blast
qed

text \<open>Every successful operation changes one account, as its event says, and keeps the invariant.\<close>

definition effective ::
  "'i hasher \<Rightarrow> 'tk hasher \<Rightarrow> ('i, 'p, 'tk, 'x) account_ledger \<Rightarrow> 'i account_event
   \<Rightarrow> ('i, 'p, 'tk, 'x) account_ledger \<Rightarrow> bool" where
  "effective hf ht l e l' \<longleftrightarrow> account_ok hf ht l' \<and> (\<exists>w. hamt_map hf l' = (hamt_map hf l)(event_account e := w)
     \<and> event_effect e (hamt_map hf l (event_account e)) w)"

lemma effectiveI:
  assumes "account_ok hf ht l" and "hamt_ok hf l'" and "hamt_map hf l' = (hamt_map hf l)(i := w)"
    and "event_account e = i" and "event_effect e (hamt_map hf l i) w"
    and "\<And>st. w = Some st \<Longrightarrow> account_state_ok ht st"
  shows "effective hf ht l e l'"
  using assms account_ok_upd [OF assms(1-3)] by (auto simp: effective_def)

lemma account_step_effect:
  fixes l :: "('i, 'p, 'tk, 'x) account_ledger"
  assumes "account_step hf ht l e l'" and "account_ok hf ht l"
  shows "effective hf ht l e l'"
  using assms(1)
proof (cases rule: account_step.cases)
  case (step_open i v x)
  have none: "hamt_map hf l i = None"
    using step_open pm.ins_old [OF account_okD(1) [OF assms(2)], of i] by (fastforce simp: add_account_def outcome_simps)
  then have "hamt_ok hf l'" "hamt_map hf l' = (hamt_map hf l)(i \<mapsto> account_state_new v x)"
    using step_open pm.ins_new [OF account_okD(1) [OF assms(2)] none, of "account_state_new v x"]
    by (auto simp: add_account_def outcome_simps)
  then show ?thesis using none step_open(1)
    by (intro effectiveI [OF assms(2), of l' i "Some (account_state_new v x)"]) (auto simp: account_views, simp_all add: account_state_new_def)
next
  case (step_value i v)
  then obtain st w where st: "hamt_map hf l i = Some st" "omap Some (account_state_add st v) = Ok w"
    "account_state_ok ht st" "hamt_map hf l' = (hamt_map hf l)(i := w)" "hamt_ok hf l'"
    using account_update_Ok [OF assms(2)] unfolding account_add_value_def by blast
  then obtain n where "w = Some (st\<lparr>acc_value := n\<rparr>)" "coins n = coins (acc_value st) + coins v"
    using account_state_add_spec [of st v] by (auto simp: outcome_simps)
  then show ?thesis using st step_value
    by (intro effectiveI [OF assms(2) st(5,4)]) (auto simp: account_views account_state_ok_def)
next
  case (step_upsert i v x)
  note u = account_upsert_Ok [OF assms(2) step_upsert(2) step_upsert(3) [unfolded add_value_or_account_def]]
  show ?thesis
  proof (cases "hamt_map hf l i")
    case None
    with u have "hamt_ok hf l'" "hamt_map hf l' = (hamt_map hf l)(i \<mapsto> account_state_new v x)" by simp_all
    then show ?thesis using None step_upsert(1)
      by (intro effectiveI [OF assms(2), of l' i "Some (account_state_new v x)"]) (auto simp: account_views, simp_all add: account_state_new_def)
  next
    case (Some st)
    with u obtain st' where st': "account_state_add_value st v = Ok st'" "account_state_ok ht st" "hamt_ok hf l'"
      "hamt_map hf l' = (hamt_map hf l)(i \<mapsto> st')" by (auto simp: outcome_simps)
    then obtain n where "st' = st\<lparr>acc_value := n\<rparr>" "coins n = coins (acc_value st) + coins v"
      using account_state_add_value_spec [of st v] by auto
    then show ?thesis using Some st'(2) step_upsert(1)
      by (intro effectiveI [OF assms(2) st'(3,4)]) (auto simp: account_views account_state_ok_def)
  qed
next
  case (step_reward i ep v x)
  obtain st0 :: "('p, 'tk, 'x) account_state" where st0: "account_state_new_reward ep v x = (Ok st0 :: (value_error, _) outcome)" "acc_value st0 = v"
    "acc_spending st0 = sci_default" "acc_tokens st0 = hamt_new"
    using account_state_new_reward_spec [of ep v x, where 'e = value_error] by (elim exE conjE)
  have "hamt_insert_or_update hf l i st0 (\<lambda>st. omap Some (account_state_add_rewards st ep v)) = Ok l'"
    using step_reward(3) st0(1) by (simp add: add_rewards_to_account_def)
  note u = account_upsert_Ok [OF assms(2) step_reward(2) this]
  show ?thesis
  proof (cases "hamt_map hf l i")
    case None
    with u have "hamt_ok hf l'" "hamt_map hf l' = (hamt_map hf l)(i \<mapsto> st0)" by simp_all
    then show ?thesis using None step_reward(1) st0
      by (intro effectiveI [OF assms(2), of l' i "Some st0"]) (auto simp: account_views account_state_ok_def sci_default_ok)
  next
    case (Some st)
    with u obtain st' where st': "account_state_add_rewards st ep v = Ok st'" "account_state_ok ht st" "hamt_ok hf l'"
      "hamt_map hf l' = (hamt_map hf l)(i \<mapsto> st')" by (auto simp: outcome_simps)
    then obtain n lr where "st' = st\<lparr>acc_value := n, acc_last_rewards := lr\<rparr>" "coins n = coins (acc_value st) + coins v"
      using account_state_add_rewards_spec [of st v ep] by auto
    then show ?thesis using Some st'(2) step_reward(1)
      by (intro effectiveI [OF assms(2) st'(3,4)]) (auto simp: account_views account_state_ok_def)
  qed
next
  case (step_withdraw i c v)
  then obtain st w where st: "hamt_map hf l i = Some st" "account_state_sub st c v = Ok w"
    "account_state_ok ht st" "hamt_map hf l' = (hamt_map hf l)(i := w)" "hamt_ok hf l'"
    using account_update_Ok [OF assms(2)] unfolding remove_value_def by blast
  then obtain s n where "w = Some (st\<lparr>acc_spending := s, acc_value := n\<rparr>)"
    "coins (acc_value st) = coins n + coins v" "next_verify (acc_spending st) c = Ok s" "sci_ok s"
    using account_state_sub_spec [OF st(3), of v c] by (auto split: if_splits)
  then show ?thesis using st step_withdraw(1)
    by (intro effectiveI [OF assms(2) st(5,4)]) (auto simp: account_views account_state_ok_def)
next
  case (step_close i)
  then obtain st w where st: "hamt_map hf l i = Some st" "(if acc_value st = value_zero then Ok None else Err NonZero) = Ok w"
    "hamt_map hf l' = (hamt_map hf l)(i := w)" "hamt_ok hf l'"
    using account_update_Ok [OF assms(2)] unfolding remove_account_def by blast
  then have "w = None" "acc_value st = value_zero" by (simp_all split: if_splits)
  then show ?thesis using st(1) step_close(1)
    by (intro effectiveI [OF assms(2) st(4,3)]) (auto simp: account_views)
next
  case (step_delegate i d)
  then obtain st where st: "hamt_map hf l i = Some st" "account_state_ok ht st"
    "hamt_map hf l' = (hamt_map hf l)(i \<mapsto> account_state_set_delegation st d)" "hamt_ok hf l'"
    using account_update_Ok [OF assms(2)] unfolding set_delegation_def by fastforce
  then show ?thesis using step_delegate(1)
    by (intro effectiveI [OF assms(2) st(4,3)]) (auto simp: account_views account_state_ok_def account_state_set_delegation_def)
next
  case (step_token i tk v)
  then obtain st w where st: "hamt_map hf l i = Some st" "omap Some (account_state_token_add ht st tk v) = Ok w"
    "account_state_ok ht st" "hamt_map hf l' = (hamt_map hf l)(i := w)" "hamt_ok hf l'"
    using account_update_Ok [OF assms(2)] unfolding token_add_def by blast
  then obtain st' where st': "w = Some st'" "account_state_token_add ht st tk v = Ok st'" by (auto simp: outcome_simps)
  obtain toks where "st' = st\<lparr>acc_tokens := toks\<rparr>" "hamt_ok ht toks"
    using account_token_add_ok [OF st(3) step_token(2) [OF st(1)] st'(2)] by blast
  then show ?thesis using st st'(1) step_token(1)
    by (intro effectiveI [OF assms(2) st(5,4)]) (auto simp: account_views account_state_ok_def)
qed

section \<open>Sums of delegation parts\<close>

lemma fold_padd:
  "unat a + sum_list (map unat ws) < 2 ^ 32 \<Longrightarrow>
   \<exists>t. fold (\<lambda>w acc. obind acc (\<lambda>a. padd a w)) ws (Ok a) = (Ok t :: ('e, u32) outcome) \<and> unat t = unat a + sum_list (map unat ws)"
proof (induction ws arbitrary: a)
  case (Cons w ws)
  then have "unat (a + w) = unat a + unat w" by (simp add: unat_plus_no_ovf)
  moreover from this have "padd a w = (Ok (a + w) :: ('e, _) outcome)" by (simp add: checked_simps)
  ultimately show ?case using Cons.IH [of "a + w"] Cons.prems by (simp add: add.assoc)
qed simp

lemma sum_u32_parts:
  assumes "length pools < 2 ^ 24"
  shows "\<exists>t. sum_u32 (map (\<lambda>x. ucast (snd x)) (pools :: ('p \<times> u8) list)) = (Ok t :: ('e, _) outcome)
    \<and> unat t = (\<Sum>x \<leftarrow> pools. unat (snd x))"
proof -
  have "(\<Sum>x \<leftarrow> pools. unat (snd x)) \<le> length pools * 255"
  proof (induction pools)
    case (Cons x pools)
    then show ?case using unat_lt_2p [of "snd x"] by simp
  qed simp
  then have "(\<Sum>x \<leftarrow> pools. unat (snd x)) < 2 ^ 32" using assms by simp
  then show ?thesis
    using fold_padd [of 0 "map (\<lambda>x. ucast (snd x)) pools", where 'e = 'e] by (simp add: sum_u32_def comp_def unat_ucast_up)
qed

section \<open>Totals and runs\<close>

definition account_total :: "'i hasher \<Rightarrow> ('i, 'p, 'tk, 'x) account_ledger \<Rightarrow> nat" where
  "account_total hf l = (\<Sum>i \<in> dom (hamt_map hf l). coins (acc_value (the (hamt_map hf l i))))"

lemma account_total_upd:
  assumes "account_ok hf ht l" and "hamt_map hf l' = (hamt_map hf l)(i := w)"
  shows "account_total hf l' + account_balance (hamt_map hf l i) = account_total hf l + account_balance w"
  using pm.sum_update [OF account_okD(1) [OF assms(1)] assms(2), of "\<lambda>st. coins (acc_value st)"]
  by (simp add: account_total_def account_balance_def comp_def)

lemma get_total_value_exact:
  assumes "account_ok hf ht l"
  shows "get_total_value l = Ok t \<longleftrightarrow> coins t = account_total hf l"
    and "get_total_value l = Err x \<longleftrightarrow> x = Overflow \<and> 2 ^ 64 \<le> account_total hf l"
proof -
  have "coin_total (map (\<lambda>(_, st). acc_value st) (hamt_iter l)) = account_total hf l"
    using pm.sum_entries [OF account_okD(1) [OF assms], of "\<lambda>_ st. coins (acc_value st)"]
    by (simp add: coin_total_def account_total_def comp_def case_prod_unfold)
  then show "get_total_value l = Ok t \<longleftrightarrow> coins t = account_total hf l"
    and "get_total_value l = Err x \<longleftrightarrow> x = Overflow \<and> 2 ^ 64 \<le> account_total hf l"
    by (simp_all add: get_total_value_def checked_simps)
qed

primrec deposited :: "'i account_event \<Rightarrow> nat" where
  "deposited (Deposit i v) = coins v"
| "deposited (Withdraw i c v) = 0"
| "deposited (Close i) = 0"
| "deposited (Amend i) = 0"

primrec withdrawn :: "'i account_event \<Rightarrow> nat" where
  "withdrawn (Deposit i v) = 0"
| "withdrawn (Withdraw i c v) = coins v"
| "withdrawn (Close i) = 0"
| "withdrawn (Amend i) = 0"

lemma event_effect_balance:
  "event_effect e old new \<Longrightarrow> account_balance new + withdrawn e = account_balance old + deposited e"
  by (cases e) (auto simp: account_balance_def)

lemma effective_total:
  assumes "effective hf ht l e l'" and "account_ok hf ht l"
  shows "account_total hf l' + withdrawn e = account_total hf l + deposited e"
proof -
  obtain w where w: "hamt_map hf l' = (hamt_map hf l)(event_account e := w)"
    "event_effect e (hamt_map hf l (event_account e)) w" using assms(1) by (auto simp: effective_def)
  from account_total_upd [OF assms(2) w(1)] event_effect_balance [OF w(2)] show ?thesis by linarith
qed

lemma account_run_ok: "account_run hf ht l es l' \<Longrightarrow> account_ok hf ht l \<Longrightarrow>
   account_ok hf ht l' \<and> account_total hf l' + sum_list (map withdrawn es) = account_total hf l + sum_list (map deposited es)"
proof (induction rule: account_run.induct)
  case (arun_cons l e l' es l'')
  note eff = account_step_effect [OF arun_cons.hyps(1) arun_cons.prems]
  have "account_ok hf ht l'" using eff by (simp add: effective_def)
  with arun_cons.IH effective_total [OF eff arun_cons.prems] show ?case by auto
qed simp

text \<open>The counters an account presented in a run, oldest first.\<close>

fun presented :: "'i \<Rightarrow> 'i account_event \<Rightarrow> spending_counter list" where
  "presented i (Withdraw j c v) = (if j = i then [c] else [])"
| "presented i e = []"

lemma account_run_counters:
  "account_run hf ht l es l' \<Longrightarrow> account_ok hf ht l \<Longrightarrow> Close i \<notin> set es \<Longrightarrow>
   verify_all (counters_of (hamt_map hf l i)) (concat (map (presented i) es)) = Ok (counters_of (hamt_map hf l' i))"
proof (induction rule: account_run.induct)
  case (arun_cons l e l' es l'')
  note eff = account_step_effect [OF arun_cons.hyps(1) arun_cons.prems(1)]
  then obtain w where w: "hamt_map hf l' = (hamt_map hf l)(event_account e := w)"
    "event_effect e (hamt_map hf l (event_account e)) w" by (auto simp: effective_def)
  have ok: "account_ok hf ht l'" using eff by (simp add: effective_def)
  have IH: "verify_all (counters_of (hamt_map hf l' i)) (concat (map (presented i) es)) = Ok (counters_of (hamt_map hf l'' i))"
    using arun_cons.IH [OF ok] arun_cons.prems(2) by simp
  have "verify_all (counters_of (hamt_map hf l i)) (presented i e @ cs) = verify_all (counters_of (hamt_map hf l' i)) cs" for cs
    using w arun_cons.prems(2) by (cases e) auto
  with IH show ?case by simp
qed simp

lemma counters_ok: "account_ok hf ht l \<Longrightarrow> sci_ok (counters_of (hamt_map hf l i))"
  by (auto simp: counters_of_def sci_default_ok account_ok_def account_state_ok_def split: option.splits)

text \<open>A ledger with one account, and one spend from it.\<close>

type_synonym sample_ledger = "(u64, nat, u64, unit) account_ledger"

definition sample_accounts :: sample_ledger where
  "sample_accounts = \<lparr>root = Node 32 [Leaf 5 5 (account_state_new (Value 100) ())]\<rparr>"

lemma sample_accounts_step: "account_step (\<lambda>k. k) (\<lambda>k. k) (account_new :: sample_ledger) (Deposit 5 (Value 100)) sample_accounts"
proof -
  have "add_account (\<lambda>k. k) account_new 5 (Value 100) () = Ok sample_accounts" by code_simp
  then show ?thesis by (rule step_open [rotated]) (simp add: account_new_def)
qed

lemma sample_accounts_ok: "account_ok (\<lambda>k. k) (\<lambda>k. k) sample_accounts"
  and sample_accounts_map: "hamt_map (\<lambda>k. k) sample_accounts = [5 \<mapsto> account_state_new (Value 100) ()]"
proof -
  have ok: "hamt_ok (\<lambda>k. k) (hamt_new :: sample_ledger)" by simp
  have "hamt_insert (\<lambda>k. k) hamt_new 5 (account_state_new (Value 100) ()) = Ok sample_accounts" by code_simp
  then show "hamt_map (\<lambda>k. k) sample_accounts = [5 \<mapsto> account_state_new (Value 100) ()]"
    using pm.ins_new [OF ok, of 5 "account_state_new (Value 100) ()"] by auto
  show "account_ok (\<lambda>k. k) (\<lambda>k. k) sample_accounts"
    using account_step_effect [OF sample_accounts_step account_new_ok(1)] by (simp add: effective_def)
qed

lemma sample_accounts_spend:
  "\<exists>l. account_step (\<lambda>k. k) (\<lambda>k. k) sample_accounts (Withdraw 5 (counter_word 2 0) (Value 30)) l"
proof -
  have "case remove_value (\<lambda>k. k) sample_accounts 5 (counter_word 2 0) (Value 30) of Ok _ \<Rightarrow> True | _ \<Rightarrow> False" by code_simp
  then obtain l where "remove_value (\<lambda>k. k) sample_accounts 5 (counter_word 2 0) (Value 30) = Ok l"
    by (auto split: outcome.splits)
  then show ?thesis by (intro exI) (rule step_withdraw)
qed

text \<open>When a delegation ratio is built, and that its own check agrees.\<close>

lemma delegation_ratio_spec:
  assumes "length pools < 2 ^ 24"
  shows "delegation_ratio_new ps pools = (Ok (if 1 < ps \<and> 1 < length pools \<and> length pools \<le> 8 \<and> (\<forall>x \<in> set pools. snd x \<noteq> 0)
        \<and> (\<Sum>x \<leftarrow> pools. unat (snd x)) = unat ps then Some \<lparr>dr_parts = ps, dr_pools = pools\<rparr> else None) :: ('e, _) outcome)
    \<and> delegation_ratio_is_valid \<lparr>dr_parts = ps, dr_pools = pools\<rparr>
      = (Ok (delegation_ratio_new ps pools \<noteq> (Ok None :: ('e, 'p delegation_ratio option) outcome)) :: ('e, _) outcome)"
proof -
  obtain t where t: "sum_u32 (map (\<lambda>x. ucast (snd x)) pools) = (Ok t :: ('e, _) outcome)" "unat t = (\<Sum>x \<leftarrow> pools. unat (snd x))"
    using sum_u32_parts [OF assms] by blast
  have "t = ucast ps \<longleftrightarrow> (\<Sum>x \<leftarrow> pools. unat (snd x)) = unat ps"
    using t(2) by (simp add: word_unat_eq_iff unat_ucast_up)
  with t(1) show ?thesis
    by (auto simp: delegation_ratio_new_def delegation_ratio_is_valid_def DELEGATION_RATIO_MAX_DECLS_def list_ex_iff Let_def)
qed

section \<open>Properties\<close>

text \<open>
  C6. Conservation: along every sequence of successful ledger operations from the empty ledger, whatever
  their kind and order, the value held by the accounts plus the value withdrawn is the value deposited;
  the ledger stays well formed, and \<open>get_total_value\<close> computes exactly that total, or reports an
  overflow if it does not fit 64 bits.
\<close>

theorem account_conservation:
  assumes "account_run hf ht account_new es l"
  shows "account_ok hf ht l
    \<and> account_total hf l + sum_list (map withdrawn es) = sum_list (map deposited es)
    \<and> (case get_total_value l of
         Ok t \<Rightarrow> coins t = account_total hf l
       | Err x \<Rightarrow> x = Overflow \<and> 2 ^ 64 \<le> account_total hf l
       | Panic \<Rightarrow> False)"
proof -
  have run: "account_ok hf ht l" "account_total hf l + sum_list (map withdrawn es) = sum_list (map deposited es)"
    using account_run_ok [OF assms account_new_ok(1)] by (simp_all add: account_total_def)
  moreover have "get_total_value l \<noteq> Panic" by (simp add: get_total_value_def checked_simps)
  ultimately show ?thesis using get_total_value_exact [OF run(1)] by (auto split: outcome.splits)
qed

theorem account_conservation_witness:
  "\<exists>l. account_run (\<lambda>k. k) (\<lambda>k. k) (account_new :: sample_ledger) [Deposit 5 (Value 100), Withdraw 5 (counter_word 2 0) (Value 30)] l
     \<and> account_total (\<lambda>k. k) l = 70"
proof -
  obtain l where l: "account_step (\<lambda>k. k) (\<lambda>k. k) sample_accounts (Withdraw 5 (counter_word 2 0) (Value 30)) l"
    using sample_accounts_spend by blast
  have run: "account_run (\<lambda>k. k) (\<lambda>k. k) account_new [Deposit 5 (Value 100), Withdraw 5 (counter_word 2 0) (Value 30)] l"
    by (intro arun_cons [OF sample_accounts_step] arun_cons [OF l] arun_nil)
  with account_conservation [OF run] show ?thesis by (auto simp: coins_def)
qed

text \<open>
  Spending from an account, on every branch and in the order of the checks: an unknown account, a
  value above the balance (reported before the counter is looked at), a counter that is not the next one
  of its lane, and otherwise the balance drops by exactly the value and the counter of that lane moves on,
  with nothing else in the ledger changed. A refused spend can not panic.
\<close>

theorem remove_value_correct:
  assumes "account_ok hf ht l"
  shows "case hamt_map hf l i of
      None \<Rightarrow> remove_value hf l i c v = Err NonExistent
    | Some st \<Rightarrow>
        if coins (acc_value st) < coins v then remove_value hf l i c v = Err (ValueErr NegativeAmount)
        else if nexts (acc_spending st) ! lane c \<noteq> c then remove_value hf l i c v = Err SpendingCredentialInvalid
        else \<exists>l' s n. remove_value hf l i c v = Ok l' \<and> account_ok hf ht l'
          \<and> hamt_map hf l' = (hamt_map hf l)(i \<mapsto> st\<lparr>acc_spending := s, acc_value := n\<rparr>)
          \<and> coins (acc_value st) = coins n + coins v \<and> next_verify (acc_spending st) c = Ok s"
proof (cases "hamt_map hf l i")
  case None
  then show ?thesis using account_update [OF assms, of i "\<lambda>st. account_state_sub st c v"] by (simp add: remove_value_def)
next
  case (Some st)
  have ok: "account_state_ok ht st" by (rule account_okD(2) [OF assms Some])
  note upd = account_update [OF assms, of i "\<lambda>st. account_state_sub st c v"]
  show ?thesis
  proof (cases "coins (acc_value st) < coins v \<or> nexts (acc_spending st) ! lane c \<noteq> c")
    case True
    then show ?thesis using upd Some account_state_sub_spec [OF ok, of v c] by (auto simp: remove_value_def split: if_splits)
  next
    case False
    then obtain s n where sub: "account_state_sub st c v = Ok (Some (st\<lparr>acc_spending := s, acc_value := n\<rparr>))"
      "coins (acc_value st) = coins n + coins v" "next_verify (acc_spending st) c = Ok s" "sci_ok s"
      using account_state_sub_spec [OF ok, of v c] by auto
    with upd Some obtain l' where l': "remove_value hf l i c v = Ok l'" "hamt_ok hf l'"
      "hamt_map hf l' = (hamt_map hf l)(i \<mapsto> st\<lparr>acc_spending := s, acc_value := n\<rparr>)"
      by (auto simp: remove_value_def)
    moreover have "account_ok hf ht l'"
      using account_ok_upd [OF assms l'(2,3)] ok sub(4) by (simp add: account_state_ok_def)
    ultimately show ?thesis using Some sub False by auto
  qed
qed

theorem remove_value_correct_witness:
  "remove_value (\<lambda>k. k) sample_accounts 6 (counter_word 2 0) (Value 30) = Err NonExistent
   \<and> remove_value (\<lambda>k. k) sample_accounts 5 (counter_word 2 9) (Value 101) = Err (ValueErr NegativeAmount)"
  using remove_value_correct [OF sample_accounts_ok, of 6 "counter_word 2 0" "Value 30"]
    remove_value_correct [OF sample_accounts_ok, of 5 "counter_word 2 9" "Value 101"]
  by (simp add: sample_accounts_map coins_def account_state_new_def)



text \<open>
  Crediting an account. Opening refuses a known identifier; adding value refuses an unknown one; adding
  or creating always credits; each reports \<open>Overflow\<close> exactly if the balance would not fit 64 bits; a reward
  is also recorded for its epoch, and panics exactly if the account was already rewarded for a later
  epoch, or the rewards of that one epoch overflow.
\<close>

theorem account_credit_correct:
  fixes l :: "('i, 'p, 'tk, 'x) account_ledger"
  assumes "account_ok hf ht l"
  shows "(case hamt_map hf l i of
      None \<Rightarrow> account_add_value hf l i v = Err NonExistent
        \<and> (\<exists>l'. add_account hf l i v e = Ok l' \<and> hamt_map hf l' = (hamt_map hf l)(i \<mapsto> account_state_new v e))
        \<and> (\<exists>l'. add_value_or_account hf l i v e = Ok l' \<and> hamt_map hf l' = (hamt_map hf l)(i \<mapsto> account_state_new v e))
        \<and> (\<exists>l' st. add_rewards_to_account hf l i ep v e = Ok l' \<and> hamt_map hf l' = (hamt_map hf l)(i \<mapsto> st)
             \<and> acc_value st = v \<and> acc_last_rewards st = \<lparr>lr_epoch = ep, lr_reward = v\<rparr>)
    | Some st \<Rightarrow> add_account hf l i v e = Err AccountAlreadyExists
        \<and> (if coins (acc_value st) + coins v < 2 ^ 64
           then (\<exists>l' l'' n. coins n = coins (acc_value st) + coins v
               \<and> account_add_value hf l i v = Ok l' \<and> hamt_map hf l' = (hamt_map hf l)(i \<mapsto> st\<lparr>acc_value := n\<rparr>)
               \<and> add_value_or_account hf l i v e = Ok l'' \<and> hamt_map hf l'' = hamt_map hf l'
               \<and> (case add_for (acc_last_rewards st) ep v :: (value_error, _) outcome of
                    Ok lr \<Rightarrow> \<exists>l''. add_rewards_to_account hf l i ep v e = Ok l''
                      \<and> hamt_map hf l'' = (hamt_map hf l)(i \<mapsto> st\<lparr>acc_value := n, acc_last_rewards := lr\<rparr>)
                  | _ \<Rightarrow> add_rewards_to_account hf l i ep v e = Panic))
           else account_add_value hf l i v = Err (ValueErr Overflow)
             \<and> add_value_or_account hf l i v e = Err Overflow \<and> add_rewards_to_account hf l i ep v e = Err Overflow))"
proof -
  note ok = account_okD(1) [OF assms]
  obtain st0 where st0: "account_state_new_reward ep v e = (Ok st0 :: (value_error, ('p, 'tk, 'x) account_state) outcome)"
    "acc_value st0 = v" "acc_last_rewards st0 = \<lparr>lr_epoch = ep, lr_reward = v\<rparr>"
    using account_state_new_reward_spec [of ep v e, where 'e = value_error] by auto
  note upd = account_update [OF assms, of i "\<lambda>st. omap Some (account_state_add st v)"]
    and ups = hamt_upsert_ok [OF ok, of i "account_state_new v e" "\<lambda>st. omap Some (account_state_add_value st v)"]
    and rew = hamt_upsert_ok [OF ok, of i st0 "\<lambda>st. omap Some (account_state_add_rewards st ep v)"]
  note defs = account_add_value_def add_account_def add_value_or_account_def add_rewards_to_account_def
  show ?thesis
  proof (cases "hamt_map hf l i")
    case None
    then show ?thesis using upd ups rew st0 pm.ins_new [OF ok None, of "account_state_new v e"] by (auto simp: defs)
  next
    case (Some st)
    have old: "add_account hf l i v e = Err AccountAlreadyExists"
      using pm.ins_old [OF ok Some] by (simp add: add_account_def)
    show ?thesis
    proof (cases rule: value_add_cases [of "acc_value st" v])
      case (sum n)
      have st: "account_state_add st v = Ok (st\<lparr>acc_value := n\<rparr>)" "account_state_add_value st v = Ok (st\<lparr>acc_value := n\<rparr>)"
        using sum(1) by (simp_all add: account_state_add_def account_state_add_value_def)
      have "case add_for (acc_last_rewards st) ep v :: (value_error, _) outcome of
          Ok lr \<Rightarrow> \<exists>l''. add_rewards_to_account hf l i ep v e = Ok l''
            \<and> hamt_map hf l'' = (hamt_map hf l)(i \<mapsto> st\<lparr>acc_value := n, acc_last_rewards := lr\<rparr>)
        | _ \<Rightarrow> add_rewards_to_account hf l i ep v e = Panic"
        using rew Some sum(1) st0(1) add_for_spec [of "acc_last_rewards st" ep v, where 'a = value_error]
        by (cases "add_for (acc_last_rewards st) ep v :: (value_error, _) outcome") (auto simp: defs account_state_add_rewards_def)
      moreover have "coins (acc_value st) + coins v < 2 ^ 64" using sum(2) coins_less [of n] by simp
      moreover obtain l' where "account_add_value hf l i v = Ok l'" "hamt_map hf l' = (hamt_map hf l)(i \<mapsto> st\<lparr>acc_value := n\<rparr>)"
        using upd Some st by (auto simp: defs)
      moreover obtain l'' where "add_value_or_account hf l i v e = Ok l''" "hamt_map hf l'' = (hamt_map hf l)(i \<mapsto> st\<lparr>acc_value := n\<rparr>)"
        using ups Some st by (auto simp: defs)
      ultimately show ?thesis using Some old sum(2)
        by (simp only: option.case if_True simp_thms) (intro conjI exI [of _ l'] exI [of _ l''] exI [of _ n], simp_all)
    next
      case overflow
      then show ?thesis using upd ups rew Some old st0(1)
        by (simp add: defs account_state_add_def account_state_add_value_def account_state_add_rewards_def)
    qed
  qed
qed

theorem account_credit_correct_witness:
  "add_account (\<lambda>k. k) sample_accounts 5 (Value 1) () = Err AccountAlreadyExists
   \<and> account_add_value (\<lambda>k. k) sample_accounts 6 (Value 1) = Err NonExistent
   \<and> add_value_or_account (\<lambda>k. k) sample_accounts 5 (Value (- 1)) () = Err Overflow"
proof -
  have "\<not> coins (Value 100) + coins (Value (- 1)) < 2 ^ 64"
    by (simp add: coins_def unsigned_minus_1_eq_mask mask_eq_exp_minus_1)
  then show ?thesis
    using account_credit_correct [OF sample_accounts_ok, of 5 "Value 1" "()"] account_credit_correct [OF sample_accounts_ok, of 6 "Value 1" "()"]
      account_credit_correct [OF sample_accounts_ok, of 5 "Value (- 1)" "()"]
    by (simp add: sample_accounts_map account_state_new_def)
qed



end
