(* ===== verification/Address.thy ===== *)
theory Address
  imports Value Utxo
begin

text \<open>
  Addresses (\<open>chain-addr/src/lib.rs\<close>): one byte holds the discrimination (top bit) and the kind, the
  rest depends on the kind. The three readers of the crate are modelled: \<open>from_bytes\<close>, the stream
  reader \<open>deserialize\<close> and the buffer reader \<open>read\<close>; and the human-readable form, whose bech32 coding (an
  external crate) is a parameter.

  An Ed25519 public key is any string of 32 bytes (\<open>chain-crypto/src/algorithms/ed25519.rs\<close>).
\<close>

section \<open>Keys and kinds\<close>

datatype public_key_error = PkSizeInvalid | PkStructureInvalid

datatype public_key = PublicKey (pk_bytes: "u8 list")

definition public_from_binary :: "u8 list \<Rightarrow> (public_key_error, public_key) outcome" where
  "public_from_binary data = (if length data \<noteq> 32 then Err PkSizeInvalid else Ok (PublicKey data))"

datatype discrimination = Production | Test

datatype kind =
    Single public_key
  | Group public_key public_key
  | AccountKind public_key
  | Multisig "u8 list"
  | Script "u8 list"

datatype kind_type = KtSingle | KtGroup | KtAccount | KtMultisig | KtScript

definition ADDR_KIND_LOW_SENTINEL :: u8 where "ADDR_KIND_LOW_SENTINEL = 2"
definition ADDR_KIND_SINGLE :: u8 where "ADDR_KIND_SINGLE = 3"
definition ADDR_KIND_GROUP :: u8 where "ADDR_KIND_GROUP = 4"
definition ADDR_KIND_ACCOUNT :: u8 where "ADDR_KIND_ACCOUNT = 5"
definition ADDR_KIND_MULTISIG :: u8 where "ADDR_KIND_MULTISIG = 6"
definition ADDR_KIND_SCRIPT :: u8 where "ADDR_KIND_SCRIPT = 7"
definition ADDR_KIND_SENTINEL :: u8 where "ADDR_KIND_SENTINEL = 8"

lemmas addr_kinds = ADDR_KIND_LOW_SENTINEL_def ADDR_KIND_SINGLE_def ADDR_KIND_GROUP_def ADDR_KIND_ACCOUNT_def
  ADDR_KIND_MULTISIG_def ADDR_KIND_SCRIPT_def ADDR_KIND_SENTINEL_def

fun to_value :: "kind_type \<Rightarrow> u8" where
  "to_value KtSingle = ADDR_KIND_SINGLE"
| "to_value KtGroup = ADDR_KIND_GROUP"
| "to_value KtAccount = ADDR_KIND_ACCOUNT"
| "to_value KtMultisig = ADDR_KIND_MULTISIG"
| "to_value KtScript = ADDR_KIND_SCRIPT"

datatype address = Address (addr_discrimination: discrimination) (addr_kind: kind)

datatype addr_error =
    EmptyAddress | InvalidKind | InvalidAddress | InvalidInternalEncoding | InvalidPrefix | MismatchPrefix

section \<open>Bytes of an address\<close>

fun kind_to_size :: "kind \<Rightarrow> nat" where
  "kind_to_size (Single _) = 33"
| "kind_to_size (Group _ _) = 65"
| "kind_to_size (AccountKind _) = 33"
| "kind_to_size (Multisig _) = 33"
| "kind_to_size (Script _) = 33"

definition to_size :: "address \<Rightarrow> nat" where
  "to_size a = kind_to_size (addr_kind a)"

fun kind_to_kind_type :: "kind \<Rightarrow> kind_type" where
  "kind_to_kind_type (Single _) = KtSingle"
| "kind_to_kind_type (Group _ _) = KtGroup"
| "kind_to_kind_type (AccountKind _) = KtAccount"
| "kind_to_kind_type (Multisig _) = KtMultisig"
| "kind_to_kind_type (Script _) = KtScript"

definition to_kind_value :: "address \<Rightarrow> u8" where
  "to_kind_value a = to_value (kind_to_kind_type (addr_kind a))"

fun kind_public_key :: "kind \<Rightarrow> public_key option" where
  "kind_public_key (Single pk) = Some pk"
| "kind_public_key (Group pk _) = Some pk"
| "kind_public_key (AccountKind pk) = Some pk"
| "kind_public_key (Multisig _) = None"
| "kind_public_key (Script _) = None"

definition address_public_key :: "address \<Rightarrow> public_key option" where
  "address_public_key a = kind_public_key (addr_kind a)"

definition get_kind_value :: "u8 \<Rightarrow> u8" where
  "get_kind_value first_byte = first_byte AND 127"

definition get_discrimination_value :: "u8 \<Rightarrow> discrimination" where
  "get_discrimination_value first_byte = (if first_byte AND 128 = 0 then Production else Test)"

fun write_kind :: "kind \<Rightarrow> u8 list \<Rightarrow> (io_error, u8 list) outcome" where
  "write_kind (Single spend) w = write_all w (pk_bytes spend)"
| "write_kind (Group spend grp) w = obind (write_all w (pk_bytes spend)) (\<lambda>w. write_all w (pk_bytes grp))"
| "write_kind (AccountKind stake_key) w = write_all w (pk_bytes stake_key)"
| "write_kind (Multisig hash) w = write_all w hash"
| "write_kind (Script hash) w = write_all w hash"

definition address_serialize :: "address \<Rightarrow> u8 list \<Rightarrow> (io_error, u8 list) outcome" where
  "address_serialize a w =
     (let first_byte = (case addr_discrimination a of
          Production \<Rightarrow> to_kind_value a | Test \<Rightarrow> to_kind_value a OR 128)
      in obind (codec_put_u8 w first_byte) (write_kind (addr_kind a)))"

definition address_to_bytes :: "address \<Rightarrow> ('e, u8 list) outcome" where
  "address_to_bytes a = unwrap (address_serialize a [])"

section \<open>Reading an address\<close>

definition is_valid_data :: "u8 list \<Rightarrow> (addr_error, discrimination \<times> kind_type) outcome" where
  "is_valid_data bytes =
     (case bytes of
        [] \<Rightarrow> Err EmptyAddress
      | first_byte # _ \<Rightarrow>
          let kind_type = get_kind_value first_byte in
          if kind_type \<le> ADDR_KIND_LOW_SENTINEL \<or> kind_type \<ge> ADDR_KIND_SENTINEL then Err InvalidKind
          else obind
            (if kind_type = ADDR_KIND_SINGLE then (if length bytes \<noteq> 33 then Err InvalidAddress else Ok KtSingle)
             else if kind_type = ADDR_KIND_GROUP then (if length bytes \<noteq> 65 then Err InvalidAddress else Ok KtGroup)
             else if kind_type = ADDR_KIND_ACCOUNT then (if length bytes \<noteq> 33 then Err InvalidAddress else Ok KtAccount)
             else if kind_type = ADDR_KIND_MULTISIG then (if length bytes \<noteq> 33 then Err InvalidAddress else Ok KtMultisig)
             else if kind_type = ADDR_KIND_SCRIPT then (if length bytes \<noteq> 33 then Err InvalidAddress else Ok KtScript)
             else Err InvalidKind)
            (\<lambda>kty. Ok (get_discrimination_value first_byte, kty)))"

text \<open>\<open>PublicKey::from_binary(&bytes[i..j])?\<close>, the error becoming \<open>InvalidAddress\<close>.\<close>

definition key_at :: "u8 list \<Rightarrow> nat \<Rightarrow> nat \<Rightarrow> (addr_error, public_key) outcome" where
  "key_at bytes i j = obind (vec_slice bytes i j) (\<lambda>s. map_err (\<lambda>_. InvalidAddress) (public_from_binary s))"

definition address_from_bytes :: "u8 list \<Rightarrow> (addr_error, address) outcome" where
  "address_from_bytes bytes =
     obind (is_valid_data bytes) (\<lambda>_.
     obind (unwrap_opt (nth_opt bytes 0)) (\<lambda>first_byte.
     let discr = get_discrimination_value first_byte; kv = get_kind_value first_byte in
     obind
       (if kv = ADDR_KIND_SINGLE then obind (key_at bytes 1 (length bytes)) (\<lambda>spending. Ok (Single spending))
        else if kv = ADDR_KIND_GROUP then
          obind (key_at bytes 1 33) (\<lambda>spending. obind (key_at bytes 33 (length bytes)) (\<lambda>grp. Ok (Group spending grp)))
        else if kv = ADDR_KIND_ACCOUNT then obind (key_at bytes 1 (length bytes)) (\<lambda>stake_key. Ok (AccountKind stake_key))
        else if kv = ADDR_KIND_MULTISIG then obind (vec_slice bytes 1 33) (\<lambda>hash. Ok (Multisig hash))
        else if kv = ADDR_KIND_SCRIPT then obind (vec_slice bytes 1 33) (\<lambda>hash. Ok (Script hash))
        else Panic)
       (\<lambda>k. Ok (Address discr k))))"

definition codec_get_key :: "u8 list \<Rightarrow> (io_error, public_key \<times> u8 list) outcome" where
  "codec_get_key r = obind (read_exact r 32) (\<lambda>(bytes, r').
     obind (map_err (\<lambda>_. InvalidDataIo) (public_from_binary bytes)) (\<lambda>k. Ok (k, r')))"

definition address_deserialize :: "u8 list \<Rightarrow> (io_error, address \<times> u8 list) outcome" where
  "address_deserialize codec =
     obind (codec_get_u8 codec) (\<lambda>(byte, codec).
     let discr = get_discrimination_value byte; kv = get_kind_value byte in
     obind
       (if kv = ADDR_KIND_SINGLE then obind (codec_get_key codec) (\<lambda>(spending, c). Ok (Single spending, c))
        else if kv = ADDR_KIND_GROUP then
          obind (codec_get_key codec) (\<lambda>(spending, c). obind (codec_get_key c) (\<lambda>(grp, c). Ok (Group spending grp, c)))
        else if kv = ADDR_KIND_ACCOUNT then obind (codec_get_key codec) (\<lambda>(stake_key, c). Ok (AccountKind stake_key, c))
        else if kv = ADDR_KIND_MULTISIG then obind (read_exact codec 32) (\<lambda>(bytes, c). Ok (Multisig bytes, c))
        else Panic)
       (\<lambda>(k, c). Ok (Address discr k, c)))"

fun chain_crypto_err :: "public_key_error \<Rightarrow> read_error" where
  "chain_crypto_err PkSizeInvalid = StructureInvalid ''publickey size invalid''"
| "chain_crypto_err PkStructureInvalid = StructureInvalid ''publickey structure invalid''"

definition read_key :: "public_key reader" where
  "read_key b = obind (read_array 32 b) (\<lambda>(bytes, b').
     obind (map_err chain_crypto_err (public_from_binary bytes)) (\<lambda>k. Ok (k, b')))"

definition address_read :: "address reader" where
  "address_read b =
     obind (get_u8 b) (\<lambda>(byte, b).
     let discr = get_discrimination_value byte; kv = get_kind_value byte in
     obind
       (if kv = ADDR_KIND_SINGLE then obind (read_key b) (\<lambda>(spending, b). Ok (Single spending, b))
        else if kv = ADDR_KIND_GROUP then
          obind (read_key b) (\<lambda>(spending, b). obind (read_key b) (\<lambda>(grp, b). Ok (Group spending grp, b)))
        else if kv = ADDR_KIND_ACCOUNT then obind (read_key b) (\<lambda>(stake_key, b). Ok (AccountKind stake_key, b))
        else if kv = ADDR_KIND_MULTISIG then obind (read_array 32 b) (\<lambda>(bytes, b). Ok (Multisig bytes, b))
        else if kv = ADDR_KIND_SCRIPT then obind (read_array 32 b) (\<lambda>(bytes, b). Ok (Script bytes, b))
        else Err (UnknownTag (ucast kv)))
       (\<lambda>(k, b). Ok (Address discr k, b)))"

section \<open>The human-readable form\<close>

datatype bech32_variant = Bech32 | Bech32m

record bech32 =
  b32_encode :: "string \<Rightarrow> u8 list \<Rightarrow> bech32_variant \<Rightarrow> string option"
  b32_decode :: "string \<Rightarrow> (string \<times> u8 list \<times> bech32_variant) option"
  to_base32 :: "u8 list \<Rightarrow> u8 list"
  from_base32 :: "u8 list \<Rightarrow> u8 list option"

datatype address_readable = AddressReadable (as_string: string)

definition readable_from_str_anyprefix :: "bech32 \<Rightarrow> string \<Rightarrow> (addr_error, address_readable) outcome" where
  "readable_from_str_anyprefix bc s =
     obind (ok_or InvalidInternalEncoding (b32_decode bc s)) (\<lambda>(_, data, variant).
     if variant \<noteq> Bech32 then Err InvalidInternalEncoding
     else obind (ok_or InvalidInternalEncoding (from_base32 bc data)) (\<lambda>dat.
          obind (is_valid_data dat) (\<lambda>_. Ok (AddressReadable s))))"

definition readable_from_string :: "bech32 \<Rightarrow> string \<Rightarrow> string \<Rightarrow> (addr_error, address_readable) outcome" where
  "readable_from_string bc expected_prefix s =
     obind (ok_or InvalidInternalEncoding (b32_decode bc s)) (\<lambda>(hrp, data, variant).
     if hrp \<noteq> expected_prefix then Err InvalidPrefix
     else if variant \<noteq> Bech32 then Err InvalidInternalEncoding
     else obind (ok_or InvalidInternalEncoding (from_base32 bc data)) (\<lambda>dat.
          obind (is_valid_data dat) (\<lambda>_. Ok (AddressReadable s))))"

definition readable_from_address :: "bech32 \<Rightarrow> string \<Rightarrow> address \<Rightarrow> ('e, address_readable) outcome" where
  "readable_from_address bc prefix addr =
     obind (address_to_bytes addr) (\<lambda>bytes.
     obind (unwrap_opt (b32_encode bc prefix (to_base32 bc bytes) Bech32)) (\<lambda>r.
     Ok (AddressReadable r)))"

definition readable_to_address :: "bech32 \<Rightarrow> address_readable \<Rightarrow> ('e, address) outcome" where
  "readable_to_address bc r =
     obind (unwrap_opt (b32_decode bc (as_string r))) (\<lambda>(_, data, _).
     obind (unwrap_opt (from_base32 bc data)) (\<lambda>dat.
     unwrap (address_from_bytes dat)))"

definition readable_get_prefix :: "bech32 \<Rightarrow> address_readable \<Rightarrow> ('e, string) outcome" where
  "readable_get_prefix bc r = obind (unwrap_opt (b32_decode bc (as_string r))) (\<lambda>(hrp, _, _). Ok hrp)"

fun discrimination_display :: "discrimination \<Rightarrow> string" where
  "discrimination_display Production = ''production''"
| "discrimination_display Test = ''test''"

definition discrimination_from_str :: "string \<Rightarrow> (string, discrimination) outcome" where
  "discrimination_from_str s =
     (if s = ''production'' then Ok Production else if s = ''test'' then Ok Test else Err s)"

section \<open>The first byte\<close>

lemma byte_cases: "n < LENGTH(8) \<Longrightarrow> n = 0 \<or> n = 1 \<or> n = 2 \<or> n = 3 \<or> n = 4 \<or> n = 5 \<or> n = 6 \<or> n = 7"
  by auto

lemma byte_join: "b = (b AND 127) OR (b AND 128)" for b :: u8
proof (rule bit_word_eqI)
  show "n < LENGTH(8) \<Longrightarrow> bit b n = bit ((b AND 127) OR (b AND 128)) n" for n
    using byte_cases [of n] by (auto simp: bit_simps)
qed

lemma top_bit: "b AND 128 = (if bit b 7 then 128 else 0)" for b :: u8
proof (rule bit_word_eqI)
  show "n < LENGTH(8) \<Longrightarrow> bit (b AND 128) n = bit (if bit b 7 then 128 else 0 :: u8) n" for n
    using byte_cases [of n] by (auto simp: bit_simps)
qed

definition first_byte :: "discrimination \<Rightarrow> kind_type \<Rightarrow> u8" where
  "first_byte d kt = (case d of Production \<Rightarrow> to_value kt | Test \<Rightarrow> to_value kt OR 128)"

lemma first_byte_parse [simp]:
  "get_kind_value (first_byte d kt) = to_value kt" "get_discrimination_value (first_byte d kt) = d"
  by (cases d; cases kt; simp add: first_byte_def get_kind_value_def get_discrimination_value_def addr_kinds)+

lemma first_byte_unique: "get_kind_value b = to_value kt \<Longrightarrow> b = first_byte (get_discrimination_value b) kt"
  using byte_join [of b] top_bit [of b]
  by (auto simp: first_byte_def get_kind_value_def get_discrimination_value_def split: if_splits)

lemma to_value_inj [simp]: "to_value a = to_value b \<longleftrightarrow> a = b"
  by (cases a; cases b) (simp_all add: addr_kinds)

text \<open>Which kind a masked byte denotes.\<close>

lemma kind_value_cases:
  obtains kt where "get_kind_value b = to_value kt"
  | "get_kind_value b \<notin> range to_value"
  by blast

section \<open>Formats\<close>

fun kind_bytes :: "kind \<Rightarrow> u8 list" where
  "kind_bytes (Single k) = pk_bytes k"
| "kind_bytes (Group k g) = pk_bytes k @ pk_bytes g"
| "kind_bytes (AccountKind k) = pk_bytes k"
| "kind_bytes (Multisig h) = h"
| "kind_bytes (Script h) = h"

text \<open>The lengths that the array types of the source fix.\<close>

fun kind_ok :: "kind \<Rightarrow> bool" where
  "kind_ok (Single k) = (length (pk_bytes k) = 32)"
| "kind_ok (Group k g) = (length (pk_bytes k) = 32 \<and> length (pk_bytes g) = 32)"
| "kind_ok (AccountKind k) = (length (pk_bytes k) = 32)"
| "kind_ok (Multisig h) = (length h = 32)"
| "kind_ok (Script h) = (length h = 32)"

definition address_bytes :: "address \<Rightarrow> u8 list" where
  "address_bytes a = first_byte (addr_discrimination a) (kind_to_kind_type (addr_kind a)) # kind_bytes (addr_kind a)"

lemma address_to_bytes_eq: "address_to_bytes a = Ok (address_bytes a)"
  by (cases a; cases "addr_kind a"; cases "addr_discrimination a")
    (simp_all add: address_to_bytes_def address_serialize_def address_bytes_def first_byte_def to_kind_value_def
      codec_put_u8_def write_all_def)

interpretation hash_format: canonical_format "\<lambda>h. length h = 32" "\<lambda>h. h" "read_array 32"
  by standard (auto simp: read_array_def get_slice_eq advance_ok split: if_splits)

interpretation key_format: canonical_format "\<lambda>k. length (pk_bytes k) = 32" pk_bytes read_key
proof
  fix k b r assume k: "length (pk_bytes k) = 32" and b: "rb_ok b" "rest b = pk_bytes k @ r"
  obtain b' where "read_array 32 b = Ok (pk_bytes k, b')" "rb_ok b'" "rest b' = r" using hash_format.rd_enc [OF k b] by blast
  with k show "\<exists>b'. read_key b = Ok (k, b') \<and> rb_ok b' \<and> rest b' = r" by (simp add: read_key_def public_from_binary_def)
next
  fix b k b' assume b: "rb_ok b" and "read_key b = Ok (k, b')"
  then obtain h where "read_array 32 b = Ok (h, b')" "length h = 32" "k = PublicKey h"
    by (auto simp: read_key_def public_from_binary_def outcome_simps split: if_splits)
  with hash_format.rd_canonical [OF b] show "length (pk_bytes k) = 32 \<and> rb_ok b' \<and> rest b = pk_bytes k @ rest b'" by auto
next
  fix b assume "rb_ok b"
  then show "read_key b \<noteq> Panic"
    using hash_format.rd_total by (auto simp: read_key_def public_from_binary_def outcome_simps split: if_splits)
qed

interpretation key_pair: format_pair "\<lambda>k. length (pk_bytes k) = 32" pk_bytes read_key "\<lambda>k. length (pk_bytes k) = 32" pk_bytes read_key
  ..

interpretation keys: canonical_format "\<lambda>(k, g). length (pk_bytes k) = 32 \<and> length (pk_bytes g) = 32"
    "\<lambda>(k, g). pk_bytes k @ pk_bytes g" "read_pair read_key read_key"
  by (rule key_pair.pair_format)

text \<open>The payload of each kind is one of these formats.\<close>

fun read_kind :: "kind_type \<Rightarrow> kind reader" where
  "read_kind KtSingle b = omap (map_prod Single id) (read_key b)"
| "read_kind KtGroup b = omap (map_prod (\<lambda>(k, g). Group k g) id) (read_pair read_key read_key b)"
| "read_kind KtAccount b = omap (map_prod AccountKind id) (read_key b)"
| "read_kind KtMultisig b = omap (map_prod Multisig id) (read_array 32 b)"
| "read_kind KtScript b = omap (map_prod Script id) (read_array 32 b)"

definition kind_type_of :: "u8 \<Rightarrow> kind_type option" where
  "kind_type_of v = (if v = ADDR_KIND_SINGLE then Some KtSingle else if v = ADDR_KIND_GROUP then Some KtGroup
     else if v = ADDR_KIND_ACCOUNT then Some KtAccount else if v = ADDR_KIND_MULTISIG then Some KtMultisig
     else if v = ADDR_KIND_SCRIPT then Some KtScript else None)"

lemma kind_type_of_Some [simp]: "kind_type_of v = Some kt \<longleftrightarrow> v = to_value kt"
  by (cases kt) (auto simp: kind_type_of_def addr_kinds)

lemma address_read_eq:
  "address_read b = obind (get_u8 b) (\<lambda>(byte, b').
     case kind_type_of (get_kind_value byte) of
       None \<Rightarrow> Err (UnknownTag (ucast (get_kind_value byte)))
     | Some kt \<Rightarrow> omap (map_prod (Address (get_discrimination_value byte)) id) (read_kind kt b'))"
proof (cases "get_u8 b")
  case (Ok p)
  obtain byte b' where p: "p = (byte, b')" by (cases p)
  have lift: "obind (obind x (\<lambda>(k, b). Ok (K k, b))) (\<lambda>(k, b). Ok (Address d k, b)) = omap (map_prod (Address d) id) (omap (map_prod K id) x)"
    for K :: "'a \<Rightarrow> kind" and x :: "(read_error, 'a \<times> read_buf) outcome" and d
    by (cases x) auto
  have pair: "obind (obind (read_key b) (\<lambda>(k, b). obind (read_key b) (\<lambda>(g, b). Ok (Group k g, b)))) (\<lambda>(k, b). Ok (Address d k, b))
      = omap (map_prod (Address d) id) (omap (map_prod (\<lambda>(k, g). Group k g) id) (read_pair read_key read_key b))" for b d
    by (simp add: read_pair_def outcome_push split_def comp_def)
  show ?thesis
  proof (cases "kind_type_of (get_kind_value byte)")
    case None
    then show ?thesis using Ok p by (auto simp: address_read_def kind_type_of_def Let_def split: if_splits)
  next
    case (Some kt)
    then have "get_kind_value byte = to_value kt" by simp
    with Ok p Some show ?thesis
      by (cases kt) (simp_all add: address_read_def lift pair addr_kinds del: kind_type_of_Some)
  qed
qed (simp_all add: address_read_def)

lemma read_kind_format: "canonical_format (\<lambda>k. kind_ok k \<and> kind_to_kind_type k = kt) kind_bytes (read_kind kt)"
proof
  fix k b r assume k: "kind_ok k \<and> kind_to_kind_type k = kt" and b: "rb_ok b" "rest b = kind_bytes k @ r"
  show "\<exists>b'. read_kind kt b = Ok (k, b') \<and> rb_ok b' \<and> rest b' = r"
  proof (cases k)
    case (Single x) with k b key_format.rd_enc [of x b r] show ?thesis by auto
  next
    case (Group x g) with k b keys.rd_enc [of "(x, g)" b r] show ?thesis by auto
  next
    case (AccountKind x) with k b key_format.rd_enc [of x b r] show ?thesis by auto
  next
    case (Multisig x) with k b hash_format.rd_enc [of x b r] show ?thesis by auto
  next
    case (Script x) with k b hash_format.rd_enc [of x b r] show ?thesis by auto
  qed
next
  fix b k b' assume b: "rb_ok b" and r: "read_kind kt b = Ok (k, b')"
  show "(kind_ok k \<and> kind_to_kind_type k = kt) \<and> rb_ok b' \<and> rest b = kind_bytes k @ rest b'"
    using r key_format.rd_canonical [OF b] keys.rd_canonical [OF b] hash_format.rd_canonical [OF b]
    by (cases kt) (fastforce simp: outcome_simps)+
next
  fix b assume "rb_ok b"
  then show "read_kind kt b \<noteq> Panic"
    using key_format.rd_total keys.rd_total hash_format.rd_total by (cases kt) (auto simp: outcome_simps)
qed

definition address_ok :: "address \<Rightarrow> bool" where
  "address_ok a \<longleftrightarrow> kind_ok (addr_kind a)"

lemmas read_kind_enc = format.rd_enc [OF canonical_format.axioms(1) [OF read_kind_format]]
lemmas read_kind_canonical = canonical_format.rd_canonical [OF read_kind_format]
lemmas read_kind_total = canonical_format.rd_total [OF read_kind_format]

interpretation address_format: canonical_format address_ok address_bytes address_read
proof
  fix a b r assume a: "address_ok a" and b: "rb_ok b" and r: "rest b = address_bytes a @ r"
  obtain d k where ad: "a = Address d k" by (cases a)
  then have rb: "rest b = first_byte d (kind_to_kind_type k) # kind_bytes k @ r" using r by (simp add: address_bytes_def)
  then have u8: "get_u8 b = Ok (first_byte d (kind_to_kind_type k), advance 1 b)" using b by (simp add: get_u8_eq)
  have adv: "rb_ok (advance 1 b)" "rest (advance 1 b) = kind_bytes k @ r" using advance_ok [OF b, of 1] rb by simp_all
  have k: "kind_ok k \<and> kind_to_kind_type k = kind_to_kind_type k" using a ad by (simp add: address_ok_def)
  obtain b' where b': "read_kind (kind_to_kind_type k) (advance 1 b) = Ok (k, b')" "rb_ok b'" "rest b' = r"
    using read_kind_enc [OF k adv] by blast
  have "kind_type_of (to_value (kind_to_kind_type k)) = Some (kind_to_kind_type k)" by simp
  with u8 b' ad show "\<exists>b'. address_read b = Ok (a, b') \<and> rb_ok b' \<and> rest b' = r" by (simp add: address_read_eq del: kind_type_of_Some)
next
  fix b a b' assume b: "rb_ok b" and ok: "address_read b = Ok (a, b')"
  then obtain byte b1 where u8: "get_u8 b = Ok (byte, b1)" by (auto simp: address_read_eq outcome_simps)
  then have b1: "b1 = advance 1 b" "rest b = byte # rest b1" "rb_ok b1"
    using get_u8_eq [OF b] advance_ok [OF b, of 1] by (auto split: list.splits)
  obtain kt where kt: "kind_type_of (get_kind_value byte) = Some kt"
    using ok u8 by (cases "kind_type_of (get_kind_value byte)") (auto simp: address_read_eq)
  then obtain k where k: "read_kind kt b1 = Ok (k, b')" "a = Address (get_discrimination_value byte) k"
    using ok u8 by (auto simp: address_read_eq outcome_simps simp del: kind_type_of_Some)
  have c: "kind_ok k" "kind_to_kind_type k = kt" "rb_ok b'" "rest b1 = kind_bytes k @ rest b'"
    using read_kind_canonical [OF b1(3) k(1)] by simp_all
  have "byte = first_byte (get_discrimination_value byte) kt" using kt first_byte_unique by simp
  with c k b1 show "address_ok a \<and> rb_ok b' \<and> rest b = address_bytes a @ rest b'"
    by (simp add: address_ok_def address_bytes_def)
next
  fix b assume b: "rb_ok b"
  show "address_read b \<noteq> Panic"
  proof (cases "get_u8 b")
    case (Ok p)
    obtain byte b1 where p: "p = (byte, b1)" by (cases p)
    with Ok have "rb_ok b1" using get_u8_eq [OF b] advance_ok [OF b, of 1] by (auto split: list.splits)
    with Ok p show ?thesis
      using read_kind_total [of b1] by (cases "kind_type_of (get_kind_value byte)") (auto simp: address_read_eq outcome_simps simp del: kind_type_of_Some)
  next
    case Panic
    then show ?thesis using get_u8_eq [OF b] by (auto split: list.splits)
  qed (simp add: address_read_eq)
qed

section \<open>The other readers\<close>

lemma kind_bytes_length: "kind_ok k \<Longrightarrow> length (kind_bytes k) + 1 = kind_to_size k"
  by (cases k) auto

text \<open>Reading from bytes that have the right length for their kind.\<close>

lemma key_at_eq: "i \<le> j \<Longrightarrow> j \<le> length bs \<Longrightarrow> j - i = 32 \<Longrightarrow> key_at bs i j = Ok (PublicKey (take 32 (drop i bs)))"
  by (simp add: key_at_def vec_slice_def public_from_binary_def)

lemma address_from_bytes_enc:
  assumes "address_ok a"
  shows "address_from_bytes (address_bytes a) = Ok a"
proof -
  obtain d k where a: "a = Address d k" by (cases a)
  have len: "length (address_bytes a) = kind_to_size k"
    using assms a kind_bytes_length [of k] by (simp add: address_bytes_def address_ok_def)
  have valid: "is_valid_data (address_bytes a) = Ok (d, kind_to_kind_type k)"
    using len by (cases k) (simp_all add: is_valid_data_def address_bytes_def a addr_kinds)
  show ?thesis
    using valid len assms
    by (cases k) (simp_all add: address_from_bytes_def nth_opt_eq unwrap_opt_def address_bytes_def a addr_kinds key_at_eq vec_slice_def address_ok_def)
qed

lemma address_from_bytes_canonical:
  assumes "address_from_bytes bs = Ok a"
  shows "address_ok a \<and> bs = address_bytes a"
proof (cases bs)
  case Nil
  then show ?thesis using assms by (simp add: address_from_bytes_def is_valid_data_def)
next
  case (Cons byte ps)
  obtain kt where valid: "is_valid_data bs = Ok (get_discrimination_value byte, kt)"
    using assms Cons by (auto simp: address_from_bytes_def is_valid_data_def Let_def outcome_simps split: if_splits)
  then have kt: "get_kind_value byte = to_value kt" "length ps = (if kt = KtGroup then 64 else 32)"
    using Cons by (auto simp: is_valid_data_def Let_def outcome_simps split: if_splits)
  have "byte = first_byte (get_discrimination_value byte) kt" by (rule first_byte_unique [OF kt(1)])
  with assms Cons kt valid show ?thesis
    by (cases kt) (auto simp: address_from_bytes_def nth_opt_eq unwrap_opt_def address_bytes_def addr_kinds key_at_eq vec_slice_def address_ok_def)
qed

text \<open>Valid data always parses: the panics of \<open>to_address\<close> are unreachable.\<close>

lemma is_valid_data_parses:
  assumes "is_valid_data bs = Ok x"
  shows "\<exists>a. address_from_bytes bs = Ok a"
proof (cases bs)
  case Nil
  then show ?thesis using assms by (simp add: is_valid_data_def)
next
  case (Cons byte ps)
  then have kt: "get_kind_value byte = to_value (snd x)" "length ps = (if snd x = KtGroup then 64 else 32)"
    using assms by (auto simp: is_valid_data_def Let_def outcome_simps split: if_splits)
  with assms Cons show ?thesis
    by (cases "snd x") (auto simp: address_from_bytes_def nth_opt_eq unwrap_opt_def addr_kinds key_at_eq vec_slice_def)
qed

interpretation output_pair: format_pair address_ok address_bytes address_read "\<lambda>_. True" value_bytes value_read
  ..

lemma read_output_eq: "read_output rd b = omap (map_prod (\<lambda>(a, v). \<lparr>out_address = a, out_value = v\<rparr>) id) (read_pair rd value_read b)"
  by (simp add: read_output_def read_pair_def outcome_push split_def comp_def)

lemma read_output_format:
  "canonical_format (\<lambda>o'. address_ok (out_address o')) (\<lambda>o'. address_bytes (out_address o') @ value_bytes (out_value o'))
     (read_output address_read)"
proof
  fix x :: "address tx_output" and b r assume x: "address_ok (out_address x)" and b: "rb_ok b"
    "rest b = (address_bytes (out_address x) @ value_bytes (out_value x)) @ r"
  then show "\<exists>b'. read_output address_read b = Ok (x, b') \<and> rb_ok b' \<and> rest b' = r"
    using format.rd_enc [OF canonical_format.axioms(1) [OF output_pair.pair_format], of "(out_address x, out_value x)" b r]
    by (auto simp: read_output_eq)
next
  fix b and x :: "address tx_output" and b' assume b: "rb_ok b" and ok: "read_output address_read b = Ok (x, b')"
  then obtain a v where "read_pair address_read value_read b = Ok ((a, v), b')" "x = \<lparr>out_address = a, out_value = v\<rparr>"
    by (auto simp: read_output_eq outcome_simps)
  with canonical_format.rd_canonical [OF output_pair.pair_format b this(1)]
  show "address_ok (out_address x) \<and> rb_ok b' \<and> rest b = (address_bytes (out_address x) @ value_bytes (out_value x)) @ rest b'"
    by auto
next
  show "rb_ok b \<Longrightarrow> read_output address_read b \<noteq> Panic" for b
    using canonical_format.rd_total [OF output_pair.pair_format, of b] by (auto simp: read_output_eq outcome_simps)
qed

section \<open>Properties\<close>

text \<open>
  C25. Addresses on the wire: serialising writes exactly one byte string per address, both \<open>from_bytes\<close> and
  the buffer reader accept a byte string as an address exactly if it is the serialisation of that
  address, and likewise for a transaction output, which is an address followed by a value. So parsing
  is the inverse of printing, and no two byte strings denote the same address.
\<close>

theorem address_wire:
  "address_to_bytes a = Ok (address_bytes a)
   \<and> (address_from_bytes bs = Ok a \<longleftrightarrow> address_ok a \<and> bs = address_bytes a)
   \<and> (read_from_raw address_read bs = Ok a \<longleftrightarrow> address_ok a \<and> bs = address_bytes a)
   \<and> (read_from_raw (read_output address_read) bs = Ok x \<longleftrightarrow>
        address_ok (out_address x) \<and> bs = address_bytes (out_address x) @ value_bytes (out_value x))"
  using address_to_bytes_eq address_from_bytes_enc address_from_bytes_canonical
    address_format.read_from_raw_iff canonical_format.read_from_raw_iff [OF read_output_format] by blast

text \<open>
  The stream reader reads back every serialised address except script addresses, on which it panics:
  its match lists only four of the five kinds and calls the others unreachable.
\<close>

theorem address_deserialize_kinds:
  assumes "address_ok a"
  shows "address_deserialize (address_bytes a @ tail) = (case addr_kind a of Script _ \<Rightarrow> Panic | _ \<Rightarrow> Ok (a, tail))"
proof -
  obtain d k where a: "a = Address d k" by (cases a)
  have u8: "codec_get_u8 (first_byte d kt # bs) = Ok (first_byte d kt, bs)" for kt bs
    by (simp add: codec_get_u8_def read_exact_def unwrap_opt_def nth_opt_eq)
  have key: "codec_get_key (pk_bytes x @ bs) = Ok (x, bs)" if "length (pk_bytes x) = 32" for x bs
    using that by (simp add: codec_get_key_def read_exact_def public_from_binary_def)
  show ?thesis
    using assms a by (cases k)
      (simp_all add: address_deserialize_def address_bytes_def u8 key address_ok_def addr_kinds read_exact_def)
qed

theorem address_deserialize_kinds_witness:
  "address_deserialize (address_bytes (Address Test (Script (replicate 32 7)))) = Panic
   \<and> address_deserialize (address_bytes (Address Test (Multisig (replicate 32 7)))) = Ok (Address Test (Multisig (replicate 32 7)), [])"
  using address_deserialize_kinds [of "Address Test (Script (replicate 32 7))" "[]"]
    address_deserialize_kinds [of "Address Test (Multisig (replicate 32 7))" "[]"] by (simp add: address_ok_def)

text \<open>
  The unwraps of the human-readable form are safe: a string that was accepted converts to an address
  without panic, whatever the bech32 decoder does. If the decoder inverts the encoder, the string made
  from an address is accepted under its prefix and converts back to it.
\<close>

theorem readable_roundtrip:
  assumes "\<And>p d s. b32_encode bc p d Bech32 = Some s \<Longrightarrow> b32_decode bc s = Some (p, d, Bech32)"
    and "\<And>bs. from_base32 bc (to_base32 bc bs) = Some bs"
  shows "(readable_from_str_anyprefix bc s = Ok r \<longrightarrow> (\<exists>a. readable_to_address bc r = (Ok a :: ('e, _) outcome) \<and> address_ok a))
    \<and> (address_ok a \<longrightarrow> readable_from_address bc p a = (Ok r :: ('e, _) outcome) \<longrightarrow>
        readable_from_string bc p (as_string r) = Ok r \<and> readable_to_address bc r = (Ok a :: ('e, _) outcome))"
proof (intro conjI impI)
  assume "readable_from_str_anyprefix bc s = Ok r"
  then obtain hrp data dat x where d: "b32_decode bc s = Some (hrp, data, Bech32)" "from_base32 bc data = Some dat"
    "is_valid_data dat = Ok x" "r = AddressReadable s"
    by (auto simp: readable_from_str_anyprefix_def outcome_simps split: if_splits)
  then obtain a where "address_from_bytes dat = Ok a" using is_valid_data_parses by blast
  with d address_from_bytes_canonical show "\<exists>a. readable_to_address bc r = (Ok a :: ('e, _) outcome) \<and> address_ok a"
    by (auto simp: readable_to_address_def unwrap_opt_def)
next
  assume a: "address_ok a" and r: "readable_from_address bc p a = (Ok r :: ('e, _) outcome)"
  then have "b32_decode bc (as_string r) = Some (p, to_base32 bc (address_bytes a), Bech32)"
    using assms(1) by (auto simp: readable_from_address_def address_to_bytes_eq outcome_simps)
  moreover obtain x where "is_valid_data (address_bytes a) = Ok x"
    using address_from_bytes_enc [OF a] by (auto simp: address_from_bytes_def outcome_simps)
  ultimately show "readable_from_string bc p (as_string r) = Ok r" "readable_to_address bc r = (Ok a :: ('e, _) outcome)"
    using assms(2) address_from_bytes_enc [OF a]
    by (simp_all add: readable_from_string_def readable_to_address_def unwrap_opt_def ok_or_def)
qed

text \<open>A coding that satisfies these hypotheses: the prefix, a separator and the bytes.\<close>

definition plain_bech32 :: bech32 where
  "plain_bech32 = \<lparr>b32_encode = \<lambda>p d v. if CHR ''1'' \<in> set p then None else Some (p @ ''1'' @ map (\<lambda>b. char_of (unat b)) d),
     b32_decode = \<lambda>s. Some (takeWhile (\<lambda>c. c \<noteq> CHR ''1'') s, map (\<lambda>c. of_nat (of_char c)) (tl (dropWhile (\<lambda>c. c \<noteq> CHR ''1'') s)), Bech32),
     to_base32 = \<lambda>bs. bs, from_base32 = Some\<rparr>"

lemma plain_bech32_inverse:
  "b32_encode plain_bech32 p d Bech32 = Some s \<Longrightarrow> b32_decode plain_bech32 s = Some (p, d, Bech32)"
  "from_base32 plain_bech32 (to_base32 plain_bech32 bs) = Some bs"
proof -
  have "map (\<lambda>c. of_nat (of_char c)) (map (\<lambda>b. char_of (unat b)) d) = d" for d :: "u8 list"
  proof -
    have "of_nat (of_char (char_of (unat b))) = b" for b :: u8
      using unat_lt_2p [of b] by (simp add: of_char_of)
    then show ?thesis by (simp add: comp_def)
  qed
  then show "b32_encode plain_bech32 p d Bech32 = Some s \<Longrightarrow> b32_decode plain_bech32 s = Some (p, d, Bech32)"
    by (auto simp: plain_bech32_def takeWhile_append dropWhile_append split: if_splits)
  show "from_base32 plain_bech32 (to_base32 plain_bech32 bs) = Some bs" by (simp add: plain_bech32_def)
qed

theorem readable_roundtrip_witness:
  "\<exists>r. readable_from_address plain_bech32 ''ca'' (Address Test (Script (replicate 32 7))) = (Ok r :: (unit, _) outcome)
     \<and> readable_to_address plain_bech32 r = (Ok (Address Test (Script (replicate 32 7))) :: (unit, _) outcome)"
proof -
  let ?a = "Address Test (Script (replicate 32 7))"
  obtain r where r: "readable_from_address plain_bech32 ''ca'' ?a = (Ok r :: (unit, _) outcome)"
    by (simp add: readable_from_address_def address_to_bytes_eq plain_bech32_def unwrap_opt_def)
  with readable_roundtrip [OF plain_bech32_inverse, of "''''" r ?a "''ca''", where 'e = unit] show ?thesis
    by (simp add: address_ok_def)
qed

end
