(* ===== verification/Byte_Builder.thy ===== *)
theory Byte_Builder
  imports Codec
begin

text \<open>
  The byte builder (\<open>typed-bytes/src/builder.rs\<close>) with which fragments, certificates and headers are
  serialised. A builder is a buffer and, for a builder of fixed size, the size it must reach.
\<close>

record byte_builder =
  bb_buffer :: "u8 list"
  bb_expected :: "nat option"

definition bb_new :: byte_builder where
  "bb_new = \<lparr>bb_buffer = [], bb_expected = None\<rparr>"

text \<open>The size of a fixed builder is a \<open>NonZeroUsize\<close>.\<close>

definition bb_new_fixed :: "nat \<Rightarrow> byte_builder" where
  "bb_new_fixed sz = \<lparr>bb_buffer = [], bb_expected = Some sz\<rparr>"

definition bb_u8 :: "byte_builder \<Rightarrow> u8 \<Rightarrow> byte_builder" where
  "bb_u8 bb v = bb\<lparr>bb_buffer := bb_buffer bb @ [v]\<rparr>"

definition bb_bytes :: "byte_builder \<Rightarrow> u8 list \<Rightarrow> byte_builder" where
  "bb_bytes bb v = bb\<lparr>bb_buffer := bb_buffer bb @ v\<rparr>"

definition bb_fold :: "byte_builder \<Rightarrow> 'a list \<Rightarrow> (byte_builder \<Rightarrow> 'a \<Rightarrow> byte_builder) \<Rightarrow> byte_builder" where
  "bb_fold bb l f = fold (\<lambda>x b. f b x) l bb"

definition bb_u16 :: "byte_builder \<Rightarrow> u16 \<Rightarrow> byte_builder" where
  "bb_u16 bb v = bb_bytes bb (to_be_bytes v)"

definition bb_u32 :: "byte_builder \<Rightarrow> u32 \<Rightarrow> byte_builder" where
  "bb_u32 bb v = bb_bytes bb (to_be_bytes v)"

definition bb_u64 :: "byte_builder \<Rightarrow> u64 \<Rightarrow> byte_builder" where
  "bb_u64 bb v = bb_bytes bb (to_be_bytes v)"

definition bb_u128 :: "byte_builder \<Rightarrow> u128 \<Rightarrow> byte_builder" where
  "bb_u128 bb v = bb_bytes bb (to_be_bytes v)"

definition bb_iter8 :: "byte_builder \<Rightarrow> 'a list \<Rightarrow> (byte_builder \<Rightarrow> 'a \<Rightarrow> byte_builder) \<Rightarrow> ('e, byte_builder) outcome" where
  "bb_iter8 bb l f =
     obind (require (length l \<le> 255)) (\<lambda>_. Ok (fold (\<lambda>x b. f b x) l (bb_u8 bb (of_nat (length l)))))"

definition bb_iter16 :: "byte_builder \<Rightarrow> 'a list \<Rightarrow> (byte_builder \<Rightarrow> 'a \<Rightarrow> byte_builder) \<Rightarrow> ('e, byte_builder) outcome" where
  "bb_iter16 bb l f =
     obind (require (length l \<le> 65535)) (\<lambda>_. Ok (fold (\<lambda>x b. f b x) l (bb_u16 bb (of_nat (length l)))))"

definition bb_iter32 :: "byte_builder \<Rightarrow> 'a list \<Rightarrow> (byte_builder \<Rightarrow> 'a \<Rightarrow> byte_builder) \<Rightarrow> ('e, byte_builder) outcome" where
  "bb_iter32 bb l f =
     obind (require (length l \<le> 4294967295)) (\<lambda>_. Ok (fold (\<lambda>x b. f b x) l (bb_u32 bb (of_nat (length l)))))"

definition bb_sub :: "byte_builder \<Rightarrow> (byte_builder \<Rightarrow> byte_builder) \<Rightarrow> byte_builder" where
  "bb_sub bb f = bb\<lparr>bb_buffer := bb_buffer (f (bb\<lparr>bb_expected := None\<rparr>))\<rparr>"

definition bb_option_or_else ::
  "byte_builder \<Rightarrow> 'v option \<Rightarrow> (byte_builder \<Rightarrow> byte_builder) \<Rightarrow> (byte_builder \<Rightarrow> 'v \<Rightarrow> byte_builder) \<Rightarrow> byte_builder" where
  "bb_option_or_else bb v d f = (case v of None \<Rightarrow> d bb | Some x \<Rightarrow> f bb x)"

definition bb_option :: "byte_builder \<Rightarrow> 'v option \<Rightarrow> (byte_builder \<Rightarrow> 'v \<Rightarrow> byte_builder) \<Rightarrow> byte_builder" where
  "bb_option bb v f = bb_option_or_else bb v (\<lambda>b. b) f"

definition bb_finalize :: "byte_builder \<Rightarrow> ('e, u8 list) outcome" where
  "bb_finalize bb =
     (case bb_expected bb of
        None \<Rightarrow> Ok (bb_buffer bb)
      | Some expected_sz \<Rightarrow> if expected_sz = length (bb_buffer bb) then Ok (bb_buffer bb) else Panic)"

definition bb_finalize_as_vec :: "byte_builder \<Rightarrow> u8 list" where
  "bb_finalize_as_vec bb = bb_buffer bb"

section \<open>Appending\<close>

text \<open>A building step appends what it would build from nothing, and keeps the expected size.\<close>

definition appends :: "(byte_builder \<Rightarrow> byte_builder) \<Rightarrow> u8 list \<Rightarrow> bool" where
  "appends f bs \<longleftrightarrow> (\<forall>bb. f bb = bb\<lparr>bb_buffer := bb_buffer bb @ bs\<rparr>)"

named_theorems bb_simps "byte builders as appended bytes"

lemma bb_appends [bb_simps]:
  "bb_u8 bb a = bb\<lparr>bb_buffer := bb_buffer bb @ [a]\<rparr>" "bb_bytes bb s = bb\<lparr>bb_buffer := bb_buffer bb @ s\<rparr>"
  "bb_u16 bb b = bb\<lparr>bb_buffer := bb_buffer bb @ to_be_bytes b\<rparr>" "bb_u32 bb c = bb\<lparr>bb_buffer := bb_buffer bb @ to_be_bytes c\<rparr>"
  "bb_u64 bb d = bb\<lparr>bb_buffer := bb_buffer bb @ to_be_bytes d\<rparr>" "bb_u128 bb e = bb\<lparr>bb_buffer := bb_buffer bb @ to_be_bytes e\<rparr>"
  by (simp_all add: bb_u8_def bb_bytes_def bb_u16_def bb_u32_def bb_u64_def bb_u128_def)

lemma bb_fold_appends:
  assumes "\<And>x. appends (\<lambda>b. f b x) (enc x)"
  shows "bb_fold bb xs f = bb\<lparr>bb_buffer := bb_buffer bb @ concat (map enc xs)\<rparr>"
    and "fold (\<lambda>x b. f b x) xs bb = bb\<lparr>bb_buffer := bb_buffer bb @ concat (map enc xs)\<rparr>"
proof -
  show eq: "fold (\<lambda>x b. f b x) xs bb = bb\<lparr>bb_buffer := bb_buffer bb @ concat (map enc xs)\<rparr>" for bb
    using assms by (induction xs arbitrary: bb) (auto simp: appends_def)
  then show "bb_fold bb xs f = bb\<lparr>bb_buffer := bb_buffer bb @ concat (map enc xs)\<rparr>" by (simp add: bb_fold_def)
qed

lemma bb_iter_appends:
  assumes "\<And>x. appends (\<lambda>b. f b x) (enc x)"
  shows "length xs < 2 ^ 8 \<Longrightarrow> bb_iter8 bb xs f = Ok (bb\<lparr>bb_buffer := bb_buffer bb @ of_nat (length xs) # concat (map enc xs)\<rparr>)"
    and "length xs < 2 ^ 16 \<Longrightarrow> bb_iter16 bb xs f = Ok (bb\<lparr>bb_buffer := bb_buffer bb @ to_be_bytes (of_nat (length xs) :: u16) @ concat (map enc xs)\<rparr>)"
    and "length xs < 2 ^ 32 \<Longrightarrow> bb_iter32 bb xs f = Ok (bb\<lparr>bb_buffer := bb_buffer bb @ to_be_bytes (of_nat (length xs) :: u32) @ concat (map enc xs)\<rparr>)"
  using bb_fold_appends(2) [of f enc, OF assms] by (simp_all add: bb_iter8_def bb_iter16_def bb_iter32_def require_def bb_simps)

text \<open>Reading a counted list back.\<close>

definition read_counted8 :: "'a reader \<Rightarrow> 'a list reader" where
  "read_counted8 rd b = obind (get_u8 b) (\<lambda>(n, b'). read_vec rd (unat n) b')"

lemma read_counted8_enc:
  assumes "format valid enc rd" and "\<forall>x \<in> set xs. valid x" and "length xs < 2 ^ 8" and "rb_ok b"
    and "rest b = of_nat (length xs) # concat (map enc xs) @ r"
  shows "\<exists>b'. read_counted8 rd b = Ok (xs, b') \<and> rb_ok b' \<and> rest b' = r"
proof -
  have "get_u8 b = Ok (of_nat (length xs), advance 1 b)" using assms(4,5) by (simp add: get_u8_eq)
  moreover have "rb_ok (advance 1 b)" "rest (advance 1 b) = concat (map enc xs) @ r"
    using advance_ok [OF assms(4), of 1] assms(5) by simp_all
  moreover have "unat (of_nat (length xs) :: u8) = length xs" using assms(3) by (simp add: unat_of_nat_id)
  ultimately show ?thesis using format.read_vec_enc [OF assms(1,2)] by (simp add: read_counted8_def)
qed

section \<open>Properties\<close>

text \<open>
  What a builder writes, the buffer reader reads back: a list written with its one-byte length by
  \<open>iter8\<close>, each element in any wire format, is read back whole with the following bytes left unread; a
  longer list panics. A builder of fixed size finalises exactly if that many bytes were written.
\<close>

theorem builder_reader_roundtrip:
  assumes "format valid enc rd" and "\<And>x. appends (\<lambda>b. f b x) (enc x)" and "\<forall>x \<in> set xs. valid x"
  shows "(case bb_iter8 bb_new xs f :: ('e, _) outcome of
      Ok bb \<Rightarrow> (\<exists>b'. read_counted8 rd (rb_from (bb_finalize_as_vec bb @ tail)) = Ok (xs, b') \<and> rest b' = tail)
        \<and> length xs \<le> 255 \<and> bb_finalize bb = (Ok (bb_buffer bb) :: ('e, _) outcome)
        \<and> (bb_finalize (bb\<lparr>bb_expected := Some n\<rparr>) = (Panic :: ('e, _) outcome) \<longleftrightarrow> n \<noteq> length (bb_buffer bb))
    | Err e \<Rightarrow> False
    | Panic \<Rightarrow> 255 < length xs)"
proof (cases "length xs \<le> 255")
  case True
  let ?bs = "of_nat (length xs) # concat (map enc xs)"
  have iter: "bb_iter8 bb_new xs f = (Ok (bb_new\<lparr>bb_buffer := ?bs\<rparr>) :: ('e, _) outcome)"
    using bb_iter_appends(1) [OF assms(2), of xs bb_new] True by (simp add: bb_new_def)
  obtain b' where "read_counted8 rd (rb_from (?bs @ tail)) = Ok (xs, b')" "rest b' = tail"
    using read_counted8_enc [OF assms(1,3), of "rb_from (?bs @ tail)" tail] True by auto
  with iter True show ?thesis by (auto simp: bb_finalize_as_vec_def bb_finalize_def bb_new_def)
next
  case False
  then show ?thesis by (simp add: bb_iter8_def require_def)
qed

theorem builder_reader_roundtrip_witness:
  "\<exists>b'. read_counted8 get_u16 (rb_from ([2, 0, 7, 1, 0] @ [9])) = Ok ([7, 256], b') \<and> rest b' = [9]"
proof -
  have f: "format (\<lambda>_. True) to_be_bytes get_u16" by (rule u16_format.format_axioms)
  have a: "\<And>x. appends (\<lambda>b. bb_u16 b x) (to_be_bytes x)" by (simp add: appends_def bb_simps)
  have "bb_iter8 bb_new [7, 256 :: u16] bb_u16 = (Ok (bb_new\<lparr>bb_buffer := [2, 0, 7, 1, 0]\<rparr>) :: (unit, _) outcome)" by code_simp
  with builder_reader_roundtrip [OF f a, of "[7, 256]" "[9]" 5, where 'e = unit] show ?thesis
    by (auto simp: bb_finalize_as_vec_def)
qed

end
