(* ===== verification/Stake.thy ===== *)
theory Stake
  imports Account Address "HOL-Library.AList"
begin

text \<open>
  Stake (\<open>stake/stake.rs\<close>) and the stake controlled by accounts (\<open>stake/controlled.rs\<close>). An account
  identifier is an Ed25519 public key (\<open>account.rs\<close>, a newtype).
\<close>

section \<open>Amounts of stake\<close>

datatype stake = Stake (stake_amount: u64)

instantiation stake :: linorder
begin

definition less_eq_stake :: "stake \<Rightarrow> stake \<Rightarrow> bool" where
  "less_eq_stake a b \<longleftrightarrow> stake_amount a \<le> stake_amount b"

definition less_stake :: "stake \<Rightarrow> stake \<Rightarrow> bool" where
  "less_stake a b \<longleftrightarrow> stake_amount a < stake_amount b"

instance
  by intro_classes (auto simp: less_eq_stake_def less_stake_def stake.expand)

end

datatype stake_unit = StakeUnit stake

record percent_stake =
  ps_stake :: stake
  ps_total :: stake

record split_stake_in =
  stake_parts :: stake_unit
  stake_remaining :: stake

definition stake_from_value :: "val \<Rightarrow> stake" where
  "stake_from_value v = Stake (amount v)"

definition stake_zero :: stake where
  "stake_zero = Stake 0"

text \<open>\<open>impl Add\<close>, with the overflow check of the plain operator.\<close>

definition stake_add :: "stake \<Rightarrow> stake \<Rightarrow> ('e, stake) outcome" where
  "stake_add a b = obind (padd (stake_amount a) (stake_amount b)) (\<lambda>s. Ok (Stake s))"

definition stake_sum :: "stake list \<Rightarrow> ('e, stake) outcome" where
  "stake_sum vs = fold (\<lambda>v acc. obind acc (\<lambda>a. stake_add a v)) vs (Ok (Stake 0))"

definition stake_checked_add :: "stake \<Rightarrow> stake \<Rightarrow> stake option" where
  "stake_checked_add a b = map_option Stake (checked_add (stake_amount a) (stake_amount b))"

definition stake_checked_sub :: "stake \<Rightarrow> stake \<Rightarrow> stake option" where
  "stake_checked_sub a b = map_option Stake (checked_sub (stake_amount a) (stake_amount b))"

definition stake_wrapping_add :: "stake \<Rightarrow> stake \<Rightarrow> stake" where
  "stake_wrapping_add a b = Stake (stake_amount a + stake_amount b)"

definition stake_wrapping_sub :: "stake \<Rightarrow> stake \<Rightarrow> stake" where
  "stake_wrapping_sub a b = Stake (stake_amount a - stake_amount b)"

definition stake_split_in :: "stake \<Rightarrow> u32 \<Rightarrow> ('e, split_stake_in) outcome" where
  "stake_split_in s n =
     obind (pdiv (stake_amount s) (ucast n)) (\<lambda>p.
     obind (pmod (stake_amount s) (ucast n)) (\<lambda>r.
     Ok \<lparr>stake_parts = StakeUnit (Stake p), stake_remaining = Stake r\<rparr>))"

fun stake_unit_scale :: "stake_unit \<Rightarrow> u32 \<Rightarrow> ('e, stake) outcome" where
  "stake_unit_scale (StakeUnit s) n = obind (unwrap_opt (checked_mul (stake_amount s) (ucast n))) (\<lambda>r. Ok (Stake r))"

definition percent_stake_new :: "stake \<Rightarrow> stake \<Rightarrow> ('e, percent_stake) outcome" where
  "percent_stake_new s t = obind (require (s \<le> t)) (\<lambda>_. Ok \<lparr>ps_stake = s, ps_total = t\<rparr>)"

definition STAKE_SCALE :: u128 where
  "STAKE_SCALE = 1000000000000000000"

definition scale_value :: "percent_stake \<Rightarrow> val \<Rightarrow> ('e, val) outcome" where
  "scale_value ps v =
     obind (pmul (ucast (amount v)) STAKE_SCALE) (\<lambda>vs.
     obind (pdiv vs (ucast (stake_amount (ps_total ps)))) (\<lambda>scaled_divided.
     obind (pmul scaled_divided (ucast (stake_amount (ps_stake ps)))) (\<lambda>m.
     obind (pdiv m STAKE_SCALE) (\<lambda>r.
     Ok (Value (ucast r))))))"

section \<open>Stake as numbers\<close>

definition units :: "stake \<Rightarrow> nat" where
  "units s = unat (stake_amount s)"

lemma units_eq_iff: "units a = units b \<longleftrightarrow> a = b"
  by (cases a; cases b) (simp add: units_def word_unat_eq_iff)

lemma units_less: "units s < 2 ^ 64"
  using unat_lt_2p [of "stake_amount s"] by (simp add: units_def)

lemma units_simps [simp]: "units stake_zero = 0" "units (Stake 0) = 0" "units (stake_from_value v) = coins v"
  by (simp_all add: units_def stake_zero_def stake_from_value_def coins_def)

lemma units_order [checked_simps]: "a \<le> b \<longleftrightarrow> units a \<le> units b" "a < b \<longleftrightarrow> units a < units b"
  by (simp_all add: less_eq_stake_def less_stake_def units_def word_le_nat_alt word_less_nat_alt)

lemma stake_add_cases:
  obtains (sum) c where "stake_add a b = (Ok c :: ('e, stake) outcome)" and "units c = units a + units b"
  | (overflow) "stake_add a b = (Panic :: ('e, stake) outcome)" and "2 ^ 64 \<le> units a + units b"
proof (cases "padd (stake_amount a) (stake_amount b) :: ('e, u64) outcome")
  case (Ok s)
  then have "unat s = units a + units b" by (simp add: checked_simps units_def)
  with Ok that(1) [of "Stake s"] show ?thesis by (simp add: stake_add_def units_def)
next
  case Panic
  then have "2 ^ 64 \<le> units a + units b" by (simp add: plain_arith_Panic_iffs units_def)
  with Panic that(2) show ?thesis by (simp add: stake_add_def)
qed (simp add: padd_def outcome_simps)

lemma stake_add_iffs [checked_simps]:
  "stake_add a b = (Ok c :: ('e, stake) outcome) \<longleftrightarrow> units c = units a + units b"
  "stake_add a b \<noteq> (Err e :: ('e, stake) outcome)"
  "stake_add a b = (Panic :: ('e, stake) outcome) \<longleftrightarrow> 2 ^ 64 \<le> units a + units b"
proof -
  show "stake_add a b = (Ok c :: ('e, stake) outcome) \<longleftrightarrow> units c = units a + units b"
  proof (cases rule: stake_add_cases [of a b, where 'e = 'e])
    case (sum d)
    then show ?thesis using units_eq_iff [of c d] by auto
  next
    case overflow
    then show ?thesis using units_less [of c] by simp
  qed
  show "stake_add a b \<noteq> (Err e :: ('e, stake) outcome)"
    by (cases rule: stake_add_cases [of a b, where 'e = 'e]) simp_all
  show "stake_add a b = (Panic :: ('e, stake) outcome) \<longleftrightarrow> 2 ^ 64 \<le> units a + units b"
  proof (cases rule: stake_add_cases [of a b, where 'e = 'e])
    case (sum d)
    then show ?thesis using units_less [of d] by simp
  qed simp
qed

lemma stake_sum_spec:
  "case stake_sum vs :: ('e, stake) outcome of
     Ok t \<Rightarrow> units t = sum_list (map units vs)
   | Err e \<Rightarrow> False
   | Panic \<Rightarrow> 2 ^ 64 \<le> sum_list (map units vs)"
proof -
  have "case fold (\<lambda>v acc. obind acc (\<lambda>a. stake_add a v)) vs acc of
      Ok t \<Rightarrow> (\<exists>s. acc = Ok s \<and> units t = units s + sum_list (map units vs))
    | Err e \<Rightarrow> acc = Err e
    | Panic \<Rightarrow> acc = Panic \<or> (\<exists>s. acc = Ok s \<and> 2 ^ 64 \<le> units s + sum_list (map units vs))" for acc :: "('e, stake) outcome"
  proof (induction vs arbitrary: acc)
    case (Cons v vs)
    show ?case
    proof (cases acc)
      case (Ok s)
      show ?thesis
      proof (cases rule: stake_add_cases [of s v, where 'e = 'e])
        case (sum c)
        then show ?thesis using Cons [of "Ok c"] Ok by (auto split: outcome.splits)
      next
        case overflow
        then show ?thesis using Cons [of Panic] Ok by (auto split: outcome.splits)
      qed
    qed (use Cons [of acc] in \<open>auto split: outcome.splits\<close>)
  qed (auto split: outcome.splits)
  from this [of "Ok (Stake 0)"] show ?thesis by (auto simp: stake_sum_def split: outcome.splits)
qed

text \<open>
  The share of a value: the scaled division loses at most the fractional parts, so the shares of
  parts of the total never add up to more than the value.
\<close>

definition share :: "nat \<Rightarrow> nat \<Rightarrow> nat \<Rightarrow> nat" where
  "share v t s = (v * 10 ^ 18 div t * s) div 10 ^ 18"

lemma share_sum:
  assumes "sum_list ss \<le> t"
  shows "sum_list (map (share v t) ss) \<le> v"
proof -
  let ?q = "v * 10 ^ 18 div t"
  have "sum_list (map (share v t) ss) \<le> (?q * sum_list ss) div 10 ^ 18"
  proof (induction ss)
    case (Cons s ss)
    have "?q * s div 10 ^ 18 + ?q * sum_list ss div 10 ^ 18 \<le> (?q * s + ?q * sum_list ss) div 10 ^ 18"
      by (metis div_add1_eq le_add1 le_add2 add.commute)
    with Cons show ?case by (simp add: share_def distrib_left)
  qed simp
  also have "\<dots> \<le> (?q * t) div 10 ^ 18" using assms by (intro div_le_mono mult_le_mono2)
  also have "\<dots> \<le> (v * 10 ^ 18) div 10 ^ 18" by (intro div_le_mono) (simp add: div_times_less_eq_dividend)
  finally show ?thesis by simp
qed

lemma share_le: "s \<le> t \<Longrightarrow> share v t s \<le> v"
  using share_sum [of "[s]" t v] by simp

lemma scale_value_spec:
  assumes "ps_stake ps \<le> ps_total ps"
  shows "if units (ps_total ps) = 0 then scale_value ps v = (Panic :: ('e, val) outcome)
    else \<exists>r. scale_value ps v = (Ok r :: ('e, val) outcome) \<and> coins r = share (coins v) (units (ps_total ps)) (units (ps_stake ps))"
proof -
  let ?v = "ucast (amount v) :: u128" and ?t = "ucast (stake_amount (ps_total ps)) :: u128" and ?s = "ucast (stake_amount (ps_stake ps)) :: u128"
  have u: "unat ?v = coins v" "unat ?t = units (ps_total ps)" "unat ?s = units (ps_stake ps)"
    by (simp_all add: unat_ucast_up coins_def units_def)
  have sc: "unat STAKE_SCALE = 10 ^ 18" by (simp add: STAKE_SCALE_def)
  have small: "coins v * 10 ^ 18 < 2 ^ 128" using coins_less [of v] by simp
  then have m: "unat (?v * STAKE_SCALE) = coins v * 10 ^ 18" using unat_times_no_ovf [of ?v STAKE_SCALE] u sc by simp
  show ?thesis
  proof (cases "units (ps_total ps) = 0")
    case True
    then have "?t = 0" using u(2) by (simp add: word_unat_eq_iff)
    then show ?thesis using True small u sc
      by (simp add: scale_value_def pmul_def checked_mul_def unwrap_opt_def pdiv_def)
  next
    case False
    let ?q = "?v * STAKE_SCALE div ?t"
    have q: "unat ?q = coins v * 10 ^ 18 div units (ps_total ps)" using m u by (simp add: unat_div)
    have "unat ?q * units (ps_stake ps) \<le> coins v * 10 ^ 18 div units (ps_total ps) * units (ps_total ps)"
      unfolding q using assms by (intro mult_le_mono2) (simp add: checked_simps)
    then have le: "unat ?q * units (ps_stake ps) \<le> coins v * 10 ^ 18" by (meson div_times_less_eq_dividend le_trans)
    then have mq: "unat (?q * ?s) = unat ?q * units (ps_stake ps)" using unat_times_no_ovf [of ?q ?s] u small by simp
    have sh: "unat (?q * ?s div STAKE_SCALE) = share (coins v) (units (ps_total ps)) (units (ps_stake ps))"
      using mq unfolding q by (simp add: unat_div sc share_def)
    have "share (coins v) (units (ps_total ps)) (units (ps_stake ps)) \<le> coins v"
      using assms by (intro share_le) (simp add: checked_simps)
    then have "coins (Value (ucast (?q * ?s div STAKE_SCALE))) = share (coins v) (units (ps_total ps)) (units (ps_stake ps))"
      using coins_less [of v] sh by (simp add: coins_def unat_ucast_down)
    moreover have "?t \<noteq> 0" "STAKE_SCALE \<noteq> 0" using False u by (auto simp: STAKE_SCALE_def)
    ultimately show ?thesis using False small le u sc m mq q
      by (simp add: scale_value_def pmul_def checked_mul_def unwrap_opt_def pdiv_def)
  qed
qed

end
