(* ===== verification/Rewards.thy ===== *)
theory Rewards
  imports Stake Byte_Builder
begin

text \<open>
  The monetary rules: ratios and taxes (\<open>rewards.rs\<close>), fees (\<open>fee.rs\<close>), the treasury (\<open>treasury.rs\<close>)
  and the pots of the ledger (\<open>ledger/pots.rs\<close>).
\<close>

section \<open>Ratios and taxes\<close>

datatype compounding_type = Linear | Halvening

text \<open>The denominator is a \<open>NonZeroU64\<close>.\<close>

record ratio =
  numerator :: u64
  denominator :: u64

datatype ordering = OLess | OEqual | OGreater

definition cmp_word :: "'a::len word \<Rightarrow> 'a word \<Rightarrow> ordering" where
  "cmp_word a b = (if a < b then OLess else if a = b then OEqual else OGreater)"

definition ratio_cmp :: "ratio \<Rightarrow> ratio \<Rightarrow> ('e, ordering) outcome" where
  "ratio_cmp a b =
     (if denominator a = denominator b then Ok (cmp_word (numerator a) (numerator b))
      else obind (pmul (ucast (numerator a) :: u128) (ucast (denominator b))) (\<lambda>l.
           obind (pmul (ucast (numerator b) :: u128) (ucast (denominator a))) (\<lambda>r.
           Ok (cmp_word l r))))"

definition ratio_zero :: ratio where
  "ratio_zero = \<lparr>numerator = 0, denominator = 1\<rparr>"

record tax_type =
  tax_fixed :: val
  tax_ratio :: ratio
  tax_max_limit :: "u64 option"

definition tax_type_zero :: tax_type where
  "tax_type_zero = \<lparr>tax_fixed = Value 0, tax_ratio = ratio_zero, tax_max_limit = None\<rparr>"

definition tax_serialize_in :: "tax_type \<Rightarrow> byte_builder \<Rightarrow> byte_builder" where
  "tax_serialize_in t bb =
     bb_u64 (bb_u64 (bb_u64 (bb_u64 bb (amount (tax_fixed t))) (numerator (tax_ratio t)))
       (denominator (tax_ratio t))) (case tax_max_limit t of None \<Rightarrow> 0 | Some v \<Rightarrow> v)"

definition tax_read_frombuf :: "tax_type reader" where
  "tax_read_frombuf rb =
     obind (get_u64 rb) (\<lambda>(fixed, rb).
     obind (get_u64 rb) (\<lambda>(num, rb).
     obind (get_u64 rb) (\<lambda>(denom, rb).
     obind (get_u64 rb) (\<lambda>(limit, rb).
       if denom = 0 then Err (StructureInvalid ''ratio fraction divisor invalid'')
       else if num > denom then Err (StructureInvalid ''ratio fraction invalid bigger than 1'')
       else Ok (\<lparr>tax_fixed = Value fixed, tax_ratio = \<lparr>numerator = num, denominator = denom\<rparr>,
                 tax_max_limit = (if limit = 0 then None else Some limit)\<rparr>, rb)))))"

record tax_distribution =
  taxed :: val
  after_tax :: val

definition TAX_SCALE :: u128 where
  "TAX_SCALE = 1000000000"

text \<open>\<open>(((left * SCALE) * numerator) / denominator) / SCALE\<close>, cut to 64 bits.\<close>

definition tax_share :: "u64 \<Rightarrow> ratio \<Rightarrow> ('e, u64) outcome" where
  "tax_share l rr =
     obind (pmul (ucast l) TAX_SCALE) (\<lambda>a.
     obind (pmul a (ucast (numerator rr))) (\<lambda>b.
     obind (pdiv b (ucast (denominator rr))) (\<lambda>c.
     obind (pdiv c TAX_SCALE) (\<lambda>d. Ok (ucast d)))))"

definition tax_cut :: "val \<Rightarrow> tax_type \<Rightarrow> (value_error, tax_distribution) outcome" where
  "tax_cut v t =
     (case value_sub v (tax_fixed t) of
        Panic \<Rightarrow> Panic
      | Err _ \<Rightarrow> Ok \<lparr>taxed = v, after_tax = value_zero\<rparr>
      | Ok left1 \<Rightarrow>
          obind (value_add value_zero (tax_fixed t)) (\<lambda>tx.
          obind (tax_share (amount left1) (tax_ratio t)) (\<lambda>out.
          let treasury_cut = (case tax_max_limit t of None \<Rightarrow> Value out | Some limit \<Rightarrow> Value (min limit out)) in
          (case value_sub left1 treasury_cut of
             Panic \<Rightarrow> Panic
           | Ok left2 \<Rightarrow> obind (value_add tx treasury_cut) (\<lambda>tx. Ok \<lparr>taxed = tx, after_tax = left2\<rparr>)
           | Err _ \<Rightarrow> obind (value_add tx value_zero) (\<lambda>tx. Ok \<lparr>taxed = tx, after_tax = value_zero\<rparr>)))))"

section \<open>The reward contribution of an epoch\<close>

datatype limit = NoLimit | ByStakeAbsolute ratio

text \<open>\<open>epoch_rate\<close> and the two capping numbers are \<open>NonZeroU32\<close>.\<close>

record reward_parameters =
  initial_value :: u64
  compounding_ratio :: ratio
  compounding_kind :: compounding_type
  epoch_rate :: u32
  reward_epoch_start :: epoch
  reward_drawing_limit_max :: limit
  pool_participation_capping :: "(u32 \<times> u32) option"

definition reward_parameters_zero :: reward_parameters where
  "reward_parameters_zero = \<lparr>initial_value = 0, compounding_ratio = ratio_zero, compounding_kind = Linear,
     epoch_rate = - 1, reward_epoch_start = 0, reward_drawing_limit_max = NoLimit, pool_participation_capping = None\<rparr>"

definition HALVENING_SCALE :: u128 where
  "HALVENING_SCALE = 1000000000000000000"

primrec halvening_loop :: "ratio \<Rightarrow> nat \<Rightarrow> u128 \<Rightarrow> ('e, u128) outcome" where
  "halvening_loop rr 0 acc = Ok acc"
| "halvening_loop rr (Suc n) acc =
     obind (pmul acc (ucast (numerator rr))) (\<lambda>a.
     obind (pdiv a (ucast (denominator rr))) (halvening_loop rr n))"

definition rewards_drawn :: "reward_parameters \<Rightarrow> u64 \<Rightarrow> ('e, val) outcome" where
  "rewards_drawn p zone =
     (case compounding_kind p of
        Linear \<Rightarrow>
          let rr = compounding_ratio p in
          obind (pmul (numerator rr) zone) (\<lambda>m.
          obind (pdiv m (denominator rr)) (\<lambda>reduce_by.
          Ok (if initial_value p \<ge> reduce_by then Value (initial_value p - reduce_by) else value_zero)))
      | Halvening \<Rightarrow>
          obind (pmul (ucast (initial_value p)) HALVENING_SCALE) (\<lambda>acc.
          obind (halvening_loop (compounding_ratio p) (unat zone) acc) (\<lambda>acc.
          obind (pdiv acc HALVENING_SCALE) (\<lambda>q. Ok (Value (ucast q))))))"

definition rewards_contribution_calculation :: "epoch \<Rightarrow> reward_parameters \<Rightarrow> stake \<Rightarrow> ('e, val) outcome" where
  "rewards_contribution_calculation ep p declared_stake =
     obind (require (epoch_rate p \<noteq> 0)) (\<lambda>_.
     if ep < reward_epoch_start p then Ok value_zero
     else
       obind (psub ep (reward_epoch_start p)) (\<lambda>since.
       obind (pdiv since (epoch_rate p)) (\<lambda>zone.
       obind (rewards_drawn p (ucast zone)) (\<lambda>drawn.
       case reward_drawing_limit_max p of
         NoLimit \<Rightarrow> Ok drawn
       | ByStakeAbsolute rr \<Rightarrow>
           obind (pmul (ucast (stake_amount declared_stake) :: u128) (ucast (numerator rr))) (\<lambda>m.
           obind (pdiv m (ucast (denominator rr))) (\<lambda>x.
           Ok (min drawn (Value (ucast x)))))))))"

section \<open>Treasury and pots\<close>

datatype pot_error = PotValueInvalid value_error

datatype treasury = Treasury (treasury_val: val)

definition treasury_initial :: "val \<Rightarrow> treasury" where
  "treasury_initial v = Treasury v"

definition treasury_draw :: "treasury \<Rightarrow> val \<Rightarrow> ('e, treasury \<times> val) outcome" where
  "treasury_draw t v =
     (let to_draw = min v (treasury_val t) in
      obind (psub (amount (treasury_val t)) (amount to_draw)) (\<lambda>r. Ok (Treasury (Value r), to_draw)))"

definition treasury_add :: "treasury \<Rightarrow> val \<Rightarrow> (pot_error, treasury) outcome" where
  "treasury_add t v = obind (map_err PotValueInvalid (value_add (treasury_val t) v)) (\<lambda>n. Ok (Treasury n))"

definition treasury_sub :: "treasury \<Rightarrow> val \<Rightarrow> (pot_error, treasury) outcome" where
  "treasury_sub t v = obind (map_err PotValueInvalid (value_checked_sub (treasury_val t) v)) (\<lambda>n. Ok (Treasury n))"

record pots =
  pot_fees :: val
  pot_treasury :: treasury
  pot_rewards :: val

datatype pot_entry = EntryFees val | EntryTreasury val | EntryRewards val

datatype pot_iter_state = ItFees | ItTreasury | ItRewards | ItDone

fun pot_entry_value :: "pot_entry \<Rightarrow> val" where
  "pot_entry_value (EntryFees v) = v"
| "pot_entry_value (EntryTreasury v) = v"
| "pot_entry_value (EntryRewards v) = v"

fun pots_entries_next :: "pots \<Rightarrow> pot_iter_state \<Rightarrow> pot_entry option \<times> pot_iter_state" where
  "pots_entries_next p ItFees = (Some (EntryFees (pot_fees p)), ItTreasury)"
| "pots_entries_next p ItTreasury = (Some (EntryTreasury (treasury_val (pot_treasury p))), ItRewards)"
| "pots_entries_next p ItRewards = (Some (EntryRewards (pot_rewards p)), ItDone)"
| "pots_entries_next p ItDone = (None, ItDone)"

definition pots_zero :: pots where
  "pots_zero = \<lparr>pot_fees = value_zero, pot_treasury = treasury_initial value_zero, pot_rewards = value_zero\<rparr>"

text \<open>The values an iteration over the pots yields, from a state of the iterator on.\<close>

fun pots_left :: "pot_iter_state \<Rightarrow> nat" where
  "pots_left ItFees = 3" | "pots_left ItTreasury = 2" | "pots_left ItRewards = 1" | "pots_left ItDone = 0"

lemma pots_next_left: "pots_entries_next p s = (Some e, s') \<Longrightarrow> pots_left s' < pots_left s"
  by (cases s) auto

function pots_values_from :: "pots \<Rightarrow> pot_iter_state \<Rightarrow> val list" where
  "pots_values_from p s =
     (case pots_entries_next p s of (None, _) \<Rightarrow> [] | (Some e, s') \<Rightarrow> pot_entry_value e # pots_values_from p s')"
  by pat_completeness auto
termination
  by (relation "measure (\<lambda>(p, s). pots_left s)") (auto dest: pots_next_left [OF sym])

declare pots_values_from.simps [simp del]

definition pots_values :: "pots \<Rightarrow> val list" where
  "pots_values p = pots_values_from p ItFees"

definition pots_total_value :: "pots \<Rightarrow> (value_error, val) outcome" where
  "pots_total_value p = value_sum (pots_values p)"

definition append_fees :: "pots \<Rightarrow> val \<Rightarrow> (pot_error, pots) outcome" where
  "append_fees p fees = obind (map_err PotValueInvalid (value_add (pot_fees p) fees)) (\<lambda>n. Ok (p\<lparr>pot_fees := n\<rparr>))"

definition draw_reward :: "pots \<Rightarrow> val \<Rightarrow> ('e, pots \<times> val) outcome" where
  "draw_reward p expected_reward =
     (let to_draw = min (pot_rewards p) expected_reward in
      obind (unwrap (value_sub (pot_rewards p) to_draw)) (\<lambda>r. Ok (p\<lparr>pot_rewards := r\<rparr>, to_draw)))"

definition draw_treasury :: "pots \<Rightarrow> val \<Rightarrow> ('e, pots \<times> val) outcome" where
  "draw_treasury p expected_treasury =
     obind (treasury_draw (pot_treasury p) expected_treasury) (\<lambda>(t, v). Ok (p\<lparr>pot_treasury := t\<rparr>, v))"

definition siphon_fees :: "pots \<Rightarrow> pots \<times> val" where
  "siphon_fees p = (p\<lparr>pot_fees := value_zero\<rparr>, pot_fees p)"

definition pots_treasury_add :: "pots \<Rightarrow> val \<Rightarrow> (pot_error, pots) outcome" where
  "pots_treasury_add p v = obind (treasury_add (pot_treasury p) v) (\<lambda>t. Ok (p\<lparr>pot_treasury := t\<rparr>))"

definition pots_rewards_add :: "pots \<Rightarrow> val \<Rightarrow> (pot_error, pots) outcome" where
  "pots_rewards_add p v =
     obind (map_err PotValueInvalid (value_checked_add (pot_rewards p) v)) (\<lambda>n. Ok (p\<lparr>pot_rewards := n\<rparr>))"

fun pots_set_from_entry :: "pots \<Rightarrow> pot_entry \<Rightarrow> pots" where
  "pots_set_from_entry p (EntryFees v) = p\<lparr>pot_fees := v\<rparr>"
| "pots_set_from_entry p (EntryTreasury v) = p\<lparr>pot_treasury := treasury_initial v\<rparr>"
| "pots_set_from_entry p (EntryRewards v) = p\<lparr>pot_rewards := v\<rparr>"

section \<open>Fees\<close>

text \<open>The kinds of certificate a transaction can carry (\<open>certificate/mod.rs\<close>, \<open>CertificateSlice\<close>).\<close>

datatype certificate_slice =
    CsStakeDelegation | CsOwnerStakeDelegation | CsPoolRegistration | CsPoolRetirement | CsPoolUpdate
  | CsVotePlan | CsVoteCast | CsVoteTally | CsEncryptedVoteTally | CsUpdateProposal | CsUpdateVote | CsMintToken

record per_certificate_fee =
  certificate_pool_registration :: "u64 option"
  certificate_stake_delegation :: "u64 option"
  certificate_owner_stake_delegation :: "u64 option"

record per_vote_certificate_fee =
  certificate_vote_plan :: "u64 option"
  certificate_vote_cast :: "u64 option"

record linear_fee =
  fee_constant :: u64
  fee_coefficient :: u64
  fee_certificate :: u64
  per_certificate_fees :: per_certificate_fee
  per_vote_certificate_fees :: per_vote_certificate_fee

definition linear_fee_new :: "u64 \<Rightarrow> u64 \<Rightarrow> u64 \<Rightarrow> linear_fee" where
  "linear_fee_new c k cert = \<lparr>fee_constant = c, fee_coefficient = k, fee_certificate = cert,
     per_certificate_fees = \<lparr>certificate_pool_registration = None, certificate_stake_delegation = None,
       certificate_owner_stake_delegation = None\<rparr>,
     per_vote_certificate_fees = \<lparr>certificate_vote_plan = None, certificate_vote_cast = None\<rparr>\<rparr>"

definition per_certificate_fees_for :: "per_certificate_fee \<Rightarrow> certificate_slice \<Rightarrow> val option" where
  "per_certificate_fees_for f cert =
     (case cert of
        CsPoolRegistration \<Rightarrow> map_option Value (certificate_pool_registration f)
      | CsStakeDelegation \<Rightarrow> map_option Value (certificate_stake_delegation f)
      | CsOwnerStakeDelegation \<Rightarrow> map_option Value (certificate_owner_stake_delegation f)
      | _ \<Rightarrow> None)"

definition per_vote_certificate_fees_for :: "per_vote_certificate_fee \<Rightarrow> certificate_slice \<Rightarrow> val option" where
  "per_vote_certificate_fees_for f cert =
     (case cert of
        CsVotePlan \<Rightarrow> map_option Value (certificate_vote_plan f)
      | CsVoteCast \<Rightarrow> map_option Value (certificate_vote_cast f)
      | _ \<Rightarrow> None)"

definition baseline :: "linear_fee \<Rightarrow> val" where
  "baseline f = Value (fee_constant f)"

definition saturating_mul :: "'a::len word \<Rightarrow> 'a word \<Rightarrow> 'a word" where
  "saturating_mul a b = (case checked_mul a b of None \<Rightarrow> - 1 | Some c \<Rightarrow> c)"

text \<open>The sum of two bytes fits 64 bits.\<close>

definition fees_for_inputs_outputs :: "linear_fee \<Rightarrow> u8 \<Rightarrow> u8 \<Rightarrow> val" where
  "fees_for_inputs_outputs f inputs outputs = Value (saturating_mul (fee_coefficient f) (ucast inputs + ucast outputs))"

definition fees_for_certificate :: "linear_fee \<Rightarrow> certificate_slice \<Rightarrow> val" where
  "fees_for_certificate f cert_slice =
     (case per_certificate_fees_for (per_certificate_fees f) cert_slice of
        Some v \<Rightarrow> v
      | None \<Rightarrow> (case per_vote_certificate_fees_for (per_vote_certificate_fees f) cert_slice of
            Some v \<Rightarrow> v
          | None \<Rightarrow> Value (fee_certificate f)))"

definition fee_calculate :: "linear_fee \<Rightarrow> certificate_slice option \<Rightarrow> u8 \<Rightarrow> u8 \<Rightarrow> val" where
  "fee_calculate f cert inputs outputs =
     value_saturating_add
       (value_saturating_add (baseline f) (fees_for_inputs_outputs f inputs outputs))
       (case cert of None \<Rightarrow> value_zero | Some c \<Rightarrow> fees_for_certificate f c)"

section \<open>Taxes as numbers\<close>

text \<open>A proper ratio: at most one, with a non-zero denominator.\<close>

definition ratio_ok :: "ratio \<Rightarrow> bool" where
  "ratio_ok r \<longleftrightarrow> denominator r \<noteq> 0 \<and> numerator r \<le> denominator r"

definition cut :: "nat \<Rightarrow> ratio \<Rightarrow> nat" where
  "cut l r = l * 10 ^ 9 * unat (numerator r) div unat (denominator r) div 10 ^ 9"

lemma cut_le: "ratio_ok r \<Longrightarrow> cut l r \<le> l"
proof -
  assume "ratio_ok r"
  then have le: "unat (numerator r) \<le> unat (denominator r)" and pos: "0 < unat (denominator r)"
    by (auto simp: ratio_ok_def word_le_nat_alt word_unat_eq_iff)
  have "l * 10 ^ 9 * unat (numerator r) div unat (denominator r) \<le> l * 10 ^ 9 * unat (denominator r) div unat (denominator r)"
    using le by (intro div_le_mono mult_le_mono2)
  also have "\<dots> = l * 10 ^ 9" using pos by simp
  finally show ?thesis unfolding cut_def using div_le_mono [of _ "l * 10 ^ 9" "10 ^ 9"] by simp
qed

lemma tax_share_spec:
  assumes "ratio_ok r"
  shows "if unat l * 10 ^ 9 * unat (numerator r) < 2 ^ 128
    then \<exists>s. tax_share l r = (Ok s :: ('e, u64) outcome) \<and> unat s = cut (unat l) r
    else tax_share l r = (Panic :: ('e, u64) outcome)"
proof -
  let ?l = "ucast l :: u128" and ?n = "ucast (numerator r) :: u128" and ?d = "ucast (denominator r) :: u128"
  have u: "unat ?l = unat l" "unat ?n = unat (numerator r)" "unat ?d = unat (denominator r)" "unat TAX_SCALE = 10 ^ 9"
    by (simp_all add: unat_ucast_up TAX_SCALE_def)
  have d: "?d \<noteq> 0" using assms u(3) by (metis ratio_ok_def unat_0 word_unat_eq_iff)
  have "unat l * 10 ^ 9 < 2 ^ 128" using unat_lt_2p [of l] by simp
  then have m: "unat (?l * TAX_SCALE) = unat l * 10 ^ 9" using unat_times_no_ovf [of ?l TAX_SCALE] u by simp
  have step1: "pmul ?l TAX_SCALE = (Ok (?l * TAX_SCALE) :: ('e, u128) outcome)" using m u by (simp add: checked_simps)
  show ?thesis
  proof (cases "unat l * 10 ^ 9 * unat (numerator r) < 2 ^ 128")
    case True
    then have m2: "unat (?l * TAX_SCALE * ?n) = unat l * 10 ^ 9 * unat (numerator r)"
      using unat_times_no_ovf [of "?l * TAX_SCALE" ?n] m u by simp
    then have step2: "pmul (?l * TAX_SCALE) ?n = (Ok (?l * TAX_SCALE * ?n) :: ('e, u128) outcome)" using m u by (simp add: checked_simps)
    have "unat (?l * TAX_SCALE * ?n div ?d div TAX_SCALE) = cut (unat l) r"
      using m2 u by (simp add: unat_div cut_def)
    moreover have "cut (unat l) r < 2 ^ 64" using cut_le [OF assms, of "unat l"] unat_lt_2p [of l] by simp
    ultimately have "unat (ucast (?l * TAX_SCALE * ?n div ?d div TAX_SCALE) :: u64) = cut (unat l) r"
      by (simp add: unat_ucast_down)
    moreover have "TAX_SCALE \<noteq> 0" by (simp add: TAX_SCALE_def)
    ultimately show ?thesis using True step1 step2 d by (simp add: tax_share_def pdiv_def)
  next
    case False
    then have "pmul (?l * TAX_SCALE) ?n = (Panic :: ('e, u128) outcome)" using m u by (simp add: plain_arith_Panic_iffs)
    with False step1 show ?thesis by (simp add: tax_share_def)
  qed
qed

text \<open>What is taxed from a value: the fixed part, then the limited ratio of what is left.\<close>

definition tax_amount :: "nat \<Rightarrow> tax_type \<Rightarrow> nat" where
  "tax_amount v t =
     (if v < coins (tax_fixed t) then v
      else coins (tax_fixed t) + (case tax_max_limit t of
          None \<Rightarrow> cut (v - coins (tax_fixed t)) (tax_ratio t)
        | Some m \<Rightarrow> min (unat m) (cut (v - coins (tax_fixed t)) (tax_ratio t))))"

lemma tax_amount_le: "ratio_ok (tax_ratio t) \<Longrightarrow> tax_amount v t \<le> v"
  using cut_le [of "tax_ratio t" "v - coins (tax_fixed t)"] by (auto simp: tax_amount_def split: option.splits)

lemma tax_cut_spec:
  assumes "ratio_ok (tax_ratio t)"
  shows "if coins (tax_fixed t) \<le> coins v \<and> 2 ^ 128 \<le> (coins v - coins (tax_fixed t)) * 10 ^ 9 * unat (numerator (tax_ratio t))
    then tax_cut v t = Panic
    else \<exists>d. tax_cut v t = Ok d \<and> coins (taxed d) = tax_amount (coins v) t \<and> coins (taxed d) + coins (after_tax d) = coins v"
proof (cases rule: value_sub_cases [of v "tax_fixed t"])
  case (diff left1)
  let ?l = "coins v - coins (tax_fixed t)"
  have l: "unat (amount left1) = ?l" "coins left1 = ?l" "coins (tax_fixed t) \<le> coins v" using diff by (auto simp: coins_def)
  have z: "value_checked_add value_zero (tax_fixed t) = Ok (tax_fixed t)" by (simp add: checked_simps)
  show ?thesis
  proof (cases "?l * 10 ^ 9 * unat (numerator (tax_ratio t)) < 2 ^ 128")
    case True
    then obtain s where s: "tax_share (amount left1) (tax_ratio t) = (Ok s :: (value_error, _) outcome)" "unat s = cut ?l (tax_ratio t)"
      using tax_share_spec [OF assms, of "amount left1", where 'e = value_error] l by auto
    define c where "c = (case tax_max_limit t of None \<Rightarrow> Value s | Some m \<Rightarrow> Value (min m s))"
    have c: "coins (tax_fixed t) + coins c = tax_amount (coins v) t"
      using s(2) l(3) by (auto simp: c_def coins_def tax_amount_def min_def word_le_nat_alt split: option.splits)
    have le: "coins c \<le> ?l" using c tax_amount_le [OF assms, of "coins v"] l(3) by linarith
    obtain left2 where l2: "value_checked_sub left1 c = Ok left2" "coins left1 = coins c + coins left2"
      using le l by (cases rule: value_sub_cases [of left1 c]) auto
    obtain tx where tx: "value_checked_add (tax_fixed t) c = Ok tx" "coins tx = coins (tax_fixed t) + coins c"
      using le l(3) coins_less [of v] by (cases rule: value_add_cases [of "tax_fixed t" c]) auto
    have "tax_cut v t = Ok \<lparr>taxed = tx, after_tax = left2\<rparr>"
      using diff(1) z s(1) l2(1) tx(1) by (simp add: tax_cut_def c_def)
    moreover have "coins tx + coins left2 = coins v" using tx(2) l2(2) l by linarith
    moreover have "\<not> (coins (tax_fixed t) \<le> coins v \<and> 2 ^ 128 \<le> ?l * 10 ^ 9 * unat (numerator (tax_ratio t)))"
      using True leD by blast
    ultimately show ?thesis using c tx(2)
      by (simp only: if_False) (rule exI [of _ "\<lparr>taxed = tx, after_tax = left2\<rparr>"], simp)
  next
    case False
    then have "tax_share (amount left1) (tax_ratio t) = (Panic :: (value_error, _) outcome)"
      using tax_share_spec [OF assms, of "amount left1", where 'e = value_error] l by auto
    then show ?thesis using False diff(1) z l(3) by (simp add: tax_cut_def not_less)
  qed
next
  case negative
  then show ?thesis by (simp add: tax_cut_def tax_amount_def)
qed

section \<open>Pots as numbers\<close>

definition pots_coins :: "pots \<Rightarrow> nat" where
  "pots_coins p = coins (pot_fees p) + coins (treasury_val (pot_treasury p)) + coins (pot_rewards p)"

lemma pots_values_eq: "pots_values p = [pot_fees p, treasury_val (pot_treasury p), pot_rewards p]"
  by (simp add: pots_values_def pots_values_from.simps)

lemma pots_total_value_exact:
  "pots_total_value p = Ok t \<longleftrightarrow> coins t = pots_coins p"
  "pots_total_value p = Err e \<longleftrightarrow> e = Overflow \<and> 2 ^ 64 \<le> pots_coins p"
  by (simp_all add: pots_total_value_def checked_simps pots_values_eq pots_coins_def add.assoc)

text \<open>Each movement into a pot adds exactly the value, each draw takes out exactly what it returns.\<close>

lemma append_fees_spec:
  "append_fees p v = Ok p' \<Longrightarrow> \<exists>n. p' = p\<lparr>pot_fees := n\<rparr> \<and> coins n = coins (pot_fees p) + coins v"
  by (auto simp: append_fees_def outcome_simps checked_simps)

lemma pots_treasury_add_spec:
  "pots_treasury_add p v = Ok p' \<Longrightarrow> \<exists>n. p' = p\<lparr>pot_treasury := Treasury n\<rparr> \<and> coins n = coins (treasury_val (pot_treasury p)) + coins v"
  by (auto simp: pots_treasury_add_def treasury_add_def outcome_simps checked_simps)

lemma pots_rewards_add_spec:
  "pots_rewards_add p v = Ok p' \<Longrightarrow> \<exists>n. p' = p\<lparr>pot_rewards := n\<rparr> \<and> coins n = coins (pot_rewards p) + coins v"
  by (auto simp: pots_rewards_add_def outcome_simps checked_simps)

lemma draw_reward_spec:
  "\<exists>n d. draw_reward p v = (Ok (p\<lparr>pot_rewards := n\<rparr>, d) :: ('e, _) outcome)
     \<and> coins (pot_rewards p) = coins n + coins d \<and> coins d = min (coins (pot_rewards p)) (coins v)"
proof -
  let ?d = "min (pot_rewards p) v"
  have d: "coins ?d = min (coins (pot_rewards p)) (coins v)" by (simp add: min_def checked_simps)
  have "\<not> coins (pot_rewards p) < coins ?d" using d by linarith
  then obtain n where n: "value_checked_sub (pot_rewards p) ?d = Ok n" "coins (pot_rewards p) = coins ?d + coins n"
    by (cases rule: value_sub_cases [of "pot_rewards p" ?d]) blast+
  have "draw_reward p v = (Ok (p\<lparr>pot_rewards := n\<rparr>, ?d) :: ('e, _) outcome)" using n(1) by (simp add: draw_reward_def Let_def)
  then show ?thesis using n(2) d by (metis add.commute)
qed

lemma draw_treasury_spec:
  "\<exists>n d. draw_treasury p v = (Ok (p\<lparr>pot_treasury := Treasury n\<rparr>, d) :: ('e, _) outcome)
     \<and> coins (treasury_val (pot_treasury p)) = coins n + coins d \<and> coins d = min (coins v) (coins (treasury_val (pot_treasury p)))"
proof -
  let ?t = "treasury_val (pot_treasury p)" and ?d = "min v (treasury_val (pot_treasury p))"
  have d: "coins ?d = min (coins v) (coins ?t)" by (simp add: min_def checked_simps)
  then have le: "amount ?d \<le> amount ?t" by (simp add: coins_def word_le_nat_alt)
  then have "psub (amount ?t) (amount ?d) = (Ok (amount ?t - amount ?d) :: ('e, _) outcome)"
    by (simp add: psub_def checked_sub_def unwrap_opt_def)
  moreover have "coins ?t = coins (Value (amount ?t - amount ?d)) + coins ?d"
    using le d by (simp add: coins_def unat_minus_no_borrow word_le_nat_alt)
  moreover from calculation have "draw_treasury p v = (Ok (p\<lparr>pot_treasury := Treasury (Value (amount ?t - amount ?d))\<rparr>, ?d) :: ('e, _) outcome)"
    by (simp add: draw_treasury_def treasury_draw_def Let_def)
  ultimately show ?thesis using d by blast
qed

lemma siphon_fees_spec: "siphon_fees p = (p\<lparr>pot_fees := value_zero\<rparr>, pot_fees p)"
  by (simp add: siphon_fees_def)

section \<open>The tax on the wire\<close>

definition tax_ok :: "tax_type \<Rightarrow> bool" where
  "tax_ok t \<longleftrightarrow> ratio_ok (tax_ratio t) \<and> tax_max_limit t \<noteq> Some 0"

definition tax_bytes :: "tax_type \<Rightarrow> u8 list" where
  "tax_bytes t = to_be_bytes (amount (tax_fixed t)) @ to_be_bytes (numerator (tax_ratio t))
     @ to_be_bytes (denominator (tax_ratio t)) @ to_be_bytes (case tax_max_limit t of None \<Rightarrow> 0 | Some v \<Rightarrow> v)"

lemma tax_serialize_appends: "appends (tax_serialize_in t) (tax_bytes t)"
  by (simp add: appends_def tax_serialize_in_def tax_bytes_def bb_simps)

interpretation tax_format: canonical_format tax_ok tax_bytes tax_read_frombuf
proof
  fix t b r assume t: "tax_ok t" and b: "rb_ok b" and r: "rest b = tax_bytes t @ r"
  let ?lim = "case tax_max_limit t of None \<Rightarrow> 0 | Some v \<Rightarrow> v"
  obtain b1 where b1: "get_u64 b = Ok (amount (tax_fixed t), b1)" "rb_ok b1"
    "rest b1 = to_be_bytes (numerator (tax_ratio t)) @ to_be_bytes (denominator (tax_ratio t)) @ to_be_bytes ?lim @ r"
    using u64_format.rd_enc [OF _ b, of "amount (tax_fixed t)"] r by (auto simp: tax_bytes_def)
  obtain b2 where b2: "get_u64 b1 = Ok (numerator (tax_ratio t), b2)" "rb_ok b2"
    "rest b2 = to_be_bytes (denominator (tax_ratio t)) @ to_be_bytes ?lim @ r"
    using u64_format.rd_enc [OF _ b1(2,3)] by auto
  obtain b3 where b3: "get_u64 b2 = Ok (denominator (tax_ratio t), b3)" "rb_ok b3" "rest b3 = to_be_bytes ?lim @ r"
    using u64_format.rd_enc [OF _ b2(2,3)] by auto
  obtain b4 where "get_u64 b3 = Ok (?lim, b4)" "rb_ok b4" "rest b4 = r"
    using u64_format.rd_enc [OF _ b3(2,3)] by auto
  with b1(1) b2(1) b3(1) t show "\<exists>b'. tax_read_frombuf b = Ok (t, b') \<and> rb_ok b' \<and> rest b' = r"
    by (cases "tax_max_limit t") (auto simp: tax_read_frombuf_def tax_ok_def ratio_ok_def)
next
  fix b t b' assume b: "rb_ok b" and ok: "tax_read_frombuf b = Ok (t, b')"
  obtain f b1 n b2 d b3 m where g: "get_u64 b = Ok (f, b1)" "get_u64 b1 = Ok (n, b2)" "get_u64 b2 = Ok (d, b3)" "get_u64 b3 = Ok (m, b')"
    and t: "d \<noteq> 0" "n \<le> d" "t = \<lparr>tax_fixed = Value f, tax_ratio = \<lparr>numerator = n, denominator = d\<rparr>, tax_max_limit = (if m = 0 then None else Some m)\<rparr>"
    using ok by (auto simp: tax_read_frombuf_def outcome_simps not_less split: if_splits)
  have c1: "rb_ok b1" "rest b = to_be_bytes f @ rest b1" using u64_format.rd_canonical [OF b g(1)] by simp_all
  have c2: "rb_ok b2" "rest b1 = to_be_bytes n @ rest b2" using u64_format.rd_canonical [OF c1(1) g(2)] by simp_all
  have c3: "rb_ok b3" "rest b2 = to_be_bytes d @ rest b3" using u64_format.rd_canonical [OF c2(1) g(3)] by simp_all
  have c4: "rb_ok b'" "rest b3 = to_be_bytes m @ rest b'" using u64_format.rd_canonical [OF c3(1) g(4)] by simp_all
  from c1 c2 c3 c4 t show "tax_ok t \<and> rb_ok b' \<and> rest b = tax_bytes t @ rest b'"
    by (simp add: tax_ok_def ratio_ok_def tax_bytes_def)
next
  fix b assume b: "rb_ok b"
  have no: "get_u64 c \<noteq> Panic" if "rb_ok c" for c using u64_format.rd_total [OF that] .
  have ok: "rb_ok c'" if "rb_ok c" "get_u64 c = Ok (x, c')" for c x c' using u64_format.rd_canonical [OF that] by simp
  show "tax_read_frombuf b \<noteq> Panic"
    using b no ok by (auto simp: tax_read_frombuf_def outcome_simps split: if_splits) (metis no ok)+
qed

section \<open>The size of the contribution\<close>

lemma halvening_loop_le:
  assumes "ratio_ok rr"
  shows "case halvening_loop rr n acc :: ('e, u128) outcome of
      Ok a \<Rightarrow> unat a \<le> unat acc | Err e \<Rightarrow> False | Panic \<Rightarrow> 2 ^ 128 \<le> unat acc * unat (numerator rr)"
proof (induction n arbitrary: acc)
  case (Suc n)
  let ?n = "ucast (numerator rr) :: u128" and ?d = "ucast (denominator rr) :: u128"
  have u: "unat ?n = unat (numerator rr)" "unat ?d = unat (denominator rr)" by (simp_all add: unat_ucast_up)
  have d: "?d \<noteq> 0" using assms u(2) by (metis ratio_ok_def unat_0 word_unat_eq_iff)
  show ?case
  proof (cases "unat acc * unat (numerator rr) < 2 ^ 128")
    case True
    then have m: "unat (acc * ?n) = unat acc * unat (numerator rr)" using unat_times_no_ovf [of acc ?n] u by simp
    have step: "pmul acc ?n = (Ok (acc * ?n) :: ('e, u128) outcome)" using m u by (simp add: checked_simps)
    have "unat acc * unat (numerator rr) div unat (denominator rr) \<le> unat acc * unat (denominator rr) div unat (denominator rr)"
      using assms by (intro div_le_mono mult_le_mono2) (simp add: ratio_ok_def word_le_nat_alt)
    then have le: "unat (acc * ?n div ?d) \<le> unat acc" using m u d by (simp add: unat_div word_unat_eq_iff)
    then have le': "unat (acc * ?n div ?d) * unat (numerator rr) \<le> unat acc * unat (numerator rr)" by (rule mult_le_mono1)
    show ?thesis using le Suc [of "acc * ?n div ?d"] step d order_trans [OF _ le']
      by (cases "halvening_loop rr n (acc * ?n div ?d) :: ('e, u128) outcome") (auto simp: pdiv_def)
  next
    case False
    then have "pmul acc ?n = (Panic :: ('e, u128) outcome)" using u by (simp add: plain_arith_Panic_iffs)
    with False show ?thesis by simp
  qed
qed simp

definition reward_overflow :: "reward_parameters \<Rightarrow> nat \<Rightarrow> bool" where
  "reward_overflow p zone \<longleftrightarrow> (case compounding_kind p of
     Linear \<Rightarrow> 2 ^ 64 \<le> unat (numerator (compounding_ratio p)) * zone
   | Halvening \<Rightarrow> 2 ^ 128 \<le> unat (initial_value p) * 10 ^ 18 * unat (numerator (compounding_ratio p)))"

lemma rewards_drawn_le:
  assumes "ratio_ok (compounding_ratio p)"
  shows "case rewards_drawn p zone :: ('e, val) outcome of
      Ok v \<Rightarrow> coins v \<le> unat (initial_value p) | Err e \<Rightarrow> False | Panic \<Rightarrow> reward_overflow p (unat zone)"
proof (cases "compounding_kind p")
  case Linear
  let ?rr = "compounding_ratio p"
  show ?thesis
  proof (cases "pmul (numerator ?rr) zone :: ('e, u64) outcome")
    case (Ok m)
    moreover have "unat (initial_value p - x) \<le> unat (initial_value p)" if "x \<le> initial_value p" for x
      using that by (simp add: unat_minus_no_borrow)
    ultimately show ?thesis using Linear assms
      by (simp add: rewards_drawn_def ratio_ok_def pdiv_def Let_def) (auto simp: coins_def)
  next
    case Panic
    then have "2 ^ 64 \<le> unat (numerator ?rr) * unat zone" by (simp add: plain_arith_Panic_iffs)
    with Panic Linear show ?thesis by (simp add: rewards_drawn_def reward_overflow_def)
  qed (simp add: pmul_def outcome_simps)
next
  case Halvening
  let ?i = "ucast (initial_value p) :: u128"
  have u: "unat ?i = unat (initial_value p)" "unat HALVENING_SCALE = 10 ^ 18" by (simp_all add: unat_ucast_up HALVENING_SCALE_def)
  have "unat (initial_value p) * 10 ^ 18 < 2 ^ 128" using unat_lt_2p [of "initial_value p"] by simp
  then have m: "unat (?i * HALVENING_SCALE) = unat (initial_value p) * 10 ^ 18" using unat_times_no_ovf [of ?i HALVENING_SCALE] u by simp
  have step: "pmul ?i HALVENING_SCALE = (Ok (?i * HALVENING_SCALE) :: ('e, u128) outcome)" using m u by (simp add: checked_simps)
  have nz: "HALVENING_SCALE \<noteq> 0" by (simp add: HALVENING_SCALE_def)
  note loop = halvening_loop_le [OF assms, of "?i * HALVENING_SCALE" "unat zone", where 'e = 'e]
  show ?thesis
  proof (cases "halvening_loop (compounding_ratio p) (unat zone) (?i * HALVENING_SCALE) :: ('e, u128) outcome")
    case (Ok a)
    then have "unat a div 10 ^ 18 \<le> unat (initial_value p)" using loop m div_le_mono [of "unat a" _ "10 ^ 18"] by fastforce
    moreover from this have "unat (ucast (a div HALVENING_SCALE) :: u64) = unat a div 10 ^ 18"
      using unat_lt_2p [of "initial_value p"] u by (simp add: unat_ucast_down unat_div)
    ultimately show ?thesis using Ok step Halvening nz by (simp add: rewards_drawn_def pdiv_def coins_def)
  next
    case (Err e)
    then show ?thesis using loop by simp
  next
    case Panic
    then show ?thesis using loop m step Halvening by (simp add: rewards_drawn_def reward_overflow_def)
  qed
qed

section \<open>Properties\<close>

lemma saturating_mul_unat: "unat (saturating_mul a b) = min (unat a * unat b) (2 ^ LENGTH('a) - 1)" for a b :: "'a::len word"
proof (cases "checked_mul a b")
  case None
  then have "2 ^ LENGTH('a) \<le> unat a * unat b" by (simp add: checked_simps)
  with None show ?thesis by (simp add: saturating_mul_def unsigned_minus_1_eq_mask mask_eq_exp_minus_1)
next
  case (Some c)
  then have "unat c = unat a * unat b" by (simp add: checked_simps)
  with Some unat_lt_2p [of c] show ?thesis by (simp add: saturating_mul_def)
qed


text \<open>
  C15. A tax conserves the value: what is taxed and what is left add up to the value, the tax is the fixed
  part (or everything, if the value is smaller) plus the limited ratio of the rest. This holds for every
  ratio of at most one, which is what the readers of taxes accept; the computation panics exactly if its
  128-bit product overflows.
\<close>

theorem tax_cut_conserves:
  assumes "ratio_ok (tax_ratio t)"
  shows "case tax_cut v t of
      Ok d \<Rightarrow> coins (taxed d) + coins (after_tax d) = coins v \<and> coins (taxed d) = tax_amount (coins v) t
    | Err e \<Rightarrow> False
    | Panic \<Rightarrow> 2 ^ 128 \<le> (coins v - coins (tax_fixed t)) * 10 ^ 9 * unat (numerator (tax_ratio t))"
  using tax_cut_spec [OF assms, of v] by (cases "tax_cut v t") (auto split: if_splits)

theorem tax_cut_conserves_witness:
  "case tax_cut (Value 1000) \<lparr>tax_fixed = Value 100, tax_ratio = \<lparr>numerator = 1, denominator = 3\<rparr>, tax_max_limit = Some 250\<rparr> of
     Ok d \<Rightarrow> coins (taxed d) + coins (after_tax d) = 1000 \<and> coins (taxed d) = 350
   | _ \<Rightarrow> False"
proof -
  let ?t = "\<lparr>tax_fixed = Value 100, tax_ratio = \<lparr>numerator = 1, denominator = 3\<rparr>, tax_max_limit = Some 250\<rparr> :: tax_type"
  have "case tax_cut (Value 1000) ?t of Ok d \<Rightarrow> True | _ \<Rightarrow> False" by code_simp
  moreover have "ratio_ok (tax_ratio ?t)" by (simp add: ratio_ok_def)
  ultimately show ?thesis using tax_cut_conserves [of ?t "Value 1000"]
    by (cases "tax_cut (Value 1000) ?t") (simp_all add: tax_amount_def coins_def cut_def)
qed

text \<open>With a ratio above one, the part of the value beyond the fixed tax is lost.\<close>

lemma tax_cut_loses_value:
  "tax_cut (Value 100) \<lparr>tax_fixed = Value 10, tax_ratio = \<lparr>numerator = 2, denominator = 1\<rparr>, tax_max_limit = None\<rparr>
   = Ok \<lparr>taxed = Value 10, after_tax = Value 0\<rparr>"
  by code_simp

text \<open>
  The contribution drawn for an epoch never exceeds the initial value of the parameters, is nothing
  before the start epoch, and stays within the limit set by the declared stake; it panics only if the
  reduction overflows its word.
\<close>

theorem rewards_contribution_bounded:
  assumes "ratio_ok (compounding_ratio p)" and "epoch_rate p \<noteq> 0"
    and "\<And>rr. reward_drawing_limit_max p = ByStakeAbsolute rr \<Longrightarrow> ratio_ok rr"
  shows "case rewards_contribution_calculation ep p s :: ('e, val) outcome of
      Ok v \<Rightarrow> coins v \<le> (if ep < reward_epoch_start p then 0 else unat (initial_value p))
        \<and> (case reward_drawing_limit_max p of
             NoLimit \<Rightarrow> True
           | ByStakeAbsolute rr \<Rightarrow> coins v \<le> units s * unat (numerator rr) div unat (denominator rr))
    | Err e \<Rightarrow> False
    | Panic \<Rightarrow> reward_epoch_start p \<le> ep
        \<and> reward_overflow p ((unat ep - unat (reward_epoch_start p)) div unat (epoch_rate p))"
proof (cases "ep < reward_epoch_start p")
  case True
  then show ?thesis using assms(2) by (simp add: rewards_contribution_calculation_def require_def split: limit.splits)
next
  case False
  let ?z = "(ep - reward_epoch_start p) div epoch_rate p"
  have sub: "psub ep (reward_epoch_start p) = (Ok (ep - reward_epoch_start p) :: ('e, _) outcome)"
    using False by (simp add: psub_def checked_sub_def unwrap_opt_def not_less)
  have z: "unat (ucast ?z :: u64) = (unat ep - unat (reward_epoch_start p)) div unat (epoch_rate p)"
    using False by (simp add: unat_ucast_up unat_div unat_minus_no_borrow not_less)
  note drawn = rewards_drawn_le [OF assms(1), of "ucast ?z", where 'e = 'e]
  have eq: "rewards_contribution_calculation ep p s = (obind (rewards_drawn p (ucast ?z)) (\<lambda>drawn.
       case reward_drawing_limit_max p of
         NoLimit \<Rightarrow> Ok drawn
       | ByStakeAbsolute rr \<Rightarrow>
           obind (pmul (ucast (stake_amount s) :: u128) (ucast (numerator rr))) (\<lambda>m.
           obind (pdiv m (ucast (denominator rr))) (\<lambda>x.
           Ok (min drawn (Value (ucast x)))))) :: ('e, val) outcome)"
    using False assms(2) sub by (simp add: rewards_contribution_calculation_def require_def pdiv_def)
  show ?thesis
  proof (cases "rewards_drawn p (ucast ?z) :: ('e, val) outcome")
    case (Ok v)
    then have v: "coins v \<le> unat (initial_value p)" using drawn by simp
    show ?thesis
    proof (cases "reward_drawing_limit_max p")
      case NoLimit
      then show ?thesis using eq Ok v False by simp
    next
      case (ByStakeAbsolute rr)
      let ?s = "ucast (stake_amount s) :: u128" and ?n = "ucast (numerator rr) :: u128" and ?d = "ucast (denominator rr) :: u128"
      have rr: "ratio_ok rr" by (rule assms(3) [OF ByStakeAbsolute])
      have u: "unat ?s = units s" "unat ?n = unat (numerator rr)" "unat ?d = unat (denominator rr)"
        by (simp_all add: unat_ucast_up units_def)
      have "units s * unat (numerator rr) \<le> 2 ^ 64 * unat (numerator rr)" using units_less [of s] by simp
      also have "\<dots> < 2 ^ 64 * 2 ^ 64" using unat_lt_2p [of "numerator rr"] by simp
      finally have "unat ?s * unat ?n < 2 ^ LENGTH(128)" using u by simp
      then have m: "unat (?s * ?n) = units s * unat (numerator rr)" using unat_times_no_ovf [of ?s ?n] u by simp
      have mul: "pmul ?s ?n = (Ok (?s * ?n) :: ('e, _) outcome)" using m u by (simp add: checked_simps)
      have d: "?d \<noteq> 0" using rr u(3) by (metis ratio_ok_def unat_0 word_unat_eq_iff)
      have x: "unat (?s * ?n div ?d) = units s * unat (numerator rr) div unat (denominator rr)" using m u by (simp add: unat_div)
      have "units s * unat (numerator rr) div unat (denominator rr) \<le> units s * unat (denominator rr) div unat (denominator rr)"
        using rr by (intro div_le_mono mult_le_mono2) (simp add: ratio_ok_def word_le_nat_alt)
      also have "\<dots> \<le> units s" using rr by (simp add: ratio_ok_def word_unat_eq_iff)
      finally have "unat (ucast (?s * ?n div ?d) :: u64) = units s * unat (numerator rr) div unat (denominator rr)"
        using x units_less [of s] by (simp add: unat_ucast_down)
      then have "coins (Value (ucast (?s * ?n div ?d))) = units s * unat (numerator rr) div unat (denominator rr)" by (simp add: coins_def)
      then show ?thesis using eq Ok v False ByStakeAbsolute mul d by (auto simp: pdiv_def min_def checked_simps)
    qed
  next
    case (Err e)
    then show ?thesis using drawn by simp
  next
    case Panic
    then show ?thesis using drawn eq False z by (simp add: not_less)
  qed
qed

theorem rewards_contribution_bounded_witness:
  "case rewards_contribution_calculation 12 \<lparr>initial_value = 1000, compounding_ratio = \<lparr>numerator = 1, denominator = 2\<rparr>,
       compounding_kind = Halvening, epoch_rate = 5, reward_epoch_start = 2,
       reward_drawing_limit_max = ByStakeAbsolute \<lparr>numerator = 1, denominator = 10\<rparr>, pool_participation_capping = None\<rparr> (Stake 2000)
     :: (unit, val) outcome of
     Ok v \<Rightarrow> coins v \<le> 200
   | _ \<Rightarrow> False"
proof -
  let ?p = "\<lparr>initial_value = 1000, compounding_ratio = \<lparr>numerator = 1, denominator = 2\<rparr>,
       compounding_kind = Halvening, epoch_rate = 5, reward_epoch_start = 2,
       reward_drawing_limit_max = ByStakeAbsolute \<lparr>numerator = 1, denominator = 10\<rparr>, pool_participation_capping = None\<rparr> :: reward_parameters"
  have "case rewards_contribution_calculation 12 ?p (Stake 2000) :: (unit, val) outcome of Ok v \<Rightarrow> True | _ \<Rightarrow> False" by code_simp
  moreover have "ratio_ok (compounding_ratio ?p)" "epoch_rate ?p \<noteq> 0"
    "\<And>rr. reward_drawing_limit_max ?p = ByStakeAbsolute rr \<Longrightarrow> ratio_ok rr" by (auto simp: ratio_ok_def)
  ultimately show ?thesis using rewards_contribution_bounded [of ?p 12 "Stake 2000", where 'e = unit]
    by (cases "rewards_contribution_calculation 12 ?p (Stake 2000) :: (unit, val) outcome") (simp_all add: units_def)
qed

end
