(* ===== verification/Formats.thy ===== *)
theory Formats
  imports Byte_Builder
begin

text \<open>
  How wire formats are put together: reading one field after another, branching on what was read,
  refusing values, and counted sequences. A reader in the style of the sources is a nest of
  \<open>obind\<close>s over the field readers; each rule below takes one layer of it off, so a record format is
  proved by naming its fields in the order in which they are read.
\<close>

section \<open>Rules for readers\<close>

named_theorems fmt "wire formats of the field types"

declare u8_format.canonical_format_axioms [fmt] u16_format.canonical_format_axioms [fmt]
  u32_format.canonical_format_axioms [fmt] u64_format.canonical_format_axioms [fmt]
  u128_format.canonical_format_axioms [fmt] nz_u64_format.canonical_format_axioms [fmt]

text \<open>Nothing is left to read: exactly one value is possible.\<close>

lemma return_format:
  assumes "\<And>y. valid y \<longleftrightarrow> y = c" and "enc c = []"
  shows "canonical_format valid enc (\<lambda>b. Ok (c, b))"
  using assms by unfold_locales auto

text \<open>No value is possible here.\<close>

lemma fail_format:
  assumes "\<And>y. \<not> valid y"
  shows "canonical_format valid enc (\<lambda>b. Err e)"
  using assms by unfold_locales auto

text \<open>The field \<open>p y\<close> comes first and decides how to go on.\<close>

lemma bind_format:
  assumes "canonical_format valid1 enc1 rd1"
    and "\<And>x. valid1 x \<Longrightarrow> canonical_format (\<lambda>y. valid y \<and> p y = x) (encr x) (rdr x)"
    and "\<And>y. valid y \<Longrightarrow> valid1 (p y) \<and> enc y = enc1 (p y) @ encr (p y) y"
  shows "canonical_format valid enc (\<lambda>b. obind (rd1 b) (\<lambda>(x, b'). rdr x b'))"
proof
  fix y b r assume y: "valid y" and b: "rb_ok b" and r: "rest b = enc y @ r"
  let ?x = "p y"
  obtain b1 where b1: "rd1 b = Ok (?x, b1)" "rb_ok b1" "rest b1 = encr ?x y @ r"
    using format.rd_enc [OF canonical_format.axioms(1) [OF assms(1)], of ?x b "encr ?x y @ r"] assms(3) [OF y] b r by auto
  have "valid1 ?x" using assms(3) [OF y] by simp
  then obtain b2 where "rdr ?x b1 = Ok (y, b2)" "rb_ok b2" "rest b2 = r"
    using format.rd_enc [OF canonical_format.axioms(1) [OF assms(2)], of ?x y b1 r] y b1 by auto
  with b1 show "\<exists>b'. obind (rd1 b) (\<lambda>(x, b'). rdr x b') = Ok (y, b') \<and> rb_ok b' \<and> rest b' = r" by simp
next
  fix b y b' assume b: "rb_ok b" and ok: "obind (rd1 b) (\<lambda>(x, b'). rdr x b') = Ok (y, b')"
  then obtain x b1 where x: "rd1 b = Ok (x, b1)" and y: "rdr x b1 = Ok (y, b')" by (auto simp: outcome_simps)
  have c1: "valid1 x" "rb_ok b1" "rest b = enc1 x @ rest b1" using canonical_format.rd_canonical [OF assms(1) b x] by auto
  have c2: "valid y" "p y = x" "rb_ok b'" "rest b1 = encr x y @ rest b'"
    using canonical_format.rd_canonical [OF assms(2) [OF c1(1)] c1(2) y] by auto
  with c1 assms(3) [OF c2(1)] show "valid y \<and> rb_ok b' \<and> rest b = enc y @ rest b'" by auto
next
  fix b assume b: "rb_ok b"
  show "obind (rd1 b) (\<lambda>(x, b'). rdr x b') \<noteq> Panic"
  proof (cases "rd1 b")
    case (Ok xb)
    obtain x b1 where xb: "xb = (x, b1)" by (cases xb)
    have "valid1 x" "rb_ok b1" using canonical_format.rd_canonical [OF assms(1) b] Ok xb by auto
    then show ?thesis using Ok xb canonical_format.rd_total [OF assms(2)] by simp
  qed (use canonical_format.rd_total [OF assms(1) b] in auto)
qed

lemma if_format:
  assumes "c \<Longrightarrow> canonical_format valid enc rd1" and "\<not> c \<Longrightarrow> canonical_format valid enc rdr"
  shows "canonical_format valid enc (\<lambda>b. if c then rd1 b else rdr b)"
  using assms by (cases c) simp_all

text \<open>The same format under another description of its values.\<close>

lemma format_transfer:
  assumes "canonical_format valid enc rd" and "\<And>y. valid' y \<longleftrightarrow> valid y" and "\<And>y. valid y \<Longrightarrow> enc' y = enc y"
    and "\<And>b. rb_ok b \<Longrightarrow> rd' b = rd b"
  shows "canonical_format valid' enc' rd'"
proof
  note fmt = canonical_format.axioms(1) [OF assms(1)]
  show "\<exists>b'. rd' b = Ok (x, b') \<and> rb_ok b' \<and> rest b' = r" if "valid' x" "rb_ok b" "rest b = enc' x @ r" for x b r
    using that assms(2-4) format.rd_enc [OF fmt, of x b r] by simp
  show "valid' x \<and> rb_ok b' \<and> rest b = enc' x @ rest b'" if "rb_ok b" "rd' b = Ok (x, b')" for b x b'
    using that assms(2-4) canonical_format.rd_canonical [OF assms(1), of b x b'] by simp
  show "rd' b \<noteq> Panic" if "rb_ok b" for b
    using that assms(4) canonical_format.rd_total [OF assms(1)] by simp
qed

text \<open>A function of what was read, with its inverse on the valid values.\<close>

lemma map_format:
  assumes "canonical_format valid1 enc1 rd1" and "\<And>x. valid1 x \<Longrightarrow> valid (g x) \<and> h (g x) = x"
    and "\<And>y. valid y \<Longrightarrow> valid1 (h y) \<and> g (h y) = y \<and> enc y = enc1 (h y)"
  shows "canonical_format valid enc (\<lambda>b. obind (rd1 b) (\<lambda>(x, b'). Ok (g x, b')))"
  using assms(1)
proof (rule bind_format [where p = h and encr = "\<lambda>_ _. []"])
  show "canonical_format (\<lambda>y. valid y \<and> h y = x) (\<lambda>_. []) (\<lambda>b. Ok (g x, b))" if "valid1 x" for x
    using assms(2) [OF that] assms(3) by (intro return_format) auto
qed (use assms(3) in auto)

text \<open>
  A record as the sequence of its fields: each field is written by its own format, in the order in
  which it is read.
\<close>

definition record_bytes :: "('a \<Rightarrow> u8 list) list \<Rightarrow> 'a \<Rightarrow> u8 list" where
  "record_bytes fs y = concat (map (\<lambda>f. f y) fs)"

lemma record_bytes_simps [simp]: "record_bytes [] y = []" "record_bytes (f # fs) y = f y @ record_bytes fs y"
  by (simp_all add: record_bytes_def)

lemma field_format:
  assumes "canonical_format valid1 enc1 rd1"
    and "\<And>x. valid1 x \<Longrightarrow> canonical_format (\<lambda>y. valid y \<and> p y = x) (record_bytes fs) (rdr x)"
    and "\<And>y. valid y \<Longrightarrow> valid1 (p y)"
  shows "canonical_format valid (record_bytes ((\<lambda>y. enc1 (p y)) # fs)) (\<lambda>b. obind (rd1 b) (\<lambda>(x, b'). rdr x b'))"
  by (rule bind_format [where p = p and encr = "\<lambda>_. record_bytes fs", OF assms(1,2)]) (simp_all add: assms(3))

lemma end_format:
  assumes "\<And>y. valid y \<longleftrightarrow> y = c"
  shows "canonical_format valid (record_bytes []) (\<lambda>b. Ok (c, b))"
  using assms by (intro return_format) auto

text \<open>A check in the middle of a reader.\<close>

lemma check_format:
  assumes "\<And>x. m = Some x \<Longrightarrow> canonical_format valid enc (rd x)" and "\<And>y. m = None \<Longrightarrow> \<not> valid y"
  shows "canonical_format valid enc (\<lambda>b. obind (ok_or e m) (\<lambda>x. rd x b))"
proof (cases m)
  case None
  then show ?thesis using fail_format [of valid enc e] assms(2) by (simp add: ok_or_def)
next
  case (Some x)
  then show ?thesis using assms(1) [OF Some] by (simp add: ok_or_def)
qed

section \<open>Sequences\<close>

lemma vec_format:
  assumes "canonical_format valid enc rd"
  shows "canonical_format (\<lambda>xs. length xs = n \<and> (\<forall>x \<in> set xs. valid x)) (\<lambda>xs. concat (map enc xs)) (read_vec rd n)"
proof
  note fmt = canonical_format.axioms(1) [OF assms(1)]
  show "\<exists>b'. read_vec rd n b = Ok (xs, b') \<and> rb_ok b' \<and> rest b' = r"
    if "length xs = n \<and> (\<forall>x \<in> set xs. valid x)" "rb_ok b" "rest b = concat (map enc xs) @ r" for xs b r
    using that format.read_vec_enc [OF fmt, of xs b r] by auto
  show "(length xs = n \<and> (\<forall>x \<in> set xs. valid x)) \<and> rb_ok b' \<and> rest b = concat (map enc xs) @ rest b'"
    if "rb_ok b" "read_vec rd n b = Ok (xs, b')" for b xs b'
    using that canonical_format.read_vec_canonical [OF assms, of b n xs b'] by auto
  show "read_vec rd n b \<noteq> Panic" if "rb_ok b" for b
    using that
  proof (induction n arbitrary: b)
    case (Suc n)
    show ?case
    proof (cases "rd b")
      case (Ok xb)
      obtain x b1 where xb: "xb = (x, b1)" by (cases xb)
      have "rb_ok b1" using canonical_format.rd_canonical [OF assms Suc.prems] Ok xb by auto
      from Suc.IH [OF this] Ok xb show ?thesis by (auto simp: outcome_simps)
    qed (use canonical_format.rd_total [OF assms Suc.prems] in auto)
  qed simp
qed

lemma counted8_format:
  assumes "canonical_format valid enc rd"
  shows "canonical_format (\<lambda>xs. length xs < 2 ^ 8 \<and> (\<forall>x \<in> set xs. valid x))
    (\<lambda>xs. of_nat (length xs) # concat (map enc xs)) (read_counted8 rd)"
proof -
  have "canonical_format (\<lambda>xs. length xs < 2 ^ 8 \<and> (\<forall>x \<in> set xs. valid x))
      (\<lambda>xs. of_nat (length xs) # concat (map enc xs)) (\<lambda>b. obind (get_u8 b) (\<lambda>(n, b'). read_vec rd (unat n) b'))"
  proof (rule bind_format [where p = "\<lambda>xs. of_nat (length xs)" and encr = "\<lambda>_ xs. concat (map enc xs)"])
    show "canonical_format (\<lambda>_. True) (\<lambda>v. [v]) get_u8" by (rule fmt)
    fix n :: u8
    have "(length xs < 2 ^ 8 \<and> (\<forall>x \<in> set xs. valid x)) \<and> of_nat (length xs) = n \<longleftrightarrow> length xs = unat n \<and> (\<forall>x \<in> set xs. valid x)" for xs
      using unat_lt_2p [of n] by (auto simp: unat_of_nat_id)
    then show "canonical_format (\<lambda>xs. (length xs < 2 ^ 8 \<and> (\<forall>x \<in> set xs. valid x)) \<and> of_nat (length xs) = n)
        (\<lambda>xs. concat (map enc xs)) (read_vec rd (unat n))"
      by (intro format_transfer [OF vec_format [OF assms, of "unat n"]]) simp_all
  qed simp
  then show ?thesis by (rule format_transfer) (simp_all add: read_counted8_def)
qed

text \<open>Raw bytes of a known length.\<close>

lemma array_format [fmt]: "canonical_format (\<lambda>s. length s = n) (\<lambda>s. s) (read_array n)"
proof
  show "\<exists>b'. read_array n b = Ok (x, b') \<and> rb_ok b' \<and> rest b' = r" if "length x = n" "rb_ok b" "rest b = x @ r" for x b r
    using that advance_ok [OF that(2), of n] by (simp add: read_array_def get_slice_eq)
  show "length x = n \<and> rb_ok b' \<and> rest b = x @ rest b'" if "rb_ok b" "read_array n b = Ok (x, b')" for b x b'
    using that advance_ok [OF that(1), of n] by (auto simp: read_array_def get_slice_eq split: if_splits)
  show "read_array n b \<noteq> Panic" if "rb_ok b" for b using that by (simp add: read_array_def get_slice_eq)
qed

section \<open>Builders\<close>

text \<open>Steps of a builder one after the other, and what a finished builder holds.\<close>

lemma appends_intros:
  "appends f bs \<Longrightarrow> appends g cs \<Longrightarrow> appends (\<lambda>bb. g (f bb)) (bs @ cs)"
  "appends (\<lambda>bb. bb) []"
  by (simp_all add: appends_def)

lemma appends_finalize:
  assumes "appends f bs"
  shows "bb_finalize_as_vec (f bb_new) = bs" and "bb_finalize (f bb_new) = Ok bs"
  using assms by (simp_all add: appends_def bb_finalize_as_vec_def bb_finalize_def bb_new_def)

end
