(* ===== verification/Pool_Cert.thy ===== *)
theory Pool_Cert
  imports Formats Address Rewards Account
begin

text \<open>
  Certificates about stake pools and delegation (\<open>certificate/pool.rs\<close>, \<open>certificate/delegation.rs\<close>), with
  the keys, signatures and account identifiers they carry (\<open>key.rs\<close>, \<open>account.rs\<close>, \<open>transaction/input.rs\<close>,
  \<open>transaction/element.rs\<close>): their wire formats and the check of the owners' signatures.

  Verifying an Ed25519 signature and decoding a point of the VRF group are library code: they are the
  parameters \<open>vrfy\<close> and \<open>point\<close>.
\<close>

section \<open>Keys, signatures and identifiers\<close>

datatype signature = Signature (sig_bytes: "u8 list")

datatype signature_error = SigSizeInvalid nat nat | SigStructureInvalid

definition signature_from_bytes :: "u8 list \<Rightarrow> (signature_error, signature) outcome" where
  "signature_from_bytes d = (if length d \<noteq> 64 then Err (SigSizeInvalid 64 (length d)) else Ok (Signature d))"

fun chain_crypto_pub_err :: "public_key_error \<Rightarrow> read_error" where
  "chain_crypto_pub_err PkSizeInvalid = StructureInvalid ''publickey size invalid''"
| "chain_crypto_pub_err PkStructureInvalid = StructureInvalid ''publickey structure invalid''"

fun chain_crypto_sig_err :: "signature_error \<Rightarrow> read_error" where
  "chain_crypto_sig_err (SigSizeInvalid expected got) =
     StructureInvalid (''signature size invalid, expected '' @ show_nat expected @ '' got '' @ show_nat got)"
| "chain_crypto_sig_err SigStructureInvalid = StructureInvalid ''signature structure invalid''"

text \<open>The key types differ in their size and in what their constructor accepts.\<close>

definition deserialize_public_key :: "nat \<Rightarrow> (u8 list \<Rightarrow> (public_key_error, 'k) outcome) \<Rightarrow> 'k reader" where
  "deserialize_public_key sz from_binary buf =
     obind (read_mut_slice get_u8 (replicate sz 0) buf) (\<lambda>(bytes, buf).
     obind (map_err chain_crypto_pub_err (from_binary bytes)) (\<lambda>k. Ok (k, buf)))"

definition deserialize_signature :: "signature reader" where
  "deserialize_signature buf =
     obind (read_mut_slice get_u8 (replicate 64 0) buf) (\<lambda>(bytes, buf).
     obind (map_err chain_crypto_sig_err (signature_from_bytes bytes)) (\<lambda>s. Ok (s, buf)))"

abbreviation read_ed25519 :: "public_key reader" where
  "read_ed25519 \<equiv> deserialize_public_key 32 public_from_binary"

datatype vrf_public_key = VrfPublicKey (vrf_bytes: "u8 list")

definition vrf_from_bytes :: "(u8 list \<Rightarrow> u8 list option) \<Rightarrow> u8 list \<Rightarrow> (public_key_error, vrf_public_key) outcome" where
  "vrf_from_bytes point input =
     (if length input \<noteq> 32 then Err PkSizeInvalid
      else case point input of None \<Rightarrow> Err PkStructureInvalid | Some pk \<Rightarrow> Ok (VrfPublicKey pk))"

datatype kes_public_key = KesPublicKey (kes_bytes: "u8 list")

definition kes_from_bytes :: "u8 list \<Rightarrow> (public_key_error, kes_public_key) outcome" where
  "kes_from_bytes bytes = (if length bytes = 32 then Ok (KesPublicKey bytes) else Err PkSizeInvalid)"

record genesis_praos_leader =
  gpl_kes :: kes_public_key
  gpl_vrf :: vrf_public_key

definition leader_read :: "(u8 list \<Rightarrow> u8 list option) \<Rightarrow> genesis_praos_leader reader" where
  "leader_read point buf =
     obind (deserialize_public_key 32 (vrf_from_bytes point) buf) (\<lambda>(v, buf).
     obind (deserialize_public_key 32 kes_from_bytes buf) (\<lambda>(k, buf). Ok (\<lparr>gpl_kes = k, gpl_vrf = v\<rparr>, buf)))"

datatype acc_identifier = Identifier (id_key: public_key)

text \<open>Multisig identifiers and digests are arrays of 32 bytes.\<close>

type_synonym digest = "u8 list"

datatype account_identifier = SingleAcc acc_identifier | MultiAcc digest

datatype unspecified_account_identifier = UnspecifiedId (unspec_bytes: "u8 list")

definition to_single_account :: "unspecified_account_identifier \<Rightarrow> acc_identifier option" where
  "to_single_account u = (case public_from_binary (unspec_bytes u) of Ok k \<Rightarrow> Some (Identifier k) | _ \<Rightarrow> None)"

definition to_multi_account :: "unspecified_account_identifier \<Rightarrow> digest" where
  "to_multi_account u = unspec_bytes u"

definition from_single_account :: "acc_identifier \<Rightarrow> unspecified_account_identifier" where
  "from_single_account i = UnspecifiedId (pk_bytes (id_key i))"

section \<open>Pool certificates\<close>

datatype pool_permissions = PoolPermissions (perm_bits: u64)

definition MANAGEMENT_THRESHOLD_BITMASK :: u64 where "MANAGEMENT_THRESHOLD_BITMASK = 63"
definition ALL_USED_BITMASK :: u64 where "ALL_USED_BITMASK = 63"

definition permissions_new :: "u8 \<Rightarrow> pool_permissions" where
  "permissions_new t = PoolPermissions (ucast t AND MANAGEMENT_THRESHOLD_BITMASK)"

definition permissions_from_u64 :: "u64 \<Rightarrow> pool_permissions option" where
  "permissions_from_u64 v = (if v AND NOT ALL_USED_BITMASK > 0 then None else Some (PoolPermissions v))"

definition permissions_threshold :: "pool_permissions \<Rightarrow> u8" where
  "permissions_threshold p = ucast (perm_bits p AND MANAGEMENT_THRESHOLD_BITMASK)"

record pool_registration =
  pr_serial :: u128
  pr_start_validity :: u64
  pr_permissions :: pool_permissions
  pr_owners :: "public_key list"
  pr_operators :: "public_key list"
  pr_rewards :: tax_type
  pr_reward_account :: "account_identifier option"
  pr_keys :: genesis_praos_leader

record pool_update =
  pu_pool_id :: digest
  pu_last_pool_reg_hash :: digest
  pu_new_pool_reg :: pool_registration

record pool_retirement =
  prt_pool_id :: digest
  prt_retirement_time :: u64

datatype pool_signature = OperatorSig signature | OwnersSig "(u8 \<times> signature) list"

definition management_threshold :: "pool_registration \<Rightarrow> u8" where
  "management_threshold r = permissions_threshold (pr_permissions r)"

definition registration_serialize_in :: "pool_registration \<Rightarrow> byte_builder \<Rightarrow> ('e, byte_builder) outcome" where
  "registration_serialize_in r bb =
     (let bb = bb_bytes (bb_bytes (bb_u64 (bb_u64 (bb_u128 bb (pr_serial r)) (pr_start_validity r))
          (perm_bits (pr_permissions r))) (vrf_bytes (gpl_vrf (pr_keys r)))) (kes_bytes (gpl_kes (pr_keys r))) in
      obind (bb_iter8 bb (pr_owners r) (\<lambda>bb o'. bb_bytes bb (pk_bytes o'))) (\<lambda>bb.
      obind (bb_iter8 bb (pr_operators r) (\<lambda>bb o'. bb_bytes bb (pk_bytes o'))) (\<lambda>bb.
      let bb = bb_sub bb (tax_serialize_in (pr_rewards r)) in
      Ok (case pr_reward_account r of
            None \<Rightarrow> bb_u8 bb 0
          | Some (SingleAcc i) \<Rightarrow> bb_bytes (bb_u8 bb 1) (pk_bytes (id_key i))
          | Some (MultiAcc d) \<Rightarrow> bb_bytes (bb_u8 bb 2) d))))"

definition registration_serialize :: "pool_registration \<Rightarrow> ('e, u8 list) outcome" where
  "registration_serialize r = obind (registration_serialize_in r bb_new) bb_finalize"

text \<open>The digest function (Blake2b-256) is a parameter.\<close>

definition registration_to_id :: "(u8 list \<Rightarrow> digest) \<Rightarrow> pool_registration \<Rightarrow> ('e, digest) outcome" where
  "registration_to_id blake r = omap blake (registration_serialize r)"

definition read_reward_account :: "account_identifier option reader" where
  "read_reward_account buf =
     obind (get_u8 buf) (\<lambda>(n, buf).
       if n = 0 then Ok (None, buf)
       else if n = 1 then obind (read_ed25519 buf) (\<lambda>(pk, buf). Ok (Some (SingleAcc (Identifier pk)), buf))
       else if n = 2 then obind (copy_to_slice_mut 32 buf) (\<lambda>(pk, buf). Ok (Some (MultiAcc pk), buf))
       else Err (UnknownTag (ucast n)))"

definition registration_read :: "(u8 list \<Rightarrow> u8 list option) \<Rightarrow> pool_registration reader" where
  "registration_read point buf =
     obind (get_u128 buf) (\<lambda>(serial, buf).
     obind (get_u64 buf) (\<lambda>(start_validity, buf).
     obind (get_u64 buf) (\<lambda>(perm, buf).
     obind (ok_or (StructureInvalid ''permission value not correct'') (permissions_from_u64 perm)) (\<lambda>permissions.
     obind (leader_read point buf) (\<lambda>(keys, buf).
     obind (get_u8 buf) (\<lambda>(owners_nb, buf).
     obind (read_vec read_ed25519 (unat owners_nb) buf) (\<lambda>(owners, buf).
     obind (get_u8 buf) (\<lambda>(operators_nb, buf).
     obind (read_vec read_ed25519 (unat operators_nb) buf) (\<lambda>(operators, buf).
     obind (tax_read_frombuf buf) (\<lambda>(rewards, buf).
     obind (read_reward_account buf) (\<lambda>(reward_account, buf).
     Ok (\<lparr>pr_serial = serial, pr_start_validity = start_validity, pr_permissions = permissions, pr_owners = owners,
          pr_operators = operators, pr_rewards = rewards, pr_reward_account = reward_account, pr_keys = keys\<rparr>, buf))))))))))))"

definition update_serialize_in :: "pool_update \<Rightarrow> byte_builder \<Rightarrow> ('e, byte_builder) outcome" where
  "update_serialize_in u bb =
     registration_serialize_in (pu_new_pool_reg u) (bb_bytes (bb_bytes bb (pu_pool_id u)) (pu_last_pool_reg_hash u))"

definition update_read :: "(u8 list \<Rightarrow> u8 list option) \<Rightarrow> pool_update reader" where
  "update_read point buf =
     obind (read_array 32 buf) (\<lambda>(pool_id, buf).
     obind (read_array 32 buf) (\<lambda>(last_hash, buf).
     obind (registration_read point buf) (\<lambda>(new_reg, buf).
     Ok (\<lparr>pu_pool_id = pool_id, pu_last_pool_reg_hash = last_hash, pu_new_pool_reg = new_reg\<rparr>, buf))))"

definition retirement_serialize_in :: "pool_retirement \<Rightarrow> byte_builder \<Rightarrow> byte_builder" where
  "retirement_serialize_in r bb = bb_u64 (bb_bytes bb (prt_pool_id r)) (prt_retirement_time r)"

definition retirement_read :: "pool_retirement reader" where
  "retirement_read buf =
     obind (read_array 32 buf) (\<lambda>(pool_id, buf).
     obind (get_u64 buf) (\<lambda>(t, buf). Ok (\<lparr>prt_pool_id = pool_id, prt_retirement_time = t\<rparr>, buf)))"

section \<open>Pool signatures\<close>

definition pool_signature_serialize_in :: "pool_signature \<Rightarrow> byte_builder \<Rightarrow> ('e, byte_builder) outcome" where
  "pool_signature_serialize_in s bb =
     (case s of
        OperatorSig op \<Rightarrow> Ok (bb_bytes (bb_u8 bb 0) (sig_bytes op))
      | OwnersSig sigs \<Rightarrow>
          obind (require (sigs \<noteq> [])) (\<lambda>_. obind (require (length sigs < 256)) (\<lambda>_.
          bb_iter8 bb sigs (\<lambda>bb (i, s). bb_bytes (bb_u8 bb i) (sig_bytes s)))))"

definition owners_signed_read :: "(u8 \<times> signature) list reader" where
  "owners_signed_read buf =
     obind (get_u8 buf) (\<lambda>(nb, buf).
       if unat nb = 0 then Err (StructureInvalid ''pool owner signature with 0 signatures'')
       else read_vec (\<lambda>buf. obind (get_u8 buf) (\<lambda>(i, buf). obind (deserialize_signature buf) (\<lambda>(s, buf). Ok ((i, s), buf))))
              (unat nb) buf)"

definition pool_signature_read :: "pool_signature reader" where
  "pool_signature_read buf =
     obind (peek_u8 buf) (\<lambda>(tag, buf).
       if tag = 0 then obind (get_u8 buf) (\<lambda>(_, buf). obind (deserialize_signature buf) (\<lambda>(s, buf). Ok (OperatorSig s, buf)))
       else obind (owners_signed_read buf) (\<lambda>(sigs, buf). Ok (OwnersSig sigs, buf)))"

datatype verification = VSuccess | VFailed

type_synonym verifier = "public_key \<Rightarrow> u8 list \<Rightarrow> signature \<Rightarrow> bool"

text \<open>The loop over the signatures: how many were seen, or nothing when it returns early with a failure.\<close>

fun signatories :: "verifier \<Rightarrow> public_key list \<Rightarrow> u8 list \<Rightarrow> bool list \<Rightarrow> nat \<Rightarrow> (u8 \<times> signature) list \<Rightarrow> nat option" where
  "signatories vrfy owners d seen n [] = Some n"
| "signatories vrfy owners d seen n ((i, s) # sigs) =
     (if unat i \<ge> length owners then None
      else if seen ! unat i then None
      else if \<not> vrfy (owners ! unat i) d s then None
      else signatories vrfy owners d (seen[unat i := True]) (n + 1) sigs)"

definition owners_verify :: "verifier \<Rightarrow> (u8 \<times> signature) list \<Rightarrow> pool_registration \<Rightarrow> u8 list \<Rightarrow> verification" where
  "owners_verify vrfy sigs pool_info d =
     (if length sigs < unat (management_threshold pool_info) then VFailed
      else case signatories vrfy (pr_owners pool_info) d (replicate (length (pr_owners pool_info)) False) 0 sigs of
        None \<Rightarrow> VFailed
      | Some n \<Rightarrow> if n < unat (management_threshold pool_info) then VFailed else VSuccess)"

fun pool_signature_verify :: "verifier \<Rightarrow> pool_signature \<Rightarrow> pool_registration \<Rightarrow> u8 list \<Rightarrow> verification" where
  "pool_signature_verify vrfy (OperatorSig s) pool_info d = VFailed"
| "pool_signature_verify vrfy (OwnersSig sigs) pool_info d = owners_verify vrfy sigs pool_info d"

section \<open>Delegation certificates\<close>

record owner_stake_delegation =
  osd_delegation :: "digest delegation_type"

record stake_delegation =
  sd_account_id :: unspecified_account_identifier
  sd_delegation :: "digest delegation_type"

definition serialize_delegation_type :: "digest delegation_type \<Rightarrow> byte_builder \<Rightarrow> ('e, byte_builder) outcome" where
  "serialize_delegation_type d bb =
     (case d of
        NonDelegated \<Rightarrow> Ok (bb_u8 bb 0)
      | Full pool_id \<Rightarrow> Ok (bb_bytes (bb_u8 bb 1) pool_id)
      | Ratio ratio \<Rightarrow>
          obind (require (dr_parts ratio \<ge> 2)) (\<lambda>_.
          bb_iter8 (bb_u8 bb (dr_parts ratio)) (dr_pools ratio)
            (\<lambda>b (pool_id, pool_part). bb_bytes (bb_u8 b pool_part) pool_id)))"

definition deserialize_delegation_type :: "digest delegation_type reader" where
  "deserialize_delegation_type buf =
     obind (get_u8 buf) (\<lambda>(ps, buf).
       if ps = 0 then Ok (NonDelegated, buf)
       else if ps = 1 then obind (read_array 32 buf) (\<lambda>(pool_id, buf). Ok (Full pool_id, buf))
       else obind (get_u8 buf) (\<lambda>(sz, buf).
         if unat sz > DELEGATION_RATIO_MAX_DECLS then Err (SizeTooBig (unat sz) DELEGATION_RATIO_MAX_DECLS)
         else obind (read_vec (\<lambda>buf. obind (get_u8 buf) (\<lambda>(pool_parts, buf).
                obind (read_array 32 buf) (\<lambda>(pool_id, buf). Ok ((pool_id, pool_parts), buf)))) (unat sz) buf) (\<lambda>(pools, buf).
              obind (delegation_ratio_new ps pools) (\<lambda>r.
              case r of None \<Rightarrow> Err (StructureInvalid ''invalid delegation ratio'')
              | Some dr \<Rightarrow> Ok (Ratio dr, buf)))))"

definition owner_delegation_serialize_in :: "owner_stake_delegation \<Rightarrow> byte_builder \<Rightarrow> ('e, byte_builder) outcome" where
  "owner_delegation_serialize_in d bb = serialize_delegation_type (osd_delegation d) bb"

definition owner_delegation_read :: "owner_stake_delegation reader" where
  "owner_delegation_read buf = obind (deserialize_delegation_type buf) (\<lambda>(d, buf). Ok (\<lparr>osd_delegation = d\<rparr>, buf))"

definition stake_delegation_serialize_in :: "stake_delegation \<Rightarrow> byte_builder \<Rightarrow> ('e, byte_builder) outcome" where
  "stake_delegation_serialize_in d bb =
     serialize_delegation_type (sd_delegation d) (bb_bytes bb (unspec_bytes (sd_account_id d)))"

definition stake_delegation_read :: "stake_delegation reader" where
  "stake_delegation_read buf =
     obind (read_array 32 buf) (\<lambda>(account_identifier, buf).
     obind (deserialize_delegation_type buf) (\<lambda>(d, buf).
     Ok (\<lparr>sd_account_id = UnspecifiedId account_identifier, sd_delegation = d\<rparr>, buf)))"

section \<open>The wire formats of the parts\<close>

lemma slice_format: "canonical_format (\<lambda>s. length s = n) (\<lambda>s. s) (read_mut_slice get_u8 (replicate n (0 :: u8)))"
proof (rule format_transfer [OF vec_format [OF u8_format.canonical_format_axioms, of n]])
  show "read_mut_slice get_u8 (replicate n 0) b = read_vec get_u8 n b" for b by (simp add: read_mut_slice_def)
qed simp_all

text \<open>A key type whose constructor keeps the bytes.\<close>

lemma key_reader_format:
  assumes "\<And>s k. from_bin s = Ok k \<Longrightarrow> bytes k = s" and "\<And>s. from_bin s \<noteq> Panic"
  shows "canonical_format (\<lambda>k. length (bytes k) = n \<and> from_bin (bytes k) = Ok k) bytes (deserialize_public_key n from_bin)"
  unfolding deserialize_public_key_def [abs_def]
proof (rule bind_format [where p = bytes and encr = "\<lambda>_ _. []", OF slice_format])
  fix s :: "u8 list" assume len: "length s = n"
  show "canonical_format (\<lambda>k. (length (bytes k) = n \<and> from_bin (bytes k) = Ok k) \<and> bytes k = s) (\<lambda>_. [])
      (\<lambda>buf. obind (map_err chain_crypto_pub_err (from_bin s)) (\<lambda>k. Ok (k, buf)))"
  proof (cases "from_bin s")
    case (Ok k)
    with len assms(1) [OF Ok] show ?thesis by (simp, intro return_format) auto
  next
    case (Err e)
    then show ?thesis by (simp, intro fail_format) auto
  qed (use assms(2) in simp)
qed simp

definition key_ok :: "public_key \<Rightarrow> bool" where
  "key_ok k \<longleftrightarrow> length (pk_bytes k) = 32"

definition sig_ok :: "signature \<Rightarrow> bool" where
  "sig_ok s \<longleftrightarrow> length (sig_bytes s) = 64"

lemma ed25519_format [fmt]: "canonical_format key_ok pk_bytes read_ed25519"
proof (rule format_transfer [OF key_reader_format [of public_from_binary pk_bytes 32]])
  show "key_ok y \<longleftrightarrow> length (pk_bytes y) = 32 \<and> public_from_binary (pk_bytes y) = Ok y" for y
    by (cases y) (simp add: key_ok_def public_from_binary_def)
qed (auto simp: public_from_binary_def split: if_splits)

lemma signature_format [fmt]: "canonical_format sig_ok sig_bytes deserialize_signature"
  unfolding deserialize_signature_def [abs_def]
proof (rule bind_format [where p = sig_bytes and encr = "\<lambda>_ _. []", OF slice_format])
  show "canonical_format (\<lambda>k. sig_ok k \<and> sig_bytes k = s) (\<lambda>_. [])
      (\<lambda>buf. obind (map_err chain_crypto_sig_err (signature_from_bytes s)) (\<lambda>k. Ok (k, buf)))" if "length s = 64" for s
    using that by (simp add: signature_from_bytes_def sig_ok_def, intro return_format) (auto simp: signature.expand)
qed (simp add: sig_ok_def)

definition leader_ok :: "(u8 list \<Rightarrow> u8 list option) \<Rightarrow> genesis_praos_leader \<Rightarrow> bool" where
  "leader_ok point l \<longleftrightarrow> (let v = vrf_bytes (gpl_vrf l) in length v = 32 \<and> point v = Some v) \<and> length (kes_bytes (gpl_kes l)) = 32"

text \<open>The encoding of a group element is unique.\<close>

definition point_canonical :: "(u8 list \<Rightarrow> u8 list option) \<Rightarrow> bool" where
  "point_canonical point \<longleftrightarrow> (\<forall>s s'. point s = Some s' \<longrightarrow> s' = s)"

lemma leader_format:
  assumes "point_canonical point"
  shows "canonical_format (leader_ok point) (record_bytes [\<lambda>l. vrf_bytes (gpl_vrf l), \<lambda>l. kes_bytes (gpl_kes l)]) (leader_read point)"
proof -
  have v: "canonical_format (\<lambda>v. length (vrf_bytes v) = 32 \<and> point (vrf_bytes v) = Some (vrf_bytes v)) vrf_bytes
      (deserialize_public_key 32 (vrf_from_bytes point))"
  proof (rule format_transfer [OF key_reader_format [of "vrf_from_bytes point" vrf_bytes 32]])
    show "length (vrf_bytes y) = 32 \<and> point (vrf_bytes y) = Some (vrf_bytes y)
        \<longleftrightarrow> length (vrf_bytes y) = 32 \<and> vrf_from_bytes point (vrf_bytes y) = Ok y" for y
      by (cases y) (auto simp: vrf_from_bytes_def split: option.splits)
  qed (use assms in \<open>auto simp: vrf_from_bytes_def point_canonical_def split: if_splits option.splits\<close>)
  have k: "canonical_format (\<lambda>k. length (kes_bytes k) = 32) kes_bytes (deserialize_public_key 32 kes_from_bytes)"
  proof (rule format_transfer [OF key_reader_format [of kes_from_bytes kes_bytes 32]])
    show "length (kes_bytes y) = 32 \<longleftrightarrow> length (kes_bytes y) = 32 \<and> kes_from_bytes (kes_bytes y) = Ok y" for y
      by (cases y) (simp add: kes_from_bytes_def)
  qed (auto simp: kes_from_bytes_def split: if_splits)
  show ?thesis unfolding leader_read_def [abs_def]
    by (rule field_format [OF v, where p = gpl_vrf], rule field_format [OF k, where p = gpl_kes], rule end_format)
       (auto simp: leader_ok_def Let_def)
qed

section \<open>The wire formats of the certificates\<close>

fun reward_account_ok :: "account_identifier option \<Rightarrow> bool" where
  "reward_account_ok None \<longleftrightarrow> True"
| "reward_account_ok (Some (SingleAcc i)) \<longleftrightarrow> key_ok (id_key i)"
| "reward_account_ok (Some (MultiAcc d)) \<longleftrightarrow> length d = 32"

fun reward_account_bytes :: "account_identifier option \<Rightarrow> u8 list" where
  "reward_account_bytes None = [0]"
| "reward_account_bytes (Some (SingleAcc i)) = 1 # pk_bytes (id_key i)"
| "reward_account_bytes (Some (MultiAcc d)) = 2 # d"

lemma reward_account_format [fmt]: "canonical_format reward_account_ok reward_account_bytes read_reward_account"
  unfolding read_reward_account_def [abs_def]
proof (rule bind_format [where p = "hd \<circ> reward_account_bytes" and encr = "\<lambda>_. tl \<circ> reward_account_bytes", OF u8_format.canonical_format_axioms])
  fix n :: u8
  have one: "canonical_format (\<lambda>r. reward_account_ok r \<and> (hd \<circ> reward_account_bytes) r = 1) (tl \<circ> reward_account_bytes)
      (\<lambda>b. obind (read_ed25519 b) (\<lambda>(pk, buf). Ok (Some (SingleAcc (Identifier pk)), buf)))"
    by (rule map_format [OF ed25519_format, where h = "\<lambda>r. case r of Some (SingleAcc i) \<Rightarrow> id_key i"])
       (auto elim!: reward_account_ok.elims)
  have two: "canonical_format (\<lambda>r. reward_account_ok r \<and> (hd \<circ> reward_account_bytes) r = 2) (tl \<circ> reward_account_bytes)
      (\<lambda>b. obind (copy_to_slice_mut 32 b) (\<lambda>(pk, buf). Ok (Some (MultiAcc pk), buf)))"
    unfolding copy_to_slice_mut_def read_array_def [symmetric]
    by (rule map_format [OF array_format, where h = "\<lambda>r. case r of Some (MultiAcc d) \<Rightarrow> d"])
       (auto elim!: reward_account_ok.elims)
  show "canonical_format (\<lambda>r. reward_account_ok r \<and> (hd \<circ> reward_account_bytes) r = n) (tl \<circ> reward_account_bytes)
      (\<lambda>b. if n = 0 then Ok (None, b)
        else if n = 1 then obind (read_ed25519 b) (\<lambda>(pk, buf). Ok (Some (SingleAcc (Identifier pk)), buf))
        else if n = 2 then obind (copy_to_slice_mut 32 b) (\<lambda>(pk, buf). Ok (Some (MultiAcc pk), buf))
        else Err (UnknownTag (ucast n)))"
    by (intro if_format return_format fail_format) (use one two in \<open>auto elim!: reward_account_ok.elims\<close>)
qed (auto elim!: reward_account_ok.elims)

definition registration_ok :: "(u8 list \<Rightarrow> u8 list option) \<Rightarrow> pool_registration \<Rightarrow> bool" where
  "registration_ok point r \<longleftrightarrow> perm_bits (pr_permissions r) AND NOT ALL_USED_BITMASK = 0 \<and> leader_ok point (pr_keys r)
     \<and> length (pr_owners r) < 2 ^ 8 \<and> (\<forall>k \<in> set (pr_owners r). key_ok k)
     \<and> length (pr_operators r) < 2 ^ 8 \<and> (\<forall>k \<in> set (pr_operators r). key_ok k)
     \<and> tax_ok (pr_rewards r) \<and> reward_account_ok (pr_reward_account r)"

definition keys_bytes :: "public_key list \<Rightarrow> u8 list" where
  "keys_bytes ks = of_nat (length ks) # concat (map pk_bytes ks)"

definition registration_bytes :: "pool_registration \<Rightarrow> u8 list" where
  "registration_bytes = record_bytes [\<lambda>r. to_be_bytes (pr_serial r), \<lambda>r. to_be_bytes (pr_start_validity r),
     \<lambda>r. to_be_bytes (perm_bits (pr_permissions r)),
     \<lambda>r. record_bytes [\<lambda>l. vrf_bytes (gpl_vrf l), \<lambda>l. kes_bytes (gpl_kes l)] (pr_keys r),
     \<lambda>r. keys_bytes (pr_owners r), \<lambda>r. keys_bytes (pr_operators r), \<lambda>r. tax_bytes (pr_rewards r),
     \<lambda>r. reward_account_bytes (pr_reward_account r)]"

lemma keys_format: "canonical_format (\<lambda>ks. length ks < 2 ^ 8 \<and> (\<forall>k \<in> set ks. key_ok k)) keys_bytes (read_counted8 read_ed25519)"
  by (rule format_transfer [OF counted8_format [OF ed25519_format]]) (simp_all add: keys_bytes_def)

text \<open>The two loops over keys are counted lists.\<close>

lemma registration_read_eq:
  "registration_read point = (\<lambda>buf.
     obind (get_u128 buf) (\<lambda>(serial, buf).
     obind (get_u64 buf) (\<lambda>(start_validity, buf).
     obind (get_u64 buf) (\<lambda>(perm, buf).
     obind (ok_or (StructureInvalid ''permission value not correct'') (permissions_from_u64 perm)) (\<lambda>permissions.
     obind (leader_read point buf) (\<lambda>(keys, buf).
     obind (read_counted8 read_ed25519 buf) (\<lambda>(owners, buf).
     obind (read_counted8 read_ed25519 buf) (\<lambda>(operators, buf).
     obind (tax_read_frombuf buf) (\<lambda>(rewards, buf).
     obind (read_reward_account buf) (\<lambda>(reward_account, buf).
     Ok (\<lparr>pr_serial = serial, pr_start_validity = start_validity, pr_permissions = permissions, pr_owners = owners,
          pr_operators = operators, pr_rewards = rewards, pr_reward_account = reward_account, pr_keys = keys\<rparr>, buf)))))))))))"
  by (intro ext) (simp add: registration_read_def read_counted8_def obind_assoc case_prod_unfold)

lemma registration_format:
  assumes "point_canonical point"
  shows "canonical_format (registration_ok point) registration_bytes (registration_read point)"
proof -
  have gt: "(0 < (w :: u64)) \<longleftrightarrow> w \<noteq> 0" for w by (simp add: word_neq_0_conv)
  show ?thesis
    unfolding registration_read_eq registration_bytes_def
    by (rule field_format [OF u128_format.canonical_format_axioms, where p = pr_serial],
        rule field_format [OF u64_format.canonical_format_axioms, where p = pr_start_validity],
        rule field_format [OF u64_format.canonical_format_axioms, where p = "\<lambda>r. perm_bits (pr_permissions r)"],
        rule check_format,
        rule field_format [OF leader_format [OF assms], where p = pr_keys],
        rule field_format [OF keys_format, where p = pr_owners],
        rule field_format [OF keys_format, where p = pr_operators],
        rule field_format [OF tax_format.canonical_format_axioms, where p = pr_rewards],
        rule field_format [OF reward_account_format, where p = pr_reward_account],
        rule end_format)
       (auto simp: registration_ok_def permissions_from_u64_def gt split: if_splits)
qed

definition update_ok :: "(u8 list \<Rightarrow> u8 list option) \<Rightarrow> pool_update \<Rightarrow> bool" where
  "update_ok point u \<longleftrightarrow> length (pu_pool_id u) = 32 \<and> length (pu_last_pool_reg_hash u) = 32 \<and> registration_ok point (pu_new_pool_reg u)"

definition update_bytes :: "pool_update \<Rightarrow> u8 list" where
  "update_bytes = record_bytes [pu_pool_id, pu_last_pool_reg_hash, \<lambda>u. registration_bytes (pu_new_pool_reg u)]"

lemma update_format:
  assumes "point_canonical point"
  shows "canonical_format (update_ok point) update_bytes (update_read point)"
  unfolding update_read_def [abs_def] update_bytes_def
  by (rule field_format [OF array_format, where p = pu_pool_id], rule field_format [OF array_format, where p = pu_last_pool_reg_hash],
      rule field_format [OF registration_format [OF assms], where p = pu_new_pool_reg], rule end_format)
     (auto simp: update_ok_def)

definition retirement_bytes :: "pool_retirement \<Rightarrow> u8 list" where
  "retirement_bytes = record_bytes [prt_pool_id, \<lambda>r. to_be_bytes (prt_retirement_time r)]"

lemma retirement_format: "canonical_format (\<lambda>r. length (prt_pool_id r) = 32) retirement_bytes retirement_read"
  unfolding retirement_read_def [abs_def] retirement_bytes_def
  by (rule field_format [OF array_format, where p = prt_pool_id],
      rule field_format [OF u64_format.canonical_format_axioms, where p = prt_retirement_time], rule end_format)
     auto

fun pool_signature_ok :: "pool_signature \<Rightarrow> bool" where
  "pool_signature_ok (OperatorSig s) \<longleftrightarrow> sig_ok s"
| "pool_signature_ok (OwnersSig sigs) \<longleftrightarrow> sigs \<noteq> [] \<and> length sigs < 2 ^ 8 \<and> (\<forall>(i, s) \<in> set sigs. sig_ok s)"

definition indexed_bytes :: "u8 \<times> signature \<Rightarrow> u8 list" where
  "indexed_bytes = record_bytes [\<lambda>x. [fst x], \<lambda>x. sig_bytes (snd x)]"

fun pool_signature_bytes :: "pool_signature \<Rightarrow> u8 list" where
  "pool_signature_bytes (OperatorSig s) = 0 # sig_bytes s"
| "pool_signature_bytes (OwnersSig sigs) = of_nat (length sigs) # concat (map indexed_bytes sigs)"

lemma indexed_format: "canonical_format (\<lambda>x. sig_ok (snd x)) indexed_bytes
    (\<lambda>buf. obind (get_u8 buf) (\<lambda>(i, buf). obind (deserialize_signature buf) (\<lambda>(s, buf). Ok ((i, s), buf))))"
  unfolding indexed_bytes_def
  by (rule field_format [OF u8_format.canonical_format_axioms, where p = fst], rule field_format [OF signature_format, where p = snd], rule end_format)
     auto

lemma peek_u8_eq: "rb_ok b \<Longrightarrow> peek_u8 b = obind (get_u8 b) (\<lambda>(v, _). Ok (v, b))"
  by (auto simp: peek_u8_def get_u8_def obind_assoc case_prod_unfold intro!: arg_cong [where f = "obind (assure_size b 1)"])

lemma count_byte_nonzero: "xs \<noteq> [] \<Longrightarrow> length xs < 256 \<Longrightarrow> (of_nat (length xs) :: u8) \<noteq> 0"
proof
  assume xs: "xs \<noteq> []" "length xs < 256" and zero: "(of_nat (length xs) :: u8) = 0"
  have "unat (of_nat (length xs) :: u8) = length xs" using xs(2) by (intro unat_of_nat_id) simp
  with zero xs(1) show False by simp
qed

lemma pool_signature_format: "canonical_format pool_signature_ok pool_signature_bytes pool_signature_read"
proof -
  let ?idx = "\<lambda>buf. obind (get_u8 buf) (\<lambda>(i, buf). obind (deserialize_signature buf) (\<lambda>(s, buf). Ok ((i, s), buf)))"
  have "canonical_format pool_signature_ok pool_signature_bytes (\<lambda>buf. obind (get_u8 buf) (\<lambda>(n, buf).
      if n = 0 then obind (deserialize_signature buf) (\<lambda>(s, buf). Ok (OperatorSig s, buf))
      else obind (read_vec ?idx (unat n) buf) (\<lambda>(sigs, buf). Ok (OwnersSig sigs, buf))))"
  proof (rule bind_format [where p = "hd \<circ> pool_signature_bytes" and encr = "\<lambda>_. tl \<circ> pool_signature_bytes",
        OF u8_format.canonical_format_axioms])
    fix n :: u8
    have zero: "canonical_format (\<lambda>r. pool_signature_ok r \<and> (hd \<circ> pool_signature_bytes) r = 0) (tl \<circ> pool_signature_bytes)
        (\<lambda>b. obind (deserialize_signature b) (\<lambda>(s, buf). Ok (OperatorSig s, buf)))"
      by (rule map_format [OF signature_format, where h = "\<lambda>r. case r of OperatorSig s \<Rightarrow> s"])
         (auto elim!: pool_signature_ok.elims simp: count_byte_nonzero)
    have many: "canonical_format (\<lambda>r. pool_signature_ok r \<and> (hd \<circ> pool_signature_bytes) r = n) (tl \<circ> pool_signature_bytes)
        (\<lambda>b. obind (read_vec ?idx (unat n) b) (\<lambda>(sigs, buf). Ok (OwnersSig sigs, buf)))" if "n \<noteq> 0"
      using that unat_lt_2p [of n]
      by (intro map_format [OF vec_format [OF indexed_format], where h = "\<lambda>r. case r of OwnersSig sigs \<Rightarrow> sigs"])
         (auto elim!: pool_signature_ok.elims simp: unat_of_nat_id case_prod_unfold unat_eq_zero)
    show "canonical_format (\<lambda>r. pool_signature_ok r \<and> (hd \<circ> pool_signature_bytes) r = n) (tl \<circ> pool_signature_bytes)
        (\<lambda>b. if n = 0 then obind (deserialize_signature b) (\<lambda>(s, buf). Ok (OperatorSig s, buf))
          else obind (read_vec ?idx (unat n) b) (\<lambda>(sigs, buf). Ok (OwnersSig sigs, buf)))"
      using zero many by (intro if_format) auto
  qed (auto elim!: pool_signature_ok.elims)
  then show ?thesis
  proof (rule format_transfer)
    fix b assume b: "rb_ok b"
    show "pool_signature_read b = obind (get_u8 b) (\<lambda>(n, buf).
        if n = 0 then obind (deserialize_signature buf) (\<lambda>(s, buf). Ok (OperatorSig s, buf))
        else obind (read_vec ?idx (unat n) buf) (\<lambda>(sigs, buf). Ok (OwnersSig sigs, buf)))"
      by (cases "get_u8 b")
         (auto simp: pool_signature_read_def peek_u8_eq [OF b] owners_signed_read_def unat_eq_zero)
  qed simp_all
qed

text \<open>A delegation is well formed when its pool identifiers are digests and its ratio is one that can be built.\<close>

fun delegation_ok :: "digest delegation_type \<Rightarrow> bool" where
  "delegation_ok NonDelegated \<longleftrightarrow> True"
| "delegation_ok (Full p) \<longleftrightarrow> length p = 32"
| "delegation_ok (Ratio r) \<longleftrightarrow> (\<forall>x \<in> set (dr_pools r). length (fst x) = 32)
     \<and> delegation_ratio_new (dr_parts r) (dr_pools r) = (Ok (Some r) :: (read_error, _) outcome)"

definition part_bytes :: "digest \<times> u8 \<Rightarrow> u8 list" where
  "part_bytes = record_bytes [\<lambda>x. [snd x], fst]"

fun delegation_bytes :: "digest delegation_type \<Rightarrow> u8 list" where
  "delegation_bytes NonDelegated = [0]"
| "delegation_bytes (Full p) = 1 # p"
| "delegation_bytes (Ratio r) = dr_parts r # of_nat (length (dr_pools r)) # concat (map part_bytes (dr_pools r))"

lemma part_format: "canonical_format (\<lambda>x. length (fst x) = 32) part_bytes
    (\<lambda>buf. obind (get_u8 buf) (\<lambda>(pool_parts, buf). obind (read_array 32 buf) (\<lambda>(pool_id, buf). Ok ((pool_id, pool_parts), buf))))"
  unfolding part_bytes_def
  by (rule field_format [OF u8_format.canonical_format_axioms, where p = snd], rule field_format [OF array_format, where p = fst], rule end_format)
     auto

lemma ratio_okD:
  assumes "delegation_ratio_new ps pools = (Ok (Some r) :: (read_error, _) outcome)"
  shows "dr_parts r = ps" and "dr_pools r = pools" and "1 < ps" and "length pools \<le> 8"
  using assms by (auto simp: delegation_ratio_new_def DELEGATION_RATIO_MAX_DECLS_def outcome_simps Let_def split: if_splits)

lemma ratio_format:
  assumes "1 < ps"
  shows "canonical_format (\<lambda>d. delegation_ok d \<and> (hd \<circ> delegation_bytes) d = ps) (tl \<circ> delegation_bytes)
    (\<lambda>buf. obind (get_u8 buf) (\<lambda>(sz, buf).
       if unat sz > DELEGATION_RATIO_MAX_DECLS then Err (SizeTooBig (unat sz) DELEGATION_RATIO_MAX_DECLS)
       else obind (read_vec (\<lambda>buf. obind (get_u8 buf) (\<lambda>(pool_parts, buf).
              obind (read_array 32 buf) (\<lambda>(pool_id, buf). Ok ((pool_id, pool_parts), buf)))) (unat sz) buf) (\<lambda>(pools, buf).
            obind (delegation_ratio_new ps pools) (\<lambda>r.
            case r of None \<Rightarrow> Err (StructureInvalid ''invalid delegation ratio'') | Some dr \<Rightarrow> Ok (Ratio dr, buf)))))"
    (is "canonical_format ?V ?e _")
proof (rule bind_format [where p = "\<lambda>d. case d of Ratio r \<Rightarrow> of_nat (length (dr_pools r))"
      and encr = "\<lambda>_ d. case d of Ratio r \<Rightarrow> concat (map part_bytes (dr_pools r))", OF u8_format.canonical_format_axioms])
  fix sz :: u8
  let ?W = "\<lambda>d. ?V d \<and> (case d of Ratio r \<Rightarrow> of_nat (length (dr_pools r))) = sz"
  let ?pools = "\<lambda>d. case d of Ratio r \<Rightarrow> dr_pools r"
  have ratio: "\<exists>r. d = Ratio r" if "?V d" for d using that assms by (cases d) auto
  have W: "length (?pools d) = unat sz \<and> length (?pools d) \<le> 8 \<and> (\<forall>x \<in> set (?pools d). length (fst x) = 32)" if "?W d" for d
    using that ratio [of d] ratio_okD(4) by (fastforce simp: unat_of_nat_id)
  show "canonical_format ?W (\<lambda>d. case d of Ratio r \<Rightarrow> concat (map part_bytes (dr_pools r)))
      (\<lambda>buf. if unat sz > DELEGATION_RATIO_MAX_DECLS then Err (SizeTooBig (unat sz) DELEGATION_RATIO_MAX_DECLS)
       else obind (read_vec (\<lambda>buf. obind (get_u8 buf) (\<lambda>(pool_parts, buf).
              obind (read_array 32 buf) (\<lambda>(pool_id, buf). Ok ((pool_id, pool_parts), buf)))) (unat sz) buf) (\<lambda>(pools, buf).
            obind (delegation_ratio_new ps pools) (\<lambda>r.
            case r of None \<Rightarrow> Err (StructureInvalid ''invalid delegation ratio'') | Some dr \<Rightarrow> Ok (Ratio dr, buf))))"
  proof (rule if_format)
    show "canonical_format ?W (\<lambda>d. case d of Ratio r \<Rightarrow> concat (map part_bytes (dr_pools r)))
        (\<lambda>b. Err (SizeTooBig (unat sz) DELEGATION_RATIO_MAX_DECLS))" if "unat sz > DELEGATION_RATIO_MAX_DECLS"
      using that W by (intro fail_format) (fastforce simp: DELEGATION_RATIO_MAX_DECLS_def)
    assume small: "\<not> unat sz > DELEGATION_RATIO_MAX_DECLS"
    show "canonical_format ?W (\<lambda>d. case d of Ratio r \<Rightarrow> concat (map part_bytes (dr_pools r)))
      (\<lambda>buf. obind (read_vec (\<lambda>buf. obind (get_u8 buf) (\<lambda>(pool_parts, buf).
              obind (read_array 32 buf) (\<lambda>(pool_id, buf). Ok ((pool_id, pool_parts), buf)))) (unat sz) buf) (\<lambda>(pools, buf).
            obind (delegation_ratio_new ps pools) (\<lambda>r.
            case r of None \<Rightarrow> Err (StructureInvalid ''invalid delegation ratio'') | Some dr \<Rightarrow> Ok (Ratio dr, buf))))"
    proof (rule bind_format [where p = ?pools and encr = "\<lambda>_ _. []", OF vec_format [OF part_format]])
      fix pools :: "(digest \<times> u8) list" assume pools: "length pools = unat sz \<and> (\<forall>x \<in> set pools. length (fst x) = 32)"
      then have "length pools < 2 ^ 24" using small by (simp add: DELEGATION_RATIO_MAX_DECLS_def)
      from delegation_ratio_spec [OF this, of ps, where 'e = read_error]
      obtain r where r: "delegation_ratio_new ps pools = (Ok r :: (read_error, _) outcome)" by blast
      show "canonical_format (\<lambda>d. ?W d \<and> ?pools d = pools) (\<lambda>_. [])
          (\<lambda>buf. obind (delegation_ratio_new ps pools) (\<lambda>r.
            case r of None \<Rightarrow> Err (StructureInvalid ''invalid delegation ratio'') | Some dr \<Rightarrow> Ok (Ratio dr, buf)))"
      proof (cases r)
        case None
        then show ?thesis using r ratio by (simp, intro fail_format) (fastforce dest: ratio_okD)
      next
        case (Some dr)
        have dr: "dr_parts dr = ps" "dr_pools dr = pools" using ratio_okD [of ps pools dr] r Some by simp_all
        have "?W (Ratio dr) \<and> ?pools (Ratio dr) = pools"
          using r Some pools by (simp add: dr)
        moreover have "d = Ratio dr" if "?W d" "?pools d = pools" for d
          using that ratio [of d] r Some by (auto simp: dr)
        ultimately have "?W d \<and> ?pools d = pools \<longleftrightarrow> d = Ratio dr" for d by blast
        then show ?thesis using r Some by (simp, intro return_format) auto
      qed
    qed (use W ratio in force)
  qed
qed (use assms in \<open>auto elim!: delegation_ok.elims\<close>)

lemma delegation_format: "canonical_format delegation_ok delegation_bytes deserialize_delegation_type"
  unfolding deserialize_delegation_type_def [abs_def]
proof (rule bind_format [where p = "hd \<circ> delegation_bytes" and encr = "\<lambda>_. tl \<circ> delegation_bytes", OF u8_format.canonical_format_axioms])
  fix ps :: u8
  have one: "canonical_format (\<lambda>d. delegation_ok d \<and> (hd \<circ> delegation_bytes) d = 1) (tl \<circ> delegation_bytes)
      (\<lambda>b. obind (read_array 32 b) (\<lambda>(pool_id, buf). Ok (Full pool_id, buf)))"
    by (rule map_format [OF array_format, where h = "\<lambda>d. case d of Full p \<Rightarrow> p"])
       (auto elim!: delegation_ok.elims dest: ratio_okD(3))
  have zero: "canonical_format (\<lambda>d. delegation_ok d \<and> (hd \<circ> delegation_bytes) d = 0) (tl \<circ> delegation_bytes) (\<lambda>b. Ok (NonDelegated, b))"
    by (rule return_format) (auto elim!: delegation_ok.elims dest: ratio_okD(3))
  have "1 < ps" if "ps \<noteq> 0" "ps \<noteq> 1"
    using that by (metis word_gt_0 word_le_less_eq word_less_1 linorder_not_le)
  with zero one ratio_format [of ps]
  show "canonical_format (\<lambda>d. delegation_ok d \<and> (hd \<circ> delegation_bytes) d = ps) (tl \<circ> delegation_bytes)
      (\<lambda>buf. if ps = 0 then Ok (NonDelegated, buf)
       else if ps = 1 then obind (read_array 32 buf) (\<lambda>(pool_id, buf). Ok (Full pool_id, buf))
       else obind (get_u8 buf) (\<lambda>(sz, buf).
         if unat sz > DELEGATION_RATIO_MAX_DECLS then Err (SizeTooBig (unat sz) DELEGATION_RATIO_MAX_DECLS)
         else obind (read_vec (\<lambda>buf. obind (get_u8 buf) (\<lambda>(pool_parts, buf).
                obind (read_array 32 buf) (\<lambda>(pool_id, buf). Ok ((pool_id, pool_parts), buf)))) (unat sz) buf) (\<lambda>(pools, buf).
              obind (delegation_ratio_new ps pools) (\<lambda>r.
              case r of None \<Rightarrow> Err (StructureInvalid ''invalid delegation ratio'')
              | Some dr \<Rightarrow> Ok (Ratio dr, buf)))))"
    by (intro if_format) simp_all
qed (auto elim!: delegation_ok.elims)

lemma stake_delegation_format:
  "canonical_format (\<lambda>d. length (unspec_bytes (sd_account_id d)) = 32 \<and> delegation_ok (sd_delegation d))
     (record_bytes [\<lambda>d. unspec_bytes (sd_account_id d), \<lambda>d. delegation_bytes (sd_delegation d)]) stake_delegation_read"
  unfolding stake_delegation_read_def [abs_def]
  by (rule field_format [OF array_format, where p = "\<lambda>d. unspec_bytes (sd_account_id d)"],
      rule field_format [OF delegation_format, where p = sd_delegation], rule end_format)
     auto

section \<open>What the builders write\<close>

lemma registration_serialize_bytes:
  "registration_serialize_in r bb = (if length (pr_owners r) < 2 ^ 8 \<and> length (pr_operators r) < 2 ^ 8
     then Ok (bb\<lparr>bb_buffer := bb_buffer bb @ registration_bytes r\<rparr>) else Panic)"
proof -
  let ?f = "\<lambda>bb k. bb\<lparr>bb_buffer := bb_buffer bb @ pk_bytes k\<rparr>"
  have "appends (\<lambda>b. ?f b k) (pk_bytes k)" for k by (simp add: appends_def)
  from bb_iter_appends(1) [where f = ?f and enc = pk_bytes, OF this]
  have many: "bb_iter8 b ks ?f = (if length ks < 2 ^ 8 then Ok (b\<lparr>bb_buffer := bb_buffer b @ keys_bytes ks\<rparr>) else Panic)" for b ks
    by (auto simp: keys_bytes_def bb_iter8_def require_def)
  show ?thesis
    using tax_serialize_appends [of "pr_rewards r"]
    by (cases "pr_reward_account r" rule: reward_account_bytes.cases)
       (simp_all add: registration_serialize_in_def many Let_def bb_simps bb_sub_def appends_def registration_bytes_def)
qed

lemma update_serialize_bytes:
  "update_serialize_in u bb = (if length (pr_owners (pu_new_pool_reg u)) < 2 ^ 8 \<and> length (pr_operators (pu_new_pool_reg u)) < 2 ^ 8
     then Ok (bb\<lparr>bb_buffer := bb_buffer bb @ update_bytes u\<rparr>) else Panic)"
  by (simp add: update_serialize_in_def registration_serialize_bytes bb_simps update_bytes_def)

lemma retirement_serialize_bytes: "retirement_serialize_in r bb = bb\<lparr>bb_buffer := bb_buffer bb @ retirement_bytes r\<rparr>"
  by (simp add: retirement_serialize_in_def bb_simps retirement_bytes_def)

lemma pool_signature_serialize_bytes:
  assumes "pool_signature_ok s"
  shows "pool_signature_serialize_in s bb = Ok (bb\<lparr>bb_buffer := bb_buffer bb @ pool_signature_bytes s\<rparr>)"
proof (cases s)
  case (OwnersSig sigs)
  have "appends (\<lambda>b. case x of (i, s) \<Rightarrow> bb_bytes (bb_u8 b i) (sig_bytes s)) (indexed_bytes x)" for x
    by (cases x) (simp add: appends_def bb_simps indexed_bytes_def)
  from bb_iter_appends(1) [where f = "\<lambda>bb (i, s). bb_bytes (bb_u8 bb i) (sig_bytes s)" and enc = indexed_bytes, OF this, of sigs bb]
  show ?thesis using assms OwnersSig by (simp add: pool_signature_serialize_in_def require_def)
qed (simp add: pool_signature_serialize_in_def bb_simps)

lemma delegation_serialize_bytes:
  assumes "delegation_ok d"
  shows "serialize_delegation_type d bb = Ok (bb\<lparr>bb_buffer := bb_buffer bb @ delegation_bytes d\<rparr>)"
proof (cases d)
  case (Ratio r)
  then have "delegation_ratio_new (dr_parts r) (dr_pools r) = (Ok (Some r) :: (read_error, _) outcome)" using assms by simp
  then have r: "2 \<le> dr_parts r" "length (dr_pools r) < 2 ^ 8"
    using ratio_okD(3,4) [of "dr_parts r" "dr_pools r" r] by (auto simp: word_less_nat_alt word_le_nat_alt)
  let ?f = "\<lambda>b (pool_id, pool_part). b\<lparr>bb_buffer := bb_buffer b @ pool_part # pool_id\<rparr>"
  have "appends (\<lambda>b. ?f b x) (part_bytes x)" for x by (cases x) (simp add: appends_def part_bytes_def)
  note parts = bb_iter_appends(1) [where f = ?f and enc = part_bytes, OF this, OF r(2)]
  show ?thesis using Ratio r(1) by (simp add: serialize_delegation_type_def require_def bb_simps parts)
qed (simp_all add: serialize_delegation_type_def bb_simps)

section \<open>The threshold of the owners\<close>

lemma signatories_spec:
  assumes "length seen = length owners"
  shows "signatories vrfy owners d seen n sigs = (if distinct (map fst sigs)
      \<and> (\<forall>(i, s) \<in> set sigs. unat i < length owners \<and> \<not> seen ! unat i \<and> vrfy (owners ! unat i) d s)
    then Some (n + length sigs) else None)"
  using assms
proof (induction vrfy owners d seen n sigs rule: signatories.induct)
  case (2 vrfy owners d seen n i s sigs)
  show ?case
  proof (cases "unat i < length owners \<and> \<not> seen ! unat i \<and> vrfy (owners ! unat i) d s")
    case True
    have upd: "seen[unat i := True] ! unat j \<longleftrightarrow> j = i \<or> seen ! unat j" if "unat j < length owners" for j :: u8
      using that True "2.prems" by (auto simp: nth_list_update word_unat_eq_iff)
    have "(case x of (j, t) \<Rightarrow> unat j < length owners \<and> \<not> seen[unat i := True] ! unat j \<and> vrfy (owners ! unat j) d t)
        \<longleftrightarrow> (case x of (j, t) \<Rightarrow> unat j < length owners \<and> \<not> seen ! unat j \<and> vrfy (owners ! unat j) d t) \<and> fst x \<noteq> i" for x
      using upd [of "fst x"] by (cases x) auto
    then have "(\<forall>(j, t) \<in> set sigs. unat j < length owners \<and> \<not> seen[unat i := True] ! unat j \<and> vrfy (owners ! unat j) d t)
        \<longleftrightarrow> (\<forall>(j, t) \<in> set sigs. unat j < length owners \<and> \<not> seen ! unat j \<and> vrfy (owners ! unat j) d t) \<and> i \<notin> fst ` set sigs"
      by (simp add: ball_conj_distrib) auto
    with True 2 show ?thesis by auto
  qed auto
qed simp

section \<open>Properties\<close>

text \<open>
  C27. Pool and delegation certificates on the wire: each is written as the sequence of its fields, and a
  buffer is accepted exactly if it is the encoding of a well-formed certificate, which is then the one
  returned. Group elements of the VRF are assumed to have one encoding.
\<close>

theorem certificate_wire:
  assumes "point_canonical point"
  shows "(registration_ok point r \<longrightarrow> registration_serialize r = (Ok (registration_bytes r) :: ('e, _) outcome))
    \<and> (read_from_raw (registration_read point) bs = Ok r \<longleftrightarrow> registration_ok point r \<and> bs = registration_bytes r)
    \<and> (read_from_raw (update_read point) bs = Ok u \<longleftrightarrow> update_ok point u \<and> obind (update_serialize_in u bb_new) bb_finalize = (Ok bs :: ('e, _) outcome))
    \<and> (read_from_raw retirement_read bs = Ok t \<longleftrightarrow> length (prt_pool_id t) = 32 \<and> bb_finalize_as_vec (retirement_serialize_in t bb_new) = bs)
    \<and> (read_from_raw pool_signature_read bs = Ok s \<longleftrightarrow> pool_signature_ok s \<and> obind (pool_signature_serialize_in s bb_new) bb_finalize = (Ok bs :: ('e, _) outcome))
    \<and> (read_from_raw stake_delegation_read bs = Ok d \<longleftrightarrow> length (unspec_bytes (sd_account_id d)) = 32 \<and> delegation_ok (sd_delegation d)
        \<and> obind (stake_delegation_serialize_in d bb_new) bb_finalize = (Ok bs :: ('e, _) outcome))"
proof -
  note raw = canonical_format.read_from_raw_iff
  have fin: "bb_finalize (bb_new\<lparr>bb_buffer := xs\<rparr>) = (Ok xs :: ('e, _) outcome)" "bb_buffer bb_new = []" for xs
    by (simp_all add: bb_finalize_def bb_new_def)
  have reg: "registration_ok point x \<Longrightarrow> length (pr_owners x) < 2 ^ 8 \<and> length (pr_operators x) < 2 ^ 8" for x
    by (simp add: registration_ok_def)
  have 1: "registration_ok point r \<longrightarrow> registration_serialize r = (Ok (registration_bytes r) :: ('e, _) outcome)"
    using reg [of r] by (simp add: registration_serialize_def registration_serialize_bytes fin)
  have 2: "update_ok point u \<Longrightarrow> obind (update_serialize_in u bb_new) bb_finalize = (Ok (update_bytes u) :: ('e, _) outcome)"
    using reg [of "pu_new_pool_reg u"] by (simp add: update_ok_def update_serialize_bytes fin)
  have 3: "pool_signature_ok s \<Longrightarrow> obind (pool_signature_serialize_in s bb_new) bb_finalize = (Ok (pool_signature_bytes s) :: ('e, _) outcome)"
    by (simp add: pool_signature_serialize_bytes fin)
  have 4: "delegation_ok (sd_delegation d) \<Longrightarrow> obind (stake_delegation_serialize_in d bb_new) bb_finalize
      = (Ok (unspec_bytes (sd_account_id d) @ delegation_bytes (sd_delegation d)) :: ('e, _) outcome)"
    by (simp add: stake_delegation_serialize_in_def delegation_serialize_bytes bb_simps fin)
  have 5: "bb_finalize_as_vec (retirement_serialize_in t bb_new) = retirement_bytes t"
    by (simp add: bb_finalize_as_vec_def retirement_serialize_bytes fin)
  have "read_from_raw (update_read point) bs = Ok u \<longleftrightarrow> update_ok point u \<and> obind (update_serialize_in u bb_new) bb_finalize = (Ok bs :: ('e, _) outcome)"
    using 2 raw [OF update_format [OF assms], of bs u] by auto
  moreover have "read_from_raw pool_signature_read bs = Ok s \<longleftrightarrow> pool_signature_ok s \<and> obind (pool_signature_serialize_in s bb_new) bb_finalize = (Ok bs :: ('e, _) outcome)"
    using 3 raw [OF pool_signature_format, of bs s] by auto
  moreover have "read_from_raw stake_delegation_read bs = Ok d \<longleftrightarrow> length (unspec_bytes (sd_account_id d)) = 32 \<and> delegation_ok (sd_delegation d)
        \<and> obind (stake_delegation_serialize_in d bb_new) bb_finalize = (Ok bs :: ('e, _) outcome)"
    using 4 raw [OF stake_delegation_format, of bs d] by auto
  moreover have "read_from_raw retirement_read bs = Ok t \<longleftrightarrow> length (prt_pool_id t) = 32 \<and> bb_finalize_as_vec (retirement_serialize_in t bb_new) = bs"
    using 5 raw [OF retirement_format, of bs t] by auto
  ultimately show ?thesis using 1 raw [OF registration_format [OF assms], of bs r] by blast
qed

definition sample_point :: "u8 list \<Rightarrow> u8 list option" where
  "sample_point s = (if hd s = 5 then Some s else None)"

definition sample_registration :: pool_registration where
  "sample_registration = \<lparr>pr_serial = 7, pr_start_validity = 1, pr_permissions = permissions_new 1,
     pr_owners = [PublicKey (replicate 32 1), PublicKey (replicate 32 2)], pr_operators = [],
     pr_rewards = \<lparr>tax_fixed = Value 10, tax_ratio = \<lparr>numerator = 1, denominator = 4\<rparr>, tax_max_limit = None\<rparr>,
     pr_reward_account = Some (SingleAcc (Identifier (PublicKey (replicate 32 1)))),
     pr_keys = \<lparr>gpl_kes = KesPublicKey (replicate 32 3), gpl_vrf = VrfPublicKey (replicate 32 5)\<rparr>\<rparr>"

lemma sample_registration_ok: "registration_ok sample_point sample_registration"
  by code_simp

theorem certificate_wire_witness:
  "read_from_raw (registration_read sample_point) (registration_bytes sample_registration) = Ok sample_registration
   \<and> registration_serialize sample_registration = (Ok (registration_bytes sample_registration) :: (unit, _) outcome)"
proof -
  have "point_canonical sample_point" by (auto simp: point_canonical_def sample_point_def split: if_splits)
  from certificate_wire [OF this, where 'e = unit] sample_registration_ok show ?thesis by blast
qed

text \<open>
  C17. The owners' signature on a pool certificate is accepted exactly if at least the management threshold
  of signatures is given, each by an owner of the pool that has not signed before, and each of them
  verifies. A signature by the operator is never accepted.
\<close>

theorem owner_threshold:
  "pool_signature_verify vrfy s r d = VSuccess \<longleftrightarrow>
     (\<exists>sigs. s = OwnersSig sigs \<and> unat (management_threshold r) \<le> length sigs \<and> distinct (map fst sigs)
       \<and> (\<forall>x \<in> set sigs. unat (fst x) < length (pr_owners r) \<and> vrfy (pr_owners r ! unat (fst x)) d (snd x)))"
proof (cases s)
  case (OwnersSig sigs)
  let ?o = "pr_owners r"
  have "(\<forall>(i, t) \<in> set sigs. unat i < length ?o \<and> \<not> replicate (length ?o) False ! unat i \<and> vrfy (?o ! unat i) d t)
      \<longleftrightarrow> (\<forall>x \<in> set sigs. unat (fst x) < length ?o \<and> vrfy (?o ! unat (fst x)) d (snd x))" by auto
  with OwnersSig signatories_spec [of "replicate (length ?o) False" ?o vrfy d 0 sigs] show ?thesis
    by (auto simp: owners_verify_def)
qed simp

theorem owner_threshold_witness:
  "pool_signature_verify (\<lambda>k d s. hd (pk_bytes k) = hd (sig_bytes s)) (OwnersSig [(1, Signature [2])]) sample_registration [] = VSuccess
   \<and> pool_signature_verify (\<lambda>k d s. hd (pk_bytes k) = hd (sig_bytes s)) (OwnersSig [(0, Signature [2])]) sample_registration [] \<noteq> VSuccess"
proof -
  have m: "unat (management_threshold sample_registration) = 1" by code_simp
  have o: "pr_owners sample_registration = [PublicKey (replicate 32 1), PublicKey (replicate 32 2)]" by (simp add: sample_registration_def)
  show ?thesis unfolding owner_threshold by (simp add: m o numeral_eq_Suc)
qed

end
