(* ===== verification/Multisig.thy ===== *)
theory Multisig
  imports Pool_Cert "HOL-Library.Product_Lexorder"
begin

text \<open>
  Multisig accounts (\<open>multisig/\<close>): the indices of participants and their packed form, the declarations
  and the identifiers they hash to, the witnesses with their wire format and their verification, and
  the ledger of multisig accounts.

  The digest function \<open>blake\<close>, the verification of a signature \<open>vrfy\<close> and the hash of the tries are
  parameters.
\<close>

section \<open>Indices\<close>

definition LEVEL_MAXLIMIT :: nat where
  "LEVEL_MAXLIMIT = 8"

datatype ms_index = Index (index_value: u8)

definition index_from_u8 :: "u8 \<Rightarrow> ms_index option" where
  "index_from_u8 v = (if unat v > LEVEL_MAXLIMIT then None else Some (Index v))"

definition index_to_usize :: "ms_index \<Rightarrow> nat" where
  "index_to_usize i = unat (index_value i)"

datatype tree_index = D1 ms_index | D2 ms_index ms_index

definition index_cmp :: "ms_index \<Rightarrow> ms_index \<Rightarrow> ordering" where
  "index_cmp a b = cmp_word (index_value a) (index_value b)"

definition ordering_then :: "ordering \<Rightarrow> ordering \<Rightarrow> ordering" where
  "ordering_then a b = (if a = OEqual then b else a)"

fun tree_index_cmp :: "tree_index \<Rightarrow> tree_index \<Rightarrow> ordering" where
  "tree_index_cmp (D1 a) (D1 b) = index_cmp a b"
| "tree_index_cmp (D1 a) (D2 b1 _) = ordering_then (index_cmp a b1) OLess"
| "tree_index_cmp (D2 a1 _) (D1 b) = ordering_then (index_cmp a1 b) OGreater"
| "tree_index_cmp (D2 a1 a2) (D2 b1 b2) = ordering_then (index_cmp a1 b1) (index_cmp a2 b2)"

text \<open>The order is the lexicographic one on these keys.\<close>

fun tree_key :: "tree_index \<Rightarrow> nat \<times> nat" where
  "tree_key (D1 a) = (unat (index_value a), 0)"
| "tree_key (D2 a b) = (unat (index_value a), Suc (unat (index_value b)))"

lemma tree_key_inj: "tree_key x = tree_key y \<longleftrightarrow> x = y"
  by (cases x; cases y) (auto simp: ms_index.expand word_unat_eq_iff)

text \<open>The derived operators of the order.\<close>

instantiation tree_index :: linorder
begin

definition less_eq_tree_index :: "tree_index \<Rightarrow> tree_index \<Rightarrow> bool" where
  "less_eq_tree_index a b \<longleftrightarrow> tree_index_cmp a b \<noteq> OGreater"

definition less_tree_index :: "tree_index \<Rightarrow> tree_index \<Rightarrow> bool" where
  "less_tree_index a b \<longleftrightarrow> tree_index_cmp a b = OLess"

lemma tree_index_le: "x \<le> y \<longleftrightarrow> tree_key x \<le> tree_key y" and tree_index_less: "x < y \<longleftrightarrow> tree_key x < tree_key y"
  for x y :: tree_index
  by (cases x; cases y; auto simp: less_eq_tree_index_def less_tree_index_def index_cmp_def ordering_then_def cmp_word_def
      word_less_nat_alt word_unat_eq_iff less_prod_def less_eq_prod_def split: if_splits)+

instance
proof
  fix x y z :: tree_index
  show "x < y \<longleftrightarrow> x \<le> y \<and> \<not> y \<le> x" by (auto simp: tree_index_le tree_index_less)
  show "x \<le> x" by (simp add: tree_index_le)
  show "x \<le> y \<Longrightarrow> y \<le> z \<Longrightarrow> x \<le> z" by (auto simp: tree_index_le)
  show "x \<le> y \<Longrightarrow> y \<le> x \<Longrightarrow> x = y" by (metis tree_index_le tree_key_inj antisym)
  show "x \<le> y \<or> y \<le> x" by (simp add: tree_index_le linear)
qed

end

fun tree_indices :: "tree_index \<Rightarrow> ms_index list" where
  "tree_indices (D1 a) = [a]"
| "tree_indices (D2 a b) = [a, b]"

fun tree_depth :: "tree_index \<Rightarrow> nat" where
  "tree_depth (D1 _) = 0"
| "tree_depth (D2 _ _) = 1"

definition TREEINDEX_TAG_DEPTH1 :: u16 where "TREEINDEX_TAG_DEPTH1 = 1"
definition TREEINDEX_TAG_DEPTH2 :: u16 where "TREEINDEX_TAG_DEPTH2 = 2"

fun tree_pack :: "tree_index \<Rightarrow> ('e, u16) outcome" where
  "tree_pack (D1 (Index a)) = padd (push_bit 12 TREEINDEX_TAG_DEPTH1) (push_bit 9 (ucast a))"
| "tree_pack (D2 (Index a) (Index b)) =
     obind (padd (push_bit 12 TREEINDEX_TAG_DEPTH2) (push_bit 9 (ucast a))) (\<lambda>x. padd x (push_bit 6 (ucast b)))"

definition tree_unpack :: "u16 \<Rightarrow> tree_index option" where
  "tree_unpack v =
     (let tag = drop_bit 12 v AND 15; a = drop_bit 9 v AND 7; b = drop_bit 6 v AND 7; c = drop_bit 3 v AND 7; d = v AND 7 in
      if c \<noteq> 0 \<or> d \<noteq> 0 then None
      else if tag = TREEINDEX_TAG_DEPTH1 then (if b \<noteq> 0 then None else Some (D1 (Index (ucast a))))
      else if tag = TREEINDEX_TAG_DEPTH2 then Some (D2 (Index (ucast a)) (Index (ucast b)))
      else None)"

section \<open>Declarations\<close>

datatype ms_declaration = Declaration (ms_threshold: u8) (ms_owners: "decl_element list")
and decl_element = SubDecl ms_declaration | OwnerDecl digest

datatype declaration_error = ThresholdInvalid | HasNotEnoughOwners | HasTooManyOwners | SubNotImplemented

primrec decl_identifier :: "(u8 list \<Rightarrow> digest) \<Rightarrow> ms_declaration \<Rightarrow> digest"
  and element_hash :: "(u8 list \<Rightarrow> digest) \<Rightarrow> decl_element \<Rightarrow> digest" where
  "decl_identifier blake (Declaration t os) = blake (t # concat (map (element_hash blake) os))"
| "element_hash blake (SubDecl d) = decl_identifier blake d"
| "element_hash blake (OwnerDecl h) = h"

definition owners_to_identifier :: "(u8 list \<Rightarrow> digest) \<Rightarrow> u8 \<Rightarrow> decl_element list \<Rightarrow> digest" where
  "owners_to_identifier blake t os = blake (t # concat (map (element_hash blake) os))"

definition element_from_publickey :: "(u8 list \<Rightarrow> digest) \<Rightarrow> public_key \<Rightarrow> decl_element" where
  "element_from_publickey blake k = OwnerDecl (blake (pk_bytes k))"

definition declaration_is_valid :: "ms_declaration \<Rightarrow> (declaration_error, unit) outcome" where
  "declaration_is_valid d =
     (if ms_threshold d < 1 \<or> unat (ms_threshold d) > length (ms_owners d) then Err ThresholdInvalid
      else if length (ms_owners d) \<le> 1 then Err HasNotEnoughOwners
      else if length (ms_owners d) > LEVEL_MAXLIMIT then Err HasTooManyOwners
      else Ok ())"

fun get_path :: "ms_declaration \<Rightarrow> tree_index \<Rightarrow> (ms_declaration \<times> ms_index) option" where
  "get_path d (D1 idx) = Some (d, idx)"
| "get_path d (D2 r idx) =
     (if index_to_usize r < length (ms_owners d) then
        (case ms_owners d ! index_to_usize r of OwnerDecl _ \<Rightarrow> None | SubDecl s \<Rightarrow> Some (s, idx))
      else None)"

section \<open>Witnesses\<close>

type_synonym ms_witness = "(tree_index \<times> public_key \<times> signature) list"

datatype ms_error =
    ParticipantOutOfBound | MsAlreadyExist | DoesntExist | DeclarationErr declaration_error
  | AccountErr account_error | IdentifierMismatch | ThresholdNotMet

text \<open>The loop that fills the slots of the participants.\<close>

fun fill_slots :: "public_key option list \<Rightarrow> (ms_index \<times> public_key) list \<Rightarrow> (ms_error, public_key option list) outcome" where
  "fill_slots opt [] = Ok opt"
| "fill_slots opt ((i, w) # ws) =
     (if index_to_usize i \<ge> length opt then Err ParticipantOutOfBound
      else fill_slots (opt[index_to_usize i := Some w]) ws)"

definition verify_identifier_threshold ::
  "(u8 list \<Rightarrow> digest) \<Rightarrow> ms_declaration \<Rightarrow> (ms_index \<times> public_key) list \<Rightarrow> (ms_error, unit) outcome" where
  "verify_identifier_threshold blake d ws =
     (if length ws < unat (ms_threshold d) then Err ThresholdNotMet
      else obind (fill_slots (replicate (length (ms_owners d)) None) ws) (\<lambda>opt.
        let r = map (\<lambda>(v, el). case v of None \<Rightarrow> el | Some p \<Rightarrow> element_from_publickey blake p) (zip opt (ms_owners d)) in
        if owners_to_identifier blake (ms_threshold d) r \<noteq> decl_identifier blake d then Err IdentifierMismatch else Ok ()))"

fun collect_signers :: "verifier \<Rightarrow> u8 list \<Rightarrow> ms_witness \<Rightarrow> (ms_index \<times> public_key) list option" where
  "collect_signers vrfy msg [] = Some []"
| "collect_signers vrfy msg ((D2 _ _, pk, sg) # ws) = None"
| "collect_signers vrfy msg ((D1 i, pk, sg) # ws) =
     (if \<not> vrfy pk msg sg then None else map_option (\<lambda>v. (i, pk) # v) (collect_signers vrfy msg ws))"

definition ms_verify :: "verifier \<Rightarrow> (u8 list \<Rightarrow> digest) \<Rightarrow> ms_witness \<Rightarrow> ms_declaration \<Rightarrow> u8 list \<Rightarrow> bool" where
  "ms_verify vrfy blake w d msg =
     (case collect_signers vrfy msg w of
        None \<Rightarrow> False
      | Some v \<Rightarrow> verify_identifier_threshold blake d v = Ok ())"

fun serialize_elements :: "ms_witness \<Rightarrow> u8 list \<Rightarrow> (io_error, u8 list) outcome" where
  "serialize_elements [] out = Ok out"
| "serialize_elements ((ti, pk, sg) # ws) out =
     obind (tree_pack ti) (\<lambda>p.
     obind (codec_put_be_u16 out p) (\<lambda>out.
     obind (write_all out (pk_bytes pk)) (\<lambda>out.
     obind (write_all out (sig_bytes sg)) (\<lambda>out. serialize_elements ws out))))"

definition ms_witness_serialize :: "ms_witness \<Rightarrow> u8 list \<Rightarrow> (io_error, u8 list) outcome" where
  "ms_witness_serialize w out = obind (codec_put_u8 out (of_nat (length w))) (\<lambda>out. serialize_elements w out)"

definition deserialize_index :: "tree_index reader" where
  "deserialize_index buf =
     obind (get_u16 buf) (\<lambda>(idx, buf).
       case tree_unpack idx of None \<Rightarrow> Err (StructureInvalid ''invalid index'') | Some ti \<Rightarrow> Ok (ti, buf))"

primrec read_ordered :: "nat \<Rightarrow> tree_index \<Rightarrow> ms_witness reader" where
  "read_ordered 0 prev buf = Ok ([], buf)"
| "read_ordered (Suc n) prev buf =
     obind (deserialize_index buf) (\<lambda>(ti, buf).
       if ti \<le> prev then Err (StructureInvalid ''index not in order'')
       else obind (read_ed25519 buf) (\<lambda>(pk, buf).
            obind (deserialize_signature buf) (\<lambda>(sg, buf).
            obind (read_ordered n ti buf) (\<lambda>(v, buf). Ok ((ti, pk, sg) # v, buf)))))"

text \<open>After the first element the loop runs \<open>0..len\<close>.\<close>

definition ms_witness_read :: "ms_witness reader" where
  "ms_witness_read buf =
     obind (get_u8 buf) (\<lambda>(len, buf).
       if len = 0 then Err (StructureInvalid ''zero length not permitted'')
       else obind (deserialize_index buf) (\<lambda>(first_index, buf).
            obind (read_ed25519 buf) (\<lambda>(first_key, buf).
            obind (deserialize_signature buf) (\<lambda>(first_sig, buf).
            obind (read_ordered (unat len) first_index buf) (\<lambda>(v, buf).
            Ok ((first_index, first_key, first_sig) # v, buf))))))"

text \<open>The builder keeps its elements in a \<open>BTreeMap\<close>: a list sorted by index.\<close>

fun builder_insert :: "ms_witness \<Rightarrow> tree_index \<Rightarrow> public_key \<times> signature \<Rightarrow> ms_witness \<times> (public_key \<times> signature) option" where
  "builder_insert [] i x = ([(i, x)], None)"
| "builder_insert ((j, y) # es) i x =
     (if i < j then ((i, x) # (j, y) # es, None)
      else if i = j then ((i, x) # es, Some y)
      else case builder_insert es i x of (es', r) \<Rightarrow> ((j, y) # es', r))"

definition builder_append :: "ms_witness \<Rightarrow> tree_index \<Rightarrow> public_key \<Rightarrow> signature \<Rightarrow> ('e, ms_witness) outcome" where
  "builder_append wb i pk sg =
     (case builder_insert wb i (pk, sg) of (wb', r) \<Rightarrow> obind (require (r = None)) (\<lambda>_. Ok wb'))"

definition builder_finalize :: "ms_witness \<Rightarrow> ms_witness" where
  "builder_finalize wb = wb"

section \<open>The ledger of multisig accounts\<close>

record ('p, 'tk) ms_ledger =
  ms_accounts :: "(digest, 'p, 'tk, unit) account_ledger"
  ms_declarations :: "(digest, ms_declaration) hamt"

definition ms_new :: "('p, 'tk) ms_ledger" where
  "ms_new = \<lparr>ms_accounts = account_new, ms_declarations = hamt_new\<rparr>"

definition ms_add_account ::
  "digest hasher \<Rightarrow> (u8 list \<Rightarrow> digest) \<Rightarrow> ('p, 'tk) ms_ledger \<Rightarrow> ms_declaration \<Rightarrow> (ms_error, ('p, 'tk) ms_ledger) outcome" where
  "ms_add_account hf blake l d =
     obind (map_err DeclarationErr (declaration_is_valid d)) (\<lambda>_.
     let i = decl_identifier blake d in
     obind (map_err (\<lambda>_. MsAlreadyExist) (hamt_insert hf (ms_declarations l) i d)) (\<lambda>new_decls.
     obind (map_err AccountErr (add_account hf (ms_accounts l) i value_zero ())) (\<lambda>new_accts.
     Ok \<lparr>ms_accounts = new_accts, ms_declarations = new_decls\<rparr>)))"

definition ms_remove_account ::
  "digest hasher \<Rightarrow> ('p, 'tk) ms_ledger \<Rightarrow> digest \<Rightarrow> (ms_error, ('p, 'tk) ms_ledger) outcome" where
  "ms_remove_account hf l i =
     obind (map_err (\<lambda>_. DoesntExist) (hamt_remove hf (ms_declarations l) i)) (\<lambda>new_decls.
     obind (map_err AccountErr (remove_account hf (ms_accounts l) i)) (\<lambda>new_accts.
     Ok \<lparr>ms_accounts = new_accts, ms_declarations = new_decls\<rparr>))"

definition ms_add_value ::
  "digest hasher \<Rightarrow> ('p, 'tk) ms_ledger \<Rightarrow> digest \<Rightarrow> val \<Rightarrow> (ms_error, ('p, 'tk) ms_ledger) outcome" where
  "ms_add_value hf l i v =
     obind (map_err AccountErr (account_add_value hf (ms_accounts l) i v)) (\<lambda>a. Ok (l\<lparr>ms_accounts := a\<rparr>))"

definition ms_remove_value ::
  "digest hasher \<Rightarrow> ('p, 'tk) ms_ledger \<Rightarrow> digest \<Rightarrow> spending_counter \<Rightarrow> val
   \<Rightarrow> (ms_error, ('p, 'tk) ms_ledger \<times> ms_declaration) outcome" where
  "ms_remove_value hf l i c v =
     obind (obind (hamt_lookup hf (ms_declarations l) i) (ok_or DoesntExist)) (\<lambda>decl.
     obind (map_err AccountErr (remove_value hf (ms_accounts l) i c v)) (\<lambda>a. Ok (l\<lparr>ms_accounts := a\<rparr>, decl)))"

definition ms_set_delegation ::
  "digest hasher \<Rightarrow> ('p, 'tk) ms_ledger \<Rightarrow> digest \<Rightarrow> 'p delegation_type \<Rightarrow> (ms_error, ('p, 'tk) ms_ledger) outcome" where
  "ms_set_delegation hf l i d =
     obind (map_err AccountErr (set_delegation hf (ms_accounts l) i d)) (\<lambda>a. Ok (l\<lparr>ms_accounts := a\<rparr>))"

definition ms_get_total_value :: "('p, 'tk) ms_ledger \<Rightarrow> (value_error, val) outcome" where
  "ms_get_total_value l = get_total_value (ms_accounts l)"

definition ms_restore ::
  "digest hasher \<Rightarrow> (digest \<times> ('p, 'tk, unit) account_state) list \<Rightarrow> (digest \<times> ms_declaration) list \<Rightarrow> (unit, ('p, 'tk) ms_ledger) outcome" where
  "ms_restore hf accts decls =
     obind (account_from_iter hf accts) (\<lambda>a.
     obind (hamt_from_iter hf decls) (\<lambda>d. Ok \<lparr>ms_accounts = a, ms_declarations = d\<rparr>))"

section \<open>Packed indices\<close>

lemma unat_field: "unat (drop_bit n v AND 7) = unat v div 2 ^ n mod 8" "unat (drop_bit n v AND 15) = unat v div 2 ^ n mod 16"
  for v :: u16
proof -
  have m: "(7 :: u16) = mask 3" "(15 :: u16) = mask 4" by (simp_all add: mask_eq_exp_minus_1)
  show "unat (drop_bit n v AND 7) = unat v div 2 ^ n mod 8" "unat (drop_bit n v AND 15) = unat v div 2 ^ n mod 16"
    using unat_lt_2p [of v] unfolding m by (simp_all only: take_bit_eq_mask [symmetric] unsigned_take_bit_eq unsigned_drop_bit_eq
        take_bit_eq_mod [where 'a = nat] drop_bit_eq_div [where 'a = nat]) simp_all
qed

text \<open>The fields of a packed index as numbers.\<close>

definition index_number :: "tree_index \<Rightarrow> nat" where
  "index_number ti = (case ti of
     D1 a \<Rightarrow> 4096 + 512 * index_to_usize a
   | D2 a b \<Rightarrow> 8192 + 512 * index_to_usize a + 64 * index_to_usize b)"

definition small_index :: "tree_index \<Rightarrow> bool" where
  "small_index ti \<longleftrightarrow> (\<forall>i \<in> set (tree_indices ti). index_to_usize i < 8)"

lemma pack_number:
  assumes "\<forall>i \<in> set (tree_indices ti). index_to_usize i \<le> 8"
  shows "\<exists>w. tree_pack ti = (Ok w :: ('e, u16) outcome) \<and> unat w = index_number ti"
proof -
  have sh: "unat (push_bit k (ucast x :: u16)) = unat x * 2 ^ k" if "unat x \<le> 8" "k \<le> 9" for x :: u8 and k
  proof -
    have "unat x * 2 ^ k \<le> 8 * 2 ^ 9" using that by (intro mult_le_mono power_increasing) auto
    then show ?thesis by (simp only: unsigned_push_bit_eq push_bit_eq_mult [where 'a = nat]) (simp add: unat_ucast_up take_bit_nat_eq_self)
  qed
  have t: "unat (push_bit 12 TREEINDEX_TAG_DEPTH1) = 4096" "unat (push_bit 12 TREEINDEX_TAG_DEPTH2) = 8192"
    by (simp_all add: TREEINDEX_TAG_DEPTH1_def TREEINDEX_TAG_DEPTH2_def)
  show ?thesis
  proof (cases ti rule: tree_pack.cases)
    case (1 a)
    then show ?thesis using assms sh [of a 9] t(1)
      by (cases "padd (push_bit 12 TREEINDEX_TAG_DEPTH1) (push_bit 9 (ucast a)) :: ('e, u16) outcome")
         (auto simp: checked_simps plain_arith_Panic_iffs plain_arith_no_Err index_number_def index_to_usize_def)
  next
    case (2 a b)
    then have le: "unat a \<le> 8" "unat b \<le> 8" using assms by (simp_all add: index_to_usize_def)
    have "\<exists>x. padd (push_bit 12 TREEINDEX_TAG_DEPTH2) (push_bit 9 (ucast a)) = (Ok x :: ('e, u16) outcome) \<and> unat x = 8192 + unat a * 512"
      using sh [OF le(1), of 9] t(2) le(1)
      by (cases "padd (push_bit 12 TREEINDEX_TAG_DEPTH2) (push_bit 9 (ucast a)) :: ('e, u16) outcome")
         (auto simp: checked_simps plain_arith_Panic_iffs plain_arith_no_Err)
    then obtain x where x: "padd (push_bit 12 TREEINDEX_TAG_DEPTH2) (push_bit 9 (ucast a)) = (Ok x :: ('e, u16) outcome)" "unat x = 8192 + unat a * 512" by blast
    have "\<exists>y. padd x (push_bit 6 (ucast b)) = (Ok y :: ('e, u16) outcome) \<and> unat y = unat x + unat b * 64"
      using sh [OF le(2), of 6] le x(2)
      by (cases "padd x (push_bit 6 (ucast b)) :: ('e, u16) outcome") (auto simp: checked_simps plain_arith_Panic_iffs plain_arith_no_Err)
    then obtain y where y: "padd x (push_bit 6 (ucast b)) = (Ok y :: ('e, u16) outcome)" "unat y = unat x + unat b * 64" by blast
    show ?thesis using 2 x(2) y(2) by (intro exI [of _ y]) (simp add: x(1) y(1) index_number_def index_to_usize_def)
  qed
qed

lemma index_digits:
  "n = 4096 * t + 512 * m + 64 * l \<and> m < 8 \<and> l < 8 \<longleftrightarrow>
     n div 4096 = t \<and> n div 512 mod 8 = m \<and> n div 64 mod 8 = l \<and> n div 8 mod 8 = 0 \<and> n mod 8 = 0" for n t m l :: nat
proof
  assume n: "n = 4096 * t + 512 * m + 64 * l \<and> m < 8 \<and> l < 8"
  have "n = 8 * (512 * t + 64 * m + 8 * l)" "n = 64 * (64 * t + 8 * m + l)" using n by simp_all
  moreover have "n div 512 = 8 * t + m" using n by (intro div_nat_eqI) simp_all
  moreover have "n div 4096 = t" using n by (intro div_nat_eqI) simp_all
  moreover have "n div 64 = 8 * (8 * t + m) + l" "n div 8 = 8 * (64 * t + 8 * m + l)" using n by (intro div_nat_eqI; simp)+
  ultimately show "n div 4096 = t \<and> n div 512 mod 8 = m \<and> n div 64 mod 8 = l \<and> n div 8 mod 8 = 0 \<and> n mod 8 = 0"
    using n by (metis mod_mult_self4 mod_less mod_mult_self1_is_0)
next
  assume d: "n div 4096 = t \<and> n div 512 mod 8 = m \<and> n div 64 mod 8 = l \<and> n div 8 mod 8 = 0 \<and> n mod 8 = 0"
  have "n div 64 = n div 8 div 8" "n div 512 = n div 64 div 8" "n div 4096 = n div 512 div 8" by (simp_all flip: div_mult2_eq)
  then have "n = 8 * (8 * (8 * (8 * (n div 4096) + n div 512 mod 8) + n div 64 mod 8) + n div 8 mod 8) + n mod 8" by simp
  then show "n = 4096 * t + 512 * m + 64 * l \<and> m < 8 \<and> l < 8" using d by auto
qed

lemma unpack_number: "tree_unpack v = Some ti \<longleftrightarrow> small_index ti \<and> unat v = index_number ti"
proof -
  let ?n = "unat v"
  have n: "?n < 65536" using unat_lt_2p [of v] by simp
  have f: "(drop_bit 3 v AND 7 = 0) = (?n div 8 mod 8 = 0)" "(v AND 7 = 0) = (?n mod 8 = 0)" "(drop_bit 6 v AND 7 = 0) = (?n div 64 mod 8 = 0)"
    "(drop_bit 12 v AND 15 = TREEINDEX_TAG_DEPTH1) = (?n div 4096 = 1)" "(drop_bit 12 v AND 15 = TREEINDEX_TAG_DEPTH2) = (?n div 4096 = 2)"
    using unat_field(1) [of 3 v] unat_field(1) [of 0 v] unat_field(1) [of 6 v] unat_field(2) [of 12 v] n
    by (simp_all add: word_unat_eq_iff TREEINDEX_TAG_DEPTH1_def TREEINDEX_TAG_DEPTH2_def)
  have a: "unat (ucast (drop_bit k v AND 7) :: u8) = ?n div 2 ^ k mod 8" for k
    using unat_field(1) [of k v] by (simp add: unat_ucast_down)
  let ?X = "D1 (Index (ucast (drop_bit 9 v AND 7)))" and ?Y = "D2 (Index (ucast (drop_bit 9 v AND 7))) (Index (ucast (drop_bit 6 v AND 7)))"
  have u: "tree_unpack v = (if ?n div 8 mod 8 \<noteq> 0 \<or> ?n mod 8 \<noteq> 0 then None else if ?n div 4096 = 1
      then if ?n div 64 mod 8 \<noteq> 0 then None else Some ?X else if ?n div 4096 = 2 then Some ?Y else None)"
    unfolding tree_unpack_def Let_def f ..
  show ?thesis
  proof (cases ti)
    case (D1 i)
    have "?X = ti \<longleftrightarrow> ?n div 512 mod 8 = index_to_usize i"
      using D1 a [of 9] by (cases i) (auto simp: index_to_usize_def word_unat_eq_iff)
    moreover have "?Y \<noteq> ti" using D1 by simp
    ultimately have "tree_unpack v = Some ti \<longleftrightarrow> ?n div 4096 = 1 \<and> ?n div 512 mod 8 = index_to_usize i \<and> ?n div 64 mod 8 = 0 \<and> ?n div 8 mod 8 = 0 \<and> ?n mod 8 = 0"
      unfolding u by simp
    then show ?thesis unfolding index_digits [symmetric] using D1 by (auto simp: small_index_def index_number_def)
  next
    case (D2 i j)
    have "?Y = ti \<longleftrightarrow> ?n div 512 mod 8 = index_to_usize i \<and> ?n div 64 mod 8 = index_to_usize j"
      using D2 a [of 9] a [of 6] by (cases i; cases j) (auto simp: index_to_usize_def word_unat_eq_iff)
    moreover have "?X \<noteq> ti" using D2 by simp
    ultimately have "tree_unpack v = Some ti \<longleftrightarrow> ?n div 4096 = 2 \<and> ?n div 512 mod 8 = index_to_usize i \<and> ?n div 64 mod 8 = index_to_usize j \<and> ?n div 8 mod 8 = 0 \<and> ?n mod 8 = 0"
      unfolding u by simp
    then show ?thesis unfolding index_digits [symmetric] using D2 by (auto simp: small_index_def index_number_def)
  qed
qed
section \<open>Witnesses on the wire\<close>

lemma word_of_nat_eq: "n < 2 ^ LENGTH('a) \<Longrightarrow> word_of_nat n = v \<longleftrightarrow> unat v = n" for v :: "'a::len word"
  by (auto simp: unat_of_nat_id)

definition index_bytes :: "tree_index \<Rightarrow> u8 list" where
  "index_bytes ti = to_be_bytes (word_of_nat (index_number ti) :: u16)"

lemma index_number_less: "small_index ti \<Longrightarrow> index_number ti < 2 ^ 16"
  by (cases ti) (auto simp: small_index_def index_number_def)

lemma index_format: "canonical_format small_index index_bytes deserialize_index"
  unfolding deserialize_index_def [abs_def]
proof (rule bind_format [where p = "\<lambda>ti. word_of_nat (index_number ti)" and encr = "\<lambda>_ _. []", OF u16_format.canonical_format_axioms])
  fix v :: u16
  have "small_index ti \<and> word_of_nat (index_number ti) = v \<longleftrightarrow> tree_unpack v = Some ti" for ti
    using index_number_less [of ti] word_of_nat_eq [of "index_number ti" v] by (auto simp: unpack_number)
  then show "canonical_format (\<lambda>ti. small_index ti \<and> word_of_nat (index_number ti) = v) (\<lambda>_. [])
      (\<lambda>buf. case tree_unpack v of None \<Rightarrow> Err (StructureInvalid ''invalid index'') | Some ti \<Rightarrow> Ok (ti, buf))"
    by (cases "tree_unpack v") (simp_all, (rule fail_format return_format; auto)+)
qed (simp add: index_bytes_def)

definition element_bytes :: "tree_index \<times> public_key \<times> signature \<Rightarrow> u8 list" where
  "element_bytes x = index_bytes (fst x) @ pk_bytes (fst (snd x)) @ sig_bytes (snd (snd x))"

definition element_ok :: "tree_index \<times> public_key \<times> signature \<Rightarrow> bool" where
  "element_ok x \<longleftrightarrow> small_index (fst x) \<and> key_ok (fst (snd x)) \<and> sig_ok (snd (snd x))"

lemma element_bytes_length: "element_ok x \<Longrightarrow> length (element_bytes x) = 98"
  by (simp add: element_ok_def element_bytes_def key_ok_def sig_ok_def index_bytes_def length_to_bytes)

lemma elements_length: "\<forall>x \<in> set w. element_ok x \<Longrightarrow> length (concat (map element_bytes w)) = 98 * length w"
  by (induction w) (simp_all add: element_bytes_length)

lemma elements_head:
  "w \<noteq> [] \<Longrightarrow> concat (map element_bytes w) = index_bytes (fst (hd w)) @ pk_bytes (fst (snd (hd w))) @ sig_bytes (snd (snd (hd w)))
     @ concat (map element_bytes (tl w))"
  using element_bytes_def [of "hd w"] by (cases w) simp_all

fun ascending :: "tree_index \<Rightarrow> ms_witness \<Rightarrow> bool" where
  "ascending prev [] \<longleftrightarrow> True"
| "ascending prev (x # w) \<longleftrightarrow> prev < fst x \<and> ascending (fst x) w"

lemma read_ordered_format:
  "canonical_format (\<lambda>w. length w = n \<and> ascending prev w \<and> (\<forall>x \<in> set w. element_ok x)) (\<lambda>w. concat (map element_bytes w)) (read_ordered n prev)"
proof (induction n arbitrary: prev)
  case 0
  show ?case by (rule format_transfer [OF return_format [where c = "[]" and enc = "\<lambda>_. []" and valid = "\<lambda>w. w = []"]]) auto
next
  case (Suc n)
  let ?V = "\<lambda>w. length w = Suc n \<and> ascending prev w \<and> (\<forall>x \<in> set w. element_ok x)"
  let ?fs = "[\<lambda>w. index_bytes (fst (hd w)), \<lambda>w. pk_bytes (fst (snd (hd w))), \<lambda>w. sig_bytes (snd (snd (hd w))),
    \<lambda>w. concat (map element_bytes (tl w))]"
  have "canonical_format ?V (record_bytes ?fs) (\<lambda>buf. obind (deserialize_index buf) (\<lambda>(ti, buf).
       if ti \<le> prev then Err (StructureInvalid ''index not in order'')
       else obind (read_ed25519 buf) (\<lambda>(pk, buf).
            obind (deserialize_signature buf) (\<lambda>(sg, buf).
            obind (read_ordered n ti buf) (\<lambda>(v, buf). Ok ((ti, pk, sg) # v, buf))))))"
    apply (rule field_format [OF index_format, where p = "\<lambda>w. fst (hd w)"])
     apply (rule if_format)
      apply (rule fail_format)
      subgoal for ti w by (cases w) auto
     apply (rule field_format [OF ed25519_format, where p = "\<lambda>w. fst (snd (hd w))"])
      apply (rule field_format [OF signature_format, where p = "\<lambda>w. snd (snd (hd w))"])
       apply (rule field_format [OF Suc, where p = tl])
        apply (rule end_format)
    subgoal for ti pk sg v w by (cases w; cases "hd w") (auto simp: element_ok_def not_le)
    subgoal for ti pk sg w by (cases w) (auto simp: element_ok_def)
    subgoal for ti pk w by (cases w) (auto simp: element_ok_def)
    subgoal for ti w by (cases w) (auto simp: element_ok_def)
    subgoal for w by (cases w) (auto simp: element_ok_def)
    done
  then show ?case
    by (rule format_transfer) (auto intro!: elements_head)
qed

text \<open>The reader takes one element more than the count says.\<close>

definition ms_witness_ok :: "ms_witness \<Rightarrow> bool" where
  "ms_witness_ok w \<longleftrightarrow> 2 \<le> length w \<and> length w \<le> 256 \<and> ascending (fst (hd w)) (tl w) \<and> (\<forall>x \<in> set w. element_ok x)"

lemma ms_witness_format:
  "canonical_format ms_witness_ok (\<lambda>w. of_nat (length w - 1) # concat (map element_bytes w)) ms_witness_read"
proof -
  let ?fs = "[\<lambda>w. [of_nat (length w - 1)], \<lambda>w. index_bytes (fst (hd w)), \<lambda>w. pk_bytes (fst (snd (hd w))), \<lambda>w. sig_bytes (snd (snd (hd w))),
    \<lambda>w. concat (map element_bytes (tl w))] :: (ms_witness \<Rightarrow> u8 list) list"
  have V: "ms_witness_ok w \<and> of_nat (length w - 1) = n \<longleftrightarrow> length w = Suc (unat n) \<and> n \<noteq> 0 \<and> ascending (fst (hd w)) (tl w) \<and> (\<forall>x \<in> set w. element_ok x)"
    for w and n :: u8
  proof -
    have "of_nat (length w - 1) = n \<longleftrightarrow> unat n = length w - 1" if "ms_witness_ok w"
      using that by (intro word_of_nat_eq) (auto simp: ms_witness_ok_def)
    then show ?thesis using unat_lt_2p [of n] unat_eq_zero [of n] by (auto simp: ms_witness_ok_def)
  qed
  have "canonical_format ms_witness_ok (record_bytes ?fs) ms_witness_read"
    unfolding ms_witness_read_def [abs_def]
    apply (rule field_format [OF u8_format.canonical_format_axioms, where p = "\<lambda>w. of_nat (length w - 1)"])
     apply (unfold V)
     apply (rule if_format)
      apply (rule fail_format, simp)
     apply (rule field_format [OF index_format, where p = "\<lambda>w. fst (hd w)"])
      apply (rule field_format [OF ed25519_format, where p = "\<lambda>w. fst (snd (hd w))"])
       apply (rule field_format [OF signature_format, where p = "\<lambda>w. snd (snd (hd w))"])
        apply (rule field_format [OF read_ordered_format, where p = tl])
         apply (rule end_format)
    subgoal for n ti pk sg v w by (cases w; cases "hd w") (auto simp: element_ok_def)
    subgoal for n ti pk sg w by (cases w) (auto simp: element_ok_def)
    subgoal for n ti pk w by (cases w) (auto simp: element_ok_def)
    subgoal for n ti w by (cases w) (auto simp: element_ok_def)
    subgoal for n w by (cases w) (auto simp: element_ok_def)
    subgoal by simp
    done
  then show ?thesis
    by (rule format_transfer) (auto simp: ms_witness_ok_def intro!: elements_head)
qed

lemma serialize_elements_bytes:
  "\<forall>x \<in> set w. element_ok x \<Longrightarrow> serialize_elements w out = Ok (out @ concat (map element_bytes w))"
proof (induction w arbitrary: out)
  case (Cons x w)
  obtain ti pk sg where x: "x = (ti, pk, sg)" by (cases x)
  have "\<forall>i \<in> set (tree_indices ti). index_to_usize i \<le> 8" "small_index ti"
    using Cons.prems x by (auto simp: element_ok_def small_index_def)
  then obtain p where "tree_pack ti = (Ok p :: (io_error, u16) outcome)" "p = word_of_nat (index_number ti)"
    using pack_number [of ti, where 'e = io_error] index_number_less [of ti] by (auto simp: word_unat_eq_iff unat_of_nat_id)
  then show ?case using Cons x by (simp add: codec_put_be_u16_def write_all_def element_bytes_def index_bytes_def)
qed simp
section \<open>Verification of a witness\<close>

definition signer :: "tree_index \<times> public_key \<times> signature \<Rightarrow> ms_index \<times> public_key" where
  "signer x = (case fst x of D1 i \<Rightarrow> i | D2 i _ \<Rightarrow> i, fst (snd x))"

definition is_signed :: "verifier \<Rightarrow> u8 list \<Rightarrow> tree_index \<times> public_key \<times> signature \<Rightarrow> bool" where
  "is_signed vrfy msg x \<longleftrightarrow> (\<exists>i. fst x = D1 i) \<and> vrfy (fst (snd x)) msg (snd (snd x))"

lemma collect_signers_spec:
  "collect_signers vrfy msg w = (if \<forall>x \<in> set w. is_signed vrfy msg x then Some (map signer w) else None)"
  by (induction vrfy msg w rule: collect_signers.induct) (auto simp: is_signed_def signer_def)

lemma fill_slots_spec:
  "fill_slots opt ws = (if \<forall>x \<in> set ws. index_to_usize (fst x) < length opt
     then Ok (map (\<lambda>j. case map_of (rev (map (\<lambda>x. (index_to_usize (fst x), snd x)) ws)) j of None \<Rightarrow> opt ! j | Some p \<Rightarrow> Some p) [0..<length opt])
     else Err ParticipantOutOfBound)"
proof (induction opt ws rule: fill_slots.induct)
  case (1 opt)
  show ?case by (simp add: map_nth)
next
  case (2 opt i w ws)
  show ?case
  proof (cases "index_to_usize i < length opt")
    case True
    let ?m = "map_of (rev (map (\<lambda>x. (index_to_usize (fst x), snd x)) ws))"
    have "(case ?m j of None \<Rightarrow> opt[index_to_usize i := Some w] ! j | Some p \<Rightarrow> Some p)
        = (case ([index_to_usize i \<mapsto> w] ++ ?m) j of None \<Rightarrow> opt ! j | Some p \<Rightarrow> Some p)" if "j < length opt" for j
      using that True by (auto simp: map_add_def nth_list_update split: option.splits)
    then show ?thesis using 2 True by (simp add: map_add_def [abs_def] cong: map_cong)
  qed simp
qed

lemma equal_pieces:
  assumes "concat xs = concat ys" and "length xs = length ys" and "\<And>x. x \<in> set xs \<union> set ys \<Longrightarrow> length x = n"
  shows "xs = ys"
  using assms by (intro concat_injective) (auto dest: set_zip_leftD set_zip_rightD)

definition decl_ok :: "ms_declaration \<Rightarrow> bool" where
  "decl_ok d \<longleftrightarrow> (\<forall>h. OwnerDecl h \<in> set (ms_owners d) \<longrightarrow> length h = 32)"

text \<open>The participant at the index of an element is the one whose key is given.\<close>

definition is_owner :: "(u8 list \<Rightarrow> digest) \<Rightarrow> ms_declaration \<Rightarrow> tree_index \<times> public_key \<times> signature \<Rightarrow> bool" where
  "is_owner blake d x \<longleftrightarrow> (let i = index_to_usize (fst (signer x)) in
     i < length (ms_owners d) \<and> element_hash blake (ms_owners d ! i) = blake (pk_bytes (fst (snd x))))"

lemma identifier_eq: "decl_identifier blake d = owners_to_identifier blake (ms_threshold d) (ms_owners d)"
  by (cases d) (simp add: owners_to_identifier_def)

text \<open>The owners that \<open>verify_identifier_threshold\<close> rebuilds.\<close>

definition rebuilt :: "(u8 list \<Rightarrow> digest) \<Rightarrow> ms_declaration \<Rightarrow> (ms_index \<times> public_key) list \<Rightarrow> nat \<Rightarrow> decl_element" where
  "rebuilt blake d ws j = (case map_of (rev (map (\<lambda>x. (index_to_usize (fst x), snd x)) ws)) j of
     None \<Rightarrow> ms_owners d ! j | Some p \<Rightarrow> element_from_publickey blake p)"

lemma verify_threshold_spec:
  "verify_identifier_threshold blake d ws = Ok () \<longleftrightarrow> unat (ms_threshold d) \<le> length ws
     \<and> (\<forall>x \<in> set ws. index_to_usize (fst x) < length (ms_owners d))
     \<and> owners_to_identifier blake (ms_threshold d) (map (rebuilt blake d ws) [0..<length (ms_owners d)]) = decl_identifier blake d"
proof -
  let ?n = "length (ms_owners d)" and ?m = "map_of (rev (map (\<lambda>x. (index_to_usize (fst x), snd x)) ws))"
  have "map (\<lambda>(v, el). case v of None \<Rightarrow> el | Some p \<Rightarrow> element_from_publickey blake p)
      (zip (map (\<lambda>j. case ?m j of None \<Rightarrow> replicate ?n None ! j | Some p \<Rightarrow> Some p) [0..<?n]) (ms_owners d))
    = map (rebuilt blake d ws) [0..<?n]"
    by (intro nth_equalityI) (auto simp: rebuilt_def split: option.splits)
  then show ?thesis
    using fill_slots_spec [of "replicate ?n None" ws]
    by (auto simp: verify_identifier_threshold_def Let_def not_less)
qed

lemma rebuilt_distinct:
  assumes "distinct (map (\<lambda>x. index_to_usize (fst x)) ws)" and "x \<in> set ws"
  shows "rebuilt blake d ws (index_to_usize (fst x)) = element_from_publickey blake (snd x)"
proof -
  have "map_of (rev (map (\<lambda>x. (index_to_usize (fst x), snd x)) ws)) (index_to_usize (fst x)) = Some (snd x)"
    using assms by (intro map_of_is_SomeI) (auto simp: comp_def rev_map [symmetric])
  then show ?thesis by (simp add: rebuilt_def)
qed
lemma signer_indices:
  assumes "\<forall>x \<in> set w. is_signed vrfy msg x" and "distinct (map fst w)"
  shows "distinct (map (\<lambda>x. index_to_usize (fst x)) (map signer w))"
proof -
  have "fst x = fst y" if h: "x \<in> set w" "y \<in> set w" "index_to_usize (fst (signer x)) = index_to_usize (fst (signer y))" for x y
  proof -
    obtain i j where "fst x = D1 i" "fst y = D1 j" using h(1,2) assms(1) unfolding is_signed_def by blast
    with h(3) show ?thesis by (simp add: signer_def index_to_usize_def ms_index.expand word_unat_eq_iff)
  qed
  moreover have "distinct w" "inj_on fst (set w)" using assms(2) by (simp_all add: distinct_map)
  ultimately have "inj_on (\<lambda>x. index_to_usize (fst (signer x))) (set w)" by (meson inj_on_def)
  then show ?thesis using \<open>distinct w\<close> by (simp add: distinct_map comp_def)
qed

lemma hash_pieces:
  assumes "\<And>s. length (blake s) = 32" and "decl_ok d" and "j < length (ms_owners d)"
  shows "length (element_hash blake (ms_owners d ! j)) = 32" and "length (element_hash blake (rebuilt blake d ws j)) = 32"
proof -
  have "length (element_hash blake el) = 32" if "el \<in> set (ms_owners d)" for el
  proof (cases el)
    case (SubDecl s)
    then show ?thesis using assms(1) by (cases s) simp
  qed (use that assms(2) in \<open>auto simp: decl_ok_def\<close>)
  then show one: "length (element_hash blake (ms_owners d ! j)) = 32" using assms(3) by simp
  show "length (element_hash blake (rebuilt blake d ws j)) = 32"
    using one assms(1) by (auto simp: rebuilt_def element_from_publickey_def split: option.splits)
qed

text \<open>Either the digest function collides, or the witness shows the keys of declared owners.\<close>

lemma ms_verify_sound:
  assumes "\<And>s. length (blake s) = 32" and "decl_ok d" and "distinct (map fst w)" and "ms_verify vrfy blake w d msg"
  shows "(\<exists>a b. a \<noteq> b \<and> blake a = blake b) \<or> (\<forall>x \<in> set w. is_owner blake d x)"
proof (rule disjCI)
  assume free: "\<not> (\<forall>x \<in> set w. is_owner blake d x)"
  show "\<exists>a b. a \<noteq> b \<and> blake a = blake b"
  proof (rule ccontr)
    assume inj: "\<not> (\<exists>a b. a \<noteq> b \<and> blake a = blake b)"
    let ?n = "length (ms_owners d)" and ?ws = "map signer w"
    have sg: "\<forall>x \<in> set w. is_signed vrfy msg x" and v: "verify_identifier_threshold blake d ?ws = Ok ()"
      using assms(4) by (auto simp: ms_verify_def collect_signers_spec split: if_splits)
    let ?r = "map (element_hash blake) (map (rebuilt blake d ?ws) [0..<?n])"
    have "blake (ms_threshold d # concat ?r) = blake (ms_threshold d # concat (map (element_hash blake) (ms_owners d)))"
      using v by (simp add: verify_threshold_spec identifier_eq owners_to_identifier_def)
    then have eq: "concat ?r = concat (map (element_hash blake) (ms_owners d))" using inj by blast
    have "map (element_hash blake) (map (rebuilt blake d ?ws) [0..<?n]) = map (element_hash blake) (ms_owners d)"
    proof (rule equal_pieces [OF eq])
      show "length s = 32" if "s \<in> set (map (element_hash blake) (map (rebuilt blake d ?ws) [0..<?n])) \<union> set (map (element_hash blake) (ms_owners d))" for s
        using that hash_pieces [OF assms(1,2)] by (auto simp: in_set_conv_nth)
    qed simp
    then have piece: "element_hash blake (rebuilt blake d ?ws j) = element_hash blake (ms_owners d ! j)" if "j < ?n" for j
      using that by (metis (no_types, lifting) add.left_neutral diff_zero length_map length_upt nth_map nth_upt)
    have "is_owner blake d x" if x: "x \<in> set w" for x
    proof -
      have lt: "index_to_usize (fst (signer x)) < ?n" using v x by (auto simp: verify_threshold_spec)
      have "rebuilt blake d ?ws (index_to_usize (fst (signer x))) = element_from_publickey blake (snd (signer x))"
        using x by (intro rebuilt_distinct [OF signer_indices [OF sg assms(3)]]) auto
      with piece [OF lt] lt show ?thesis by (auto simp: is_owner_def element_from_publickey_def signer_def)
    qed
    with free show False by blast
  qed
qed

lemma ms_verify_complete:
  assumes "unat (ms_threshold d) \<le> length w" and "\<forall>x \<in> set w. is_signed vrfy msg x \<and> is_owner blake d x"
  shows "ms_verify vrfy blake w d msg"
proof -
  let ?n = "length (ms_owners d)" and ?ws = "map signer w"
  have "element_hash blake (rebuilt blake d ?ws j) = element_hash blake (ms_owners d ! j)" for j
  proof (cases "map_of (rev (map (\<lambda>x. (index_to_usize (fst x), snd x)) ?ws)) j")
    case (Some p)
    then have "(j, p) \<in> set (rev (map (\<lambda>x. (index_to_usize (fst x), snd x)) ?ws))" by (rule map_of_SomeD)
    then obtain x where "x \<in> set w" "j = index_to_usize (fst (signer x))" "p = fst (snd x)" by (auto simp: signer_def)
    then show ?thesis using assms(2) Some by (auto simp: rebuilt_def element_from_publickey_def is_owner_def Let_def)
  qed (simp add: rebuilt_def)
  then have "map (element_hash blake) (map (rebuilt blake d ?ws) [0..<?n]) = map (element_hash blake) (ms_owners d)"
    by (intro nth_equalityI) auto
  then show ?thesis
    using assms by (auto simp: ms_verify_def collect_signers_spec verify_threshold_spec identifier_eq owners_to_identifier_def is_owner_def Let_def)
qed
section \<open>The invariant of the ledger\<close>

text \<open>Every declaration has its account and every account its declaration.\<close>

definition ms_ok :: "digest hasher \<Rightarrow> 'tk hasher \<Rightarrow> ('p, 'tk) ms_ledger \<Rightarrow> bool" where
  "ms_ok hf ht l \<longleftrightarrow> account_ok hf ht (ms_accounts l) \<and> hamt_ok hf (ms_declarations l)
     \<and> dom (hamt_map hf (ms_accounts l)) = dom (hamt_map hf (ms_declarations l))"

lemma ms_new_ok [simp]: "ms_ok hf ht ms_new"
  by (simp add: ms_ok_def ms_new_def)

lemma ms_okD:
  assumes "ms_ok hf ht l"
  shows "account_ok hf ht (ms_accounts l)" and "hamt_ok hf (ms_declarations l)"
    and "hamt_map hf (ms_accounts l) i = None \<longleftrightarrow> hamt_map hf (ms_declarations l) i = None"
  using assms unfolding ms_ok_def by (blast, blast, metis domIff)

lemma ms_fresh: "ms_ok hf ht l \<Longrightarrow> hash_fresh hf (ms_declarations l) i \<longleftrightarrow> hash_fresh hf (ms_accounts l) i"
  by (simp add: ms_ok_def hash_fresh_def)

text \<open>Operations on the accounts of declared identifiers, as one change of the map of accounts.\<close>

lemma ms_step:
  assumes "ms_ok hf ht l" and "account_step hf ht (ms_accounts l) e a" and "hamt_map hf (ms_accounts l) (event_account e) \<noteq> None"
    and "\<And>i. e \<noteq> Close i"
  shows "ms_ok hf ht (l\<lparr>ms_accounts := a\<rparr>) \<and> effective hf ht (ms_accounts l) e a"
proof -
  have eff: "effective hf ht (ms_accounts l) e a" by (rule account_step_effect [OF assms(2) ms_okD(1) [OF assms(1)]])
  then obtain w where w: "hamt_map hf a = (hamt_map hf (ms_accounts l))(event_account e := w)"
    "event_effect e (hamt_map hf (ms_accounts l) (event_account e)) w" "account_ok hf ht a"
    by (auto simp: effective_def)
  have "w \<noteq> None" using w(2) assms(4) by (cases e) auto
  then have "dom (hamt_map hf a) = dom (hamt_map hf (ms_accounts l))" using w(1) assms(3) by auto
  with eff w(3) assms(1) show ?thesis by (simp add: ms_ok_def)
qed

lemma ms_add_account_spec:
  assumes "ms_ok hf ht l" and "hash_fresh hf (ms_accounts l) (decl_identifier blake d)"
  shows "let i = decl_identifier blake d in case declaration_is_valid d of
      Ok _ \<Rightarrow> (case hamt_map hf (ms_declarations l) i of
          Some d' \<Rightarrow> ms_add_account hf blake l d = Err MsAlreadyExist
        | None \<Rightarrow> \<exists>l'. ms_add_account hf blake l d = Ok l' \<and> ms_ok hf ht l'
            \<and> hamt_map hf (ms_declarations l') = (hamt_map hf (ms_declarations l))(i \<mapsto> d)
            \<and> hamt_map hf (ms_accounts l') = (hamt_map hf (ms_accounts l))(i \<mapsto> account_state_new value_zero ()))
    | Err e \<Rightarrow> ms_add_account hf blake l d = Err (DeclarationErr e)
    | Panic \<Rightarrow> False"
proof (cases "declaration_is_valid d")
  case (Ok u)
  let ?i = "decl_identifier blake d"
  note ok = ms_okD [OF assms(1)]
  show ?thesis
  proof (cases "hamt_map hf (ms_declarations l) ?i")
    case None
    obtain ds where ds: "hamt_insert hf (ms_declarations l) ?i d = Ok ds" "hamt_map hf ds = (hamt_map hf (ms_declarations l))(?i \<mapsto> d)" "hamt_ok hf ds"
      using pm.ins_new [OF ok(2) None, of d] assms(2) ms_fresh [OF assms(1)] by blast
    have none: "hamt_map hf (ms_accounts l) ?i = None" using ok(3) None by blast
    obtain a where a: "hamt_insert hf (ms_accounts l) ?i (account_state_new value_zero ()) = Ok a"
      "hamt_map hf a = (hamt_map hf (ms_accounts l))(?i \<mapsto> account_state_new value_zero ())" "hamt_ok hf a"
      using pm.ins_new [OF account_okD(1) [OF ok(1)] none, of "account_state_new value_zero ()"] assms(2) by blast
    have "account_ok hf ht a" using account_ok_upd [OF ok(1) a(3,2)] by auto
    then have "ms_ok hf ht \<lparr>ms_accounts = a, ms_declarations = ds\<rparr>" using a ds assms(1) by (auto simp: ms_ok_def)
    then show ?thesis using Ok None a ds by (simp add: ms_add_account_def add_account_def Let_def)
  next
    case (Some d')
    then show ?thesis using Ok pm.ins_old [OF ok(2) Some, of d] by (simp add: ms_add_account_def Let_def)
  qed
next
  case (Err e)
  then show ?thesis by (simp add: ms_add_account_def Let_def)
qed (simp add: declaration_is_valid_def split: if_splits)

lemma ms_remove_account_spec:
  assumes "ms_ok hf ht l"
  shows "case hamt_map hf (ms_accounts l) i of
      None \<Rightarrow> ms_remove_account hf l i = Err DoesntExist
    | Some st \<Rightarrow> if acc_value st = value_zero
        then \<exists>l'. ms_remove_account hf l i = Ok l' \<and> ms_ok hf ht l'
          \<and> hamt_map hf (ms_declarations l') = (hamt_map hf (ms_declarations l))(i := None)
          \<and> hamt_map hf (ms_accounts l') = (hamt_map hf (ms_accounts l))(i := None)
        else ms_remove_account hf l i = Err (AccountErr NonZero)"
proof (cases "hamt_map hf (ms_accounts l) i")
  case None
  then have "hamt_map hf (ms_declarations l) i = None" using ms_okD(3) [OF assms] by blast
  then show ?thesis using None hamt_remove_ok [OF ms_okD(2) [OF assms], of i] by (simp add: ms_remove_account_def)
next
  case (Some st)
  then obtain d where d: "hamt_map hf (ms_declarations l) i = Some d" using ms_okD(3) [OF assms, of i] by (cases "hamt_map hf (ms_declarations l) i") auto
  then obtain ds where ds: "hamt_remove hf (ms_declarations l) i = Ok ds" "hamt_ok hf ds" "hamt_map hf ds = (hamt_map hf (ms_declarations l))(i := None)"
    using hamt_remove_ok [OF ms_okD(2) [OF assms], of i] by auto
  let ?f = "\<lambda>st. if acc_value st = value_zero then Ok None else Err NonZero"
  note u = account_update [OF ms_okD(1) [OF assms], of i ?f]
  show ?thesis
  proof (cases "acc_value st = value_zero")
    case True
    then obtain a where a: "remove_account hf (ms_accounts l) i = Ok a" "hamt_map hf a = (hamt_map hf (ms_accounts l))(i := None)" "hamt_ok hf a"
      using u Some by (auto simp: remove_account_def)
    have "account_ok hf ht a" using account_ok_upd [OF ms_okD(1) [OF assms] a(3,2)] by auto
    then have "ms_ok hf ht \<lparr>ms_accounts = a, ms_declarations = ds\<rparr>" using a ds assms by (auto simp: ms_ok_def)
    then show ?thesis using Some True a ds by (simp add: ms_remove_account_def)
  next
    case False
    then have "remove_account hf (ms_accounts l) i = Err NonZero" using u Some by (simp add: remove_account_def)
    then show ?thesis using Some False ds by (simp add: ms_remove_account_def)
  qed
qed
section \<open>Properties\<close>


definition sample_blake :: "u8 list \<Rightarrow> digest" where
  "sample_blake s = take 32 (s @ replicate 32 0)"

definition sample_declaration :: ms_declaration where
  "sample_declaration = Declaration 1 [OwnerDecl (sample_blake [4]), OwnerDecl (sample_blake [6])]"


text \<open>
  C28. The wire format of multisig witnesses: the reader takes one element more than the count in front of
  them says, so it accepts exactly the encodings whose count is one too small, with their indices in
  order, and no witness that \<open>serialize\<close> writes can be read back. A packed index unpacks to itself
  if its parts fit three bits; the constructor of indices also lets the value 8 through, which packs like
  another index.
\<close>

theorem multisig_wire:
  "(read_from_raw ms_witness_read bs = Ok w \<longleftrightarrow> ms_witness_ok w \<and> bs = of_nat (length w - 1) # concat (map element_bytes w))
   \<and> ((\<forall>x \<in> set w. element_ok x) \<and> length w < 256 \<longrightarrow>
       (\<exists>out. ms_witness_serialize w [] = Ok out \<and> (\<forall>w'. read_from_raw ms_witness_read out \<noteq> Ok w')))
   \<and> (small_index ti \<longrightarrow> obind (tree_pack ti) (\<lambda>p. Ok (tree_unpack p)) = (Ok (Some ti) :: ('e, _) outcome))
   \<and> index_from_u8 8 = Some (Index 8)
   \<and> tree_pack (D1 (Index 8)) = (tree_pack (D2 (Index 0) (Index 0)) :: ('e, _) outcome)"
proof (intro conjI impI)
  show raw: "read_from_raw ms_witness_read bs = Ok w \<longleftrightarrow> ms_witness_ok w \<and> bs = of_nat (length w - 1) # concat (map element_bytes w)" for bs w
    by (rule canonical_format.read_from_raw_iff [OF ms_witness_format])
  assume w: "(\<forall>x \<in> set w. element_ok x) \<and> length w < 256"
  let ?out = "of_nat (length w) # concat (map element_bytes w)"
  have "ms_witness_serialize w [] = Ok ?out"
    using w by (simp add: ms_witness_serialize_def codec_put_u8_def write_all_def serialize_elements_bytes)
  moreover have "read_from_raw ms_witness_read ?out \<noteq> Ok w'" for w'
  proof
    assume "read_from_raw ms_witness_read ?out = Ok w'"
    then have w': "ms_witness_ok w'" and eq: "(of_nat (length w) :: u8) = of_nat (length w' - 1)"
      and bytes: "concat (map element_bytes w) = concat (map element_bytes w')" unfolding raw by auto
    have "length w = length w'"
      using arg_cong [OF bytes, of length] w w' by (simp add: elements_length ms_witness_ok_def)
    moreover have "length w' - 1 < 2 ^ 8" "length w < 2 ^ 8" using w w' by (auto simp: ms_witness_ok_def)
    then have "unat (of_nat (length w) :: u8) = length w" "unat (of_nat (length w' - 1) :: u8) = length w' - 1"
      by (intro unat_of_nat_id; simp)+
    then have "length w = length w' - 1" using eq by metis
    moreover have "2 \<le> length w'" using w' by (simp add: ms_witness_ok_def)
    ultimately show False by arith
  qed
  ultimately show "\<exists>out. ms_witness_serialize w [] = Ok out \<and> (\<forall>w'. read_from_raw ms_witness_read out \<noteq> Ok w')" by blast
next
  assume s: "small_index ti"
  then obtain p where "tree_pack ti = (Ok p :: ('e, _) outcome)" "unat p = index_number ti"
    using pack_number [of ti, where 'e = 'e] by (auto simp: small_index_def less_imp_le)
  then show "obind (tree_pack ti) (\<lambda>p. Ok (tree_unpack p)) = (Ok (Some ti) :: ('e, _) outcome)" using s by (simp add: unpack_number)
next
  show "index_from_u8 8 = Some (Index 8)" by (simp add: index_from_u8_def LEVEL_MAXLIMIT_def)
  obtain x y where "tree_pack (D1 (Index 8)) = (Ok x :: ('e, _) outcome)" "tree_pack (D2 (Index 0) (Index 0)) = (Ok y :: ('e, _) outcome)"
    "unat x = 8192" "unat y = 8192"
    using pack_number [of "D1 (Index 8)", where 'e = 'e] pack_number [of "D2 (Index 0) (Index 0)", where 'e = 'e]
    by (auto simp: index_number_def index_to_usize_def)
  then show "tree_pack (D1 (Index 8)) = (tree_pack (D2 (Index 0) (Index 0)) :: ('e, _) outcome)" by (metis word_unat_eq_iff)
qed

theorem multisig_wire_witness:
  "\<forall>w'. read_from_raw ms_witness_read (1 # [0x12, 0] @ replicate 32 1 @ replicate 64 2) \<noteq> Ok w'"
proof -
  let ?w = "[(D1 (Index 1), PublicKey (replicate 32 1), Signature (replicate 64 2))]"
  have "\<forall>x \<in> set ?w. element_ok x" by (simp add: element_ok_def key_ok_def sig_ok_def small_index_def index_to_usize_def)
  moreover have "ms_witness_serialize ?w [] = Ok (1 # [0x12, 0] @ replicate 32 1 @ replicate 64 2)" by code_simp
  ultimately show ?thesis using multisig_wire [of "[]" ?w, where 'e = unit] by simp
qed

text \<open>
  The ledger of multisig accounts keeps a declaration for every account: a valid declaration with an
  unused identifier opens an empty account, an account can only be closed when it holds nothing, and
  both maps change at the one identifier only; an invalid declaration, a used identifier, an unknown
  identifier and a value left are reported as such.
\<close>

theorem multisig_accounts_correct:
  assumes "ms_ok hf ht l"
  shows "(hash_fresh hf (ms_accounts l) (decl_identifier blake d) \<longrightarrow>
      (case declaration_is_valid d of
         Ok _ \<Rightarrow> (case hamt_map hf (ms_declarations l) (decl_identifier blake d) of
            Some d' \<Rightarrow> ms_add_account hf blake l d = Err MsAlreadyExist
          | None \<Rightarrow> \<exists>l'. ms_add_account hf blake l d = Ok l' \<and> ms_ok hf ht l'
              \<and> hamt_map hf (ms_declarations l') = (hamt_map hf (ms_declarations l))(decl_identifier blake d \<mapsto> d)
              \<and> hamt_map hf (ms_accounts l') = (hamt_map hf (ms_accounts l))(decl_identifier blake d \<mapsto> account_state_new value_zero ()))
       | Err e \<Rightarrow> ms_add_account hf blake l d = Err (DeclarationErr e)
       | Panic \<Rightarrow> False))
    \<and> (case hamt_map hf (ms_accounts l) i of
         None \<Rightarrow> ms_remove_account hf l i = Err DoesntExist
       | Some st \<Rightarrow> if acc_value st = value_zero
           then \<exists>l'. ms_remove_account hf l i = Ok l' \<and> ms_ok hf ht l'
             \<and> hamt_map hf (ms_declarations l') = (hamt_map hf (ms_declarations l))(i := None)
             \<and> hamt_map hf (ms_accounts l') = (hamt_map hf (ms_accounts l))(i := None)
           else ms_remove_account hf l i = Err (AccountErr NonZero))"
  using ms_add_account_spec [OF assms, of blake d] ms_remove_account_spec [OF assms, of i] by (simp add: Let_def)

theorem multisig_accounts_correct_witness:
  "\<exists>l'. ms_add_account (\<lambda>_. 0) sample_blake (ms_new :: (unit, unit) ms_ledger) sample_declaration = Ok l' \<and> ms_ok (\<lambda>_. 0) (\<lambda>_. 0) l'"
proof -
  have v: "declaration_is_valid sample_declaration = Ok ()" by code_simp
  have "ms_ok (\<lambda>_. 0) (\<lambda>_. 0) (ms_new :: (unit, unit) ms_ledger)" by simp
  from multisig_accounts_correct [OF this, of sample_blake sample_declaration "[]"] v show ?thesis
    by (auto simp: ms_new_def account_new_def)
qed

end
