(* ===== verification/Pools.thy ===== *)
theory Pools
  imports Pool_Cert Stake Utxo
begin

text \<open>
  Stake pools and the distribution of stake (\<open>stake/\<close>, \<open>ledger/leaderlog.rs\<close>, \<open>ledger/reward_info.rs\<close>): the
  stake each account controls, the registered pools, the distribution of the stake of accounts and
  unspent outputs over the pools, the record of the blocks each pool made, and the report about an
  epoch's rewards.

  A \<open>HashMap\<close> is an association list without repeated keys; its order is the order of iteration, which
  the sources do not rely on. The digest function and the hash functions of the tries are parameters.
\<close>

section \<open>Stake controlled by accounts\<close>

record stake_control =
  sc_assigned :: stake
  sc_unassigned :: stake
  sc_control :: "(acc_identifier, stake) hamt"

definition control_new :: stake_control where
  "control_new = \<lparr>sc_assigned = Stake 0, sc_unassigned = Stake 0, sc_control = hamt_new\<rparr>"

definition control_total :: "stake_control \<Rightarrow> ('e, stake) outcome" where
  "control_total sc = stake_add (sc_assigned sc) (sc_unassigned sc)"

definition control_by :: "acc_identifier hasher \<Rightarrow> stake_control \<Rightarrow> acc_identifier \<Rightarrow> ('e, stake option) outcome" where
  "control_by hf sc i = hamt_lookup hf (sc_control sc) i"

text \<open>\<open>NonZeroU64::new_unchecked\<close> of zero is undefined behaviour, which is counted as a panic here.\<close>

definition control_ratio_by :: "acc_identifier hasher \<Rightarrow> stake_control \<Rightarrow> acc_identifier \<Rightarrow> ('e, ratio) outcome" where
  "control_ratio_by hf sc i =
     obind (control_by hf sc i) (\<lambda>r. case r of
        Some s \<Rightarrow> obind (require (stake_amount (sc_assigned sc) \<noteq> 0)) (\<lambda>_.
          Ok \<lparr>numerator = stake_amount s, denominator = stake_amount (sc_assigned sc)\<rparr>)
      | None \<Rightarrow> Ok ratio_zero)"

definition add_unassigned :: "stake_control \<Rightarrow> stake \<Rightarrow> stake_control" where
  "add_unassigned sc s = sc\<lparr>sc_unassigned := stake_wrapping_add (sc_unassigned sc) s\<rparr>"

definition remove_unassigned :: "stake_control \<Rightarrow> stake \<Rightarrow> stake_control" where
  "remove_unassigned sc s = sc\<lparr>sc_unassigned := stake_wrapping_sub (sc_unassigned sc) s\<rparr>"

definition add_to :: "acc_identifier hasher \<Rightarrow> stake_control \<Rightarrow> acc_identifier \<Rightarrow> stake \<Rightarrow> ('e, stake_control) outcome" where
  "add_to hf sc i s =
     obind (unwrap (hamt_insert_or_update_simple hf (sc_control sc) i s (\<lambda>v. stake_checked_add v s))) (\<lambda>control.
     Ok (sc\<lparr>sc_control := control, sc_assigned := stake_wrapping_add (sc_assigned sc) s\<rparr>))"

text \<open>The \<open>debug_assert!(false, ..)\<close> of a missing account is a panic.\<close>

definition remove_from :: "acc_identifier hasher \<Rightarrow> stake_control \<Rightarrow> acc_identifier \<Rightarrow> stake \<Rightarrow> ('e, stake_control) outcome" where
  "remove_from hf sc i s =
     obind (unwrap (hamt_update hf (sc_control sc) i (\<lambda>v. Ok (stake_checked_sub v s) :: (unit, _) outcome))) (\<lambda>control.
     Ok (sc\<lparr>sc_control := control, sc_assigned := stake_wrapping_sub (sc_assigned sc) s\<rparr>))"

type_synonym accounts = "(acc_identifier, digest, digest, unit) account_ledger"
type_synonym utxos = "(digest, address) utxo_ledger"

fun update_accounts_loop ::
  "acc_identifier hasher \<Rightarrow> stake_control \<Rightarrow> (acc_identifier \<times> (digest, digest, unit) account_state) list \<Rightarrow> ('e, stake_control) outcome" where
  "update_accounts_loop hf sc [] = Ok sc"
| "update_accounts_loop hf sc ((i, st) # as) =
     obind (add_to hf sc i (stake_from_value (acc_value st))) (\<lambda>sc. update_accounts_loop hf sc as)"

definition update_accounts :: "acc_identifier hasher \<Rightarrow> stake_control \<Rightarrow> accounts \<Rightarrow> ('e, stake_control) outcome" where
  "update_accounts hf sc as = update_accounts_loop hf sc (hamt_iter as)"

fun update_utxos_loop :: "acc_identifier hasher \<Rightarrow> stake_control \<Rightarrow> address tx_output list \<Rightarrow> ('e, stake_control) outcome" where
  "update_utxos_loop hf sc [] = Ok sc"
| "update_utxos_loop hf sc (o' # os) =
     (let s = stake_from_value (out_value o') in
      obind (case addr_kind (out_address o') of
          AccountKind _ \<Rightarrow> Panic
        | Multisig _ \<Rightarrow> Panic
        | Script _ \<Rightarrow> Panic
        | Group _ account_key \<Rightarrow> add_to hf sc (Identifier account_key) s
        | Single _ \<Rightarrow> Ok (add_unassigned sc s))
        (\<lambda>sc. update_utxos_loop hf sc os))"

definition update_utxos :: "acc_identifier hasher \<Rightarrow> stake_control \<Rightarrow> utxos \<Rightarrow> ('e, stake_control) outcome" where
  "update_utxos hf sc us = obind (unwrap (utxo_all_values us)) (\<lambda>os. update_utxos_loop hf sc os)"

definition control_new_with :: "acc_identifier hasher \<Rightarrow> accounts \<Rightarrow> utxos \<Rightarrow> ('e, stake_control) outcome" where
  "control_new_with hf as us = obind (update_accounts hf control_new as) (\<lambda>sc. update_utxos hf sc us)"

section \<open>The registered pools\<close>

record pool_last_rewards =
  plr_epoch :: epoch
  plr_value_taxed :: val
  plr_value_for_stakers :: val

definition pool_last_rewards_default :: pool_last_rewards where
  "pool_last_rewards_default = \<lparr>plr_epoch = 0, plr_value_taxed = value_zero, plr_value_for_stakers = value_zero\<rparr>"

record pool_state =
  pool_rewards :: pool_last_rewards
  pool_reg :: pool_registration

definition pool_state_new :: "pool_registration \<Rightarrow> pool_state" where
  "pool_state_new reg = \<lparr>pool_rewards = pool_last_rewards_default, pool_reg = reg\<rparr>"

definition current_pool_registration_hash :: "(u8 list \<Rightarrow> digest) \<Rightarrow> pool_state \<Rightarrow> ('e, digest) outcome" where
  "current_pool_registration_hash blake st = registration_to_id blake (pool_reg st)"

type_synonym pools_state = "(digest, pool_state) hamt"

datatype pool_error = PoolAlreadyExists digest | PoolNotFound digest

definition pools_new :: pools_state where
  "pools_new = hamt_new"

definition pools_lookup :: "digest hasher \<Rightarrow> pools_state \<Rightarrow> digest \<Rightarrow> ('e, pool_state option) outcome" where
  "pools_lookup hf ps i = hamt_lookup hf ps i"

definition pools_lookup_reg :: "digest hasher \<Rightarrow> pools_state \<Rightarrow> digest \<Rightarrow> ('e, pool_registration option) outcome" where
  "pools_lookup_reg hf ps i = omap (map_option pool_reg) (hamt_lookup hf ps i)"

definition stake_pool_ids :: "pools_state \<Rightarrow> digest list" where
  "stake_pool_ids ps = map fst (hamt_iter ps)"

definition stake_pool_exists :: "digest hasher \<Rightarrow> pools_state \<Rightarrow> digest \<Rightarrow> ('e, bool) outcome" where
  "stake_pool_exists hf ps i = omap (\<lambda>r. r \<noteq> None) (hamt_lookup hf ps i)"

definition stake_pool_get_state :: "digest hasher \<Rightarrow> pools_state \<Rightarrow> digest \<Rightarrow> (pool_error, pool_state) outcome" where
  "stake_pool_get_state hf ps i = obind (hamt_lookup hf ps i) (ok_or (PoolNotFound i))"

definition stake_pool_set_state :: "digest hasher \<Rightarrow> pools_state \<Rightarrow> digest \<Rightarrow> pool_state \<Rightarrow> (pool_error, pools_state) outcome" where
  "stake_pool_set_state hf ps i st = map_err (\<lambda>_. PoolNotFound i) (omap fst (hamt_replace hf ps i st))"

definition stake_pool_get :: "digest hasher \<Rightarrow> pools_state \<Rightarrow> digest \<Rightarrow> (pool_error, pool_registration) outcome" where
  "stake_pool_get hf ps i = omap pool_reg (obind (hamt_lookup hf ps i) (ok_or (PoolNotFound i)))"

definition stake_pool_set_rewards ::
  "digest hasher \<Rightarrow> pools_state \<Rightarrow> digest \<Rightarrow> epoch \<Rightarrow> val \<Rightarrow> val \<Rightarrow> (pool_error, pools_state) outcome" where
  "stake_pool_set_rewards hf ps i ep value_taxed value_for_stakers =
     (let rw = \<lparr>plr_epoch = ep, plr_value_taxed = value_taxed, plr_value_for_stakers = value_for_stakers\<rparr> in
      map_err (\<lambda>_. PoolNotFound i) (hamt_replace_with hf ps i (\<lambda>st. st\<lparr>pool_rewards := rw\<rparr>)))"

definition register_stake_pool ::
  "digest hasher \<Rightarrow> (u8 list \<Rightarrow> digest) \<Rightarrow> pools_state \<Rightarrow> pool_registration \<Rightarrow> (pool_error, pools_state) outcome" where
  "register_stake_pool hf blake ps owner =
     obind (registration_to_id blake owner) (\<lambda>i.
     map_err (\<lambda>_. PoolAlreadyExists i) (hamt_insert hf ps i (pool_state_new owner)))"

definition deregister_stake_pool :: "digest hasher \<Rightarrow> pools_state \<Rightarrow> digest \<Rightarrow> (pool_error, pools_state) outcome" where
  "deregister_stake_pool hf ps i = map_err (\<lambda>_. PoolNotFound i) (hamt_remove hf ps i)"

section \<open>The distribution of stake\<close>

record pool_stake_distribution =
  psd_total :: stake
  psd_accounts :: "(acc_identifier \<times> stake) list"

definition psd_new :: pool_stake_distribution where
  "psd_new = \<lparr>psd_total = Stake 0, psd_accounts = []\<rparr>"

definition psd_add :: "pool_stake_distribution \<Rightarrow> acc_identifier \<Rightarrow> stake \<Rightarrow> ('e, pool_stake_distribution) outcome" where
  "psd_add d i s =
     obind (case map_of (psd_accounts d) i of None \<Rightarrow> Ok s | Some c \<Rightarrow> stake_add c s) (\<lambda>c.
     obind (stake_add (psd_total d) s) (\<lambda>t.
     Ok (d\<lparr>psd_accounts := AList.update i c (psd_accounts d), psd_total := t\<rparr>)))"

definition psd_to_total :: "pool_stake_distribution \<Rightarrow> ('e, stake) outcome" where
  "psd_to_total d = stake_sum (map snd (psd_accounts d))"

record pool_stake_information =
  psi_registration :: "pool_registration option"
  psi_stake :: pool_stake_distribution

definition psi_add_value :: "pool_stake_information \<Rightarrow> acc_identifier \<Rightarrow> stake \<Rightarrow> ('e, pool_stake_information) outcome" where
  "psi_add_value p i s = obind (psd_add (psi_stake p) i s) (\<lambda>d. Ok (p\<lparr>psi_stake := d\<rparr>))"

record stake_distribution =
  sd_unassigned :: stake
  sd_dangling :: stake
  sd_to_pools :: "(digest \<times> pool_stake_information) list"

definition sd_empty :: stake_distribution where
  "sd_empty = \<lparr>sd_unassigned = Stake 0, sd_dangling = Stake 0, sd_to_pools = []\<rparr>"

definition get_total_stake :: "stake_distribution \<Rightarrow> ('e, stake) outcome" where
  "get_total_stake sd = stake_sum (map (\<lambda>(_, psi). psd_total (psi_stake psi)) (sd_to_pools sd))"

definition eligible_stake_pools :: "stake_distribution \<Rightarrow> nat" where
  "eligible_stake_pools sd = length (sd_to_pools sd)"

definition get_stake_for :: "stake_distribution \<Rightarrow> digest \<Rightarrow> stake option" where
  "get_stake_for sd i = map_option (\<lambda>psi. psd_total (psi_stake psi)) (map_of (sd_to_pools sd) i)"

definition pool_distribution :: "stake_distribution \<Rightarrow> digest \<Rightarrow> pool_stake_information option" where
  "pool_distribution sd i = map_of (sd_to_pools sd) i"

definition add_unassigned_stake :: "stake_distribution \<Rightarrow> stake \<Rightarrow> ('e, stake_distribution) outcome" where
  "add_unassigned_stake sd v = obind (stake_add (sd_unassigned sd) v) (\<lambda>u. Ok (sd\<lparr>sd_unassigned := u\<rparr>))"

definition add_dangling_stake :: "stake_distribution \<Rightarrow> stake \<Rightarrow> ('e, stake_distribution) outcome" where
  "add_dangling_stake sd v = obind (stake_add (sd_dangling sd) v) (\<lambda>u. Ok (sd\<lparr>sd_dangling := u\<rparr>))"

text \<open>\<open>to_pools.get_mut(pool_id)\<close> and adding to it.\<close>

definition add_pool_stake ::
  "stake_distribution \<Rightarrow> digest \<Rightarrow> pool_stake_information \<Rightarrow> acc_identifier \<Rightarrow> stake \<Rightarrow> ('e, stake_distribution) outcome" where
  "add_pool_stake sd p psi i v =
     obind (psi_add_value psi i v) (\<lambda>psi'. Ok (sd\<lparr>sd_to_pools := AList.update p psi' (sd_to_pools sd)\<rparr>))"

text \<open>The loop over the pools of a ratio; \<open>r\<close> is what is left of the division and not yet assigned.\<close>

fun assign_ratio ::
  "stake_distribution \<Rightarrow> acc_identifier \<Rightarrow> stake_unit \<Rightarrow> stake \<Rightarrow> (digest \<times> u8) list \<Rightarrow> ('e, stake_distribution \<times> stake) outcome" where
  "assign_ratio sd i ps r [] = Ok (sd, r)"
| "assign_ratio sd i ps r ((pool_id, rt) # pools) =
     obind (stake_unit_scale ps (ucast rt)) (\<lambda>pool_value.
       case map_of (sd_to_pools sd) pool_id of
         None \<Rightarrow> obind (add_dangling_stake sd pool_value) (\<lambda>sd. assign_ratio sd i ps r pools)
       | Some psi \<Rightarrow>
           obind (stake_add pool_value r) (\<lambda>v.
           obind (add_pool_stake sd pool_id psi i v) (\<lambda>sd. assign_ratio sd i ps stake_zero pools)))"

definition assign_account_value ::
  "stake_distribution \<Rightarrow> acc_identifier \<Rightarrow> digest delegation_type \<Rightarrow> stake \<Rightarrow> ('e, stake_distribution) outcome" where
  "assign_account_value sd i delegation v =
     (case delegation of
        NonDelegated \<Rightarrow> add_unassigned_stake sd v
      | Full pool_id \<Rightarrow>
          (case map_of (sd_to_pools sd) pool_id of
             None \<Rightarrow> add_dangling_stake sd v
           | Some psi \<Rightarrow> add_pool_stake sd pool_id psi i v)
      | Ratio dr \<Rightarrow>
          obind (delegation_ratio_is_valid dr) (\<lambda>valid.
            if valid then
              obind (stake_split_in v (ucast (dr_parts dr))) (\<lambda>sin.
              obind (assign_ratio sd i (stake_parts sin) (stake_remaining sin) (dr_pools dr)) (\<lambda>(sd, r).
                if r > stake_zero then add_dangling_stake sd r else Ok sd))
            else add_unassigned_stake sd v))"

fun distribute_accounts ::
  "stake_distribution \<Rightarrow> (acc_identifier \<times> (digest, digest, unit) account_state) list \<Rightarrow> ('e, stake_distribution) outcome" where
  "distribute_accounts sd [] = Ok sd"
| "distribute_accounts sd ((i, st) # as) =
     obind (assign_account_value sd i (acc_delegation st) (stake_from_value (acc_value st))) (\<lambda>sd. distribute_accounts sd as)"

fun distribute_utxos ::
  "acc_identifier hasher \<Rightarrow> accounts \<Rightarrow> stake_distribution \<Rightarrow> address tx_output list \<Rightarrow> ('e, stake_distribution) outcome" where
  "distribute_utxos hf as sd [] = Ok sd"
| "distribute_utxos hf as sd (o' # os) =
     obind (case addr_kind (out_address o') of
         AccountKind _ \<Rightarrow> Panic
       | Multisig _ \<Rightarrow> Panic
       | Script _ \<Rightarrow> Panic
       | Group _ account_key \<Rightarrow>
           obind (unwrap (get_state hf as (Identifier account_key))) (\<lambda>st.
           assign_account_value sd (Identifier account_key) (acc_delegation st) (stake_from_value (out_value o')))
       | Single _ \<Rightarrow> add_unassigned_stake sd (stake_from_value (out_value o')))
       (\<lambda>sd. distribute_utxos hf as sd os)"

definition initial_distribution :: "pools_state \<Rightarrow> stake_distribution" where
  "initial_distribution ps = \<lparr>sd_unassigned = Stake 0, sd_dangling = Stake 0,
     sd_to_pools = map (\<lambda>(i, st). (i, \<lparr>psi_registration = Some (pool_reg st), psi_stake = psd_new\<rparr>)) (hamt_iter ps)\<rparr>"

definition get_distribution :: "acc_identifier hasher \<Rightarrow> accounts \<Rightarrow> pools_state \<Rightarrow> utxos \<Rightarrow> ('e, stake_distribution) outcome" where
  "get_distribution hf as dstate us =
     obind (distribute_accounts (initial_distribution dstate) (hamt_iter as)) (\<lambda>sd.
     obind (unwrap (utxo_all_values us)) (\<lambda>os. distribute_utxos hf as sd os))"

section \<open>The blocks each pool made\<close>

record leaders_log =
  ll_total :: u32
  ll_log :: "(digest, u32) hamt"

definition leaders_new :: leaders_log where
  "leaders_new = \<lparr>ll_total = 0, ll_log = hamt_new\<rparr>"

definition nb_participants :: "leaders_log \<Rightarrow> nat" where
  "nb_participants l = hamt_size (ll_log l)"

text \<open>The closure \<open>v + 1\<close> panics on overflow.\<close>

definition increase_for :: "digest hasher \<Rightarrow> leaders_log \<Rightarrow> digest \<Rightarrow> ('e, leaders_log) outcome" where
  "increase_for hf l p =
     obind (padd (ll_total l) 1) (\<lambda>t.
     obind (unwrap (hamt_insert_or_update hf (ll_log l) p 1 (\<lambda>v. omap Some (padd v 1) :: (unit, _) outcome))) (\<lambda>m.
     Ok (l\<lparr>ll_total := t, ll_log := m\<rparr>)))"

definition set_for :: "digest hasher \<Rightarrow> leaders_log \<Rightarrow> digest \<Rightarrow> u32 \<Rightarrow> (insert_error, leaders_log) outcome" where
  "set_for hf l p v =
     obind (hamt_insert hf (ll_log l) p v) (\<lambda>m.
     obind (padd (ll_total l) v) (\<lambda>t. Ok (l\<lparr>ll_log := m, ll_total := t\<rparr>)))"

section \<open>The report about an epoch's rewards\<close>

record rewards_info_parameters =
  report_stake_pools :: bool
  report_accounts :: bool

definition report_all :: rewards_info_parameters where
  "report_all = \<lparr>report_stake_pools = True, report_accounts = True\<rparr>"

record epoch_rewards_info =
  eri_params :: rewards_info_parameters
  eri_drawn :: val
  eri_fees :: val
  eri_treasury :: val
  eri_stake_pools :: "digest \<rightharpoonup> val \<times> val"
  eri_accounts :: "acc_identifier \<rightharpoonup> val"

definition rewards_info_new :: "rewards_info_parameters \<Rightarrow> epoch_rewards_info" where
  "rewards_info_new params = \<lparr>eri_params = params, eri_drawn = value_zero, eri_fees = value_zero, eri_treasury = value_zero,
     eri_stake_pools = Map.empty, eri_accounts = Map.empty\<rparr>"

definition set_treasury :: "epoch_rewards_info \<Rightarrow> val \<Rightarrow> ('e, epoch_rewards_info) outcome" where
  "set_treasury ri v = obind (require (eri_treasury ri = value_zero)) (\<lambda>_. Ok (ri\<lparr>eri_treasury := v\<rparr>))"

definition set_stake_pool :: "epoch_rewards_info \<Rightarrow> digest \<Rightarrow> val \<Rightarrow> val \<Rightarrow> epoch_rewards_info" where
  "set_stake_pool ri p owned distributed =
     (if report_stake_pools (eri_params ri) then ri\<lparr>eri_stake_pools := (eri_stake_pools ri)(p \<mapsto> (owned, distributed))\<rparr> else ri)"

definition add_to_account :: "epoch_rewards_info \<Rightarrow> acc_identifier \<Rightarrow> val \<Rightarrow> ('e, epoch_rewards_info) outcome" where
  "add_to_account ri i v =
     (if report_accounts (eri_params ri) then
        obind (unwrap (value_add (case eri_accounts ri i of None \<Rightarrow> value_zero | Some e \<Rightarrow> e) v)) (\<lambda>n.
        Ok (ri\<lparr>eri_accounts := (eri_accounts ri)(i \<mapsto> n)\<rparr>))
      else Ok ri)"

definition rewards_info_total :: "epoch_rewards_info \<Rightarrow> ('e, val) outcome" where
  "rewards_info_total ri = unwrap (value_add (eri_drawn ri) (eri_fees ri))"

section \<open>Sums over association lists\<close>

lemma sum_update_alist:
  fixes f :: "'v \<Rightarrow> nat"
  assumes "distinct (map fst al)"
  shows "(\<Sum>x \<leftarrow> AList.update k v al. f (snd x)) + (case map_of al k of None \<Rightarrow> 0 | Some w \<Rightarrow> f w) = (\<Sum>x \<leftarrow> al. f (snd x)) + f v"
  using assms by (induction al) auto

lemma assoc_le_sum:
  fixes f :: "'v \<Rightarrow> nat"
  shows "map_of al k = Some v \<Longrightarrow> f v \<le> (\<Sum>x \<leftarrow> al. f (snd x))"
  by (induction al) (auto split: if_splits)

section \<open>Stake is neither lost nor made by the distribution\<close>

definition psd_ok :: "pool_stake_distribution \<Rightarrow> bool" where
  "psd_ok d \<longleftrightarrow> distinct (map fst (psd_accounts d)) \<and> units (psd_total d) = (\<Sum>x \<leftarrow> psd_accounts d. units (snd x))"

definition sd_ok :: "stake_distribution \<Rightarrow> bool" where
  "sd_ok sd \<longleftrightarrow> distinct (map fst (sd_to_pools sd)) \<and> (\<forall>x \<in> set (sd_to_pools sd). psd_ok (psi_stake (snd x)))"

definition stake_total :: "stake_distribution \<Rightarrow> nat" where
  "stake_total sd = units (sd_unassigned sd) + units (sd_dangling sd) + (\<Sum>x \<leftarrow> sd_to_pools sd. units (psd_total (psi_stake (snd x))))"

text \<open>The pools of a distribution with their registrations.\<close>

definition pools_of :: "stake_distribution \<Rightarrow> (digest \<times> pool_registration option) list" where
  "pools_of sd = map (\<lambda>x. (fst x, psi_registration (snd x))) (sd_to_pools sd)"

text \<open>A step that adds exactly \<open>n\<close> units, and panics only if that is more than a word holds.\<close>

definition adds :: "stake_distribution \<Rightarrow> nat \<Rightarrow> ('e, stake_distribution) outcome \<Rightarrow> bool" where
  "adds sd n r \<longleftrightarrow> (case r of
     Ok sd' \<Rightarrow> sd_ok sd' \<and> stake_total sd' = stake_total sd + n \<and> pools_of sd' = pools_of sd
   | Err e \<Rightarrow> False
   | Panic \<Rightarrow> 2 ^ 64 \<le> stake_total sd + n)"

lemma adds_simps [simp]:
  "adds sd n (Ok sd' :: ('e, _) outcome) \<longleftrightarrow> sd_ok sd' \<and> stake_total sd' = stake_total sd + n \<and> pools_of sd' = pools_of sd"
  "\<not> adds sd n (Err e :: ('e, _) outcome)"
  "adds sd n (Panic :: ('e, _) outcome) \<longleftrightarrow> 2 ^ 64 \<le> stake_total sd + n"
  by (simp_all add: adds_def)

lemma adds_obind:
  assumes "adds sd n r" and "\<And>sd'. r = Ok sd' \<Longrightarrow> adds sd n (Ok sd' :: ('e, _) outcome) \<Longrightarrow> adds sd' m (f sd')"
  shows "adds sd (n + m) (obind r f :: ('e, _) outcome)"
proof (cases r)
  case (Ok sd')
  then have sd': "adds sd n (Ok sd' :: ('e, _) outcome)" using assms(1) by simp
  with assms(2) [OF Ok sd'] Ok show ?thesis by (cases "f sd'") (auto simp: add.assoc)
qed (use assms(1) in auto)

lemma add_unassigned_adds: "sd_ok sd \<Longrightarrow> adds sd (units v) (add_unassigned_stake sd v :: ('e, _) outcome)"
  by (cases rule: stake_add_cases [of "sd_unassigned sd" v, where 'e = 'e])
     (auto simp: add_unassigned_stake_def sd_ok_def stake_total_def pools_of_def)

lemma add_dangling_adds: "sd_ok sd \<Longrightarrow> adds sd (units v) (add_dangling_stake sd v :: ('e, _) outcome)"
  by (cases rule: stake_add_cases [of "sd_dangling sd" v, where 'e = 'e])
     (auto simp: add_dangling_stake_def sd_ok_def stake_total_def pools_of_def)

lemma psd_add_spec:
  assumes "psd_ok d"
  shows "case psd_add d i s :: ('e, _) outcome of
      Ok d' \<Rightarrow> psd_ok d' \<and> units (psd_total d') = units (psd_total d) + units s
    | Err e \<Rightarrow> False
    | Panic \<Rightarrow> 2 ^ 64 \<le> units (psd_total d) + units s"
proof -
  let ?old = "case map_of (psd_accounts d) i of None \<Rightarrow> 0 | Some c \<Rightarrow> units c"
  let ?c = "case map_of (psd_accounts d) i of None \<Rightarrow> Ok s | Some c \<Rightarrow> (stake_add c s :: ('e, stake) outcome)"
  have old: "?old \<le> units (psd_total d)"
    using assms assoc_le_sum [where al = "psd_accounts d" and k = i and f = units] by (auto simp: psd_ok_def split: option.splits)
  show ?thesis
  proof (cases rule: stake_add_cases [of "psd_total d" s, where 'e = 'e])
    case (sum t)
    then have "?old + units s < 2 ^ 64" using old units_less [of t] by linarith
    then obtain c where c: "?c = Ok c" "units c = ?old + units s"
    proof (cases "map_of (psd_accounts d) i")
      case (Some w)
      then show ?thesis using that \<open>?old + units s < 2 ^ 64\<close> by (cases rule: stake_add_cases [of w s, where 'e = 'e]) auto
    qed (use that in auto)
    have "psd_ok (d\<lparr>psd_accounts := AList.update i c (psd_accounts d), psd_total := t\<rparr>)"
      using assms sum(2) c(2) sum_update_alist [where al = "psd_accounts d" and f = units and k = i and v = c] distinct_update [of "psd_accounts d" i c]
      by (auto simp: psd_ok_def)
    then show ?thesis using c(1) sum by (simp add: psd_add_def)
  next
    case overflow
    show ?thesis
    proof (cases "map_of (psd_accounts d) i")
      case (Some w)
      then show ?thesis using overflow
        by (cases rule: stake_add_cases [of w s, where 'e = 'e]) (simp_all add: psd_add_def)
    qed (use overflow in \<open>simp add: psd_add_def\<close>)
  qed
qed

lemma add_pool_adds:
  assumes "sd_ok sd" and "map_of (sd_to_pools sd) p = Some psi"
  shows "adds sd (units v) (add_pool_stake sd p psi i v :: ('e, _) outcome)"
proof -
  let ?f = "\<lambda>psi. units (psd_total (psi_stake psi))"
  have psi: "psd_ok (psi_stake psi)" using assms map_of_SomeD [OF assms(2)] by (auto simp: sd_ok_def)
  have le: "?f psi \<le> (\<Sum>x \<leftarrow> sd_to_pools sd. ?f (snd x))" by (rule assoc_le_sum [where f = ?f, OF assms(2)])
  show ?thesis
  proof (cases "psd_add (psi_stake psi) i v :: ('e, _) outcome")
    case (Ok d)
    let ?psi = "psi\<lparr>psi_stake := d\<rparr>" and ?sd = "sd\<lparr>sd_to_pools := AList.update p (psi\<lparr>psi_stake := d\<rparr>) (sd_to_pools sd)\<rparr>"
    have d: "psd_ok d" "units (psd_total d) = ?f psi + units v" using psd_add_spec [OF psi, of v i, where 'e = 'e] Ok by auto
    have set: "set (AList.update p ?psi al) \<subseteq> insert (p, ?psi) (set al)" for al by (induction al) auto
    have "sd_ok ?sd" using assms(1) d set [of "sd_to_pools sd"] distinct_update [of "sd_to_pools sd" p ?psi] by (fastforce simp: sd_ok_def)
    moreover have "stake_total ?sd = stake_total sd + units v"
      using assms d sum_update_alist [where al = "sd_to_pools sd" and f = ?f and k = p and v = ?psi] by (simp add: stake_total_def sd_ok_def)
    moreover have "pools_of ?sd = pools_of sd"
    proof -
      have "map (\<lambda>x. (fst x, psi_registration (snd x))) (AList.update p ?psi al) = map (\<lambda>x. (fst x, psi_registration (snd x))) al"
        if "map_of al p = Some psi" for al using that by (induction al) (auto split: if_splits)
      then show ?thesis using assms(2) by (simp add: pools_of_def)
    qed
    ultimately show ?thesis using Ok by (simp add: add_pool_stake_def psi_add_value_def)
  next
    case Panic
    then show ?thesis using psd_add_spec [OF psi, of v i, where 'e = 'e] le
      by (simp add: add_pool_stake_def psi_add_value_def stake_total_def)
  qed (use psd_add_spec [OF psi, of v i, where 'e = 'e] in auto)
qed
lemma stake_unit_scale_cases:
  obtains (prod) r where "stake_unit_scale (StakeUnit p) n = (Ok r :: ('e, stake) outcome)" and "units r = units p * unat n"
  | (overflow) "stake_unit_scale (StakeUnit p) n = (Panic :: ('e, stake) outcome)" and "2 ^ 64 \<le> units p * unat n"
proof (cases "checked_mul (stake_amount p) (ucast n :: u64)")
  case None
  then have "2 ^ 64 \<le> units p * unat n" by (simp add: checked_simps units_def unat_ucast_up)
  with None show ?thesis using that(2) by (simp add: unwrap_opt_def)
next
  case (Some r)
  then have "units (Stake r) = units p * unat n" by (simp add: checked_simps units_def unat_ucast_up)
  with Some show ?thesis using that(1) [of "Stake r"] by (simp add: unwrap_opt_def)
qed

declare stake_unit_scale.simps [simp del]

lemma stake_split_in_spec:
  assumes "n \<noteq> 0"
  shows "\<exists>p r. stake_split_in v n = (Ok \<lparr>stake_parts = StakeUnit p, stake_remaining = r\<rparr> :: ('e, _) outcome)
    \<and> units v = units p * unat n + units r"
proof -
  have n: "(ucast n :: u64) \<noteq> 0" "unat (ucast n :: u64) = unat n"
    using assms by (simp_all add: unat_ucast_up word_unat_eq_iff)
  have "units v = unat (stake_amount v div ucast n) * unat n + unat (stake_amount v mod ucast n)"
    by (simp add: unat_div unat_mod n(2) units_def)
  then show ?thesis
    using n by (intro exI [of _ "Stake (stake_amount v div ucast n)"] exI [of _ "Stake (stake_amount v mod ucast n)"])
      (simp add: stake_split_in_def pdiv_def pmod_def units_def)
qed

text \<open>What the loop over the pools of a ratio does: the parts go to pools or dangle, the rest of the division goes to the first known pool.\<close>

lemma assign_ratio_spec:
  assumes "sd_ok sd"
  shows "case assign_ratio sd i (StakeUnit p) r pools :: ('e, _) outcome of
      Ok (sd', r') \<Rightarrow> sd_ok sd' \<and> pools_of sd' = pools_of sd
        \<and> stake_total sd' + units r' = stake_total sd + units r + units p * (\<Sum>x \<leftarrow> pools. unat (snd x))
    | Err e \<Rightarrow> False
    | Panic \<Rightarrow> 2 ^ 64 \<le> stake_total sd + units r + units p * (\<Sum>x \<leftarrow> pools. unat (snd x))"
  using assms
proof (induction pools arbitrary: sd r)
  case (Cons x pools)
  obtain pool_id rt where x: "x = (pool_id, rt)" by (cases x)
  let ?rest = "units p * (\<Sum>x \<leftarrow> pools. unat (snd x))"
  have n: "unat (ucast rt :: u32) = unat rt" by (simp add: unat_ucast_up)
  have split: "units p * (\<Sum>x \<leftarrow> x # pools. unat (snd x)) = units p * unat rt + ?rest" by (simp add: x distrib_left)
  show ?case
  proof (cases rule: stake_unit_scale_cases [of p "ucast rt", where 'e = 'e])
    case overflow
    then show ?thesis unfolding split using n by (simp add: x)
  next
    case (prod pv)
    show ?thesis
    proof (cases "map_of (sd_to_pools sd) pool_id")
      case None
      show ?thesis
      proof (cases "add_dangling_stake sd pv :: ('e, _) outcome")
        case (Ok sd1)
        then have "sd_ok sd1" "stake_total sd1 = stake_total sd + units pv" "pools_of sd1 = pools_of sd"
          using add_dangling_adds [OF Cons.prems, of pv, where 'e = 'e] by simp_all
        with Cons.IH [of sd1 r] Ok None prod n show ?thesis unfolding split by (auto simp: x split: outcome.splits prod.splits)
      next
        case Panic
        then show ?thesis unfolding split using add_dangling_adds [OF Cons.prems, of pv, where 'e = 'e] None prod n by (simp add: x)
      qed (use add_dangling_adds [OF Cons.prems, of pv, where 'e = 'e] in simp)
    next
      case (Some psi)
      show ?thesis
      proof (cases rule: stake_add_cases [of pv r, where 'e = 'e])
        case (sum v)
        note adds = add_pool_adds [OF Cons.prems Some, of v i, where 'e = 'e]
        show ?thesis
        proof (cases "add_pool_stake sd pool_id psi i v :: ('e, _) outcome")
          case (Ok sd1)
          then have "sd_ok sd1" "stake_total sd1 = stake_total sd + units v" "pools_of sd1 = pools_of sd" using adds by simp_all
          with Cons.IH [of sd1 stake_zero] Ok Some prod sum n show ?thesis unfolding split by (auto simp: x split: outcome.splits prod.splits)
        next
          case Panic
          then show ?thesis unfolding split using adds Some prod sum n by (simp add: x)
        qed (use adds in simp)
      next
        case overflow
        then show ?thesis unfolding split using Some prod n by (simp add: x)
      qed
    qed
  qed
qed simp

definition delegation_small :: "'p delegation_type \<Rightarrow> bool" where
  "delegation_small d \<longleftrightarrow> (\<forall>r. d = Ratio r \<longrightarrow> length (dr_pools r) < 2 ^ 24)"

lemma assign_account_value_adds:
  assumes "sd_ok sd" and "delegation_small d"
  shows "adds sd (units v) (assign_account_value sd i d v :: ('e, _) outcome)"
proof (cases d)
  case (Full p)
  then show ?thesis
    using add_dangling_adds [OF assms(1)] add_pool_adds [OF assms(1)]
    by (auto simp: assign_account_value_def split: option.splits)
next
  case (Ratio dr)
  obtain ps pools where dr: "dr = \<lparr>dr_parts = ps, dr_pools = pools\<rparr>" by (cases dr) auto
  have len: "length pools < 2 ^ 24" using assms(2) Ratio dr by (simp add: delegation_small_def)
  show ?thesis
  proof (cases "1 < ps \<and> 1 < length pools \<and> length pools \<le> 8 \<and> (\<forall>x \<in> set pools. snd x \<noteq> 0) \<and> (\<Sum>x \<leftarrow> pools. unat (snd x)) = unat ps")
    case False
    then have "delegation_ratio_is_valid dr = (Ok False :: ('e, _) outcome)"
      using delegation_ratio_spec [OF len, of ps, where 'e = 'e] dr by auto
    then show ?thesis using add_unassigned_adds [OF assms(1)] Ratio by (simp add: assign_account_value_def)
  next
    case True
    have valid: "delegation_ratio_is_valid dr = (Ok True :: ('e, _) outcome)"
      using True delegation_ratio_spec [OF len, of ps, where 'e = 'e] dr by auto
    have "ps \<noteq> 0" using True by auto
    then have "(ucast ps :: u32) \<noteq> 0" by (simp add: word_unat_eq_iff unat_ucast_up)
    then obtain p r where pr: "stake_split_in v (ucast ps) = (Ok \<lparr>stake_parts = StakeUnit p, stake_remaining = r\<rparr> :: ('e, _) outcome)"
      "units v = units p * unat ps + units r"
      using stake_split_in_spec [of "ucast ps" v, where 'e = 'e] by (auto simp: unat_ucast_up)
    note spec = assign_ratio_spec [OF assms(1), where i = i and p = p and r = r and pools = pools and 'e = 'e]
    have a: "(assign_account_value sd i d v :: ('e, _) outcome) = obind (assign_ratio sd i (StakeUnit p) r pools) (\<lambda>(sd, r).
        if r > stake_zero then add_dangling_stake sd r else Ok sd)"
      using Ratio dr valid pr(1) by (simp add: assign_account_value_def)
    show ?thesis
    proof (cases "assign_ratio sd i (StakeUnit p) r pools :: ('e, _) outcome")
      case (Ok y)
      obtain sd1 r1 where y: "y = (sd1, r1)" by (cases y)
      have sd1: "sd_ok sd1" "pools_of sd1 = pools_of sd" "stake_total sd1 + units r1 = stake_total sd + units v"
        using spec Ok y True pr(2) by auto
      have "adds sd1 (units r1) (if r1 > stake_zero then add_dangling_stake sd1 r1 else Ok sd1 :: ('e, _) outcome)"
        using add_dangling_adds [OF sd1(1), of r1, where 'e = 'e] sd1(1) by (auto simp: checked_simps)
      then have "adds sd (units v) (if r1 > stake_zero then add_dangling_stake sd1 r1 else Ok sd1 :: ('e, _) outcome)"
        using sd1 by (auto simp: adds_def split: outcome.splits)
      then show ?thesis using Ok y a by simp
    next
      case Panic
      then show ?thesis using spec a True pr(2) by simp
    qed (use spec in auto)
  qed
qed (use add_unassigned_adds [OF assms(1)] in \<open>simp add: assign_account_value_def\<close>)

lemma distribute_accounts_adds:
  assumes "sd_ok sd" and "\<forall>x \<in> set as. delegation_small (acc_delegation (snd x))"
  shows "adds sd (\<Sum>x \<leftarrow> as. coins (acc_value (snd x))) (distribute_accounts sd as :: ('e, _) outcome)"
  using assms
proof (induction as arbitrary: sd)
  case (Cons x as)
  obtain i st where x: "x = (i, st)" by (cases x)
  have "adds sd (coins (acc_value st) + (\<Sum>x \<leftarrow> as. coins (acc_value (snd x))))
      (obind (assign_account_value sd i (acc_delegation st) (stake_from_value (acc_value st))) (\<lambda>sd. distribute_accounts sd as) :: ('e, _) outcome)"
    using Cons.prems Cons.IH assign_account_value_adds [OF Cons.prems(1), of "acc_delegation st" "stake_from_value (acc_value st)" i, where 'e = 'e] x
    by (intro adds_obind) auto
  then show ?case by (simp add: x)
qed simp

text \<open>The outputs the distribution can take: single addresses, and group addresses with an account.\<close>

definition output_ok :: "acc_identifier hasher \<Rightarrow> accounts \<Rightarrow> address tx_output \<Rightarrow> bool" where
  "output_ok hf as o' \<longleftrightarrow> (case addr_kind (out_address o') of
     Single _ \<Rightarrow> True | Group _ k \<Rightarrow> hamt_map hf as (Identifier k) \<noteq> None | _ \<Rightarrow> False)"

lemma distribute_utxos_adds:
  assumes "sd_ok sd" and "hamt_ok hf as" and "\<forall>o' \<in> set os. output_ok hf as o'"
    and "\<forall>st \<in> ran (hamt_map hf as). delegation_small (acc_delegation st)"
  shows "adds sd (\<Sum>o' \<leftarrow> os. coins (out_value o')) (distribute_utxos hf as sd os :: ('e, _) outcome)"
  using assms(1,3)
proof (induction os arbitrary: sd)
  case (Cons o' os)
  let ?s = "stake_from_value (out_value o')"
  let ?step = "case addr_kind (out_address o') of
         AccountKind _ \<Rightarrow> Panic
       | Multisig _ \<Rightarrow> Panic
       | Script _ \<Rightarrow> Panic
       | Group _ account_key \<Rightarrow>
           obind (unwrap (get_state hf as (Identifier account_key))) (\<lambda>st.
           assign_account_value sd (Identifier account_key) (acc_delegation st) ?s)
       | Single _ \<Rightarrow> (add_unassigned_stake sd ?s :: ('e, _) outcome)"
  have "adds sd (units ?s) ?step"
  proof (cases "addr_kind (out_address o')")
    case (Group k g)
    then obtain st where st: "hamt_map hf as (Identifier g) = Some st" using Cons.prems(2) by (auto simp: output_ok_def)
    then have "get_state hf as (Identifier g) = Ok st" by (simp add: get_state_def pm.lookup_alpha [OF assms(2)] ok_or_def)
    moreover have "delegation_small (acc_delegation st)" using assms(4) st by (auto intro: ranI)
    ultimately show ?thesis using Group assign_account_value_adds [OF Cons.prems(1), of "acc_delegation st" ?s "Identifier g", where 'e = 'e] by simp
  qed (use Cons.prems(2) add_unassigned_adds [OF Cons.prems(1), of ?s, where 'e = 'e] in \<open>auto simp: output_ok_def\<close>)
  then have "adds sd (units ?s + (\<Sum>o' \<leftarrow> os. coins (out_value o'))) (obind ?step (\<lambda>sd. distribute_utxos hf as sd os))"
    using Cons.prems(2) by (intro adds_obind Cons.IH) auto
  then show ?case by simp
qed simp
lemma initial_distribution_ok:
  assumes "hamt_ok hf ps"
  shows "sd_ok (initial_distribution ps)" and "stake_total (initial_distribution ps) = 0"
    and "pools_of (initial_distribution ps) = map (\<lambda>(i, st). (i, Some (pool_reg st))) (hamt_iter ps)"
proof -
  have d: "distinct (map fst (hamt_iter ps))" by (rule pm.entries_keys [OF assms])
  have k: "map fst (sd_to_pools (initial_distribution ps)) = map fst (hamt_iter ps)"
    by (simp add: initial_distribution_def comp_def case_prod_unfold)
  show "sd_ok (initial_distribution ps)" using d unfolding sd_ok_def k
    by (auto simp: initial_distribution_def psd_new_def psd_ok_def)
  show "stake_total (initial_distribution ps) = 0"
    by (simp add: stake_total_def initial_distribution_def psd_new_def comp_def case_prod_unfold)
  show "pools_of (initial_distribution ps) = map (\<lambda>(i, st). (i, Some (pool_reg st))) (hamt_iter ps)"
    by (simp add: pools_of_def initial_distribution_def comp_def case_prod_unfold)
qed

lemma account_total_entries: "account_ok hf ht as \<Longrightarrow> (\<Sum>x \<leftarrow> hamt_iter as. coins (acc_value (snd x))) = account_total hf as"
  using pm.sum_entries [OF account_okD(1), of hf ht as "\<lambda>_ st. coins (acc_value st)"]
  by (simp add: account_total_def case_prod_unfold)

lemma get_distribution_spec:
  assumes "account_ok hf ht as" and "utxo_ok hu us" and "hamt_ok hp ps"
    and "\<forall>o' \<in> ran (utxo_map hu us). output_ok hf as o'"
    and "\<forall>st \<in> ran (hamt_map hf as). delegation_small (acc_delegation st)"
  shows "case get_distribution hf as ps us :: ('e, _) outcome of
      Ok sd \<Rightarrow> sd_ok sd \<and> stake_total sd = account_total hf as + utxo_total hu us
        \<and> pools_of sd = map (\<lambda>(i, st). (i, Some (pool_reg st))) (hamt_iter ps)
    | Err e \<Rightarrow> False
    | Panic \<Rightarrow> 2 ^ 64 \<le> account_total hf as + utxo_total hu us"
proof -
  note init = initial_distribution_ok [OF assms(3)] and ok = account_okD(1) [OF assms(1)]
  obtain es where es: "utxo_all_values us = Ok (map entry_output es)" "map_of (map entry_binding es) = utxo_map hu us"
    "coin_total (map (out_value \<circ> entry_output) es) = utxo_total hu us" "distinct (map (fst \<circ> entry_binding) es)"
    using utxo_entries_complete [OF assms(2)] by auto
  have outs: "\<forall>o' \<in> set (map entry_output es). output_ok hf as o'"
  proof
    fix o' assume "o' \<in> set (map entry_output es)"
    then obtain e where "e \<in> set es" "o' = entry_output e" by auto
    then have "map_of (map entry_binding es) (fst (entry_binding e)) = Some (snd (entry_binding e))"
      using es(4) by (intro map_of_is_SomeI) auto
    then have "o' \<in> ran (utxo_map hu us)" using es(2) \<open>o' = entry_output e\<close> by (auto simp: ran_def entry_binding_def)
    then show "output_ok hf as o'" using assms(4) by blast
  qed
  have del: "\<forall>x \<in> set (hamt_iter as). delegation_small (acc_delegation (snd x))"
  proof
    fix x assume "x \<in> set (hamt_iter as)"
    then have "hamt_map hf as (fst x) = Some (snd x)"
      using pm.entries_keys [OF ok] pm.entries_alpha [OF ok] by (metis map_of_is_SomeI surjective_pairing)
    then show "delegation_small (acc_delegation (snd x))" using assms(5) by (auto intro: ranI)
  qed
  have "adds (initial_distribution ps) (account_total hf as + utxo_total hu us)
      (obind (distribute_accounts (initial_distribution ps) (hamt_iter as)) (\<lambda>sd. distribute_utxos hf as sd (map entry_output es)) :: ('e, _) outcome)"
  proof (rule adds_obind)
    show "adds (initial_distribution ps) (account_total hf as) (distribute_accounts (initial_distribution ps) (hamt_iter as) :: ('e, _) outcome)"
      using distribute_accounts_adds [OF init(1) del, where 'e = 'e] account_total_entries [OF assms(1)] by simp
    fix sd assume "adds (initial_distribution ps) (account_total hf as) (Ok sd :: ('e, _) outcome)"
    then have "sd_ok sd" by simp
    from distribute_utxos_adds [OF this ok outs assms(5), where 'e = 'e] es(3)
    show "adds sd (utxo_total hu us) (distribute_utxos hf as sd (map entry_output es) :: ('e, _) outcome)"
      by (simp add: coin_total_def comp_def)
  qed
  then show ?thesis using init es(1) by (auto simp: adds_def get_distribution_def split: outcome.splits)
qed

section \<open>Controlled stake\<close>

definition control_ok :: "acc_identifier hasher \<Rightarrow> stake_control \<Rightarrow> bool" where
  "control_ok hf sc \<longleftrightarrow> hamt_ok hf (sc_control sc)
     \<and> units (sc_assigned sc) = (\<Sum>i \<in> dom (hamt_map hf (sc_control sc)). units (the (hamt_map hf (sc_control sc) i)))"

definition held :: "acc_identifier hasher \<Rightarrow> stake_control \<Rightarrow> acc_identifier \<Rightarrow> nat" where
  "held hf sc i = (case hamt_map hf (sc_control sc) i of None \<Rightarrow> 0 | Some s \<Rightarrow> units s)"

lemma held_le:
  assumes "control_ok hf sc"
  shows "held hf sc i \<le> units (sc_assigned sc)"
proof (cases "hamt_map hf (sc_control sc) i")
  case (Some s)
  let ?m = "hamt_map hf (sc_control sc)"
  have "finite (dom ?m)" using assms by (auto simp: control_ok_def intro: pm.finite_dom)
  then have "units (the (?m i)) \<le> (\<Sum>i \<in> dom ?m. units (the (?m i)))" using Some by (intro member_le_sum) auto
  then show ?thesis using assms Some by (simp add: control_ok_def held_def)
qed (simp add: held_def)

lemma control_change:
  assumes "control_ok hf sc" and "hamt_ok hf m" and "hamt_map hf m = (hamt_map hf (sc_control sc))(i := w)"
    and "units a + held hf sc i = units (sc_assigned sc) + (case w of None \<Rightarrow> 0 | Some s \<Rightarrow> units s)"
  shows "control_ok hf (sc\<lparr>sc_control := m, sc_assigned := a\<rparr>)"
proof -
  have "hamt_ok hf (sc_control sc)" using assms(1) by (simp add: control_ok_def)
  from pm.sum_update [OF this assms(3), of units] assms show ?thesis
    by (simp add: control_ok_def held_def)
qed

lemma wrapping_units:
  "units a + units b < 2 ^ 64 \<Longrightarrow> units (stake_wrapping_add a b) = units a + units b"
  "units b \<le> units a \<Longrightarrow> units (stake_wrapping_sub a b) = units a - units b"
  by (simp_all add: units_def stake_wrapping_add_def stake_wrapping_sub_def unat_plus_no_ovf unat_minus_no_borrow word_le_nat_alt)

lemma stake_checked_cases:
  "stake_checked_add a b = Some c \<longleftrightarrow> units c = units a + units b" "stake_checked_add a b = None \<longleftrightarrow> 2 ^ 64 \<le> units a + units b"
  "stake_checked_sub a b = Some c \<longleftrightarrow> units a = units b + units c" "stake_checked_sub a b = None \<longleftrightarrow> units a < units b"
proof -
  have ex: "(\<exists>z. P z \<and> c = Stake z) \<longleftrightarrow> P (stake_amount c)" for P by (cases c) auto
  show "stake_checked_add a b = Some c \<longleftrightarrow> units c = units a + units b" "stake_checked_sub a b = Some c \<longleftrightarrow> units a = units b + units c"
    by (simp_all add: stake_checked_add_def stake_checked_sub_def map_option_eq_Some checked_simps units_def ex eq_commute [of "Stake _" c])
  show "stake_checked_add a b = None \<longleftrightarrow> 2 ^ 64 \<le> units a + units b" "stake_checked_sub a b = None \<longleftrightarrow> units a < units b"
    by (simp_all add: stake_checked_add_def stake_checked_sub_def checked_simps units_def)
qed

lemma hamt_upsert_simple_ok:
  assumes "hamt_ok hf m" and "hash_fresh hf m k"
  shows "\<exists>m'. hamt_insert_or_update_simple hf m k v f = Ok m' \<and> hamt_ok hf m'
    \<and> hamt_map hf m' = (hamt_map hf m)(k := case hamt_map hf m k of None \<Rightarrow> Some v | Some w \<Rightarrow> f w)"
proof (cases "hamt_map hf m k")
  case None
  then show ?thesis using assms pm.ins_new [OF assms(1) None, of v] pm.upd_missing [OF assms(1) None, of "\<lambda>x. Ok (f x) :: (unit, _) outcome"]
    by (auto simp: hamt_insert_or_update_simple_def)
next
  case (Some w)
  then show ?thesis using pm.upd_ok [OF assms(1) Some, of "\<lambda>x. Ok (f x) :: (unit, _) outcome"]
    by (auto simp: hamt_insert_or_update_simple_def)
qed

lemma add_to_spec:
  assumes "control_ok hf sc" and "hash_fresh hf (sc_control sc) i" and "units (sc_assigned sc) + units s < 2 ^ 64"
  shows "\<exists>sc'. add_to hf sc i s = (Ok sc' :: ('e, _) outcome) \<and> control_ok hf sc'
    \<and> (\<forall>j. held hf sc' j = held hf sc j + (if j = i then units s else 0))
    \<and> units (sc_assigned sc') = units (sc_assigned sc) + units s \<and> sc_unassigned sc' = sc_unassigned sc"
proof -
  let ?m = "hamt_map hf (sc_control sc)" and ?f = "\<lambda>v. stake_checked_add v s"
  let ?w = "case ?m i of None \<Rightarrow> Some s | Some w \<Rightarrow> ?f w" and ?a = "stake_wrapping_add (sc_assigned sc) s"
  obtain c where c: "hamt_insert_or_update_simple hf (sc_control sc) i s ?f = Ok c" "hamt_ok hf c" "hamt_map hf c = ?m(i := ?w)"
    using hamt_upsert_simple_ok [of hf "sc_control sc" i s ?f] assms(1,2) by (auto simp: control_ok_def)
  have lt: "held hf sc i + units s < 2 ^ 64" using held_le [OF assms(1), of i] assms(3) by linarith
  have w: "\<exists>t. ?w = Some t \<and> units t = held hf sc i + units s"
  proof (cases "?m i")
    case (Some v)
    then have "\<not> 2 ^ 64 \<le> units v + units s" using lt by (simp add: held_def)
    then obtain t where "?f v = Some t" using stake_checked_cases(2) [of v s] by blast
    moreover from this have "units t = units v + units s" using stake_checked_cases(1) [of v s t] by blast
    ultimately show ?thesis using Some by (simp add: held_def)
  qed (simp add: held_def)
  have a: "units ?a = units (sc_assigned sc) + units s" by (rule wrapping_units(1) [OF assms(3)])
  let ?sc = "sc\<lparr>sc_control := c, sc_assigned := ?a\<rparr>"
  have "control_ok hf ?sc" using w a by (intro control_change [OF assms(1) c(2,3)]) auto
  moreover have "held hf ?sc j = held hf sc j + (if j = i then units s else 0)" for j
    using w c(3) by (auto simp: held_def)
  ultimately show ?thesis using c(1) a by (intro exI [of _ ?sc]) (simp add: add_to_def)
qed

lemma remove_from_spec:
  assumes "control_ok hf sc" and "hamt_map hf (sc_control sc) i = Some v" and "units s \<le> units v"
  shows "\<exists>sc'. remove_from hf sc i s = (Ok sc' :: ('e, _) outcome) \<and> control_ok hf sc'
    \<and> (\<forall>j. held hf sc' j = held hf sc j - (if j = i then units s else 0))
    \<and> units (sc_assigned sc') = units (sc_assigned sc) - units s \<and> sc_unassigned sc' = sc_unassigned sc"
proof -
  let ?m = "hamt_map hf (sc_control sc)" and ?a = "stake_wrapping_sub (sc_assigned sc) s"
  have ok: "hamt_ok hf (sc_control sc)" using assms(1) by (simp add: control_ok_def)
  obtain t where t: "stake_checked_sub v s = Some t" "units v = units s + units t"
    using assms(3) stake_checked_cases(3,4) [of v s] by (metis leD not_None_eq)
  obtain c where c: "hamt_update hf (sc_control sc) i (\<lambda>v. Ok (stake_checked_sub v s) :: (unit, _) outcome) = Ok c" "hamt_ok hf c" "hamt_map hf c = ?m(i \<mapsto> t)"
    using pm.upd_ok [OF ok assms(2), of "\<lambda>v. Ok (stake_checked_sub v s) :: (unit, _) outcome"] t(1) by auto
  have h: "held hf sc i = units v" using assms(2) by (simp add: held_def)
  have le: "units s \<le> units (sc_assigned sc)" using held_le [OF assms(1), of i] h assms(3) by linarith
  have a: "units ?a = units (sc_assigned sc) - units s" by (rule wrapping_units(2) [OF le])
  let ?sc = "sc\<lparr>sc_control := c, sc_assigned := ?a\<rparr>"
  have "control_ok hf ?sc" using a t(2) h le by (intro control_change [OF assms(1) c(2,3)]) simp
  moreover have "held hf ?sc j = held hf sc j - (if j = i then units s else 0)" for j
    using c(3) t(2) h by (auto simp: held_def)
  ultimately show ?thesis using c(1) a by (intro exI [of _ ?sc]) (simp add: remove_from_def)
qed
section \<open>The leaders' log\<close>

definition leaders_ok :: "digest hasher \<Rightarrow> leaders_log \<Rightarrow> bool" where
  "leaders_ok hp l \<longleftrightarrow> hamt_ok hp (ll_log l)
     \<and> unat (ll_total l) = (\<Sum>p \<in> dom (hamt_map hp (ll_log l)). unat (the (hamt_map hp (ll_log l) p)))"

lemma leaders_new_ok [simp]: "leaders_ok hp leaders_new"
  by (simp add: leaders_ok_def leaders_new_def)

lemma leaders_entries:
  "leaders_ok hp l \<Longrightarrow> (\<Sum>x \<leftarrow> hamt_iter (ll_log l). unat (snd x)) = unat (ll_total l)"
  using pm.sum_entries [of hp "ll_log l" "\<lambda>_ v. unat v"] by (simp add: leaders_ok_def case_prod_unfold)

text \<open>One more block for a pool; it panics only when the number of blocks leaves 32 bits.\<close>

lemma increase_for_spec:
  assumes "leaders_ok hp l" and "hash_fresh hp (ll_log l) p"
  shows "if unat (ll_total l) + 1 < 2 ^ 32
    then \<exists>l'. increase_for hp l p = (Ok l' :: ('e, _) outcome) \<and> leaders_ok hp l' \<and> unat (ll_total l') = unat (ll_total l) + 1
    else increase_for hp l p = (Panic :: ('e, _) outcome)"
proof (cases "unat (ll_total l) + 1 < 2 ^ 32")
  case True
  let ?m = "hamt_map hp (ll_log l)" and ?f = "\<lambda>v. omap Some (padd v 1) :: (unit, u32 option) outcome"
  have ok: "hamt_ok hp (ll_log l)" using assms(1) by (simp add: leaders_ok_def)
  have le: "unat v \<le> unat (ll_total l)" if "?m p = Some v" for v
  proof -
    have "unat (the (?m p)) \<le> (\<Sum>p \<in> dom ?m. unat (the (?m p)))" using that pm.finite_dom [OF ok] by (intro member_le_sum) auto
    then show ?thesis using assms(1) that by (simp add: leaders_ok_def)
  qed
  have t: "padd (ll_total l) 1 = (Ok (ll_total l + 1) :: ('e, _) outcome)" "unat (ll_total l + 1) = unat (ll_total l) + 1"
    using True by (simp_all add: checked_simps unat_plus_no_ovf)
  have inc: "?f v = Ok (Some (v + 1))" "unat (v + 1) = unat v + 1" if "?m p = Some v" for v
    using True le [OF that] by (simp_all add: outcome_simps checked_simps unat_plus_no_ovf)
  obtain m where m: "hamt_insert_or_update hp (ll_log l) p 1 ?f = Ok m" "hamt_ok hp m"
    "hamt_map hp m = ?m(p \<mapsto> case ?m p of None \<Rightarrow> 1 | Some v \<Rightarrow> v + 1)"
  proof (cases "?m p")
    case None
    then show ?thesis using that hamt_upsert_ok [OF ok, of p 1 ?f] assms(2) by auto
  next
    case (Some v)
    then show ?thesis using that hamt_upsert_ok [OF ok, of p 1 ?f] inc [OF Some] by auto
  qed
  have "leaders_ok hp (l\<lparr>ll_total := ll_total l + 1, ll_log := m\<rparr>)"
    using pm.sum_update [OF ok m(3), of unat] assms(1) t(2) m(2) inc(2) by (auto simp: leaders_ok_def split: option.splits)
  then show ?thesis using True t m(1) by (simp add: increase_for_def)
next
  case False
  then have "padd (ll_total l) 1 = (Panic :: ('e, _) outcome)" using unat_lt_2p [of "ll_total l"] by (simp add: plain_arith_Panic_iffs)
  then show ?thesis using False by (simp add: increase_for_def)
qed

section \<open>Properties\<close>

text \<open>
  C16. The stake distribution neither loses nor makes stake: unless the value of all accounts and unspent
  outputs exceeds 64 bits, \<open>get_distribution\<close> returns, the unassigned stake, the dangling stake and the
  stake of the pools add up to that value, each pool's total is the sum of its members, and the pools
  are exactly the registered ones.
\<close>

theorem stake_distribution_conserves:
  assumes "account_ok hf ht as" and "utxo_ok hu us" and "hamt_ok hp ps"
    and "\<forall>o' \<in> ran (utxo_map hu us). output_ok hf as o'"
    and "\<forall>st \<in> ran (hamt_map hf as). delegation_small (acc_delegation st)"
  shows "case get_distribution hf as ps us :: ('e, _) outcome of
      Ok sd \<Rightarrow> sd_ok sd \<and> stake_total sd = account_total hf as + utxo_total hu us
        \<and> pools_of sd = map (\<lambda>(i, st). (i, Some (pool_reg st))) (hamt_iter ps)
    | Err e \<Rightarrow> False
    | Panic \<Rightarrow> 2 ^ 64 \<le> account_total hf as + utxo_total hu us"
  by (rule get_distribution_spec [OF assms])

theorem stake_distribution_conserves_witness:
  "\<exists>as sd. add_account (\<lambda>_. 0) account_new (Identifier (PublicKey [])) (Value 5) () = Ok as
     \<and> get_distribution (\<lambda>_. 0) as pools_new utxo_new = (Ok sd :: (unit, _) outcome) \<and> stake_total sd = 5"
proof -
  let ?i = "Identifier (PublicKey [])" and ?h = "\<lambda>_. 0 :: u64"
  obtain as :: accounts where as: "add_account ?h account_new ?i (Value 5) () = Ok as"
    "hamt_map ?h as = [?i \<mapsto> account_state_new (Value 5) ()]"
  proof -
    obtain m :: accounts where "hamt_insert ?h account_new ?i (account_state_new (Value 5) ()) = Ok m"
      "hamt_map ?h m = [?i \<mapsto> account_state_new (Value 5) ()]"
      using pm.ins_new [of ?h "account_new :: accounts" ?i "account_state_new (Value 5) ()"] by (auto simp: account_new_def)
    then show thesis using that by (simp add: add_account_def)
  qed
  have step: "account_step ?h ?h account_new (Deposit ?i (Value 5)) as"
    using as(1) by (intro step_open) (auto simp: account_new_def)
  have ok: "account_ok ?h ?h as" using account_step_effect [OF step] by (simp add: effective_def)
  have tot: "account_total ?h as = 5" "utxo_total ?h (utxo_new :: utxos) = 0"
    using as(2) by (simp_all add: account_total_def account_state_new_def coins_def utxo_total_def utxo_new_def utxo_map_def [abs_def] dom_def case_prod_unfold)
  have "utxo_ok ?h (utxo_new :: utxos)" "utxo_map ?h (utxo_new :: utxos) = Map.empty" "hamt_ok ?h pools_new"
    by (simp_all add: pools_new_def utxo_new_def utxo_ok_def utxo_map_def fun_eq_iff)
  moreover have "\<forall>st \<in> ran (hamt_map ?h as). delegation_small (acc_delegation st)"
    using as(2) by (simp add: account_state_new_def delegation_small_def)
  ultimately have "case get_distribution ?h as pools_new utxo_new :: (unit, _) outcome of
      Ok sd \<Rightarrow> sd_ok sd \<and> stake_total sd = 5 + 0 \<and> pools_of sd = map (\<lambda>(i, st). (i, Some (pool_reg st))) (hamt_iter pools_new)
    | Err e \<Rightarrow> False | Panic \<Rightarrow> 2 ^ 64 \<le> 5 + (0 :: nat)"
    using stake_distribution_conserves [OF ok, of ?h utxo_new ?h pools_new, where 'e = unit] unfolding tot by simp
  then show ?thesis using as(1) by (auto split: outcome.splits)
qed



end
