(* ===== verification/Transaction.thy ===== *)
theory Transaction
  imports Multisig Chain_Time
begin

text \<open>
  Transactions (\<open>transaction/\<close>): inputs, witnesses and the data they sign, the byte layout of a
  transaction with the offsets \<open>get_spine\<close> finds in it, the iterators that read the parts back, the
  builder, and the balance of inputs and outputs.

  The \<open>Payload\<close> trait is a record of its constants and functions, so that a payload type is a value
  of that record. The digest and the signature verification are parameters.
\<close>

section \<open>Inputs\<close>

definition INPUT_SIZE :: nat where "INPUT_SIZE = 41"
definition INPUT_PTR_SIZE :: nat where "INPUT_PTR_SIZE = 32"

record tx_input =
  index_or_account :: u8
  in_value :: val
  input_ptr :: "u8 list"

datatype input_type = UtxoType | AccountType

record utxo_pointer =
  transaction_id :: digest
  pointer_index :: u8
  pointer_value :: val

datatype input_enum = AccountInput unspecified_account_identifier val | UtxoInput utxo_pointer

definition from_multi_account :: "digest \<Rightarrow> unspecified_account_identifier" where
  "from_multi_account i = UnspecifiedId i"

definition input_new :: "u8 \<Rightarrow> val \<Rightarrow> u8 list \<Rightarrow> tx_input" where
  "input_new i v p = \<lparr>index_or_account = i, in_value = v, input_ptr = p\<rparr>"

text \<open>\<open>From<[u8; 41]>\<close>: the type of the argument fixes its length, the conversion of the value cannot fail.\<close>

definition input_from_array :: "u8 list \<Rightarrow> ('e, tx_input) outcome" where
  "input_from_array a =
     obind (unwrap_opt (nth_opt a 0)) (\<lambda>i.
     obind (unwrap (value_try_from (take 8 (drop 1 a)))) (\<lambda>v.
     Ok (input_new i v (drop 9 a))))"

definition input_bytes :: "tx_input \<Rightarrow> u8 list" where
  "input_bytes i = index_or_account i # to_be_bytes (amount (in_value i)) @ input_ptr i"

definition get_type :: "tx_input \<Rightarrow> input_type" where
  "get_type i = (if index_or_account i = 255 then AccountType else UtxoType)"

definition from_utxo :: "utxo_pointer \<Rightarrow> tx_input" where
  "from_utxo p = \<lparr>index_or_account = pointer_index p, in_value = pointer_value p, input_ptr = transaction_id p\<rparr>"

definition from_utxo_entry :: "(digest, address) utxo_entry \<Rightarrow> tx_input" where
  "from_utxo_entry e = \<lparr>index_or_account = output_index e, in_value = out_value (entry_output e), input_ptr = fragment_id e\<rparr>"

definition from_account :: "unspecified_account_identifier \<Rightarrow> val \<Rightarrow> tx_input" where
  "from_account i v = \<lparr>index_or_account = 255, in_value = v, input_ptr = unspec_bytes i\<rparr>"

definition from_account_public_key :: "public_key \<Rightarrow> val \<Rightarrow> tx_input" where
  "from_account_public_key k v = from_account (from_single_account (Identifier k)) v"

definition from_account_single :: "acc_identifier \<Rightarrow> val \<Rightarrow> tx_input" where
  "from_account_single i v = from_account (from_single_account i) v"

definition from_multisig_account :: "digest \<Rightarrow> val \<Rightarrow> tx_input" where
  "from_multisig_account i v = from_account (from_multi_account i) v"

definition to_enum :: "tx_input \<Rightarrow> input_enum" where
  "to_enum i =
     (case get_type i of
        AccountType \<Rightarrow> AccountInput (UnspecifiedId (input_ptr i)) (in_value i)
      | UtxoType \<Rightarrow> UtxoInput \<lparr>transaction_id = input_ptr i, pointer_index = index_or_account i, pointer_value = in_value i\<rparr>)"

fun from_enum :: "input_enum \<Rightarrow> tx_input" where
  "from_enum (AccountInput i v) = from_account i v"
| "from_enum (UtxoInput p) = from_utxo p"

definition input_serialize :: "tx_input \<Rightarrow> u8 list \<Rightarrow> (io_error, u8 list) outcome" where
  "input_serialize i w =
     obind (codec_put_u8 w (index_or_account i)) (\<lambda>w.
     obind (value_serialize w (in_value i)) (\<lambda>w. write_all w (input_ptr i)))"

definition input_deserialize :: "u8 list \<Rightarrow> (io_error, tx_input \<times> u8 list) outcome" where
  "input_deserialize r =
     obind (codec_get_u8 r) (\<lambda>(i, r). obind (value_deserialize r) (\<lambda>(v, r).
     obind (read_exact r INPUT_PTR_SIZE) (\<lambda>(p, r).
     Ok (\<lparr>index_or_account = i, in_value = v, input_ptr = p\<rparr>, r))))"

definition input_read :: "tx_input reader" where
  "input_read buf =
     obind (get_u8 buf) (\<lambda>(i, buf). obind (value_read buf) (\<lambda>(v, buf). obind (read_array INPUT_PTR_SIZE buf) (\<lambda>(p, buf).
     Ok (\<lparr>index_or_account = i, in_value = v, input_ptr = p\<rparr>, buf))))"

section \<open>Witnesses and what they sign\<close>

datatype tx_witness =
    UtxoWitness signature
  | AccountWitness spending_counter signature
  | OldUtxoWitness public_key "u8 list" signature
  | MultisigWitness spending_counter ms_witness

datatype witness_utxo_version = LegacyUtxo | NormalUtxo

definition WITNESS_TAG_OLDUTXO :: u8 where "WITNESS_TAG_OLDUTXO = 0"
definition WITNESS_TAG_UTXO :: u8 where "WITNESS_TAG_UTXO = 1"
definition WITNESS_TAG_ACCOUNT :: u8 where "WITNESS_TAG_ACCOUNT = 2"
definition WITNESS_TAG_MULTISIG :: u8 where "WITNESS_TAG_MULTISIG = 3"

definition witness_data_common :: "u8 list \<Rightarrow> u8 \<Rightarrow> digest \<Rightarrow> digest \<Rightarrow> u8 list" where
  "witness_data_common w tag b0 tid = w @ [tag] @ b0 @ tid"

definition witness_utxo_data :: "digest \<Rightarrow> digest \<Rightarrow> witness_utxo_version \<Rightarrow> u8 list" where
  "witness_utxo_data b0 tid v =
     witness_data_common [] (case v of LegacyUtxo \<Rightarrow> WITNESS_TAG_OLDUTXO | NormalUtxo \<Rightarrow> WITNESS_TAG_UTXO) b0 tid"

definition witness_account_data :: "digest \<Rightarrow> digest \<Rightarrow> spending_counter \<Rightarrow> u8 list" where
  "witness_account_data b0 tid c = witness_data_common [] WITNESS_TAG_ACCOUNT b0 tid @ counter_to_bytes c"

definition witness_multisig_data :: "digest \<Rightarrow> digest \<Rightarrow> spending_counter \<Rightarrow> u8 list" where
  "witness_multisig_data b0 tid c = witness_data_common [] WITNESS_TAG_MULTISIG b0 tid @ counter_to_bytes c"

fun witness_serialize :: "tx_witness \<Rightarrow> u8 list \<Rightarrow> (io_error, u8 list) outcome" where
  "witness_serialize (OldUtxoWitness pk cc sig) w =
     obind (codec_put_u8 w WITNESS_TAG_OLDUTXO) (\<lambda>w. obind (write_all w (pk_bytes pk)) (\<lambda>w.
     obind (write_all w cc) (\<lambda>w. write_all w (sig_bytes sig))))"
| "witness_serialize (UtxoWitness sig) w = obind (codec_put_u8 w WITNESS_TAG_UTXO) (\<lambda>w. write_all w (sig_bytes sig))"
| "witness_serialize (AccountWitness nonce sig) w =
     obind (codec_put_u8 w WITNESS_TAG_ACCOUNT) (\<lambda>w. obind (codec_put_be_u32 w (counter_bits nonce)) (\<lambda>w. write_all w (sig_bytes sig)))"
| "witness_serialize (MultisigWitness nonce msig) w =
     obind (codec_put_u8 w WITNESS_TAG_MULTISIG) (\<lambda>w. obind (codec_put_be_u32 w (counter_bits nonce)) (\<lambda>w. ms_witness_serialize msig w))"

definition witness_to_bytes :: "tx_witness \<Rightarrow> ('e, u8 list) outcome" where
  "witness_to_bytes w = unwrap (witness_serialize w [])"

definition witness_read :: "tx_witness reader" where
  "witness_read buf =
     obind (get_u8 buf) (\<lambda>(tag, buf).
       if tag = WITNESS_TAG_OLDUTXO then
         obind (read_ed25519 buf) (\<lambda>(pk, buf). obind (read_array 32 buf) (\<lambda>(cc, buf). obind (deserialize_signature buf) (\<lambda>(sig, buf).
         Ok (OldUtxoWitness pk cc sig, buf))))
       else if tag = WITNESS_TAG_UTXO then
         obind (deserialize_signature buf) (\<lambda>(sig, buf). Ok (UtxoWitness sig, buf))
       else if tag = WITNESS_TAG_ACCOUNT then
         obind (get_u32 buf) (\<lambda>(nonce, buf). obind (deserialize_signature buf) (\<lambda>(sig, buf).
         Ok (AccountWitness (SpendingCounter nonce) sig, buf)))
       else if tag = WITNESS_TAG_MULTISIG then
         obind (get_u32 buf) (\<lambda>(nonce, buf). obind (ms_witness_read buf) (\<lambda>(msig, buf).
         Ok (MultisigWitness (SpendingCounter nonce) msig, buf)))
       else Err (UnknownTag (ucast tag)))"

definition new_utxo_witness :: "digest \<Rightarrow> digest \<Rightarrow> (u8 list \<Rightarrow> signature) \<Rightarrow> tx_witness" where
  "new_utxo_witness b0 h sign = UtxoWitness (sign (witness_utxo_data b0 h NormalUtxo))"

definition new_old_utxo_witness :: "digest \<Rightarrow> digest \<Rightarrow> (u8 list \<Rightarrow> public_key \<times> signature) \<Rightarrow> u8 list \<Rightarrow> tx_witness" where
  "new_old_utxo_witness b0 h sign some_bytes =
     (let (pk, sig) = sign (witness_utxo_data b0 h LegacyUtxo) in OldUtxoWitness pk some_bytes sig)"

definition new_account_witness :: "digest \<Rightarrow> digest \<Rightarrow> spending_counter \<Rightarrow> (u8 list \<Rightarrow> signature) \<Rightarrow> tx_witness" where
  "new_account_witness b0 h c sign = AccountWitness c (sign (witness_account_data b0 h c))"

section \<open>Payloads\<close>

record ('p, 'a) payload =
  has_data :: bool
  has_auth :: bool
  payload_read :: "'p reader"
  auth_read :: "'a reader"
  payload_data :: "'p \<Rightarrow> u8 list"
  payload_auth_data :: "'a \<Rightarrow> u8 list"
  certificate_of :: "certificate_slice option"

definition no_extra :: "(unit, unit) payload" where
  "no_extra = \<lparr>has_data = False, has_auth = False, payload_read = read_unit, auth_read = read_unit,
     payload_data = (\<lambda>_. []), payload_auth_data = (\<lambda>_. []), certificate_of = None\<rparr>"

section \<open>The layout of a transaction\<close>

datatype tx_struct_error =
    CannotReadNbInputs | CannotReadNbOutputs | CannotReadExpiryDate | PayloadInvalid | InputsInvalid | OutputsInvalid
  | WitnessesInvalid | SpuriousTrailingData | PayloadAuthMissing | PayloadAuthInvalid

record tx_struct =
  ts_sz :: nat
  ts_nb_inputs :: u8
  ts_nb_outputs :: u8
  ts_valid_until :: block_date
  ts_inputs :: nat
  ts_outputs :: nat
  ts_witnesses :: nat
  ts_payload_auth :: nat

primrec validate_times :: "'a reader \<Rightarrow> nat \<Rightarrow> unit reader" where
  "validate_times rd 0 b = Ok ((), b)"
| "validate_times rd (Suc n) b = obind (read_validate rd b) (\<lambda>(_, b). validate_times rd n b)"

text \<open>The payload, read to check it, and its authentication, which must not be missing.\<close>

definition spine_payload :: "('p, 'a) payload \<Rightarrow> u8 list \<Rightarrow> (tx_struct_error, unit \<times> read_buf) outcome" where
  "spine_payload P bs =
     (if has_data P then map_err (\<lambda>_. PayloadInvalid) (read_validate (payload_read P) (rb_from bs)) else Ok ((), rb_from bs))"

definition spine_auth :: "('p, 'a) payload \<Rightarrow> read_buf \<Rightarrow> (tx_struct_error, unit \<times> read_buf) outcome" where
  "spine_auth P rb =
     (if has_data P \<and> has_auth P then
        obind (unwrap (is_end rb)) (\<lambda>e.
        if e then Err PayloadAuthMissing
        else map_err (\<lambda>_. PayloadAuthInvalid) (read_validate (auth_read P) rb))
      else Ok ((), rb))"

definition get_spine :: "('p, 'a) payload \<Rightarrow> u8 list \<Rightarrow> (tx_struct_error, tx_struct) outcome" where
  "get_spine P bs =
     obind (spine_payload P bs) (\<lambda>(_, rb).
     obind (map_err (\<lambda>_. CannotReadExpiryDate) (get_u32 rb)) (\<lambda>(epoch, rb).
     obind (map_err (\<lambda>_. CannotReadExpiryDate) (get_u32 rb)) (\<lambda>(slot, rb).
     obind (map_err (\<lambda>_. CannotReadNbInputs) (get_u8 rb)) (\<lambda>(nb_in, rb).
     obind (map_err (\<lambda>_. CannotReadNbOutputs) (get_u8 rb)) (\<lambda>(nb_out, rb).
     let inputs_pos = position rb in
     obind (map_err (\<lambda>_. InputsInvalid) (skip_bytes (unat nb_in * INPUT_SIZE) rb)) (\<lambda>(_, rb).
     let outputs_pos = position rb in
     obind (map_err (\<lambda>_. OutputsInvalid) (validate_times (read_output address_read) (unat nb_out) rb)) (\<lambda>(_, rb).
     let witnesses_pos = position rb in
     obind (map_err (\<lambda>_. WitnessesInvalid) (validate_times witness_read (unat nb_in) rb)) (\<lambda>(_, rb).
     let payload_auth_pos = position rb in
     obind (spine_auth P rb) (\<lambda>(_, rb).
     obind (unwrap (is_end rb)) (\<lambda>e.
     if \<not> e then Err SpuriousTrailingData
     else Ok \<lparr>ts_sz = length bs, ts_nb_inputs = nb_in, ts_nb_outputs = nb_out, ts_valid_until = BlockDate epoch slot,
       ts_inputs = inputs_pos, ts_outputs = outputs_pos, ts_witnesses = witnesses_pos, ts_payload_auth = payload_auth_pos\<rparr>))))))))))"

record tx_slice =
  tx_data :: "u8 list"
  tstruct :: tx_struct

definition tx_check :: "('p, 'a) payload \<Rightarrow> u8 list \<Rightarrow> (tx_struct_error, tx_slice) outcome" where
  "tx_check P bs = obind (get_spine P bs) (\<lambda>ts. Ok \<lparr>tx_data = bs, tstruct = ts\<rparr>)"


section \<open>Reading the parts back\<close>

text \<open>
  A \<open>for\<close> loop over an iterator: \<open>next\<close> gives the next element and the advanced iterator, or nothing
  at the end. The fuel bounds the number of rounds; running out of it is a panic of the model only,
  which the layout theorem excludes for every transaction that was checked or built.
\<close>

primrec for_each ::
  "('s \<Rightarrow> ('e, ('x \<times> 's) option) outcome) \<Rightarrow> ('x \<Rightarrow> 'l \<Rightarrow> ('e, 'l) outcome) \<Rightarrow> nat \<Rightarrow> 's \<Rightarrow> 'l \<Rightarrow> ('e, 'l) outcome" where
  "for_each nxt f 0 s acc = Panic"
| "for_each nxt f (Suc n) s acc =
     obind (nxt s) (\<lambda>r. case r of None \<Rightarrow> Ok acc | Some (x, s') \<Rightarrow> obind (f x acc) (\<lambda>acc'. for_each nxt f n s' acc'))"

definition inputs_next :: "u8 \<Rightarrow> u8 list \<Rightarrow> nat \<Rightarrow> ('e, (tx_input \<times> nat) option) outcome" where
  "inputs_next nb s i =
     (if i \<ge> unat nb then Ok None
      else obind (vec_slice s (i * INPUT_SIZE) (i * INPUT_SIZE + INPUT_SIZE)) (\<lambda>a.
           obind (input_from_array a) (\<lambda>x. Ok (Some (x, i + 1)))))"

definition part_next :: "'x reader \<Rightarrow> u8 list \<Rightarrow> nat \<Rightarrow> ('e, ('x \<times> nat) option) outcome" where
  "part_next rd s i =
     (if i = length s then Ok None
      else obind (unwrap (skip_bytes i (rb_from s))) (\<lambda>(_, rb).
           obind (unwrap (rd rb)) (\<lambda>(x, rb). Ok (Some (x, position rb)))))"

definition outputs_next :: "u8 list \<Rightarrow> nat \<Rightarrow> ('e, (address tx_output \<times> nat) option) outcome" where
  "outputs_next = part_next (read_output address_read)"

definition witnesses_next :: "u8 list \<Rightarrow> nat \<Rightarrow> ('e, (tx_witness \<times> nat) option) outcome" where
  "witnesses_next = part_next witness_read"

definition inputs_witnesses_next ::
  "u8 \<Rightarrow> u8 list \<Rightarrow> u8 list \<Rightarrow> nat \<times> nat \<Rightarrow> ('e, ((tx_input \<times> tx_witness) \<times> nat \<times> nat) option) outcome" where
  "inputs_witnesses_next nb s ws = (\<lambda>(i, j).
     obind (inputs_next nb s i) (\<lambda>r. obind (witnesses_next ws j) (\<lambda>q.
       case (r, q) of
         (None, None) \<Rightarrow> Ok None
       | (Some (x, i'), Some (w, j')) \<Rightarrow> Ok (Some ((x, w), i', j'))
       | _ \<Rightarrow> Panic)))"

text \<open>The slices of the parts; ranges are checked as in Rust.\<close>

definition nb_inputs :: "tx_slice \<Rightarrow> u8" where "nb_inputs tx = ts_nb_inputs (tstruct tx)"
definition nb_outputs :: "tx_slice \<Rightarrow> u8" where "nb_outputs tx = ts_nb_outputs (tstruct tx)"
definition nb_witnesses :: "tx_slice \<Rightarrow> u8" where "nb_witnesses tx = ts_nb_inputs (tstruct tx)"
definition valid_until :: "tx_slice \<Rightarrow> block_date" where "valid_until tx = ts_valid_until (tstruct tx)"

definition inputs_slice :: "tx_slice \<Rightarrow> ('e, u8 list) outcome" where
  "inputs_slice tx = vec_slice (tx_data tx) (ts_inputs (tstruct tx)) (ts_outputs (tstruct tx))"

definition outputs_slice :: "tx_slice \<Rightarrow> ('e, u8 list) outcome" where
  "outputs_slice tx = vec_slice (tx_data tx) (ts_outputs (tstruct tx)) (ts_witnesses (tstruct tx))"

definition witnesses_slice :: "tx_slice \<Rightarrow> ('e, u8 list) outcome" where
  "witnesses_slice tx = vec_slice (tx_data tx) (ts_witnesses (tstruct tx)) (ts_payload_auth (tstruct tx))"

definition transaction_auth_data :: "tx_slice \<Rightarrow> ('e, u8 list) outcome" where
  "transaction_auth_data tx = vec_slice (tx_data tx) 0 (ts_witnesses (tstruct tx))"

definition transaction_sign_data_hash :: "(u8 list \<Rightarrow> digest) \<Rightarrow> tx_slice \<Rightarrow> ('e, digest) outcome" where
  "transaction_sign_data_hash blake tx = omap blake (transaction_auth_data tx)"

definition transaction_binding_auth_data :: "tx_slice \<Rightarrow> ('e, u8 list) outcome" where
  "transaction_binding_auth_data tx = vec_slice (tx_data tx) 0 (ts_payload_auth (tstruct tx))"

definition into_payload :: "('p, 'a) payload \<Rightarrow> tx_slice \<Rightarrow> ('e, 'p) outcome" where
  "into_payload P tx =
     obind (vec_slice (tx_data tx) 0 (ts_inputs (tstruct tx))) (\<lambda>s. obind (unwrap (payload_read P (rb_from s))) (\<lambda>(p, _). Ok p))"

definition into_payload_auth :: "('p, 'a) payload \<Rightarrow> tx_slice \<Rightarrow> ('e, 'a) outcome" where
  "into_payload_auth P tx =
     obind (vec_slice (tx_data tx) (ts_payload_auth (tstruct tx)) (length (tx_data tx))) (\<lambda>s.
     obind (unwrap (auth_read P (rb_from s))) (\<lambda>(a, _). Ok a))"

text \<open>The loops over inputs, outputs and witnesses; a part of \<open>n\<close> bytes has at most \<open>n\<close> elements.\<close>

definition each_input :: "tx_slice \<Rightarrow> (tx_input \<Rightarrow> 'l \<Rightarrow> ('e, 'l) outcome) \<Rightarrow> 'l \<Rightarrow> ('e, 'l) outcome" where
  "each_input tx f acc = obind (inputs_slice tx) (\<lambda>s. for_each (inputs_next (nb_inputs tx) s) f 256 0 acc)"

definition each_output :: "tx_slice \<Rightarrow> (address tx_output \<Rightarrow> 'l \<Rightarrow> ('e, 'l) outcome) \<Rightarrow> 'l \<Rightarrow> ('e, 'l) outcome" where
  "each_output tx f acc = obind (outputs_slice tx) (\<lambda>s. for_each (outputs_next s) f (Suc (length s)) 0 acc)"

definition each_witness :: "tx_slice \<Rightarrow> (tx_witness \<Rightarrow> 'l \<Rightarrow> ('e, 'l) outcome) \<Rightarrow> 'l \<Rightarrow> ('e, 'l) outcome" where
  "each_witness tx f acc = obind (witnesses_slice tx) (\<lambda>s. for_each (witnesses_next s) f (Suc (length s)) 0 acc)"

definition each_input_witness ::
  "tx_slice \<Rightarrow> (tx_input \<times> tx_witness \<Rightarrow> 'l \<Rightarrow> ('e, 'l) outcome) \<Rightarrow> 'l \<Rightarrow> ('e, 'l) outcome" where
  "each_input_witness tx f acc =
     obind (inputs_slice tx) (\<lambda>s. obind (witnesses_slice tx) (\<lambda>ws.
     for_each (inputs_witnesses_next (nb_inputs tx) s ws) f 256 (0, 0) acc))"

section \<open>The balance\<close>

datatype balance = PositiveBalance val | NegativeBalance val | ZeroBalance

datatype balance_error = InputsTotalFailed value_error | OutputsTotalFailed value_error | NotBalanced val val

text \<open>\<open>Value::sum\<close> folds over the whole iterator, so all elements are read before an overflow is reported.\<close>

definition total_input :: "tx_slice \<Rightarrow> (value_error, val) outcome" where
  "total_input tx = obind (each_input tx (\<lambda>i acc. Ok (acc @ [in_value i])) []) value_sum"

definition total_output :: "tx_slice \<Rightarrow> (value_error, val) outcome" where
  "total_output tx = obind (each_output tx (\<lambda>o' acc. Ok (acc @ [out_value o'])) []) value_sum"

text \<open>Inputs against outputs and fee.\<close>

definition compare_balance :: "val \<Rightarrow> val \<Rightarrow> (value_error, balance) outcome" where
  "compare_balance inputs z =
     (if inputs > z then obind (value_sub inputs z) (\<lambda>d. Ok (PositiveBalance d))
      else if inputs < z then obind (value_sub z inputs) (\<lambda>d. Ok (NegativeBalance d))
      else Ok ZeroBalance)"

definition tx_balance :: "tx_slice \<Rightarrow> val \<Rightarrow> (value_error, balance) outcome" where
  "tx_balance tx fee =
     obind (total_input tx) (\<lambda>inputs. obind (total_output tx) (\<lambda>outputs. obind (value_add outputs fee) (\<lambda>z.
     compare_balance inputs z)))"

definition verify_strictly_balanced :: "tx_slice \<Rightarrow> val \<Rightarrow> (balance_error, unit) outcome" where
  "verify_strictly_balanced tx fee =
     obind (map_err InputsTotalFailed (total_input tx)) (\<lambda>inputs.
     obind (map_err OutputsTotalFailed (obind (total_output tx) (\<lambda>out. value_add out fee))) (\<lambda>outputs.
     if inputs \<noteq> outputs then Err (NotBalanced inputs outputs) else Ok ()))"

definition verify_possibly_balanced :: "tx_slice \<Rightarrow> (balance_error, unit) outcome" where
  "verify_possibly_balanced tx =
     obind (map_err InputsTotalFailed (total_input tx)) (\<lambda>inputs.
     obind (map_err OutputsTotalFailed (total_output tx)) (\<lambda>outputs.
     if inputs < outputs then Err (NotBalanced inputs outputs) else Ok ()))"

section \<open>Building transactions\<close>

definition tx_builder_new :: tx_slice where
  "tx_builder_new = \<lparr>tx_data = [], tstruct = \<lparr>ts_sz = 0, ts_nb_inputs = 0, ts_nb_outputs = 0, ts_valid_until = block_date_first,
     ts_inputs = 0, ts_outputs = 0, ts_witnesses = 0, ts_payload_auth = 0\<rparr>\<rparr>"

definition set_payload :: "('p, 'a) payload \<Rightarrow> 'p \<Rightarrow> tx_slice \<Rightarrow> tx_slice" where
  "set_payload P p b = (if has_data P then b\<lparr>tx_data := tx_data b @ payload_data P p\<rparr> else b)"

definition set_expiry_date :: "block_date \<Rightarrow> tx_slice \<Rightarrow> tx_slice" where
  "set_expiry_date d b =
     b\<lparr>tx_data := tx_data b @ to_be_bytes (bd_epoch d) @ to_be_bytes (bd_slot d), tstruct := (tstruct b)\<lparr>ts_valid_until := d\<rparr>\<rparr>"

fun output_data :: "address tx_output list \<Rightarrow> u8 list \<Rightarrow> ('e, u8 list) outcome" where
  "output_data [] w = Ok w"
| "output_data (o' # os) w = obind (address_to_bytes (out_address o')) (\<lambda>a. output_data os (w @ a @ value_bytes (out_value o')))"

definition set_ios :: "tx_input list \<Rightarrow> address tx_output list \<Rightarrow> tx_slice \<Rightarrow> ('e, tx_slice) outcome" where
  "set_ios ins outs b =
     obind (require (length ins < 256)) (\<lambda>_. obind (require (length outs < 256)) (\<lambda>_.
     let w = tx_data b @ [of_nat (length ins), of_nat (length outs)]; wi = w @ concat (map input_bytes ins) in
     obind (output_data outs wi) (\<lambda>wo.
     Ok (b\<lparr>tx_data := wo, tstruct := (tstruct b)\<lparr>ts_nb_inputs := of_nat (length ins), ts_nb_outputs := of_nat (length outs),
       ts_inputs := length w, ts_outputs := length wi\<rparr>\<rparr>))))"

fun witness_bytes_loop :: "tx_witness list \<Rightarrow> u8 list \<Rightarrow> ('e, u8 list) outcome" where
  "witness_bytes_loop [] w = Ok w"
| "witness_bytes_loop (x # xs) w = obind (witness_to_bytes x) (\<lambda>s. witness_bytes_loop xs (w @ s))"

definition set_witnesses_unchecked :: "tx_witness list \<Rightarrow> tx_slice \<Rightarrow> ('e, tx_slice) outcome" where
  "set_witnesses_unchecked ws b =
     obind (witness_bytes_loop ws (tx_data b)) (\<lambda>w.
     Ok (b\<lparr>tx_data := w, tstruct := (tstruct b)\<lparr>ts_witnesses := length (tx_data b)\<rparr>\<rparr>))"

definition set_witnesses :: "tx_witness list \<Rightarrow> tx_slice \<Rightarrow> ('e, tx_slice) outcome" where
  "set_witnesses ws b =
     obind (require (length ws = unat (ts_nb_inputs (tstruct b)))) (\<lambda>_. set_witnesses_unchecked ws b)"

definition set_payload_auth :: "('p, 'a) payload \<Rightarrow> 'a \<Rightarrow> tx_slice \<Rightarrow> tx_slice" where
  "set_payload_auth P a b =
     (let w = (if has_data P \<and> has_auth P then tx_data b @ payload_auth_data P a else tx_data b)
      in b\<lparr>tx_data := w, tstruct := (tstruct b)\<lparr>ts_payload_auth := length (tx_data b), ts_sz := length w\<rparr>\<rparr>)"

text \<open>Inputs and outputs collected before a transaction is built.\<close>

record io_builder =
  io_inputs :: "tx_input list"
  io_outputs :: "address tx_output list"

datatype io_error_tx = TxInvalidNoInput | TxInvalidNoOutput | TxTooManyInputs | TxTooManyOutputs
  | TxNotEnoughTotalInput | TxTooMuchTotalInput | MathErr value_error

datatype output_policy = PolicyOne address | PolicyForget

definition io_empty :: io_builder where "io_empty = \<lparr>io_inputs = [], io_outputs = []\<rparr>"

definition io_new :: "tx_input list \<Rightarrow> address tx_output list \<Rightarrow> (io_error_tx, io_builder) outcome" where
  "io_new ins outs =
     (if length ins > 255 then Err TxTooManyInputs
      else if length outs > 255 then Err TxTooManyOutputs
      else Ok \<lparr>io_inputs = ins, io_outputs = outs\<rparr>)"

definition io_add_input :: "io_builder \<Rightarrow> tx_input \<Rightarrow> (io_error_tx, io_builder) outcome" where
  "io_add_input b i = (if length (io_inputs b) = 255 then Err TxTooManyInputs else Ok (b\<lparr>io_inputs := io_inputs b @ [i]\<rparr>))"

definition io_add_output :: "io_builder \<Rightarrow> address \<Rightarrow> val \<Rightarrow> (io_error_tx, io_builder) outcome" where
  "io_add_output b a v =
     (if length (io_outputs b) = 255 then Err TxTooManyOutputs
      else Ok (b\<lparr>io_outputs := io_outputs b @ [\<lparr>out_address = a, out_value = v\<rparr>]\<rparr>))"

definition io_remove_input :: "io_builder \<Rightarrow> nat \<Rightarrow> io_builder" where
  "io_remove_input b i = (if i < length (io_inputs b) then b\<lparr>io_inputs := remove_at i (io_inputs b)\<rparr> else b)"

definition io_remove_output :: "io_builder \<Rightarrow> nat \<Rightarrow> io_builder" where
  "io_remove_output b i = (if i < length (io_outputs b) then b\<lparr>io_outputs := remove_at i (io_outputs b)\<rparr> else b)"

definition io_balance :: "io_builder \<Rightarrow> val \<Rightarrow> (value_error, balance) outcome" where
  "io_balance b fee =
     obind (value_sum (map in_value (io_inputs b))) (\<lambda>inputs. obind (value_sum (map out_value (io_outputs b))) (\<lambda>outputs.
     obind (value_add outputs fee) (\<lambda>z. compare_balance inputs z)))"

text \<open>The fee algorithm is the linear fee of the ledger; the payload matters for its kind of certificate.\<close>

definition estimate_fee :: "io_builder \<Rightarrow> certificate_slice option \<Rightarrow> linear_fee \<Rightarrow> val" where
  "estimate_fee b cert fees = fee_calculate fees cert (of_nat (length (io_inputs b))) (of_nat (length (io_outputs b)))"

definition io_get_balance :: "io_builder \<Rightarrow> certificate_slice option \<Rightarrow> linear_fee \<Rightarrow> (value_error, balance) outcome" where
  "io_get_balance b cert fees = io_balance b (estimate_fee b cert fees)"

definition get_balance_with_placeholders ::
  "io_builder \<Rightarrow> certificate_slice option \<Rightarrow> linear_fee \<Rightarrow> u8 \<Rightarrow> u8 \<Rightarrow> (io_error_tx, balance) outcome" where
  "get_balance_with_placeholders b cert fees ip op =
     (if length (io_inputs b) + unat ip \<ge> 256 then Err TxTooManyInputs
      else if length (io_outputs b) + unat op \<ge> 256 then Err TxTooManyOutputs
      else obind (padd (of_nat (length (io_inputs b))) ip) (\<lambda>ni. obind (padd (of_nat (length (io_outputs b))) op) (\<lambda>no.
           map_err MathErr (io_balance b (fee_calculate fees cert ni no)))))"

definition get_balance_without_fee :: "io_builder \<Rightarrow> (value_error, balance) outcome" where
  "get_balance_without_fee b = io_balance b value_zero"

definition io_seal :: "io_builder \<Rightarrow> certificate_slice option \<Rightarrow> linear_fee \<Rightarrow> (io_error_tx, io_builder) outcome" where
  "io_seal b cert fees =
     obind (map_err MathErr (io_get_balance b cert fees)) (\<lambda>r. case r of
       NegativeBalance _ \<Rightarrow> Err TxNotEnoughTotalInput | PositiveBalance _ \<Rightarrow> Err TxTooMuchTotalInput | ZeroBalance \<Rightarrow> Ok b)"

definition seal_with_output_policy ::
  "io_builder \<Rightarrow> certificate_slice option \<Rightarrow> linear_fee \<Rightarrow> output_policy
   \<Rightarrow> (io_error_tx, balance \<times> address tx_output list \<times> io_builder) outcome" where
  "seal_with_output_policy b cert fees policy =
     obind (map_err MathErr (io_balance b (estimate_fee b cert fees))) (\<lambda>r. case r of
       NegativeBalance _ \<Rightarrow> Err TxNotEnoughTotalInput
     | ZeroBalance \<Rightarrow> Ok (ZeroBalance, [], b)
     | PositiveBalance pos \<Rightarrow>
         (case policy of
            PolicyForget \<Rightarrow> Ok (PositiveBalance pos, [], b)
          | PolicyOne a \<Rightarrow>
              obind (io_add_output b a value_zero) (\<lambda>b1.
              case io_balance b1 (estimate_fee b1 cert fees) of
                Ok (PositiveBalance v) \<Rightarrow>
                  (let o' = \<lparr>out_address = a, out_value = v\<rparr>
                   in Ok (ZeroBalance, [o'], b1\<lparr>io_outputs := butlast (io_outputs b1) @ [o']\<rparr>))
              | Panic \<Rightarrow> Panic
              | _ \<Rightarrow> Ok (PositiveBalance pos, [], b1\<lparr>io_outputs := butlast (io_outputs b1)\<rparr>))))"


section \<open>Where a reader stands\<close>

text \<open>
  Readers never replace the buffer they read from. With that law the offset of the cursor is the
  length of what was read before it.
\<close>

named_theorems keeps "readers that keep the buffer"

definition keeps_data :: "'a reader \<Rightarrow> bool" where
  "keeps_data rd \<longleftrightarrow> (\<forall>b x b'. rd b = Ok (x, b') \<longrightarrow> rdata b' = rdata b)"

lemma keeps_bind [keeps]:
  assumes "keeps_data rd" and "\<And>x. keeps_data (f x)"
  shows "keeps_data (\<lambda>b. obind (rd b) (\<lambda>(x, b'). f x b'))"
  unfolding keeps_data_def
proof (intro allI impI)
  fix b y b' assume "obind (rd b) (\<lambda>(x, b'). f x b') = Ok (y, b')"
  then obtain x b1 where "rd b = Ok (x, b1)" "f x b1 = Ok (y, b')" by (auto simp: outcome_simps)
  then show "rdata b' = rdata b" using assms unfolding keeps_data_def by metis
qed

lemma keeps_simple [keeps]:
  "keeps_data (\<lambda>b. Ok (x, b))" "keeps_data (\<lambda>b. Err e)" "keeps_data (\<lambda>b. Panic)"
  by (simp_all add: keeps_data_def)

lemma keeps_if [keeps]: "keeps_data f \<Longrightarrow> keeps_data g \<Longrightarrow> keeps_data (\<lambda>b. if c then f b else g b)"
  by (simp add: keeps_data_def)

lemma keeps_check [keeps]: "(\<And>x. keeps_data (f x)) \<Longrightarrow> keeps_data (\<lambda>b. obind (ok_or e m) (\<lambda>x. f x b))"
  by (cases m) (auto simp: keeps_data_def ok_or_def)

lemma keeps_option [keeps]: "keeps_data f \<Longrightarrow> (\<And>x. keeps_data (g x)) \<Longrightarrow> keeps_data (\<lambda>b. case m of None \<Rightarrow> f b | Some x \<Rightarrow> g x b)"
  by (cases m) auto

lemma keeps_step [keeps]: "(\<And>x. keeps_data (f x)) \<Longrightarrow> keeps_data (\<lambda>b. obind m (\<lambda>x. f x b))"
  by (cases m) (auto simp: keeps_data_def)

lemma keeps_slice [keeps]: "keeps_data (get_slice n)" "keeps_data get_u8" "keeps_data (read_array n)" "keeps_data (copy_to_slice_mut n)"
  by (auto simp: keeps_data_def get_slice_def get_u8_def read_array_def copy_to_slice_mut_def outcome_simps)

lemma keeps_integers [keeps]: "keeps_data get_u16" "keeps_data get_u32" "keeps_data get_u64" "keeps_data get_u128"
  unfolding get_u16_def [abs_def] get_u32_def [abs_def] get_u64_def [abs_def] get_u128_def [abs_def] by (intro keeps)+

lemma keeps_vec [keeps]: "keeps_data rd \<Longrightarrow> keeps_data (read_vec rd n)"
proof (induction n)
  case (Suc n)
  have "read_vec rd (Suc n) = (\<lambda>b. obind (rd b) (\<lambda>(t, b'). obind (read_vec rd n b') (\<lambda>(ts, b''). Ok (t # ts, b''))))" by auto
  then show ?case using Suc by (auto intro!: keeps)
qed (simp add: keeps_data_def)

locale positioned_format = canonical_format +
  assumes keeps_buffer: "keeps_data rd"
begin

lemma step_read:
  assumes "rb_ok b" and "rdata b = pre @ rest b" and "rd b = Ok (x, b')"
  shows "valid x" and "rb_ok b'" and "rdata b' = (pre @ enc x) @ rest b'" and "rdata b' = rdata b"
  using rd_canonical [OF assms(1,3)] keeps_buffer assms by (auto simp: keeps_data_def)

lemma step_write:
  assumes "valid x" and "rb_ok b" and "rdata b = pre @ rest b" and "rest b = enc x @ r"
  shows "\<exists>b'. rd b = Ok (x, b') \<and> rb_ok b' \<and> rest b' = r \<and> rdata b' = (pre @ enc x) @ r"
  using rd_enc [OF assms(1,2,4)] keeps_buffer assms(3,4) by (auto simp: keeps_data_def)

end

lemma cursor_position:
  assumes "rb_ok b" and "rdata b = pre @ rest b"
  shows "position b = length pre"
proof -
  have "length (rdata b) = length pre + (length (rdata b) - offset b)" using arg_cong [OF assms(2), of length] by (simp add: rest_def)
  then show ?thesis using assms(1) by (simp add: position_def rb_ok_def)
qed

lemma position_cursor: "rb_ok b \<Longrightarrow> rdata b = take (position b) (rdata b) @ rest b"
  by (simp add: position_def rest_def)


section \<open>Formats of the parts\<close>

definition input_ok :: "tx_input \<Rightarrow> bool" where
  "input_ok i \<longleftrightarrow> length (input_ptr i) = INPUT_PTR_SIZE"

lemma input_bytes_length: "input_ok i \<Longrightarrow> length (input_bytes i) = INPUT_SIZE"
  by (simp add: input_ok_def input_bytes_def INPUT_SIZE_def INPUT_PTR_SIZE_def length_to_bytes)

lemma inputs_bytes_length: "\<forall>i \<in> set is. input_ok i \<Longrightarrow> length (concat (map input_bytes is)) = length is * INPUT_SIZE"
  by (induction "is") (simp_all add: input_bytes_length)

text \<open>The 41 bytes of an input carry it, and every 41 bytes are an input.\<close>

lemma input_from_bytes: "input_ok i \<Longrightarrow> input_from_array (input_bytes i) = Ok i"
  by (simp add: input_from_array_def input_bytes_def input_new_def unwrap_opt_def value_try_from_def length_to_bytes)

lemma bytes_from_input:
  assumes "length a = INPUT_SIZE"
  shows "\<exists>i. input_from_array a = Ok i \<and> input_ok i \<and> input_bytes i = a"
proof -
  obtain x t where a: "a = x # t" using assms by (cases a) (auto simp: INPUT_SIZE_def)
  have t: "length t = 40" using assms a by (simp add: INPUT_SIZE_def)
  let ?i = "input_new x (Value (from_be_bytes (take 8 t))) (drop 8 t)"
  have "input_from_array a = Ok ?i" using t by (simp add: a input_from_array_def unwrap_opt_def value_try_from_def)
  moreover have "to_be_bytes (from_be_bytes (take 8 t) :: u64) = take 8 t" using t by simp
  then have "input_bytes ?i = a" by (simp add: input_bytes_def input_new_def a)
  moreover have "input_ok ?i" using t by (simp add: input_ok_def input_new_def INPUT_PTR_SIZE_def)
  ultimately show ?thesis by blast
qed

lemma input_chunks:
  assumes "length s = n * INPUT_SIZE"
  shows "\<exists>is. length is = n \<and> (\<forall>i \<in> set is. input_ok i) \<and> s = concat (map input_bytes is)"
  using assms
proof (induction n arbitrary: s)
  case (Suc n)
  then have len: "length (take INPUT_SIZE s) = INPUT_SIZE" "length (drop INPUT_SIZE s) = n * INPUT_SIZE" by simp_all
  obtain i where i: "input_ok i" "input_bytes i = take INPUT_SIZE s" using bytes_from_input [OF len(1)] by blast
  obtain ts where ts: "length ts = n" "\<forall>i \<in> set ts. input_ok i" "drop INPUT_SIZE s = concat (map input_bytes ts)"
    using Suc.IH [OF len(2)] by blast
  have "s = concat (map input_bytes (i # ts))" using append_take_drop_id [of INPUT_SIZE s] i(2) ts(3) by simp
  then show ?case using i(1) ts(1,2) by (intro exI [of _ "i # ts"]) simp
qed simp

fun witness_ok :: "tx_witness \<Rightarrow> bool" where
  "witness_ok (UtxoWitness s) \<longleftrightarrow> sig_ok s"
| "witness_ok (AccountWitness c s) \<longleftrightarrow> sig_ok s"
| "witness_ok (OldUtxoWitness pk cc s) \<longleftrightarrow> key_ok pk \<and> length cc = 32 \<and> sig_ok s"
| "witness_ok (MultisigWitness c w) \<longleftrightarrow> ms_witness_ok w"

fun witness_bytes :: "tx_witness \<Rightarrow> u8 list" where
  "witness_bytes (UtxoWitness s) = 1 # sig_bytes s"
| "witness_bytes (AccountWitness c s) = 2 # to_be_bytes (counter_bits c) @ sig_bytes s"
| "witness_bytes (OldUtxoWitness pk cc s) = 0 # pk_bytes pk @ cc @ sig_bytes s"
| "witness_bytes (MultisigWitness c w) = 3 # to_be_bytes (counter_bits c) @ of_nat (length w - 1) # concat (map element_bytes w)"

lemma keeps_mut_slice [keeps]: "keeps_data rd \<Longrightarrow> keeps_data (read_mut_slice rd v)"
  unfolding read_mut_slice_def [abs_def] by (intro keeps)

lemma public_key_keeps [keeps]: "keeps_data (deserialize_public_key n f)"
  unfolding deserialize_public_key_def [abs_def] by (intro keeps)

lemma signature_keeps [keeps]: "keeps_data deserialize_signature"
  unfolding deserialize_signature_def [abs_def] by (intro keeps)

lemma index_keeps [keeps]: "keeps_data deserialize_index"
  unfolding deserialize_index_def [abs_def] by (intro keeps)

lemma ordered_keeps [keeps]: "keeps_data (read_ordered n prev)"
proof (induction n arbitrary: prev)
  case (Suc n)
  have "read_ordered (Suc n) prev = (\<lambda>buf. obind (deserialize_index buf) (\<lambda>(ti, buf).
       if ti \<le> prev then Err (StructureInvalid ''index not in order'')
       else obind (read_ed25519 buf) (\<lambda>(pk, buf). obind (deserialize_signature buf) (\<lambda>(sg, buf).
            obind (read_ordered n ti buf) (\<lambda>(v, buf). Ok ((ti, pk, sg) # v, buf))))))" by auto
  then show ?case using Suc by (auto intro!: keeps)
qed (simp add: keeps_data_def)

lemma ms_witness_keeps [keeps]: "keeps_data ms_witness_read"
  unfolding ms_witness_read_def [abs_def] by (intro keeps)

lemma witness_keeps [keeps]: "keeps_data witness_read"
  unfolding witness_read_def [abs_def] by (intro keeps)

lemma witness_format: "canonical_format witness_ok witness_bytes witness_read"
proof -
  let ?tag = "\<lambda>w. hd (witness_bytes w)" and ?r = "\<lambda>w. tl (witness_bytes w)"
  note cases = witness_ok.elims(2)
  have old: "canonical_format (\<lambda>w. witness_ok w \<and> ?tag w = 0) ?r (\<lambda>buf.
     obind (read_ed25519 buf) (\<lambda>(pk, buf). obind (read_array 32 buf) (\<lambda>(cc, buf). obind (deserialize_signature buf) (\<lambda>(sig, buf).
         Ok (OldUtxoWitness pk cc sig, buf)))))"
  proof (rule format_transfer)
    show "canonical_format (\<lambda>w. witness_ok w \<and> ?tag w = 0) (record_bytes [\<lambda>w. pk_bytes (case w of OldUtxoWitness pk cc s \<Rightarrow> pk),
        \<lambda>w. case w of OldUtxoWitness pk cc s \<Rightarrow> cc, \<lambda>w. sig_bytes (case w of OldUtxoWitness pk cc s \<Rightarrow> s)]) (\<lambda>buf.
     obind (read_ed25519 buf) (\<lambda>(pk, buf). obind (read_array 32 buf) (\<lambda>(cc, buf). obind (deserialize_signature buf) (\<lambda>(sig, buf).
         Ok (OldUtxoWitness pk cc sig, buf)))))"
      by (rule field_format [OF ed25519_format], rule field_format [OF array_format], rule field_format [OF signature_format],
          rule end_format) (auto elim!: cases)
  qed (auto elim!: cases)
  have utxo: "canonical_format (\<lambda>w. witness_ok w \<and> ?tag w = 1) ?r (\<lambda>buf.
     obind (deserialize_signature buf) (\<lambda>(sig, buf). Ok (UtxoWitness sig, buf)))"
    by (rule map_format [OF signature_format, where h = "\<lambda>w. case w of UtxoWitness s \<Rightarrow> s"]) (auto elim!: cases)
  have acc: "canonical_format (\<lambda>w. witness_ok w \<and> ?tag w = 2) ?r (\<lambda>buf.
     obind (get_u32 buf) (\<lambda>(nonce, buf). obind (deserialize_signature buf) (\<lambda>(sig, buf). Ok (AccountWitness (SpendingCounter nonce) sig, buf))))"
  proof (rule format_transfer)
    show "canonical_format (\<lambda>w. witness_ok w \<and> ?tag w = 2) (record_bytes [\<lambda>w. to_be_bytes (case w of AccountWitness c s \<Rightarrow> counter_bits c),
        \<lambda>w. sig_bytes (case w of AccountWitness c s \<Rightarrow> s)]) (\<lambda>buf.
     obind (get_u32 buf) (\<lambda>(nonce, buf). obind (deserialize_signature buf) (\<lambda>(sig, buf). Ok (AccountWitness (SpendingCounter nonce) sig, buf))))"
      by (rule field_format [OF u32_format.canonical_format_axioms], rule field_format [OF signature_format], rule end_format)
        (auto elim!: cases)
  qed (auto elim!: cases)
  have multi: "canonical_format (\<lambda>w. witness_ok w \<and> ?tag w = 3) ?r (\<lambda>buf.
     obind (get_u32 buf) (\<lambda>(nonce, buf). obind (ms_witness_read buf) (\<lambda>(msig, buf). Ok (MultisigWitness (SpendingCounter nonce) msig, buf))))"
  proof (rule format_transfer)
    show "canonical_format (\<lambda>w. witness_ok w \<and> ?tag w = 3) (record_bytes [\<lambda>w. to_be_bytes (case w of MultisigWitness c s \<Rightarrow> counter_bits c),
        \<lambda>w. (\<lambda>w. of_nat (length w - 1) # concat (map element_bytes w)) (case w of MultisigWitness c s \<Rightarrow> s)]) (\<lambda>buf.
     obind (get_u32 buf) (\<lambda>(nonce, buf). obind (ms_witness_read buf) (\<lambda>(msig, buf). Ok (MultisigWitness (SpendingCounter nonce) msig, buf))))"
      by (rule field_format [OF u32_format.canonical_format_axioms], rule field_format [OF ms_witness_format], rule end_format)
        (auto elim!: cases)
  qed (auto elim!: cases)
  show ?thesis
    unfolding witness_read_def [abs_def] WITNESS_TAG_OLDUTXO_def WITNESS_TAG_UTXO_def WITNESS_TAG_ACCOUNT_def WITNESS_TAG_MULTISIG_def
  proof (rule bind_format [where p = ?tag and encr = "\<lambda>_. ?r", OF u8_format.canonical_format_axioms])
    fix x :: u8
    show "canonical_format (\<lambda>y. witness_ok y \<and> ?tag y = x) ?r (\<lambda>buf.
       if x = 0 then
         obind (read_ed25519 buf) (\<lambda>(pk, buf). obind (read_array 32 buf) (\<lambda>(cc, buf). obind (deserialize_signature buf) (\<lambda>(sig, buf).
         Ok (OldUtxoWitness pk cc sig, buf))))
       else if x = 1 then
         obind (deserialize_signature buf) (\<lambda>(sig, buf). Ok (UtxoWitness sig, buf))
       else if x = 2 then
         obind (get_u32 buf) (\<lambda>(nonce, buf). obind (deserialize_signature buf) (\<lambda>(sig, buf).
         Ok (AccountWitness (SpendingCounter nonce) sig, buf)))
       else if x = 3 then
         obind (get_u32 buf) (\<lambda>(nonce, buf). obind (ms_witness_read buf) (\<lambda>(msig, buf).
         Ok (MultisigWitness (SpendingCounter nonce) msig, buf)))
       else Err (UnknownTag (ucast x)))"
      using old utxo acc multi by (intro if_format fail_format) (auto elim!: cases)
  qed (auto elim!: cases)
qed

section \<open>The layout\<close>

record ('p, 'a) tx_parts =
  tp_payload :: 'p
  tp_date :: block_date
  tp_inputs :: "tx_input list"
  tp_outputs :: "address tx_output list"
  tp_witnesses :: "tx_witness list"
  tp_auth :: 'a

definition output_bytes :: "address tx_output \<Rightarrow> u8 list" where
  "output_bytes o' = address_bytes (out_address o') @ value_bytes (out_value o')"

definition payload_bytes :: "('p, 'a) payload \<Rightarrow> 'p \<Rightarrow> u8 list" where
  "payload_bytes P p = (if has_data P then payload_data P p else [])"

definition auth_bytes :: "('p, 'a) payload \<Rightarrow> 'a \<Rightarrow> u8 list" where
  "auth_bytes P a = (if has_data P \<and> has_auth P then payload_auth_data P a else [])"

definition date_bytes :: "block_date \<Rightarrow> u8 list" where
  "date_bytes d = to_be_bytes (bd_epoch d) @ to_be_bytes (bd_slot d)"

definition head_bytes :: "('p, 'a) payload \<Rightarrow> ('p, 'a) tx_parts \<Rightarrow> u8 list" where
  "head_bytes P t = payload_bytes P (tp_payload t) @ date_bytes (tp_date t)
     @ [of_nat (length (tp_inputs t)), of_nat (length (tp_outputs t))]"

abbreviation input_part :: "('p, 'a) tx_parts \<Rightarrow> u8 list" where "input_part t \<equiv> concat (map input_bytes (tp_inputs t))"
abbreviation output_part :: "('p, 'a) tx_parts \<Rightarrow> u8 list" where "output_part t \<equiv> concat (map output_bytes (tp_outputs t))"
abbreviation witness_part :: "('p, 'a) tx_parts \<Rightarrow> u8 list" where "witness_part t \<equiv> concat (map witness_bytes (tp_witnesses t))"

definition parts_bytes :: "('p, 'a) payload \<Rightarrow> ('p, 'a) tx_parts \<Rightarrow> u8 list" where
  "parts_bytes P t = head_bytes P t @ input_part t @ output_part t @ witness_part t @ auth_bytes P (tp_auth t)"

definition parts_struct :: "('p, 'a) payload \<Rightarrow> ('p, 'a) tx_parts \<Rightarrow> tx_struct" where
  "parts_struct P t = \<lparr>ts_sz = length (parts_bytes P t), ts_nb_inputs = of_nat (length (tp_inputs t)),
     ts_nb_outputs = of_nat (length (tp_outputs t)), ts_valid_until = tp_date t, ts_inputs = length (head_bytes P t),
     ts_outputs = length (head_bytes P t @ input_part t), ts_witnesses = length (head_bytes P t @ input_part t @ output_part t),
     ts_payload_auth = length (head_bytes P t @ input_part t @ output_part t @ witness_part t)\<rparr>"

definition parts_tx :: "('p, 'a) payload \<Rightarrow> ('p, 'a) tx_parts \<Rightarrow> tx_slice" where
  "parts_tx P t = \<lparr>tx_data = parts_bytes P t, tstruct = parts_struct P t\<rparr>"

definition parts_ok :: "('p, 'a) payload \<Rightarrow> ('p \<Rightarrow> bool) \<Rightarrow> ('a \<Rightarrow> bool) \<Rightarrow> ('p, 'a) tx_parts \<Rightarrow> bool" where
  "parts_ok P vp va t \<longleftrightarrow> (has_data P \<longrightarrow> vp (tp_payload t)) \<and> (has_data P \<and> has_auth P \<longrightarrow> va (tp_auth t))
     \<and> length (tp_inputs t) < 256 \<and> length (tp_outputs t) < 256 \<and> length (tp_witnesses t) = length (tp_inputs t)
     \<and> (\<forall>i \<in> set (tp_inputs t). input_ok i) \<and> (\<forall>o' \<in> set (tp_outputs t). address_ok (out_address o'))
     \<and> (\<forall>w \<in> set (tp_witnesses t). witness_ok w)"

lemma positionedI: "canonical_format v e rd \<Longrightarrow> keeps_data rd \<Longrightarrow> positioned_format v e rd"
  by (simp add: positioned_format_def positioned_format_axioms_def)

lemma output_keeps [keeps]: "keeps_data (read_output address_read)"
proof -
  have "keeps_data value_read" using keeps_integers(3) by (auto simp: keeps_data_def value_read_def outcome_simps)
  moreover have "keeps_data read_key" unfolding read_key_def [abs_def] by (intro keeps)
  then have "keeps_data address_read" unfolding address_read_def [abs_def] Let_def by (intro keeps)
  ultimately show ?thesis unfolding read_output_def [abs_def] by (intro keeps)
qed

lemmas u8_pos = positionedI [OF u8_format.canonical_format_axioms keeps_slice(2)]
lemmas u32_pos = positionedI [OF u32_format.canonical_format_axioms keeps_integers(2)]
lemmas outputs_pos = positionedI [OF vec_format [OF read_output_format] keeps_vec [OF output_keeps]]
lemmas witnesses_pos = positionedI [OF vec_format [OF witness_format] keeps_vec [OF witness_keeps]]

lemma validate_times_vec: "validate_times rd n b = omap (\<lambda>(_, b'). ((), b')) (read_vec rd n b)"
proof (induction n arbitrary: b)
  case (Suc n)
  show ?case
  proof (cases "rd b")
    case (Ok xb)
    then show ?thesis using Suc [of "snd xb"] by (cases "read_vec rd n (snd xb)") (auto simp: read_validate_def split_def)
  qed (simp_all add: read_validate_def)
qed simp

lemma skip_step:
  assumes "rb_ok b" and "rdata b = pre @ rest b"
  shows "skip_bytes n b = Ok (u, b') \<longleftrightarrow> n \<le> length (rest b) \<and> b' = advance n b"
    and "n \<le> length (rest b) \<Longrightarrow> rb_ok (advance n b) \<and> rdata (advance n b) = (pre @ take n (rest b)) @ rest (advance n b)"
  using assms advance_ok [OF assms(1), of n] append_take_drop_id [of n "rest b"]
  by (auto simp: skip_bytes_def assure_size_eq outcome_simps advance_def)


text \<open>
  A payload type whose data and authentication are written in formats of their own. An
  authentication is never empty: \<open>get_spine\<close> treats an empty one as missing.
\<close>

locale payload_format =
  fixes P :: "('p, 'a) payload" and vp :: "'p \<Rightarrow> bool" and va :: "'a \<Rightarrow> bool"
  assumes data_format: "has_data P \<Longrightarrow> positioned_format vp (payload_data P) (payload_read P)"
    and auth_format: "has_data P \<Longrightarrow> has_auth P \<Longrightarrow> positioned_format va (payload_auth_data P) (auth_read P)"
    and auth_nonempty: "va a \<Longrightarrow> payload_auth_data P a \<noteq> []"
begin

lemma payload_step:
  assumes "spine_payload P bs = Ok (u, b)"
  shows "\<exists>p. (has_data P \<longrightarrow> vp p) \<and> rb_ok b \<and> rdata b = payload_bytes P p @ rest b \<and> rdata b = bs"
proof (cases "has_data P")
  case True
  then obtain p where p: "payload_read P (rb_from bs) = Ok (p, b)" using assms by (auto simp: spine_payload_def outcome_simps read_validate_def)
  have b: "rb_ok (rb_from bs)" "rdata (rb_from bs) = [] @ rest (rb_from bs)" by (simp_all, simp add: rb_from_def)
  note st = positioned_format.step_read [OF data_format [OF True] b p]
  moreover have "rdata b = bs" using data_format [OF True] p unfolding positioned_format_def positioned_format_axioms_def keeps_data_def
    by (auto simp: rb_from_def)
  ultimately show ?thesis using True by (auto simp: payload_bytes_def)
qed (use assms in \<open>auto simp: spine_payload_def payload_bytes_def rb_from_def rb_ok_def rest_def\<close>)

lemma auth_step:
  assumes "spine_auth P b = Ok (u, b')"
    and "rb_ok b" and "rdata b = pre @ rest b"
  shows "\<exists>a. (has_data P \<and> has_auth P \<longrightarrow> va a) \<and> rb_ok b' \<and> rdata b' = (pre @ auth_bytes P a) @ rest b' \<and> rdata b' = rdata b"
proof (cases "has_data P \<and> has_auth P")
  case True
  then obtain a where a: "auth_read P b = Ok (a, b')" using assms(1) by (auto simp: spine_auth_def outcome_simps read_validate_def split: if_splits)
  note st = positioned_format.step_read [OF auth_format assms(2,3) a]
  moreover have "rdata b' = rdata b" using auth_format a True unfolding positioned_format_def positioned_format_axioms_def keeps_data_def by auto
  ultimately show ?thesis using True by (auto simp: auth_bytes_def)
qed (use assms in \<open>auto simp: spine_auth_def auth_bytes_def\<close>)

lemma spine_sound:
  assumes "get_spine P bs = Ok ts"
  shows "\<exists>t. parts_ok P vp va t \<and> bs = parts_bytes P t \<and> ts = parts_struct P t"
proof -
  from assms obtain b0 u0 epoch b1 sl b2 nin b3 nout b4 u5 b5 outs b6 wits b7 u8 b8 where
    r0: "spine_payload P bs = Ok (u0, b0)"
    and r1: "get_u32 b0 = Ok (epoch, b1)" and r2: "get_u32 b1 = Ok (sl, b2)" and r3: "get_u8 b2 = Ok (nin, b3)" and r4: "get_u8 b3 = Ok (nout, b4)"
    and r5: "skip_bytes (unat nin * INPUT_SIZE) b4 = Ok (u5, b5)" and r6: "read_vec (read_output address_read) (unat nout) b5 = Ok (outs, b6)"
    and r7: "read_vec witness_read (unat nin) b6 = Ok (wits, b7)"
    and r8: "spine_auth P b7 = Ok (u8, b8)"
    and r9: "is_end b8 = Ok True"
    and ts: "ts = \<lparr>ts_sz = length bs, ts_nb_inputs = nin, ts_nb_outputs = nout, ts_valid_until = BlockDate epoch sl,
       ts_inputs = position b4, ts_outputs = position b5, ts_witnesses = position b6, ts_payload_auth = position b7\<rparr>"
    unfolding get_spine_def validate_times_vec Let_def obind_Ok_iff split_paired_Ex prod.case map_err_iffs omap_iffs unwrap_iffs
    by (auto split: if_splits)
  obtain p where s0: "has_data P \<longrightarrow> vp p" "rb_ok b0" "rdata b0 = payload_bytes P p @ rest b0" "rdata b0 = bs" using payload_step [OF r0] by blast
  note s1 = positioned_format.step_read [OF u32_pos s0(2,3) r1]
  note s2 = positioned_format.step_read [OF u32_pos s1(2,3) r2]
  note s3 = positioned_format.step_read [OF u8_pos s2(2,3) r3]
  note s4 = positioned_format.step_read [OF u8_pos s3(2,3) r4]
  have len: "unat nin * INPUT_SIZE \<le> length (rest b4)" and b5: "b5 = advance (unat nin * INPUT_SIZE) b4" using r5 skip_step(1) [OF s4(2,3)] by auto
  note s5 = skip_step(2) [OF s4(2,3) len, folded b5]
  obtain ins where ins: "length ins = unat nin" "\<forall>i \<in> set ins. input_ok i" "take (unat nin * INPUT_SIZE) (rest b4) = concat (map input_bytes ins)"
    using input_chunks [of "take (unat nin * INPUT_SIZE) (rest b4)" "unat nin"] len by auto
  note s6 = positioned_format.step_read [OF outputs_pos conjunct1 [OF s5] conjunct2 [OF s5] r6]
  note s7 = positioned_format.step_read [OF witnesses_pos s6(2,3) r7]
  obtain a where s8: "has_data P \<and> has_auth P \<longrightarrow> va a" "rb_ok b8" "rdata b8 = rdata b7"
    "rdata b8 = (((((((((payload_bytes P p @ to_be_bytes epoch) @ to_be_bytes sl) @ [nin]) @ [nout]) @ take (unat nin * INPUT_SIZE) (rest b4)) @
      concat (map (\<lambda>o'. address_bytes (out_address o') @ value_bytes (out_value o')) outs)) @ concat (map witness_bytes wits)) @ auth_bytes P a) @ rest b8)"
    using auth_step [OF r8 s7(2,3)] by blast
  have "rest b8 = []" using r9 s8(2) by (simp add: is_end_def left_eq)
  moreover have "rdata b8 = bs" using s8(3) s7(4) s6(4) s4(4) s3(4) s2(4) s1(4) s0(4) by (simp add: b5 advance_def)
  ultimately have bytes: "bs = payload_bytes P p @ to_be_bytes epoch @ to_be_bytes sl @ [nin, nout] @ concat (map input_bytes ins) @
      concat (map output_bytes outs) @ concat (map witness_bytes wits) @ auth_bytes P a"
    using s8(4) ins(3) by (simp add: output_bytes_def [abs_def])
  let ?t = "\<lparr>tp_payload = p, tp_date = BlockDate epoch sl, tp_inputs = ins, tp_outputs = outs, tp_witnesses = wits, tp_auth = a\<rparr>"
  have n: "of_nat (length ins) = nin" "of_nat (length outs) = nout" using ins(1) s6(1) by simp_all
  have eq: "bs = parts_bytes P ?t" using bytes by (simp add: parts_bytes_def head_bytes_def date_bytes_def n)
  have "parts_ok P vp va ?t"
    using s0(1) s8(1) ins(1,2) s6(1) s7(1) unat_lt_2p [of nin] unat_lt_2p [of nout] by (simp add: parts_ok_def)
  moreover have "position b4 = ts_inputs (parts_struct P ?t)" "position b5 = ts_outputs (parts_struct P ?t)"
    "position b6 = ts_witnesses (parts_struct P ?t)" "position b7 = ts_payload_auth (parts_struct P ?t)"
    using cursor_position [OF s4(2,3)] cursor_position [OF conjunct1 [OF s5] conjunct2 [OF s5]] cursor_position [OF s6(2,3)] cursor_position [OF s7(2,3)]
    unfolding ins(3) by (simp_all add: parts_struct_def head_bytes_def date_bytes_def output_bytes_def [abs_def] n)
  then have "ts = parts_struct P ?t" unfolding ts by (simp add: parts_struct_def n eq [symmetric])
  ultimately show ?thesis using eq by blast
qed

lemma payload_write:
  assumes "has_data P \<longrightarrow> vp p" and "bs = payload_bytes P p @ r"
  shows "\<exists>b. spine_payload P bs = Ok ((), b) \<and> rb_ok b \<and> rest b = r \<and> rdata b = payload_bytes P p @ r"
proof (cases "has_data P")
  case True
  have b: "rb_ok (rb_from bs)" "rdata (rb_from bs) = [] @ rest (rb_from bs)" by (simp_all, simp add: rb_from_def)
  show ?thesis using positioned_format.step_write [OF data_format [OF True] _ b, of p r] assms True
    by (auto simp: spine_payload_def payload_bytes_def read_validate_def)
qed (use assms in \<open>auto simp: spine_payload_def payload_bytes_def rb_from_def rb_ok_def rest_def\<close>)

lemma auth_write:
  assumes "has_data P \<and> has_auth P \<longrightarrow> va a" and "rb_ok b" and "rdata b = pre @ rest b" and "rest b = auth_bytes P a"
  shows "\<exists>b'. spine_auth P b = Ok ((), b') \<and> rb_ok b' \<and> rest b' = []"
proof (cases "has_data P \<and> has_auth P")
  case True
  then show ?thesis using positioned_format.step_write [OF auth_format _ assms(2,3), of a "[]"] assms auth_nonempty [of a]
    by (auto simp: spine_auth_def auth_bytes_def read_validate_def is_end_def left_eq)
qed (use assms in \<open>auto simp: spine_auth_def auth_bytes_def\<close>)

lemma spine_complete:
  assumes "parts_ok P vp va t"
  shows "get_spine P (parts_bytes P t) = Ok (parts_struct P t)"
proof -
  let ?p = "payload_bytes P (tp_payload t)" and ?bs = "parts_bytes P t" and ?d = "tp_date t"
  let ?nin = "of_nat (length (tp_inputs t)) :: u8" and ?nout = "of_nat (length (tp_outputs t)) :: u8"
  let ?w = "witness_part t @ auth_bytes P (tp_auth t)"
  let ?o = "output_part t @ ?w"
  have t: "has_data P \<longrightarrow> vp (tp_payload t)" "has_data P \<and> has_auth P \<longrightarrow> va (tp_auth t)" "unat ?nin = length (tp_inputs t)" "unat ?nout = length (tp_outputs t)"
    "length (tp_witnesses t) = length (tp_inputs t)" "\<forall>i \<in> set (tp_inputs t). input_ok i" "\<forall>o' \<in> set (tp_outputs t). address_ok (out_address o')"
    "\<forall>w \<in> set (tp_witnesses t). witness_ok w"
    using assms by (auto simp: parts_ok_def unat_of_nat_id)
  obtain b0 where b0: "spine_payload P ?bs = Ok ((), b0)" "rb_ok b0" "rest b0 = to_be_bytes (bd_epoch ?d) @ to_be_bytes (bd_slot ?d) @ ?nin # ?nout # input_part t @ ?o"
    "rdata b0 = ?p @ rest b0"
    using payload_write [OF t(1), of ?bs] by (auto simp: parts_bytes_def head_bytes_def date_bytes_def)
  obtain b1 where b1: "get_u32 b0 = Ok (bd_epoch ?d, b1)" "rb_ok b1" "rest b1 = to_be_bytes (bd_slot ?d) @ ?nin # ?nout # input_part t @ ?o"
    "rdata b1 = (?p @ to_be_bytes (bd_epoch ?d)) @ rest b1"
    using positioned_format.step_write [OF u32_pos _ b0(2,4,3)] by auto
  obtain b2 where b2: "get_u32 b1 = Ok (bd_slot ?d, b2)" "rb_ok b2" "rest b2 = [?nin] @ ?nout # input_part t @ ?o"
    "rdata b2 = ((?p @ to_be_bytes (bd_epoch ?d)) @ to_be_bytes (bd_slot ?d)) @ rest b2"
    using positioned_format.step_write [OF u32_pos _ b1(2,4,3)] by auto
  obtain b3 where b3: "get_u8 b2 = Ok (?nin, b3)" "rb_ok b3" "rest b3 = [?nout] @ input_part t @ ?o"
    "rdata b3 = (((?p @ to_be_bytes (bd_epoch ?d)) @ to_be_bytes (bd_slot ?d)) @ [?nin]) @ rest b3"
    using positioned_format.step_write [OF u8_pos _ b2(2,4,3)] by auto
  obtain b4 where b4: "get_u8 b3 = Ok (?nout, b4)" "rb_ok b4" "rest b4 = input_part t @ ?o"
    "rdata b4 = head_bytes P t @ rest b4"
    using positioned_format.step_write [OF u8_pos _ b3(2,4,3)] by (auto simp: head_bytes_def date_bytes_def)
  let ?n = "unat ?nin * INPUT_SIZE"
  have len: "length (input_part t) = ?n" using inputs_bytes_length [OF t(6)] t(3) by simp
  obtain b5 where b5: "skip_bytes ?n b4 = Ok ((), b5)" "rb_ok b5" "rest b5 = ?o" "rdata b5 = (head_bytes P t @ input_part t) @ rest b5"
    using skip_step [OF b4(2,4), of ?n] advance_ok [OF b4(2), of ?n] b4(3) len by auto
  have ob: "output_part t = concat (map (\<lambda>o'. address_bytes (out_address o') @ value_bytes (out_value o')) (tp_outputs t))"
    by (simp add: output_bytes_def [abs_def])
  obtain b6 where b6: "read_vec (read_output address_read) (unat ?nout) b5 = Ok (tp_outputs t, b6)" "rb_ok b6" "rest b6 = ?w"
    "rdata b6 = ((head_bytes P t @ input_part t) @ output_part t) @ rest b6"
    using positioned_format.step_write [OF outputs_pos _ b5(2,4), of "tp_outputs t" "unat ?nout" ?w] t(4,7) b5(3) unfolding ob by auto
  obtain b7 where b7: "read_vec witness_read (unat ?nin) b6 = Ok (tp_witnesses t, b7)" "rb_ok b7" "rest b7 = auth_bytes P (tp_auth t)"
    "rdata b7 = (((head_bytes P t @ input_part t) @ output_part t) @ witness_part t) @ rest b7"
    using positioned_format.step_write [OF witnesses_pos _ b6(2,4), of "tp_witnesses t" "unat ?nin" "auth_bytes P (tp_auth t)"] t(3,5,8) b6(3) by auto
  obtain b8 where b8: "spine_auth P b7 = Ok ((), b8)" "rb_ok b8" "rest b8 = []" using auth_write [OF t(2) b7(2,4,3)] by blast
  show ?thesis
    using cursor_position [OF b4(2,4)] cursor_position [OF b5(2,4)] cursor_position [OF b6(2,4)] cursor_position [OF b7(2,4)] b8(2,3)
    by (simp add: get_spine_def b0(1) b1(1) b2(1) b3(1) b4(1) b5(1) b6(1) b7(1) b8(1) validate_times_vec is_end_def left_eq parts_struct_def)
qed

lemma tx_check_iff: "tx_check P bs = Ok tx \<longleftrightarrow> (\<exists>t. parts_ok P vp va t \<and> bs = parts_bytes P t \<and> tx = parts_tx P t)"
  using spine_sound [of bs] spine_complete by (fastforce simp: tx_check_def outcome_simps parts_tx_def)

end

section \<open>Iterating over the parts\<close>

primrec ofold :: "('x \<Rightarrow> 'l \<Rightarrow> ('e, 'l) outcome) \<Rightarrow> 'x list \<Rightarrow> 'l \<Rightarrow> ('e, 'l) outcome" where
  "ofold f [] acc = Ok acc"
| "ofold f (x # xs) acc = obind (f x acc) (\<lambda>acc'. ofold f xs acc')"

text \<open>An iterator that yields exactly the given elements.\<close>

primrec walks :: "('s \<Rightarrow> ('e, ('x \<times> 's) option) outcome) \<Rightarrow> 's \<Rightarrow> 'x list \<Rightarrow> bool" where
  "walks nxt s [] \<longleftrightarrow> nxt s = Ok None"
| "walks nxt s (x # xs) \<longleftrightarrow> (\<exists>s'. nxt s = Ok (Some (x, s')) \<and> walks nxt s' xs)"

lemma for_each_walks: "walks nxt s xs \<Longrightarrow> length xs < n \<Longrightarrow> for_each nxt f n s acc = ofold f xs acc"
proof (induction xs arbitrary: s n acc)
  case Nil
  then show ?case by (cases n) simp_all
next
  case (Cons x xs)
  then obtain s' m where "nxt s = Ok (Some (x, s'))" "walks nxt s' xs" "n = Suc m" "length xs < m" by (cases n) auto
  then show ?case using Cons.IH by (cases "f x acc") simp_all
qed

lemma ofold_append: "ofold (\<lambda>x acc. Ok (acc @ [g x])) xs acc = Ok (acc @ map g xs)"
  by (induction xs arbitrary: acc) simp_all

lemma inputs_walk:
  assumes "\<forall>i \<in> set ins. input_ok i" and "length ins < 256"
  shows "walks (inputs_next (of_nat (length ins)) (concat (map input_bytes ins)) :: nat \<Rightarrow> ('e, _) outcome) 0 ins"
proof -
  let ?s = "concat (map input_bytes ins)"
  have n: "unat (of_nat (length ins) :: u8) = length ins" using assms(2) by (simp add: unat_of_nat_id)
  have "walks (inputs_next (of_nat (length ins)) ?s :: nat \<Rightarrow> ('e, _) outcome) (length pre) xs" if "ins = pre @ xs" for pre xs
    using that
  proof (induction xs arbitrary: pre)
    case (Cons x xs)
    have lt: "\<not> length ins \<le> length pre" using Cons.prems by simp
    have l: "length (concat (map input_bytes pre)) = length pre * INPUT_SIZE" "length (input_bytes x) = INPUT_SIZE" "input_ok x"
      using assms(1) Cons.prems by (simp_all add: inputs_bytes_length input_bytes_length)
    have "vec_slice ?s (length pre * INPUT_SIZE) (length pre * INPUT_SIZE + INPUT_SIZE) = (Ok (input_bytes x) :: ('e, _) outcome)"
      using l(1,2) Cons.prems by (simp add: vec_slice_def)
    then have "inputs_next (of_nat (length ins)) ?s (length pre) = (Ok (Some (x, length pre + 1)) :: ('e, _) outcome)"
      using lt by (simp add: inputs_next_def n input_from_bytes [OF l(3)])
    then show ?case using Cons.IH [of "pre @ [x]"] Cons.prems by simp
  qed (simp add: inputs_next_def n)
  from this [of "[]" ins] show ?thesis by simp
qed

context positioned_format
begin

lemma part_walk:
  assumes "\<forall>x \<in> set xs. valid x \<and> enc x \<noteq> []"
  shows "walks (part_next rd (concat (map enc xs)) :: nat \<Rightarrow> ('e, _) outcome) 0 xs"
proof -
  have "walks (part_next rd (pre @ concat (map enc ys)) :: nat \<Rightarrow> ('e, _) outcome) (length pre) ys" if "\<forall>x \<in> set ys. valid x \<and> enc x \<noteq> []" for pre ys
    using that
  proof (induction ys arbitrary: pre)
    case (Cons x ys)
    let ?s = "pre @ concat (map enc (x # ys))" and ?r = "concat (map enc ys)"
    let ?b = "advance (length pre) (rb_from ?s)"
    have skip: "skip_bytes (length pre) (rb_from ?s) = Ok ((), ?b)" and b: "rb_ok ?b" "rest ?b = enc x @ ?r"
      using advance_ok [of "rb_from ?s" "length pre"] by (simp_all add: skip_bytes_def assure_size_eq advance_def)
    have p: "rdata ?b = pre @ rest ?b" using b by (simp add: advance_def rb_from_def)
    obtain b' where b': "rd ?b = Ok (x, b')" "rb_ok b'" "rest b' = ?r" "rdata b' = (pre @ enc x) @ ?r"
      using step_write [OF _ b(1) p b(2)] Cons.prems by auto
    have "position b' = length (pre @ enc x)" using cursor_position [OF b'(2)] b'(3,4) by simp
    then have "part_next rd ?s (length pre) = (Ok (Some (x, length (pre @ enc x))) :: ('e, _) outcome)"
      using Cons.prems b'(1) skip by (simp add: part_next_def)
    then show ?case using Cons.IH [of "pre @ enc x"] Cons.prems by simp
  qed (simp add: part_next_def)
  from this [OF assms, of "[]"] show ?thesis by simp
qed

lemma part_fuel: "\<forall>x \<in> set xs. enc x \<noteq> [] \<Longrightarrow> length xs < Suc (length (concat (map enc xs)))"
proof (induction xs)
  case (Cons x xs)
  then have "1 \<le> length (enc x)" "length xs < Suc (length (concat (map enc xs)))" by (cases "enc x", simp_all)
  then show ?case unfolding list.map concat.simps length_append list.size by linarith
qed simp

end

interpretation output_pos: positioned_format "\<lambda>o'. address_ok (out_address o')" output_bytes "read_output address_read"
  using positionedI [OF read_output_format output_keeps] by (simp add: output_bytes_def [abs_def])

interpretation witness_pos: positioned_format witness_ok witness_bytes witness_read
  by (rule positionedI [OF witness_format witness_keeps])

lemma parts_nonempty: "output_bytes o' \<noteq> []" "witness_bytes w \<noteq> []"
proof -
  have "length (value_bytes (out_value o')) = 8" by (simp add: value_bytes_def)
  then show "output_bytes o' \<noteq> []" by (auto simp: output_bytes_def)
qed (cases w; simp)

section \<open>Reading a laid out transaction\<close>

lemma vec_slice_mid: "vec_slice (a @ b @ c) (length a) (length (a @ b)) = Ok b"
  by (simp add: vec_slice_def)

lemma parts_slices:
  "inputs_slice (parts_tx P t) = Ok (input_part t)" "outputs_slice (parts_tx P t) = Ok (output_part t)"
  "witnesses_slice (parts_tx P t) = Ok (witness_part t)"
  "transaction_auth_data (parts_tx P t) = Ok (head_bytes P t @ input_part t @ output_part t)"
  "transaction_binding_auth_data (parts_tx P t) = Ok (head_bytes P t @ input_part t @ output_part t @ witness_part t)"
  "nb_inputs (parts_tx P t) = of_nat (length (tp_inputs t))" "nb_outputs (parts_tx P t) = of_nat (length (tp_outputs t))"
  "nb_witnesses (parts_tx P t) = of_nat (length (tp_inputs t))" "valid_until (parts_tx P t) = tp_date t"
  by (simp_all add: inputs_slice_def outputs_slice_def witnesses_slice_def transaction_auth_data_def transaction_binding_auth_data_def
      nb_inputs_def nb_outputs_def nb_witnesses_def valid_until_def parts_tx_def parts_struct_def parts_bytes_def vec_slice_def)

lemma pair_walk:
  assumes "walks (inputs_next nb s :: nat \<Rightarrow> ('e, (tx_input \<times> nat) option) outcome) i xs"
    and "walks (witnesses_next ws :: nat \<Rightarrow> ('e, (tx_witness \<times> nat) option) outcome) j ys" and "length xs = length ys"
  shows "walks (inputs_witnesses_next nb s ws :: nat \<times> nat \<Rightarrow> ('e, _) outcome) (i, j) (zip xs ys)"
  using assms(3,1,2) by (induction xs ys arbitrary: i j rule: list_induct2) (auto simp: inputs_witnesses_next_def)

lemma parts_each:
  assumes "parts_ok P vp va t"
  shows "each_input (parts_tx P t) f acc = ofold f (tp_inputs t) acc"
    and "each_output (parts_tx P t) g acc' = ofold g (tp_outputs t) acc'"
    and "each_witness (parts_tx P t) h acc'' = ofold h (tp_witnesses t) acc''"
    and "each_input_witness (parts_tx P t) k acc''' = (ofold k (zip (tp_inputs t) (tp_witnesses t)) acc''' :: ('k, _) outcome)"
proof -
  have t: "length (tp_inputs t) < 256" "length (tp_witnesses t) = length (tp_inputs t)" "\<forall>i \<in> set (tp_inputs t). input_ok i"
    "\<forall>o' \<in> set (tp_outputs t). address_ok (out_address o')" "\<forall>w \<in> set (tp_witnesses t). witness_ok w"
    using assms by (simp_all add: parts_ok_def)
  note iw = inputs_walk [OF t(3,1)]
  show "each_input (parts_tx P t) f acc = ofold f (tp_inputs t) acc"
    using for_each_walks [OF iw t(1)] by (simp add: each_input_def parts_slices)
  show "each_output (parts_tx P t) g acc' = ofold g (tp_outputs t) acc'"
    using for_each_walks [OF output_pos.part_walk output_pos.part_fuel, of "tp_outputs t"] t(4) parts_nonempty(1)
    by (simp add: each_output_def parts_slices outputs_next_def)
  show "each_witness (parts_tx P t) h acc'' = ofold h (tp_witnesses t) acc''"
    using for_each_walks [OF witness_pos.part_walk witness_pos.part_fuel, of "tp_witnesses t"] t(5) parts_nonempty(2)
    by (simp add: each_witness_def parts_slices witnesses_next_def)
  have ww: "walks (witnesses_next (witness_part t) :: nat \<Rightarrow> ('k, _) outcome) 0 (tp_witnesses t)"
    using witness_pos.part_walk [of "tp_witnesses t"] t(5) parts_nonempty(2) by (simp add: witnesses_next_def)
  from pair_walk [OF iw ww] t(2) have "walks (inputs_witnesses_next (of_nat (length (tp_inputs t))) (input_part t) (witness_part t) :: _ \<Rightarrow> ('k, _) outcome)
      (0, 0) (zip (tp_inputs t) (tp_witnesses t))" by simp
  from for_each_walks [OF this, of 256] t(1,2) show "each_input_witness (parts_tx P t) k acc''' = ofold k (zip (tp_inputs t) (tp_witnesses t)) acc'''"
    by (simp add: each_input_witness_def parts_slices)
qed

lemma parts_totals:
  assumes "parts_ok P vp va t"
  shows "total_input (parts_tx P t) = value_sum (map in_value (tp_inputs t))"
    and "total_output (parts_tx P t) = value_sum (map out_value (tp_outputs t))"
  by (simp_all add: total_input_def total_output_def parts_each [OF assms] ofold_append)


context payload_format
begin

lemma parts_payload:
  assumes "parts_ok P vp va t" and "has_data P"
  shows "into_payload P (parts_tx P t) = (Ok (tp_payload t) :: ('e, _) outcome)"
proof -
  have s: "vec_slice (tx_data (parts_tx P t)) 0 (ts_inputs (tstruct (parts_tx P t))) = (Ok (head_bytes P t) :: ('e, _) outcome)"
    by (simp add: parts_tx_def parts_struct_def parts_bytes_def vec_slice_def)
  have "head_bytes P t = payload_data P (tp_payload t) @ date_bytes (tp_date t) @ [of_nat (length (tp_inputs t)), of_nat (length (tp_outputs t))]"
    using assms(2) by (simp add: head_bytes_def payload_bytes_def)
  then obtain b where "payload_read P (rb_from (head_bytes P t)) = Ok (tp_payload t, b)"
    using positioned_format.step_write [OF data_format [OF assms(2)], of "tp_payload t" "rb_from (head_bytes P t)" "[]"] assms
    by (auto simp: parts_ok_def rb_from_def rb_ok_def rest_def)
  then show ?thesis by (simp add: into_payload_def s)
qed

lemma parts_auth:
  assumes "parts_ok P vp va t" and "has_data P" and "has_auth P"
  shows "into_payload_auth P (parts_tx P t) = (Ok (tp_auth t) :: ('e, _) outcome)"
proof -
  have s: "vec_slice (tx_data (parts_tx P t)) (ts_payload_auth (tstruct (parts_tx P t))) (length (tx_data (parts_tx P t)))
      = (Ok (payload_auth_data P (tp_auth t)) :: ('e, _) outcome)"
    using assms(2,3) by (simp add: parts_tx_def parts_struct_def parts_bytes_def vec_slice_def auth_bytes_def)
  obtain b where "auth_read P (rb_from (payload_auth_data P (tp_auth t))) = Ok (tp_auth t, b)"
    using positioned_format.step_write [OF auth_format [OF assms(2,3)], of "tp_auth t" "rb_from (payload_auth_data P (tp_auth t))" "[]" "[]"] assms
    by (auto simp: parts_ok_def rb_from_def rb_ok_def rest_def)
  then show ?thesis by (simp add: into_payload_auth_def s)
qed

end

section \<open>What the builder writes\<close>

definition tx_build :: "('p, 'a) payload \<Rightarrow> ('p, 'a) tx_parts \<Rightarrow> ('e, tx_slice) outcome" where
  "tx_build P t =
     obind (set_ios (tp_inputs t) (tp_outputs t) (set_expiry_date (tp_date t) (set_payload P (tp_payload t) tx_builder_new))) (\<lambda>b.
     obind (set_witnesses (tp_witnesses t) b) (\<lambda>b. Ok (set_payload_auth P (tp_auth t) b)))"

definition is_multisig :: "tx_witness \<Rightarrow> bool" where
  "is_multisig w \<longleftrightarrow> (case w of MultisigWitness _ _ \<Rightarrow> True | _ \<Rightarrow> False)"

lemma witness_to_bytes_eq: "\<not> is_multisig w \<Longrightarrow> witness_to_bytes w = Ok (witness_bytes w)"
  by (cases w) (simp_all add: is_multisig_def witness_to_bytes_def codec_put_u8_def codec_put_be_u32_def write_all_def
      WITNESS_TAG_OLDUTXO_def WITNESS_TAG_UTXO_def WITNESS_TAG_ACCOUNT_def)

lemma witness_bytes_loop_eq: "\<forall>w \<in> set ws. \<not> is_multisig w \<Longrightarrow> witness_bytes_loop ws w = Ok (w @ concat (map witness_bytes ws))"
  by (induction ws arbitrary: w) (simp_all add: witness_to_bytes_eq)

lemma output_data_eq: "\<forall>o' \<in> set os. address_ok (out_address o') \<Longrightarrow> output_data os w = Ok (w @ concat (map output_bytes os))"
  by (induction os arbitrary: w) (simp_all add: address_to_bytes_eq output_bytes_def)

lemma tx_build_eq:
  assumes "parts_ok P vp va t" and "\<forall>w \<in> set (tp_witnesses t). \<not> is_multisig w"
  shows "tx_build P t = (Ok (parts_tx P t) :: ('e, _) outcome)"
proof -
  have t: "length (tp_inputs t) < 256" "length (tp_outputs t) < 256" "length (tp_witnesses t) = length (tp_inputs t)"
    "\<forall>o' \<in> set (tp_outputs t). address_ok (out_address o')" using assms(1) by (simp_all add: parts_ok_def)
  have n: "unat (of_nat (length (tp_inputs t)) :: u8) = length (tp_inputs t)" using t(1) by (simp add: unat_of_nat_id)
  show ?thesis
    using t by (simp add: tx_build_def set_ios_def require_def output_data_eq set_witnesses_def set_witnesses_unchecked_def witness_bytes_loop_eq [OF assms(2)]
      set_payload_auth_def set_expiry_date_def set_payload_def tx_builder_new_def Let_def n parts_tx_def parts_bytes_def parts_struct_def
      head_bytes_def payload_bytes_def auth_bytes_def date_bytes_def)
qed

text \<open>The payload of a plain transaction: nothing.\<close>

interpretation plain: payload_format no_extra "\<lambda>_. True" "\<lambda>_. False"
  by unfold_locales (simp_all add: no_extra_def)

section \<open>Properties\<close>


definition sample_parts :: "(unit, unit) tx_parts" where
  "sample_parts = \<lparr>tp_payload = (), tp_date = BlockDate 1 0,
     tp_inputs = [from_account (UnspecifiedId (replicate 32 7)) (Value 5)],
     tp_outputs = [\<lparr>out_address = Address Test (Single (PublicKey (replicate 32 1))), out_value = Value 5\<rparr>],
     tp_witnesses = [AccountWitness (SpendingCounter 0) (Signature (replicate 64 2))], tp_auth = ()\<rparr>"

lemma sample_parts_ok: "parts_ok no_extra (\<lambda>_. True) (\<lambda>_. False) sample_parts"
  by (simp add: parts_ok_def sample_parts_def no_extra_def input_ok_def from_account_def INPUT_PTR_SIZE_def sig_ok_def key_ok_def
      address_ok_def)


lemma compare_balance_spec: "compare_balance i z = Ok r \<longleftrightarrow>
   (case r of PositiveBalance d \<Rightarrow> coins d \<noteq> 0 \<and> coins i = coins z + coins d | NegativeBalance d \<Rightarrow> coins d \<noteq> 0 \<and> coins z = coins i + coins d
    | ZeroBalance \<Rightarrow> coins i = coins z)"
  by (cases r) (auto simp: compare_balance_def outcome_simps checked_simps)

lemma io_balance_spec:
  assumes "io_balance b fee = Ok r"
  shows "case r of PositiveBalance d \<Rightarrow> coins d \<noteq> 0 \<and> coin_total (map in_value (io_inputs b)) = coin_total (map out_value (io_outputs b)) + coins fee + coins d
    | NegativeBalance d \<Rightarrow> coins d \<noteq> 0 \<and> coin_total (map in_value (io_inputs b)) + coins d = coin_total (map out_value (io_outputs b)) + coins fee
    | ZeroBalance \<Rightarrow> coin_total (map in_value (io_inputs b)) = coin_total (map out_value (io_outputs b)) + coins fee"
  using assms by (auto simp: io_balance_def outcome_simps checked_simps compare_balance_spec split: balance.splits)

text \<open>
  Sealing with an output policy: the inputs stay, the outputs are extended by what is returned, and
  the inputs are exactly the outputs, the fee of the result and the balance that is returned; a
  reported zero balance means that the transaction pays its fee to the last coin.
\<close>

theorem sealed_balance:
  assumes "seal_with_output_policy b cert fees policy = Ok (r, extra, b')"
  shows "io_inputs b' = io_inputs b \<and> io_outputs b' = io_outputs b @ extra
    \<and> (case r of PositiveBalance d \<Rightarrow> coin_total (map in_value (io_inputs b')) = coin_total (map out_value (io_outputs b')) + coins (estimate_fee b' cert fees) + coins d
       | NegativeBalance d \<Rightarrow> False
       | ZeroBalance \<Rightarrow> coin_total (map in_value (io_inputs b')) = coin_total (map out_value (io_outputs b')) + coins (estimate_fee b' cert fees))"
proof -
  from assms obtain r0 where r0: "io_balance b (estimate_fee b cert fees) = Ok r0" by (auto simp: seal_with_output_policy_def outcome_simps)
  note bal = io_balance_spec [OF r0]
  show ?thesis
  proof (cases r0)
    case (PositiveBalance pos)
    show ?thesis
    proof (cases policy)
      case PolicyForget
      then show ?thesis using assms bal PositiveBalance by (auto simp: seal_with_output_policy_def r0)
    next
      case (PolicyOne a)
      let ?b1 = "b\<lparr>io_outputs := io_outputs b @ [\<lparr>out_address = a, out_value = value_zero\<rparr>]\<rparr>"
      have fee: "estimate_fee (b\<lparr>io_outputs := io_outputs b @ [x]\<rparr>) cert fees
          = fee_calculate fees cert (of_nat (length (io_inputs b))) (of_nat (length (io_outputs b) + 1))" for x by (simp add: estimate_fee_def)
      have b1: "io_add_output b a value_zero = Ok ?b1" using assms PolicyOne PositiveBalance
        by (auto simp: seal_with_output_policy_def r0 io_add_output_def split: if_splits)
      show ?thesis
        using assms bal PolicyOne PositiveBalance io_balance_spec [of ?b1 "estimate_fee ?b1 cert fees"]
        by (auto simp: seal_with_output_policy_def r0 b1 fee Let_def split: outcome.splits balance.splits)
    qed
  qed (use assms bal in \<open>auto simp: seal_with_output_policy_def r0\<close>)
qed

theorem sealed_balance_witness:
  "\<exists>b'. seal_with_output_policy \<lparr>io_inputs = [from_account (UnspecifiedId []) (Value 10)], io_outputs = []\<rparr> None (linear_fee_new 1 2 3)
       (PolicyOne (Address Test (Single (PublicKey [])))) = Ok (ZeroBalance, [\<lparr>out_address = Address Test (Single (PublicKey [])), out_value = Value 5\<rparr>], b')
     \<and> 10 = coin_total (map out_value (io_outputs b')) + coins (estimate_fee b' None (linear_fee_new 1 2 3))"
proof -
  let ?b = "\<lparr>io_inputs = [from_account (UnspecifiedId []) (Value 10)], io_outputs = []\<rparr>" and ?o = "\<lparr>out_address = Address Test (Single (PublicKey [])), out_value = Value 5\<rparr>"
  have "seal_with_output_policy ?b None (linear_fee_new 1 2 3) (PolicyOne (Address Test (Single (PublicKey []))))
     = Ok (ZeroBalance, [?o], ?b\<lparr>io_outputs := [?o]\<rparr>)" by code_simp
  from sealed_balance [OF this] this show ?thesis by (simp add: from_account_def coins_def)
qed

end
