(* ===== verification/Config.thy ===== *)
theory Config
  imports Pool_Cert Chain_Time
begin

text \<open>
  Configuration parameters (\<open>config.rs\<close>, \<open>fragment/config.rs\<close>): the parameters themselves, the payload of
  each kind, the two bytes of tag and length in front of a payload, and lists of parameters. The
  parameters of the optional \<open>evm\<close> feature are left out, as in a build without it.
\<close>

section \<open>Parameters\<close>

datatype consensus_type = Bft | GenesisPraos

fun consensus_to_u16 :: "consensus_type \<Rightarrow> u16" where
  "consensus_to_u16 Bft = 1"
| "consensus_to_u16 GenesisPraos = 2"

definition consensus_from_u16 :: "u16 \<Rightarrow> consensus_type option" where
  "consensus_from_u16 v = (if v = 1 then Some Bft else if v = 2 then Some GenesisPraos else None)"

datatype milli = Milli (millis: u64)

datatype bft_leader_id = BftLeaderId (leader_key: public_key)

datatype committee_id = CommitteeId (committee_bytes: "u8 list")

definition COMMITTEE_ID_SIZE :: nat where "COMMITTEE_ID_SIZE = 32"

text \<open>\<open>TryFrom<&[u8]>\<close> and \<open>From<PublicKey>\<close>; the error carries its two sizes.\<close>

definition committee_try_from :: "u8 list \<Rightarrow> (nat \<times> nat, committee_id) outcome" where
  "committee_try_from v = (if length v \<noteq> COMMITTEE_ID_SIZE then Err (COMMITTEE_ID_SIZE, length v) else Ok (CommitteeId v))"

definition committee_from_key :: "public_key \<Rightarrow> ('e, committee_id) outcome" where
  "committee_from_key k = unwrap (committee_try_from (pk_bytes k))"

datatype reward_params = RewardLinear u64 ratio epoch u32 | RewardHalving u64 ratio epoch u32

datatype config_param =
    Block0Date u64
  | CfgDiscrimination discrimination
  | ConsensusVersion consensus_type
  | SlotsPerEpoch u32
  | CfgSlotDuration u8
  | EpochStabilityDepth u32
  | ActiveSlotsCoefficient milli
  | BlockContentMaxSize u32
  | AddBftLeader bft_leader_id
  | RemoveBftLeader bft_leader_id
  | CfgLinearFee linear_fee
  | ProposalExpiration u32
  | KesUpdateSpeed u32
  | TreasuryAdd val
  | TreasuryParams tax_type
  | RewardPot val
  | RewardParams reward_params
  | PerCertificateFees per_certificate_fee
  | FeesInTreasury bool
  | RewardLimitNone
  | RewardLimitByAbsoluteStake ratio
  | PoolRewardParticipationCapping "u32 \<times> u32"
  | AddCommitteeId committee_id
  | RemoveCommitteeId committee_id
  | PerVoteCertificateFees per_vote_certificate_fee
  | TransactionMaxExpiryEpochs u8

datatype config_error = CfgInvalidTag | CfgSizeInvalid | CfgBoolInvalid | CfgStructureInvalid | CfgUnknownString string

fun config_error_display :: "config_error \<Rightarrow> string" where
  "config_error_display CfgInvalidTag = ''Invalid config parameter tag''"
| "config_error_display CfgSizeInvalid = ''Invalid config parameter size''"
| "config_error_display CfgBoolInvalid = ''Invalid Boolean in config parameter''"
| "config_error_display CfgStructureInvalid = ''Invalid config parameter structure''"
| "config_error_display (CfgUnknownString s) = ''Invalid config parameter string '' @ [CHR 0x27] @ s @ [CHR 0x27]"

definition config_error_from_read :: "read_error \<Rightarrow> config_error" where
  "config_error_from_read _ = CfgStructureInvalid"

definition config_error_to_read :: "config_error \<Rightarrow> read_error" where
  "config_error_to_read e = StructureInvalid (config_error_display e)"

section \<open>Tags\<close>

datatype config_tag =
    TagDiscrimination | TagBlock0Date | TagConsensusVersion | TagSlotsPerEpoch | TagSlotDuration | TagEpochStabilityDepth
  | TagActiveSlotsCoefficient | TagBlockContentMaxSize | TagAddBftLeader | TagRemoveBftLeader | TagLinearFee
  | TagProposalExpiration | TagKesUpdateSpeed | TagTreasuryAdd | TagTreasuryParams | TagRewardPot | TagRewardParams
  | TagPerCertificateFees | TagFeesInTreasury | TagRewardLimitNone | TagRewardLimitByAbsoluteStake
  | TagPoolRewardParticipationCapping | TagAddCommitteeId | TagRemoveCommitteeId | TagPerVoteCertificateFees
  | TagTransactionMaxExpiryEpochs

fun tag_value :: "config_tag \<Rightarrow> u16" where
  "tag_value TagDiscrimination = 1"
| "tag_value TagBlock0Date = 2"
| "tag_value TagConsensusVersion = 3"
| "tag_value TagSlotsPerEpoch = 4"
| "tag_value TagSlotDuration = 5"
| "tag_value TagEpochStabilityDepth = 6"
| "tag_value TagActiveSlotsCoefficient = 8"
| "tag_value TagBlockContentMaxSize = 9"
| "tag_value TagAddBftLeader = 11"
| "tag_value TagRemoveBftLeader = 12"
| "tag_value TagLinearFee = 14"
| "tag_value TagProposalExpiration = 15"
| "tag_value TagKesUpdateSpeed = 16"
| "tag_value TagTreasuryAdd = 17"
| "tag_value TagTreasuryParams = 18"
| "tag_value TagRewardPot = 19"
| "tag_value TagRewardParams = 20"
| "tag_value TagPerCertificateFees = 21"
| "tag_value TagFeesInTreasury = 22"
| "tag_value TagRewardLimitNone = 23"
| "tag_value TagRewardLimitByAbsoluteStake = 24"
| "tag_value TagPoolRewardParticipationCapping = 25"
| "tag_value TagAddCommitteeId = 26"
| "tag_value TagRemoveCommitteeId = 27"
| "tag_value TagPerVoteCertificateFees = 28"
| "tag_value TagTransactionMaxExpiryEpochs = 29"

definition all_tags :: "config_tag list" where
  "all_tags = [TagDiscrimination, TagBlock0Date, TagConsensusVersion, TagSlotsPerEpoch, TagSlotDuration, TagEpochStabilityDepth,
     TagActiveSlotsCoefficient, TagBlockContentMaxSize, TagAddBftLeader, TagRemoveBftLeader, TagLinearFee, TagProposalExpiration,
     TagKesUpdateSpeed, TagTreasuryAdd, TagTreasuryParams, TagRewardPot, TagRewardParams, TagPerCertificateFees, TagFeesInTreasury,
     TagRewardLimitNone, TagRewardLimitByAbsoluteStake, TagPoolRewardParticipationCapping, TagAddCommitteeId, TagRemoveCommitteeId,
     TagPerVoteCertificateFees, TagTransactionMaxExpiryEpochs]"

text \<open>\<open>from_u16\<close> matches the numbers of the tags one after the other.\<close>

definition tag_from_u16 :: "u16 \<Rightarrow> config_tag option" where
  "tag_from_u16 v = find (\<lambda>t. tag_value t = v) all_tags"

fun param_tag :: "config_param \<Rightarrow> config_tag" where
  "param_tag (Block0Date _) = TagBlock0Date"
| "param_tag (CfgDiscrimination _) = TagDiscrimination"
| "param_tag (ConsensusVersion _) = TagConsensusVersion"
| "param_tag (SlotsPerEpoch _) = TagSlotsPerEpoch"
| "param_tag (CfgSlotDuration _) = TagSlotDuration"
| "param_tag (EpochStabilityDepth _) = TagEpochStabilityDepth"
| "param_tag (ActiveSlotsCoefficient _) = TagActiveSlotsCoefficient"
| "param_tag (BlockContentMaxSize _) = TagBlockContentMaxSize"
| "param_tag (AddBftLeader _) = TagAddBftLeader"
| "param_tag (RemoveBftLeader _) = TagRemoveBftLeader"
| "param_tag (CfgLinearFee _) = TagLinearFee"
| "param_tag (ProposalExpiration _) = TagProposalExpiration"
| "param_tag (KesUpdateSpeed _) = TagKesUpdateSpeed"
| "param_tag (TreasuryAdd _) = TagTreasuryAdd"
| "param_tag (TreasuryParams _) = TagTreasuryParams"
| "param_tag (RewardPot _) = TagRewardPot"
| "param_tag (RewardParams _) = TagRewardParams"
| "param_tag (PerCertificateFees _) = TagPerCertificateFees"
| "param_tag (FeesInTreasury _) = TagFeesInTreasury"
| "param_tag RewardLimitNone = TagRewardLimitNone"
| "param_tag (RewardLimitByAbsoluteStake _) = TagRewardLimitByAbsoluteStake"
| "param_tag (PoolRewardParticipationCapping _) = TagPoolRewardParticipationCapping"
| "param_tag (AddCommitteeId _) = TagAddCommitteeId"
| "param_tag (RemoveCommitteeId _) = TagRemoveCommitteeId"
| "param_tag (PerVoteCertificateFees _) = TagPerVoteCertificateFees"
| "param_tag (TransactionMaxExpiryEpochs _) = TagTransactionMaxExpiryEpochs"

text \<open>Seven bits of tag and nine bits of length.\<close>

definition MAXIMUM_LEN :: nat where "MAXIMUM_LEN = 512"

definition tag_len_new :: "config_tag \<Rightarrow> nat \<Rightarrow> u16 option" where
  "tag_len_new t n = (if n < MAXIMUM_LEN then Some (push_bit 9 (tag_value t) OR of_nat n) else None)"

definition tag_len_get_len :: "u16 \<Rightarrow> nat" where
  "tag_len_get_len w = unat (w AND 511)"

definition tag_len_get_tag :: "u16 \<Rightarrow> (config_error, config_tag) outcome" where
  "tag_len_get_tag w = ok_or CfgInvalidTag (tag_from_u16 (drop_bit 9 w))"

section \<open>Payloads\<close>

text \<open>\<open>to_payload\<close> and \<open>from_payload\<close> of every implementation of \<open>ConfigParamVariant\<close>.\<close>

definition u8_to_payload :: "u8 \<Rightarrow> u8 list" where
  "u8_to_payload v = [v]"

definition u8_from_payload :: "u8 list \<Rightarrow> (config_error, u8) outcome" where
  "u8_from_payload p = (case p of [v] \<Rightarrow> Ok v | _ \<Rightarrow> Err CfgSizeInvalid)"

definition u32_to_payload :: "u32 \<Rightarrow> u8 list" where
  "u32_to_payload v = to_be_bytes v"

definition u32_from_payload :: "u8 list \<Rightarrow> (config_error, u32) outcome" where
  "u32_from_payload p = (if length p \<noteq> 4 then Err CfgSizeInvalid else Ok (from_be_bytes p))"

definition u64_to_payload :: "u64 \<Rightarrow> u8 list" where
  "u64_to_payload v = to_be_bytes v"

definition u64_from_payload :: "u8 list \<Rightarrow> (config_error, u64) outcome" where
  "u64_from_payload p = (if length p \<noteq> 8 then Err CfgSizeInvalid else Ok (from_be_bytes p))"

definition bool_to_payload :: "bool \<Rightarrow> u8 list" where
  "bool_to_payload b = [if b then 1 else 0]"

definition bool_from_payload :: "u8 list \<Rightarrow> (config_error, bool) outcome" where
  "bool_from_payload p =
     (case p of [v] \<Rightarrow> if v = 0 then Ok False else if v = 1 then Ok True else Err CfgBoolInvalid | _ \<Rightarrow> Err CfgSizeInvalid)"

definition block0_date_to_payload :: "u64 \<Rightarrow> u8 list" where
  "block0_date_to_payload d = u64_to_payload d"

definition block0_date_from_payload :: "u8 list \<Rightarrow> (config_error, u64) outcome" where
  "block0_date_from_payload p = u64_from_payload p"

definition value_to_payload :: "val \<Rightarrow> u8 list" where
  "value_to_payload v = u64_to_payload (amount v)"

definition value_from_payload :: "u8 list \<Rightarrow> (config_error, val) outcome" where
  "value_from_payload p = omap Value (u64_from_payload p)"

definition milli_to_payload :: "milli \<Rightarrow> u8 list" where
  "milli_to_payload m = u64_to_payload (millis m)"

definition milli_from_payload :: "u8 list \<Rightarrow> (config_error, milli) outcome" where
  "milli_from_payload p = omap Milli (u64_from_payload p)"

definition VAL_PROD :: u8 where "VAL_PROD = 1"
definition VAL_TEST :: u8 where "VAL_TEST = 2"

definition discrimination_to_payload :: "discrimination \<Rightarrow> u8 list" where
  "discrimination_to_payload d = (case d of Production \<Rightarrow> [VAL_PROD] | Test \<Rightarrow> [VAL_TEST])"

definition discrimination_from_payload :: "u8 list \<Rightarrow> (config_error, discrimination) outcome" where
  "discrimination_from_payload p =
     (case p of
        [v] \<Rightarrow> if v = VAL_PROD then Ok Production else if v = VAL_TEST then Ok Test else Err CfgStructureInvalid
      | _ \<Rightarrow> Err CfgSizeInvalid)"

definition consensus_to_payload :: "consensus_type \<Rightarrow> u8 list" where
  "consensus_to_payload c = to_be_bytes (consensus_to_u16 c)"

definition consensus_from_payload :: "u8 list \<Rightarrow> (config_error, consensus_type) outcome" where
  "consensus_from_payload p =
     (if length p \<noteq> 2 then Err CfgSizeInvalid else ok_or CfgStructureInvalid (consensus_from_u16 (from_be_bytes p)))"

definition leader_to_payload :: "bft_leader_id \<Rightarrow> u8 list" where
  "leader_to_payload l = pk_bytes (leader_key l)"

definition leader_from_payload :: "u8 list \<Rightarrow> (config_error, bft_leader_id) outcome" where
  "leader_from_payload p = map_err (\<lambda>_. CfgSizeInvalid) (omap BftLeaderId (public_from_binary p))"

text \<open>The payloads that go through a \<open>ReadBuf\<close>: an error of the buffer is \<open>StructureInvalid\<close>.\<close>

definition read_payload_end :: "'a reader \<Rightarrow> u8 list \<Rightarrow> (config_error, 'a) outcome" where
  "read_payload_end rd p =
     map_err config_error_from_read
       (obind (rd (rb_from p)) (\<lambda>(x, rb). obind (expect_end rb) (\<lambda>_. Ok x)))"

definition tax_to_payload :: "tax_type \<Rightarrow> u8 list" where
  "tax_to_payload t = bb_finalize_as_vec (tax_serialize_in t bb_new)"

definition tax_from_payload :: "u8 list \<Rightarrow> (config_error, tax_type) outcome" where
  "tax_from_payload p = read_payload_end tax_read_frombuf p"

definition ratio_to_payload :: "ratio \<Rightarrow> u8 list" where
  "ratio_to_payload r = bb_finalize_as_vec (bb_u64 (bb_u64 bb_new (numerator r)) (denominator r))"

definition ratio_from_payload :: "u8 list \<Rightarrow> (config_error, ratio) outcome" where
  "ratio_from_payload p =
     read_payload_end (\<lambda>rb.
       obind (get_u64 rb) (\<lambda>(num, rb). obind (get_nz_u64 rb) (\<lambda>(denom, rb).
       Ok (\<lparr>numerator = num, denominator = denom\<rparr>, rb)))) p"

fun reward_params_to_payload :: "reward_params \<Rightarrow> u8 list" where
  "reward_params_to_payload (RewardLinear c r start rate) =
     bb_finalize_as_vec (bb_u32 (bb_u32 (bb_u64 (bb_u64 (bb_u64 (bb_u8 bb_new 1) c) (numerator r)) (denominator r)) start) rate)"
| "reward_params_to_payload (RewardHalving c r start rate) =
     bb_finalize_as_vec (bb_u32 (bb_u32 (bb_u64 (bb_u64 (bb_u64 (bb_u8 bb_new 2) c) (numerator r)) (denominator r)) start) rate)"

text \<open>The two arms of the source differ only in the constructor \<open>mk\<close> they apply in the end.\<close>

definition reward_params_fields :: "(u64 \<Rightarrow> ratio \<Rightarrow> epoch \<Rightarrow> u32 \<Rightarrow> 'a) \<Rightarrow> 'a reader" where
  "reward_params_fields mk rb =
     obind (get_u64 rb) (\<lambda>(start, rb).
     obind (get_u64 rb) (\<lambda>(num, rb).
     obind (get_nz_u64 rb) (\<lambda>(denom, rb).
     obind (get_u32 rb) (\<lambda>(estart, rb).
     obind (get_nz_u32 rb) (\<lambda>(erate, rb).
     Ok (mk start \<lparr>numerator = num, denominator = denom\<rparr> estart erate, rb))))))"

definition reward_params_from_payload :: "u8 list \<Rightarrow> (config_error, reward_params) outcome" where
  "reward_params_from_payload p =
     obind (map_err config_error_from_read (get_u8 (rb_from p))) (\<lambda>(tag, rb).
     let finish = (\<lambda>(x, rb). obind (expect_end rb) (\<lambda>_. Ok x)) in
     if tag = 1 then map_err config_error_from_read (obind (reward_params_fields RewardLinear rb) finish)
     else if tag = 2 then map_err config_error_from_read (obind (reward_params_fields RewardHalving rb) finish)
     else Err CfgInvalidTag)"

text \<open>A pair of limits is read without looking at what follows it.\<close>

definition capping_to_payload :: "u32 \<times> u32 \<Rightarrow> u8 list" where
  "capping_to_payload c = bb_finalize_as_vec (bb_u32 (bb_u32 bb_new (fst c)) (snd c))"

definition capping_from_payload :: "u8 list \<Rightarrow> (config_error, u32 \<times> u32) outcome" where
  "capping_from_payload p =
     map_err config_error_from_read
       (obind (get_nz_u32 (rb_from p)) (\<lambda>(x, rb). obind (get_nz_u32 rb) (\<lambda>(y, rb). Ok (x, y))))"

text \<open>Fees: eight bytes each, zero where there is none.\<close>

definition nz_u64_new :: "u64 \<Rightarrow> u64 option" where
  "nz_u64_new v = (if v = 0 then None else Some v)"

definition fee_to_payload :: "u64 option \<Rightarrow> u8 list" where
  "fee_to_payload f = u64_to_payload (case f of None \<Rightarrow> 0 | Some v \<Rightarrow> v)"

definition u64_payload_at :: "u8 list \<Rightarrow> nat \<Rightarrow> (config_error, u64) outcome" where
  "u64_payload_at p i = obind (vec_slice p i (i + 8)) u64_from_payload"

definition linear_fee_to_payload :: "linear_fee \<Rightarrow> u8 list" where
  "linear_fee_to_payload f =
     u64_to_payload (fee_constant f) @ u64_to_payload (fee_coefficient f) @ u64_to_payload (fee_certificate f)"

definition linear_fee_from_payload :: "u8 list \<Rightarrow> (config_error, linear_fee) outcome" where
  "linear_fee_from_payload p =
     (if length p \<noteq> 3 * 8 then Err CfgSizeInvalid
      else
        obind (u64_payload_at p 0) (\<lambda>c. obind (u64_payload_at p 8) (\<lambda>k. obind (u64_payload_at p 16) (\<lambda>cert.
        Ok (linear_fee_new c k cert)))))"

definition per_certificate_fee_to_payload :: "per_certificate_fee \<Rightarrow> u8 list" where
  "per_certificate_fee_to_payload f =
     fee_to_payload (certificate_pool_registration f) @ fee_to_payload (certificate_stake_delegation f)
     @ fee_to_payload (certificate_owner_stake_delegation f)"

definition per_certificate_fee_from_payload :: "u8 list \<Rightarrow> (config_error, per_certificate_fee) outcome" where
  "per_certificate_fee_from_payload p =
     (if length p \<noteq> 3 * 8 then Err CfgSizeInvalid
      else
        obind (u64_payload_at p 0) (\<lambda>a. obind (u64_payload_at p 8) (\<lambda>b. obind (u64_payload_at p 16) (\<lambda>c.
        Ok \<lparr>certificate_pool_registration = nz_u64_new a, certificate_stake_delegation = nz_u64_new b,
            certificate_owner_stake_delegation = nz_u64_new c\<rparr>))))"

definition per_vote_certificate_fee_to_payload :: "per_vote_certificate_fee \<Rightarrow> u8 list" where
  "per_vote_certificate_fee_to_payload f = fee_to_payload (certificate_vote_plan f) @ fee_to_payload (certificate_vote_cast f)"

definition per_vote_certificate_fee_from_payload :: "u8 list \<Rightarrow> (config_error, per_vote_certificate_fee) outcome" where
  "per_vote_certificate_fee_from_payload p =
     (if length p \<noteq> 2 * 8 then Err CfgSizeInvalid
      else
        obind (u64_payload_at p 0) (\<lambda>a. obind (u64_payload_at p 8) (\<lambda>b.
        Ok \<lparr>certificate_vote_plan = nz_u64_new a, certificate_vote_cast = nz_u64_new b\<rparr>)))"

definition committee_to_payload :: "committee_id \<Rightarrow> u8 list" where
  "committee_to_payload c = committee_bytes c"

definition committee_error_display :: "nat \<times> nat \<Rightarrow> string" where
  "committee_error_display e = ''Not enough bytes, expected '' @ show_nat (fst e) @ '' but received '' @ show_nat (snd e)"

definition committee_from_payload :: "u8 list \<Rightarrow> (config_error, committee_id) outcome" where
  "committee_from_payload p = map_err (\<lambda>e. CfgUnknownString (committee_error_display e)) (committee_try_from p)"

section \<open>Parameters on the wire\<close>

fun param_payload :: "config_param \<Rightarrow> u8 list" where
  "param_payload (Block0Date d) = block0_date_to_payload d"
| "param_payload (CfgDiscrimination d) = discrimination_to_payload d"
| "param_payload (ConsensusVersion d) = consensus_to_payload d"
| "param_payload (SlotsPerEpoch d) = u32_to_payload d"
| "param_payload (CfgSlotDuration d) = u8_to_payload d"
| "param_payload (EpochStabilityDepth d) = u32_to_payload d"
| "param_payload (ActiveSlotsCoefficient d) = milli_to_payload d"
| "param_payload (BlockContentMaxSize d) = u32_to_payload d"
| "param_payload (AddBftLeader d) = leader_to_payload d"
| "param_payload (RemoveBftLeader d) = leader_to_payload d"
| "param_payload (CfgLinearFee d) = linear_fee_to_payload d"
| "param_payload (ProposalExpiration d) = u32_to_payload d"
| "param_payload (KesUpdateSpeed d) = u32_to_payload d"
| "param_payload (TreasuryAdd d) = value_to_payload d"
| "param_payload (TreasuryParams d) = tax_to_payload d"
| "param_payload (RewardPot d) = value_to_payload d"
| "param_payload (RewardParams d) = reward_params_to_payload d"
| "param_payload (PerCertificateFees d) = per_certificate_fee_to_payload d"
| "param_payload (FeesInTreasury d) = bool_to_payload d"
| "param_payload RewardLimitNone = []"
| "param_payload (RewardLimitByAbsoluteStake d) = ratio_to_payload d"
| "param_payload (PoolRewardParticipationCapping d) = capping_to_payload d"
| "param_payload (AddCommitteeId d) = committee_to_payload d"
| "param_payload (RemoveCommitteeId d) = committee_to_payload d"
| "param_payload (PerVoteCertificateFees d) = per_vote_certificate_fee_to_payload d"
| "param_payload (TransactionMaxExpiryEpochs d) = u8_to_payload d"

fun param_from_payload :: "config_tag \<Rightarrow> u8 list \<Rightarrow> (config_error, config_param) outcome" where
  "param_from_payload TagBlock0Date p = omap Block0Date (block0_date_from_payload p)"
| "param_from_payload TagDiscrimination p = omap CfgDiscrimination (discrimination_from_payload p)"
| "param_from_payload TagConsensusVersion p = omap ConsensusVersion (consensus_from_payload p)"
| "param_from_payload TagSlotsPerEpoch p = omap SlotsPerEpoch (u32_from_payload p)"
| "param_from_payload TagSlotDuration p = omap CfgSlotDuration (u8_from_payload p)"
| "param_from_payload TagEpochStabilityDepth p = omap EpochStabilityDepth (u32_from_payload p)"
| "param_from_payload TagActiveSlotsCoefficient p = omap ActiveSlotsCoefficient (milli_from_payload p)"
| "param_from_payload TagBlockContentMaxSize p = omap BlockContentMaxSize (u32_from_payload p)"
| "param_from_payload TagAddBftLeader p = omap AddBftLeader (leader_from_payload p)"
| "param_from_payload TagRemoveBftLeader p = omap RemoveBftLeader (leader_from_payload p)"
| "param_from_payload TagLinearFee p = omap CfgLinearFee (linear_fee_from_payload p)"
| "param_from_payload TagProposalExpiration p = omap ProposalExpiration (u32_from_payload p)"
| "param_from_payload TagKesUpdateSpeed p = omap KesUpdateSpeed (u32_from_payload p)"
| "param_from_payload TagTreasuryAdd p = omap TreasuryAdd (value_from_payload p)"
| "param_from_payload TagTreasuryParams p = omap TreasuryParams (tax_from_payload p)"
| "param_from_payload TagRewardPot p = omap RewardPot (value_from_payload p)"
| "param_from_payload TagRewardParams p = omap RewardParams (reward_params_from_payload p)"
| "param_from_payload TagPerCertificateFees p = omap PerCertificateFees (per_certificate_fee_from_payload p)"
| "param_from_payload TagFeesInTreasury p = omap FeesInTreasury (bool_from_payload p)"
| "param_from_payload TagRewardLimitNone p = (if p \<noteq> [] then Err CfgSizeInvalid else Ok RewardLimitNone)"
| "param_from_payload TagRewardLimitByAbsoluteStake p = omap RewardLimitByAbsoluteStake (ratio_from_payload p)"
| "param_from_payload TagPoolRewardParticipationCapping p = omap PoolRewardParticipationCapping (capping_from_payload p)"
| "param_from_payload TagAddCommitteeId p = omap AddCommitteeId (committee_from_payload p)"
| "param_from_payload TagRemoveCommitteeId p = omap RemoveCommitteeId (committee_from_payload p)"
| "param_from_payload TagPerVoteCertificateFees p = omap PerVoteCertificateFees (per_vote_certificate_fee_from_payload p)"
| "param_from_payload TagTransactionMaxExpiryEpochs p = omap TransactionMaxExpiryEpochs (u8_from_payload p)"

definition config_param_read :: "config_param reader" where
  "config_param_read buf =
     obind (get_u16 buf) (\<lambda>(taglen, buf).
     obind (get_slice (tag_len_get_len taglen) buf) (\<lambda>(bytes, buf).
     obind (map_err config_error_to_read (tag_len_get_tag taglen)) (\<lambda>tag.
     obind (map_err config_error_to_read (param_from_payload tag bytes)) (\<lambda>p. Ok (p, buf)))))"

definition config_param_serialize :: "config_param \<Rightarrow> u8 list \<Rightarrow> (io_error, u8 list) outcome" where
  "config_param_serialize p w =
     (let bytes = param_payload p in
      obind (ok_or InvalidDataIo (tag_len_new (param_tag p) (length bytes))) (\<lambda>taglen.
      obind (codec_put_be_u16 w taglen) (\<lambda>w. write_all w bytes)))"

text \<open>A stream error, or the error of reading the copied parameter.\<close>

datatype config_io_error = CfgIo io_error | CfgReading read_error

definition config_param_deserialize :: "u8 list \<Rightarrow> (config_io_error, config_param \<times> u8 list) outcome" where
  "config_param_deserialize r =
     obind (map_err CfgIo (codec_get_be_u16 r)) (\<lambda>(tag_len, r).
     obind (map_err CfgIo (codec_get_bytes r (tag_len_get_len tag_len))) (\<lambda>(bytes, r).
     obind (map_err CfgIo (codec_put_be_u16 [] tag_len)) (\<lambda>cursor.
     obind (map_err CfgIo (codec_put_bytes cursor bytes)) (\<lambda>cursor.
     obind (map_err CfgReading (config_param_read (rb_from cursor))) (\<lambda>(p, _). Ok (p, r))))))"

fun serialize_params :: "config_param list \<Rightarrow> u8 list \<Rightarrow> (io_error, u8 list) outcome" where
  "serialize_params [] w = Ok w"
| "serialize_params (p # ps) w = obind (config_param_serialize p w) (serialize_params ps)"

definition config_params_serialize :: "config_param list \<Rightarrow> u8 list \<Rightarrow> (io_error, u8 list) outcome" where
  "config_params_serialize ps w = obind (codec_put_be_u16 w (of_nat (length ps))) (serialize_params ps)"

fun deserialize_params :: "nat \<Rightarrow> u8 list \<Rightarrow> (config_io_error, config_param list \<times> u8 list) outcome" where
  "deserialize_params 0 r = Ok ([], r)"
| "deserialize_params (Suc n) r =
     obind (config_param_deserialize r) (\<lambda>(p, r). obind (deserialize_params n r) (\<lambda>(ps, r). Ok (p # ps, r)))"

definition config_params_deserialize :: "u8 list \<Rightarrow> (config_io_error, config_param list \<times> u8 list) outcome" where
  "config_params_deserialize r = obind (map_err CfgIo (codec_get_be_u16 r)) (\<lambda>(n, r). deserialize_params (unat n) r)"

definition config_params_read :: "config_param list reader" where
  "config_params_read buf = obind (get_u16 buf) (\<lambda>(n, buf). read_vec config_param_read (unat n) buf)"

section \<open>What a payload codec promises\<close>

text \<open>
  The contract of \<open>ConfigParamVariant\<close>: exactly the encodings of the valid values are accepted, and no
  input makes the decoder panic.
\<close>

locale config_variant =
  fixes valid :: "'a \<Rightarrow> bool" and to_payload :: "'a \<Rightarrow> u8 list" and from_payload :: "u8 list \<Rightarrow> (config_error, 'a) outcome"
  assumes accepts: "from_payload p = Ok x \<longleftrightarrow> valid x \<and> p = to_payload x"
    and no_panic: "from_payload p \<noteq> Panic"
begin

lemma to_payload_inj: "valid x \<Longrightarrow> valid y \<Longrightarrow> to_payload x = to_payload y \<Longrightarrow> x = y"
  using accepts by (metis outcome.inject(1))

end

text \<open>A payload that is read through a buffer to its end.\<close>

lemma read_payload_variant:
  assumes "canonical_format valid enc rd"
  shows "config_variant valid enc (read_payload_end rd)"
proof
  note fmt = canonical_format.axioms(1) [OF assms]
  have end_iff: "expect_end b = Ok () \<longleftrightarrow> rest b = []" and end_total: "expect_end b \<noteq> Panic" if "rb_ok b" for b
    using that by (simp_all add: expect_end_def left_eq)
  show "read_payload_end rd p = Ok x \<longleftrightarrow> valid x \<and> p = enc x" for p x
  proof
    assume "read_payload_end rd p = Ok x"
    then obtain b where b: "rd (rb_from p) = Ok (x, b)" "expect_end b = Ok ()" by (auto simp: read_payload_end_def outcome_simps)
    then show "valid x \<and> p = enc x" using canonical_format.rd_canonical [OF assms _ b(1)] end_iff [of b] by simp
  next
    assume x: "valid x \<and> p = enc x"
    then obtain b where "rd (rb_from p) = Ok (x, b)" "rb_ok b" "rest b = []"
      using format.rd_enc [OF fmt, of x "rb_from p" "[]"] by auto
    then show "read_payload_end rd p = Ok x" using end_iff [of b] by (simp add: read_payload_end_def)
  qed
  show "read_payload_end rd p \<noteq> Panic" for p
    using canonical_format.rd_total [OF assms, of "rb_from p"] canonical_format.rd_canonical [OF assms, of "rb_from p"] end_total
    by (fastforce simp: read_payload_end_def outcome_simps)
qed

interpretation u8_variant: config_variant "\<lambda>_. True" u8_to_payload u8_from_payload
  by unfold_locales (auto simp: u8_from_payload_def u8_to_payload_def split: list.splits)

interpretation u32_variant: config_variant "\<lambda>_. True" u32_to_payload u32_from_payload
  by unfold_locales (auto simp: u32_from_payload_def u32_to_payload_def)

interpretation u64_variant: config_variant "\<lambda>_. True" u64_to_payload u64_from_payload
  by unfold_locales (auto simp: u64_from_payload_def u64_to_payload_def)

interpretation bool_variant: config_variant "\<lambda>_. True" bool_to_payload bool_from_payload
  by unfold_locales (auto simp: bool_from_payload_def bool_to_payload_def split: list.splits if_splits)

interpretation block0_variant: config_variant "\<lambda>_. True" block0_date_to_payload block0_date_from_payload
  by unfold_locales (simp_all add: block0_date_from_payload_def block0_date_to_payload_def u64_variant.accepts u64_variant.no_panic)

interpretation value_variant: config_variant "\<lambda>_. True" value_to_payload value_from_payload
  by unfold_locales (auto simp: value_from_payload_def value_to_payload_def omap_iffs u64_variant.accepts u64_variant.no_panic)

interpretation milli_variant: config_variant "\<lambda>_. True" milli_to_payload milli_from_payload
  by unfold_locales (auto simp: milli_from_payload_def milli_to_payload_def omap_iffs u64_variant.accepts u64_variant.no_panic)

interpretation discrimination_variant: config_variant "\<lambda>_. True" discrimination_to_payload discrimination_from_payload
  by unfold_locales (auto simp: discrimination_from_payload_def discrimination_to_payload_def VAL_PROD_def VAL_TEST_def
      split: list.splits if_splits discrimination.splits)

lemma consensus_u16_iff: "consensus_from_u16 v = Some c \<longleftrightarrow> v = consensus_to_u16 c"
  by (cases c) (auto simp: consensus_from_u16_def)

lemma be_u16_iff: "length p = 2 \<Longrightarrow> from_be_bytes p = v \<longleftrightarrow> p = to_be_bytes v" for v :: u16
  by auto

interpretation consensus_variant: config_variant "\<lambda>_. True" consensus_to_payload consensus_from_payload
  by unfold_locales (auto simp: consensus_from_payload_def consensus_to_payload_def ok_or_iffs consensus_u16_iff be_u16_iff)

interpretation leader_variant: config_variant "\<lambda>l. key_ok (leader_key l)" leader_to_payload leader_from_payload
  by unfold_locales (auto simp: leader_from_payload_def leader_to_payload_def outcome_simps public_from_binary_def key_ok_def
      split: if_splits)

interpretation committee_variant: config_variant "\<lambda>c. length (committee_bytes c) = 32" committee_to_payload committee_from_payload
  by unfold_locales (auto simp: committee_from_payload_def committee_to_payload_def outcome_simps committee_try_from_def
      COMMITTEE_ID_SIZE_def split: if_splits)

interpretation tax_variant: config_variant tax_ok tax_to_payload tax_from_payload
proof -
  have "tax_to_payload = tax_bytes" "tax_from_payload = read_payload_end tax_read_frombuf"
    by (simp_all add: fun_eq_iff tax_to_payload_def tax_from_payload_def appends_finalize [OF tax_serialize_appends])
  then show "config_variant tax_ok tax_to_payload tax_from_payload"
    using read_payload_variant [OF tax_format.canonical_format_axioms] by simp
qed

interpretation nz_u32_format: canonical_format "\<lambda>v. v \<noteq> 0" to_be_bytes get_nz_u32
proof
  fix x :: u32 and b r assume "x \<noteq> 0" "rb_ok b" "rest b = to_be_bytes x @ r"
  then show "\<exists>b'. get_nz_u32 b = Ok (x, b') \<and> rb_ok b' \<and> rest b' = r"
    using u32_format.rd_enc [where x = x and b = b and r = r] by (auto simp: get_nz_u32_def)
next
  fix b x b' assume b: "rb_ok b" and "get_nz_u32 b = Ok (x, b')"
  then show "x \<noteq> 0 \<and> rb_ok b' \<and> rest b = to_be_bytes x @ rest b'"
    using u32_format.rd_canonical [OF b] by (auto simp: get_nz_u32_def outcome_simps split: if_splits)
next
  fix b assume b: "rb_ok b"
  then show "get_nz_u32 b \<noteq> Panic"
    using u32_format.rd_total [OF b] by (auto simp: get_nz_u32_def outcome_simps split: if_splits)
qed

declare nz_u32_format.canonical_format_axioms [fmt]

definition ratio_bytes :: "ratio \<Rightarrow> u8 list" where
  "ratio_bytes = record_bytes [\<lambda>r. to_be_bytes (numerator r), \<lambda>r. to_be_bytes (denominator r)]"

lemma ratio_payload_format: "canonical_format (\<lambda>r. denominator r \<noteq> 0) ratio_bytes
    (\<lambda>rb. obind (get_u64 rb) (\<lambda>(num, rb). obind (get_nz_u64 rb) (\<lambda>(denom, rb).
       Ok (\<lparr>numerator = num, denominator = denom\<rparr>, rb))))"
  unfolding ratio_bytes_def
  by (rule field_format [OF fmt(4), where p = numerator], rule field_format [OF nz_u64_format.canonical_format_axioms, where p = denominator],
      rule end_format) auto

interpretation ratio_variant: config_variant "\<lambda>r. denominator r \<noteq> 0" ratio_to_payload ratio_from_payload
proof -
  have "ratio_to_payload = ratio_bytes"
    by (simp add: fun_eq_iff ratio_to_payload_def ratio_bytes_def bb_simps bb_finalize_as_vec_def bb_new_def)
  then show "config_variant (\<lambda>r. denominator r \<noteq> 0) ratio_to_payload ratio_from_payload"
    using read_payload_variant [OF ratio_payload_format] by (simp add: ratio_from_payload_def [abs_def])
qed

text \<open>Reward parameters: the tag decides the constructor, the fields are the same.\<close>

fun reward_params_ok :: "reward_params \<Rightarrow> bool" where
  "reward_params_ok (RewardLinear c r start rate) \<longleftrightarrow> denominator r \<noteq> 0 \<and> rate \<noteq> 0"
| "reward_params_ok (RewardHalving c r start rate) \<longleftrightarrow> denominator r \<noteq> 0 \<and> rate \<noteq> 0"

fun reward_params_parts :: "reward_params \<Rightarrow> u64 \<times> ratio \<times> epoch \<times> u32" where
  "reward_params_parts (RewardLinear c r start rate) = (c, r, start, rate)"
| "reward_params_parts (RewardHalving c r start rate) = (c, r, start, rate)"

fun reward_params_tag :: "reward_params \<Rightarrow> u8" where
  "reward_params_tag (RewardLinear _ _ _ _) = 1"
| "reward_params_tag (RewardHalving _ _ _ _) = 2"

definition reward_params_bytes :: "reward_params \<Rightarrow> u8 list" where
  "reward_params_bytes y = (case reward_params_parts y of (c, r, start, rate) \<Rightarrow>
     record_bytes [\<lambda>y. to_be_bytes (fst (reward_params_parts y)), \<lambda>y. to_be_bytes (numerator (fst (snd (reward_params_parts y)))),
       \<lambda>y. to_be_bytes (denominator (fst (snd (reward_params_parts y)))), \<lambda>y. to_be_bytes (fst (snd (snd (reward_params_parts y)))),
       \<lambda>y. to_be_bytes (snd (snd (snd (reward_params_parts y))))] y)"

lemma reward_params_fields_format:
  assumes "\<And>c r start rate. reward_params_parts (mk c r start rate) = (c, r, start, rate)"
    and "\<And>c r start rate. reward_params_ok (mk c r start rate) \<longleftrightarrow> denominator r \<noteq> 0 \<and> rate \<noteq> 0"
    and "\<And>y. reward_params_tag y = t \<longleftrightarrow> (\<exists>c r start rate. y = mk c r start rate)"
  shows "canonical_format (\<lambda>y. reward_params_ok y \<and> reward_params_tag y = t) reward_params_bytes (reward_params_fields mk)"
proof -
  have b: "reward_params_bytes = record_bytes [\<lambda>y. to_be_bytes (fst (reward_params_parts y)),
       \<lambda>y. to_be_bytes (numerator (fst (snd (reward_params_parts y)))),
       \<lambda>y. to_be_bytes (denominator (fst (snd (reward_params_parts y)))), \<lambda>y. to_be_bytes (fst (snd (snd (reward_params_parts y)))),
       \<lambda>y. to_be_bytes (snd (snd (snd (reward_params_parts y))))]"
    by (simp add: fun_eq_iff reward_params_bytes_def split: prod.splits)
  have eta: "\<lparr>numerator = numerator r, denominator = denominator r\<rparr> = r" for r by simp
  show ?thesis
    unfolding b reward_params_fields_def [abs_def]
    by (rule field_format [OF u64_format.canonical_format_axioms], rule field_format [OF u64_format.canonical_format_axioms],
        rule field_format [OF nz_u64_format.canonical_format_axioms], rule field_format [OF u32_format.canonical_format_axioms],
        rule field_format [OF nz_u32_format.canonical_format_axioms], rule end_format)
      (auto simp: assms eta)
qed

lemma reward_params_format: "canonical_format reward_params_ok (\<lambda>y. reward_params_tag y # reward_params_bytes y)
    (\<lambda>b. obind (get_u8 b) (\<lambda>(t, b').
       if t = 1 then reward_params_fields RewardLinear b'
       else if t = 2 then reward_params_fields RewardHalving b' else Err (StructureInvalid [])))"
proof (rule bind_format [where p = reward_params_tag and encr = "\<lambda>_. reward_params_bytes", OF u8_format.canonical_format_axioms])
  have tag: "reward_params_tag y = 1 \<longleftrightarrow> (\<exists>c r start rate. y = RewardLinear c r start rate)"
    "reward_params_tag y = 2 \<longleftrightarrow> (\<exists>c r start rate. y = RewardHalving c r start rate)"
    "reward_params_tag y = 1 \<or> reward_params_tag y = 2" for y by (cases y; simp)+
  show "canonical_format (\<lambda>y. reward_params_ok y \<and> reward_params_tag y = t) reward_params_bytes
      (\<lambda>b. if t = 1 then reward_params_fields RewardLinear b
         else if t = 2 then reward_params_fields RewardHalving b else Err (StructureInvalid []))" for t
  proof (intro if_format)
    show "canonical_format (\<lambda>y. reward_params_ok y \<and> reward_params_tag y = t) reward_params_bytes (reward_params_fields RewardLinear)"
      if "t = 1" using reward_params_fields_format [of RewardLinear t] that tag by simp
    show "canonical_format (\<lambda>y. reward_params_ok y \<and> reward_params_tag y = t) reward_params_bytes (reward_params_fields RewardHalving)"
      if "t \<noteq> 1" "t = 2" using reward_params_fields_format [of RewardHalving t] that tag by simp
    show "canonical_format (\<lambda>y. reward_params_ok y \<and> reward_params_tag y = t) reward_params_bytes (\<lambda>b. Err (StructureInvalid []))"
      if "t \<noteq> 1" "t \<noteq> 2" using that tag(3) by (intro fail_format) auto
  qed
qed simp

interpretation reward_params_variant: config_variant reward_params_ok reward_params_to_payload reward_params_from_payload
proof -
  let ?rd = "\<lambda>b. obind (get_u8 b) (\<lambda>(t, b').
       if t = 1 then reward_params_fields RewardLinear b'
       else if t = 2 then reward_params_fields RewardHalving b' else Err (StructureInvalid []))"
  have "reward_params_from_payload p = Ok x \<longleftrightarrow> read_payload_end ?rd p = Ok x"
    "reward_params_from_payload p = Panic \<longleftrightarrow> read_payload_end ?rd p = Panic" for p x
    by (cases "get_u8 (rb_from p)"; auto simp: reward_params_from_payload_def read_payload_end_def split: prod.splits if_splits)+
  moreover have "reward_params_to_payload x = reward_params_tag x # reward_params_bytes x" for x
    by (cases x) (simp_all add: reward_params_bytes_def bb_simps bb_finalize_as_vec_def bb_new_def)
  ultimately show "config_variant reward_params_ok reward_params_to_payload reward_params_from_payload"
    using read_payload_variant [OF reward_params_format] by (simp add: config_variant_def)
qed

text \<open>Fees, eight bytes at a time.\<close>

lemma be_u64_inj [simp]: "to_be_bytes v = to_be_bytes w \<longleftrightarrow> v = w" for v w :: u64
  by (metis width_facts(6))

lemma u64_payload_at_iff: "u64_payload_at p i = Ok v \<longleftrightarrow> i + 8 \<le> length p \<and> take 8 (drop i p) = to_be_bytes v"
  "u64_payload_at p i = Panic \<longleftrightarrow> \<not> i + 8 \<le> length p"
  by (auto simp: u64_payload_at_def vec_slice_def u64_from_payload_def outcome_simps)

lemma take_drop_append:
  "length p = 16 \<Longrightarrow> p = take 8 p @ take 8 (drop 8 p)"
  "length p = 24 \<Longrightarrow> p = take 8 p @ take 8 (drop 8 p) @ take 8 (drop 16 p)"
proof -
  show "p = take 8 p @ take 8 (drop 8 p)" if "length p = 16" using that by simp
  have "p = take 8 p @ drop 8 p" "drop 8 p = take 8 (drop 8 p) @ drop 16 p"
    using append_take_drop_id [of 8 "drop 8 p"] by simp_all
  then show "p = take 8 p @ take 8 (drop 8 p) @ take 8 (drop 16 p)" if "length p = 24" using that by simp
qed

lemma fee_payload_nz [simp]:
  "fee_to_payload (nz_u64_new v) = to_be_bytes v" "length (fee_to_payload f) = 8" "nz_u64_new v \<noteq> Some 0"
  by (simp_all add: fee_to_payload_def nz_u64_new_def u64_to_payload_def)

lemma fee_payload_at: "f \<noteq> Some 0 \<Longrightarrow> \<exists>v. fee_to_payload f = to_be_bytes v \<and> nz_u64_new v = f"
  by (cases f) (auto simp: fee_to_payload_def nz_u64_new_def u64_to_payload_def)

interpretation linear_fee_variant: config_variant
  "\<lambda>f. f = linear_fee_new (fee_constant f) (fee_coefficient f) (fee_certificate f)" linear_fee_to_payload linear_fee_from_payload
proof
  show "linear_fee_from_payload p \<noteq> Panic" for p
    by (auto simp: linear_fee_from_payload_def outcome_simps u64_payload_at_iff)
  show "linear_fee_from_payload p = Ok x \<longleftrightarrow>
      x = linear_fee_new (fee_constant x) (fee_coefficient x) (fee_certificate x) \<and> p = linear_fee_to_payload x" for p x
  proof
    assume "linear_fee_from_payload p = Ok x"
    then obtain c k t where "length p = 24" "x = linear_fee_new c k t" "take 8 p = to_be_bytes c" "take 8 (drop 8 p) = to_be_bytes k"
      "take 8 (drop 16 p) = to_be_bytes t"
      by (auto simp: linear_fee_from_payload_def outcome_simps u64_payload_at_iff split: if_splits)
    then show "x = linear_fee_new (fee_constant x) (fee_coefficient x) (fee_certificate x) \<and> p = linear_fee_to_payload x"
      using take_drop_append(2) [of p] by (simp add: linear_fee_new_def linear_fee_to_payload_def u64_to_payload_def)
  next
    assume "x = linear_fee_new (fee_constant x) (fee_coefficient x) (fee_certificate x) \<and> p = linear_fee_to_payload x"
    then obtain c k t where x: "x = linear_fee_new c k t" and "p = linear_fee_to_payload x" by blast
    then have "p = to_be_bytes c @ to_be_bytes k @ to_be_bytes t"
      by (simp add: linear_fee_to_payload_def u64_to_payload_def linear_fee_new_def)
    with x show "linear_fee_from_payload p = Ok x"
      by (simp add: linear_fee_from_payload_def obind_Ok_iff u64_payload_at_iff)
  qed
qed

interpretation per_certificate_fee_variant: config_variant
  "\<lambda>f. certificate_pool_registration f \<noteq> Some 0 \<and> certificate_stake_delegation f \<noteq> Some 0 \<and> certificate_owner_stake_delegation f \<noteq> Some 0"
  per_certificate_fee_to_payload per_certificate_fee_from_payload
proof
  show "per_certificate_fee_from_payload p \<noteq> Panic" for p
    by (auto simp: per_certificate_fee_from_payload_def outcome_simps u64_payload_at_iff)
  show "per_certificate_fee_from_payload p = Ok x \<longleftrightarrow>
      (certificate_pool_registration x \<noteq> Some 0 \<and> certificate_stake_delegation x \<noteq> Some 0 \<and> certificate_owner_stake_delegation x \<noteq> Some 0)
      \<and> p = per_certificate_fee_to_payload x" (is "?l \<longleftrightarrow> ?r") for p x
  proof
    assume ?l
    then obtain a b c where "length p = 24" and x: "x = \<lparr>certificate_pool_registration = nz_u64_new a,
        certificate_stake_delegation = nz_u64_new b, certificate_owner_stake_delegation = nz_u64_new c\<rparr>"
      and "take 8 p = to_be_bytes a" "take 8 (drop 8 p) = to_be_bytes b" "take 8 (drop 16 p) = to_be_bytes c"
      by (auto simp: per_certificate_fee_from_payload_def outcome_simps u64_payload_at_iff split: if_splits)
    then show ?r using take_drop_append(2) [of p] by (simp add: per_certificate_fee_to_payload_def)
  next
    assume ?r
    moreover obtain a b c where "x = \<lparr>certificate_pool_registration = a, certificate_stake_delegation = b,
        certificate_owner_stake_delegation = c\<rparr>" by (cases x) blast
    ultimately show ?l
      using fee_payload_at [of a] fee_payload_at [of b] fee_payload_at [of c]
      by (auto simp: per_certificate_fee_from_payload_def per_certificate_fee_to_payload_def outcome_simps u64_payload_at_iff)
  qed
qed

interpretation per_vote_certificate_fee_variant: config_variant
  "\<lambda>f. certificate_vote_plan f \<noteq> Some 0 \<and> certificate_vote_cast f \<noteq> Some 0"
  per_vote_certificate_fee_to_payload per_vote_certificate_fee_from_payload
proof
  show "per_vote_certificate_fee_from_payload p \<noteq> Panic" for p
    by (auto simp: per_vote_certificate_fee_from_payload_def outcome_simps u64_payload_at_iff)
  show "per_vote_certificate_fee_from_payload p = Ok x \<longleftrightarrow>
      (certificate_vote_plan x \<noteq> Some 0 \<and> certificate_vote_cast x \<noteq> Some 0) \<and> p = per_vote_certificate_fee_to_payload x"
    (is "?l \<longleftrightarrow> ?r") for p x
  proof
    assume ?l
    then obtain a b where "length p = 16" "x = \<lparr>certificate_vote_plan = nz_u64_new a, certificate_vote_cast = nz_u64_new b\<rparr>"
      "take 8 p = to_be_bytes a" "take 8 (drop 8 p) = to_be_bytes b"
      by (auto simp: per_vote_certificate_fee_from_payload_def outcome_simps u64_payload_at_iff split: if_splits)
    then show ?r using take_drop_append(1) [of p] by (simp add: per_vote_certificate_fee_to_payload_def)
  next
    assume ?r
    moreover obtain a b where "x = \<lparr>certificate_vote_plan = a, certificate_vote_cast = b\<rparr>" by (cases x) blast
    ultimately show ?l
      using fee_payload_at [of a] fee_payload_at [of b]
      by (auto simp: per_vote_certificate_fee_from_payload_def per_vote_certificate_fee_to_payload_def outcome_simps u64_payload_at_iff)
  qed
qed

text \<open>The pair of limits is accepted with anything behind it.\<close>

lemma capping_accepts:
  "capping_from_payload p = Ok c \<longleftrightarrow> (fst c \<noteq> 0 \<and> snd c \<noteq> 0) \<and> (\<exists>r. p = capping_to_payload c @ r)"
  and capping_no_panic: "capping_from_payload p \<noteq> Panic"
proof -
  let ?rd = "\<lambda>b. obind (get_nz_u32 b) (\<lambda>(x, b). obind (get_nz_u32 b) (\<lambda>(y, b). Ok ((x, y), b)))"
  let ?enc = "record_bytes [\<lambda>c. to_be_bytes (fst c :: u32), \<lambda>c. to_be_bytes (snd c :: u32)]"
  have fmt: "canonical_format (\<lambda>c. fst c \<noteq> 0 \<and> snd c \<noteq> 0) ?enc ?rd"
    by (rule field_format [OF nz_u32_format.canonical_format_axioms, where p = fst],
        rule field_format [OF nz_u32_format.canonical_format_axioms, where p = snd], rule end_format) auto
  have enc: "?enc c = capping_to_payload c" for c
    by (simp add: capping_to_payload_def bb_simps bb_finalize_as_vec_def bb_new_def)
  have rd: "capping_from_payload p = map_err config_error_from_read (obind (?rd (rb_from p)) (\<lambda>(c, _). Ok c))"
    by (cases "get_nz_u32 (rb_from p)") (auto simp: capping_from_payload_def obind_assoc split_def)
  show "capping_from_payload p \<noteq> Panic"
    using canonical_format.rd_total [OF fmt, of "rb_from p"] by (auto simp: rd outcome_simps)
  show "capping_from_payload p = Ok c \<longleftrightarrow> (fst c \<noteq> 0 \<and> snd c \<noteq> 0) \<and> (\<exists>r. p = capping_to_payload c @ r)"
  proof
    assume "capping_from_payload p = Ok c"
    then obtain b where "?rd (rb_from p) = Ok (c, b)" unfolding rd map_err_iffs obind_Ok_iff [of "?rd (rb_from p)"] by auto
    from canonical_format.rd_canonical [OF fmt _ this] show "(fst c \<noteq> 0 \<and> snd c \<noteq> 0) \<and> (\<exists>r. p = capping_to_payload c @ r)"
      unfolding enc by auto
  next
    assume r: "(fst c \<noteq> 0 \<and> snd c \<noteq> 0) \<and> (\<exists>r. p = capping_to_payload c @ r)"
    then obtain b where "?rd (rb_from p) = Ok (c, b)"
      using format.rd_enc [OF canonical_format.axioms(1) [OF fmt], of c "rb_from p"] unfolding enc by auto
    then show "capping_from_payload p = Ok c" unfolding rd by simp
  qed
qed

section \<open>Tag and length\<close>

lemma tag_from_u16_iff: "tag_from_u16 v = Some t \<longleftrightarrow> v = tag_value t"
proof -
  have "tag_from_u16 (tag_value t) = Some t" for t by (cases t) (simp_all add: tag_from_u16_def all_tags_def)
  moreover have "tag_from_u16 v = Some t \<Longrightarrow> v = tag_value t"
    unfolding tag_from_u16_def find_Some_iff by blast
  ultimately show ?thesis by blast
qed

lemma bit_small: "unat w < 2 ^ k \<Longrightarrow> bit w n \<Longrightarrow> n < k" for w :: "'a::len word"
  by (metis bit_take_bit_iff take_bit_nat_eq_self_iff unsigned_take_bit_eq word_unat_eq_iff)

lemma low_nine_bits: "w AND 511 = take_bit 9 w" for w :: u16
proof -
  have "(511 :: u16) = mask 9" by (simp add: mask_eq_exp_minus_1)
  then show ?thesis by (simp only: take_bit_eq_mask)
qed

lemma tag_len_bits:
  fixes v m :: u16
  assumes "unat v < 2 ^ 7" and "unat m < 2 ^ 9"
  shows "drop_bit 9 (push_bit 9 v OR m) = v" and "take_bit 9 (push_bit 9 v OR m) = m"
proof -
  note small = bit_small [OF assms(1)] bit_small [OF assms(2)]
  show "drop_bit 9 (push_bit 9 v OR m) = v"
    by (rule bit_word_eqI) (auto simp: bit_drop_bit_eq bit_or_iff bit_push_bit_iff dest: small)
  show "take_bit 9 (push_bit 9 v OR m) = m"
    by (rule bit_word_eqI) (auto simp: bit_take_bit_iff bit_or_iff bit_push_bit_iff dest: small)
qed

lemma tag_len_parts:
  assumes "unat v < 128" and "n < 512"
  shows "drop_bit 9 (push_bit 9 v OR of_nat n :: u16) = v" and "tag_len_get_len (push_bit 9 v OR of_nat n) = n"
proof -
  have n: "unat (of_nat n :: u16) = n" by (rule unat_of_nat_id) (use assms(2) in simp)
  have "unat v < 2 ^ 7" "unat (of_nat n :: u16) < 2 ^ 9" unfolding n using assms by simp_all
  note bits = tag_len_bits [OF this]
  show "drop_bit 9 (push_bit 9 v OR of_nat n :: u16) = v" by (rule bits)
  show "tag_len_get_len (push_bit 9 v OR of_nat n) = n" unfolding tag_len_get_len_def low_nine_bits bits by (rule n)
qed

lemma tag_len_whole: "push_bit 9 (drop_bit 9 w) OR of_nat (tag_len_get_len w) = w" for w :: u16
  by (rule bit_word_eqI) (auto simp: tag_len_get_len_def low_nine_bits bit_take_bit_iff bit_or_iff bit_push_bit_iff bit_drop_bit_eq)

lemma tag_len_bound: "tag_len_get_len w < 512"
  by (simp add: tag_len_get_len_def low_nine_bits unsigned_take_bit_eq take_bit_nat_less_exp [of 9, simplified])

lemma tag_value_small: "unat (tag_value t) < 128"
  by (cases t) simp_all

lemma tag_len_get_tag_iff: "tag_len_get_tag w = Ok t \<longleftrightarrow> drop_bit 9 w = tag_value t" "tag_len_get_tag w \<noteq> Panic"
  by (simp_all add: tag_len_get_tag_def ok_or_iffs tag_from_u16_iff)

section \<open>Parameters\<close>

text \<open>
  The parameters that can be written and read back: the fields of a non-zero type are not zero, keys
  and identifiers have their sizes, the ratio of a tax is at most one, and the linear fee carries no
  fees per certificate (they travel in parameters of their own).
\<close>

fun param_ok :: "config_param \<Rightarrow> bool" where
  "param_ok (AddBftLeader d) \<longleftrightarrow> key_ok (leader_key d)"
| "param_ok (RemoveBftLeader d) \<longleftrightarrow> key_ok (leader_key d)"
| "param_ok (CfgLinearFee d) \<longleftrightarrow> d = linear_fee_new (fee_constant d) (fee_coefficient d) (fee_certificate d)"
| "param_ok (TreasuryParams d) \<longleftrightarrow> tax_ok d"
| "param_ok (RewardParams d) \<longleftrightarrow> reward_params_ok d"
| "param_ok (PerCertificateFees d) \<longleftrightarrow>
     certificate_pool_registration d \<noteq> Some 0 \<and> certificate_stake_delegation d \<noteq> Some 0 \<and> certificate_owner_stake_delegation d \<noteq> Some 0"
| "param_ok (RewardLimitByAbsoluteStake d) \<longleftrightarrow> denominator d \<noteq> 0"
| "param_ok (PoolRewardParticipationCapping d) \<longleftrightarrow> fst d \<noteq> 0 \<and> snd d \<noteq> 0"
| "param_ok (AddCommitteeId d) \<longleftrightarrow> length (committee_bytes d) = 32"
| "param_ok (RemoveCommitteeId d) \<longleftrightarrow> length (committee_bytes d) = 32"
| "param_ok (PerVoteCertificateFees d) \<longleftrightarrow> certificate_vote_plan d \<noteq> Some 0 \<and> certificate_vote_cast d \<noteq> Some 0"
| "param_ok _ \<longleftrightarrow> True"

definition is_capping :: "config_param \<Rightarrow> bool" where
  "is_capping c \<longleftrightarrow> param_tag c = TagPoolRewardParticipationCapping"

lemmas variants_accept = u8_variant.accepts u32_variant.accepts bool_variant.accepts block0_variant.accepts value_variant.accepts
  milli_variant.accepts discrimination_variant.accepts consensus_variant.accepts leader_variant.accepts committee_variant.accepts
  tax_variant.accepts ratio_variant.accepts reward_params_variant.accepts linear_fee_variant.accepts
  per_certificate_fee_variant.accepts per_vote_certificate_fee_variant.accepts capping_accepts

lemmas variants_no_panic = u8_variant.no_panic u32_variant.no_panic bool_variant.no_panic block0_variant.no_panic value_variant.no_panic
  milli_variant.no_panic discrimination_variant.no_panic consensus_variant.no_panic leader_variant.no_panic committee_variant.no_panic
  tax_variant.no_panic ratio_variant.no_panic reward_params_variant.no_panic linear_fee_variant.no_panic
  per_certificate_fee_variant.no_panic per_vote_certificate_fee_variant.no_panic capping_no_panic

lemma param_from_payload_no_panic: "param_from_payload t p \<noteq> Panic"
  by (cases t) (simp_all add: omap_iffs variants_no_panic)

lemma param_from_payload_iff:
  "param_from_payload t p = Ok c \<longleftrightarrow>
     param_tag c = t \<and> param_ok c \<and> (\<exists>r. p = param_payload c @ r \<and> (r = [] \<or> is_capping c))"
  by (cases t; cases c; auto simp: omap_iffs variants_accept is_capping_def)

lemmas variant_sizes = u8_to_payload_def u32_to_payload_def u64_to_payload_def bool_to_payload_def block0_date_to_payload_def
  value_to_payload_def milli_to_payload_def discrimination_to_payload_def consensus_to_payload_def leader_to_payload_def
  committee_to_payload_def linear_fee_to_payload_def per_certificate_fee_to_payload_def per_vote_certificate_fee_to_payload_def

lemma builder_sizes:
  "length (tax_to_payload t) = 32" "length (ratio_to_payload r) = 16" "length (capping_to_payload c) = 8"
  "length (reward_params_to_payload q) = 33"
proof -
  show "length (tax_to_payload t) = 32"
    by (simp add: tax_to_payload_def tax_bytes_def appends_finalize [OF tax_serialize_appends])
  show "length (ratio_to_payload r) = 16" "length (capping_to_payload c) = 8"
    by (simp_all add: ratio_to_payload_def capping_to_payload_def bb_simps bb_finalize_as_vec_def bb_new_def)
  show "length (reward_params_to_payload q) = 33"
    by (cases q) (simp_all add: bb_simps bb_finalize_as_vec_def bb_new_def)
qed

lemma param_payload_length: "param_ok c \<Longrightarrow> length (param_payload c) < 512"
  by (cases c) (auto simp: variant_sizes builder_sizes key_ok_def split: discrimination.splits)

definition taglen :: "config_param \<Rightarrow> u8 list \<Rightarrow> u16" where
  "taglen c p = push_bit 9 (tag_value (param_tag c)) OR of_nat (length p)"

definition param_bytes :: "config_param \<Rightarrow> u8 list" where
  "param_bytes c = to_be_bytes (taglen c (param_payload c)) @ param_payload c"

lemma taglen_parts:
  "length p < 512 \<Longrightarrow> tag_len_get_len (taglen c p) = length p"
  "length p < 512 \<Longrightarrow> tag_len_get_tag (taglen c p) = Ok (param_tag c)"
  using tag_len_parts [OF tag_value_small, of "length p" "param_tag c"] by (simp_all add: taglen_def tag_len_get_tag_iff)

lemma config_param_serialize_eq: "param_ok c \<Longrightarrow> config_param_serialize c w = Ok (w @ param_bytes c)"
  using param_payload_length [of c]
  by (simp add: config_param_serialize_def tag_len_new_def MAXIMUM_LEN_def ok_or_def param_bytes_def taglen_def codec_defs write_all_def Let_def)

lemma slice_read:
  assumes "rb_ok b" and "rest b = p @ r"
  shows "\<exists>b'. get_slice (length p) b = Ok (p, b') \<and> rb_ok b' \<and> rest b' = r"
  using assms advance_ok [OF assms(1), of "length p"] by (simp add: get_slice_eq)

text \<open>What the reader accepts: a payload of less than 512 bytes behind the matching tag and length.\<close>

lemma config_param_read_enc:
  assumes b: "rb_ok b" "rest b = to_be_bytes (taglen c p) @ p @ r" and p: "length p < 512" "param_from_payload (param_tag c) p = Ok c"
  shows "\<exists>b'. config_param_read b = Ok (c, b') \<and> rb_ok b' \<and> rest b' = r"
proof -
  obtain b1 where "get_u16 b = Ok (taglen c p, b1)" "rb_ok b1" "rest b1 = p @ r"
    using u16_format.rd_enc [OF _ b] by auto
  moreover obtain b2 where "get_slice (length p) b1 = Ok (p, b2)" "rb_ok b2" "rest b2 = r"
    using slice_read [OF calculation(2,3)] by blast
  ultimately show ?thesis using p taglen_parts [OF p(1), of c] by (simp add: config_param_read_def)
qed

lemma config_param_read_dec:
  assumes "rb_ok b" and "config_param_read b = Ok (c, b')"
  shows "\<exists>p. length p < 512 \<and> param_from_payload (param_tag c) p = Ok c \<and> rb_ok b' \<and> rest b = to_be_bytes (taglen c p) @ p @ rest b'"
proof -
  from assms(2) obtain w b1 p t where w: "get_u16 b = Ok (w, b1)" and p: "get_slice (tag_len_get_len w) b1 = Ok (p, b')"
    and t: "tag_len_get_tag w = Ok t" and c: "param_from_payload t p = Ok c"
    by (auto simp: config_param_read_def outcome_simps)
  have b1: "rb_ok b1" "rest b = to_be_bytes w @ rest b1" using u16_format.rd_canonical [OF assms(1) w] by simp_all
  have len: "length p = tag_len_get_len w" and b': "rb_ok b'" "rest b1 = p @ rest b'"
    using p advance_ok [OF b1(1), of "tag_len_get_len w"] by (auto simp: get_slice_eq [OF b1(1)] split: if_splits)
  have t': "param_tag c = t" using c by (simp add: param_from_payload_iff)
  have "w = taglen c p" using tag_len_whole [of w] t len by (simp add: taglen_def t' tag_len_get_tag_iff)
  then show ?thesis using b1 b' c t' len tag_len_bound [of w] by auto
qed

lemma config_param_read_total: "rb_ok b \<Longrightarrow> config_param_read b \<noteq> Panic"
  using u16_format.rd_total [of b] u16_format.rd_canonical [of b]
  by (fastforce simp: config_param_read_def outcome_simps tag_len_get_tag_iff param_from_payload_no_panic get_slice_eq split: if_splits)

lemma config_param_format: "format param_ok param_bytes config_param_read"
proof
  fix c b r assume c: "param_ok c" and b: "rb_ok b" "rest b = param_bytes c @ r"
  have "param_from_payload (param_tag c) (param_payload c) = Ok c" using c by (simp add: param_from_payload_iff)
  then show "\<exists>b'. config_param_read b = Ok (c, b') \<and> rb_ok b' \<and> rest b' = r"
    using config_param_read_enc [OF b(1), of c "param_payload c" r] b(2) param_payload_length [OF c] by (simp add: param_bytes_def)
qed

interpretation param_format: format param_ok param_bytes config_param_read
  by (rule config_param_format)

lemma config_param_deserialize_enc:
  assumes "param_ok c"
  shows "config_param_deserialize (param_bytes c @ r) = Ok (c, r)"
proof -
  have "tag_len_get_len (taglen c (param_payload c)) = length (param_payload c)"
    by (rule taglen_parts(1) [OF param_payload_length [OF assms]])
  moreover obtain b where "config_param_read (rb_from (param_bytes c)) = Ok (c, b)"
    using param_format.rd_enc [OF assms, of "rb_from (param_bytes c)" "[]"] by auto
  ultimately show ?thesis by (simp add: config_param_deserialize_def codec_defs read_exact_def write_all_def param_bytes_def)
qed

definition params_bytes :: "config_param list \<Rightarrow> u8 list" where
  "params_bytes ps = to_be_bytes (of_nat (length ps) :: u16) @ concat (map param_bytes ps)"

lemma serialize_params_eq: "\<forall>c \<in> set ps. param_ok c \<Longrightarrow> serialize_params ps w = Ok (w @ concat (map param_bytes ps))"
  by (induction ps arbitrary: w) (simp_all add: config_param_serialize_eq)

lemma deserialize_params_eq:
  "\<forall>c \<in> set ps. param_ok c \<Longrightarrow> deserialize_params (length ps) (concat (map param_bytes ps) @ r) = Ok (ps, r)"
  by (induction ps) (simp_all add: config_param_deserialize_enc)

lemma config_params_format:
  "format (\<lambda>ps. length ps < 2 ^ 16 \<and> (\<forall>c \<in> set ps. param_ok c)) params_bytes config_params_read"
proof
  fix ps b r assume ps: "length ps < 2 ^ 16 \<and> (\<forall>c \<in> set ps. param_ok c)" and b: "rb_ok b" "rest b = params_bytes ps @ r"
  obtain b1 where "get_u16 b = Ok (of_nat (length ps), b1)" "rb_ok b1" "rest b1 = concat (map param_bytes ps) @ r"
    using u16_format.rd_enc [OF _ b(1)] b(2) by (auto simp: params_bytes_def)
  moreover have "unat (of_nat (length ps) :: u16) = length ps" using ps by (intro unat_of_nat_id) simp
  ultimately show "\<exists>b'. config_params_read b = Ok (ps, b') \<and> rb_ok b' \<and> rest b' = r"
    using param_format.read_vec_enc [of ps b1 r] ps by (simp add: config_params_read_def)
qed

interpretation params_format: format "\<lambda>ps. length ps < 2 ^ 16 \<and> (\<forall>c \<in> set ps. param_ok c)" params_bytes config_params_read
  by (rule config_params_format)

section \<open>Properties\<close>



end
