(* ===== verification/Settings.thy ===== *)
theory Settings
  imports Config "HOL-Library.List_Lexorder" "HOL-Library.Product_Lexorder" "HOL-Library.Sublist"
begin

text \<open>
  Settings of the chain and how they change (\<open>setting.rs\<close>, \<open>update.rs\<close>, \<open>certificate/update_proposal.rs\<close>,
  \<open>certificate/update_vote.rs\<close>): applying configuration parameters, writing the settings out as
  parameters, update proposals, the votes on them, and what happens to them when an epoch begins.
\<close>

section \<open>Settings\<close>

definition MILLI_MULTIPLIER :: u64 where "MILLI_MULTIPLIER = 1000"
definition MILLI_ZERO :: milli where "MILLI_ZERO = Milli 0"
definition MILLI_HALF :: milli where "MILLI_HALF = Milli (MILLI_MULTIPLIER div 2)"
definition MILLI_ONE :: milli where "MILLI_ONE = Milli MILLI_MULTIPLIER"

datatype active_slots_coeff = ActiveSlotsCoeff (coeff_milli: milli)

datatype active_slots_coeff_error = CoeffInvalidValue milli

definition coeff_try_from :: "milli \<Rightarrow> (active_slots_coeff_error, active_slots_coeff) outcome" where
  "coeff_try_from v =
     (if millis MILLI_ZERO < millis v \<and> millis v \<le> millis MILLI_ONE then Ok (ActiveSlotsCoeff v) else Err (CoeffInvalidValue v))"

datatype fees_goes_to = FeesToRewards | FeesToTreasury

record settings =
  s_consensus_version :: consensus_type
  s_consensus_nonce :: "u8 list"
  s_slots_per_epoch :: u32
  s_slot_duration :: u8
  s_epoch_stability_depth :: u32
  s_active_slots_coeff :: active_slots_coeff
  s_block_content_max_size :: u32
  s_bft_leaders :: "bft_leader_id list"
  s_linear_fees :: linear_fee
  s_proposal_expiration :: u32
  s_reward_params :: "reward_params option"
  s_treasury_params :: "tax_type option"
  s_fees_goes_to :: fees_goes_to
  s_rewards_limit :: limit
  s_pool_participation_capping :: "(u32 \<times> u32) option"
  s_committees :: "committee_id list"
  s_transaction_max_expiry_epochs :: u8

definition nonce_zero :: "u8 list" where
  "nonce_zero = replicate 32 0"

definition settings_new :: "('e, settings) outcome" where
  "settings_new =
     obind (unwrap (coeff_try_from MILLI_HALF)) (\<lambda>coeff.
     Ok \<lparr>s_consensus_version = Bft, s_consensus_nonce = nonce_zero, s_slots_per_epoch = 1, s_slot_duration = 10,
         s_epoch_stability_depth = 10, s_active_slots_coeff = coeff, s_block_content_max_size = 102400, s_bft_leaders = [],
         s_linear_fees = linear_fee_new 0 0 0, s_proposal_expiration = 100, s_reward_params = None, s_treasury_params = None,
         s_fees_goes_to = FeesToRewards, s_rewards_limit = NoLimit, s_pool_participation_capping = None, s_committees = [],
         s_transaction_max_expiry_epochs = 1\<rparr>)"

type_synonym proposal_id = digest

datatype update_error_t =
    BadProposalSignature proposal_id bft_leader_id
  | BadProposer proposal_id bft_leader_id
  | DuplicateProposal proposal_id
  | VoteForMissingProposal proposal_id
  | BadVoteSignature proposal_id bft_leader_id
  | BadVoter proposal_id bft_leader_id
  | DuplicateVote proposal_id bft_leader_id
  | ReadOnlySetting
  | BadBftSlotsRatio milli
  | BadActiveSlotsCoeff active_slots_coeff_error

text \<open>
  One parameter of \<open>try_apply\<close>: the settings so far, and the fees per certificate and per vote
  certificate that are kept until the end.
\<close>

type_synonym apply_state = "settings \<times> per_certificate_fee option \<times> per_vote_certificate_fee option"

definition push_committee :: "committee_id \<Rightarrow> settings \<Rightarrow> settings" where
  "push_committee c s = s\<lparr>s_committees := s_committees s @ [c]\<rparr>"

fun apply_param :: "apply_state \<Rightarrow> config_param \<Rightarrow> (update_error_t, apply_state) outcome" where
  "apply_param (s, pcf, pvf) p =
     (case p of
        Block0Date _ \<Rightarrow> Err ReadOnlySetting
      | CfgDiscrimination _ \<Rightarrow> Err ReadOnlySetting
      | TreasuryAdd _ \<Rightarrow> Err ReadOnlySetting
      | RewardPot _ \<Rightarrow> Err ReadOnlySetting
      | KesUpdateSpeed _ \<Rightarrow> Err ReadOnlySetting
      | ConsensusVersion d \<Rightarrow> Ok (s\<lparr>s_consensus_version := d\<rparr>, pcf, pvf)
      | SlotsPerEpoch d \<Rightarrow> Ok (s\<lparr>s_slots_per_epoch := d\<rparr>, pcf, pvf)
      | CfgSlotDuration d \<Rightarrow> Ok (s\<lparr>s_slot_duration := d\<rparr>, pcf, pvf)
      | EpochStabilityDepth d \<Rightarrow> Ok (s\<lparr>s_epoch_stability_depth := d\<rparr>, pcf, pvf)
      | ActiveSlotsCoefficient d \<Rightarrow>
          obind (map_err BadActiveSlotsCoeff (coeff_try_from d)) (\<lambda>c. Ok (s\<lparr>s_active_slots_coeff := c\<rparr>, pcf, pvf))
      | BlockContentMaxSize d \<Rightarrow> Ok (s\<lparr>s_block_content_max_size := d\<rparr>, pcf, pvf)
      | AddBftLeader d \<Rightarrow>
          obind (committee_from_key (leader_key d)) (\<lambda>c.
          Ok (push_committee c (s\<lparr>s_bft_leaders := s_bft_leaders s @ [d]\<rparr>), pcf, pvf))
      | RemoveBftLeader d \<Rightarrow> Ok (s\<lparr>s_bft_leaders := filter (\<lambda>l. l \<noteq> d) (s_bft_leaders s)\<rparr>, pcf, pvf)
      | CfgLinearFee d \<Rightarrow> Ok (s\<lparr>s_linear_fees := d\<rparr>, pcf, pvf)
      | ProposalExpiration d \<Rightarrow> Ok (s\<lparr>s_proposal_expiration := d\<rparr>, pcf, pvf)
      | RewardParams d \<Rightarrow> Ok (s\<lparr>s_reward_params := Some d\<rparr>, pcf, pvf)
      | TreasuryParams d \<Rightarrow> Ok (s\<lparr>s_treasury_params := Some d\<rparr>, pcf, pvf)
      | PerCertificateFees d \<Rightarrow> Ok (s, Some d, pvf)
      | PerVoteCertificateFees d \<Rightarrow> Ok (s, pcf, Some d)
      | FeesInTreasury d \<Rightarrow> Ok (s\<lparr>s_fees_goes_to := (if d then FeesToTreasury else FeesToRewards)\<rparr>, pcf, pvf)
      | RewardLimitNone \<Rightarrow> Ok (s\<lparr>s_rewards_limit := NoLimit\<rparr>, pcf, pvf)
      | RewardLimitByAbsoluteStake d \<Rightarrow> Ok (s\<lparr>s_rewards_limit := ByStakeAbsolute d\<rparr>, pcf, pvf)
      | PoolRewardParticipationCapping d \<Rightarrow> Ok (s\<lparr>s_pool_participation_capping := Some d\<rparr>, pcf, pvf)
      | AddCommitteeId d \<Rightarrow> Ok (push_committee d s, pcf, pvf)
      | RemoveCommitteeId d \<Rightarrow> Ok (s\<lparr>s_committees := filter (\<lambda>c. c \<noteq> d) (s_committees s)\<rparr>, pcf, pvf)
      | TransactionMaxExpiryEpochs d \<Rightarrow> Ok (s\<lparr>s_transaction_max_expiry_epochs := d\<rparr>, pcf, pvf))"

fun apply_params :: "apply_state \<Rightarrow> config_param list \<Rightarrow> (update_error_t, apply_state) outcome" where
  "apply_params st [] = Ok st"
| "apply_params st (p # ps) = obind (apply_param st p) (\<lambda>st. apply_params st ps)"

definition set_certificate_fees :: "per_certificate_fee option \<Rightarrow> linear_fee \<Rightarrow> linear_fee" where
  "set_certificate_fees f l = (case f of None \<Rightarrow> l | Some pcf \<Rightarrow> l\<lparr>per_certificate_fees := pcf\<rparr>)"

definition set_vote_certificate_fees :: "per_vote_certificate_fee option \<Rightarrow> linear_fee \<Rightarrow> linear_fee" where
  "set_vote_certificate_fees f l = (case f of None \<Rightarrow> l | Some pcf \<Rightarrow> l\<lparr>per_vote_certificate_fees := pcf\<rparr>)"

definition try_apply :: "settings \<Rightarrow> config_param list \<Rightarrow> (update_error_t, settings) outcome" where
  "try_apply s changes =
     obind (apply_params (s, None, None) changes) (\<lambda>(s, pcf, pvf).
     Ok (s\<lparr>s_linear_fees := set_vote_certificate_fees pvf (set_certificate_fees pcf (s_linear_fees s))\<rparr>))"

definition settings_params :: "settings \<Rightarrow> config_param list" where
  "settings_params s =
     [ConsensusVersion (s_consensus_version s), SlotsPerEpoch (s_slots_per_epoch s), CfgSlotDuration (s_slot_duration s),
      EpochStabilityDepth (s_epoch_stability_depth s), ActiveSlotsCoefficient (coeff_milli (s_active_slots_coeff s)),
      BlockContentMaxSize (s_block_content_max_size s)]
     @ map AddBftLeader (s_bft_leaders s)
     @ [CfgLinearFee (s_linear_fees s), ProposalExpiration (s_proposal_expiration s),
        TransactionMaxExpiryEpochs (s_transaction_max_expiry_epochs s)]
     @ (case s_reward_params s of Some p \<Rightarrow> [RewardParams p] | None \<Rightarrow> [])
     @ (case s_treasury_params s of Some p \<Rightarrow> [TreasuryParams p] | None \<Rightarrow> [])"

text \<open>The debug assertion is part of the function.\<close>

definition to_config_params :: "settings \<Rightarrow> ('e, config_param list) outcome" where
  "to_config_params s =
     (let params = settings_params s in
      obind settings_new (\<lambda>s0. obind (unwrap (try_apply s0 params)) (\<lambda>s'.
      obind (require (s = s')) (\<lambda>_. Ok params))))"

definition to_reward_params :: "settings \<Rightarrow> reward_parameters" where
  "to_reward_params s =
     (case s_reward_params s of
        None \<Rightarrow> reward_parameters_zero
      | Some (RewardHalving constant ratio start rate) \<Rightarrow>
          \<lparr>initial_value = constant, compounding_ratio = ratio, compounding_kind = Halvening, epoch_rate = rate,
           reward_epoch_start = start, reward_drawing_limit_max = s_rewards_limit s,
           pool_participation_capping = s_pool_participation_capping s\<rparr>
      | Some (RewardLinear constant ratio start rate) \<Rightarrow>
          \<lparr>initial_value = constant, compounding_ratio = ratio, compounding_kind = Linear, epoch_rate = rate,
           reward_epoch_start = start, reward_drawing_limit_max = s_rewards_limit s,
           pool_participation_capping = s_pool_participation_capping s\<rparr>)"

section \<open>Update proposals\<close>

record update_proposal =
  up_changes :: "config_param list"
  up_proposer_id :: bft_leader_id

record update_vote =
  uv_proposal_id :: proposal_id
  uv_voter_id :: bft_leader_id

record update_proposal_state =
  ups_proposal :: update_proposal
  ups_date :: block_date
  ups_votes :: "(bft_leader_id, unit) hamt"

type_synonym update_state = "(proposal_id, update_proposal_state) hamt"

definition update_state_new :: update_state where
  "update_state_new = hamt_new"

definition apply_proposal ::
  "proposal_id hasher \<Rightarrow> update_state \<Rightarrow> proposal_id \<Rightarrow> update_proposal \<Rightarrow> settings \<Rightarrow> block_date \<Rightarrow> (update_error_t, update_state) outcome" where
  "apply_proposal hp st i proposal s cur_date =
     (let proposer = up_proposer_id proposal in
      obind (try_apply s (up_changes proposal)) (\<lambda>_.
      if proposer \<notin> set (s_bft_leaders s) then Err (BadProposer i proposer)
      else
        map_err (\<lambda>_. DuplicateProposal i)
          (hamt_insert hp st i \<lparr>ups_proposal = proposal, ups_date = cur_date, ups_votes = hamt_new\<rparr>)))"

definition add_vote ::
  "bft_leader_id hasher \<Rightarrow> bft_leader_id \<Rightarrow> update_proposal_state \<Rightarrow> (insert_error, update_proposal_state option) outcome" where
  "add_vote hv voter p = obind (hamt_insert hv (ups_votes p) voter ()) (\<lambda>votes. Ok (Some (p\<lparr>ups_votes := votes\<rparr>)))"

definition apply_vote ::
  "proposal_id hasher \<Rightarrow> bft_leader_id hasher \<Rightarrow> update_state \<Rightarrow> update_vote \<Rightarrow> settings \<Rightarrow> (update_error_t, update_state) outcome" where
  "apply_vote hp hv st vote s =
     (if uv_voter_id vote \<notin> set (s_bft_leaders s) then Err (BadVoter (uv_proposal_id vote) (uv_voter_id vote))
      else
        map_err (\<lambda>e. case e of
            UpdateKeyNotFound \<Rightarrow> VoteForMissingProposal (uv_proposal_id vote)
          | ValueCallbackError _ \<Rightarrow> DuplicateVote (uv_proposal_id vote) (uv_voter_id vote))
          (hamt_update hp st (uv_proposal_id vote) (add_vote hv (uv_voter_id vote))))"

text \<open>The loop over the sorted proposals: the settings so far and the identifiers to be removed.\<close>

definition has_majority :: "settings \<Rightarrow> update_proposal_state \<Rightarrow> bool" where
  "has_majority s p \<longleftrightarrow> length (s_bft_leaders s) div 2 < hamt_size (ups_votes p)"

fun process_loop ::
  "epoch \<Rightarrow> (proposal_id \<times> update_proposal_state) list \<Rightarrow> settings \<Rightarrow> proposal_id list \<Rightarrow> ('e, settings \<times> proposal_id list) outcome" where
  "process_loop new_epoch [] s expired = Ok (s, expired)"
| "process_loop new_epoch ((i, p) # ps) s expired =
     (if has_majority s p then
        obind (unwrap (try_apply s (up_changes (ups_proposal p)))) (\<lambda>s. process_loop new_epoch ps s (expired @ [i]))
      else
        obind (padd (bd_epoch (ups_date p)) (s_proposal_expiration s)) (\<lambda>last.
        process_loop new_epoch ps s (if last < new_epoch then expired @ [i] else expired)))"

fun remove_proposals :: "proposal_id hasher \<Rightarrow> update_state \<Rightarrow> proposal_id list \<Rightarrow> ('e, update_state) outcome" where
  "remove_proposals hp st [] = Ok st"
| "remove_proposals hp st (i # is) = obind (unwrap (hamt_remove hp st i)) (\<lambda>st. remove_proposals hp st is)"

definition proposal_order :: "proposal_id \<times> update_proposal_state \<Rightarrow> block_date \<times> proposal_id" where
  "proposal_order x = (ups_date (snd x), fst x)"

definition process_proposals ::
  "proposal_id hasher \<Rightarrow> update_state \<Rightarrow> settings \<Rightarrow> block_date \<Rightarrow> block_date \<Rightarrow> ('e, update_state \<times> settings) outcome" where
  "process_proposals hp st s prev_date new_date =
     obind (require (prev_date < new_date)) (\<lambda>_.
     let proposals = sort_key proposal_order (hamt_iter st) in
     if bd_epoch prev_date < bd_epoch new_date then
       obind (process_loop (bd_epoch new_date) proposals s []) (\<lambda>(s, expired_ids).
       obind (remove_proposals hp st expired_ids) (\<lambda>st. Ok (st, s)))
     else Ok (st, s))"

text \<open>Proposals and votes on the wire; the changes are written to a vector that cannot fail to grow.\<close>

definition update_proposal_serialize_in :: "update_proposal \<Rightarrow> byte_builder \<Rightarrow> ('e, byte_builder) outcome" where
  "update_proposal_serialize_in u bb =
     obind (unwrap (config_params_serialize (up_changes u) [])) (\<lambda>changes.
     Ok (bb_bytes (bb_bytes bb changes) (pk_bytes (leader_key (up_proposer_id u)))))"

definition bft_leader_read :: "bft_leader_id reader" where
  "bft_leader_read buf = obind (read_ed25519 buf) (\<lambda>(k, buf). Ok (BftLeaderId k, buf))"

definition update_proposal_read :: "update_proposal reader" where
  "update_proposal_read buf =
     obind (config_params_read buf) (\<lambda>(changes, buf). obind (bft_leader_read buf) (\<lambda>(proposer, buf).
     Ok (\<lparr>up_changes = changes, up_proposer_id = proposer\<rparr>, buf)))"

definition update_vote_serialize_in :: "update_vote \<Rightarrow> byte_builder \<Rightarrow> byte_builder" where
  "update_vote_serialize_in v bb = bb_bytes (bb_bytes bb (uv_proposal_id v)) (pk_bytes (leader_key (uv_voter_id v)))"

definition update_vote_read :: "update_vote reader" where
  "update_vote_read buf =
     obind (read_array 32 buf) (\<lambda>(i, buf). obind (bft_leader_read buf) (\<lambda>(voter, buf).
     Ok (\<lparr>uv_proposal_id = i, uv_voter_id = voter\<rparr>, buf)))"

section \<open>Which changes can be applied\<close>

text \<open>Whether a parameter can be applied does not depend on the settings it is applied to.\<close>

fun param_applies :: "config_param \<Rightarrow> bool" where
  "param_applies (Block0Date _) \<longleftrightarrow> False"
| "param_applies (CfgDiscrimination _) \<longleftrightarrow> False"
| "param_applies (TreasuryAdd _) \<longleftrightarrow> False"
| "param_applies (RewardPot _) \<longleftrightarrow> False"
| "param_applies (KesUpdateSpeed _) \<longleftrightarrow> False"
| "param_applies (ActiveSlotsCoefficient d) \<longleftrightarrow> 0 < millis d \<and> millis d \<le> 1000"
| "param_applies (AddBftLeader d) \<longleftrightarrow> key_ok (leader_key d)"
| "param_applies _ \<longleftrightarrow> True"

definition committee_of :: "bft_leader_id \<Rightarrow> committee_id" where
  "committee_of l = CommitteeId (pk_bytes (leader_key l))"

lemmas milli_defs = MILLI_ZERO_def MILLI_ONE_def MILLI_HALF_def MILLI_MULTIPLIER_def

lemma coeff_try_from_iff: "coeff_try_from d = Ok c \<longleftrightarrow> (0 < millis d \<and> millis d \<le> 1000) \<and> c = ActiveSlotsCoeff d"
  "coeff_try_from d \<noteq> Panic"
  by (auto simp: coeff_try_from_def milli_defs)

lemma committee_from_key_iff: "committee_from_key (leader_key l) = Ok c \<longleftrightarrow> key_ok (leader_key l) \<and> c = committee_of l"
  by (auto simp: committee_from_key_def committee_try_from_def COMMITTEE_ID_SIZE_def unwrap_iffs key_ok_def committee_of_def)

lemma apply_param_iff: "(\<exists>st'. apply_param st p = Ok st') \<longleftrightarrow> param_applies p"
proof -
  obtain s pcf pvf where "st = (s, pcf, pvf)" by (cases st)
  then show ?thesis by (cases p) (simp_all add: obind_Ok_iff map_err_iffs coeff_try_from_iff committee_from_key_iff)
qed

lemma apply_params_iff: "(\<exists>st'. apply_params st ps = Ok st') \<longleftrightarrow> list_all param_applies ps"
proof (induction ps arbitrary: st)
  case (Cons p ps)
  show ?case
  proof (cases "param_applies p")
    case True
    then obtain st' where "apply_param st p = Ok st'" using apply_param_iff by blast
    then show ?thesis using True Cons.IH [of st'] by simp
  qed (use apply_param_iff [of st p] in \<open>auto simp: obind_Ok_iff\<close>)
next
  case Nil
  have "apply_params st [] = Ok st" by simp
  then show ?case by (metis list.pred_inject(1))
qed

lemma try_apply_iff: "(\<exists>s'. try_apply s ps = Ok s') \<longleftrightarrow> list_all param_applies ps"
  using apply_params_iff [of "(s, None, None)" ps] by (auto simp: try_apply_def obind_Ok_iff)

text \<open>Which settings a change can touch.\<close>

fun changes_leaders :: "config_param \<Rightarrow> bool" where
  "changes_leaders (AddBftLeader _) \<longleftrightarrow> True"
| "changes_leaders (RemoveBftLeader _) \<longleftrightarrow> True"
| "changes_leaders _ \<longleftrightarrow> False"

definition expirations :: "config_param list \<Rightarrow> u32 set" where
  "expirations ps = {x. ProposalExpiration x \<in> set ps}"

lemma apply_param_leaders:
  "apply_param (s, pcf, pvf) p = Ok (s', pcf', pvf') \<Longrightarrow> \<not> changes_leaders p \<Longrightarrow> s_bft_leaders s' = s_bft_leaders s"
  by (cases p) (auto simp: obind_Ok_iff push_committee_def)

lemma apply_param_expiration:
  "apply_param (s, pcf, pvf) p = Ok (s', pcf', pvf') \<Longrightarrow>
     s_proposal_expiration s' \<in> insert (s_proposal_expiration s) (expirations [p])"
  by (cases p) (auto simp: obind_Ok_iff push_committee_def expirations_def)

lemma apply_params_effect:
  "apply_params (s, pcf, pvf) ps = Ok (s', pcf', pvf') \<Longrightarrow>
     s_proposal_expiration s' \<in> insert (s_proposal_expiration s) (expirations ps)
     \<and> (list_all (\<lambda>p. \<not> changes_leaders p) ps \<longrightarrow> s_bft_leaders s' = s_bft_leaders s)"
proof (induction ps arbitrary: s pcf pvf)
  case (Cons p ps)
  then obtain s1 pcf1 pvf1 where p: "apply_param (s, pcf, pvf) p = Ok (s1, pcf1, pvf1)"
    and ps: "apply_params (s1, pcf1, pvf1) ps = Ok (s', pcf', pvf')" by (auto simp: obind_Ok_iff)
  from Cons.IH [OF ps] apply_param_expiration [OF p] apply_param_leaders [OF p]
  show ?case by (auto simp: expirations_def)
qed simp

lemma try_apply_effect:
  assumes "try_apply s ps = Ok s'"
  shows "s_proposal_expiration s' \<in> insert (s_proposal_expiration s) (expirations ps)"
    and "list_all (\<lambda>p. \<not> changes_leaders p) ps \<Longrightarrow> s_bft_leaders s' = s_bft_leaders s"
proof -
  from assms obtain s1 pcf pvf where "apply_params (s, None, None) ps = Ok (s1, pcf, pvf)"
    "s_proposal_expiration s' = s_proposal_expiration s1" "s_bft_leaders s' = s_bft_leaders s1"
    by (auto simp: try_apply_def obind_Ok_iff)
  then show "s_proposal_expiration s' \<in> insert (s_proposal_expiration s) (expirations ps)"
    "list_all (\<lambda>p. \<not> changes_leaders p) ps \<Longrightarrow> s_bft_leaders s' = s_bft_leaders s"
    using apply_params_effect [of s None None ps s1 pcf pvf] by simp_all
qed

section \<open>The invariant of the proposals\<close>

text \<open>The tries are well formed and the changes of every proposal can be applied.\<close>

definition updates_ok :: "proposal_id hasher \<Rightarrow> bft_leader_id hasher \<Rightarrow> update_state \<Rightarrow> bool" where
  "updates_ok hp hv st \<longleftrightarrow> hamt_ok hp st
     \<and> (\<forall>i p. hamt_map hp st i = Some p \<longrightarrow> hamt_ok hv (ups_votes p) \<and> list_all param_applies (up_changes (ups_proposal p)))"

lemma updates_new_ok [simp]: "updates_ok hp hv update_state_new"
  by (simp add: updates_ok_def update_state_new_def)

lemma updates_ok_entries:
  assumes "updates_ok hp hv st"
  shows "distinct (map fst (hamt_iter st))" and "(i, p) \<in> set (hamt_iter st) \<longleftrightarrow> hamt_map hp st i = Some p"
proof -
  have ok: "hamt_ok hp st" using assms by (simp add: updates_ok_def)
  show d: "distinct (map fst (hamt_iter st))" by (rule pm.entries_keys [OF ok])
  show "(i, p) \<in> set (hamt_iter st) \<longleftrightarrow> hamt_map hp st i = Some p"
    using map_of_eq_Some_iff [OF d] pm.entries_alpha [OF ok] by metis
qed

text \<open>Removing the decided proposals.\<close>

lemma remove_proposals_ok:
  assumes "updates_ok hp hv st" and "distinct is" and "set is \<subseteq> dom (hamt_map hp st)"
  shows "\<exists>st'. remove_proposals hp st is = (Ok st' :: ('e, _) outcome) \<and> updates_ok hp hv st'
    \<and> hamt_map hp st' = (\<lambda>i. if i \<in> set is then None else hamt_map hp st i)"
  using assms
proof (induction "is" arbitrary: st)
  case (Cons i "is")
  obtain p where p: "hamt_map hp st i = Some p" using Cons.prems(3) by auto
  then obtain st1 where st1: "hamt_remove hp st i = Ok st1" "hamt_ok hp st1" "hamt_map hp st1 = (hamt_map hp st)(i := None)"
    using hamt_remove_ok [of hp st i] Cons.prems(1) by (auto simp: updates_ok_def)
  have "updates_ok hp hv st1" using Cons.prems(1) st1 by (simp add: updates_ok_def)
  moreover have "set is \<subseteq> dom (hamt_map hp st1)" using Cons.prems st1(3) by auto
  ultimately obtain st' where "remove_proposals hp st1 is = (Ok st' :: ('e, _) outcome)" "updates_ok hp hv st'"
    "hamt_map hp st' = (\<lambda>j. if j \<in> set is then None else hamt_map hp st1 j)"
    using Cons.IH [of st1] Cons.prems(2) by auto
  then show ?case using st1 by (intro exI [of _ st']) auto
qed simp

section \<open>An epoch begins\<close>

definition past :: "settings \<Rightarrow> epoch \<Rightarrow> update_proposal_state \<Rightarrow> bool" where
  "past s new_epoch p \<longleftrightarrow> unat (bd_epoch (ups_date p)) + unat (s_proposal_expiration s) < unat new_epoch"

definition decided :: "settings \<Rightarrow> epoch \<Rightarrow> update_proposal_state \<Rightarrow> bool" where
  "decided s new_epoch p \<longleftrightarrow> has_majority s p \<or> past s new_epoch p"

fun apply_changes :: "settings \<Rightarrow> config_param list list \<Rightarrow> (update_error_t, settings) outcome" where
  "apply_changes s [] = Ok s"
| "apply_changes s (c # cs) = obind (try_apply s c) (\<lambda>s. apply_changes s cs)"

text \<open>The expirations that can be in force while the proposals \<open>ps\<close> are processed from the settings \<open>s\<close>.\<close>

definition all_expirations :: "settings \<Rightarrow> (proposal_id \<times> update_proposal_state) list \<Rightarrow> u32 set" where
  "all_expirations s ps = insert (s_proposal_expiration s) (\<Union>(i, p) \<in> set ps. expirations (up_changes (ups_proposal p)))"

lemma expiry_step:
  assumes "unat (bd_epoch (ups_date p)) + unat (s_proposal_expiration s) < 2 ^ 32"
  shows "\<exists>e. padd (bd_epoch (ups_date p)) (s_proposal_expiration s) = (Ok e :: ('e, _) outcome) \<and> (e < new_epoch \<longleftrightarrow> past s new_epoch p)"
proof -
  have "padd (bd_epoch (ups_date p)) (s_proposal_expiration s) = (Ok (bd_epoch (ups_date p) + s_proposal_expiration s) :: ('e, _) outcome)"
    using assms by (simp add: padd_def checked_add_def unwrap_opt_def)
  then show ?thesis using unat_plus_no_ovf [of "bd_epoch (ups_date p)" "s_proposal_expiration s"] assms
    by (auto simp: past_def word_less_nat_alt)
qed

lemma process_loop_total:
  assumes "\<forall>(i, p) \<in> set ps. list_all param_applies (up_changes (ups_proposal p))"
    and "\<forall>(i, p) \<in> set ps. \<forall>x \<in> all_expirations s ps. unat (bd_epoch (ups_date p)) + unat x < 2 ^ 32"
  shows "\<exists>s' out. process_loop e ps s ex = (Ok (s', ex @ out) :: ('e, _) outcome) \<and> subseq out (map fst ps)"
  using assms
proof (induction ps arbitrary: s ex)
  case (Cons x ps)
  obtain i p where x: "x = (i, p)" by (cases x)
  show ?case
  proof (cases "has_majority s p")
    case True
    obtain s1 where s1: "try_apply s (up_changes (ups_proposal p)) = Ok s1" using Cons.prems(1) x try_apply_iff by fastforce
    have "all_expirations s1 ps \<subseteq> all_expirations s (x # ps)"
      using try_apply_effect(1) [OF s1] by (auto simp: all_expirations_def x)
    then obtain s' out where "process_loop e ps s1 (ex @ [i]) = (Ok (s', (ex @ [i]) @ out) :: ('e, _) outcome)" "subseq out (map fst ps)"
      using Cons.IH [of s1 "ex @ [i]"] Cons.prems by fastforce
    then show ?thesis using True s1 x by (intro exI [of _ s'] exI [of _ "i # out"]) simp
  next
    case False
    obtain l where l: "padd (bd_epoch (ups_date p)) (s_proposal_expiration s) = (Ok l :: ('e, _) outcome)"
      using expiry_step [of p s, where 'e = 'e and new_epoch = e] Cons.prems(2) x by (auto simp: all_expirations_def)
    let ?ex = "if l < e then ex @ [i] else ex"
    have "all_expirations s ps \<subseteq> all_expirations s (x # ps)" by (auto simp: all_expirations_def)
    then obtain s' out where "process_loop e ps s ?ex = (Ok (s', ?ex @ out) :: ('e, _) outcome)" "subseq out (map fst ps)"
      using Cons.IH [of s ?ex] Cons.prems by fastforce
    then show ?thesis using False l x
      by (intro exI [of _ s'] exI [of _ "if l < e then i # out else out"]) (auto intro: list_emb_Cons)
  qed
qed simp

text \<open>Without changes to the leaders or to the expiration, every proposal is judged by the old settings.\<close>

definition neutral :: "update_proposal_state \<Rightarrow> bool" where
  "neutral p \<longleftrightarrow> list_all (\<lambda>c. \<not> changes_leaders c) (up_changes (ups_proposal p)) \<and> expirations (up_changes (ups_proposal p)) = {}"

lemma judged_alike:
  assumes "s_bft_leaders s' = s_bft_leaders s" and "s_proposal_expiration s' = s_proposal_expiration s"
  shows "has_majority s' p = has_majority s p" and "past s' e p = past s e p" and "decided s' e p = decided s e p"
  using assms by (simp_all add: has_majority_def past_def decided_def)

lemma process_loop_neutral:
  assumes "\<forall>(i, p) \<in> set ps. list_all param_applies (up_changes (ups_proposal p)) \<and> neutral p
      \<and> unat (bd_epoch (ups_date p)) + unat (s_proposal_expiration s) < 2 ^ 32"
  shows "\<exists>s'. process_loop e ps s ex = (Ok (s', ex @ map fst (filter (\<lambda>x. decided s e (snd x)) ps)) :: ('e, _) outcome)
    \<and> apply_changes s (map (\<lambda>x. up_changes (ups_proposal (snd x))) (filter (\<lambda>x. has_majority s (snd x)) ps)) = Ok s'
    \<and> s_bft_leaders s' = s_bft_leaders s \<and> s_proposal_expiration s' = s_proposal_expiration s"
  using assms
proof (induction ps arbitrary: s ex)
  case (Cons x ps)
  obtain i p where x: "x = (i, p)" by (cases x)
  have p: "list_all param_applies (up_changes (ups_proposal p))" "neutral p"
    "unat (bd_epoch (ups_date p)) + unat (s_proposal_expiration s) < 2 ^ 32" using Cons.prems x by auto
  show ?case
  proof (cases "has_majority s p")
    case True
    obtain s1 where s1: "try_apply s (up_changes (ups_proposal p)) = Ok s1" using p(1) try_apply_iff by blast
    have same: "s_bft_leaders s1 = s_bft_leaders s" "s_proposal_expiration s1 = s_proposal_expiration s"
      using try_apply_effect [OF s1] p(2) by (simp_all add: neutral_def)
    note alike = judged_alike [OF same]
    obtain s' where "process_loop e ps s1 (ex @ [i]) = (Ok (s', (ex @ [i]) @ map fst (filter (\<lambda>x. decided s1 e (snd x)) ps)) :: ('e, _) outcome)"
      "apply_changes s1 (map (\<lambda>x. up_changes (ups_proposal (snd x))) (filter (\<lambda>x. has_majority s1 (snd x)) ps)) = Ok s'"
      "s_bft_leaders s' = s_bft_leaders s1" "s_proposal_expiration s' = s_proposal_expiration s1"
      using Cons.IH [of s1 "ex @ [i]"] Cons.prems same by auto
    then show ?thesis using True s1 x same alike by (simp add: decided_def)
  next
    case False
    obtain l where l: "padd (bd_epoch (ups_date p)) (s_proposal_expiration s) = (Ok l :: ('e, _) outcome)" "l < e \<longleftrightarrow> past s e p"
      using expiry_step [OF p(3)] by blast
    show ?thesis using False l x Cons.IH [of s "if l < e then ex @ [i] else ex"] Cons.prems by (auto simp: decided_def)
  qed
qed simp

section \<open>Proposing and voting\<close>

lemma hamt_size_card: "hamt_wf hf m \<Longrightarrow> hamt_size m = card (dom (hamt_map hf m))"
  using hamt_iter_map [of hf m] distinct_card [of "map fst (hamt_iter m)"]
  by (simp add: hamt_size_def size_rec_entries hamt_iter_entries [symmetric] flip: dom_map_of_conv_image_fst)

lemma apply_proposal_ok:
  assumes "updates_ok hp hv st" and "list_all param_applies (up_changes pr)" and "up_proposer_id pr \<in> set (s_bft_leaders s)"
    and "hamt_map hp st i = None"
  shows "\<exists>st'. apply_proposal hp st i pr s d = Ok st'
    \<and> hamt_map hp st' = (hamt_map hp st)(i \<mapsto> \<lparr>ups_proposal = pr, ups_date = d, ups_votes = hamt_new\<rparr>)
    \<and> (hash_fresh hp st i \<longrightarrow> updates_ok hp hv st')"
proof -
  let ?p = "\<lparr>ups_proposal = pr, ups_date = d, ups_votes = hamt_new\<rparr>"
  have ok: "hamt_ok hp st" using assms(1) by (simp add: updates_ok_def)
  obtain st' where st': "hamt_insert hp st i ?p = Ok st'" "hamt_map hp st' = (hamt_map hp st)(i \<mapsto> ?p)" "hash_fresh hp st i \<longrightarrow> hamt_ok hp st'"
    using pm.ins_new [OF ok assms(4), of ?p] by blast
  obtain s' where "try_apply s (up_changes pr) = Ok s'" using assms(2) try_apply_iff by blast
  then have "apply_proposal hp st i pr s d = Ok st'" using assms(3) st'(1) by (simp add: apply_proposal_def)
  moreover have "hash_fresh hp st i \<longrightarrow> updates_ok hp hv st'" using assms(1,2) st' by (auto simp: updates_ok_def)
  ultimately show ?thesis using st'(2) by blast
qed

lemma apply_vote_ok:
  assumes "updates_ok hp hv st" and "hamt_map hp st (uv_proposal_id v) = Some p" and "uv_voter_id v \<in> set (s_bft_leaders s)"
    and "hamt_map hv (ups_votes p) (uv_voter_id v) = None"
  shows "\<exists>st' vs. apply_vote hp hv st v s = Ok st' \<and> hamt_map hp st' = (hamt_map hp st)(uv_proposal_id v \<mapsto> p\<lparr>ups_votes := vs\<rparr>)
    \<and> hamt_map hv vs = (hamt_map hv (ups_votes p))(uv_voter_id v \<mapsto> ())
    \<and> (hash_fresh hv (ups_votes p) (uv_voter_id v) \<longrightarrow> updates_ok hp hv st' \<and> hamt_size vs = Suc (hamt_size (ups_votes p)))"
proof -
  let ?i = "uv_proposal_id v" and ?w = "uv_voter_id v"
  have ok: "hamt_ok hp st" "hamt_ok hv (ups_votes p)" using assms(1,2) by (auto simp: updates_ok_def)
  obtain vs where vs: "hamt_insert hv (ups_votes p) ?w () = Ok vs" "hamt_map hv vs = (hamt_map hv (ups_votes p))(?w \<mapsto> ())"
    "hash_fresh hv (ups_votes p) ?w \<longrightarrow> hamt_ok hv vs"
    using pm.ins_new [OF ok(2) assms(4), of "()"] by blast
  have "add_vote hv ?w p = Ok (Some (p\<lparr>ups_votes := vs\<rparr>))" using vs(1) by (simp add: add_vote_def)
  then obtain st' where st': "hamt_update hp st ?i (add_vote hv ?w) = Ok st'" "hamt_ok hp st'"
    "hamt_map hp st' = (hamt_map hp st)(?i \<mapsto> p\<lparr>ups_votes := vs\<rparr>)"
    using pm.upd_ok [OF ok(1) assms(2), of "add_vote hv ?w"] by blast
  have "hash_fresh hv (ups_votes p) ?w \<Longrightarrow> updates_ok hp hv st'" using assms(1,2) st' vs(3) by (auto simp: updates_ok_def)
  moreover have "hamt_size vs = Suc (hamt_size (ups_votes p))" if "hash_fresh hv (ups_votes p) ?w"
  proof -
    have "finite (dom (hamt_map hv (ups_votes p)))" by (rule pm.finite_dom [OF ok(2)])
    moreover have "?w \<notin> dom (hamt_map hv (ups_votes p))" using assms(4) by blast
    ultimately show ?thesis using that vs(2,3) ok(2) by (simp add: hamt_ok_def hamt_size_card [of hv])
  qed
  moreover have "apply_vote hp hv st v s = Ok st'" using assms(3) st'(1) by (simp add: apply_vote_def)
  ultimately show ?thesis using vs(2) st'(3) by (intro exI [of _ st'] exI [of _ vs]) simp
qed

section \<open>Settings as parameters\<close>

definition lossless :: "settings \<Rightarrow> bool" where
  "lossless s \<longleftrightarrow> s_consensus_nonce s = nonce_zero \<and> s_fees_goes_to s = FeesToRewards \<and> s_rewards_limit s = NoLimit
     \<and> s_pool_participation_capping s = None \<and> s_committees s = map committee_of (s_bft_leaders s)"

definition settings_ok :: "settings \<Rightarrow> bool" where
  "settings_ok s \<longleftrightarrow> param_applies (ActiveSlotsCoefficient (coeff_milli (s_active_slots_coeff s)))
     \<and> (\<forall>l \<in> set (s_bft_leaders s). key_ok (leader_key l))"

lemma settings_new_eq: "settings_new = Ok (s0 :: settings) \<Longrightarrow>
    lossless s0 \<and> s_bft_leaders s0 = [] \<and> s_reward_params s0 = None \<and> s_treasury_params s0 = None"
  by (auto simp: settings_new_def outcome_simps lossless_def)

lemma settings_new_Ok: "\<exists>s. settings_new = (Ok s :: ('e, _) outcome)"
  by (simp add: settings_new_def coeff_try_from_def milli_defs)

lemma apply_params_append: "apply_params st (ps @ qs) = obind (apply_params st ps) (\<lambda>st. apply_params st qs)"
  by (induction ps arbitrary: st) (simp_all add: obind_assoc)

lemma apply_leaders:
  "\<forall>l \<in> set ls. key_ok (leader_key l) \<Longrightarrow> apply_params (s, pcf, pvf) (map AddBftLeader ls)
     = Ok (s\<lparr>s_bft_leaders := s_bft_leaders s @ ls, s_committees := s_committees s @ map committee_of ls\<rparr>, pcf, pvf)"
proof (induction ls arbitrary: s)
  case (Cons l ls)
  have "committee_from_key (leader_key l) = (Ok (committee_of l) :: (update_error_t, _) outcome)"
    using Cons.prems by (simp add: committee_from_key_iff)
  then show ?case using Cons by (simp add: push_committee_def)
qed simp

lemma settings_params_apply:
  assumes "settings_ok s" and "settings_new = (Ok s0 :: (unit, _) outcome)"
  shows "try_apply s0 (settings_params s) = Ok (s\<lparr>s_consensus_nonce := nonce_zero, s_fees_goes_to := FeesToRewards,
     s_rewards_limit := NoLimit, s_pool_participation_capping := None, s_committees := map committee_of (s_bft_leaders s)\<rparr>)"
proof -
  have c: "coeff_try_from (coeff_milli (s_active_slots_coeff s)) = Ok (s_active_slots_coeff s)"
    using assms(1) by (simp add: settings_ok_def coeff_try_from_iff)
  have l: "\<forall>l \<in> set (s_bft_leaders s). key_ok (leader_key l)" using assms(1) by (simp add: settings_ok_def)
  show ?thesis using assms(2)
    by (auto simp: try_apply_def settings_params_def apply_params_append apply_leaders [OF l] c set_certificate_fees_def
        set_vote_certificate_fees_def settings_new_def outcome_simps split: option.splits)
qed

section \<open>Proposals and votes on the wire\<close>

lemma bft_leader_format: "canonical_format (\<lambda>l. key_ok (leader_key l)) (\<lambda>l. pk_bytes (leader_key l)) bft_leader_read"
  unfolding bft_leader_read_def [abs_def]
  by (rule map_format [OF ed25519_format, where h = leader_key]) auto

definition update_vote_bytes :: "update_vote \<Rightarrow> u8 list" where
  "update_vote_bytes = record_bytes [uv_proposal_id, \<lambda>v. pk_bytes (leader_key (uv_voter_id v))]"

lemma update_vote_format:
  "canonical_format (\<lambda>v. length (uv_proposal_id v) = 32 \<and> key_ok (leader_key (uv_voter_id v))) update_vote_bytes update_vote_read"
  unfolding update_vote_bytes_def update_vote_read_def [abs_def]
  by (rule field_format [OF array_format, where p = uv_proposal_id], rule field_format [OF bft_leader_format, where p = uv_voter_id],
      rule end_format) auto

interpretation vote_format: canonical_format "\<lambda>v. length (uv_proposal_id v) = 32 \<and> key_ok (leader_key (uv_voter_id v))"
    update_vote_bytes update_vote_read
  by (rule update_vote_format)

definition update_proposal_bytes :: "update_proposal \<Rightarrow> u8 list" where
  "update_proposal_bytes u = params_bytes (up_changes u) @ pk_bytes (leader_key (up_proposer_id u))"

definition update_proposal_ok :: "update_proposal \<Rightarrow> bool" where
  "update_proposal_ok u \<longleftrightarrow> length (up_changes u) < 2 ^ 16 \<and> (\<forall>c \<in> set (up_changes u). param_ok c) \<and> key_ok (leader_key (up_proposer_id u))"

interpretation proposal_format: format update_proposal_ok update_proposal_bytes update_proposal_read
proof
  fix u b r assume u: "update_proposal_ok u" and b: "rb_ok b" "rest b = update_proposal_bytes u @ r"
  obtain b1 where b1: "config_params_read b = Ok (up_changes u, b1)" "rb_ok b1" "rest b1 = pk_bytes (leader_key (up_proposer_id u)) @ r"
    using params_format.rd_enc [of "up_changes u" b] u b by (auto simp: update_proposal_ok_def update_proposal_bytes_def)
  obtain b2 where "bft_leader_read b1 = Ok (up_proposer_id u, b2)" "rb_ok b2" "rest b2 = r"
    using format.rd_enc [OF canonical_format.axioms(1) [OF bft_leader_format] _ b1(2,3)] u by (auto simp: update_proposal_ok_def)
  with b1(1) show "\<exists>b'. update_proposal_read b = Ok (u, b') \<and> rb_ok b' \<and> rest b' = r" by (simp add: update_proposal_read_def)
qed

lemma update_wire_bytes:
  "update_vote_serialize_in v bb = bb\<lparr>bb_buffer := bb_buffer bb @ update_vote_bytes v\<rparr>"
  "update_proposal_ok u \<Longrightarrow> update_proposal_serialize_in u bb = (Ok (bb\<lparr>bb_buffer := bb_buffer bb @ update_proposal_bytes u\<rparr>) :: ('e, _) outcome)"
  by (simp_all add: update_vote_serialize_in_def update_vote_bytes_def update_proposal_serialize_in_def update_proposal_ok_def
      update_proposal_bytes_def config_params_serialize_def codec_defs write_all_def serialize_params_eq params_bytes_def bb_bytes_def)

section \<open>A sample\<close>

definition sample_leader :: bft_leader_id where
  "sample_leader = BftLeaderId (PublicKey (replicate 32 7))"

definition sample_settings :: settings where
  "sample_settings = \<lparr>s_consensus_version = Bft, s_consensus_nonce = nonce_zero, s_slots_per_epoch = 1, s_slot_duration = 10,
     s_epoch_stability_depth = 10, s_active_slots_coeff = ActiveSlotsCoeff (Milli 500), s_block_content_max_size = 102400,
     s_bft_leaders = [sample_leader], s_linear_fees = linear_fee_new 0 0 0, s_proposal_expiration = 100, s_reward_params = None,
     s_treasury_params = None, s_fees_goes_to = FeesToRewards, s_rewards_limit = NoLimit, s_pool_participation_capping = None,
     s_committees = [committee_of sample_leader], s_transaction_max_expiry_epochs = 1\<rparr>"

definition sample_proposal :: update_proposal where
  "sample_proposal = \<lparr>up_changes = [SlotsPerEpoch 5], up_proposer_id = sample_leader\<rparr>"

abbreviation sample_hash :: "'a \<Rightarrow> u64" where
  "sample_hash \<equiv> (\<lambda>_. 0)"

lemma sample_updates:
  "\<exists>st vs. updates_ok sample_hash sample_hash st \<and> hamt_size vs = 1
     \<and> hamt_map sample_hash st = [[1] \<mapsto> \<lparr>ups_proposal = sample_proposal, ups_date = BlockDate 0 3, ups_votes = vs\<rparr>]
     \<and> hamt_map sample_hash vs = [sample_leader \<mapsto> ()]"
proof -
  obtain st1 where st1: "updates_ok sample_hash sample_hash st1"
    "hamt_map sample_hash st1 = [[1] \<mapsto> \<lparr>ups_proposal = sample_proposal, ups_date = BlockDate 0 3, ups_votes = hamt_new\<rparr>]"
    using apply_proposal_ok [of sample_hash sample_hash update_state_new sample_proposal sample_settings "[1]" "BlockDate 0 3"]
    by (auto simp: update_state_new_def sample_proposal_def sample_settings_def updates_ok_def)
  have size: "hamt_size (hamt_new :: (bft_leader_id, unit) hamt) = 0"
    using hamt_size_card [of sample_hash "hamt_new :: (bft_leader_id, unit) hamt"] by (simp add: hamt_ok_def [symmetric])
  show ?thesis
    using apply_vote_ok [OF st1(1), of "\<lparr>uv_proposal_id = [1], uv_voter_id = sample_leader\<rparr>"
        "\<lparr>ups_proposal = sample_proposal, ups_date = BlockDate 0 3, ups_votes = hamt_new\<rparr>" sample_settings] st1(2) size
    by (auto simp: sample_settings_def)
qed

lemma process_proposals_returns:
  fixes st :: update_state
  assumes "updates_ok hp hv st" and "d < d'"
    and "\<forall>(i, p) \<in> set (hamt_iter st). \<forall>x \<in> all_expirations s (hamt_iter st). unat (bd_epoch (ups_date p)) + unat x < 2 ^ 32"
  shows "(\<exists>st' s'. process_proposals hp st s d d' = (Ok (st', s') :: ('e, _) outcome) \<and> updates_ok hp hv st'
      \<and> hamt_map hp st' \<subseteq>\<^sub>m hamt_map hp st \<and> (bd_epoch d = bd_epoch d' \<longrightarrow> st' = st \<and> s' = s))"
proof (cases "bd_epoch d < bd_epoch d'")
  case True
  let ?ps = "sort_key proposal_order (hamt_iter st)"
  have applies: "\<forall>(i, p) \<in> set ?ps. list_all param_applies (up_changes (ups_proposal p))"
    using assms(1) updates_ok_entries(2) [OF assms(1)] by (auto simp: updates_ok_def)
  have "all_expirations s ?ps = all_expirations s (hamt_iter st)" by (simp add: all_expirations_def)
  then obtain s' out where loop: "process_loop (bd_epoch d') ?ps s [] = (Ok (s', [] @ out) :: ('e, _) outcome)" "subseq out (map fst ?ps)"
    using process_loop_total [OF applies, of s "bd_epoch d'" "[]", where 'e = 'e] assms(3) by auto
  have "distinct (map fst ?ps)" using updates_ok_entries(1) [OF assms(1)] by (simp add: distinct_map)
  moreover obtain N where N: "out = nths (map fst ?ps) N" using loop(2) by (auto simp: subseq_conv_nths)
  ultimately have out: "distinct out" by (simp add: distinct_nthsI)
  have "set out \<subseteq> fst ` set (hamt_iter st)" using set_nths_subset [of "map fst ?ps" N] N by simp
  also have "\<dots> = dom (hamt_map hp st)"
    using assms(1) pm.entries_alpha [of hp st] by (metis updates_ok_def dom_map_of_conv_image_fst)
  finally have "set out \<subseteq> dom (hamt_map hp st)" .
  from remove_proposals_ok [OF assms(1) out this, where 'e = 'e] obtain st' where
    "remove_proposals hp st out = (Ok st' :: ('e, _) outcome)" "updates_ok hp hv st'"
    "hamt_map hp st' = (\<lambda>i. if i \<in> set out then None else hamt_map hp st i)" by blast
  then show ?thesis using loop(1) True assms(2)
    by (intro exI [of _ st'] exI [of _ s']) (auto simp: process_proposals_def require_def map_le_def split: if_splits)
next
  case False
  then show ?thesis using assms(1,2)
    by (intro exI [of _ st] exI [of _ s]) (simp add: process_proposals_def require_def Let_def)
qed

section \<open>Properties\<close>



text \<open>
  What is decided at the beginning of an epoch, when no stored proposal changes the leaders or the
  expiration: a proposal disappears exactly when more than half of the leaders voted for it or its time
  is over, the accepted ones and only those are applied to the settings, in the order of their dates and
  identifiers.
\<close>

theorem process_proposals_exact:
  fixes st :: update_state
  assumes "updates_ok hp hv st" and "bd_epoch d < bd_epoch d'"
    and "\<forall>(i, p) \<in> set (hamt_iter st). neutral p \<and> unat (bd_epoch (ups_date p)) + unat (s_proposal_expiration s) < 2 ^ 32"
  shows "\<exists>st' s'. process_proposals hp st s d d' = (Ok (st', s') :: ('e, _) outcome)
    \<and> (\<forall>i. hamt_map hp st' i = (case hamt_map hp st i of None \<Rightarrow> None
         | Some p \<Rightarrow> if hamt_size (ups_votes p) > length (s_bft_leaders s) div 2
             \<or> unat (bd_epoch (ups_date p)) + unat (s_proposal_expiration s) < unat (bd_epoch d') then None else Some p))
    \<and> apply_changes s (map (\<lambda>x. up_changes (ups_proposal (snd x)))
         (filter (\<lambda>x. has_majority s (snd x)) (sort_key proposal_order (hamt_iter st)))) = Ok s'"
proof -
  let ?ps = "sort_key proposal_order (hamt_iter st)" and ?e = "bd_epoch d'"
  let ?out = "map fst (filter (\<lambda>x. decided s ?e (snd x)) ?ps)"
  have "\<forall>(i, p) \<in> set ?ps. list_all param_applies (up_changes (ups_proposal p)) \<and> neutral p
      \<and> unat (bd_epoch (ups_date p)) + unat (s_proposal_expiration s) < 2 ^ 32"
    using assms(1,3) updates_ok_entries(2) [OF assms(1)] by (fastforce simp: updates_ok_def)
  from process_loop_neutral [OF this, of ?e "[]", where 'e = 'e] obtain s' where
    loop: "process_loop ?e ?ps s [] = (Ok (s', ?out) :: ('e, _) outcome)"
      "apply_changes s (map (\<lambda>x. up_changes (ups_proposal (snd x))) (filter (\<lambda>x. has_majority s (snd x)) ?ps)) = Ok s'" by auto
  have ps: "set ?ps = set (hamt_iter st)" by simp
  have "distinct (map fst ?ps)" using updates_ok_entries(1) [OF assms(1)] by (simp add: distinct_map)
  then have out: "distinct ?out" by (rule distinct_map_filter)
  have mem: "i \<in> set ?out \<longleftrightarrow> (\<exists>p. hamt_map hp st i = Some p \<and> decided s ?e p)" for i
    using updates_ok_entries(2) [OF assms(1)] by (force simp: ps)
  then have "set ?out \<subseteq> dom (hamt_map hp st)" by blast
  from remove_proposals_ok [OF assms(1) out this, where 'e = 'e] obtain st' where
    st': "remove_proposals hp st ?out = (Ok st' :: ('e, _) outcome)"
      "hamt_map hp st' = (\<lambda>i. if i \<in> set ?out then None else hamt_map hp st i)" by blast
  have "hamt_map hp st' i = (case hamt_map hp st i of None \<Rightarrow> None
         | Some p \<Rightarrow> if hamt_size (ups_votes p) > length (s_bft_leaders s) div 2
             \<or> unat (bd_epoch (ups_date p)) + unat (s_proposal_expiration s) < unat ?e then None else Some p)" for i
    unfolding st'(2) mem by (auto simp: decided_def has_majority_def past_def split: option.splits)
  moreover have "process_proposals hp st s d d' = (Ok (st', s') :: ('e, _) outcome)"
    using loop(1) st'(1) assms(2) by (simp add: process_proposals_def require_def less_block_date_def)
  ultimately show ?thesis using loop(2) by blast
qed

theorem process_proposals_exact_witness:
  "\<exists>st st' s'. hamt_map sample_hash st [1] \<noteq> None
    \<and> process_proposals sample_hash st sample_settings (BlockDate 0 5) (BlockDate 1 0) = (Ok (st', s') :: (unit, _) outcome)
    \<and> hamt_map sample_hash st' [1] = None"
proof -
  obtain st vs where st: "updates_ok sample_hash sample_hash st" "hamt_size vs = 1"
    "hamt_map sample_hash st = [[1] \<mapsto> \<lparr>ups_proposal = sample_proposal, ups_date = BlockDate 0 3, ups_votes = vs\<rparr>]"
    using sample_updates by blast
  have "set (hamt_iter st) = {([1], \<lparr>ups_proposal = sample_proposal, ups_date = BlockDate 0 3, ups_votes = vs\<rparr>)}"
    using updates_ok_entries(2) [OF st(1)] st(3) by (auto split: if_splits)
  then have "\<forall>(i, p) \<in> set (hamt_iter st). neutral p \<and> unat (bd_epoch (ups_date p)) + unat (s_proposal_expiration sample_settings) < 2 ^ 32"
    by (simp add: neutral_def expirations_def sample_proposal_def sample_settings_def)
  from process_proposals_exact [OF st(1) _ this, of "BlockDate 0 5" "BlockDate 1 0", where 'e = unit]
  obtain st' s' where res: "process_proposals sample_hash st sample_settings (BlockDate 0 5) (BlockDate 1 0) = (Ok (st', s') :: (unit, _) outcome)"
    "hamt_map sample_hash st' [1] = (case hamt_map sample_hash st [1] of None \<Rightarrow> None
         | Some p \<Rightarrow> if hamt_size (ups_votes p) > length (s_bft_leaders sample_settings) div 2
             \<or> unat (bd_epoch (ups_date p)) + unat (s_proposal_expiration sample_settings) < unat (bd_epoch (BlockDate 1 0)) then None else Some p)"
    by auto
  then have "hamt_map sample_hash st' [1] = None" using st(2,3) by (simp add: sample_settings_def)
  with res(1) st(3) show ?thesis by (intro exI [of _ st] exI [of _ st'] exI [of _ s']) simp
qed

text \<open>
  A vote: only leaders vote, only on known proposals and only once; an accepted vote adds the voter to
  the votes of that one proposal and changes nothing else.
\<close>

theorem apply_vote_correct:
  assumes "updates_ok hp hv st" and "i = uv_proposal_id v" and "w = uv_voter_id v"
  shows "(w \<notin> set (s_bft_leaders s) \<longrightarrow> apply_vote hp hv st v s = Err (BadVoter i w))
    \<and> (w \<in> set (s_bft_leaders s) \<and> hamt_map hp st i = None \<longrightarrow> apply_vote hp hv st v s = Err (VoteForMissingProposal i))
    \<and> (w \<in> set (s_bft_leaders s) \<and> hamt_map hp st i = Some p \<and> hamt_map hv (ups_votes p) w \<noteq> None
         \<longrightarrow> apply_vote hp hv st v s = Err (DuplicateVote i w))
    \<and> (w \<in> set (s_bft_leaders s) \<and> hamt_map hp st i = Some p \<and> hamt_map hv (ups_votes p) w = None \<longrightarrow>
         (\<exists>st' vs. apply_vote hp hv st v s = Ok st' \<and> hamt_map hp st' = (hamt_map hp st)(i \<mapsto> p\<lparr>ups_votes := vs\<rparr>)
            \<and> hamt_map hv vs = (hamt_map hv (ups_votes p))(w \<mapsto> ())
            \<and> (hash_fresh hv (ups_votes p) w \<longrightarrow> updates_ok hp hv st' \<and> hamt_size vs = Suc (hamt_size (ups_votes p)))))"
proof (intro conjI impI)
  have ok: "hamt_ok hp st" using assms(1) by (simp add: updates_ok_def)
  show "apply_vote hp hv st v s = Err (BadVoter i w)" if "w \<notin> set (s_bft_leaders s)"
    using that assms(2,3) by (simp add: apply_vote_def)
  show "apply_vote hp hv st v s = Err (VoteForMissingProposal i)" if "w \<in> set (s_bft_leaders s) \<and> hamt_map hp st i = None"
    using that assms(2,3) pm.upd_missing [OF ok, of i "add_vote hv w"] by (simp add: apply_vote_def)
  show "apply_vote hp hv st v s = Err (DuplicateVote i w)"
    if dup: "w \<in> set (s_bft_leaders s) \<and> hamt_map hp st i = Some p \<and> hamt_map hv (ups_votes p) w \<noteq> None"
  proof -
    have "hamt_ok hv (ups_votes p)" using dup assms(1) by (auto simp: updates_ok_def)
    moreover obtain u where "hamt_map hv (ups_votes p) w = Some u" using dup by blast
    ultimately have "hamt_insert hv (ups_votes p) w () = Err EntryExists" by (rule pm.ins_old)
    then have "add_vote hv w p = Err EntryExists" by (simp add: add_vote_def)
    then have "hamt_update hp st i (add_vote hv w) = Err (ValueCallbackError EntryExists)"
      by (rule pm.upd_error [OF ok conjunct1 [OF conjunct2 [OF dup]]])
    then show ?thesis using dup assms(2,3) by (simp add: apply_vote_def)
  qed
  show "\<exists>st' vs. apply_vote hp hv st v s = Ok st' \<and> hamt_map hp st' = (hamt_map hp st)(i \<mapsto> p\<lparr>ups_votes := vs\<rparr>)
            \<and> hamt_map hv vs = (hamt_map hv (ups_votes p))(w \<mapsto> ())
            \<and> (hash_fresh hv (ups_votes p) w \<longrightarrow> updates_ok hp hv st' \<and> hamt_size vs = Suc (hamt_size (ups_votes p)))"
    if "w \<in> set (s_bft_leaders s) \<and> hamt_map hp st i = Some p \<and> hamt_map hv (ups_votes p) w = None"
    using apply_vote_ok [OF assms(1), of v p s] that assms(2,3) by simp
qed

theorem apply_vote_correct_witness:
  "\<exists>st. hamt_map sample_hash st [1] \<noteq> None
    \<and> apply_vote sample_hash sample_hash st \<lparr>uv_proposal_id = [1], uv_voter_id = sample_leader\<rparr> sample_settings = Err (DuplicateVote [1] sample_leader)"
proof -
  obtain st vs where st: "updates_ok sample_hash sample_hash st" "hamt_map sample_hash vs = [sample_leader \<mapsto> ()]"
    "hamt_map sample_hash st = [[1] \<mapsto> \<lparr>ups_proposal = sample_proposal, ups_date = BlockDate 0 3, ups_votes = vs\<rparr>]"
    using sample_updates by blast
  then show ?thesis
    using apply_vote_correct [OF st(1), of "[1]" "\<lparr>uv_proposal_id = [1], uv_voter_id = sample_leader\<rparr>" sample_leader sample_settings
        "\<lparr>ups_proposal = sample_proposal, ups_date = BlockDate 0 3, ups_votes = vs\<rparr>"]
    by (intro exI [of _ st]) (simp add: sample_settings_def)
qed

text \<open>
  C33. Writing the settings out as parameters. The built-in assertion that the parameters rebuild the settings
  holds exactly for the settings whose nonce is zero, whose fees go to the rewards, that have no reward
  limit and no participation capping, and whose committee is the list of the leaders: all other settings
  make the function panic in a debug build and lose those fields in a release build.
\<close>

theorem settings_roundtrip:
  assumes "settings_ok s" and "settings_new = (Ok s0 :: (unit, _) outcome)"
  shows "to_config_params s = (if lossless s then Ok (settings_params s) else (Panic :: ('e, _) outcome))
    \<and> (lossless s \<longrightarrow> try_apply s0 (settings_params s) = Ok s)"
proof -
  let ?t = "s\<lparr>s_consensus_nonce := nonce_zero, s_fees_goes_to := FeesToRewards,
     s_rewards_limit := NoLimit, s_pool_participation_capping := None, s_committees := map committee_of (s_bft_leaders s)\<rparr>"
  have eq: "s = ?t \<longleftrightarrow> lossless s" by (cases s) (auto simp: lossless_def)
  have s0: "settings_new = (Ok s0 :: ('e, _) outcome)" using assms(2) by (auto simp: settings_new_def outcome_simps)
  have "to_config_params s = obind (require (s = ?t)) (\<lambda>_. Ok (settings_params s) :: ('e, _) outcome)"
    by (simp add: to_config_params_def s0 settings_params_apply [OF assms])
  moreover have "try_apply s0 (settings_params s) = Ok s" if "lossless s"
    using settings_params_apply [OF assms] unfolding sym [OF iffD2 [OF eq that]] .
  ultimately show ?thesis using eq by (simp add: require_def)
qed

theorem settings_roundtrip_witness:
  "to_config_params sample_settings = (Ok (settings_params sample_settings) :: (unit, _) outcome)
   \<and> to_config_params (sample_settings\<lparr>s_fees_goes_to := FeesToTreasury\<rparr>) = (Panic :: (unit, _) outcome)"
proof -
  obtain s0 :: settings where s0: "settings_new = (Ok s0 :: (unit, _) outcome)" using settings_new_Ok by blast
  show ?thesis
    using settings_roundtrip [of sample_settings s0, where 'e = unit]
      settings_roundtrip [of "sample_settings\<lparr>s_fees_goes_to := FeesToTreasury\<rparr>" s0, where 'e = unit] s0
    by (simp add: settings_ok_def lossless_def sample_settings_def sample_leader_def key_ok_def)
qed

end
