(* ===== verification/Elgamal.thy ===== *)
theory Elgamal
  imports Codec
begin

text \<open>
  The group and the encryption of the private votes (\<open>chain-crypto/src/ec/ristretto255.rs\<close>,
  \<open>chain-vote/src/cryptography/\<close>): powers and multiples by repeated doubling, lifted ElGamal ciphertexts
  and their homomorphic operations, the hybrid encryption of the committee, Pedersen commitments and the
  proof that two points have the same discrete logarithm.

  The curve itself is a library. Its points are a type of the class of abelian groups, its scalars a type of
  the class of commutative rings, and the operations the sources call are the fields of a record
  \<open>curve\<close>; \<open>curve_ok\<close> states what is documented of them. Randomness is an argument, in the order in which
  it is drawn.
\<close>

section \<open>The curve\<close>

record ('s, 'g) curve =
  cv_generator :: 'g
  cv_scale :: "'g \<Rightarrow> 's \<Rightarrow> 'g"
  cv_to_bytes :: "'g \<Rightarrow> u8 list"
  cv_from_bytes :: "u8 list \<Rightarrow> 'g option"
  cv_from_uniform :: "u8 list \<Rightarrow> 'g"
  sc_to_bytes :: "'s \<Rightarrow> u8 list"
  sc_from_bytes :: "u8 list \<Rightarrow> 's option"
  sc_from_wide :: "u8 list \<Rightarrow> 's"
  cv_blake :: "nat \<Rightarrow> u8 list \<Rightarrow> u8 list"
  cv_chacha :: "u8 list \<Rightarrow> u8 list \<Rightarrow> u8 list \<Rightarrow> u8 list"

definition GROUP_BYTES_LEN :: nat where "GROUP_BYTES_LEN = 32"
definition SCALAR_BYTES_LEN :: nat where "SCALAR_BYTES_LEN = 32"

definition from_hash :: "('s, 'g) curve \<Rightarrow> u8 list \<Rightarrow> 'g" where
  "from_hash V bs = cv_from_uniform V (cv_blake V 64 bs)"

fun group_sum :: "'g::ab_group_add list \<Rightarrow> 'g \<Rightarrow> 'g" where
  "group_sum [] acc = acc"
| "group_sum (v # vs) acc = group_sum vs (acc + v)"

text \<open>The multiple by a machine integer: the loop adds and doubles while bits are left.\<close>

function mul_u64_loop :: "u64 \<Rightarrow> 'g::ab_group_add \<Rightarrow> 'g \<Rightarrow> 'g" where
  "mul_u64_loop n a q =
     (if n = 0 then q
      else mul_u64_loop (drop_bit 1 n) (a + a) (if n AND 1 \<noteq> 0 then q + a else q))"
  by auto

termination
proof (relation "measure (\<lambda>(n, _, _). unat n)")
  fix n :: u64 and a q :: 'a
  assume "n \<noteq> 0"
  then have "0 < unat n" by (simp add: unat_gt_0)
  then show "((drop_bit 1 n, a + a, if n AND 1 \<noteq> 0 then q + a else q), n, a, q) \<in> measure (\<lambda>(n, _, _). unat n)"
    by (simp add: drop_bit_eq_div unat_div)
qed simp

declare mul_u64_loop.simps [simp del]

definition mul_u64 :: "'g::ab_group_add \<Rightarrow> u64 \<Rightarrow> 'g" where
  "mul_u64 a n = mul_u64_loop n a 0"

text \<open>\<open>Scalar::power\<close> multiplies and squares.\<close>

function scalar_power_loop :: "nat \<Rightarrow> 's::comm_ring_1 \<Rightarrow> 's \<Rightarrow> 's" where
  "scalar_power_loop n aux r =
     (if n = 0 then r
      else scalar_power_loop (n div 2) (aux * aux) (if n mod 2 = 1 then r * aux else r))"
  by auto

termination by (relation "measure (\<lambda>(n, _, _). n)") auto

declare scalar_power_loop.simps [simp del]

definition scalar_power :: "'s::comm_ring_1 \<Rightarrow> nat \<Rightarrow> 's" where
  "scalar_power x n = scalar_power_loop n x 1"

text \<open>The first \<open>n\<close> elements of \<open>exp_iter\<close>; each is the last one times \<open>x\<close>.\<close>

fun exp_iter_from :: "'s::comm_ring_1 \<Rightarrow> 's \<Rightarrow> nat \<Rightarrow> 's list" where
  "exp_iter_from x next_exp 0 = []"
| "exp_iter_from x next_exp (Suc n) = next_exp # exp_iter_from x (next_exp * x) n"

definition exp_iter :: "'s::comm_ring_1 \<Rightarrow> nat \<Rightarrow> 's list" where
  "exp_iter x n = exp_iter_from x 1 n"

definition scalar_of_bool :: "bool \<Rightarrow> 's::comm_ring_1" where
  "scalar_of_bool b = (if b then 1 else 0)"

definition scalar_from_u64 :: "u64 \<Rightarrow> 's::comm_ring_1" where
  "scalar_from_u64 v = of_nat (unat v)"

fun scalar_sum_from :: "'s::comm_ring_1 \<Rightarrow> 's list \<Rightarrow> 's" where
  "scalar_sum_from acc [] = acc"
| "scalar_sum_from acc (v # vs) = scalar_sum_from (acc + v) vs"

definition scalar_sum :: "'s::comm_ring_1 list \<Rightarrow> 's option" where
  "scalar_sum i = (case i of [] \<Rightarrow> None | s # vs \<Rightarrow> Some (scalar_sum_from s vs))"

text \<open>\<open>hash_to_scalar\<close> of a Blake2b context that was given these bytes.\<close>

definition hash_to_scalar :: "('s, 'g) curve \<Rightarrow> u8 list \<Rightarrow> 's" where
  "hash_to_scalar V input = sc_from_wide V (cv_blake V 64 input)"

text \<open>The multiscalar multiplication of the curve library; lists of different lengths are an error of the caller.\<close>

fun multiscalar :: "('s, 'g::ab_group_add) curve \<Rightarrow> 's list \<Rightarrow> 'g list \<Rightarrow> ('e, 'g) outcome" where
  "multiscalar V [] [] = Ok 0"
| "multiscalar V (s # ss) (p # ps) = omap (\<lambda>r. cv_scale V p s + r) (multiscalar V ss ps)"
| "multiscalar V _ _ = Panic"

text \<open>What is documented of the curve: the points are a module over the scalars, and encodings can be read back.\<close>

definition curve_ok :: "('s::comm_ring_1, 'g::ab_group_add) curve \<Rightarrow> bool" where
  "curve_ok V \<longleftrightarrow>
     (\<forall>a b s. cv_scale V (a + b) s = cv_scale V a s + cv_scale V b s)
     \<and> (\<forall>a s t. cv_scale V a (s + t) = cv_scale V a s + cv_scale V a t)
     \<and> (\<forall>a s t. cv_scale V (cv_scale V a s) t = cv_scale V a (s * t))
     \<and> (\<forall>a. cv_scale V a 1 = a)
     \<and> (\<forall>a. cv_from_bytes V (cv_to_bytes V a) = Some a \<and> length (cv_to_bytes V a) = GROUP_BYTES_LEN)
     \<and> (\<forall>s. sc_from_bytes V (sc_to_bytes V s) = Some s \<and> length (sc_to_bytes V s) = SCALAR_BYTES_LEN)
     \<and> (\<forall>k n m. cv_chacha V k n (cv_chacha V k n m) = m)"

text \<open>The multiples of the generator by different 64-bit numbers are different: its order is large.\<close>

definition large_order :: "('s::comm_ring_1, 'g::ab_group_add) curve \<Rightarrow> bool" where
  "large_order V \<longleftrightarrow> inj_on (\<lambda>n. cv_scale V (cv_generator V) (of_nat n)) {..<2 ^ 64}"

section \<open>Ciphertexts\<close>

record 'g ciphertext =
  ct_e1 :: 'g
  ct_e2 :: 'g

definition CIPHERTEXT_BYTES_LEN :: nat where "CIPHERTEXT_BYTES_LEN = GROUP_BYTES_LEN * 2"

definition ct_zero :: "'g::ab_group_add ciphertext" where
  "ct_zero = \<lparr>ct_e1 = 0, ct_e2 = 0\<rparr>"

definition ct_add :: "'g::ab_group_add ciphertext \<Rightarrow> 'g ciphertext \<Rightarrow> 'g ciphertext" where
  "ct_add a b = \<lparr>ct_e1 = ct_e1 a + ct_e1 b, ct_e2 = ct_e2 a + ct_e2 b\<rparr>"

definition ct_sub :: "'g::ab_group_add ciphertext \<Rightarrow> 'g ciphertext \<Rightarrow> 'g ciphertext" where
  "ct_sub a b = \<lparr>ct_e1 = ct_e1 a - ct_e1 b, ct_e2 = ct_e2 a - ct_e2 b\<rparr>"

definition ct_mul :: "('s, 'g) curve \<Rightarrow> 'g ciphertext \<Rightarrow> 's \<Rightarrow> 'g ciphertext" where
  "ct_mul V a s = \<lparr>ct_e1 = cv_scale V (ct_e1 a) s, ct_e2 = cv_scale V (ct_e2 a) s\<rparr>"

definition ct_mul_u64 :: "'g::ab_group_add ciphertext \<Rightarrow> u64 \<Rightarrow> 'g ciphertext" where
  "ct_mul_u64 a n = \<lparr>ct_e1 = mul_u64 (ct_e1 a) n, ct_e2 = mul_u64 (ct_e2 a) n\<rparr>"

definition ct_to_bytes :: "('s, 'g) curve \<Rightarrow> 'g ciphertext \<Rightarrow> u8 list" where
  "ct_to_bytes V a = cv_to_bytes V (ct_e1 a) @ cv_to_bytes V (ct_e2 a)"

text \<open>Slicing panics when there are fewer bytes than one group element.\<close>

definition ct_from_bytes :: "('s, 'g) curve \<Rightarrow> u8 list \<Rightarrow> ('e, 'g ciphertext option) outcome" where
  "ct_from_bytes V bs =
     obind (require (GROUP_BYTES_LEN \<le> length bs)) (\<lambda>_.
     Ok (case cv_from_bytes V (take GROUP_BYTES_LEN bs) of
           None \<Rightarrow> None
         | Some a \<Rightarrow> map_option (\<lambda>b. \<lparr>ct_e1 = a, ct_e2 = b\<rparr>) (cv_from_bytes V (drop GROUP_BYTES_LEN bs))))"

text \<open>Public and secret keys are a point and a scalar.\<close>

definition encrypt_point_with_r :: "('s, 'g::ab_group_add) curve \<Rightarrow> 'g \<Rightarrow> 'g \<Rightarrow> 's \<Rightarrow> 'g ciphertext" where
  "encrypt_point_with_r V pk message randomness =
     \<lparr>ct_e1 = cv_scale V (cv_generator V) randomness, ct_e2 = message + cv_scale V pk randomness\<rparr>"

definition encrypt_with_r :: "('s, 'g::ab_group_add) curve \<Rightarrow> 'g \<Rightarrow> 's \<Rightarrow> 's \<Rightarrow> 'g ciphertext" where
  "encrypt_with_r V pk message randomness = encrypt_point_with_r V pk (cv_scale V (cv_generator V) message) randomness"

definition encrypt_return_r :: "('s, 'g::ab_group_add) curve \<Rightarrow> 'g \<Rightarrow> 's \<Rightarrow> 's \<Rightarrow> 'g ciphertext \<times> 's" where
  "encrypt_return_r V pk message r = (encrypt_point_with_r V pk (cv_scale V (cv_generator V) message) r, r)"

definition decrypt_point :: "('s::comm_ring_1, 'g::ab_group_add) curve \<Rightarrow> 's \<Rightarrow> 'g ciphertext \<Rightarrow> 'g" where
  "decrypt_point V sk c = cv_scale V (ct_e1 c) (- sk) + ct_e2 c"

definition key_from_secret :: "('s, 'g) curve \<Rightarrow> 's \<Rightarrow> 'g" where
  "key_from_secret V sk = cv_scale V (cv_generator V) sk"

section \<open>Hybrid encryption\<close>

record 'g hybrid_ciphertext =
  hy_e1 :: 'g
  hy_e2 :: "u8 list"

definition symmetric_process :: "('s, 'g) curve \<Rightarrow> 'g \<Rightarrow> u8 list \<Rightarrow> u8 list" where
  "symmetric_process V group_repr m =
     (let out = cv_blake V 44 (cv_to_bytes V group_repr) in cv_chacha V (take 32 out) (take 12 (drop 32 out)) m)"

definition hybrid_encrypt :: "('s, 'g) curve \<Rightarrow> 'g \<Rightarrow> u8 list \<Rightarrow> 's \<Rightarrow> 'g hybrid_ciphertext" where
  "hybrid_encrypt V pk message r =
     \<lparr>hy_e1 = cv_scale V (cv_generator V) r, hy_e2 = symmetric_process V (cv_scale V pk r) message\<rparr>"

definition recover_symmetric_key :: "('s, 'g) curve \<Rightarrow> 's \<Rightarrow> 'g hybrid_ciphertext \<Rightarrow> 'g" where
  "recover_symmetric_key V sk c = cv_scale V (hy_e1 c) sk"

definition hybrid_decrypt :: "('s, 'g) curve \<Rightarrow> 's \<Rightarrow> 'g hybrid_ciphertext \<Rightarrow> u8 list" where
  "hybrid_decrypt V sk c = symmetric_process V (recover_symmetric_key V sk c) (hy_e2 c)"

definition hybrid_to_bytes :: "('s, 'g) curve \<Rightarrow> 'g hybrid_ciphertext \<Rightarrow> u8 list" where
  "hybrid_to_bytes V c = cv_to_bytes V (hy_e1 c) @ hy_e2 c"

definition hybrid_from_bytes :: "('s, 'g) curve \<Rightarrow> u8 list \<Rightarrow> ('e, 'g hybrid_ciphertext option) outcome" where
  "hybrid_from_bytes V bs =
     obind (require (GROUP_BYTES_LEN \<le> length bs)) (\<lambda>_.
     Ok (map_option (\<lambda>a. \<lparr>hy_e1 = a, hy_e2 = drop GROUP_BYTES_LEN bs\<rparr>) (cv_from_bytes V (take GROUP_BYTES_LEN bs))))"

section \<open>Commitments\<close>

definition commit_with_random :: "('s, 'g::ab_group_add) curve \<Rightarrow> 'g \<Rightarrow> 's \<Rightarrow> 's \<Rightarrow> 'g" where
  "commit_with_random V h m r = cv_scale V (cv_generator V) m + cv_scale V h r"

definition commit_bool :: "('s, 'g::ab_group_add) curve \<Rightarrow> 'g \<Rightarrow> bool \<Rightarrow> 's \<Rightarrow> 'g" where
  "commit_bool V h m r = (if m then cv_generator V + cv_scale V h r else cv_scale V h r)"

definition commitment_verify :: "('s, 'g::ab_group_add) curve \<Rightarrow> 'g \<Rightarrow> 'g \<Rightarrow> 's \<Rightarrow> 's \<Rightarrow> bool" where
  "commitment_verify V h commitment m r \<longleftrightarrow> commitment = commit_with_random V h m r"

section \<open>Equality of discrete logarithms\<close>

record 's dleq_zkp =
  dz_challenge :: 's
  dz_response :: 's

definition dleq_challenge :: "('s, 'g) curve \<Rightarrow> 'g \<Rightarrow> 'g \<Rightarrow> 'g \<Rightarrow> 'g \<Rightarrow> 'g \<Rightarrow> 'g \<Rightarrow> 's" where
  "dleq_challenge V base1 base2 point1 point2 a1 a2 =
     hash_to_scalar V (concat (map (cv_to_bytes V) [base1, base2, point1, point2, a1, a2]))"

definition dleq_generate :: "('s::comm_ring_1, 'g) curve \<Rightarrow> 'g \<Rightarrow> 'g \<Rightarrow> 'g \<Rightarrow> 'g \<Rightarrow> 's \<Rightarrow> 's \<Rightarrow> 's dleq_zkp" where
  "dleq_generate V base1 base2 point1 point2 dlog w =
     (let challenge = dleq_challenge V base1 base2 point1 point2 (cv_scale V base1 w) (cv_scale V base2 w)
      in \<lparr>dz_challenge = challenge, dz_response = dlog * challenge + w\<rparr>)"

definition dleq_verify :: "('s, 'g::ab_group_add) curve \<Rightarrow> 's dleq_zkp \<Rightarrow> 'g \<Rightarrow> 'g \<Rightarrow> 'g \<Rightarrow> 'g \<Rightarrow> bool" where
  "dleq_verify V z base1 base2 point1 point2 =
     (let a1 = cv_scale V base1 (dz_response z) - cv_scale V point1 (dz_challenge z);
          a2 = cv_scale V base2 (dz_response z) - cv_scale V point2 (dz_challenge z)
      in dleq_challenge V base1 base2 point1 point2 a1 a2 = dz_challenge z)"

definition DLEQ_BYTES_LEN :: nat where "DLEQ_BYTES_LEN = 2 * SCALAR_BYTES_LEN"

definition dleq_to_bytes :: "('s, 'g) curve \<Rightarrow> 's dleq_zkp \<Rightarrow> u8 list" where
  "dleq_to_bytes V z = sc_to_bytes V (dz_challenge z) @ sc_to_bytes V (dz_response z)"

definition dleq_from_bytes :: "('s, 'g) curve \<Rightarrow> u8 list \<Rightarrow> 's dleq_zkp option" where
  "dleq_from_bytes V bs =
     (if length bs \<noteq> DLEQ_BYTES_LEN then None
      else case sc_from_bytes V (take SCALAR_BYTES_LEN bs) of
          None \<Rightarrow> None
        | Some c \<Rightarrow> map_option (\<lambda>r. \<lparr>dz_challenge = c, dz_response = r\<rparr>) (sc_from_bytes V (drop SCALAR_BYTES_LEN bs)))"

text \<open>The proofs that a decryption share, a decrypted point and a symmetric key are right are such proofs.\<close>

definition share_zkp_generate :: "('s::comm_ring_1, 'g) curve \<Rightarrow> 'g ciphertext \<Rightarrow> 'g \<Rightarrow> 'g \<Rightarrow> 's \<Rightarrow> 's \<Rightarrow> 's dleq_zkp" where
  "share_zkp_generate V c pk share sk w = dleq_generate V (cv_generator V) (ct_e1 c) pk share sk w"

definition share_zkp_verify :: "('s, 'g::ab_group_add) curve \<Rightarrow> 's dleq_zkp \<Rightarrow> 'g ciphertext \<Rightarrow> 'g \<Rightarrow> 'g \<Rightarrow> bool" where
  "share_zkp_verify V z c share pk = dleq_verify V z (cv_generator V) (ct_e1 c) pk share"

definition decryption_zkp_generate :: "('s::comm_ring_1, 'g::ab_group_add) curve \<Rightarrow> 'g ciphertext \<Rightarrow> 'g \<Rightarrow> 'g \<Rightarrow> 's \<Rightarrow> 's \<Rightarrow> 's dleq_zkp" where
  "decryption_zkp_generate V c pk message sk w = dleq_generate V (cv_generator V) (ct_e1 c) pk (ct_e2 c - message) sk w"

definition decryption_zkp_verify :: "('s, 'g::ab_group_add) curve \<Rightarrow> 's dleq_zkp \<Rightarrow> 'g ciphertext \<Rightarrow> 'g \<Rightarrow> 'g \<Rightarrow> bool" where
  "decryption_zkp_verify V z c m pk = dleq_verify V z (cv_generator V) (ct_e1 c) pk (ct_e2 c - m)"

definition hybrid_key_zkp_generate :: "('s::comm_ring_1, 'g) curve \<Rightarrow> 'g hybrid_ciphertext \<Rightarrow> 'g \<Rightarrow> 'g \<Rightarrow> 's \<Rightarrow> 's \<Rightarrow> 's dleq_zkp" where
  "hybrid_key_zkp_generate V c pk key sk w = dleq_generate V (cv_generator V) (hy_e1 c) pk key sk w"

definition hybrid_key_zkp_verify :: "('s, 'g::ab_group_add) curve \<Rightarrow> 's dleq_zkp \<Rightarrow> 'g hybrid_ciphertext \<Rightarrow> 'g \<Rightarrow> 'g \<Rightarrow> bool" where
  "hybrid_key_zkp_verify V z c key pk = dleq_verify V z (cv_generator V) (hy_e1 c) pk key"

section \<open>Repeated doubling\<close>

lemma scale_laws:
  assumes "curve_ok V"
  shows "cv_scale V (a + b) s = cv_scale V a s + cv_scale V b s" and "cv_scale V a (s + t) = cv_scale V a s + cv_scale V a t"
    and "cv_scale V (cv_scale V a s) t = cv_scale V a (s * t)" and "cv_scale V a 1 = a"
    and "cv_from_bytes V (cv_to_bytes V a) = Some a" and "length (cv_to_bytes V a) = GROUP_BYTES_LEN"
    and "sc_from_bytes V (sc_to_bytes V s) = Some s" and "length (sc_to_bytes V s) = SCALAR_BYTES_LEN"
    and "cv_chacha V k n (cv_chacha V k n m) = m"
  using assms by (auto simp: curve_ok_def)

lemma scale_zero:
  assumes "curve_ok V"
  shows "cv_scale V a 0 = 0" and "cv_scale V 0 s = 0"
proof -
  have "cv_scale V a 0 + cv_scale V a 0 = cv_scale V a 0" using scale_laws(2) [OF assms, of a 0 0] by simp
  then show "cv_scale V a 0 = 0" by simp
  have "cv_scale V 0 s + cv_scale V 0 s = cv_scale V 0 s" using scale_laws(1) [OF assms, of 0 0 s] by simp
  then show "cv_scale V 0 s = 0" by simp
qed

lemma scale_minus:
  assumes "curve_ok V"
  shows "cv_scale V a (- s) = - cv_scale V a s" and "cv_scale V (- a) s = - cv_scale V a s"
    and "cv_scale V a (s - t) = cv_scale V a s - cv_scale V a t" and "cv_scale V (a - b) s = cv_scale V a s - cv_scale V b s"
proof -
  have "cv_scale V a (- s) + cv_scale V a s = 0" using scale_laws(2) [OF assms, of a "- s" s] scale_zero(1) [OF assms] by simp
  then show 1: "cv_scale V a (- s) = - cv_scale V a s" by (simp add: eq_neg_iff_add_eq_0)
  have "cv_scale V (- a) s + cv_scale V a s = 0" using scale_laws(1) [OF assms, of "- a" a s] scale_zero(2) [OF assms] by simp
  then show 2: "cv_scale V (- a) s = - cv_scale V a s" by (simp add: eq_neg_iff_add_eq_0)
  have "cv_scale V a (- t) = - cv_scale V a t" using scale_laws(2) [OF assms, of a "- t" t] scale_zero(1) [OF assms] by (simp add: eq_neg_iff_add_eq_0)
  then show "cv_scale V a (s - t) = cv_scale V a s - cv_scale V a t" using scale_laws(2) [OF assms, of a s "- t"] by simp
  have "cv_scale V (- b) s = - cv_scale V b s" using scale_laws(1) [OF assms, of "- b" b s] scale_zero(2) [OF assms] by (simp add: eq_neg_iff_add_eq_0)
  then show "cv_scale V (a - b) s = cv_scale V a s - cv_scale V b s" using scale_laws(1) [OF assms, of a "- b" s] by simp
qed

lemmas scale_simps = scale_laws(1-4) scale_zero scale_minus

text \<open>The sum of \<open>n\<close> copies.\<close>

fun nat_scale :: "nat \<Rightarrow> 'g::ab_group_add \<Rightarrow> 'g" where
  "nat_scale 0 a = 0"
| "nat_scale (Suc n) a = a + nat_scale n a"

lemma nat_scale_add: "nat_scale (m + n) a = nat_scale m a + nat_scale n a"
  by (induction m) (simp_all add: add.assoc)

lemma nat_scale_double: "nat_scale n (a + a) = nat_scale (2 * n) a"
  by (induction n) (simp_all add: add.assoc)

lemma scale_of_nat: "curve_ok V \<Longrightarrow> cv_scale V a (of_nat n) = nat_scale n a"
  by (induction n) (simp_all add: scale_simps)

lemma word_parity: "(n :: u64) AND 1 \<noteq> 0 \<longleftrightarrow> unat n mod 2 = 1" "unat (drop_bit 1 n) = unat n div 2"
proof -
  have "unat (n AND 1) = unat n mod 2" by (simp add: and_one_eq unat_mod)
  then show "n AND 1 \<noteq> 0 \<longleftrightarrow> unat n mod 2 = 1" by (metis mod_2_eq_odd not_mod_2_eq_1_eq_0 unat_eq_zero zero_neq_one)
  show "unat (drop_bit 1 n) = unat n div 2" by (simp add: drop_bit_eq_div unat_div)
qed

lemma mul_u64_loop_eq: "mul_u64_loop n a q = q + nat_scale (unat n) a"
proof (induction n a q rule: mul_u64_loop.induct)
  case (1 n a q)
  show ?case
  proof (cases "n = 0")
    case True
    then show ?thesis by (subst mul_u64_loop.simps) simp
  next
    case False
    have n: "unat n = 2 * (unat n div 2) + (if n AND 1 \<noteq> 0 then 1 else 0)" using word_parity(1) [of n] by (simp, presburger)
    have "nat_scale (unat n) a = nat_scale (unat n div 2) (a + a) + (if n AND 1 \<noteq> 0 then a else 0)"
      by (subst n) (simp add: nat_scale_add nat_scale_double add.commute)
    then show ?thesis using 1 [OF False] False
      by (subst mul_u64_loop.simps) (simp add: word_parity(2) [unfolded One_nat_def] add.assoc add.commute add.left_commute)
  qed
qed

lemma mul_u64_eq: "mul_u64 a n = nat_scale (unat n) a"
  by (simp add: mul_u64_def mul_u64_loop_eq)

lemma mul_u64_scale: "curve_ok V \<Longrightarrow> mul_u64 a n = cv_scale V a (of_nat (unat n))"
  using scale_of_nat [of V a "unat n"] by (simp add: mul_u64_eq)

lemma scalar_power_loop_eq: "scalar_power_loop n x r = r * x ^ n"
proof (induction n x r rule: scalar_power_loop.induct)
  case (1 n x r)
  show ?case
  proof (cases "n = 0")
    case True
    then show ?thesis by (simp add: scalar_power_loop.simps [of 0])
  next
    case False
    have n: "n = 2 * (n div 2) + n mod 2" by simp
    have "x ^ n = (x * x) ^ (n div 2) * x ^ (n mod 2)"
      by (subst n) (simp only: power_add power_mult power2_eq_square)
    then show ?thesis using 1 [OF False] False
      by (subst scalar_power_loop.simps) (auto simp: mult.assoc mult.commute mult.left_commute not_mod_2_eq_1_eq_0)
  qed
qed

lemma scalar_power_eq: "scalar_power x n = x ^ n"
  by (simp add: scalar_power_def scalar_power_loop_eq)

lemma exp_iter_from_eq: "exp_iter_from x e n = map (\<lambda>i. e * x ^ i) [0..<n]"
proof (induction n arbitrary: e)
  case (Suc n)
  have "[0..<Suc n] = 0 # map Suc [0..<n]" by (simp add: map_Suc_upt upt_conv_Cons)
  then show ?case using Suc.IH [of "e * x"] by (simp add: comp_def mult.assoc)
qed simp

lemma exp_iter_eq: "exp_iter x n = map (\<lambda>i. x ^ i) [0..<n]"
  by (simp add: exp_iter_def exp_iter_from_eq)

lemma group_sum_eq: "group_sum vs a = a + sum_list vs"
  by (induction vs arbitrary: a) (simp_all add: add.assoc)

lemma scalar_sum_from_eq: "scalar_sum_from s vs = s + sum_list vs"
  by (induction vs arbitrary: s) (simp_all add: add.assoc)

lemma multiscalar_eq:
  "multiscalar V ss ps = (if length ss = length ps then Ok (\<Sum>(s, p) \<leftarrow> zip ss ps. cv_scale V p s) else Panic)"
  by (induction V ss ps rule: multiscalar.induct) auto

section \<open>The schemes are correct\<close>

lemma dleq_complete:
  assumes "curve_ok V" and "point1 = cv_scale V base1 dlog" and "point2 = cv_scale V base2 dlog"
  shows "dleq_verify V (dleq_generate V base1 base2 point1 point2 dlog w) base1 base2 point1 point2"
  using assms by (simp add: dleq_verify_def dleq_generate_def Let_def scale_simps)

lemma encrypt_with_r_eq:
  assumes "curve_ok V"
  shows "encrypt_with_r V pk m r = \<lparr>ct_e1 = cv_scale V (cv_generator V) r, ct_e2 = cv_scale V (cv_generator V) m + cv_scale V pk r\<rparr>"
  by (simp add: encrypt_with_r_def encrypt_point_with_r_def)

lemma decrypt_encrypt:
  assumes "curve_ok V"
  shows "decrypt_point V sk (encrypt_point_with_r V (key_from_secret V sk) m r) = m"
  using assms by (simp add: decrypt_point_def encrypt_point_with_r_def key_from_secret_def scale_simps mult.commute)

lemma hybrid_decrypt_encrypt:
  assumes "curve_ok V"
  shows "hybrid_decrypt V sk (hybrid_encrypt V (key_from_secret V sk) m r) = m"
  using assms by (simp add: hybrid_decrypt_def hybrid_encrypt_def recover_symmetric_key_def key_from_secret_def symmetric_process_def
      Let_def scale_simps scale_laws(9) mult.commute)

lemma ciphertext_bytes:
  assumes "curve_ok V"
  shows "ct_from_bytes V (ct_to_bytes V c) = Ok (Some c)" and "length (ct_to_bytes V c) = CIPHERTEXT_BYTES_LEN"
    and "hybrid_from_bytes V (hybrid_to_bytes V h) = Ok (Some h)" and "dleq_from_bytes V (dleq_to_bytes V z) = Some z"
  using assms by (simp_all add: ct_from_bytes_def ct_to_bytes_def require_def scale_laws(5-8) CIPHERTEXT_BYTES_LEN_def
      hybrid_from_bytes_def hybrid_to_bytes_def dleq_from_bytes_def dleq_to_bytes_def DLEQ_BYTES_LEN_def)

section \<open>A sample curve\<close>

text \<open>The numbers modulo \<open>2 ^ 64\<close> have all documented laws.\<close>

definition sample_curve :: "(u64, u64) curve" where
  "sample_curve = \<lparr>cv_generator = 1, cv_scale = (\<lambda>a s. a * s), cv_to_bytes = (\<lambda>a. replicate 24 0 @ to_be_bytes a),
     cv_from_bytes = (\<lambda>b. if length b = 32 \<and> take 24 b = replicate 24 0 then Some (from_be_bytes (drop 24 b)) else None), cv_from_uniform = (\<lambda>b. 5),
     sc_to_bytes = (\<lambda>a. replicate 24 0 @ to_be_bytes a),
     sc_from_bytes = (\<lambda>b. if length b = 32 \<and> take 24 b = replicate 24 0 then Some (from_be_bytes (drop 24 b)) else None), sc_from_wide = (\<lambda>b. 3),
     cv_blake = (\<lambda>n b. replicate n 0), cv_chacha = (\<lambda>k n m. m)\<rparr>"

lemma sample_curve_ok: "curve_ok sample_curve"
  by (simp add: curve_ok_def sample_curve_def GROUP_BYTES_LEN_def SCALAR_BYTES_LEN_def algebra_simps)

lemma sample_curve_order: "large_order sample_curve"
proof -
  have "inj_on (\<lambda>n. of_nat n :: u64) {..<2 ^ 64}"
    by (rule inj_onI) (drule arg_cong [where f = unat], simp add: unat_of_nat_id)
  then show ?thesis by (simp add: large_order_def sample_curve_def)
qed

end
