(* ===== verification/Chain_Vote.thy ===== *)
theory Chain_Vote
  imports Elgamal Byte_Builder
begin

text \<open>
  The encrypted tally of private votes (\<open>chain-vote/src/tally.rs\<close>, \<open>committee.rs\<close>, \<open>math/babystep.rs\<close>): the
  tally is a vector of ciphertexts to which weighted ballots are added, the members of the committee publish
  shares of its decryption, and the counts are found as small discrete logarithms.
\<close>

section \<open>Keys of the committee\<close>

text \<open>\<open>pks[0]\<close> panics when there is no participant.\<close>

definition from_participants :: "'g::ab_group_add list \<Rightarrow> ('e, 'g) outcome" where
  "from_participants pks = (case pks of [] \<Rightarrow> Panic | k # ks \<Rightarrow> Ok (foldl (+) k ks))"

definition member_to_public :: "('s, 'g) curve \<Rightarrow> 's \<Rightarrow> 'g" where
  "member_to_public V sk = cv_scale V (cv_generator V) sk"

section \<open>The encrypted tally\<close>

definition election_fingerprint :: "('s, 'g) curve \<Rightarrow> 'g \<Rightarrow> 'g \<Rightarrow> u8 list" where
  "election_fingerprint V election_pk crs = cv_blake V 32 (cv_to_bytes V crs @ cv_to_bytes V election_pk)"

record 'g ballot =
  bl_vote :: "'g ciphertext list"
  bl_fingerprint :: "u8 list"

record 'g encrypted_tally =
  et_r :: "'g ciphertext list"
  et_fingerprint :: "u8 list"

record ('s, 'g) proven_decrypt_share =
  pd_r1 :: 'g
  pd_pi :: "'s dleq_zkp"

type_synonym ('s, 'g) tally_decrypt_share = "('s, 'g) proven_decrypt_share list"

record ('s, 'g) validated_tally =
  vt_r :: "'g ciphertext list"
  vt_shares :: "('s, 'g) tally_decrypt_share list"

definition encrypted_tally_new :: "('s, 'g::ab_group_add) curve \<Rightarrow> nat \<Rightarrow> 'g \<Rightarrow> 'g \<Rightarrow> 'g encrypted_tally" where
  "encrypted_tally_new V options election_pk crs =
     \<lparr>et_r = replicate options ct_zero, et_fingerprint = election_fingerprint V election_pk crs\<rparr>"

definition encrypted_tally_add :: "'g::ab_group_add ballot \<Rightarrow> u64 \<Rightarrow> 'g encrypted_tally \<Rightarrow> ('e, 'g encrypted_tally) outcome" where
  "encrypted_tally_add b weight t =
     obind (require (length (bl_vote b) = length (et_r t))) (\<lambda>_.
     obind (require (bl_fingerprint b = et_fingerprint t)) (\<lambda>_.
     Ok (t\<lparr>et_r := map2 (\<lambda>ri ci. ct_add ri (ct_mul_u64 ci weight)) (et_r t) (bl_vote b)\<rparr>)))"

definition encrypted_tally_plus :: "'g::ab_group_add encrypted_tally \<Rightarrow> 'g encrypted_tally \<Rightarrow> ('e, 'g encrypted_tally) outcome" where
  "encrypted_tally_plus a b =
     obind (require (length (et_r a) = length (et_r b))) (\<lambda>_. Ok (a\<lparr>et_r := map2 ct_add (et_r a) (et_r b)\<rparr>))"

text \<open>One member's shares; a nonce per option is drawn for the proofs.\<close>

definition partial_decrypt ::
  "('s::comm_ring_1, 'g) curve \<Rightarrow> 'g encrypted_tally \<Rightarrow> 's \<Rightarrow> (nat \<Rightarrow> 's) \<Rightarrow> ('s, 'g) tally_decrypt_share" where
  "partial_decrypt V t sk nonce =
     map (\<lambda>(i, r). let d = cv_scale V (ct_e1 r) sk in
            \<lparr>pd_r1 = d, pd_pi = share_zkp_generate V r (member_to_public V sk) d sk (nonce i)\<rparr>) (enumerate 0 (et_r t))"

definition share_verify :: "('s, 'g::ab_group_add) curve \<Rightarrow> 'g encrypted_tally \<Rightarrow> 'g \<Rightarrow> ('s, 'g) tally_decrypt_share \<Rightarrow> bool" where
  "share_verify V t pk sh \<longleftrightarrow> length sh = length (et_r t)
     \<and> list_all (\<lambda>(el, r). share_zkp_verify V (pd_pi el) r (pd_r1 el) pk) (zip sh (et_r t))"

text \<open>The keys and the shares are zipped: what is left over on either side is not looked at.\<close>

definition validate_partial_decryptions ::
  "('s, 'g::ab_group_add) curve \<Rightarrow> 'g encrypted_tally \<Rightarrow> 'g list \<Rightarrow> ('s, 'g) tally_decrypt_share list \<Rightarrow> (unit, ('s, 'g) validated_tally) outcome" where
  "validate_partial_decryptions V t pks shares =
     (if list_all (\<lambda>(pk, sh). share_verify V t pk sh) (zip pks shares) then Ok \<lparr>vt_r = et_r t, vt_shares = shares\<rparr> else Err ())"

text \<open>\<open>ds.elements[i]\<close> panics for a share with too few elements.\<close>

definition validated_decrypt :: "('s, 'g::ab_group_add) validated_tally \<Rightarrow> ('e, 'g list) outcome" where
  "validated_decrypt vt =
     obind (require (list_all (\<lambda>sh. length (vt_r vt) \<le> length sh) (vt_shares vt))) (\<lambda>_.
     Ok (map (\<lambda>(i, c). ct_e2 c - group_sum (map (\<lambda>sh. pd_r1 (sh ! i)) (vt_shares vt)) 0) (enumerate 0 (vt_r vt))))"

text \<open>\<open>r_results[i]\<close> panics when more counts are claimed than there are options.\<close>

fun tally_verify_loop :: "('s, 'g::ab_group_add) curve \<Rightarrow> u64 list \<Rightarrow> 'g list \<Rightarrow> ('e, bool) outcome" where
  "tally_verify_loop V [] rs = Ok True"
| "tally_verify_loop V (w # ws) [] = Panic"
| "tally_verify_loop V (w # ws) (r # rs) =
     (if mul_u64 (cv_generator V) w \<noteq> r then Ok False else tally_verify_loop V ws rs)"

definition tally_verify ::
  "('s, 'g::ab_group_add) curve \<Rightarrow> u64 list \<Rightarrow> 'g encrypted_tally \<Rightarrow> 'g list \<Rightarrow> ('s, 'g) tally_decrypt_share list \<Rightarrow> ('e, bool) outcome" where
  "tally_verify V votes t pks shares =
     (case validate_partial_decryptions V t pks shares of
        Err _ \<Rightarrow> Ok False
      | Panic \<Rightarrow> Panic
      | Ok vt \<Rightarrow> obind (validated_decrypt vt) (\<lambda>rs. tally_verify_loop V votes rs))"

section \<open>Bytes\<close>

definition FINGERPRINT_BYTES_LEN :: nat where "FINGERPRINT_BYTES_LEN = 32"

definition encrypted_tally_to_bytes :: "('s, 'g) curve \<Rightarrow> 'g encrypted_tally \<Rightarrow> u8 list" where
  "encrypted_tally_to_bytes V t = et_fingerprint t @ concat (map (ct_to_bytes V) (et_r t))"

fun chunks :: "nat \<Rightarrow> nat \<Rightarrow> 'a list \<Rightarrow> 'a list list" where
  "chunks 0 n xs = []"
| "chunks (Suc k) n xs = (if xs = [] then [] else take n xs # chunks k n (drop n xs))"

fun collect_options :: "('e, 'a option) outcome list \<Rightarrow> ('e, 'a list option) outcome" where
  "collect_options [] = Ok (Some [])"
| "collect_options (x # xs) =
     obind x (\<lambda>v. case v of None \<Rightarrow> Ok None | Some a \<Rightarrow> omap (map_option (\<lambda>as. a # as)) (collect_options xs))"

text \<open>Fewer bytes than a fingerprint make the subtraction overflow, which is a panic.\<close>

definition encrypted_tally_from_bytes :: "('s, 'g) curve \<Rightarrow> u8 list \<Rightarrow> ('e, 'g encrypted_tally option) outcome" where
  "encrypted_tally_from_bytes V bs =
     obind (require (FINGERPRINT_BYTES_LEN \<le> length bs)) (\<lambda>_.
     if (length bs - FINGERPRINT_BYTES_LEN) mod CIPHERTEXT_BYTES_LEN \<noteq> 0 then Ok None
     else
       omap (map_option (\<lambda>r. \<lparr>et_r = r, et_fingerprint = take FINGERPRINT_BYTES_LEN bs\<rparr>))
         (collect_options (map (ct_from_bytes V) (chunks (length bs) CIPHERTEXT_BYTES_LEN (drop FINGERPRINT_BYTES_LEN bs)))))"

definition PROVEN_SHARE_SIZE :: nat where "PROVEN_SHARE_SIZE = DLEQ_BYTES_LEN + GROUP_BYTES_LEN"

definition proven_share_to_bytes :: "('s, 'g) curve \<Rightarrow> ('s, 'g) proven_decrypt_share \<Rightarrow> u8 list" where
  "proven_share_to_bytes V p = cv_to_bytes V (pd_r1 p) @ dleq_to_bytes V (pd_pi p)"

definition proven_share_from_bytes :: "('s, 'g) curve \<Rightarrow> u8 list \<Rightarrow> ('s, 'g) proven_decrypt_share option" where
  "proven_share_from_bytes V bs =
     (if length bs \<noteq> PROVEN_SHARE_SIZE then None
      else case cv_from_bytes V (take GROUP_BYTES_LEN bs) of
          None \<Rightarrow> None
        | Some r1 \<Rightarrow> map_option (\<lambda>p. \<lparr>pd_r1 = r1, pd_pi = p\<rparr>) (dleq_from_bytes V (drop GROUP_BYTES_LEN bs)))"

definition share_bytes_len :: "nat \<Rightarrow> ('e, nat) outcome" where
  "share_bytes_len options =
     (let n = (DLEQ_BYTES_LEN + GROUP_BYTES_LEN) * options in obind (require (n < 2 ^ 64)) (\<lambda>_. Ok n))"

definition share_to_bytes :: "('s, 'g) curve \<Rightarrow> ('s, 'g) tally_decrypt_share \<Rightarrow> u8 list" where
  "share_to_bytes V sh = concat (map (proven_share_to_bytes V) sh)"

definition share_from_bytes :: "('s, 'g) curve \<Rightarrow> u8 list \<Rightarrow> ('e, ('s, 'g) tally_decrypt_share option) outcome" where
  "share_from_bytes V bs =
     (if length bs mod PROVEN_SHARE_SIZE \<noteq> 0 then Ok None
      else collect_options (map (\<lambda>c. Ok (proven_share_from_bytes V c)) (chunks (length bs) PROVEN_SHARE_SIZE bs)))"

section \<open>Small discrete logarithms\<close>

record 'g baby_steps_table =
  bs_table :: "u8 list \<rightharpoonup> u64"
  bs_size :: u64
  bs_giant :: 'g

fun baby_steps :: "('s, 'g::ab_group_add) curve \<Rightarrow> nat \<Rightarrow> u64 \<Rightarrow> 'g \<Rightarrow> (u8 list \<rightharpoonup> u64) \<Rightarrow> (u8 list \<rightharpoonup> u64)" where
  "baby_steps V 0 i e bs = bs"
| "baby_steps V (Suc n) i e bs = baby_steps V n (i + 1) (e + cv_generator V) (bs(cv_to_bytes V e \<mapsto> i))"

text \<open>The rounded square root is computed in floating point; the table is right for every positive step.\<close>

definition generate_with_balance ::
  "('s::comm_ring_1, 'g::ab_group_add) curve \<Rightarrow> (u64 \<Rightarrow> u64) \<Rightarrow> u64 \<Rightarrow> u64 \<Rightarrow> ('e, 'g baby_steps_table) outcome" where
  "generate_with_balance V sqrt_ceil max_value balance =
     obind (pmul (sqrt_ceil max_value) balance) (\<lambda>baby_step_size.
     let bs = baby_steps V (unat baby_step_size + 1) 0 0 Map.empty in
     obind (require (baby_step_size > 0)) (\<lambda>_.
     Ok \<lparr>bs_table = bs, bs_size = baby_step_size,
         bs_giant = cv_scale V (cv_generator V) (- scalar_from_u64 baby_step_size)\<rparr>))"

definition DEFAULT_BALANCE :: u64 where "DEFAULT_BALANCE = 2"

definition generate_table :: "('s::comm_ring_1, 'g::ab_group_add) curve \<Rightarrow> (u64 \<Rightarrow> u64) \<Rightarrow> u64 \<Rightarrow> ('e, 'g baby_steps_table) outcome" where
  "generate_table V sqrt_ceil max_value = generate_with_balance V sqrt_ceil max_value DEFAULT_BALANCE"

text \<open>The loop for one point; \<open>None\<close> when the fuel runs out.\<close>

fun baby_giant_loop ::
  "nat \<Rightarrow> ('s, 'g::ab_group_add) curve \<Rightarrow> u64 \<Rightarrow> 'g baby_steps_table \<Rightarrow> u64 \<Rightarrow> 'g \<Rightarrow> (unit, u64) outcome option" where
  "baby_giant_loop 0 V max_log t a point = None"
| "baby_giant_loop (Suc n) V max_log t a point =
     (case bs_table t (cv_to_bytes V point) of
        Some x \<Rightarrow> Some (obind (pmul a (bs_size t)) (\<lambda>m. padd m x))
      | None \<Rightarrow>
          (case pmul a (bs_size t) of
             Ok m \<Rightarrow>
               if m > max_log then Some (Err ())
               else (case padd a 1 of
                       Ok a' \<Rightarrow> baby_giant_loop n V max_log t a' (point + bs_giant t)
                     | Err e \<Rightarrow> Some (Err e)
                     | Panic \<Rightarrow> Some Panic)
           | Err e \<Rightarrow> Some (Err e)
           | Panic \<Rightarrow> Some Panic))"

definition baby_giant_point :: "('s, 'g::ab_group_add) curve \<Rightarrow> u64 \<Rightarrow> 'g baby_steps_table \<Rightarrow> 'g \<Rightarrow> (unit, u64) outcome option" where
  "baby_giant_point V max_log t point = baby_giant_loop (unat max_log div unat (bs_size t) + 2) V max_log t 0 point"

text \<open>All points in parallel, the first error in the order of the points.\<close>

fun baby_step_giant_step ::
  "('s, 'g::ab_group_add) curve \<Rightarrow> 'g list \<Rightarrow> u64 \<Rightarrow> 'g baby_steps_table \<Rightarrow> (unit, u64 list) outcome option" where
  "baby_step_giant_step V [] max_log t = Some (Ok [])"
| "baby_step_giant_step V (p # ps) max_log t =
     (case baby_giant_point V max_log t p of
        None \<Rightarrow> None
      | Some r \<Rightarrow> map_option (\<lambda>rs. obind r (\<lambda>w. omap (\<lambda>ws. w # ws) rs)) (baby_step_giant_step V ps max_log t))"

definition decrypt_tally ::
  "('s, 'g::ab_group_add) curve \<Rightarrow> ('s, 'g) validated_tally \<Rightarrow> u64 \<Rightarrow> 'g baby_steps_table \<Rightarrow> (unit, u64 list) outcome option" where
  "decrypt_tally V vt max_votes t =
     (case validated_decrypt vt of
        Ok rs \<Rightarrow> baby_step_giant_step V rs max_votes t
      | Err e \<Rightarrow> Some (Err e)
      | Panic \<Rightarrow> Some Panic)"

section \<open>The logarithms are found\<close>

abbreviation g_times :: "('s::comm_ring_1, 'g) curve \<Rightarrow> nat \<Rightarrow> 'g" where
  "g_times V n \<equiv> cv_scale V (cv_generator V) (of_nat n)"

lemma to_bytes_eq: "curve_ok V \<Longrightarrow> cv_to_bytes V a = cv_to_bytes V b \<longleftrightarrow> a = b"
  using scale_laws(5) by (metis option.inject)

lemma g_times_inj: "large_order V \<Longrightarrow> m < 2 ^ 64 \<Longrightarrow> n < 2 ^ 64 \<Longrightarrow> g_times V m = g_times V n \<longleftrightarrow> m = n"
  using inj_on_eq_iff [of "\<lambda>n. g_times V n" "{..<2 ^ 64}" m n] by (simp add: large_order_def lessThan_iff)

lemma g_times_Suc: "curve_ok V \<Longrightarrow> g_times V (Suc n) = g_times V n + cv_generator V"
  by (simp add: scale_simps add.commute)

lemma baby_steps_other:
  "b \<notin> cv_to_bytes V ` (\<lambda>k. e + nat_scale k (cv_generator V)) ` {..<n} \<Longrightarrow> baby_steps V n i e m b = m b"
proof (induction n arbitrary: i e m)
  case (Suc n)
  have "b \<noteq> cv_to_bytes V e" using Suc.prems by (auto simp: image_iff dest: bspec [where x = 0])
  moreover have "b \<notin> cv_to_bytes V ` (\<lambda>k. (e + cv_generator V) + nat_scale k (cv_generator V)) ` {..<n}"
    using Suc.prems by (auto simp: image_iff add.assoc dest: bspec [where x = "Suc _"])
  ultimately show ?case using Suc.IH by simp
qed simp

lemma baby_steps_hit:
  assumes "curve_ok V" and "large_order V"
  shows "unat i + n \<le> 2 ^ 64 \<Longrightarrow> unat i \<le> k \<Longrightarrow> k < unat i + n
    \<Longrightarrow> baby_steps V n i (g_times V (unat i)) m (cv_to_bytes V (g_times V k)) = Some (of_nat k)"
proof (induction n arbitrary: i m)
  case (Suc n)
  show ?case
  proof (cases "k = unat i")
    case True
    have "cv_to_bytes V (g_times V k) \<notin> cv_to_bytes V ` (\<lambda>j. g_times V (Suc (unat i)) + nat_scale j (cv_generator V)) ` {..<n}"
    proof
      assume "cv_to_bytes V (g_times V k) \<in> cv_to_bytes V ` (\<lambda>j. g_times V (Suc (unat i)) + nat_scale j (cv_generator V)) ` {..<n}"
      then obtain j where j: "j < n" "g_times V k = g_times V (Suc (unat i)) + nat_scale j (cv_generator V)"
        using to_bytes_eq [OF assms(1)] by auto
      then have "g_times V k = g_times V (Suc (unat i) + j)"
        using scale_of_nat [OF assms(1), symmetric] by (simp only: of_nat_add scale_laws(2) [OF assms(1)])
      then show False using g_times_inj [OF assms(2), of k "Suc (unat i) + j"] Suc.prems True j(1) by simp
    qed
    from baby_steps_other [OF this, of "i + 1" "m(cv_to_bytes V (g_times V (unat i)) \<mapsto> i)"] show ?thesis
      using True g_times_Suc [OF assms(1), of "unat i"] by simp
  next
    case False
    then have "unat (i + 1) = Suc (unat i)" using Suc.prems by (simp add: unat_word_ariths)
    then show ?thesis using Suc.IH [of "i + 1"] Suc.prems False g_times_Suc [OF assms(1), of "unat i"] by simp
  qed
qed simp

text \<open>What a table answers.\<close>

definition table_ok :: "('s::comm_ring_1, 'g::ab_group_add) curve \<Rightarrow> 'g baby_steps_table \<Rightarrow> bool" where
  "table_ok V t \<longleftrightarrow> 0 < unat (bs_size t) \<and> bs_giant t = - g_times V (unat (bs_size t))
     \<and> (\<forall>p x. bs_table t (cv_to_bytes V p) = Some x \<longleftrightarrow> unat x \<le> unat (bs_size t) \<and> p = g_times V (unat x))"

lemma generate_table_ok:
  assumes "curve_ok V" and "large_order V" and "generate_with_balance V f mv bal = (Ok t :: ('e, _) outcome)"
  shows "table_ok V t"
proof -
  let ?n = "unat (bs_size t) + 1"
  have t: "bs_table t = baby_steps V ?n 0 0 Map.empty" "0 < bs_size t" "bs_giant t = - g_times V (unat (bs_size t))"
    using assms(3) by (auto simp: generate_with_balance_def outcome_simps Let_def scalar_from_u64_def scale_minus(1) [OF assms(1)])
  have zero: "g_times V (unat (0 :: u64)) = 0" using scale_zero [OF assms(1)] by simp
  have n: "unat (0 :: u64) + ?n \<le> 2 ^ 64" using unat_lt_2p [of "bs_size t"] by simp
  have hit: "bs_table t (cv_to_bytes V (g_times V k)) = Some (of_nat k)" if "k \<le> unat (bs_size t)" for k
    using baby_steps_hit [OF assms(1,2) n, of k Map.empty] that t(1) zero by simp
  have "bs_table t (cv_to_bytes V p) = Some x \<longleftrightarrow> unat x \<le> unat (bs_size t) \<and> p = g_times V (unat x)" for p x
  proof
    assume s: "bs_table t (cv_to_bytes V p) = Some x"
    then have "cv_to_bytes V p \<in> cv_to_bytes V ` (\<lambda>k. 0 + nat_scale k (cv_generator V)) ` {..<?n}"
      using baby_steps_other [of "cv_to_bytes V p" V 0 ?n 0 Map.empty] t(1) by (metis option.distinct(1))
    then obtain k where k: "k < ?n" "p = g_times V k" using to_bytes_eq [OF assms(1)] scale_of_nat [OF assms(1)] by auto
    then have "x = of_nat k" using hit [of k] s by simp
    then show "unat x \<le> unat (bs_size t) \<and> p = g_times V (unat x)"
      using k unat_lt_2p [of "bs_size t"] unat_of_nat_id [of k, where 'a = 64] by simp
  next
    assume "unat x \<le> unat (bs_size t) \<and> p = g_times V (unat x)"
    then show "bs_table t (cv_to_bytes V p) = Some x" using hit [of "unat x"] by simp
  qed
  then show ?thesis using t(2,3) by (simp add: table_ok_def word_less_nat_alt)
qed

text \<open>
  One point: a 64-bit multiple of the generator is found up to \<open>log_bound\<close>, and an error is returned
  otherwise.
\<close>

definition log_bound :: "u64 \<Rightarrow> 'g baby_steps_table \<Rightarrow> nat" where
  "log_bound max_log t = (unat max_log div unat (bs_size t) + 2) * unat (bs_size t)"

lemma pmul_small: "unat (a :: u64) * unat b < 2 ^ 64 \<Longrightarrow> pmul a b = Ok (a * b)" "unat (a :: u64) * unat b < 2 ^ 64 \<Longrightarrow> unat (a * b) = unat a * unat b"
  by (simp_all add: checked_simps unat_word_ariths)

lemma giant_loop:
  assumes "curve_ok V" and "large_order V" and "table_ok V t" and "log_bound max_log t < 2 ^ 64"
    and "logs = {w. w < 2 ^ 64 \<and> p = g_times V w}"
  shows "n = unat max_log div unat (bs_size t) + 2 - unat a \<Longrightarrow> unat a \<le> unat max_log div unat (bs_size t) + 1
    \<Longrightarrow> \<forall>w \<in> logs. unat a * unat (bs_size t) \<le> w
    \<Longrightarrow> baby_giant_loop n V max_log t a (p - g_times V (unat a * unat (bs_size t)))
      = Some (if \<exists>w \<in> logs. w \<le> log_bound max_log t then Ok (of_nat (THE w. w \<in> logs)) else Err ())"
proof (induction n arbitrary: a)
  case (Suc n)
  let ?B = "unat (bs_size t)" and ?A = "unat max_log div unat (bs_size t) + 1"
  let ?q = "p - g_times V (unat a * ?B)"
  have B: "0 < ?B" using assms(3) by (simp add: table_ok_def)
  have bound: "log_bound max_log t = ?A * ?B + ?B" by (simp add: log_bound_def algebra_simps)
  have aB: "unat a * ?B \<le> ?A * ?B" by (rule mult_le_mono1 [OF Suc.prems(2)])
  then have small: "unat a * ?B < 2 ^ 64" using assms(4) bound by simp
  have one: "w = w'" if "w \<in> logs" "w' \<in> logs" for w w' using that g_times_inj [OF assms(2), of w w'] assms(5) by auto
  have hits: "bs_table t (cv_to_bytes V ?q) = Some x \<longleftrightarrow> unat x \<le> ?B \<and> unat a * ?B + unat x \<in> logs" for x
  proof -
    have "?q = g_times V (unat x) \<longleftrightarrow> p = g_times V (unat a * ?B + unat x)"
      by (auto simp: scale_laws(2) [OF assms(1)] algebra_simps)
    moreover have "unat x \<le> ?B \<Longrightarrow> unat a * ?B + unat x < 2 ^ 64" using aB assms(4) bound by simp
    ultimately show ?thesis using assms(3,5) by (auto simp: table_ok_def)
  qed
  show ?case
  proof (cases "bs_table t (cv_to_bytes V ?q)")
    case (Some x)
    let ?w = "unat a * ?B + unat x"
    have w: "?w \<in> logs" "unat x \<le> ?B" using hits Some by auto
    then have le: "?w \<le> log_bound max_log t" "?w < 2 ^ 64" using aB bound assms(4) by auto
    have "(THE w. w \<in> logs) = ?w" using w(1) one by blast
    moreover have "padd (a * bs_size t) x = Ok (of_nat ?w)"
      unfolding plain_arith_Ok_iffs pmul_small(2) [OF small] using le(2) by (intro unat_of_nat_id) simp
    then have "obind (pmul a (bs_size t)) (\<lambda>m. padd m x) = Ok (of_nat ?w)" unfolding pmul_small(1) [OF small] by simp
    ultimately show ?thesis using Some w(1) le(1) by auto
  next
    case None
    have above: "unat a * ?B + ?B < w" if "w \<in> logs" for w
    proof (rule ccontr)
      assume "\<not> unat a * ?B + ?B < w"
      then have x: "w - unat a * ?B \<le> ?B" "w = unat a * ?B + (w - unat a * ?B)" using Suc.prems(3) that by auto
      then have "unat (of_nat (w - unat a * ?B) :: u64) = w - unat a * ?B" using unat_lt_2p [of "bs_size t"] by (intro unat_of_nat_id) simp
      then have "bs_table t (cv_to_bytes V ?q) = Some (of_nat (w - unat a * ?B))" using hits that x by simp
      then show False using None by simp
    qed
    have max: "max_log < a * bs_size t \<longleftrightarrow> unat a = ?A"
    proof -
      have "unat max_log < unat a * ?B \<longleftrightarrow> unat max_log div ?B < unat a" using B by (simp add: div_less_iff_less_mult)
      then show ?thesis using Suc.prems(2) pmul_small(2) [OF small] by (auto simp: word_less_nat_alt)
    qed
    show ?thesis
    proof (cases "unat a = ?A")
      case True
      then have "\<not> (\<exists>w \<in> logs. w \<le> log_bound max_log t)" using above bound by fastforce
      then show ?thesis using None True max by (simp add: pmul_small(1) [OF small])
    next
      case False
      then have a1: "unat (a + 1) = unat a + 1" "padd a 1 = (Ok (a + 1) :: (unit, _) outcome)"
      proof -
        have "unat a + 1 \<le> ?A * 1" using False Suc.prems(2) by simp
        also have "\<dots> \<le> ?A * ?B" using B by (intro mult_le_mono2) simp
        also have "\<dots> \<le> log_bound max_log t" unfolding bound by (rule le_add1)
        finally have "unat a + 1 < 2 ^ 64" using assms(4) by (rule le_less_trans)
        then show "unat (a + 1) = unat a + 1" "padd a 1 = (Ok (a + 1) :: (unit, _) outcome)" by (simp_all add: checked_simps unat_word_ariths)
      qed
      have "?q + bs_giant t = p - g_times V (unat (a + 1) * ?B)"
      proof -
        have "g_times V (unat (a + 1) * ?B) = g_times V (unat a * ?B) + g_times V ?B"
          unfolding a1(1) by (simp only: distrib_right mult_1 of_nat_add scale_laws(2) [OF assms(1)])
        then show ?thesis using assms(3) by (simp add: table_ok_def)
      qed
      moreover have "\<forall>w \<in> logs. unat (a + 1) * ?B \<le> w" using above a1(1) by fastforce
      moreover have "n = unat max_log div ?B + 2 - unat (a + 1)" "unat (a + 1) \<le> ?A" using Suc.prems(1,2) False a1(1) by auto
      ultimately have "baby_giant_loop n V max_log t (a + 1) (?q + bs_giant t)
          = Some (if \<exists>w \<in> logs. w \<le> log_bound max_log t then Ok (of_nat (THE w. w \<in> logs)) else Err ())"
        using Suc.IH [of "a + 1"] by (simp only:)
      then show ?thesis using None False max a1(2) by (simp add: pmul_small(1) [OF small])
    qed
  qed
qed simp

lemma baby_giant_point_eq:
  assumes "curve_ok V" and "large_order V" and "table_ok V t" and "log_bound max_log t < 2 ^ 64"
  shows "p = g_times V (unat w) \<Longrightarrow> baby_giant_point V max_log t p = Some (if unat w \<le> log_bound max_log t then Ok w else Err ())"
    and "\<forall>w :: u64. p \<noteq> g_times V (unat w) \<Longrightarrow> baby_giant_point V max_log t p = Some (Err ())"
proof -
  let ?logs = "{w. w < 2 ^ 64 \<and> p = g_times V w}"
  have r: "baby_giant_point V max_log t p = Some (if \<exists>w \<in> ?logs. w \<le> log_bound max_log t then Ok (of_nat (THE w. w \<in> ?logs)) else Err ())"
    using giant_loop [OF assms refl, of "unat max_log div unat (bs_size t) + 2" 0 p] scale_zero [OF assms(1)] by (simp add: baby_giant_point_def)
  {
    assume p: "p = g_times V (unat w)"
    have uniq: "k = unat w" if "k \<in> {k. k < 2 ^ 64 \<and> g_times V (unat w) = g_times V k}" for k
      using g_times_inj [OF assms(2), of "unat w" k] that unat_lt_2p [of w] by simp
    have "unat w \<in> {k. k < 2 ^ 64 \<and> g_times V (unat w) = g_times V k}" using unat_lt_2p [of w] by simp
    with uniq have "{k. k < 2 ^ 64 \<and> g_times V (unat w) = g_times V k} = {unat w}" by blast
    then have "?logs = {unat w}" unfolding p .
    then show "baby_giant_point V max_log t p = Some (if unat w \<le> log_bound max_log t then Ok w else Err ())" using r by simp
  next
    assume none: "\<forall>w :: u64. p \<noteq> g_times V (unat w)"
    have empty: "?logs = {}"
    proof (rule ccontr)
      assume "?logs \<noteq> {}"
      then obtain k where k: "k < 2 ^ 64" "p = g_times V k" by blast
      then have "unat (of_nat k :: u64) = k" by (simp add: unat_of_nat_id)
      then show False using none [rule_format, of "of_nat k"] k(2) by (simp only: simp_thms)
    qed
    show "baby_giant_point V max_log t p = Some (Err ())" using r unfolding empty by simp
  }
qed

lemma baby_step_giant_step_eq:
  assumes "curve_ok V" and "large_order V" and "table_ok V t" and "log_bound max_log t < 2 ^ 64"
  shows "baby_step_giant_step V (map (mul_u64 (cv_generator V)) ws) max_log t
    = Some (if \<forall>w \<in> set ws. unat w \<le> log_bound max_log t then Ok ws else Err ())"
proof (induction ws)
  case (Cons w ws)
  have "baby_giant_point V max_log t (mul_u64 (cv_generator V) w) = Some (if unat w \<le> log_bound max_log t then Ok w else Err ())"
    by (rule baby_giant_point_eq(1) [OF assms]) (rule mul_u64_scale [OF assms(1)])
  then show ?case using Cons.IH by simp
qed simp

section \<open>Adding ballots and decrypting\<close>

fun add_ballots :: "('g::ab_group_add ballot \<times> u64) list \<Rightarrow> 'g encrypted_tally \<Rightarrow> ('e, 'g encrypted_tally) outcome" where
  "add_ballots [] t = Ok t"
| "add_ballots ((b, stake) # bs) t = obind (encrypted_tally_add b stake t) (add_ballots bs)"

text \<open>A vector of ciphertexts that encrypts the given messages under a key.\<close>

definition encrypts :: "('s, 'g::ab_group_add) curve \<Rightarrow> 'g \<Rightarrow> 'g ciphertext list \<Rightarrow> 's list \<Rightarrow> bool" where
  "encrypts V pk cs ms \<longleftrightarrow> (\<exists>rs. length rs = length ms \<and> cs = map2 (encrypt_with_r V pk) ms rs)"

lemma encrypts_length: "encrypts V pk cs ms \<Longrightarrow> length cs = length ms"
  by (auto simp: encrypts_def)

lemma encrypts_zero:
  assumes "curve_ok V"
  shows "encrypts V pk (replicate n ct_zero) (replicate n 0)"
proof -
  have "encrypt_with_r V pk 0 0 = ct_zero" using assms by (simp add: encrypt_with_r_eq ct_zero_def scale_simps)
  then show ?thesis unfolding encrypts_def by (intro exI [of _ "replicate n 0"]) (simp add: zip_replicate)
qed

lemma encrypts_map2:
  assumes "encrypts V pk cs ms" and "encrypts V pk cs' ms'" and "length ms = length ms'"
    and "\<And>m r m' r'. \<exists>r''. f (encrypt_with_r V pk m r) (encrypt_with_r V pk m' r') = encrypt_with_r V pk (g m m') r''"
  shows "encrypts V pk (map2 f cs cs') (map2 g ms ms')"
proof -
  obtain rs rs' where rs: "length rs = length ms" "cs = map2 (encrypt_with_r V pk) ms rs"
    and rs': "length rs' = length ms'" "cs' = map2 (encrypt_with_r V pk) ms' rs'" using assms(1,2) by (auto simp: encrypts_def)
  define q where "q i = (SOME r''. f (encrypt_with_r V pk (ms ! i) (rs ! i)) (encrypt_with_r V pk (ms' ! i) (rs' ! i))
      = encrypt_with_r V pk (g (ms ! i) (ms' ! i)) r'')" for i
  have q: "f (encrypt_with_r V pk (ms ! i) (rs ! i)) (encrypt_with_r V pk (ms' ! i) (rs' ! i)) = encrypt_with_r V pk (g (ms ! i) (ms' ! i)) (q i)" for i
    unfolding q_def by (rule someI_ex) (rule assms(4))
  have "map2 f cs cs' = map2 (encrypt_with_r V pk) (map2 g ms ms') (map q [0..<length ms])"
    by (rule nth_equalityI) (use rs rs' assms(3) q in auto)
  then show ?thesis unfolding encrypts_def using assms(3) by (intro exI [of _ "map q [0..<length ms]"]) simp
qed

lemma tally_add_encrypts:
  assumes "curve_ok V" and "encrypts V pk (et_r t) ms" and "encrypts V pk (bl_vote b) ms'" and "length ms = length ms'"
    and "bl_fingerprint b = et_fingerprint t"
  obtains t' where "encrypted_tally_add b stake t = (Ok t' :: ('e, _) outcome)" "et_fingerprint t' = et_fingerprint t"
    "encrypts V pk (et_r t') (map2 (\<lambda>m m'. m + m' * of_nat (unat stake)) ms ms')"
proof -
  let ?f = "\<lambda>ri ci. ct_add ri (ct_mul_u64 ci stake)" and ?t = "t\<lparr>et_r := map2 (\<lambda>ri ci. ct_add ri (ct_mul_u64 ci stake)) (et_r t) (bl_vote b)\<rparr>"
  have "ct_add (encrypt_with_r V pk m r) (ct_mul_u64 (encrypt_with_r V pk m' r') stake)
      = encrypt_with_r V pk (m + m' * of_nat (unat stake)) (r + r' * of_nat (unat stake))" for m r m' r'
    using assms(1) by (simp add: encrypt_with_r_eq ct_add_def ct_mul_u64_def mul_u64_scale scale_simps algebra_simps)
  then have "encrypts V pk (map2 ?f (et_r t) (bl_vote b)) (map2 (\<lambda>m m'. m + m' * of_nat (unat stake)) ms ms')"
    by (intro encrypts_map2 [OF assms(2,3,4)]) blast
  moreover have "encrypted_tally_add b stake t = (Ok ?t :: ('e, _) outcome)"
    using assms(4,5) encrypts_length [OF assms(2)] encrypts_length [OF assms(3)] by (simp add: encrypted_tally_add_def require_def)
  ultimately show thesis using that [of ?t] by simp
qed

lemma tally_plus_encrypts:
  assumes "curve_ok V" and "encrypts V pk (et_r a) ms" and "encrypts V pk (et_r b) ms'" and "length ms = length ms'"
  shows "\<exists>t. encrypted_tally_plus a b = (Ok t :: ('e, _) outcome) \<and> et_fingerprint t = et_fingerprint a \<and> encrypts V pk (et_r t) (map2 (+) ms ms')"
proof -
  have "ct_add (encrypt_with_r V pk m r) (encrypt_with_r V pk m' r') = encrypt_with_r V pk (m + m') (r + r')" for m r m' r'
    using assms(1) by (simp add: encrypt_with_r_eq ct_add_def scale_simps algebra_simps)
  then have "encrypts V pk (map2 ct_add (et_r a) (et_r b)) (map2 (+) ms ms')" by (intro encrypts_map2 [OF assms(2,3,4)]) blast
  then show ?thesis using assms(4) encrypts_length [OF assms(2)] encrypts_length [OF assms(3)] by (simp add: encrypted_tally_plus_def require_def)
qed

text \<open>The honest shares of all members are valid, and they decrypt the tally.\<close>

lemma from_participants_eq:
  assumes "curve_ok V" and "from_participants (map (member_to_public V) sks) = (Ok pk :: ('e, _) outcome)"
  shows "pk = cv_scale V (cv_generator V) (sum_list sks)"
proof -
  have "foldl (+) (cv_scale V (cv_generator V) a) (map (member_to_public V) ks) = cv_scale V (cv_generator V) (a + sum_list ks)" for a ks
    using assms(1) by (induction ks arbitrary: a) (simp_all add: member_to_public_def add.assoc flip: scale_laws(2))
  then show ?thesis using assms(2) by (cases sks) (auto simp: from_participants_def member_to_public_def)
qed

lemma honest_shares_valid:
  assumes "curve_ok V" and "length nonces = length sks"
  shows "validate_partial_decryptions V t (map (member_to_public V) sks) (map2 (partial_decrypt V t) sks nonces)
    = Ok \<lparr>vt_r = et_r t, vt_shares = map2 (partial_decrypt V t) sks nonces\<rparr>"
proof -
  have "share_verify V t (member_to_public V sk) (partial_decrypt V t sk nonce)" for sk nonce
    using assms(1) unfolding share_verify_def partial_decrypt_def
    by (auto simp: list_all_length share_zkp_verify_def share_zkp_generate_def Let_def nth_enumerate_eq member_to_public_def intro!: dleq_complete)
  then show ?thesis using assms(2) by (auto simp: validate_partial_decryptions_def list_all_length)
qed

lemma scale_sum_list: "curve_ok V \<Longrightarrow> sum_list (map (\<lambda>sk. cv_scale V a sk) sks) = cv_scale V a (sum_list sks)"
  by (induction sks) (simp_all add: scale_simps)

lemma honest_shares_decrypt:
  assumes "curve_ok V" and "length nonces = length sks" and "encrypts V (cv_scale V (cv_generator V) (sum_list sks)) (et_r t) ms"
  shows "validated_decrypt \<lparr>vt_r = et_r t, vt_shares = map2 (partial_decrypt V t) sks nonces\<rparr>
    = Ok (map (cv_scale V (cv_generator V)) ms)"
proof -
  let ?pk = "cv_scale V (cv_generator V) (sum_list sks)" and ?shares = "map2 (partial_decrypt V t) sks nonces"
  obtain rs where rs: "length rs = length ms" "et_r t = map2 (encrypt_with_r V ?pk) ms rs" using assms(3) by (auto simp: encrypts_def)
  have len: "length (et_r t) = length ms" by (rule encrypts_length [OF assms(3)])
  have parts: "map (\<lambda>sh. pd_r1 (sh ! i)) ?shares = map (\<lambda>sk. cv_scale V (ct_e1 (et_r t ! i)) sk) sks" if "i < length ms" for i
    using that len assms(2) by (intro nth_equalityI) (simp_all add: partial_decrypt_def nth_enumerate_eq Let_def)
  have "ct_e2 (et_r t ! i) - group_sum (map (\<lambda>sh. pd_r1 (sh ! i)) ?shares) 0 = cv_scale V (cv_generator V) (ms ! i)" if "i < length ms" for i
    unfolding group_sum_eq parts [OF that] scale_sum_list [OF assms(1)]
    using that rs assms(1) by (simp add: encrypt_with_r_eq scale_simps mult.commute)
  then have "map (\<lambda>(i, c). ct_e2 c - group_sum (map (\<lambda>sh. pd_r1 (sh ! i)) ?shares) 0) (enumerate 0 (et_r t)) = map (cv_scale V (cv_generator V)) ms"
    using len by (intro nth_equalityI) (simp_all add: nth_enumerate_eq)
  moreover have "list_all (\<lambda>sh. length (et_r t) \<le> length sh) ?shares" by (auto simp: list_all_length partial_decrypt_def)
  ultimately show ?thesis by (simp add: validated_decrypt_def require_def)
qed

lemma tally_verify_loop_eq:
  "length ws \<le> length rs \<Longrightarrow> tally_verify_loop V ws rs = Ok (map (mul_u64 (cv_generator V)) ws = take (length ws) rs)"
  by (induction V ws rs rule: tally_verify_loop.induct) auto

text \<open>A ballot for one option, and the weight of the ballots for an option.\<close>

definition unit_ballot :: "('s::comm_ring_1, 'g::ab_group_add) curve \<Rightarrow> 'g \<Rightarrow> 'g \<Rightarrow> nat \<Rightarrow> nat \<Rightarrow> (nat \<Rightarrow> 's) \<Rightarrow> 'g ballot" where
  "unit_ballot V pk crs n choice rs =
     \<lparr>bl_vote = map (\<lambda>i. encrypt_with_r V pk (scalar_of_bool (i = choice)) (rs i)) [0..<n], bl_fingerprint = election_fingerprint V pk crs\<rparr>"

definition ballot_weight :: "(nat \<times> (nat \<Rightarrow> 's) \<times> u64) list \<Rightarrow> nat \<Rightarrow> nat" where
  "ballot_weight votes i = (\<Sum>(choice, rs, w) \<leftarrow> votes. if choice = i then unat w else 0)"

lemma unit_ballot_encrypts: "encrypts V pk (bl_vote (unit_ballot V pk crs n c rs)) (map (\<lambda>i. scalar_of_bool (i = c)) [0..<n])"
  unfolding encrypts_def unit_ballot_def by (intro exI [of _ "map rs [0..<n]"]) (simp add: zip_map_map zip_same_conv_map)

lemma add_ballots_encrypts:
  fixes V :: "('s::comm_ring_1, 'g::ab_group_add) curve"
  assumes "curve_ok V"
  shows "encrypts V pk (et_r t) (map (\<lambda>i. of_nat (k i)) [0..<n]) \<Longrightarrow> et_fingerprint t = election_fingerprint V pk crs
    \<Longrightarrow> \<exists>t'. add_ballots (map (\<lambda>(c, rs, w). (unit_ballot V pk crs n c rs, w)) votes) t = (Ok t' :: ('e, _) outcome)
      \<and> encrypts V pk (et_r t') (map (\<lambda>i. of_nat (k i + ballot_weight votes i)) [0..<n])"
proof (induction votes arbitrary: t k)
  case (Cons v votes)
  obtain c rs w where v: "v = (c, rs, w)" by (cases v)
  let ?b = "unit_ballot V pk crs n c rs" and ?k = "\<lambda>i. k i + (if c = i then unat w else 0)"
  have "bl_fingerprint ?b = et_fingerprint t" using Cons.prems(2) by (simp add: unit_ballot_def)
  from tally_add_encrypts [OF assms Cons.prems(1) unit_ballot_encrypts _ this]
  obtain t1 where t1: "encrypted_tally_add ?b w t = (Ok t1 :: ('e, _) outcome)" "et_fingerprint t1 = et_fingerprint t"
    "encrypts V pk (et_r t1) (map2 (\<lambda>m m'. m + m' * of_nat (unat w)) (map (\<lambda>i. of_nat (k i)) [0..<n]) (map (\<lambda>i. scalar_of_bool (i = c)) [0..<n]))"
    by auto
  have "map2 (\<lambda>m m'. m + m' * of_nat (unat w)) (map (\<lambda>i. of_nat (k i)) [0..<n]) (map (\<lambda>i. scalar_of_bool (i = c)) [0..<n])
      = (map (\<lambda>i. of_nat (?k i)) [0..<n] :: 's list)"
    by (rule nth_equalityI) (auto simp: scalar_of_bool_def)
  with t1(3) have "encrypts V pk (et_r t1) (map (\<lambda>i. of_nat (?k i)) [0..<n])" by (simp only:)
  from Cons.IH [OF this] t1 Cons.prems(2) show ?case unfolding v by (simp add: ballot_weight_def add.assoc)
qed (simp add: ballot_weight_def)

text \<open>
  C12. The private tally is correct. When the votes are ballots for one option each, encrypted under the joint key of
  the committee, and every member publishes a share, then the shares are valid, decrypting gives for each
  option exactly the sum of the weights of its ballots, and a claimed result is accepted by the chain just when
  it is that result. The conditions ask that the sums fit in 64 bits and in the range of the logarithm table.
\<close>

theorem private_tally_correct:
  fixes V :: "('s::comm_ring_1, 'g::ab_group_add) curve"
  assumes "curve_ok V" and "large_order V" and "from_participants (map (member_to_public V) sks) = (Ok pk :: (unit, _) outcome)"
    and "length nonces = length sks" and "generate_with_balance V f mv bal = (Ok table :: (unit, _) outcome)"
    and "log_bound max_votes table < 2 ^ 64" and "\<forall>i < n. ballot_weight votes i \<le> log_bound max_votes table" and "length claimed \<le> n"
  shows "\<exists>t vt. add_ballots (map (\<lambda>(c, rs, w). (unit_ballot V pk crs n c rs, w)) votes) (encrypted_tally_new V n pk crs) = (Ok t :: (unit, _) outcome)
    \<and> validate_partial_decryptions V t (map (member_to_public V) sks) (map2 (partial_decrypt V t) sks nonces) = Ok vt
    \<and> decrypt_tally V vt max_votes table = Some (Ok (map (\<lambda>i. of_nat (ballot_weight votes i)) [0..<n]))
    \<and> tally_verify V claimed t (map (member_to_public V) sks) (map2 (partial_decrypt V t) sks nonces)
      = (Ok (claimed = take (length claimed) (map (\<lambda>i. of_nat (ballot_weight votes i)) [0..<n])) :: (unit, _) outcome)"
proof -
  let ?counts = "map (\<lambda>i. of_nat (ballot_weight votes i) :: u64) [0..<n]"
  have pk: "pk = cv_scale V (cv_generator V) (sum_list sks)" by (rule from_participants_eq [OF assms(1,3)])
  have "encrypts V pk (et_r (encrypted_tally_new V n pk crs)) (map (\<lambda>i. of_nat 0) [0..<n])"
    using encrypts_zero [OF assms(1), of pk n] by (simp add: encrypted_tally_new_def map_replicate_const)
  from add_ballots_encrypts [OF assms(1) this, of crs votes, where 'e = unit]
  obtain t where t: "add_ballots (map (\<lambda>(c, rs, w). (unit_ballot V pk crs n c rs, w)) votes) (encrypted_tally_new V n pk crs) = (Ok t :: (unit, _) outcome)"
    and enc: "encrypts V pk (et_r t) (map (\<lambda>i. of_nat (ballot_weight votes i)) [0..<n])"
    by (auto simp: encrypted_tally_new_def)
  let ?shares = "map2 (partial_decrypt V t) sks nonces" and ?vt = "\<lparr>vt_r = et_r t, vt_shares = map2 (partial_decrypt V t) sks nonces\<rparr>"
  have valid: "validate_partial_decryptions V t (map (member_to_public V) sks) ?shares = Ok ?vt" by (rule honest_shares_valid [OF assms(1,4)])
  have fits: "unat (of_nat (ballot_weight votes i) :: u64) = ballot_weight votes i" if "i < n" for i
    using assms(6,7) that by (intro unat_of_nat_id) (auto intro: le_less_trans)
  have points: "map (cv_scale V (cv_generator V)) (map (\<lambda>i. of_nat (ballot_weight votes i)) [0..<n]) = map (mul_u64 (cv_generator V)) ?counts"
    using fits by (simp add: mul_u64_eq scale_of_nat [OF assms(1)])
  have dec: "validated_decrypt ?vt = (Ok (map (mul_u64 (cv_generator V)) ?counts) :: (unit, _) outcome)"
    using honest_shares_decrypt [OF assms(1,4) enc [unfolded pk]] unfolding points .
  have "decrypt_tally V ?vt max_votes table = Some (Ok ?counts)"
    using baby_step_giant_step_eq [OF assms(1,2) generate_table_ok [OF assms(1,2,5)] assms(6), of ?counts] assms(7) fits dec
    by (auto simp: decrypt_tally_def)
  moreover have "tally_verify V claimed t (map (member_to_public V) sks) ?shares = (Ok (claimed = take (length claimed) ?counts) :: (unit, _) outcome)"
  proof -
    have "inj (mul_u64 (cv_generator V))"
    proof (rule injI)
      fix a b assume "mul_u64 (cv_generator V) a = mul_u64 (cv_generator V) b"
      then have "g_times V (unat a) = g_times V (unat b)" by (simp only: mul_u64_scale [OF assms(1)])
      then have "unat a = unat b" using g_times_inj [OF assms(2), of "unat a" "unat b"] unat_lt_2p [of a] unat_lt_2p [of b] by simp
      then show "a = b" by (rule word_unat_eq_iff [THEN iffD2])
    qed
    then have "map (mul_u64 (cv_generator V)) claimed = map (mul_u64 (cv_generator V)) (take (length claimed) ?counts) \<longleftrightarrow> claimed = take (length claimed) ?counts"
      by (rule inj_map_eq_map)
    then show ?thesis using valid dec tally_verify_loop_eq [of claimed "map (mul_u64 (cv_generator V)) ?counts" V] assms(8)
      by (simp add: tally_verify_def take_map)
  qed
  ultimately show ?thesis using t valid by blast
qed

text \<open>
  C35. The chain accepts a false result. The keys of the committee and the shares are zipped, so a share beyond the
  number of keys is not checked, but it takes part in the decryption: whoever appends one to the valid shares
  of the members can have any counts accepted. And without any share the empty result is accepted.
\<close>

theorem tally_verify_forgeable:
  fixes V :: "('s::comm_ring_1, 'g::ab_group_add) curve"
  assumes "curve_ok V" and "list_all2 (share_verify V t) pks shares" and "length claimed \<le> length (et_r t)"
  shows "(\<exists>sh. tally_verify V claimed t pks (shares @ [sh]) = (Ok True :: (unit, _) outcome))
    \<and> tally_verify V [] t pks [] = (Ok True :: (unit, _) outcome)"
proof -
  let ?n = "length (et_r t)" and ?got = "\<lambda>i. ct_e2 (et_r t ! i) - group_sum (map (\<lambda>sh. pd_r1 (sh ! i)) shares) 0"
  let ?sh = "map (\<lambda>i. \<lparr>pd_r1 = ?got i - (if i < length claimed then mul_u64 (cv_generator V) (claimed ! i) else 0),
     pd_pi = \<lparr>dz_challenge = 0, dz_response = 0\<rparr>\<rparr>) [0..<length (et_r t)]"
  let ?all = "shares @ [?sh]"
  have len: "length shares = length pks" using list_all2_lengthD [OF assms(2)] by simp
  have sizes: "list_all (\<lambda>sh. ?n \<le> length sh) ?all"
    using assms(2) by (auto simp: list_all2_conv_all_nth list_all_length share_verify_def nth_append)
  have "validate_partial_decryptions V t pks ?all = Ok \<lparr>vt_r = et_r t, vt_shares = ?all\<rparr>"
  proof -
    have "zip pks ?all = zip pks shares" using len by (simp add: zip_append2)
    then show ?thesis using assms(2) by (simp add: validate_partial_decryptions_def list_all2_iff list_all_iff)
  qed
  moreover have "validated_decrypt \<lparr>vt_r = et_r t, vt_shares = ?all\<rparr>
      = (Ok (map (\<lambda>i. if i < length claimed then mul_u64 (cv_generator V) (claimed ! i) else 0) [0..<?n]) :: (unit, _) outcome)"
  proof -
    have "map (\<lambda>(i, c). ct_e2 c - group_sum (map (\<lambda>sh. pd_r1 (sh ! i)) ?all) 0) (enumerate 0 (et_r t))
        = map (\<lambda>i. if i < length claimed then mul_u64 (cv_generator V) (claimed ! i) else 0) [0..<?n]"
      by (rule nth_equalityI) (simp_all add: nth_enumerate_eq group_sum_eq)
    then show ?thesis using sizes by (simp add: validated_decrypt_def require_def)
  qed
  moreover have "map (mul_u64 (cv_generator V)) claimed = take (length claimed) (map (\<lambda>i. if i < length claimed then mul_u64 (cv_generator V) (claimed ! i) else 0) [0..<?n])"
    using assms(3) by (intro nth_equalityI) simp_all
  ultimately have "tally_verify V claimed t pks ?all = (Ok True :: (unit, _) outcome)"
    using assms(3) by (simp add: tally_verify_def tally_verify_loop_eq)
  moreover have "tally_verify V [] t pks [] = (Ok True :: (unit, _) outcome)"
    by (simp add: tally_verify_def validate_partial_decryptions_def validated_decrypt_def require_def)
  ultimately show ?thesis by blast
qed

text \<open>A sample election with the sample curve: one member, two options, three votes.\<close>

definition sample_votes :: "(nat \<times> (nat \<Rightarrow> u64) \<times> u64) list" where
  "sample_votes = [(0, \<lambda>_. 7, 6), (1, \<lambda>i. of_nat i, 5), (0, \<lambda>_. 1, 4)]"

lemma sample_election:
  "case (generate_with_balance sample_curve (\<lambda>_. 4) 16 1 :: (unit, _) outcome) of Ok t \<Rightarrow> log_bound 16 t = 24 | _ \<Rightarrow> False"
  "from_participants (map (member_to_public sample_curve) [9]) = (Ok 9 :: (unit, _) outcome)"
  "ballot_weight sample_votes 0 = 10" "ballot_weight sample_votes 1 = 5"
  by code_simp+

theorem private_tally_correct_witness:
  "\<exists>t :: u64 encrypted_tally. add_ballots (map (\<lambda>(c, rs, w). (unit_ballot sample_curve 9 2 2 c rs, w)) sample_votes)
      (encrypted_tally_new sample_curve 2 9 2) = (Ok t :: (unit, _) outcome)
    \<and> tally_verify sample_curve [10, 5] t [9] [partial_decrypt sample_curve t 9 (\<lambda>_. 8)] = (Ok True :: (unit, _) outcome)
    \<and> tally_verify sample_curve [11, 4] t [9] [partial_decrypt sample_curve t 9 (\<lambda>_. 8)] = (Ok False :: (unit, _) outcome)"
proof -
  obtain table where table: "generate_with_balance sample_curve (\<lambda>_. 4) 16 1 = (Ok table :: (unit, _) outcome)" "log_bound 16 table = 24"
    using sample_election(1) by (auto split: outcome.splits)
  have weights: "\<forall>i < 2. ballot_weight sample_votes i \<le> log_bound 16 table"
    using sample_election(3,4) table(2) by (auto simp: less_2_cases_iff)
  have counts: "map (\<lambda>i. of_nat (ballot_weight sample_votes i) :: u64) [0..<2] = [10, 5]"
    using sample_election(3,4) by (simp add: upt_rec numeral_2_eq_2)
  note correct = private_tally_correct [OF sample_curve_ok sample_curve_order sample_election(2), of "[\<lambda>_. 8]",
      OF _ table(1), of 16 2 sample_votes _ 2, unfolded counts]
  have pks: "map (member_to_public sample_curve) [9] = [9]" by code_simp
  from correct [of "[10, 5]"] correct [of "[11, 4]"] table(2) weights show ?thesis unfolding pks by auto
qed

theorem tally_verify_forgeable_witness:
  "\<exists>t sh. add_ballots [(unit_ballot sample_curve 9 2 2 0 (\<lambda>_. 7), 6)] (encrypted_tally_new sample_curve 2 9 2) = (Ok t :: (unit, _) outcome)
    \<and> tally_verify sample_curve [0, 1000] t [9] [partial_decrypt sample_curve t 9 (\<lambda>_. 8), sh] = (Ok True :: (unit, _) outcome)"
proof -
  have "case (add_ballots [(unit_ballot sample_curve 9 2 2 0 (\<lambda>_. 7), 6)] (encrypted_tally_new sample_curve 2 9 2) :: (unit, _) outcome) of
      Ok t \<Rightarrow> list_all2 (share_verify sample_curve t) [9] [partial_decrypt sample_curve t 9 (\<lambda>_. 8)] \<and> length (et_r t) = 2 | _ \<Rightarrow> False"
    by code_simp
  then obtain t where t: "add_ballots [(unit_ballot sample_curve 9 2 2 0 (\<lambda>_. 7), 6)] (encrypted_tally_new sample_curve 2 9 2) = (Ok t :: (unit, _) outcome)"
    "list_all2 (share_verify sample_curve t) [9] [partial_decrypt sample_curve t 9 (\<lambda>_. 8)]" "length (et_r t) = 2"
    by (auto split: outcome.splits)
  from tally_verify_forgeable [OF sample_curve_ok t(2), of "[0, 1000]"] t show ?thesis by auto
qed

end
