(* ===== verification/Unit_Vector.thy ===== *)
theory Unit_Vector
  imports Chain_Vote
begin

text \<open>
  Private votes and their proofs (\<open>chain-vote/src/encrypted_vote.rs\<close>, \<open>math/polynomial.rs\<close>,
  \<open>cryptography/zkps/unit_vector/\<close>, \<open>committee.rs\<close>): a vote is a unit vector, encrypted entry by entry, with
  a proof of logarithmic size that it is one; the prover's polynomials, the challenges, and the verifier's
  multiscalar equations.
\<close>

section \<open>Unit vectors\<close>

record unit_vector =
  uv_ith :: nat
  uv_size :: nat

definition unit_vector_new :: "nat \<Rightarrow> nat \<Rightarrow> ('e, unit_vector) outcome" where
  "unit_vector_new n i = obind (require (n > 0)) (\<lambda>_. obind (require (i < n)) (\<lambda>_. Ok \<lparr>uv_ith = i, uv_size = n\<rparr>))"

definition unit_vector_iter :: "unit_vector \<Rightarrow> bool list" where
  "unit_vector_iter v = map (\<lambda>i. i = uv_ith v) [0..<uv_size v]"

definition is_jth :: "unit_vector \<Rightarrow> nat \<Rightarrow> ('e, bool) outcome" where
  "is_jth v j = (if j \<ge> uv_size v then Panic else Ok (j = uv_ith v))"

definition jth :: "unit_vector \<Rightarrow> nat \<Rightarrow> ('e, 's::comm_ring_1) outcome" where
  "jth v j = (if j \<ge> uv_size v then Panic else if j = uv_ith v then Ok 1 else Ok 0)"

text \<open>The bits of a number, the highest first.\<close>

definition binrep :: "nat \<Rightarrow> nat \<Rightarrow> ('e, bool list) outcome" where
  "binrep n digits = obind (require (n < 2 ^ digits)) (\<lambda>_. Ok (map (\<lambda>i. odd (n div 2 ^ i)) (rev [0..<digits])))"

text \<open>Vectors padded to a power of two.\<close>

fun bit_len :: "nat \<Rightarrow> nat" where
  "bit_len n = (if n = 0 then 0 else Suc (bit_len (n div 2)))"

declare bit_len.simps [simp del]

definition next_power_of_two :: "nat \<Rightarrow> nat" where
  "next_power_of_two n = 2 ^ bit_len (n - 1)"

fun low_zeros :: "nat \<Rightarrow> nat" where
  "low_zeros n = (if n = 0 \<or> odd n then 0 else Suc (low_zeros (n div 2)))"

declare low_zeros.simps [simp del]

record 'a ptp =
  ptp_elements :: "'a list"
  ptp_orig_len :: nat

definition ptp_new :: "'a list \<Rightarrow> 'a \<Rightarrow> 'a ptp" where
  "ptp_new vec extended_value =
     \<lparr>ptp_elements = vec @ replicate (next_power_of_two (length vec) - length vec) extended_value, ptp_orig_len = length vec\<rparr>"

definition ptp_bits :: "'a ptp \<Rightarrow> ('e, nat) outcome" where
  "ptp_bits p =
     (let len = length (ptp_elements p) in obind (require (len = 2 ^ low_zeros len)) (\<lambda>_. Ok (low_zeros len)))"

section \<open>Polynomials\<close>

text \<open>The coefficients, the lowest degree first.\<close>

definition poly_new :: "nat \<Rightarrow> 's::comm_ring_1 list" where
  "poly_new d = replicate (d + 1) 0"

definition poly_degree :: "'s list \<Rightarrow> ('e, nat) outcome" where
  "poly_degree p = obind (require (p \<noteq> [])) (\<lambda>_. Ok (length p - 1))"

definition poly_set2 :: "'s list \<Rightarrow> 's \<Rightarrow> 's \<Rightarrow> ('e, 's list) outcome" where
  "poly_set2 p x0 x1 = obind (poly_degree p) (\<lambda>d. obind (require (d \<ge> 1)) (\<lambda>_. Ok (p[0 := x0, 1 := x1])))"

definition poly_evaluate :: "'s::comm_ring_1 list \<Rightarrow> 's \<Rightarrow> ('e, 's) outcome" where
  "poly_evaluate p at = unwrap_opt (scalar_sum (map2 (\<lambda>e x. e * x) p (exp_iter at (length p))))"

definition poly_at_zero :: "'s list \<Rightarrow> ('e, 's) outcome" where
  "poly_at_zero p = (case p of [] \<Rightarrow> Panic | x # _ \<Rightarrow> Ok x)"

definition poly_coefficient_at :: "'s list \<Rightarrow> nat \<Rightarrow> ('e, 's) outcome" where
  "poly_coefficient_at p d = (if d < length p then Ok (p ! d) else Panic)"

text \<open>Adding into the longer of the two.\<close>

definition poly_add :: "'s::comm_ring_1 list \<Rightarrow> 's list \<Rightarrow> ('e, 's list) outcome" where
  "poly_add p q =
     obind (poly_degree p) (\<lambda>dp. obind (poly_degree q) (\<lambda>dq.
     if dp \<ge> dq then Ok (map2 (+) p q @ drop (length q) p) else Ok (map2 (+) q p @ drop (length p) q)))"

fun poly_mul_row :: "'s::comm_ring_1 \<Rightarrow> nat \<Rightarrow> 's list \<Rightarrow> 's list \<Rightarrow> 's list" where
  "poly_mul_row c d [] acc = acc"
| "poly_mul_row c d (r # rs) acc = poly_mul_row c (d + 1) rs (acc[d := acc ! d + c * r])"

fun poly_mul_rows :: "nat \<Rightarrow> 's::comm_ring_1 list \<Rightarrow> 's list \<Rightarrow> 's list \<Rightarrow> 's list" where
  "poly_mul_rows d [] rhs acc = acc"
| "poly_mul_rows d (l # ls) rhs acc = poly_mul_rows (d + 1) ls rhs (poly_mul_row l d rhs acc)"

definition poly_mul :: "'s::comm_ring_1 list \<Rightarrow> 's list \<Rightarrow> ('e, 's list) outcome" where
  "poly_mul p q =
     obind (poly_degree p) (\<lambda>dp. obind (poly_degree q) (\<lambda>dq. Ok (poly_mul_rows 0 p q (replicate (dp + dq + 1) 0))))"

section \<open>Messages of the proof\<close>

record 's blinding_randomness =
  br_alpha :: 's
  br_beta :: 's
  br_gamma :: 's
  br_delta :: 's

record 'g announcement =
  an_i :: 'g
  an_b :: 'g
  an_a :: 'g

record 's response_randomness =
  rr_z :: 's
  rr_w :: 's
  rr_v :: 's

definition gen_and_commit :: "('s::comm_ring_1, 'g::ab_group_add) curve \<Rightarrow> 'g \<Rightarrow> bool \<Rightarrow> 's blinding_randomness \<Rightarrow> 'g announcement" where
  "gen_and_commit V h index b =
     \<lparr>an_i = commit_bool V h index (br_alpha b), an_b = commit_with_random V h (br_beta b) (br_gamma b),
      an_a = (if index then commit_with_random V h (br_beta b) (br_delta b) else commit_with_random V h 0 (br_delta b))\<rparr>"

definition gen_response :: "'s::comm_ring_1 blinding_randomness \<Rightarrow> 's \<Rightarrow> bool \<Rightarrow> 's response_randomness" where
  "gen_response b challenge index =
     (let z = scalar_of_bool index * challenge + br_beta b in
      \<lparr>rr_z = z, rr_w = br_alpha b * challenge + br_gamma b, rr_v = br_alpha b * (challenge - z) + br_delta b\<rparr>)"

definition announcement_to_bytes :: "('s, 'g) curve \<Rightarrow> 'g announcement \<Rightarrow> u8 list" where
  "announcement_to_bytes V a = cv_to_bytes V (an_i a) @ cv_to_bytes V (an_b a) @ cv_to_bytes V (an_a a)"

definition ANNOUNCEMENT_BYTES_LEN :: nat where "ANNOUNCEMENT_BYTES_LEN = GROUP_BYTES_LEN * 3"

definition announcement_from_bytes :: "('s, 'g) curve \<Rightarrow> u8 list \<Rightarrow> 'g announcement option" where
  "announcement_from_bytes V bs =
     (if length bs \<noteq> ANNOUNCEMENT_BYTES_LEN then None
      else case cv_from_bytes V (take GROUP_BYTES_LEN bs) of None \<Rightarrow> None | Some i \<Rightarrow>
        (case cv_from_bytes V (take GROUP_BYTES_LEN (drop GROUP_BYTES_LEN bs)) of None \<Rightarrow> None | Some b \<Rightarrow>
          map_option (\<lambda>a. \<lparr>an_i = i, an_b = b, an_a = a\<rparr>) (cv_from_bytes V (drop (GROUP_BYTES_LEN * 2) bs))))"

definition response_to_bytes :: "('s, 'g) curve \<Rightarrow> 's response_randomness \<Rightarrow> u8 list" where
  "response_to_bytes V r = sc_to_bytes V (rr_z r) @ sc_to_bytes V (rr_w r) @ sc_to_bytes V (rr_v r)"

definition RESPONSE_BYTES_LEN :: nat where "RESPONSE_BYTES_LEN = SCALAR_BYTES_LEN * 3"

definition response_from_bytes :: "('s, 'g) curve \<Rightarrow> u8 list \<Rightarrow> 's response_randomness option" where
  "response_from_bytes V bs =
     (if length bs \<noteq> RESPONSE_BYTES_LEN then None
      else case sc_from_bytes V (take SCALAR_BYTES_LEN bs) of None \<Rightarrow> None | Some z \<Rightarrow>
        (case sc_from_bytes V (take SCALAR_BYTES_LEN (drop SCALAR_BYTES_LEN bs)) of None \<Rightarrow> None | Some w \<Rightarrow>
          map_option (\<lambda>v. \<lparr>rr_z = z, rr_w = w, rr_v = v\<rparr>) (sc_from_bytes V (drop (SCALAR_BYTES_LEN * 2) bs))))"

text \<open>The pair \<open>(z0, z1)\<close> of one bit, and the product of the factors that the bits of \<open>j\<close> choose.\<close>

definition bit_polys :: "nat \<Rightarrow> bool \<Rightarrow> 's::comm_ring_1 blinding_randomness \<Rightarrow> ('e, 's list \<times> 's list) outcome" where
  "bit_polys bits ix b =
     obind (poly_set2 (poly_new bits) (br_beta b) (scalar_of_bool ix)) (\<lambda>z1.
     obind (poly_set2 (poly_new bits) (- br_beta b) (scalar_of_bool (\<not> ix))) (\<lambda>z0. Ok (z0, z1)))"

fun collect :: "('e, 'a) outcome list \<Rightarrow> ('e, 'a list) outcome" where
  "collect [] = Ok []"
| "collect (x # xs) = obind x (\<lambda>a. omap (\<lambda>as. a # as) (collect xs))"

fun poly_product :: "'s::comm_ring_1 list \<Rightarrow> 's list list \<Rightarrow> ('e, 's list) outcome" where
  "poly_product acc [] = Ok acc"
| "poly_product acc (t # ts) = obind (poly_mul acc t) (\<lambda>acc. poly_product acc ts)"

text \<open>\<open>j[0]\<close> panics when there are no bits, that is for a vote with one option.\<close>

definition generate_poly :: "nat \<Rightarrow> ('s::comm_ring_1 list \<times> 's list) list \<Rightarrow> nat \<Rightarrow> ('e, 's list) outcome" where
  "generate_poly bits polys i =
     obind (binrep i bits) (\<lambda>j.
     case map2 (\<lambda>b (z0, z1). if b then z1 else z0) j polys of
       [] \<Rightarrow> Panic
     | acc # ts \<Rightarrow> poly_product acc ts)"

definition generate_polys :: "nat \<Rightarrow> bool list \<Rightarrow> nat \<Rightarrow> 's::comm_ring_1 blinding_randomness list \<Rightarrow> ('e, 's list list) outcome" where
  "generate_polys ciphers_len idx_binary_rep bits blinding =
     obind (collect (map2 (bit_polys bits) idx_binary_rep blinding)) (\<lambda>polys.
     collect (map (generate_poly bits polys) [0..<ciphers_len]))"

section \<open>The proof\<close>

record ('s, 'g) unit_vector_zkp =
  uz_ibas :: "'g announcement list"
  uz_ds :: "'g ciphertext list"
  uz_zwvs :: "'s response_randomness list"
  uz_r :: 's

definition challenge_context :: "('s, 'g) curve \<Rightarrow> 'g \<Rightarrow> 'g \<Rightarrow> 'g ciphertext list \<Rightarrow> u8 list" where
  "challenge_context V h pk ciphers = cv_to_bytes V h @ cv_to_bytes V pk @ concat (map (ct_to_bytes V) ciphers)"

definition first_context :: "('s, 'g) curve \<Rightarrow> u8 list \<Rightarrow> 'g announcement list \<Rightarrow> u8 list" where
  "first_context V ctx ibas = ctx @ concat (map (announcement_to_bytes V) ibas)"

definition first_challenge :: "('s, 'g) curve \<Rightarrow> u8 list \<Rightarrow> 'g announcement list \<Rightarrow> 's" where
  "first_challenge V ctx ibas = hash_to_scalar V (first_context V ctx ibas)"

definition second_challenge :: "('s, 'g) curve \<Rightarrow> u8 list \<Rightarrow> 'g announcement list \<Rightarrow> 'g ciphertext list \<Rightarrow> 's" where
  "second_challenge V ctx ibas ds = hash_to_scalar V (first_context V ctx ibas @ concat (map (ct_to_bytes V) ds))"

text \<open>The weighted sum of the \<open>i\<close>th coefficients.\<close>

definition coefficient_sum :: "'s::comm_ring_1 \<Rightarrow> 's list list \<Rightarrow> nat \<Rightarrow> ('e, 's) outcome" where
  "coefficient_sum cy pjs i =
     obind (collect (map (\<lambda>pj. poly_coefficient_at pj i) pjs)) (\<lambda>cs.
     Ok (foldl (\<lambda>acc (c_pows, c). acc + c_pows * c) 0 (zip (exp_iter cy (length pjs)) cs)))"

text \<open>The randomness: one blinding per bit, then one scalar per bit for the encrypted coefficients.\<close>

definition unit_zkp_generate ::
  "('s::comm_ring_1, 'g::ab_group_add) curve \<Rightarrow> 'g \<Rightarrow> 'g \<Rightarrow> unit_vector \<Rightarrow> 's list \<Rightarrow> 'g ciphertext list
   \<Rightarrow> 's blinding_randomness list \<Rightarrow> 's list \<Rightarrow> ('e, ('s, 'g) unit_vector_zkp) outcome" where
  "unit_zkp_generate V crs pk v encryption_randomness ciphertexts blinding rs =
     (let ciphers = ptp_new ciphertexts ct_zero; cipher_randoms = ptp_new encryption_randomness 0 in
      obind (ptp_bits ciphers) (\<lambda>bits. obind (ptp_bits cipher_randoms) (\<lambda>bits'.
      obind (require (bits = bits')) (\<lambda>_.
      obind (binrep (uv_ith v) bits) (\<lambda>idx.
      let ibas = map2 (gen_and_commit V crs) idx blinding;
          ctx = challenge_context V crs pk (ptp_elements ciphers);
          cy = first_challenge V ctx ibas in
      obind (generate_polys (length (ptp_elements ciphers)) idx bits blinding) (\<lambda>pjs.
      obind (collect (map (coefficient_sum cy pjs) [0..<bits])) (\<lambda>sums.
      let ds = map2 (encrypt_with_r V pk) sums rs;
          cx = second_challenge V ctx ibas ds;
          cx_pow = scalar_power cx bits;
          p1 = foldl (\<lambda>acc (r, cy_pows). r * cx_pow * cy_pows + acc) 0
                 (zip (ptp_elements cipher_randoms) (exp_iter cy (length (ptp_elements cipher_randoms))));
          p2 = foldl (\<lambda>acc (r, cx_pows). r * cx_pows + acc) 0 (zip rs (exp_iter cx (length rs)))
      in Ok \<lparr>uz_ibas = ibas, uz_ds = ds, uz_zwvs = map2 (\<lambda>b index. gen_response b cx index) blinding idx, uz_r = p1 + p2\<rparr>)))))))"

definition powers_z_encs :: "'s::comm_ring_1 response_randomness list \<Rightarrow> 's \<Rightarrow> nat \<Rightarrow> nat \<Rightarrow> ('e, 's) outcome" where
  "powers_z_encs z challenge_x index bit_size =
     obind (binrep index bit_size) (\<lambda>idx.
     obind (require (length z \<le> length idx)) (\<lambda>_.
     Ok (foldl (\<lambda>acc (zwv, b). acc * (if b then rr_z zwv else challenge_x - rr_z zwv)) 1 (zip z idx))))"

text \<open>The equation of one bit; the two commitments are batched with a random factor.\<close>

definition bit_check :: "('s::comm_ring_1, 'g::ab_group_add) curve \<Rightarrow> 'g \<Rightarrow> 's \<Rightarrow> 's \<Rightarrow> 's response_randomness \<Rightarrow> 'g announcement \<Rightarrow> ('e, bool) outcome" where
  "bit_check V h challenge_x batch zwv iba =
     omap (\<lambda>r. r = 0) (multiscalar V
       [rr_z zwv, rr_w zwv + batch * rr_v zwv, batch * (rr_z zwv - challenge_x) - challenge_x, - 1, - batch]
       [cv_generator V, h, an_i iba, an_b iba, an_a iba])"

fun bit_checks :: "('s::comm_ring_1, 'g::ab_group_add) curve \<Rightarrow> 'g \<Rightarrow> 's \<Rightarrow> 's \<Rightarrow> ('s response_randomness \<times> 'g announcement) list \<Rightarrow> ('e, bool) outcome" where
  "bit_checks V h challenge_x batch [] = Ok True"
| "bit_checks V h challenge_x batch ((zwv, iba) # xs) =
     obind (bit_check V h challenge_x batch zwv iba) (\<lambda>ok. if \<not> ok then Ok False else bit_checks V h challenge_x batch xs)"

definition mega_check ::
  "('s::comm_ring_1, 'g::ab_group_add) curve \<Rightarrow> ('s, 'g) unit_vector_zkp \<Rightarrow> 'g \<Rightarrow> 'g ciphertext list \<Rightarrow> nat \<Rightarrow> 's \<Rightarrow> 's \<Rightarrow> ('e, bool) outcome" where
  "mega_check V p pk ciphers bits challenge_x challenge_y =
     (let len = length ciphers;
          cx_pow = scalar_power challenge_x bits;
          powers_cy = exp_iter challenge_y len;
          powers_cx = exp_iter challenge_x bits;
          zero = encrypt_with_r V pk 0 (uz_r p) in
      obind (collect (map (\<lambda>i. powers_z_encs (uz_zwvs p) challenge_x i bits) [0..<len])) (\<lambda>zs.
      omap (\<lambda>r. r = 0) (multiscalar V
        (map (\<lambda>s. s * cx_pow) powers_cy @ map (\<lambda>s. s * cx_pow) powers_cy @ powers_cy @ powers_cx @ powers_cx @ [- 1] @ [- 1])
        (map ct_e2 ciphers @ map ct_e1 ciphers @ map (\<lambda>z. cv_scale V (cv_generator V) (- z)) zs
          @ map ct_e1 (uz_ds p) @ map ct_e2 (uz_ds p) @ [ct_e1 zero] @ [ct_e2 zero]))))"

definition unit_zkp_verify ::
  "('s::comm_ring_1, 'g::ab_group_add) curve \<Rightarrow> ('s, 'g) unit_vector_zkp \<Rightarrow> 'g \<Rightarrow> 'g \<Rightarrow> 'g ciphertext list \<Rightarrow> 's \<Rightarrow> ('e, bool) outcome" where
  "unit_zkp_verify V p crs pk ciphertexts batch =
     (let ciphers = ptp_new ciphertexts ct_zero in
      obind (ptp_bits ciphers) (\<lambda>bits.
      let ctx = challenge_context V crs pk (ptp_elements ciphers);
          cy = first_challenge V ctx (uz_ibas p);
          cx = second_challenge V ctx (uz_ibas p) (uz_ds p) in
      if length (uz_ibas p) \<noteq> bits then Ok False
      else if length (uz_zwvs p) \<noteq> bits then Ok False
      else
        obind (bit_checks V crs cx batch (zip (uz_zwvs p) (uz_ibas p))) (\<lambda>ok.
        if \<not> ok then Ok False else mega_check V p pk (ptp_elements ciphers) bits cx cy)))"

section \<open>Votes\<close>

text \<open>One random scalar is drawn and used for every entry of the vector: \<open>vec![x; n]\<close> copies its argument.\<close>

definition encrypt_and_prove_vote ::
  "('s::comm_ring_1, 'g::ab_group_add) curve \<Rightarrow> 'g \<Rightarrow> 'g \<Rightarrow> unit_vector \<Rightarrow> 's \<Rightarrow> 's blinding_randomness list \<Rightarrow> 's list
   \<Rightarrow> ('e, 'g ciphertext list \<times> ('s, 'g) unit_vector_zkp) outcome" where
  "encrypt_and_prove_vote V pk crs vote r blinding rs =
     (let encryption_randomness = replicate (uv_size vote) r;
          ciphertexts = map2 (\<lambda>r v. encrypt_with_r V pk (scalar_of_bool v) r) encryption_randomness (unit_vector_iter vote) in
      omap (\<lambda>proof. (ciphertexts, proof)) (unit_zkp_generate V crs pk vote encryption_randomness ciphertexts blinding rs))"

definition try_from_vote_and_proof ::
  "('s::comm_ring_1, 'g::ab_group_add) curve \<Rightarrow> 'g ciphertext list \<Rightarrow> ('s, 'g) unit_vector_zkp \<Rightarrow> 'g \<Rightarrow> 'g \<Rightarrow> 's \<Rightarrow> (unit, 'g ballot) outcome" where
  "try_from_vote_and_proof V vote p crs pk batch =
     obind (unit_zkp_verify V p crs pk vote batch) (\<lambda>ok.
     if \<not> ok then Err () else Ok \<lparr>bl_vote = vote, bl_fingerprint = election_fingerprint V pk crs\<rparr>)"

section \<open>Numbers and bits\<close>

lemma low_zeros_pow: "low_zeros (2 ^ k) = k"
proof (induction k)
  case (Suc k)
  then show ?case by (subst low_zeros.simps) simp
qed (subst low_zeros.simps, simp)

lemma bit_len_bound: "n < 2 ^ bit_len n"
proof (induction n rule: bit_len.induct)
  case (1 n)
  show ?case
  proof (cases "n = 0")
    case False
    then have "bit_len n = Suc (bit_len (n div 2))" by (subst bit_len.simps) simp
    then show ?thesis using 1 [OF False] by simp
  qed simp
qed

lemma next_power_bound: "n \<le> next_power_of_two n"
  using bit_len_bound [of "n - 1"] by (simp add: next_power_of_two_def)

lemma bit_len_pos: "2 \<le> n \<Longrightarrow> 0 < bit_len (n - 1)"
  by (subst bit_len.simps) simp

lemma ptp_length: "length (ptp_elements (ptp_new xs a)) = next_power_of_two (length xs)"
  using next_power_bound [of "length xs"] by (simp add: ptp_new_def)

lemma ptp_bits_eq: "ptp_bits (ptp_new xs a) = Ok (bit_len (length xs - 1))"
  by (simp add: ptp_bits_def ptp_length next_power_of_two_def low_zeros_pow require_def)

lemma binrep_eq: "n < 2 ^ d \<Longrightarrow> binrep n d = Ok (map (\<lambda>i. odd (n div 2 ^ i)) (rev [0..<d]))"
  by (simp add: binrep_def require_def)

text \<open>Numbers with the same bits are equal.\<close>

lemma bits_inj: "(\<forall>i < d. odd (m div 2 ^ i) = odd (n div 2 ^ i)) \<Longrightarrow> m < 2 ^ d \<Longrightarrow> n < 2 ^ d \<Longrightarrow> m = (n :: nat)"
proof (induction d arbitrary: m n)
  case (Suc d)
  have "odd (m div 2 div 2 ^ i) = odd (n div 2 div 2 ^ i)" if "i < d" for i
    using Suc.prems(1) that by (auto dest!: spec [of _ "Suc i"] simp: div_mult2_eq)
  then have "m div 2 = n div 2" using Suc by (intro Suc.IH) auto
  moreover have "odd m = odd n" using Suc.prems(1) by (auto dest!: spec [of _ 0])
  then have "m mod 2 = n mod 2" by (simp add: mod_2_eq_odd)
  ultimately show ?case using div_mult_mod_eq [of m 2] div_mult_mod_eq [of n 2] by linarith
qed simp

section \<open>Products of linear polynomials\<close>

definition coef :: "'s::comm_ring_1 list \<Rightarrow> nat \<Rightarrow> 's" where
  "coef p k = (if k < length p then p ! k else 0)"

lemma coef_update: "d < length acc \<Longrightarrow> coef (acc[d := acc ! d + v]) k = coef acc k + (if k = d then v else 0)"
  by (simp add: coef_def)

lemma poly_mul_row_coef:
  "d + length rs \<le> length acc \<Longrightarrow>
   length (poly_mul_row c d rs acc) = length acc \<and> coef (poly_mul_row c d rs acc) k = coef acc k + (if d \<le> k then c * coef rs (k - d) else 0)"
proof (induction rs arbitrary: d acc)
  case (Cons r rs)
  have "coef (r # rs) (k - d) = (if k = d then r else coef rs (k - Suc d))" if "d \<le> k"
    using that by (auto simp: coef_def nth_Cons' Suc_diff_Suc)
  then show ?case using Cons.IH [of "d + 1" "acc[d := acc ! d + c * r]"] Cons.prems by (auto simp: coef_update)
qed (simp add: coef_def)

lemma poly_mul_rows_coef:
  "d + length ls + length rhs \<le> length acc + 1 \<Longrightarrow>
   length (poly_mul_rows d ls rhs acc) = length acc
   \<and> coef (poly_mul_rows d ls rhs acc) k = coef acc k + (\<Sum>i < length ls. if d + i \<le> k then ls ! i * coef rhs (k - (d + i)) else 0)"
proof (induction ls arbitrary: d acc)
  case (Cons l ls)
  have "(\<Sum>i < Suc (length ls). if d + i \<le> k then (l # ls) ! i * coef rhs (k - (d + i)) else 0)
      = (if d \<le> k then l * coef rhs (k - d) else 0) + (\<Sum>i < length ls. if Suc d + i \<le> k then ls ! i * coef rhs (k - (Suc d + i)) else 0)"
    by (subst sum.lessThan_Suc_shift) (simp cong: if_cong)
  then show ?case using Cons.IH [of "Suc d" "poly_mul_row l d rhs acc"] Cons.prems poly_mul_row_coef [of d rhs acc l k]
    by (auto simp: add.assoc)
qed simp

text \<open>A factor \<open>a + b x\<close>, padded with zeros.\<close>

definition linear :: "'s::comm_ring_1 list \<Rightarrow> 's \<Rightarrow> 's \<Rightarrow> bool" where
  "linear q a b \<longleftrightarrow> 2 \<le> length q \<and> coef q 0 = a \<and> coef q 1 = b \<and> (\<forall>k > 1. coef q k = 0)"

lemma poly_mul_linear:
  assumes "p \<noteq> []" and "linear q a b"
  shows "\<exists>r. poly_mul p q = (Ok r :: ('e, _) outcome) \<and> length r = length p + length q - 1
    \<and> (\<forall>k. coef r k = coef p k * a + (if k = 0 then 0 else coef p (k - 1) * b))"
proof -
  let ?r = "poly_mul_rows 0 p q (replicate (length p - 1 + (length q - 1) + 1) 0)"
  have q: "q \<noteq> []" using assms(2) by (auto simp: linear_def)
  have mul: "poly_mul p q = (Ok ?r :: ('e, _) outcome)" using assms(1) q by (simp add: poly_mul_def poly_degree_def require_def)
  have len: "0 + length p + length q \<le> length (replicate (length p - 1 + (length q - 1) + 1) (0 :: 'a)) + 1"
    using assms(1) q by (cases p; cases q) simp_all
  have "coef ?r k = coef p k * a + (if k = 0 then 0 else coef p (k - 1) * b)" for k
  proof -
    have "(if 0 + i \<le> k then p ! i * coef q (k - (0 + i)) else 0) = (if i = k then p ! i * a else 0) + (if Suc i = k then p ! i * b else 0)" for i
    proof -
      consider "i = k" | "Suc i = k" | "k < i" | "1 < k - i" by linarith
      then show ?thesis using assms(2) by cases (auto simp: linear_def)
    qed
    then have "(\<Sum>i < length p. if 0 + i \<le> k then p ! i * coef q (k - (0 + i)) else 0)
        = (\<Sum>i < length p. if i = k then p ! i * a else 0) + (\<Sum>i < length p. if Suc i = k then p ! i * b else 0)"
      by (simp only: sum.distrib)
    also have "(\<Sum>i < length p. if i = k then p ! i * a else 0) = coef p k * a" by (simp add: coef_def sum.delta)
    also have "(\<Sum>i < length p. if Suc i = k then p ! i * b else 0) = (if k = 0 then 0 else coef p (k - 1) * b)"
      by (cases k) (simp_all add: coef_def sum.delta)
    finally have eq: "(\<Sum>i < length p. if 0 + i \<le> k then p ! i * coef q (k - (0 + i)) else 0)
        = coef p k * a + (if k = 0 then 0 else coef p (k - 1) * b)" .
    have "coef (replicate m (0 :: 'a)) k = 0" for m by (simp add: coef_def)
    then show ?thesis using conjunct2 [OF poly_mul_rows_coef [OF len, of k]] unfolding eq by (simp only: add_0_left)
  qed
  moreover have "length ?r = length p + length q - 1" using poly_mul_rows_coef [OF len, of 0] assms(1) q by (cases p; cases q) simp_all
  ultimately show ?thesis using mul by blast
qed

text \<open>The value of the coefficients up to \<open>m\<close>.\<close>

definition value_upto :: "'s::comm_ring_1 list \<Rightarrow> nat \<Rightarrow> 's \<Rightarrow> 's" where
  "value_upto p m x = (\<Sum>i \<le> m. coef p i * x ^ i)"

lemma poly_product_linear:
  assumes "p \<noteq> []" and "\<forall>k > m. coef p k = 0" and "list_all2 (\<lambda>q (a, b). linear q a b) qs fs" and "m < length p"
  shows "\<exists>r. poly_product p qs = (Ok r :: ('e, _) outcome) \<and> m + length qs < length r \<and> (\<forall>k > m + length qs. coef r k = 0)
    \<and> coef r (m + length qs) = coef p m * prod_list (map snd fs)
    \<and> value_upto r (m + length qs) x = value_upto p m x * prod_list (map (\<lambda>(a, b). a + b * x) fs)"
  using assms(3,1,2,4)
proof (induction qs fs arbitrary: p m rule: list_all2_induct)
  case (Cons q qs ab fs)
  obtain a b where ab: "ab = (a, b)" by (cases ab)
  have lin: "linear q a b" using Cons.hyps(1) ab by simp
  obtain r where r: "poly_mul p q = (Ok r :: ('e, _) outcome)" "length r = length p + length q - 1"
    "\<And>k. coef r k = coef p k * a + (if k = 0 then 0 else coef p (k - 1) * b)"
    using poly_mul_linear [OF Cons.prems(1) lin, where 'e = 'e] by blast
  have high: "\<forall>k > Suc m. coef r k = 0" using Cons.prems(2) by (auto simp: r(3))
  have lead: "coef r (Suc m) = coef p m * b" using Cons.prems(2) by (simp add: r(3))
  have "value_upto r (Suc m) x = (\<Sum>i \<le> Suc m. coef p i * a * x ^ i) + (\<Sum>i \<le> Suc m. (if i = 0 then 0 else coef p (i - 1) * b) * x ^ i)"
    by (simp add: value_upto_def r(3) sum.distrib distrib_right del: sum.atMost_Suc)
  also have "(\<Sum>i \<le> Suc m. coef p i * a * x ^ i) = value_upto p m x * a"
    using Cons.prems(2) by (simp add: value_upto_def sum_distrib_left mult.assoc mult.commute mult.left_commute)
  also have "(\<Sum>i \<le> Suc m. (if i = 0 then 0 else coef p (i - 1) * b) * x ^ i) = value_upto p m x * (b * x)"
    by (subst sum.atMost_Suc_shift) (simp add: value_upto_def sum_distrib_left mult.assoc mult.commute mult.left_commute)
  finally have val: "value_upto r (Suc m) x = value_upto p m x * (a + b * x)" by (simp add: distrib_left)
  have "2 \<le> length q" using lin by (simp add: linear_def)
  then have len: "Suc m < length r" using r(2) Cons.prems(3) by linarith
  have ne: "r \<noteq> []" using len by auto
  from Cons.IH [OF ne high len] r(1) lead val show ?case unfolding ab by (auto simp: mult.assoc)
qed simp

lemma factors_product:
  assumes lin: "\<And>k. linear (q k) (a k) (b k)"
  shows "\<exists>p. poly_product (q 0) (map q (map Suc [0..<m])) = (Ok p :: ('e, _) outcome) \<and> Suc m < length p
    \<and> coef p (Suc m) = prod_list (map b (0 # map Suc [0..<m]))
    \<and> (\<forall>x. value_upto p (Suc m) x = prod_list (map (\<lambda>k. a k + b k * x) (0 # map Suc [0..<m])))"
proof -
  let ?qs = "map q (map Suc [0..<m])" and ?fs = "map (\<lambda>k. (a k, b k)) (map Suc [0..<m])"
  have q0: "q 0 \<noteq> []" "1 < length (q 0)" "\<forall>k > 1. coef (q 0) k = 0" "coef (q 0) 1 = b 0"
    and v0: "value_upto (q 0) 1 x = a 0 + b 0 * x" for x
    using lin [of 0] by (auto simp: linear_def value_upto_def)
  have "list_all2 (\<lambda>q (a, b). linear q a b) ?qs ?fs"
    by (rule list_all2_all_nthI) (simp_all add: lin)
  then have prod: "\<exists>r. poly_product (q 0) ?qs = (Ok r :: ('e, _) outcome) \<and> 1 + length ?qs < length r \<and> (\<forall>k > 1 + length ?qs. coef r k = 0)
      \<and> coef r (1 + length ?qs) = coef (q 0) 1 * prod_list (map snd ?fs)
      \<and> value_upto r (1 + length ?qs) x = value_upto (q 0) 1 x * prod_list (map (\<lambda>(a, b). a + b * x) ?fs)" for x
    using poly_product_linear [OF q0(1,3) _ q0(2), of ?qs ?fs x, where 'e = 'e] by blast
  then obtain p where p: "poly_product (q 0) ?qs = (Ok p :: ('e, _) outcome)" by blast
  have "Suc m < length p" "coef p (Suc m) = b 0 * prod_list (map snd ?fs)"
    "value_upto p (Suc m) x = (a 0 + b 0 * x) * prod_list (map (\<lambda>(a, b). a + b * x) ?fs)" for x
    using prod [of x] unfolding p q0(4) v0 by auto
  then show ?thesis using p by (simp add: comp_def)
qed

section \<open>The polynomials of the proof\<close>

lemma collect_Ok: "(\<And>x. x \<in> set xs \<Longrightarrow> f x = Ok (g x)) \<Longrightarrow> collect (map f xs) = Ok (map g xs)"
  by (induction xs) simp_all

text \<open>The factor that bit \<open>j\<close> of an index contributes when the bit of the vote is \<open>ix\<close>.\<close>

definition factor :: "bool \<Rightarrow> bool \<Rightarrow> 's::comm_ring_1 blinding_randomness \<Rightarrow> 's \<times> 's" where
  "factor j ix b = (if j then (br_beta b, scalar_of_bool ix) else (- br_beta b, scalar_of_bool (\<not> ix)))"

definition bit_pair :: "nat \<Rightarrow> bool \<Rightarrow> 's::comm_ring_1 blinding_randomness \<Rightarrow> 's list \<times> 's list" where
  "bit_pair bits ix b =
     ((poly_new bits)[0 := - br_beta b, 1 := scalar_of_bool (\<not> ix)], (poly_new bits)[0 := br_beta b, 1 := scalar_of_bool ix])"

lemma bit_polys_eq: "1 \<le> bits \<Longrightarrow> bit_polys bits ix b = Ok (bit_pair bits ix b)"
  by (simp add: bit_polys_def bit_pair_def poly_set2_def poly_degree_def poly_new_def require_def)

lemma bit_pair_linear:
  assumes "1 \<le> bits"
  shows "length (if j then snd (bit_pair bits ix b) else fst (bit_pair bits ix b)) = bits + 1"
    and "linear (if j then snd (bit_pair bits ix b) else fst (bit_pair bits ix b)) (fst (factor j ix b)) (snd (factor j ix b))"
proof -
  have "linear ((poly_new bits)[0 := x, 1 := y]) x y" "length ((poly_new bits)[0 := x, 1 := y]) = bits + 1" for x y :: 'a
    using assms by (auto simp: linear_def coef_def poly_new_def nth_list_update nth_Cons')
  then show "length (if j then snd (bit_pair bits ix b) else fst (bit_pair bits ix b)) = bits + 1"
    and "linear (if j then snd (bit_pair bits ix b) else fst (bit_pair bits ix b)) (fst (factor j ix b)) (snd (factor j ix b))"
    by (simp_all add: bit_pair_def factor_def)
qed

lemma prod_list_delta: "prod_list (map (\<lambda>b. scalar_of_bool b) bs) = (scalar_of_bool (\<forall>b \<in> set bs. b) :: 's::comm_ring_1)"
  by (induction bs) (auto simp: scalar_of_bool_def)

text \<open>
  What the prover's polynomials are: one for each index, whose coefficient at the number of bits tells
  whether the index is the voted one, and whose value is the product of the factors.
\<close>

lemma generate_poly_spec:
  assumes "1 \<le> bits" and "length idx = bits" and "length blinding = bits" and "j < 2 ^ bits"
    and "collect (map2 (bit_polys bits) idx blinding) = (Ok polys :: ('e, _) outcome)"
  defines "js \<equiv> map (\<lambda>i. odd (j div 2 ^ i)) (rev [0..<bits])"
  shows "\<exists>p. generate_poly bits polys j = (Ok p :: ('e, _) outcome) \<and> bits < length p
    \<and> coef p bits = scalar_of_bool (js = idx)
    \<and> (\<forall>x. value_upto p bits x = prod_list (map (\<lambda>k. fst (factor (js ! k) (idx ! k) (blinding ! k)) + snd (factor (js ! k) (idx ! k) (blinding ! k)) * x) [0..<bits]))"
proof -
  let ?zs = "bit_pair bits"
  have polys: "polys = map2 ?zs idx blinding"
  proof -
    have "collect (map2 (bit_polys bits) idx blinding) = (Ok (map2 ?zs idx blinding) :: ('e, _) outcome)"
      by (rule collect_Ok) (auto simp: bit_polys_eq [OF assms(1)])
    then show ?thesis using assms(5) by simp
  qed
  let ?q = "\<lambda>k. if js ! k then snd (?zs (idx ! k) (blinding ! k)) else fst (?zs (idx ! k) (blinding ! k))"
  let ?f = "\<lambda>k. factor (js ! k) (idx ! k) (blinding ! k)"
  have js: "length js = bits" by (simp add: js_def)
  have chosen: "map2 (\<lambda>b (z0, z1). if b then z1 else z0) js polys = map ?q [0..<bits]"
    unfolding polys using js assms(2,3) by (intro nth_equalityI) (auto simp: case_prod_beta)
  obtain m where bits: "bits = Suc m" using assms(1) by (cases bits) auto
  have ups: "[0..<bits] = 0 # map Suc [0..<m]" unfolding bits by (simp add: map_Suc_upt upt_conv_Cons)
  obtain p where p: "poly_product (?q 0) (map ?q (map Suc [0..<m])) = (Ok p :: ('e, _) outcome)" "bits < length p"
    "coef p bits = prod_list (map (\<lambda>k. snd (?f k)) [0..<bits])"
    "\<And>x. value_upto p bits x = prod_list (map (\<lambda>k. fst (?f k) + snd (?f k) * x) [0..<bits])"
    using factors_product [of ?q "\<lambda>k. fst (?f k)" "\<lambda>k. snd (?f k)" m, where 'e = 'e, OF bit_pair_linear(2) [OF assms(1)]]
    unfolding bits [symmetric] ups [symmetric] by blast
  note p(4)
  moreover have "coef p bits = scalar_of_bool (js = idx)"
  proof -
    note p(3)
    also have "map (\<lambda>k. snd (?f k)) [0..<bits] = map scalar_of_bool (map (\<lambda>k. js ! k = idx ! k) [0..<bits])"
      by (auto simp: factor_def)
    also have "prod_list \<dots> = scalar_of_bool (js = idx)"
    proof -
      have "(\<forall>c \<in> set (map (\<lambda>k. js ! k = idx ! k) [0..<bits]). c) \<longleftrightarrow> (\<forall>k < bits. js ! k = idx ! k)" by auto
      also have "\<dots> \<longleftrightarrow> js = idx" using js assms(2) by (simp add: list_eq_iff_nth_eq)
      finally show ?thesis unfolding prod_list_delta by simp
    qed
    finally show ?thesis .
  qed
  moreover have "generate_poly bits polys j = (Ok p :: ('e, _) outcome)"
    using chosen p(1) unfolding ups by (simp add: generate_poly_def binrep_eq [OF assms(4)] js_def [symmetric])
  ultimately show ?thesis using p(2) by blast
qed

lemma collect_ex:
  "(\<And>x. x \<in> set xs \<Longrightarrow> \<exists>y. f x = Ok y \<and> P x y) \<Longrightarrow> \<exists>ys. collect (map f xs) = Ok ys \<and> list_all2 P xs ys"
proof (induction xs)
  case (Cons x xs)
  then obtain y ys where "f x = Ok y" "P x y" "collect (map f xs) = Ok ys" "list_all2 P xs ys" by fastforce
  then show ?case by auto
qed simp

lemma generate_polys_spec:
  assumes "1 \<le> bits" and "length idx = bits" and "length blinding = bits"
  shows "\<exists>pjs. generate_polys (2 ^ bits) idx bits blinding = (Ok pjs :: ('e, _) outcome) \<and> length pjs = 2 ^ bits
    \<and> (\<forall>j < 2 ^ bits. bits < length (pjs ! j)
        \<and> coef (pjs ! j) bits = scalar_of_bool (map (\<lambda>i. odd (j div 2 ^ i)) (rev [0..<bits]) = idx)
        \<and> (\<forall>x. value_upto (pjs ! j) bits x = prod_list (map (\<lambda>k.
            fst (factor (map (\<lambda>i. odd (j div 2 ^ i)) (rev [0..<bits]) ! k) (idx ! k) (blinding ! k))
            + snd (factor (map (\<lambda>i. odd (j div 2 ^ i)) (rev [0..<bits]) ! k) (idx ! k) (blinding ! k)) * x) [0..<bits])))"
proof -
  have ok: "collect (map2 (bit_polys bits) idx blinding) = (Ok (map2 (bit_pair bits) idx blinding) :: ('e, _) outcome)"
    by (rule collect_Ok) (auto simp: bit_polys_eq [OF assms(1)])
  note spec = generate_poly_spec [OF assms _ ok]
  have "\<exists>pjs. collect (map (generate_poly bits (map2 (bit_pair bits) idx blinding)) [0..<2 ^ bits]) = (Ok pjs :: ('e, _) outcome)
      \<and> list_all2 (\<lambda>j p. bits < length p
        \<and> coef p bits = scalar_of_bool (map (\<lambda>i. odd (j div 2 ^ i)) (rev [0..<bits]) = idx)
        \<and> (\<forall>x. value_upto p bits x = prod_list (map (\<lambda>k.
            fst (factor (map (\<lambda>i. odd (j div 2 ^ i)) (rev [0..<bits]) ! k) (idx ! k) (blinding ! k))
            + snd (factor (map (\<lambda>i. odd (j div 2 ^ i)) (rev [0..<bits]) ! k) (idx ! k) (blinding ! k)) * x) [0..<bits]))) [0..<2 ^ bits] pjs"
    by (rule collect_ex, rule spec) simp
  then show ?thesis unfolding generate_polys_def ok by (fastforce simp: list_all2_conv_all_nth)
qed

lemma coefficient_sum_eq:
  assumes "\<forall>p \<in> set pjs. i < length p"
  shows "coefficient_sum cy pjs i = Ok (\<Sum>j < length pjs. cy ^ j * coef (pjs ! j) i)"
proof -
  have fold: "foldl (\<lambda>acc (c, d). acc + c * d) a ys = a + (\<Sum>(c, d) \<leftarrow> ys. c * d)" for a and ys :: "('a \<times> 'a) list"
    by (induction ys arbitrary: a) (auto simp: add.assoc)
  have ok: "collect (map (\<lambda>pj. poly_coefficient_at pj i) pjs) = Ok (map (\<lambda>pj. coef pj i) pjs)"
    using assms by (intro collect_Ok) (auto simp: poly_coefficient_at_def coef_def)
  have "zip (exp_iter cy (length pjs)) (map (\<lambda>pj. coef pj i) pjs) = map (\<lambda>j. (cy ^ j, coef (pjs ! j) i)) [0..<length pjs]"
    by (rule nth_equalityI) (simp_all add: exp_iter_eq)
  then show ?thesis unfolding coefficient_sum_def ok by (simp add: fold comp_def interv_sum_list_conv_sum_set_nat lessThan_atLeast0)
qed

section \<open>The verifier's equations\<close>

lemma scale_sum: "curve_ok V \<Longrightarrow> cv_scale V a (\<Sum>i \<in> A. f i) = (\<Sum>i \<in> A. cv_scale V a (f i))"
  by (induction A rule: infinite_finite_induct) (simp_all add: scale_simps)

lemma bit_check_complete:
  assumes "curve_ok V"
  shows "bit_check V h cx batch (gen_response b cx ix) (gen_and_commit V h ix b) = Ok True"
  using assms
  by (cases ix) (simp_all add: bit_check_def multiscalar_eq gen_response_def gen_and_commit_def commit_bool_def commit_with_random_def
      Let_def scalar_of_bool_def scale_simps algebra_simps)

lemma bit_checks_complete:
  "curve_ok V \<Longrightarrow> length idx = length blinding \<Longrightarrow>
   bit_checks V h cx batch (zip (map2 (\<lambda>b index. gen_response b cx index) blinding idx) (map2 (gen_and_commit V h) idx blinding)) = Ok True"
proof (induction idx arbitrary: blinding)
  case (Cons ix idx)
  then show ?case by (cases blinding) (simp_all add: bit_check_complete)
qed simp

lemma response_factor: "(if j then rr_z (gen_response b cx ix) else cx - rr_z (gen_response b cx ix)) = fst (factor j ix b) + snd (factor j ix b) * cx"
  by (cases ix) (simp_all add: gen_response_def factor_def Let_def scalar_of_bool_def)

lemma powers_z_eq:
  assumes "length idx = bits" and "length blinding = bits" and "j < 2 ^ bits"
  defines "js \<equiv> map (\<lambda>i. odd (j div 2 ^ i)) (rev [0..<bits])"
  shows "powers_z_encs (map2 (\<lambda>b index. gen_response b cx index) blinding idx) cx j bits
    = Ok (prod_list (map (\<lambda>k. fst (factor (js ! k) (idx ! k) (blinding ! k)) + snd (factor (js ! k) (idx ! k) (blinding ! k)) * cx) [0..<bits]))"
proof -
  let ?zs = "map2 (\<lambda>b index. gen_response b cx index) blinding idx"
  have fold: "foldl (\<lambda>acc (zwv, b). acc * (if b then rr_z zwv else cx - rr_z zwv)) a ys
      = a * prod_list (map (\<lambda>(zwv, b). if b then rr_z zwv else cx - rr_z zwv) ys)" for a and ys :: "('a response_randomness \<times> bool) list"
    by (induction ys arbitrary: a) (auto simp: mult.assoc)
  have "map (\<lambda>(zwv, b). if b then rr_z zwv else cx - rr_z zwv) (zip ?zs js)
      = map (\<lambda>k. fst (factor (js ! k) (idx ! k) (blinding ! k)) + snd (factor (js ! k) (idx ! k) (blinding ! k)) * cx) [0..<bits]"
    using assms(1,2) by (intro nth_equalityI) (simp_all add: js_def response_factor)
  then show ?thesis using assms(1,2) unfolding powers_z_encs_def binrep_eq [OF assms(3)] js_def [symmetric]
    by (simp add: fold require_def) (simp add: js_def)
qed

text \<open>A multiscalar sum over two lists of the same indices.\<close>

lemma zip_sum:
  "(\<Sum>(s, p) \<leftarrow> zip (map f [0..<n]) (map h [0..<n]). cv_scale V p s) = (\<Sum>i < n. cv_scale V (h i) (f i))"
  by (simp add: zip_map_map zip_same_conv_map comp_def interv_sum_list_conv_sum_set_nat lessThan_atLeast0)

lemma encrypt_both:
  "curve_ok V \<Longrightarrow> ct_e1 (encrypt_with_r V pk m r) + ct_e2 (encrypt_with_r V pk m r)
    = cv_scale V (cv_generator V) m + cv_scale V (cv_generator V + pk) r"
  by (simp add: encrypt_with_r_def encrypt_point_with_r_def scale_simps)

text \<open>
  The verifier adds up the two components of every ciphertext, so its equation is one between the sums: a
  message part on the generator and a randomness part on the generator plus the key.
\<close>

lemma both_sum:
  assumes "curve_ok V" and "\<And>i. i < n \<Longrightarrow> e1 i + e2 i = cv_scale V g (m i) + cv_scale V k (r i)"
  shows "(\<Sum>i < n. cv_scale V (e1 i) (w i)) + (\<Sum>i < n. cv_scale V (e2 i) (w i))
    = cv_scale V g (\<Sum>i < n. m i * w i) + cv_scale V k (\<Sum>i < n. r i * w i)"
proof -
  have "cv_scale V (e1 i) (w i) + cv_scale V (e2 i) (w i) = cv_scale V g (m i * w i) + cv_scale V k (r i * w i)" if "i < n" for i
    using assms(2) [OF that] scale_laws(1) [OF assms(1), of "e1 i" "e2 i" "w i"] by (simp add: scale_simps assms(1))
  then have "(\<Sum>i < n. cv_scale V (e1 i) (w i) + cv_scale V (e2 i) (w i)) = (\<Sum>i < n. cv_scale V g (m i * w i) + cv_scale V k (r i * w i))"
    by (intro sum.cong) auto
  then show ?thesis by (simp add: sum.distrib scale_sum assms(1))
qed

lemma message_part:
  fixes x y :: "'s::comm_ring_1"
  assumes "\<And>j. j < n \<Longrightarrow> value_upto (p j) bits x = z j" and "\<And>j. j < n \<Longrightarrow> coef (p j) bits = d j"
  shows "(\<Sum>j < n. d j * (y ^ j * x ^ bits)) - (\<Sum>j < n. z j * y ^ j) + (\<Sum>i < bits. (\<Sum>j < n. y ^ j * coef (p j) i) * x ^ i) = 0"
proof -
  have "(\<Sum>i < bits. (\<Sum>j < n. y ^ j * coef (p j) i) * x ^ i) = (\<Sum>j < n. \<Sum>i < bits. y ^ j * coef (p j) i * x ^ i)"
    by (simp add: sum_distrib_right) (rule sum.swap)
  moreover have "(\<Sum>i < bits. y ^ j * coef (p j) i * x ^ i) = z j * y ^ j - d j * (y ^ j * x ^ bits)" if "j < n" for j
  proof -
    have "z j = (\<Sum>i < bits. coef (p j) i * x ^ i) + d j * x ^ bits"
      using assms [OF that] by (simp add: value_upto_def lessThan_Suc_atMost [symmetric])
    moreover have "(\<Sum>i < bits. y ^ j * coef (p j) i * x ^ i) = y ^ j * (\<Sum>i < bits. coef (p j) i * x ^ i)"
      by (simp add: sum_distrib_left mult.assoc)
    ultimately show ?thesis by (simp add: algebra_simps)
  qed
  ultimately show ?thesis by (simp add: sum_subtractf)
qed

lemma mega_sum:
  assumes ok: "curve_ok V" and len: "length cs = n" "length ds = bits"
    and cs: "\<And>j. j < n \<Longrightarrow> ct_e1 (cs ! j) + ct_e2 (cs ! j) = cv_scale V (cv_generator V) (d j) + cv_scale V (cv_generator V + pk) (r j)"
    and ds: "\<And>i. i < bits \<Longrightarrow> ds ! i = encrypt_with_r V pk (\<Sum>j < n. y ^ j * coef (p j) i) (rs ! i)"
    and z: "\<And>j. j < n \<Longrightarrow> value_upto (p j) bits x = z j" and d: "\<And>j. j < n \<Longrightarrow> coef (p j) bits = d j"
    and R: "R = (\<Sum>j < n. r j * (y ^ j * x ^ bits)) + (\<Sum>i < bits. rs ! i * x ^ i)"
  shows "multiscalar V
      (map (\<lambda>s. s * x ^ bits) (exp_iter y n) @ map (\<lambda>s. s * x ^ bits) (exp_iter y n) @ exp_iter y n @ exp_iter x bits @ exp_iter x bits @ [- 1] @ [- 1])
      (map ct_e2 cs @ map ct_e1 cs @ map (\<lambda>z. cv_scale V (cv_generator V) (- z)) (map z [0..<n]) @ map ct_e1 ds @ map ct_e2 ds
        @ [ct_e1 (encrypt_with_r V pk 0 R)] @ [ct_e2 (encrypt_with_r V pk 0 R)]) = (Ok 0 :: ('e, _) outcome)"
proof -
  let ?g = "cv_generator V" and ?k = "cv_generator V + pk"
  have lists: "map ct_e1 cs = map (\<lambda>j. ct_e1 (cs ! j)) [0..<n]" "map ct_e2 cs = map (\<lambda>j. ct_e2 (cs ! j)) [0..<n]"
    "map ct_e1 ds = map (\<lambda>i. ct_e1 (ds ! i)) [0..<bits]" "map ct_e2 ds = map (\<lambda>i. ct_e2 (ds ! i)) [0..<bits]"
    using len by (auto intro!: nth_equalityI)
  have A: "(\<Sum>j < n. cv_scale V (ct_e1 (cs ! j)) (y ^ j * x ^ bits)) + (\<Sum>j < n. cv_scale V (ct_e2 (cs ! j)) (y ^ j * x ^ bits))
      = cv_scale V ?g (\<Sum>j < n. d j * (y ^ j * x ^ bits)) + cv_scale V ?k (\<Sum>j < n. r j * (y ^ j * x ^ bits))"
    by (rule both_sum [OF ok cs])
  have B: "(\<Sum>j < n. cv_scale V (cv_scale V ?g (- z j)) (y ^ j)) = - cv_scale V ?g (\<Sum>j < n. z j * y ^ j)"
    by (simp add: scale_simps ok scale_sum sum_negf)
  have "ct_e1 (ds ! i) + ct_e2 (ds ! i) = cv_scale V ?g (\<Sum>j < n. y ^ j * coef (p j) i) + cv_scale V ?k (rs ! i)" if "i < bits" for i
    unfolding ds [OF that] by (rule encrypt_both [OF ok])
  then have C: "(\<Sum>i < bits. cv_scale V (ct_e1 (ds ! i)) (x ^ i)) + (\<Sum>i < bits. cv_scale V (ct_e2 (ds ! i)) (x ^ i))
      = cv_scale V ?g (\<Sum>i < bits. (\<Sum>j < n. y ^ j * coef (p j) i) * x ^ i) + cv_scale V ?k (\<Sum>i < bits. rs ! i * x ^ i)"
    by (rule both_sum [OF ok])
  have D: "cv_scale V (ct_e1 (encrypt_with_r V pk 0 R)) (- 1) + cv_scale V (ct_e2 (encrypt_with_r V pk 0 R)) (- 1) = - cv_scale V ?k R"
    by (simp add: encrypt_with_r_def encrypt_point_with_r_def scale_simps ok)
  let ?a = "\<Sum>j < n. d j * (y ^ j * x ^ bits)" and ?b = "\<Sum>j < n. z j * y ^ j" and ?c = "\<Sum>i < bits. (\<Sum>j < n. y ^ j * coef (p j) i) * x ^ i"
  have zero: "?a - ?b + ?c = 0" by (rule message_part [OF z d])
  have "cv_scale V ?g ?a - cv_scale V ?g ?b + cv_scale V ?g ?c = cv_scale V ?g (?a - ?b + ?c)"
    by (simp only: scale_minus(3) [OF ok] scale_laws(2) [OF ok])
  then have G: "cv_scale V ?g ?a - cv_scale V ?g ?b + cv_scale V ?g ?c = 0" unfolding zero by (simp only: scale_zero [OF ok])
  have K: "cv_scale V ?k R = cv_scale V ?k (\<Sum>j < n. r j * (y ^ j * x ^ bits)) + cv_scale V ?k (\<Sum>i < bits. rs ! i * x ^ i)"
    unfolding R by (rule scale_laws(2) [OF ok])
  let ?A1 = "\<Sum>j < n. cv_scale V (ct_e1 (cs ! j)) (y ^ j * x ^ bits)" and ?A2 = "\<Sum>j < n. cv_scale V (ct_e2 (cs ! j)) (y ^ j * x ^ bits)"
    and ?B = "\<Sum>j < n. cv_scale V (cv_scale V ?g (- z j)) (y ^ j)"
    and ?C1 = "\<Sum>i < bits. cv_scale V (ct_e1 (ds ! i)) (x ^ i)" and ?C2 = "\<Sum>i < bits. cv_scale V (ct_e2 (ds ! i)) (x ^ i)"
    and ?D1 = "cv_scale V (ct_e1 (encrypt_with_r V pk 0 R)) (- 1)" and ?D2 = "cv_scale V (ct_e2 (encrypt_with_r V pk 0 R)) (- 1)"
  have "multiscalar V
      (map (\<lambda>s. s * x ^ bits) (exp_iter y n) @ map (\<lambda>s. s * x ^ bits) (exp_iter y n) @ exp_iter y n @ exp_iter x bits @ exp_iter x bits @ [- 1] @ [- 1])
      (map ct_e2 cs @ map ct_e1 cs @ map (\<lambda>z. cv_scale V (cv_generator V) (- z)) (map z [0..<n]) @ map ct_e1 ds @ map ct_e2 ds
        @ [ct_e1 (encrypt_with_r V pk 0 R)] @ [ct_e2 (encrypt_with_r V pk 0 R)]) = (Ok (?A2 + (?A1 + (?B + (?C1 + (?C2 + (?D1 + ?D2)))))) :: ('e, _) outcome)"
    unfolding lists exp_iter_eq map_map comp_def multiscalar_eq by (simp add: zip_sum)
  also have "?A2 + (?A1 + (?B + (?C1 + (?C2 + (?D1 + ?D2))))) = (?A1 + ?A2) + ?B + (?C1 + ?C2) + (?D1 + ?D2)" by (simp only: ac_simps)
  also have "\<dots> = cv_scale V ?g ?a - cv_scale V ?g ?b + cv_scale V ?g ?c" unfolding A B C D K by simp
  also have "\<dots> = 0" by (rule G)
  finally show ?thesis .
qed

section \<open>The proof of an honest voter\<close>

lemma foldl_plus_left: "foldl (\<lambda>acc (a, b). F a b + acc) s ys = s + (\<Sum>(a, b) \<leftarrow> ys. (F a b :: 's::comm_ring_1))"
  by (induction ys arbitrary: s) (auto simp: algebra_simps)

lemma fold_powers:
  assumes "length as = n"
  shows "foldl (\<lambda>acc (r, y). r * c * y + acc) 0 (zip as (exp_iter y n)) = (\<Sum>j < n. as ! j * (y ^ j * (c :: 's::comm_ring_1)))"
    and "foldl (\<lambda>acc (r, y). r * y + acc) 0 (zip as (exp_iter y n)) = (\<Sum>j < n. as ! j * (y :: 's) ^ j)"
proof -
  have zip: "zip as (exp_iter y n) = map (\<lambda>j. (as ! j, y ^ j)) [0..<n]"
    using assms by (intro nth_equalityI) (simp_all add: exp_iter_eq)
  show "foldl (\<lambda>acc (r, y). r * c * y + acc) 0 (zip as (exp_iter y n)) = (\<Sum>j < n. as ! j * (y ^ j * c))"
    unfolding zip foldl_plus_left by (simp add: comp_def interv_sum_list_conv_sum_set_nat lessThan_atLeast0 mult.assoc mult.commute mult.left_commute)
  show "foldl (\<lambda>acc (r, y). r * y + acc) 0 (zip as (exp_iter y n)) = (\<Sum>j < n. as ! j * y ^ j)"
    unfolding zip foldl_plus_left by (simp add: comp_def interv_sum_list_conv_sum_set_nat lessThan_atLeast0)
qed

lemma ptp_nth: "j < next_power_of_two (length xs) \<Longrightarrow> ptp_elements (ptp_new xs a) ! j = (if j < length xs then xs ! j else a)"
  by (auto simp: ptp_new_def nth_append)

lemma same_bits:
  "j < 2 ^ bits \<Longrightarrow> i < 2 ^ bits \<Longrightarrow> (map (\<lambda>k. odd (j div 2 ^ k)) (rev [0..<bits]) = map (\<lambda>k. odd (i div 2 ^ k)) (rev [0..<bits])) = (j = (i :: nat))"
  using bits_inj [of bits j i] by (auto simp: map_eq_conv)

lemma unit_zkp_complete:
  assumes ok: "curve_ok V" and n: "2 \<le> n" and i: "i < n" and len: "length rand = n" "length cs = n"
    and bits: "length blinding = bit_len (n - 1)" "length rs = bit_len (n - 1)"
    and cs: "\<And>j. j < n \<Longrightarrow> ct_e1 (cs ! j) + ct_e2 (cs ! j)
      = cv_scale V (cv_generator V) (scalar_of_bool (j = i)) + cv_scale V (cv_generator V + pk) (rand ! j)"
  shows "\<exists>p. unit_zkp_generate V crs pk \<lparr>uv_ith = i, uv_size = n\<rparr> rand cs blinding rs = (Ok p :: ('e, _) outcome)
    \<and> unit_zkp_verify V p crs pk cs batch = (Ok True :: ('e, _) outcome)"
proof -
  define b where "b = bit_len (n - 1)"
  define idx where "idx = map (\<lambda>k. odd (i div 2 ^ k)) (rev [0..<b])"
  define ciphers where "ciphers = ptp_elements (ptp_new cs ct_zero)"
  define rands where "rands = ptp_elements (ptp_new rand 0)"
  have N: "next_power_of_two n = 2 ^ b" by (simp add: next_power_of_two_def b_def)
  have i2: "i < 2 ^ b" using i next_power_bound [of n] N by simp
  have b1: "1 \<le> b" using bit_len_pos [OF n] by (simp add: b_def)
  have lens: "length ciphers = 2 ^ b" "length rands = 2 ^ b" "length idx = b" "length blinding = b" "length rs = b"
    using len bits by (simp_all add: ciphers_def rands_def ptp_length N idx_def b_def)
  have pbits: "ptp_bits (ptp_new cs ct_zero) = (Ok b :: ('e, _) outcome)" "ptp_bits (ptp_new rand 0) = (Ok b :: ('e, _) outcome)"
    by (simp_all add: ptp_bits_eq len b_def)
  let ?js = "\<lambda>j. map (\<lambda>k. odd (j div 2 ^ k)) (rev [0..<b])"
  let ?f = "\<lambda>j k. factor (?js j ! k) (idx ! k) (blinding ! k)"
  let ?z = "\<lambda>x j. prod_list (map (\<lambda>k. fst (?f j k) + snd (?f j k) * x) [0..<b])"
  have same: "(?js j = idx) = (j = i)" if "j < 2 ^ b" for j unfolding idx_def by (rule same_bits [OF that i2])
  obtain pjs where pjs: "generate_polys (2 ^ b) idx b blinding = (Ok pjs :: ('e, _) outcome)" "length pjs = 2 ^ b"
    "\<And>j. j < 2 ^ b \<Longrightarrow> b < length (pjs ! j)" "\<And>j. j < 2 ^ b \<Longrightarrow> coef (pjs ! j) b = scalar_of_bool (j = i)"
    "\<And>j x. j < 2 ^ b \<Longrightarrow> value_upto (pjs ! j) b x = ?z x j"
    using generate_polys_spec [OF b1 lens(3,4), where 'e = 'e] by (auto simp: same simp del: map_eq_conv)
  let ?ibas = "map2 (gen_and_commit V crs) idx blinding"
  let ?ctx = "challenge_context V crs pk ciphers"
  let ?cy = "first_challenge V ?ctx ?ibas"
  let ?S = "\<lambda>i. \<Sum>j < 2 ^ b. ?cy ^ j * coef (pjs ! j) i"
  have "\<forall>p \<in> set pjs. k < length p" if "k < b" for k
    using pjs(2,3) that by (auto simp: in_set_conv_nth) (metis order.strict_trans)
  then have sums: "collect (map (coefficient_sum ?cy pjs) [0..<b]) = (Ok (map ?S [0..<b]) :: ('e, _) outcome)"
    by (intro collect_Ok) (simp add: coefficient_sum_eq pjs(2))
  let ?ds = "map2 (encrypt_with_r V pk) (map ?S [0..<b]) rs"
  let ?cx = "second_challenge V ?ctx ?ibas ?ds"
  let ?zwvs = "map2 (\<lambda>b index. gen_response b ?cx index) blinding idx"
  let ?R = "(\<Sum>j < 2 ^ b. rands ! j * (?cy ^ j * ?cx ^ b)) + (\<Sum>k < b. rs ! k * ?cx ^ k)"
  let ?p = "\<lparr>uz_ibas = ?ibas, uz_ds = ?ds, uz_zwvs = ?zwvs, uz_r = ?R\<rparr>"
  have gen: "unit_zkp_generate V crs pk \<lparr>uv_ith = i, uv_size = n\<rparr> rand cs blinding rs = (Ok ?p :: ('e, _) outcome)"
    unfolding unit_zkp_generate_def Let_def pbits ciphers_def [symmetric] rands_def [symmetric]
    using lens i2 by (simp add: require_def binrep_eq idx_def [symmetric] pjs(1) sums scalar_power_eq fold_powers)
  have zs: "collect (map (\<lambda>j. powers_z_encs ?zwvs ?cx j b) [0..<2 ^ b]) = (Ok (map (?z ?cx) [0..<2 ^ b]) :: ('e, _) outcome)"
    using lens by (intro collect_Ok) (simp add: powers_z_eq)
  have both: "ct_e1 (ciphers ! j) + ct_e2 (ciphers ! j)
      = cv_scale V (cv_generator V) (scalar_of_bool (j = i)) + cv_scale V (cv_generator V + pk) (rands ! j)" if "j < 2 ^ b" for j
    using cs [of j] that i ok
    by (cases "j < n") (auto simp: ciphers_def rands_def ptp_nth len N ct_zero_def scalar_of_bool_def scale_simps)
  have ds: "?ds ! k = encrypt_with_r V pk (?S k) (rs ! k)" if "k < b" for k using that lens by simp
  have "mega_check V ?p pk ciphers b ?cx ?cy = (Ok True :: ('e, _) outcome)"
    unfolding mega_check_def Let_def
    using zs lens mega_sum [OF ok lens(1) _ both ds pjs(5) pjs(4) refl, where 'e = 'e]
    by (simp add: scalar_power_eq del: map_map)
  moreover have "bit_checks V crs ?cx batch (zip ?zwvs ?ibas) = (Ok True :: ('e, _) outcome)"
    by (rule bit_checks_complete [OF ok]) (simp add: lens)
  ultimately have "unit_zkp_verify V ?p crs pk cs batch = (Ok True :: ('e, _) outcome)"
    unfolding unit_zkp_verify_def Let_def pbits ciphers_def [symmetric] using lens by simp
  then show ?thesis using gen by blast
qed

lemma unit_vector_nth: "j < uv_size v \<Longrightarrow> unit_vector_iter v ! j = (j = uv_ith v)"
  by (simp add: unit_vector_iter_def)

text \<open>The ciphertexts of an honest vote, entry by entry.\<close>

definition vote_ciphers :: "('s::comm_ring_1, 'g::ab_group_add) curve \<Rightarrow> 'g \<Rightarrow> unit_vector \<Rightarrow> 's list \<Rightarrow> 'g ciphertext list" where
  "vote_ciphers V pk v rand = map2 (\<lambda>r b. encrypt_with_r V pk (scalar_of_bool b) r) rand (unit_vector_iter v)"

lemma vote_ciphers_nth:
  "length rand = uv_size v \<Longrightarrow> j < uv_size v \<Longrightarrow> vote_ciphers V pk v rand ! j = encrypt_with_r V pk (scalar_of_bool (j = uv_ith v)) (rand ! j)"
  by (simp add: vote_ciphers_def unit_vector_iter_def)

lemma vote_ciphers_length: "length rand = uv_size v \<Longrightarrow> length (vote_ciphers V pk v rand) = uv_size v"
  by (simp add: vote_ciphers_def unit_vector_iter_def)

lemma one_option_panics: "unit_zkp_generate V crs pk \<lparr>uv_ith = 0, uv_size = Suc 0\<rparr> [r] [c] blinding rs = Panic"
proof -
  have "bit_len 0 = 0" by (subst bit_len.simps) simp
  then have ptp: "ptp_bits (ptp_new [x] a) = Ok 0" "ptp_elements (ptp_new [x] a) = [x]" for x a :: 'z
    using ptp_bits_eq [of "[x]" a] by (simp_all, simp add: ptp_new_def next_power_of_two_def)
  show ?thesis
    unfolding unit_zkp_generate_def Let_def ptp by (simp add: require_def binrep_def generate_polys_def generate_poly_def)
qed

text \<open>
  C11. An honest vote for one of two or more options is accepted with its proof; with one option, the prover
  panics before it returns anything.
\<close>

theorem honest_vote_accepted:
  assumes "curve_ok V" and "1 \<le> n" and "choice < n"
    and "length blinding = bit_len (n - 1)" and "length rs = bit_len (n - 1)"
  shows "if n = 1 then encrypt_and_prove_vote V pk crs \<lparr>uv_ith = choice, uv_size = n\<rparr> r blinding rs = (Panic :: (unit, _) outcome)
    else \<exists>c p. encrypt_and_prove_vote V pk crs \<lparr>uv_ith = choice, uv_size = n\<rparr> r blinding rs = (Ok (c, p) :: (unit, _) outcome)
      \<and> length c = n \<and> (\<forall>j < n. c ! j = encrypt_with_r V pk (if j = choice then 1 else 0) r)
      \<and> try_from_vote_and_proof V c p crs pk batch = Ok \<lparr>bl_vote = c, bl_fingerprint = election_fingerprint V pk crs\<rparr>"
proof (cases "n = 1")
  case True
  then show ?thesis using assms(3) by (simp add: encrypt_and_prove_vote_def Let_def unit_vector_iter_def one_option_panics)
next
  case False
  let ?v = "\<lparr>uv_ith = choice, uv_size = n\<rparr>" and ?rand = "replicate n r"
  let ?c = "vote_ciphers V pk ?v ?rand"
  have nth: "?c ! j = encrypt_with_r V pk (scalar_of_bool (j = choice)) r" if "j < n" for j
    using vote_ciphers_nth [of ?rand ?v j V pk] that by simp
  obtain p where p: "unit_zkp_generate V crs pk ?v ?rand ?c blinding rs = (Ok p :: (unit, _) outcome)"
      "unit_zkp_verify V p crs pk ?c batch = (Ok True :: (unit, _) outcome)"
    using unit_zkp_complete [OF assms(1) _ assms(3) _ _ assms(4,5), of ?rand ?c pk crs batch, where 'e = unit] False assms(2)
      vote_ciphers_length [of ?rand ?v V pk] nth encrypt_both [OF assms(1)] by fastforce
  have "encrypt_and_prove_vote V pk crs ?v r blinding rs = (Ok (?c, p) :: (unit, _) outcome)"
    using p(1) by (simp add: encrypt_and_prove_vote_def vote_ciphers_def)
  moreover have "try_from_vote_and_proof V ?c p crs pk batch = Ok \<lparr>bl_vote = ?c, bl_fingerprint = election_fingerprint V pk crs\<rparr>"
    using p(2) by (simp add: try_from_vote_and_proof_def)
  ultimately show ?thesis using False nth vote_ciphers_length [of ?rand ?v V pk] by (auto simp: scalar_of_bool_def)
qed

lemma bit_len_1: "bit_len (Suc 0) = Suc 0"
  by (simp add: bit_len.simps)

theorem honest_vote_accepted_witness:
  "\<exists>c p. encrypt_and_prove_vote sample_curve 7 5 \<lparr>uv_ith = 1, uv_size = 2\<rparr> 11 [\<lparr>br_alpha = 2, br_beta = 3, br_gamma = 4, br_delta = 6\<rparr>] [9]
      = (Ok (c, p) :: (unit, _) outcome)
    \<and> length c = 2 \<and> (\<forall>j < 2. c ! j = encrypt_with_r sample_curve 7 (if j = 1 then 1 else 0) 11)
    \<and> try_from_vote_and_proof sample_curve c p 5 7 13 = Ok \<lparr>bl_vote = c, bl_fingerprint = election_fingerprint sample_curve 7 5\<rparr>"
proof -
  show ?thesis
    using honest_vote_accepted [OF sample_curve_ok, of 2 1 "[\<lparr>br_alpha = 2, br_beta = 3, br_gamma = 4, br_delta = 6\<rparr>]" "[9]" 7 5 11 13]
    by (simp add: bit_len_1)
qed

section \<open>What the proof does not show\<close>

text \<open>Moving a part of one component of a ciphertext to the other.\<close>

definition shift_ct :: "'g::ab_group_add \<Rightarrow> 'g ciphertext \<Rightarrow> 'g ciphertext" where
  "shift_ct t c = \<lparr>ct_e1 = ct_e1 c + t, ct_e2 = ct_e2 c - t\<rparr>"

lemma decrypt_shift:
  "curve_ok V \<Longrightarrow> decrypt_point V sk (shift_ct t c) = decrypt_point V sk c - cv_scale V t (1 + sk)"
  by (simp add: decrypt_point_def shift_ct_def scale_simps algebra_simps)

text \<open>
  C36. The verifier's last equation adds the equation on the first components to the one on the second, with the
  same weights. A voter who moves a part of one component to the other keeps the sum, and the same proof
  generator gives an accepted proof; what the ciphertext decrypts to has changed.
\<close>

theorem shifted_vote_accepted:
  assumes "curve_ok V" and "2 \<le> n" and "choice < n" and "length shifts = n" and "length rand = n"
    and "length blinding = bit_len (n - 1)" and "length rs = bit_len (n - 1)" and "pk = key_from_secret V sk"
  shows "\<exists>p c. c = map2 shift_ct shifts (vote_ciphers V pk \<lparr>uv_ith = choice, uv_size = n\<rparr> rand)
    \<and> unit_zkp_generate V crs pk \<lparr>uv_ith = choice, uv_size = n\<rparr> rand c blinding rs = (Ok p :: (unit, _) outcome)
    \<and> try_from_vote_and_proof V c p crs pk batch = Ok \<lparr>bl_vote = c, bl_fingerprint = election_fingerprint V pk crs\<rparr>
    \<and> (\<forall>j < n. decrypt_point V sk (c ! j) = cv_scale V (cv_generator V) (if j = choice then 1 else 0) - cv_scale V (shifts ! j) (1 + sk))"
proof -
  let ?v = "\<lparr>uv_ith = choice, uv_size = n\<rparr>"
  let ?c = "map2 shift_ct shifts (vote_ciphers V pk ?v rand)"
  have nth: "?c ! j = shift_ct (shifts ! j) (encrypt_with_r V pk (scalar_of_bool (j = choice)) (rand ! j))" if "j < n" for j
    using that assms(4,5) by (simp add: vote_ciphers_nth vote_ciphers_length)
  have len: "length ?c = n" using assms(4,5) by (simp add: vote_ciphers_length)
  have both: "ct_e1 (?c ! j) + ct_e2 (?c ! j)
      = cv_scale V (cv_generator V) (scalar_of_bool (j = choice)) + cv_scale V (cv_generator V + pk) (rand ! j)" if "j < n" for j
    using encrypt_both [OF assms(1), of pk "scalar_of_bool (j = choice)" "rand ! j"] unfolding nth [OF that] by (simp add: shift_ct_def)
  obtain p where p: "unit_zkp_generate V crs pk ?v rand ?c blinding rs = (Ok p :: (unit, _) outcome)"
      "unit_zkp_verify V p crs pk ?c batch = (Ok True :: (unit, _) outcome)"
    using unit_zkp_complete [OF assms(1-3) assms(5) len assms(6,7) both, where 'e = unit] by blast
  have "decrypt_point V sk (?c ! j) = cv_scale V (cv_generator V) (if j = choice then 1 else 0) - cv_scale V (shifts ! j) (1 + sk)" if "j < n" for j
    unfolding nth [OF that] decrypt_shift [OF assms(1)] encrypt_with_r_def
    by (simp add: assms(8) decrypt_encrypt [OF assms(1)] scalar_of_bool_def)
  then show ?thesis using p by (auto simp: try_from_vote_and_proof_def)
qed

theorem shifted_vote_accepted_witness:
  "\<exists>p c. try_from_vote_and_proof sample_curve c p 5 4 13 = Ok \<lparr>bl_vote = c, bl_fingerprint = election_fingerprint sample_curve 4 5\<rparr>
    \<and> map (decrypt_point sample_curve 4) c = [101, 0]"
proof -
  have key: "key_from_secret sample_curve 4 = 4" by (simp add: key_from_secret_def sample_curve_def)
  obtain p c where c: "c = map2 shift_ct [- 20, 0] (vote_ciphers sample_curve 4 \<lparr>uv_ith = 0, uv_size = 2\<rparr> [11, 12])"
    "try_from_vote_and_proof sample_curve c p 5 4 13 = Ok \<lparr>bl_vote = c, bl_fingerprint = election_fingerprint sample_curve 4 5\<rparr>"
    "\<forall>j < 2. decrypt_point sample_curve 4 (c ! j) = cv_scale sample_curve (cv_generator sample_curve) (if j = 0 then 1 else 0) - cv_scale sample_curve ([- 20, 0] ! j) (1 + 4)"
    using shifted_vote_accepted [OF sample_curve_ok, of 2 0 "[- 20, 0]" "[11, 12]" "[\<lparr>br_alpha = 2, br_beta = 3, br_gamma = 4, br_delta = 6\<rparr>]" "[9]" 4 4 5 13]
    by (auto simp: bit_len_1 key)
  have "length c = 2" unfolding c(1) by (simp add: vote_ciphers_length)
  then have "map (decrypt_point sample_curve 4) c = [101, 0]"
    using c(3) by (intro nth_equalityI) (auto simp: less_2_cases_iff sample_curve_def)
  with c(2) show ?thesis by (intro exI [of _ p] exI [of _ c] conjI)
qed

lemma filter_upt_eq: "filter (\<lambda>j. j = i) [0..<n] = (if i < n then [i] else [])"
  by (induction n) auto

text \<open>
  C37. The same random scalar encrypts every entry of the vector, so the difference of two entries is in the open:
  without any key, the voted entry is the one that exceeds another by the generator.
\<close>

theorem vote_readable:
  assumes "curve_ok V" and "cv_generator V + cv_generator V \<noteq> 0" and "2 \<le> n" and "choice < n"
    and "encrypt_and_prove_vote V pk crs \<lparr>uv_ith = choice, uv_size = n\<rparr> r blinding rs = (Ok (c, p) :: (unit, _) outcome)"
  shows "filter (\<lambda>j. \<exists>k \<in> {0..<n}. ct_e2 (c ! j) - ct_e2 (c ! k) = cv_generator V) [0..<n] = [choice]"
proof -
  let ?v = "\<lparr>uv_ith = choice, uv_size = n\<rparr>"
  have c: "c = vote_ciphers V pk ?v (replicate n r)"
    using assms(5) by (auto simp: encrypt_and_prove_vote_def vote_ciphers_def Let_def outcome_simps)
  have e2: "ct_e2 (c ! j) = (if j = choice then cv_generator V else 0) + cv_scale V pk r" if "j < n" for j
    using that vote_ciphers_nth [of "replicate n r" ?v j V pk] assms(1)
    by (simp add: c encrypt_with_r_def encrypt_point_with_r_def scalar_of_bool_def scale_simps)
  have g: "cv_generator V \<noteq> 0" "- cv_generator V \<noteq> cv_generator V" using assms(2) by (auto simp: neg_eq_iff_add_eq_0)
  have "(\<exists>k \<in> {0..<n}. ct_e2 (c ! j) - ct_e2 (c ! k) = cv_generator V) \<longleftrightarrow> j = choice" if "j < n" for j
  proof
    assume "\<exists>k \<in> {0..<n}. ct_e2 (c ! j) - ct_e2 (c ! k) = cv_generator V"
    then show "j = choice" using e2 that g by (force split: if_splits)
  next
    assume j: "j = choice"
    obtain k where k: "k < n" "k \<noteq> choice"
      using assms(3) by (cases "choice = 0") (auto intro: that [of 1] that [of 0])
    then have "ct_e2 (c ! j) - ct_e2 (c ! k) = cv_generator V" using e2 [OF that] e2 [OF k(1)] j by simp
    then show "\<exists>k \<in> {0..<n}. ct_e2 (c ! j) - ct_e2 (c ! k) = cv_generator V" using k(1) by auto
  qed
  then have "filter (\<lambda>j. \<exists>k \<in> {0..<n}. ct_e2 (c ! j) - ct_e2 (c ! k) = cv_generator V) [0..<n] = filter (\<lambda>j. j = choice) [0..<n]"
    by (intro filter_cong) auto
  then show ?thesis using filter_upt_eq [of choice n] assms(4) by simp
qed

theorem vote_readable_witness:
  "\<exists>c p. encrypt_and_prove_vote sample_curve 7 5 \<lparr>uv_ith = 1, uv_size = 2\<rparr> 11 [\<lparr>br_alpha = 2, br_beta = 3, br_gamma = 4, br_delta = 6\<rparr>] [9]
      = (Ok (c, p) :: (unit, _) outcome)
    \<and> filter (\<lambda>j. \<exists>k \<in> {0..<2}. ct_e2 (c ! j) - ct_e2 (c ! k) = cv_generator sample_curve) [0..<2] = [1]"
proof -
  let ?b = "[\<lparr>br_alpha = 2, br_beta = 3, br_gamma = 4, br_delta = 6\<rparr>] :: u64 blinding_randomness list"
  let ?v = "\<lparr>uv_ith = 1, uv_size = 2\<rparr>"
  obtain p where p: "unit_zkp_generate sample_curve 5 7 ?v (replicate 2 11) (vote_ciphers sample_curve 7 ?v (replicate 2 11)) ?b [9] = (Ok p :: (unit, _) outcome)"
    using unit_zkp_complete [OF sample_curve_ok, of 2 1 "replicate 2 11" "vote_ciphers sample_curve 7 ?v (replicate 2 11)" ?b "[9]" 7 5 0, where 'e = unit]
    by (auto simp: bit_len_1 vote_ciphers_length vote_ciphers_nth encrypt_both [OF sample_curve_ok])
  have ok: "encrypt_and_prove_vote sample_curve 7 5 ?v 11 ?b [9] = (Ok (vote_ciphers sample_curve 7 ?v (replicate 2 11), p) :: (unit, _) outcome)"
    using p by (simp add: encrypt_and_prove_vote_def vote_ciphers_def)
  have "cv_generator sample_curve + cv_generator sample_curve \<noteq> 0" by (simp add: sample_curve_def)
  then have "filter (\<lambda>j. \<exists>k \<in> {0..<2}. ct_e2 (vote_ciphers sample_curve 7 ?v (replicate 2 11) ! j) - ct_e2 (vote_ciphers sample_curve 7 ?v (replicate 2 11) ! k)
      = cv_generator sample_curve) [0..<2] = [1]"
    using vote_readable [OF sample_curve_ok, of 2 1 7 5 11 ?b "[9]", OF _ _ _ ok] by simp
  then show ?thesis using ok by blast
qed

end
