(* ===== verification/Ledger.thy ===== *)
theory Ledger
  imports Multisig Pools Transaction Settings
begin

text \<open>
  The ledger (\<open>ledger/ledger.rs\<close>, \<open>ledger/check.rs\<close>, \<open>ledger/token_distribution.rs\<close>): the state that a block
  changes, the checks on transactions and certificates, how a transaction moves value between unspent
  outputs, accounts and the fee pot, and what the certificates do. The fields \<open>votes\<close> and \<open>governance\<close> (apart
  from the log of its parameter actions) are not read or written here; theory \<open>Voting\<close> adds them.

  What the sources take from other crates is a parameter: the digest function, the verification of
  signatures, the match between a legacy address and a key, and the hash functions of the tries.
\<close>

section \<open>Parameters and state\<close>

record crypto =
  c_blake :: "u8 list \<Rightarrow> digest"
  c_verify :: verifier
  c_old_match :: "u8 list \<Rightarrow> public_key \<Rightarrow> u8 list \<Rightarrow> bool"
  c_ha :: "acc_identifier hasher"
  c_hd :: "digest hasher"
  c_hl :: "bft_leader_id hasher"

record ledger_static_parameters =
  block0_initial_hash :: digest
  block0_start_time :: u64
  static_discrimination :: discrimination
  kes_update_speed :: u32

record ledger_parameters =
  lp_fees :: linear_fee
  lp_treasury_tax :: tax_type
  lp_reward_params :: reward_parameters
  lp_block_content_max_size :: u32
  lp_epoch_stability_depth :: u32
  lp_fees_goes_to :: fees_goes_to
  lp_committees :: "committee_id list"

datatype governance_action = NoOpAction | RewardAddAction val

record ledger =
  lg_utxos :: utxos
  lg_oldutxos :: "(digest, u8 list) utxo_ledger"
  lg_accounts :: accounts
  lg_settings :: settings
  lg_updates :: update_state
  lg_multisig :: "(digest, digest) ms_ledger"
  lg_delegation :: pools_state
  lg_static :: ledger_static_parameters
  lg_date :: block_date
  lg_chain_length :: u32
  lg_era :: time_era
  lg_pots :: pots
  lg_leaders_log :: leaders_log
  lg_actions :: "governance_action list"
  lg_token_totals :: "(digest, val) hamt"

datatype block0_error =
    InitialMessageDuplicateBlock0Date | InitialMessageDuplicateDiscrimination | InitialMessageMissing | InitialMessageMany
  | InitialMessageNoDate | InitialMessageNoSlotDuration | InitialMessageNoSlotsPerEpoch | InitialMessageNoDiscrimination
  | InitialMessageNoConsensusLeaderId | InitialMessageNoKesUpdateSpeed | UtxoTotalValueTooBig | TransactionHasInput
  | CertTransactionHasInput | CertTransactionHasOutput | TransactionHasOutput | HasUpdateProposal | HasUpdateVote
  | HasOwnerStakeDelegation | HasPoolManagement | HasVoteCast | HasVoteTally

datatype tx_verify_error = TooManyOutputs u8 u8
datatype tx_validity_error = TransactionExpired | TransactionValidForTooLong

datatype ledger_error =
    UtxoValueNotMatching val val
  | UtxoErr utxo_error
  | UtxoInvalidSignature utxo_pointer "address tx_output" tx_witness
  | OldUtxoInvalidSignature utxo_pointer "u8 list tx_output" tx_witness
  | OldUtxoInvalidPublicKey utxo_pointer "u8 list tx_output" tx_witness
  | AccountInvalidSignature acc_identifier tx_witness
  | MultisigInvalidSignature digest tx_witness
  | TransactionMalformed tx_verify_error
  | InvalidTransactionValidity tx_validity_error
  | FeeCalculationError value_error
  | TransactionBalanceInvalid balance_error
  | Block0Err block0_error
  | Block0OnlyFragmentReceived
  | AccountLedgerErr account_error
  | MultisigLedgerErr ms_error
  | ZeroOutput "address tx_output"
  | DelegationErr pool_error
  | AccountIdentifierInvalid
  | InvalidDiscrimination
  | ExpectingAccountWitness
  | ExpectingUtxoWitness
  | ExpectingInitialMessage
  | CertificateInvalidSignature
  | UpdateErr update_error_t
  | OwnerStakeDelegationInvalidTransaction
  | WrongChainLength u32 u32
  | NonMonotonicDate block_date block_date
  | InvalidContentSize u32 u32
  | InvalidContentHash digest digest
  | LedgerPotErr pot_error
  | PoolRegistrationHasNoOwner
  | PoolRegistrationHasTooManyOwners
  | PoolRegistrationHasTooManyOperators
  | PoolRegistrationManagementThresholdZero
  | PoolRegistrationManagementThresholdAbove
  | StakeDelegationSignatureFailed
  | PoolRetirementSignatureFailed
  | PoolUpdateSignatureFailed
  | PoolUpdateLastHashDoesntMatch
  | PoolUpdateFeesNotAllowedYet
  | ScriptsAddressNotAllowedYet
  | UpdateProposalSignatureFailed
  | UpdateVoteSignatureFailed
  | AdditionalMintingNotAllowed
  | DisabledEvmTransactions

definition ledger_empty :: "settings \<Rightarrow> ledger_static_parameters \<Rightarrow> time_era \<Rightarrow> pots \<Rightarrow> ledger" where
  "ledger_empty s sp era p = \<lparr>lg_utxos = utxo_new, lg_oldutxos = utxo_new, lg_accounts = account_new, lg_settings = s,
     lg_updates = update_state_new, lg_multisig = ms_new, lg_delegation = pools_new, lg_static = sp, lg_date = block_date_first,
     lg_chain_length = 0, lg_era = era, lg_pots = p, lg_leaders_log = leaders_new, lg_actions = [], lg_token_totals = hamt_new\<rparr>"

definition get_ledger_parameters :: "ledger \<Rightarrow> ledger_parameters" where
  "get_ledger_parameters l =
     (let s = lg_settings l in
      \<lparr>lp_fees = s_linear_fees s, lp_treasury_tax = (case s_treasury_params s of None \<Rightarrow> tax_type_zero | Some t \<Rightarrow> t),
       lp_reward_params = to_reward_params s, lp_block_content_max_size = s_block_content_max_size s,
       lp_epoch_stability_depth = s_epoch_stability_depth s, lp_fees_goes_to = s_fees_goes_to s, lp_committees = s_committees s\<rparr>)"

definition ledger_total_value :: "ledger \<Rightarrow> (ledger_error, val) outcome" where
  "ledger_total_value l =
     obind (unwrap (utxo_entries (lg_oldutxos l))) (\<lambda>old.
     obind (unwrap (utxo_entries (lg_utxos l))) (\<lambda>new.
     obind (map_err (\<lambda>_. Block0Err UtxoTotalValueTooBig) (get_total_value (lg_accounts l))) (\<lambda>account_value.
     obind (map_err (\<lambda>_. Block0Err UtxoTotalValueTooBig) (ms_get_total_value (lg_multisig l))) (\<lambda>multisig_value.
     map_err (\<lambda>_. Block0Err UtxoTotalValueTooBig)
       (value_sum (map (\<lambda>e. out_value (entry_output e)) old @ map (\<lambda>e. out_value (entry_output e)) new
          @ [account_value] @ [multisig_value] @ pots_values (lg_pots l)))))))"

section \<open>Checks\<close>

definition CHECK_TX_MAXIMUM_INPUTS :: u8 where "CHECK_TX_MAXIMUM_INPUTS = 255"
definition CHECK_TX_MAXIMUM_OUTPUTS :: u8 where "CHECK_TX_MAXIMUM_OUTPUTS = 254"
definition CHECK_POOL_REG_MAXIMUM_OWNERS :: nat where "CHECK_POOL_REG_MAXIMUM_OWNERS = 31"
definition CHECK_POOL_REG_MAXIMUM_OPERATORS :: nat where "CHECK_POOL_REG_MAXIMUM_OPERATORS = 3"

definition if_cond_fail_with :: "bool \<Rightarrow> 'e \<Rightarrow> ('e, unit) outcome" where
  "if_cond_fail_with c e = (if c then Err e else Ok ())"

definition valid_block0_transaction_no_inputs :: "tx_slice \<Rightarrow> (ledger_error, unit) outcome" where
  "valid_block0_transaction_no_inputs tx = if_cond_fail_with (nb_inputs tx \<noteq> 0) (Block0Err TransactionHasInput)"

definition valid_block0_cert_transaction :: "tx_slice \<Rightarrow> (ledger_error, unit) outcome" where
  "valid_block0_cert_transaction tx =
     obind (if_cond_fail_with (nb_inputs tx \<noteq> 0) (Block0Err CertTransactionHasInput)) (\<lambda>_.
     if_cond_fail_with (nb_outputs tx \<noteq> 0) (Block0Err CertTransactionHasOutput))"

definition valid_output_value :: "address tx_output \<Rightarrow> (ledger_error, unit) outcome" where
  "valid_output_value o' = if_cond_fail_with (out_value o' = value_zero) (ZeroOutput o')"

definition valid_stake_owner_delegation_transaction :: "tx_slice \<Rightarrow> (ledger_error, unit) outcome" where
  "valid_stake_owner_delegation_transaction tx =
     if_cond_fail_with (nb_inputs tx \<noteq> 1 \<or> nb_witnesses tx \<noteq> 1 \<or> nb_outputs tx \<noteq> 0) OwnerStakeDelegationInvalidTransaction"

definition valid_pool_registration_certificate :: "pool_registration \<Rightarrow> (ledger_error, unit) outcome" where
  "valid_pool_registration_certificate c =
     obind (if_cond_fail_with (management_threshold c = 0) PoolRegistrationManagementThresholdZero) (\<lambda>_.
     obind (if_cond_fail_with (unat (management_threshold c) > length (pr_owners c)) PoolRegistrationManagementThresholdAbove) (\<lambda>_.
     obind (if_cond_fail_with (pr_owners c = []) PoolRegistrationHasNoOwner) (\<lambda>_.
     obind (if_cond_fail_with (length (pr_owners c) > CHECK_POOL_REG_MAXIMUM_OWNERS) PoolRegistrationHasTooManyOwners) (\<lambda>_.
     if_cond_fail_with (length (pr_operators c) > CHECK_POOL_REG_MAXIMUM_OPERATORS) PoolRegistrationHasTooManyOperators))))"

definition valid_pool_owner_signature :: "(u8 \<times> signature) list \<Rightarrow> (ledger_error, unit) outcome" where
  "valid_pool_owner_signature pos =
     obind (if_cond_fail_with (pos = []) CertificateInvalidSignature) (\<lambda>_.
     if_cond_fail_with (length pos > CHECK_POOL_REG_MAXIMUM_OWNERS) CertificateInvalidSignature)"

fun valid_pool_signature :: "pool_signature \<Rightarrow> (ledger_error, unit) outcome" where
  "valid_pool_signature (OperatorSig _) = Ok ()"
| "valid_pool_signature (OwnersSig pos) = valid_pool_owner_signature pos"

definition valid_pool_update_certificate :: "pool_update \<Rightarrow> (ledger_error, unit) outcome" where
  "valid_pool_update_certificate u = valid_pool_registration_certificate (pu_new_pool_reg u)"

definition valid_transaction_ios_number :: "tx_slice \<Rightarrow> (tx_verify_error, unit) outcome" where
  "valid_transaction_ios_number tx =
     (if nb_inputs tx > CHECK_TX_MAXIMUM_INPUTS then Err (TooManyOutputs CHECK_TX_MAXIMUM_INPUTS (nb_outputs tx))
      else if nb_outputs tx > CHECK_TX_MAXIMUM_OUTPUTS then Err (TooManyOutputs CHECK_TX_MAXIMUM_OUTPUTS (nb_outputs tx))
      else Ok ())"

definition valid_transaction_date :: "settings \<Rightarrow> block_date \<Rightarrow> block_date \<Rightarrow> (tx_validity_error, unit) outcome" where
  "valid_transaction_date s until date =
     obind (if_cond_fail_with (bd_epoch date < saturating_sub (bd_epoch until) (ucast (s_transaction_max_expiry_epochs s)))
         TransactionValidForTooLong) (\<lambda>_.
     if_cond_fail_with (date > until) TransactionExpired)"

section \<open>Inputs\<close>

datatype matching_identifier_witness =
    MatchSingle acc_identifier signature spending_counter
  | MatchMulti digest ms_witness spending_counter

definition match_identifier_witness ::
  "unspecified_account_identifier \<Rightarrow> tx_witness \<Rightarrow> (ledger_error, matching_identifier_witness) outcome" where
  "match_identifier_witness account w =
     (case w of
        OldUtxoWitness _ _ _ \<Rightarrow> Err ExpectingAccountWitness
      | UtxoWitness _ \<Rightarrow> Err ExpectingAccountWitness
      | AccountWitness nonce sig \<Rightarrow>
          obind (ok_or AccountIdentifierInvalid (to_single_account account)) (\<lambda>a. Ok (MatchSingle a sig nonce))
      | MultisigWitness nonce msig \<Rightarrow> Ok (MatchMulti (to_multi_account account) msig nonce))"

definition input_single_account_verify ::
  "crypto \<Rightarrow> accounts \<Rightarrow> digest \<Rightarrow> digest \<Rightarrow> acc_identifier \<Rightarrow> signature \<Rightarrow> spending_counter \<Rightarrow> val \<Rightarrow> (ledger_error, accounts) outcome" where
  "input_single_account_verify C l b0 h account w counter v =
     obind (map_err AccountLedgerErr (remove_value (c_ha C) l account counter v)) (\<lambda>new_ledger.
     if c_verify C (id_key account) (witness_account_data b0 h counter) w then Ok new_ledger
     else Err (AccountInvalidSignature account (AccountWitness counter w)))"

definition input_multi_account_verify ::
  "crypto \<Rightarrow> (digest, digest) ms_ledger \<Rightarrow> digest \<Rightarrow> digest \<Rightarrow> digest \<Rightarrow> ms_witness \<Rightarrow> spending_counter \<Rightarrow> val
   \<Rightarrow> (ledger_error, (digest, digest) ms_ledger) outcome" where
  "input_multi_account_verify C l b0 h account w counter v =
     obind (map_err MultisigLedgerErr (ms_remove_value (c_hd C) l account counter v)) (\<lambda>(new_ledger, decl).
     if ms_verify (c_verify C) (c_blake C) w decl (witness_multisig_data b0 h counter) then Ok new_ledger
     else Err (MultisigInvalidSignature account (MultisigWitness counter w)))"

definition apply_input_to_utxo :: "crypto \<Rightarrow> ledger \<Rightarrow> digest \<Rightarrow> utxo_pointer \<Rightarrow> tx_witness \<Rightarrow> (ledger_error, ledger) outcome" where
  "apply_input_to_utxo C l h utxo w =
     (case w of
        AccountWitness _ _ \<Rightarrow> Err ExpectingUtxoWitness
      | MultisigWitness _ _ \<Rightarrow> Err ExpectingUtxoWitness
      | OldUtxoWitness pk cc sig \<Rightarrow>
          obind (map_err UtxoErr (utxo_remove (c_hd C) (lg_oldutxos l) (transaction_id utxo) (pointer_index utxo))) (\<lambda>(old_utxos, o').
          let l = l\<lparr>lg_oldutxos := old_utxos\<rparr> in
          if pointer_value utxo \<noteq> out_value o' then Err (UtxoValueNotMatching (pointer_value utxo) (out_value o'))
          else if \<not> c_old_match C (out_address o') pk cc then Err (OldUtxoInvalidPublicKey utxo o' w)
          else if \<not> c_verify C pk (witness_utxo_data (block0_initial_hash (lg_static l)) h LegacyUtxo) sig
          then Err (OldUtxoInvalidSignature utxo o' w)
          else Ok l)
      | UtxoWitness sig \<Rightarrow>
          obind (map_err UtxoErr (utxo_remove (c_hd C) (lg_utxos l) (transaction_id utxo) (pointer_index utxo))) (\<lambda>(new_utxos, o').
          let l = l\<lparr>lg_utxos := new_utxos\<rparr> in
          if pointer_value utxo \<noteq> out_value o' then Err (UtxoValueNotMatching (pointer_value utxo) (out_value o'))
          else
            obind (unwrap_opt (address_public_key (out_address o'))) (\<lambda>pk.
            if \<not> c_verify C pk (witness_utxo_data (block0_initial_hash (lg_static l)) h NormalUtxo) sig
            then Err (UtxoInvalidSignature utxo o' w)
            else Ok l)))"

definition apply_tx_input :: "crypto \<Rightarrow> digest \<Rightarrow> tx_input \<times> tx_witness \<Rightarrow> ledger \<Rightarrow> (ledger_error, ledger) outcome" where
  "apply_tx_input C h iw l =
     (case to_enum (fst iw) of
        UtxoInput utxo \<Rightarrow> apply_input_to_utxo C l h utxo (snd iw)
      | AccountInput account_id v \<Rightarrow>
          obind (match_identifier_witness account_id (snd iw)) (\<lambda>m. case m of
            MatchSingle a w counter \<Rightarrow>
              obind (input_single_account_verify C (lg_accounts l) (block0_initial_hash (lg_static l)) h a w counter v) (\<lambda>as.
              Ok (l\<lparr>lg_accounts := as\<rparr>))
          | MatchMulti a w counter \<Rightarrow>
              obind (input_multi_account_verify C (lg_multisig l) (block0_initial_hash (lg_static l)) h a w counter v) (\<lambda>ms.
              Ok (l\<lparr>lg_multisig := ms\<rparr>))))"

definition apply_tx_inputs :: "crypto \<Rightarrow> tx_slice \<Rightarrow> ledger \<Rightarrow> (ledger_error, ledger) outcome" where
  "apply_tx_inputs C tx l =
     obind (transaction_sign_data_hash (c_blake C) tx) (\<lambda>h. each_input_witness tx (apply_tx_input C h) l)"

section \<open>Outputs, fees and whole transactions\<close>

definition add_value_or_create_account :: "crypto \<Rightarrow> ledger \<Rightarrow> acc_identifier \<Rightarrow> val \<Rightarrow> (ledger_error, ledger) outcome" where
  "add_value_or_create_account C l account v =
     (case account_add_value (c_ha C) (lg_accounts l) account v of
        Ok as \<Rightarrow> Ok (l\<lparr>lg_accounts := as\<rparr>)
      | Err NonExistent \<Rightarrow>
          obind (map_err AccountLedgerErr (add_account (c_ha C) (lg_accounts l) account v ())) (\<lambda>as. Ok (l\<lparr>lg_accounts := as\<rparr>))
      | Err e \<Rightarrow> Err (AccountLedgerErr e)
      | Panic \<Rightarrow> Panic)"

text \<open>One output: the ledger so far, the new unspent outputs and the index of the output.\<close>

definition apply_tx_output ::
  "crypto \<Rightarrow> address tx_output \<Rightarrow> ledger \<times> (u8 \<times> address tx_output) list \<times> nat
   \<Rightarrow> (ledger_error, ledger \<times> (u8 \<times> address tx_output) list \<times> nat) outcome" where
  "apply_tx_output C o' = (\<lambda>(l, new_utxos, index).
     obind (valid_output_value o') (\<lambda>_.
     if addr_discrimination (out_address o') \<noteq> static_discrimination (lg_static l) then Err InvalidDiscrimination
     else
       case addr_kind (out_address o') of
         Single _ \<Rightarrow> Ok (l, new_utxos @ [(of_nat index, o')], index + 1)
       | Group _ account_id \<Rightarrow>
           obind (account_exists (c_ha C) (lg_accounts l) (Identifier account_id)) (\<lambda>found.
           obind (if found then Ok l
             else obind (map_err AccountLedgerErr (add_account (c_ha C) (lg_accounts l) (Identifier account_id) value_zero ())) (\<lambda>as.
                  Ok (l\<lparr>lg_accounts := as\<rparr>))) (\<lambda>l.
           Ok (l, new_utxos @ [(of_nat index, o')], index + 1)))
       | AccountKind k \<Rightarrow>
           obind (add_value_or_create_account C l (Identifier k) (out_value o')) (\<lambda>l. Ok (l, new_utxos, index + 1))
       | Multisig i \<Rightarrow>
           obind (map_err MultisigLedgerErr (ms_add_value (c_hd C) (lg_multisig l) i (out_value o'))) (\<lambda>ms.
           Ok (l\<lparr>lg_multisig := ms\<rparr>, new_utxos, index + 1))
       | Script _ \<Rightarrow> Err ScriptsAddressNotAllowedYet))"

definition apply_tx_outputs :: "crypto \<Rightarrow> digest \<Rightarrow> tx_slice \<Rightarrow> ledger \<Rightarrow> (ledger_error, ledger) outcome" where
  "apply_tx_outputs C fid tx l =
     obind (each_output tx (apply_tx_output C) (l, [], 0)) (\<lambda>(l, new_utxos, _).
     if new_utxos \<noteq> [] then
       obind (map_err UtxoErr (utxo_add (c_hd C) (lg_utxos l) fid new_utxos)) (\<lambda>us. Ok (l\<lparr>lg_utxos := us\<rparr>))
     else Ok l)"

definition apply_tx_fee :: "val \<Rightarrow> ledger \<Rightarrow> (ledger_error, ledger) outcome" where
  "apply_tx_fee fee l = obind (map_err LedgerPotErr (append_fees (lg_pots l) fee)) (\<lambda>p. Ok (l\<lparr>lg_pots := p\<rparr>))"

definition calculate_fee :: "('p, 'a) payload \<Rightarrow> tx_slice \<Rightarrow> ledger_parameters \<Rightarrow> val" where
  "calculate_fee P tx dyn_params = fee_calculate (lp_fees dyn_params) (certificate_of P) (nb_inputs tx) (nb_outputs tx)"

definition apply_transaction ::
  "crypto \<Rightarrow> ('p, 'a) payload \<Rightarrow> digest \<Rightarrow> tx_slice \<Rightarrow> block_date \<Rightarrow> ledger_parameters \<Rightarrow> ledger \<Rightarrow> (ledger_error, ledger \<times> val) outcome" where
  "apply_transaction C P fid tx cur_date dyn_params l =
     obind (map_err TransactionMalformed (valid_transaction_ios_number tx)) (\<lambda>_.
     obind (map_err InvalidTransactionValidity (valid_transaction_date (lg_settings l) (valid_until tx) cur_date)) (\<lambda>_.
     let fee = calculate_fee P tx dyn_params in
     obind (map_err TransactionBalanceInvalid (verify_strictly_balanced tx fee)) (\<lambda>_.
     obind (apply_tx_inputs C tx l) (\<lambda>l.
     obind (apply_tx_outputs C fid tx l) (\<lambda>l.
     obind (apply_tx_fee fee l) (\<lambda>l. Ok (l, fee)))))))"

section \<open>The invariant of the ledger\<close>

text \<open>
  The parts are well formed, no two known account identifiers (the set \<open>K\<close>) and no two known fragment
  identifiers (the set \<open>F\<close>) share a hash, the tries only hold known identifiers, and every unspent output
  can be spent by a key.
\<close>

definition ledger_ok :: "crypto \<Rightarrow> acc_identifier set \<Rightarrow> digest set \<Rightarrow> ledger \<Rightarrow> bool" where
  "ledger_ok C K F l \<longleftrightarrow>
     utxo_ok (c_hd C) (lg_utxos l) \<and> utxo_ok (c_hd C) (lg_oldutxos l)
     \<and> account_ok (c_ha C) (c_hd C) (lg_accounts l) \<and> ms_ok (c_hd C) (c_hd C) (lg_multisig l)
     \<and> inj_on (c_ha C) K \<and> dom (hamt_map (c_ha C) (lg_accounts l)) \<subseteq> K
     \<and> inj_on (c_hd C) F \<and> dom (hamt_map (c_hd C) (lg_utxos l)) \<subseteq> F
     \<and> (\<forall>p o'. utxo_map (c_hd C) (lg_utxos l) p = Some o' \<longrightarrow> address_public_key (out_address o') \<noteq> None)"

text \<open>All the value there is: unspent outputs, accounts and pots.\<close>

definition ledger_coins :: "crypto \<Rightarrow> ledger \<Rightarrow> nat" where
  "ledger_coins C l = utxo_total (c_hd C) (lg_oldutxos l) + utxo_total (c_hd C) (lg_utxos l)
     + account_total (c_ha C) (lg_accounts l) + account_total (c_hd C) (ms_accounts (lg_multisig l)) + pots_coins (lg_pots l)"

text \<open>
  An operation that never panics, keeps the invariant, and on success takes \<open>loss\<close> out of the ledger and
  puts \<open>gain\<close> into it; the parameters fixed in block 0 never change.
\<close>

definition moves :: "crypto \<Rightarrow> acc_identifier set \<Rightarrow> digest set \<Rightarrow> ledger \<Rightarrow> nat \<Rightarrow> nat \<Rightarrow> (ledger_error, ledger) outcome \<Rightarrow> bool" where
  "moves C K F l loss gain r \<longleftrightarrow> r \<noteq> Panic \<and> (\<forall>l'. r = Ok l' \<longrightarrow>
     ledger_ok C K F l' \<and> ledger_coins C l' + loss = ledger_coins C l + gain \<and> lg_static l' = lg_static l)"

lemma moves_simps [simp]:
  "moves C K F l loss gain (Err e)"
  "moves C K F l loss gain (Ok l') \<longleftrightarrow> ledger_ok C K F l' \<and> ledger_coins C l' + loss = ledger_coins C l + gain \<and> lg_static l' = lg_static l"
  by (simp_all add: moves_def)

lemma moves_obind:
  assumes "moves C K F l loss gain r" and "\<And>l1. r = Ok l1 \<Longrightarrow> ledger_ok C K F l1 \<Longrightarrow> lg_static l1 = lg_static l \<Longrightarrow> moves C K F l1 loss' gain' (f l1)"
  shows "moves C K F l (loss + loss') (gain + gain') (obind r f)"
  using assms by (cases r) (force simp: moves_def)+

lemma ledger_okD:
  assumes "ledger_ok C K F l"
  shows "utxo_ok (c_hd C) (lg_utxos l)" and "utxo_ok (c_hd C) (lg_oldutxos l)" and "account_ok (c_ha C) (c_hd C) (lg_accounts l)"
    and "ms_ok (c_hd C) (c_hd C) (lg_multisig l)" and "inj_on (c_ha C) K" and "dom (hamt_map (c_ha C) (lg_accounts l)) \<subseteq> K"
    and "inj_on (c_hd C) F" and "dom (hamt_map (c_hd C) (lg_utxos l)) \<subseteq> F"
    and "utxo_map (c_hd C) (lg_utxos l) p = Some o' \<Longrightarrow> address_public_key (out_address o') \<noteq> None"
  using assms unfolding ledger_ok_def by blast+

lemma known_fresh: "inj_on hf K \<Longrightarrow> dom (hamt_map hf m) \<subseteq> K \<Longrightarrow> k \<in> K \<Longrightarrow> hash_fresh hf m k"
  by (auto simp: hash_fresh_def inj_on_def)

lemma account_fresh: "ledger_ok C K F l \<Longrightarrow> i \<in> K \<Longrightarrow> hash_fresh (c_ha C) (lg_accounts l) i"
  by (rule known_fresh) (auto simp: ledger_ok_def)

lemma utxo_fresh: "ledger_ok C K F l \<Longrightarrow> t \<in> F \<Longrightarrow> hash_fresh (c_hd C) (lg_utxos l) t"
  by (rule known_fresh) (auto simp: ledger_ok_def)

text \<open>One change of the accounts is one change of the ledger.\<close>

lemma account_change:
  assumes "ledger_ok C K F l" and "account_step (c_ha C) (c_hd C) (lg_accounts l) e as" and "event_account e \<in> K"
  shows "ledger_ok C K F (l\<lparr>lg_accounts := as\<rparr>)"
    and "ledger_coins C (l\<lparr>lg_accounts := as\<rparr>) + withdrawn e = ledger_coins C l + deposited e"
proof -
  note ok = ledger_okD(3) [OF assms(1)]
  have eff: "effective (c_ha C) (c_hd C) (lg_accounts l) e as" by (rule account_step_effect [OF assms(2) ok])
  then have "dom (hamt_map (c_ha C) as) \<subseteq> insert (event_account e) (dom (hamt_map (c_ha C) (lg_accounts l)))"
    and "account_ok (c_ha C) (c_hd C) as" by (auto simp: effective_def split: if_splits)
  with assms(1,3) show "ledger_ok C K F (l\<lparr>lg_accounts := as\<rparr>)" by (auto simp: ledger_ok_def)
  show "ledger_coins C (l\<lparr>lg_accounts := as\<rparr>) + withdrawn e = ledger_coins C l + deposited e"
    using effective_total [OF eff ok] by (simp add: ledger_coins_def)
qed

lemma multisig_change:
  assumes "ledger_ok C K F l" and "account_step (c_hd C) (c_hd C) (ms_accounts (lg_multisig l)) e as"
    and "hamt_map (c_hd C) (ms_accounts (lg_multisig l)) (event_account e) \<noteq> None" and "\<And>i. e \<noteq> Close i"
  shows "ledger_ok C K F (l\<lparr>lg_multisig := (lg_multisig l)\<lparr>ms_accounts := as\<rparr>\<rparr>)"
    and "ledger_coins C (l\<lparr>lg_multisig := (lg_multisig l)\<lparr>ms_accounts := as\<rparr>\<rparr>) + withdrawn e = ledger_coins C l + deposited e"
proof -
  note ok = ledger_okD(4) [OF assms(1)]
  have s: "ms_ok (c_hd C) (c_hd C) ((lg_multisig l)\<lparr>ms_accounts := as\<rparr>)" "effective (c_hd C) (c_hd C) (ms_accounts (lg_multisig l)) e as"
    using ms_step [OF ok assms(2,3,4)] by auto
  then show "ledger_ok C K F (l\<lparr>lg_multisig := (lg_multisig l)\<lparr>ms_accounts := as\<rparr>\<rparr>)" using assms(1) by (simp add: ledger_ok_def)
  show "ledger_coins C (l\<lparr>lg_multisig := (lg_multisig l)\<lparr>ms_accounts := as\<rparr>\<rparr>) + withdrawn e = ledger_coins C l + deposited e"
    using effective_total [OF s(2) ms_okD(1) [OF ok]] by (simp add: ledger_coins_def)
qed

section \<open>Inputs take value out\<close>

lemma remove_value_cases:
  assumes "account_ok hf ht l"
  shows "remove_value hf l i c v \<noteq> Panic" and "remove_value hf l i c v = Ok l' \<Longrightarrow> hamt_map hf l i \<noteq> None"
proof -
  have sub: "account_state_sub st c v \<noteq> Panic" if "hamt_map hf l i = Some st" for st
    using account_state_sub_spec [OF account_okD(2) [OF assms that], of v c] by (auto split: if_splits)
  note up = account_update [OF assms, of i "\<lambda>st. account_state_sub st c v"]
  show "remove_value hf l i c v \<noteq> Panic"
    using up sub unfolding remove_value_def by (auto split: option.splits outcome.splits)
  show "remove_value hf l i c v = Ok l' \<Longrightarrow> hamt_map hf l i \<noteq> None"
    using up unfolding remove_value_def by (auto split: option.splits)
qed

lemma input_single_moves:
  assumes "ledger_ok C K F l"
  shows "moves C K F l (coins v) 0
    (obind (input_single_account_verify C (lg_accounts l) b0 h a w counter v) (\<lambda>as. Ok (l\<lparr>lg_accounts := as\<rparr>)))"
proof (cases "remove_value (c_ha C) (lg_accounts l) a counter v")
  case (Ok as)
  have step: "account_step (c_ha C) (c_hd C) (lg_accounts l) (Withdraw a counter v) as" using Ok by (rule step_withdraw)
  have "a \<in> K" using remove_value_cases(2) [OF ledger_okD(3) [OF assms] Ok] ledger_okD(6) [OF assms] by auto
  then show ?thesis using Ok account_change [OF assms step] by (simp add: input_single_account_verify_def)
next
  case Panic
  then show ?thesis using remove_value_cases(1) [OF ledger_okD(3) [OF assms]] by simp
qed (simp add: input_single_account_verify_def)

lemma input_multi_moves:
  assumes "ledger_ok C K F l"
  shows "moves C K F l (coins v) 0
    (obind (input_multi_account_verify C (lg_multisig l) b0 h a w counter v) (\<lambda>ms. Ok (l\<lparr>lg_multisig := ms\<rparr>)))"
proof -
  note ok = ms_okD [OF ledger_okD(4) [OF assms]]
  let ?ms = "lg_multisig l"
  have look: "hamt_lookup (c_hd C) (ms_declarations ?ms) a = Ok (hamt_map (c_hd C) (ms_declarations ?ms) a)"
    by (rule pm.lookup_alpha [OF ok(2)])
  show ?thesis
  proof (cases "hamt_map (c_hd C) (ms_declarations ?ms) a")
    case None
    then show ?thesis by (simp add: input_multi_account_verify_def ms_remove_value_def look ok_or_def)
  next
    case (Some d)
    show ?thesis
    proof (cases "remove_value (c_hd C) (ms_accounts ?ms) a counter v")
      case (Ok as)
      have step: "account_step (c_hd C) (c_hd C) (ms_accounts ?ms) (Withdraw a counter v) as" using Ok by (rule step_withdraw)
      have "hamt_map (c_hd C) (ms_accounts ?ms) a \<noteq> None" by (rule remove_value_cases(2) [OF ok(1) Ok])
      then show ?thesis using Ok Some multisig_change [OF assms step]
        by (simp add: input_multi_account_verify_def ms_remove_value_def look ok_or_def)
    qed (use Some remove_value_cases(1) [OF ok(1)] in \<open>simp_all add: input_multi_account_verify_def ms_remove_value_def look ok_or_def\<close>)
  qed
qed

lemma utxo_remove_cases:
  assumes "utxo_ok hf l" and "i \<noteq> 255"
  shows "utxo_remove hf l t i \<noteq> Panic"
    and "utxo_remove hf l t i = Ok (l', x) \<Longrightarrow> utxo_ok hf l' \<and> utxo_map hf l (t, i) = Some x
      \<and> utxo_map hf l' = (utxo_map hf l)((t, i) := None) \<and> utxo_total hf l = utxo_total hf l' + coins (out_value x)"
proof -
  note spec = utxo_remove_spec [OF assms(1), of t i]
  show "utxo_remove hf l t i \<noteq> Panic" using spec assms(2) by (auto split: if_splits option.splits)
  assume ok: "utxo_remove hf l t i = Ok (l', x)"
  then have "utxo_step hf l (Spent t i x) l'" by (rule step_spend)
  from utxo_step_effect [OF this assms(1)] utxo_step_total [OF this assms(1)]
  show "utxo_ok hf l' \<and> utxo_map hf l (t, i) = Some x
      \<and> utxo_map hf l' = (utxo_map hf l)((t, i) := None) \<and> utxo_total hf l = utxo_total hf l' + coins (out_value x)" by simp
qed

text \<open>The transactions with unspent outputs are those with an output.\<close>

lemma utxo_dom: "utxo_ok hf l \<Longrightarrow> t \<in> dom (hamt_map hf l) \<longleftrightarrow> (\<exists>i. (t, i) \<in> dom (utxo_map hf l))"
  unfolding domIff by (rule utxo_present_iff)

lemma input_utxo_moves:
  assumes "ledger_ok C K F l" and "pointer_index u \<noteq> 255"
  shows "moves C K F l (coins (pointer_value u)) 0 (apply_input_to_utxo C l h u w)"
proof (cases w)
  case (UtxoWitness sig)
  note cases = utxo_remove_cases [OF ledger_okD(1) [OF assms(1)] assms(2), of "transaction_id u"]
  show ?thesis
  proof (cases "utxo_remove (c_hd C) (lg_utxos l) (transaction_id u) (pointer_index u)")
    case (Ok r)
    obtain us x where r: "r = (us, x)" by (cases r)
    note us = cases(2) [OF Ok [unfolded r]]
    have "dom (hamt_map (c_hd C) us) \<subseteq> F"
    proof
      fix t assume "t \<in> dom (hamt_map (c_hd C) us)"
      then obtain i where "(t, i) \<in> dom (utxo_map (c_hd C) us)" using utxo_dom [of "c_hd C" us t] us by blast
      then have "t \<in> dom (hamt_map (c_hd C) (lg_utxos l))" using us utxo_dom [OF ledger_okD(1) [OF assms(1)], of t] by auto
      then show "t \<in> F" using ledger_okD(8) [OF assms(1)] by blast
    qed
    then have "ledger_ok C K F (l\<lparr>lg_utxos := us\<rparr>)" using assms(1) us by (auto simp: ledger_ok_def)
    moreover have "ledger_coins C (l\<lparr>lg_utxos := us\<rparr>) + coins (out_value x) = ledger_coins C l"
      using us by (simp add: ledger_coins_def)
    moreover obtain pk where "address_public_key (out_address x) = Some pk" using ledger_okD(9) [OF assms(1)] us by blast
    ultimately show ?thesis using Ok r UtxoWitness by (simp add: apply_input_to_utxo_def Let_def unwrap_opt_def)
  qed (use cases(1) UtxoWitness in \<open>simp_all add: apply_input_to_utxo_def\<close>)
next
  case (OldUtxoWitness pk cc sig)
  note cases = utxo_remove_cases [OF ledger_okD(2) [OF assms(1)] assms(2), of "transaction_id u"]
  show ?thesis
  proof (cases "utxo_remove (c_hd C) (lg_oldutxos l) (transaction_id u) (pointer_index u)")
    case (Ok r)
    obtain us x where r: "r = (us, x)" by (cases r)
    note us = cases(2) [OF Ok [unfolded r]]
    have "ledger_ok C K F (l\<lparr>lg_oldutxos := us\<rparr>)" using assms(1) us by (simp add: ledger_ok_def)
    moreover have "ledger_coins C (l\<lparr>lg_oldutxos := us\<rparr>) + coins (out_value x) = ledger_coins C l"
      using us by (simp add: ledger_coins_def)
    ultimately show ?thesis using Ok r OldUtxoWitness by (simp add: apply_input_to_utxo_def Let_def)
  qed (use cases(1) OldUtxoWitness in \<open>simp_all add: apply_input_to_utxo_def\<close>)
qed (simp_all add: apply_input_to_utxo_def)

lemma tx_input_moves:
  assumes "ledger_ok C K F l"
  shows "moves C K F l (coins (in_value (fst iw))) 0 (apply_tx_input C h iw l)"
proof (cases "get_type (fst iw)")
  case UtxoType
  then have "index_or_account (fst iw) \<noteq> 255" by (auto simp: get_type_def split: if_splits)
  then show ?thesis using UtxoType input_utxo_moves [OF assms, of "\<lparr>transaction_id = input_ptr (fst iw),
      pointer_index = index_or_account (fst iw), pointer_value = in_value (fst iw)\<rparr>" h "snd iw"]
    by (simp add: apply_tx_input_def to_enum_def)
next
  case AccountType
  show ?thesis
  proof (cases "match_identifier_witness (UnspecifiedId (input_ptr (fst iw))) (snd iw)")
    case (Ok m)
    then show ?thesis using AccountType input_single_moves [OF assms] input_multi_moves [OF assms]
      by (cases m) (simp_all add: apply_tx_input_def to_enum_def)
  next
    case Panic
    then show ?thesis by (auto simp: match_identifier_witness_def outcome_simps split: tx_witness.splits)
  qed (use AccountType in \<open>simp add: apply_tx_input_def to_enum_def\<close>)
qed

lemma tx_inputs_moves:
  "ledger_ok C K F l \<Longrightarrow> moves C K F l (coin_total (map (\<lambda>x. in_value (fst x)) iws)) 0 (ofold (apply_tx_input C h) iws l)"
proof (induction iws arbitrary: l)
  case (Cons iw iws)
  show ?case
    using moves_obind [OF tx_input_moves [OF Cons.prems, of iw h], of "coin_total (map (\<lambda>x. in_value (fst x)) iws)" 0 "ofold (apply_tx_input C h) iws"]
      Cons.IH by (simp add: coin_total_def)
qed (simp add: coin_total_def)

section \<open>Outputs put value in\<close>

lemma account_add_value_cases:
  fixes l :: "('i, 'p, 'tk, 'x) account_ledger"
  assumes "account_ok hf ht l"
  shows "account_add_value hf l i v \<noteq> Panic"
    and "account_add_value hf l i v = Ok l' \<Longrightarrow> hamt_map hf l i \<noteq> None"
proof -
  have add: "account_state_add st v \<noteq> Panic" for st :: "('p, 'tk, 'x) account_state"
    using account_state_add_spec [of st v] by (auto split: outcome.splits)
  note up = account_update [OF assms, of i "\<lambda>st. omap Some (account_state_add st v)"]
  show "account_add_value hf l i v \<noteq> Panic"
    using up add unfolding account_add_value_def by (auto simp: omap_iffs split: option.splits outcome.splits)
  show "account_add_value hf l i v = Ok l' \<Longrightarrow> hamt_map hf l i \<noteq> None"
    using up unfolding account_add_value_def by (auto split: option.splits)
qed

lemma add_account_moves:
  assumes "ledger_ok C K F l" and "i \<in> K"
  shows "moves C K F l 0 (coins v)
    (obind (map_err AccountLedgerErr (add_account (c_ha C) (lg_accounts l) i v ())) (\<lambda>as. Ok (l\<lparr>lg_accounts := as\<rparr>)))"
proof (cases "add_account (c_ha C) (lg_accounts l) i v ()")
  case (Ok as)
  have "account_step (c_ha C) (c_hd C) (lg_accounts l) (Deposit i v) as"
    using account_fresh [OF assms] Ok by (rule step_open)
  from account_change [OF assms(1) this] assms(2) Ok show ?thesis by simp
next
  case Panic
  note ok = account_okD(1) [OF ledger_okD(3) [OF assms(1)]]
  show ?thesis using Panic pm.ins_new [OF ok, of i "account_state_new v ()"] pm.ins_old [OF ok, of i _ "account_state_new v ()"]
    by (cases "hamt_map (c_ha C) (lg_accounts l) i") (auto simp: add_account_def map_err_iffs)
qed simp

lemma credit_account_moves:
  assumes "ledger_ok C K F l" and "i \<in> K"
  shows "moves C K F l 0 (coins v) (add_value_or_create_account C l i v)"
proof (cases "account_add_value (c_ha C) (lg_accounts l) i v")
  case (Ok as)
  then have "account_step (c_ha C) (c_hd C) (lg_accounts l) (Deposit i v) as" by (rule step_value)
  from account_change [OF assms(1) this] assms(2) Ok show ?thesis by (simp add: add_value_or_create_account_def)
next
  case (Err e)
  then show ?thesis using add_account_moves [OF assms, of v]
    by (cases e) (simp_all add: add_value_or_create_account_def)
next
  case Panic
  then show ?thesis using account_add_value_cases(1) [OF ledger_okD(3) [OF assms(1)]] by simp
qed

lemma multisig_add_moves:
  assumes "ledger_ok C K F l"
  shows "moves C K F l 0 (coins v)
    (obind (map_err MultisigLedgerErr (ms_add_value (c_hd C) (lg_multisig l) i v)) (\<lambda>ms. Ok (l\<lparr>lg_multisig := ms\<rparr>)))"
proof -
  note ok = ms_okD(1) [OF ledger_okD(4) [OF assms]]
  show ?thesis
  proof (cases "account_add_value (c_hd C) (ms_accounts (lg_multisig l)) i v")
    case (Ok as)
    then have step: "account_step (c_hd C) (c_hd C) (ms_accounts (lg_multisig l)) (Deposit i v) as" by (rule step_value)
    show ?thesis using multisig_change [OF assms step] account_add_value_cases(2) [OF ok Ok] Ok by (simp add: ms_add_value_def)
  qed (use account_add_value_cases(1) [OF ok] in \<open>simp_all add: ms_add_value_def\<close>)
qed

text \<open>
  The loop over the outputs: what is not credited at once waits in the list of new unspent outputs, under
  distinct indices below the number of outputs seen.
\<close>

definition waiting_ok :: "(u8 \<times> address tx_output) list \<Rightarrow> nat \<Rightarrow> bool" where
  "waiting_ok us n \<longleftrightarrow> distinct (map fst us) \<and> (\<forall>(i, o') \<in> set us. unat i < n \<and> address_public_key (out_address o') \<noteq> None)
     \<and> length us \<le> n"

definition waiting :: "(u8 \<times> address tx_output) list \<Rightarrow> nat" where
  "waiting us = coin_total (map (out_value \<circ> snd) us)"

fun output_account :: "address tx_output \<Rightarrow> acc_identifier set" where
  "output_account o' = (case addr_kind (out_address o') of
     Group _ k \<Rightarrow> {Identifier k} | AccountKind k \<Rightarrow> {Identifier k} | _ \<Rightarrow> {})"

definition delivers ::
  "crypto \<Rightarrow> acc_identifier set \<Rightarrow> digest set \<Rightarrow> ledger \<times> (u8 \<times> address tx_output) list \<times> nat \<Rightarrow> nat \<Rightarrow> nat
   \<Rightarrow> (ledger_error, ledger \<times> (u8 \<times> address tx_output) list \<times> nat) outcome \<Rightarrow> bool" where
  "delivers C K F st gain k r \<longleftrightarrow> (case st of (l, us, n) \<Rightarrow> r \<noteq> Panic \<and> (\<forall>l' us' n'. r = Ok (l', us', n') \<longrightarrow>
     ledger_ok C K F l' \<and> lg_static l' = lg_static l \<and> waiting_ok us' n' \<and> n' = n + k
     \<and> ledger_coins C l' + waiting us' = ledger_coins C l + waiting us + gain))"

lemma waiting_snoc:
  assumes "waiting_ok us n" and "n < 255" and "address_public_key (out_address o') \<noteq> None"
  shows "waiting_ok (us @ [(of_nat n, o')]) (n + 1)" and "waiting (us @ [(of_nat n, o')]) = waiting us + coins (out_value o')"
proof -
  have n: "unat (of_nat n :: u8) = n" using assms(2) by (intro unat_of_nat_id) simp
  then have "of_nat n \<notin> fst ` set us" using assms(1) by (fastforce simp: waiting_ok_def)
  then show "waiting_ok (us @ [(of_nat n, o')]) (n + 1)" using assms n by (auto simp: waiting_ok_def)
  show "waiting (us @ [(of_nat n, o')]) = waiting us + coins (out_value o')" by (simp add: waiting_def coin_total_def)
qed

lemma waiting_later: "waiting_ok us n \<Longrightarrow> waiting_ok us (n + 1)"
  by (auto simp: waiting_ok_def)

text \<open>A change of the ledger alone, or of the waiting outputs alone.\<close>

lemma deliver_now:
  assumes "moves C K F l 0 gain r" and "waiting_ok us n"
  shows "delivers C K F (l, us, n) gain 1 (obind r (\<lambda>l. Ok (l, us, n + 1)))"
  using assms waiting_later [OF assms(2)] by (cases r) (simp_all add: delivers_def moves_def)

lemma deliver_later:
  assumes "moves C K F l 0 0 r" and "waiting_ok us n" and "n < 255" and "address_public_key (out_address o') \<noteq> None"
  shows "delivers C K F (l, us, n) (coins (out_value o')) 1 (obind r (\<lambda>l. Ok (l, us @ [(of_nat n, o')], n + 1)))"
  using assms waiting_snoc [OF assms(2-4)] by (cases r) (simp_all add: delivers_def moves_def)

lemma tx_output_delivers:
  assumes "ledger_ok C K F l" and "waiting_ok us n" and "n < 255" and "output_account o' \<subseteq> K"
  shows "delivers C K F (l, us, n) (coins (out_value o')) 1 (apply_tx_output C o' (l, us, n))"
proof -
  let ?kind = "case addr_kind (out_address o') of
         Single _ \<Rightarrow> Ok (l, us @ [(of_nat n, o')], n + 1)
       | Group _ account_id \<Rightarrow>
           obind (account_exists (c_ha C) (lg_accounts l) (Identifier account_id)) (\<lambda>found.
           obind (if found then Ok l
             else obind (map_err AccountLedgerErr (add_account (c_ha C) (lg_accounts l) (Identifier account_id) value_zero ())) (\<lambda>as.
                  Ok (l\<lparr>lg_accounts := as\<rparr>))) (\<lambda>l.
           Ok (l, us @ [(of_nat n, o')], n + 1)))
       | AccountKind k \<Rightarrow>
           obind (add_value_or_create_account C l (Identifier k) (out_value o')) (\<lambda>l. Ok (l, us, n + 1))
       | Multisig i \<Rightarrow>
           obind (map_err MultisigLedgerErr (ms_add_value (c_hd C) (lg_multisig l) i (out_value o'))) (\<lambda>ms.
           Ok (l\<lparr>lg_multisig := ms\<rparr>, us, n + 1))
       | Script _ \<Rightarrow> Err ScriptsAddressNotAllowedYet"
  have "delivers C K F (l, us, n) (coins (out_value o')) 1 ?kind"
  proof (cases "addr_kind (out_address o')")
    case (Single k)
    then show ?thesis using deliver_later [of C K F l "Ok l", OF _ assms(2,3)] assms(1) by (simp add: address_public_key_def)
  next
    case (Group k i)
    have "account_exists (c_ha C) (lg_accounts l) (Identifier i)
        = (Ok (hamt_map (c_ha C) (lg_accounts l) (Identifier i) \<noteq> None) :: (ledger_error, _) outcome)"
      by (simp add: account_exists_def hamt_contains_key_def pm.lookup_alpha [OF account_okD(1) [OF ledger_okD(3) [OF assms(1)]]])
    moreover have "moves C K F l 0 0 (if hamt_map (c_ha C) (lg_accounts l) (Identifier i) \<noteq> None then Ok l
        else obind (map_err AccountLedgerErr (add_account (c_ha C) (lg_accounts l) (Identifier i) value_zero ())) (\<lambda>as. Ok (l\<lparr>lg_accounts := as\<rparr>)))"
      using add_account_moves [OF assms(1), of "Identifier i" value_zero] assms(1,4) Group by simp
    from deliver_later [OF this assms(2,3)] calculation Group show ?thesis by (simp add: address_public_key_def)
  next
    case (AccountKind k)
    then show ?thesis using deliver_now [OF credit_account_moves [OF assms(1)] assms(2)] assms(4) by simp
  next
    case (Multisig i)
    show ?thesis using deliver_now [OF multisig_add_moves [OF assms(1), of "out_value o'" i] assms(2)] Multisig
      by (simp add: obind_assoc)
  qed (simp add: delivers_def)
  then show ?thesis by (simp add: apply_tx_output_def valid_output_value_def if_cond_fail_with_def delivers_def)
qed

lemma tx_outputs_delivers:
  "ledger_ok C K F l \<Longrightarrow> waiting_ok us n \<Longrightarrow> n + length os \<le> 255 \<Longrightarrow> \<forall>o' \<in> set os. output_account o' \<subseteq> K \<Longrightarrow>
   delivers C K F (l, us, n) (coin_total (map out_value os)) (length os) (ofold (apply_tx_output C) os (l, us, n))"
proof (induction os arbitrary: l us n)
  case (Cons o' os)
  have one: "delivers C K F (l, us, n) (coins (out_value o')) 1 (apply_tx_output C o' (l, us, n))"
    using Cons.prems by (intro tx_output_delivers) simp_all
  show ?case
  proof (cases "apply_tx_output C o' (l, us, n)")
    case (Ok st)
    obtain l1 us1 n1 where st: "st = (l1, us1, n1)" by (cases st)
    with one Ok have st1: "ledger_ok C K F l1" "waiting_ok us1 n1" "n1 = n + 1" "lg_static l1 = lg_static l"
      "ledger_coins C l1 + waiting us1 = ledger_coins C l + waiting us + coins (out_value o')" by (auto simp: delivers_def)
    then show ?thesis using Cons.IH [OF st1(1,2)] Cons.prems Ok st by (simp add: delivers_def coin_total_def)
  qed (use one in \<open>simp_all add: delivers_def\<close>)
qed (simp add: delivers_def coin_total_def)

lemma new_utxos_moves:
  assumes "ledger_ok C K F l" and "waiting_ok us n" and "n < 255" and "us \<noteq> []" and "t \<in> F"
  shows "moves C K F l 0 (waiting us)
    (obind (map_err UtxoErr (utxo_add (c_hd C) (lg_utxos l) t us)) (\<lambda>us. Ok (l\<lparr>lg_utxos := us\<rparr>)))"
proof (cases "utxo_add (c_hd C) (lg_utxos l) t us")
  case (Ok u)
  note ok = ledger_okD(1) [OF assms(1)]
  have d: "distinct (map fst us)" using assms(2) by (simp add: waiting_ok_def)
  have step: "utxo_step (c_hd C) (lg_utxos l) (Created t us) u" using utxo_fresh [OF assms(1,5)] d Ok by (rule step_add)
  have u: "utxo_ok (c_hd C) u"
    "utxo_map (c_hd C) u = (\<lambda>(t', i). if t' = t then map_of (rev us) i else utxo_map (c_hd C) (lg_utxos l) (t', i))"
    using utxo_step_effect [OF step ok] by simp_all
  have "t' \<in> F" if t': "t' \<in> dom (hamt_map (c_hd C) u)" for t'
  proof -
    obtain i where "(t', i) \<in> dom (utxo_map (c_hd C) u)" using utxo_dom [OF u(1), of t'] t' by blast
    then have "t' = t \<or> (t', i) \<in> dom (utxo_map (c_hd C) (lg_utxos l))" using u(2) by (auto split: if_splits)
    then have "t' = t \<or> t' \<in> dom (hamt_map (c_hd C) (lg_utxos l))" using utxo_dom [OF ok, of t'] by blast
    then show ?thesis using ledger_okD(8) [OF assms(1)] assms(5) by blast
  qed
  moreover have "address_public_key (out_address o') \<noteq> None" if "utxo_map (c_hd C) u p = Some o'" for p o'
  proof (cases "fst p = t")
    case True
    then have "(snd p, o') \<in> set us" using that u(2) by (cases p) (auto dest: map_of_SomeD)
    then show ?thesis using assms(2) by (auto simp: waiting_ok_def)
  next
    case False
    then show ?thesis using that u(2) ledger_okD(9) [OF assms(1), of p o'] by (cases p) simp
  qed
  ultimately have "ledger_ok C K F (l\<lparr>lg_utxos := u\<rparr>)" using assms(1) u(1) unfolding ledger_ok_def by simp blast
  moreover have "ledger_coins C (l\<lparr>lg_utxos := u\<rparr>) = ledger_coins C l + waiting us"
    using utxo_step_total [OF step ok] by (simp add: ledger_coins_def waiting_def)
  ultimately show ?thesis using Ok by simp
next
  case Panic
  have "length us < 255" using assms(2,3) by (simp add: waiting_ok_def)
  then show ?thesis using utxo_add_spec [OF ledger_okD(1) [OF assms(1)], of us t] Panic assms(4) by (auto split: if_splits)
qed simp

lemma tx_outputs_moves:
  assumes "ledger_ok C K F l" and "t \<in> F" and "length os < 255" and "\<forall>o' \<in> set os. output_account o' \<subseteq> K"
    and "each_output tx (apply_tx_output C) (l, [], 0) = ofold (apply_tx_output C) os (l, [], 0)"
  shows "moves C K F l 0 (coin_total (map out_value os)) (apply_tx_outputs C t tx l)"
proof -
  have d: "delivers C K F (l, [], 0) (coin_total (map out_value os)) (length os) (ofold (apply_tx_output C) os (l, [], 0))"
    using assms(3,4) by (intro tx_outputs_delivers assms(1)) (simp_all add: waiting_ok_def)
  show ?thesis
  proof (cases "ofold (apply_tx_output C) os (l, [], 0)")
    case (Ok st)
    obtain l1 us n where st: "st = (l1, us, n)" by (cases st)
    with d Ok have l1: "ledger_ok C K F l1" "waiting_ok us n" "n = length os" "lg_static l1 = lg_static l"
      "ledger_coins C l1 + waiting us = ledger_coins C l + coin_total (map out_value os)"
      by (auto simp: delivers_def waiting_def coin_total_def)
    have n: "n < 255" using l1(3) assms(3) by simp
    show ?thesis
    proof (cases "us = []")
      case True
      then show ?thesis using l1 Ok st assms(5) by (simp add: apply_tx_outputs_def waiting_def coin_total_def)
    next
      case False
      have "moves C K F l1 0 (waiting us) (obind (map_err UtxoErr (utxo_add (c_hd C) (lg_utxos l1) t us)) (\<lambda>us. Ok (l1\<lparr>lg_utxos := us\<rparr>)))"
        by (rule new_utxos_moves [OF l1(1,2) n False assms(2)])
      then show ?thesis using l1 Ok st assms(5) False by (simp add: apply_tx_outputs_def moves_def)
    qed
  qed (use d assms(5) in \<open>simp_all add: delivers_def apply_tx_outputs_def\<close>)
qed

lemma tx_fee_moves:
  assumes "ledger_ok C K F l"
  shows "moves C K F l 0 (coins fee) (apply_tx_fee fee l)"
proof (cases "append_fees (lg_pots l) fee")
  case (Ok p)
  then show ?thesis using append_fees_spec [OF Ok] assms
    by (auto simp: apply_tx_fee_def ledger_ok_def ledger_coins_def pots_coins_def)
next
  case Panic
  then show ?thesis by (auto simp: append_fees_def outcome_simps checked_simps)
qed (simp add: apply_tx_fee_def)

section \<open>Whole transactions\<close>

lemma balanced_totals:
  assumes "parts_ok P vp va t" and "verify_strictly_balanced (parts_tx P t) fee = Ok u"
  shows "coin_total (map in_value (tp_inputs t)) = coin_total (map out_value (tp_outputs t)) + coins fee"
  using assms(2) by (auto simp: verify_strictly_balanced_def parts_totals [OF assms(1)] outcome_simps checked_simps
      split: if_splits)

lemma balanced_no_panic:
  assumes "parts_ok P vp va t"
  shows "verify_strictly_balanced (parts_tx P t) fee \<noteq> Panic"
  by (auto simp: verify_strictly_balanced_def parts_totals [OF assms(1)] outcome_simps checked_simps
      split: if_splits)

text \<open>The total the ledger computes for itself is the number of coins in it.\<close>

lemma ledger_total_exact:
  assumes "ledger_ok C K F l"
  shows "ledger_total_value l = Ok v \<longleftrightarrow> coins v = ledger_coins C l"
proof -
  obtain old new where old: "utxo_entries (lg_oldutxos l) = Ok old" "coin_total (map (out_value \<circ> entry_output) old) = utxo_total (c_hd C) (lg_oldutxos l)"
    and new: "utxo_entries (lg_utxos l) = Ok new" "coin_total (map (out_value \<circ> entry_output) new) = utxo_total (c_hd C) (lg_utxos l)"
    using utxo_entries_complete [OF ledger_okD(1) [OF assms]] utxo_entries_complete [OF ledger_okD(2) [OF assms]] by blast
  note acc = get_total_value_exact [OF ledger_okD(3) [OF assms]] get_total_value_exact [OF ms_okD(1) [OF ledger_okD(4) [OF assms]]]
  have "ledger_total_value l = Ok v \<longleftrightarrow> (\<exists>a m. coins a = account_total (c_ha C) (lg_accounts l)
      \<and> coins m = account_total (c_hd C) (ms_accounts (lg_multisig l))
      \<and> coins v = utxo_total (c_hd C) (lg_oldutxos l) + utxo_total (c_hd C) (lg_utxos l) + coins a + coins m + pots_coins (lg_pots l))"
    using old(2) new(2)
    by (simp add: ledger_total_value_def old(1) new(1) outcome_simps acc ms_get_total_value_def checked_simps coin_total_def
        pots_values_eq pots_coins_def comp_def add.assoc)
  also have "\<dots> \<longleftrightarrow> coins v = ledger_coins C l"
  proof -
    have "\<exists>a. coins a = n" if "n \<le> coins v" for n
      using that coins_less [of v] by (intro exI [of _ "Value (of_nat n)"]) (simp add: coins_def unat_of_nat_id)
    note ex = this
    show ?thesis
    proof
      assume v: "coins v = ledger_coins C l"
      then have "account_total (c_ha C) (lg_accounts l) \<le> coins v" "account_total (c_hd C) (ms_accounts (lg_multisig l)) \<le> coins v"
        by (simp_all add: ledger_coins_def)
      then obtain a m where "coins a = account_total (c_ha C) (lg_accounts l)" "coins m = account_total (c_hd C) (ms_accounts (lg_multisig l))"
        using ex by meson
      with v show "\<exists>a m. coins a = account_total (c_ha C) (lg_accounts l) \<and> coins m = account_total (c_hd C) (ms_accounts (lg_multisig l))
        \<and> coins v = utxo_total (c_hd C) (lg_oldutxos l) + utxo_total (c_hd C) (lg_utxos l) + coins a + coins m + pots_coins (lg_pots l)"
        by (intro exI [of _ a] exI [of _ m]) (simp add: ledger_coins_def)
    qed (auto simp: ledger_coins_def)
  qed
  finally show ?thesis .
qed

lemma transaction_moves:
  assumes "parts_ok P vp va x" and "ledger_ok C K F l" and "t \<in> F" and "\<forall>o' \<in> set (tp_outputs x). output_account o' \<subseteq> K"
  shows "moves C K F l 0 0 (omap fst (apply_transaction C P t (parts_tx P x) d lp l))"
proof -
  let ?tx = "parts_tx P x" and ?fee = "calculate_fee P (parts_tx P x) lp"
  have len: "length (tp_inputs x) = length (tp_witnesses x)" "length (tp_outputs x) < 256" using assms(1) by (simp_all add: parts_ok_def)
  have ios: "length (tp_outputs x) < 255" if "valid_transaction_ios_number ?tx = Ok u" for u
  proof -
    have "\<not> (254 :: u8) < of_nat (length (tp_outputs x))"
      using that by (auto simp: valid_transaction_ios_number_def parts_slices CHECK_TX_MAXIMUM_OUTPUTS_def split: if_splits)
    then show ?thesis using unat_of_nat_id [of "length (tp_outputs x)", where 'a = 8] len(2) by (simp add: word_less_nat_alt)
  qed
  obtain h where h: "transaction_sign_data_hash (c_blake C) ?tx = (Ok h :: (ledger_error, _) outcome)"
    by (simp add: transaction_sign_data_hash_def parts_slices)
  have "map (\<lambda>x. in_value (fst x)) (zip (tp_inputs x) (tp_witnesses x)) = map in_value (map fst (zip (tp_inputs x) (tp_witnesses x)))" by simp
  also have "\<dots> = map in_value (tp_inputs x)" using len(1) by (simp only: map_fst_zip)
  finally have ins: "moves C K F l (coin_total (map in_value (tp_inputs x))) 0 (apply_tx_inputs C ?tx l)"
    using tx_inputs_moves [OF assms(2), where h = h and iws = "zip (tp_inputs x) (tp_witnesses x)"]
    by (simp add: apply_tx_inputs_def h parts_each(4) [OF assms(1)])
  have outs: "moves C K F l1 0 (coin_total (map out_value (tp_outputs x))) (apply_tx_outputs C t ?tx l1)"
    if "ledger_ok C K F l1" "length (tp_outputs x) < 255" for l1
    using that assms(3,4) by (intro tx_outputs_moves) (simp_all add: parts_each(2) [OF assms(1)])
  have go: "moves C K F l (coin_total (map in_value (tp_inputs x))) (coin_total (map out_value (tp_outputs x)) + coins ?fee)
      (obind (apply_tx_inputs C ?tx l) (\<lambda>l. obind (apply_tx_outputs C t ?tx l) (apply_tx_fee ?fee)))"
    if "length (tp_outputs x) < 255"
    using moves_obind [OF ins, of 0 "coin_total (map out_value (tp_outputs x)) + coins ?fee"
        "\<lambda>l. obind (apply_tx_outputs C t ?tx l) (apply_tx_fee ?fee)"]
      moves_obind [OF outs, of _ 0 "coins ?fee" "apply_tx_fee ?fee"] tx_fee_moves that by simp
  have eq: "omap fst (apply_transaction C P t ?tx d lp l) =
     obind (map_err TransactionMalformed (valid_transaction_ios_number ?tx)) (\<lambda>_.
     obind (map_err InvalidTransactionValidity (valid_transaction_date (lg_settings l) (valid_until ?tx) d)) (\<lambda>_.
     obind (map_err TransactionBalanceInvalid (verify_strictly_balanced ?tx ?fee)) (\<lambda>_.
     obind (apply_tx_inputs C ?tx l) (\<lambda>l. obind (apply_tx_outputs C t ?tx l) (apply_tx_fee ?fee)))))"
    by (simp add: apply_transaction_def Let_def omap_obind comp_def)
  have np: "valid_transaction_ios_number ?tx \<noteq> Panic" "valid_transaction_date (lg_settings l) (valid_until ?tx) d \<noteq> Panic"
    by (auto simp: valid_transaction_ios_number_def valid_transaction_date_def if_cond_fail_with_def split: if_splits)
  show ?thesis
    unfolding eq using np balanced_no_panic [OF assms(1), of ?fee] go [OF ios] balanced_totals [OF assms(1), of ?fee]
    by (cases "valid_transaction_ios_number ?tx"; cases "valid_transaction_date (lg_settings l) (valid_until ?tx) d";
        cases "verify_strictly_balanced ?tx ?fee") (auto simp: moves_def)
qed

section \<open>A sample ledger\<close>

definition sample_crypto :: crypto where
  "sample_crypto = \<lparr>c_blake = (\<lambda>_. replicate 32 0), c_verify = (\<lambda>_ _ _. True), c_old_match = (\<lambda>_ _ _. True),
     c_ha = (\<lambda>_. 0), c_hd = (\<lambda>_. 0), c_hl = (\<lambda>_. 0)\<rparr>"

definition sample_static :: ledger_static_parameters where
  "sample_static = \<lparr>block0_initial_hash = replicate 32 0, block0_start_time = 0, static_discrimination = Test, kes_update_speed = 1\<rparr>"

definition sample_account :: acc_identifier where
  "sample_account = Identifier (PublicKey (replicate 32 7))"

definition sample_empty :: ledger where
  "sample_empty = ledger_empty sample_settings sample_static \<lparr>epoch_start = 0, slot_start = 0, slots_per_epoch = 10\<rparr> pots_zero"

definition sample_funded :: ledger where
  "sample_funded = sample_empty\<lparr>lg_accounts := \<lparr>root = Node 1 [Leaf 0 sample_account (account_state_new (Value 5) ())]\<rparr>\<rparr>"

lemma sample_funded_ok: "ledger_ok sample_crypto {sample_account} {[9]} sample_funded"
proof -
  have empty: "ledger_ok sample_crypto {sample_account} {[9]} sample_empty"
    by (simp add: ledger_ok_def sample_empty_def ledger_empty_def utxo_new_def utxo_map_def utxo_ok_def)
  have "add_account (c_ha sample_crypto) (lg_accounts sample_empty) sample_account (Value 5) ()
      = Ok \<lparr>root = Node 1 [Leaf 0 sample_account (account_state_new (Value 5) ())]\<rparr>"
    by code_simp
  from step_open [OF account_fresh [OF empty] this] have
    "account_step (c_ha sample_crypto) (c_hd sample_crypto) (lg_accounts sample_empty) (Deposit sample_account (Value 5))
      \<lparr>root = Node 1 [Leaf 0 sample_account (account_state_new (Value 5) ())]\<rparr>" by simp
  from account_change(1) [OF empty this] show ?thesis by (simp add: sample_funded_def)
qed

definition sample_run :: "(ledger_error, ledger) outcome" where
  "sample_run =
     obind (ofold (apply_tx_input sample_crypto (replicate 32 0)) (zip (tp_inputs sample_parts) (tp_witnesses sample_parts)) sample_funded) (\<lambda>l.
     obind (obind (ofold (apply_tx_output sample_crypto) (tp_outputs sample_parts) (l, [], 0)) (\<lambda>(l, us, _).
       if us \<noteq> [] then obind (map_err UtxoErr (utxo_add (c_hd sample_crypto) (lg_utxos l) [9] us)) (\<lambda>us. Ok (l\<lparr>lg_utxos := us\<rparr>)) else Ok l))
     (apply_tx_fee value_zero))"

lemma sample_run_ok:
  "case sample_run of
     Ok l \<Rightarrow> (case get_state (c_ha sample_crypto) (lg_accounts l) sample_account of Ok st \<Rightarrow> acc_value st = value_zero | _ \<Rightarrow> False)
   | _ \<Rightarrow> False"
  by code_simp

lemma sample_transaction:
  "omap fst (apply_transaction sample_crypto no_extra [9] (parts_tx no_extra sample_parts) (BlockDate 0 1)
     (get_ledger_parameters sample_funded) sample_funded) = sample_run"
proof -
  have blake: "c_blake sample_crypto = (\<lambda>_. replicate 32 0)" by (simp add: sample_crypto_def)
  have fee: "calculate_fee no_extra (parts_tx no_extra sample_parts) (get_ledger_parameters sample_funded) = value_zero"
    unfolding calculate_fee_def parts_slices by code_simp
  have "valid_transaction_ios_number (parts_tx no_extra sample_parts) = Ok ()"
    unfolding valid_transaction_ios_number_def parts_slices by code_simp
  moreover have "valid_transaction_date (lg_settings sample_funded) (valid_until (parts_tx no_extra sample_parts)) (BlockDate 0 1) = Ok ()"
    unfolding parts_slices by code_simp
  moreover have "verify_strictly_balanced (parts_tx no_extra sample_parts) value_zero = Ok ()"
    unfolding verify_strictly_balanced_def parts_totals [OF sample_parts_ok] by code_simp
  ultimately show ?thesis
    by (simp add: apply_transaction_def fee Let_def apply_tx_inputs_def transaction_sign_data_hash_def parts_slices
        parts_each(2,4) [OF sample_parts_ok] apply_tx_outputs_def sample_run_def omap_obind comp_def blake)
qed

section \<open>Properties\<close>

text \<open>
  C2. A transaction conserves value. For a transaction that passed the structural check, applied to a
  well-formed ledger, the application never panics; if it succeeds, the ledger is well formed again,
  the parameters fixed in block 0 are the same, the coins in unspent outputs, accounts, multisig accounts
  and pots together are exactly as many as before, and so is the total the ledger computes for itself.
\<close>

theorem transaction_conserves:
  assumes "payload_format P vp va" and "parts_ok P vp va x" and "tx_check P (parts_bytes P x) = Ok tx"
    and "ledger_ok C K F l" and "fid \<in> F" and "\<forall>o' \<in> set (tp_outputs x). output_account o' \<subseteq> K"
  shows "apply_transaction C P fid tx d lp l \<noteq> Panic
    \<and> (\<forall>l' fee. apply_transaction C P fid tx d lp l = Ok (l', fee) \<longrightarrow>
        fee = calculate_fee P tx lp \<and> ledger_ok C K F l' \<and> lg_static l' = lg_static l
        \<and> ledger_coins C l' = ledger_coins C l \<and> (ledger_total_value l' = Ok v \<longleftrightarrow> ledger_total_value l = Ok v))"
proof -
  have tx: "tx = parts_tx P x" using assms(3) payload_format.spine_complete [OF assms(1,2)] by (simp add: tx_check_def parts_tx_def)
  note m = transaction_moves [OF assms(2,4,5,6), of d lp, folded tx]
  have fee: "fee = calculate_fee P tx lp" if "apply_transaction C P fid tx d lp l = Ok (l', fee)" for l' fee
    using that by (auto simp: apply_transaction_def Let_def obind_Ok_iff)
  show ?thesis
  proof (intro conjI allI impI)
    show "apply_transaction C P fid tx d lp l \<noteq> Panic" using m by (auto simp: moves_def omap_iffs)
    fix l' fee assume ok: "apply_transaction C P fid tx d lp l = Ok (l', fee)"
    then have l': "ledger_ok C K F l'" "ledger_coins C l' = ledger_coins C l" "lg_static l' = lg_static l" using m by (auto simp: moves_def)
    show "fee = calculate_fee P tx lp" by (rule fee [OF ok])
    show "ledger_ok C K F l'" "ledger_coins C l' = ledger_coins C l" "lg_static l' = lg_static l" by (rule l')+
    show "ledger_total_value l' = Ok v \<longleftrightarrow> ledger_total_value l = Ok v"
      using ledger_total_exact [OF l'(1)] ledger_total_exact [OF assms(4)] l'(2) by simp
  qed
qed

theorem transaction_conserves_witness:
  "\<exists>l' fee. apply_transaction sample_crypto no_extra [9] (parts_tx no_extra sample_parts) (BlockDate 0 1)
      (get_ledger_parameters sample_funded) sample_funded = Ok (l', fee)
    \<and> ledger_coins sample_crypto l' = ledger_coins sample_crypto sample_funded \<and> lg_accounts l' \<noteq> lg_accounts sample_funded"
proof -
  let ?r = "apply_transaction sample_crypto no_extra [9] (parts_tx no_extra sample_parts) (BlockDate 0 1)
      (get_ledger_parameters sample_funded) sample_funded"
  obtain l' fee st where r: "?r = Ok (l', fee)" and st: "get_state (c_ha sample_crypto) (lg_accounts l') sample_account = Ok st" "acc_value st = value_zero"
    using sample_run_ok unfolding sample_transaction [symmetric] by (auto simp: omap_iffs split: outcome.splits)
  have "case get_state (c_ha sample_crypto) (lg_accounts sample_funded) sample_account of Ok st \<Rightarrow> acc_value st \<noteq> value_zero | _ \<Rightarrow> False"
    by code_simp
  with st have "lg_accounts l' \<noteq> lg_accounts sample_funded" by auto
  moreover have "tx_check no_extra (parts_bytes no_extra sample_parts) = Ok (parts_tx no_extra sample_parts)"
    using plain.spine_complete [OF sample_parts_ok] by (simp add: tx_check_def parts_tx_def)
  from transaction_conserves [OF plain.payload_format_axioms sample_parts_ok this sample_funded_ok, of "[9]"] r
  have "ledger_coins sample_crypto l' = ledger_coins sample_crypto sample_funded" by (simp add: sample_parts_def)
  ultimately show ?thesis using r by blast
qed

end
