(* ===== verification/Block_Ledger.thy ===== *)
theory Block_Ledger
  imports Ledger
begin

text \<open>
  From fragments to blocks (\<open>ledger/ledger.rs\<close>, \<open>transaction/element.rs\<close>, \<open>certificate/mint_token.rs\<close>, \<open>tokens/\<close>,
  \<open>chaineval.rs\<close>): the payloads of the certificates, what each certificate does to the ledger, the
  dispatch over the kinds of fragments, the first block, and applying a block.

  A fragment comes with its identifier, the digest of its bytes. What the voting certificates do
  is in theory \<open>Voting\<close>; the \<open>evm\<close> feature is not modelled.
\<close>

section \<open>Payloads of certificates\<close>

datatype account_binding_signature = BindSingle signature | BindMulti u32

text \<open>The tag of a multisig binding is not implemented: reading it panics.\<close>

definition account_binding_read :: "account_binding_signature reader" where
  "account_binding_read buf =
     obind (get_u8 buf) (\<lambda>(tag, buf).
       if tag = 1 then obind (deserialize_signature buf) (\<lambda>(sig, buf). Ok (BindSingle sig, buf))
       else if tag = 2 then Panic
       else Err (UnknownTag (ucast tag)))"

fun account_binding_serialize_in :: "account_binding_signature \<Rightarrow> byte_builder \<Rightarrow> ('e, byte_builder) outcome" where
  "account_binding_serialize_in (BindSingle sig) bb = Ok (bb_sub (bb_u8 bb 1) (\<lambda>bb. bb_bytes bb (sig_bytes sig)))"
| "account_binding_serialize_in (BindMulti _) bb = Panic"

fun account_binding_bytes :: "account_binding_signature \<Rightarrow> u8 list" where
  "account_binding_bytes (BindSingle sig) = 1 # sig_bytes sig"
| "account_binding_bytes (BindMulti _) = []"

text \<open>A minting policy has no entries: the type of entries has no value.\<close>

datatype minting_policy = EmptyPolicy

definition TOKEN_NAME_MAX_SIZE :: nat where "TOKEN_NAME_MAX_SIZE = 32"
definition POLICY_HASH_SIZE :: nat where "POLICY_HASH_SIZE = 28"

definition token_name_try_from :: "u8 list \<Rightarrow> (nat, u8 list) outcome" where
  "token_name_try_from v = (if length v > TOKEN_NAME_MAX_SIZE then Err (length v) else Ok v)"

definition token_name_read :: "u8 list reader" where
  "token_name_read buf =
     obind (get_u8 buf) (\<lambda>(n, buf).
       if unat n > TOKEN_NAME_MAX_SIZE then Err (SizeTooBig TOKEN_NAME_MAX_SIZE (unat n))
       else get_slice (unat n) buf)"

definition minting_policy_read :: "minting_policy reader" where
  "minting_policy_read buf =
     obind (get_u8 buf) (\<lambda>(n, buf).
       if n \<noteq> 0 then Err (InvalidData ''non-zero number of minting policy entries, but they are currently unimplemented'')
       else Ok (EmptyPolicy, buf))"

definition policy_bytes :: "minting_policy \<Rightarrow> u8 list" where
  "policy_bytes _ = [0]"

definition policy_hash :: "minting_policy \<Rightarrow> u8 list" where
  "policy_hash _ = replicate POLICY_HASH_SIZE 0"

definition check_minting_tx :: "minting_policy \<Rightarrow> (ledger_error, unit) outcome" where
  "check_minting_tx _ = Err AdditionalMintingNotAllowed"

record mint_token =
  mt_name :: "u8 list"
  mt_policy :: minting_policy
  mt_to :: acc_identifier
  mt_value :: val

definition mint_token_bytes :: "mint_token \<Rightarrow> u8 list" where
  "mint_token_bytes m = [of_nat (length (mt_name m))] @ mt_name m @ policy_bytes (mt_policy m) @ pk_bytes (id_key (mt_to m))
     @ value_bytes (mt_value m)"

definition mint_token_read :: "mint_token reader" where
  "mint_token_read buf =
     obind (token_name_read buf) (\<lambda>(name, buf). obind (minting_policy_read buf) (\<lambda>(policy, buf).
     obind (read_ed25519 buf) (\<lambda>(k, buf). obind (value_read buf) (\<lambda>(v, buf).
     Ok (\<lparr>mt_name = name, mt_policy = policy, mt_to = Identifier k, mt_value = v\<rparr>, buf)))))"

definition token_identifier_bytes :: "u8 list \<Rightarrow> u8 list \<Rightarrow> u8 list" where
  "token_identifier_bytes policy name = policy @ [of_nat (length name)] @ name"

definition owner_delegation_payload :: "(owner_stake_delegation, unit) payload" where
  "owner_delegation_payload = \<lparr>has_data = True, has_auth = False, payload_read = owner_delegation_read, auth_read = read_unit,
     payload_data = (\<lambda>d. delegation_bytes (osd_delegation d)), payload_auth_data = (\<lambda>_. []),
     certificate_of = Some CsOwnerStakeDelegation\<rparr>"

definition stake_delegation_payload :: "(stake_delegation, account_binding_signature) payload" where
  "stake_delegation_payload = \<lparr>has_data = True, has_auth = True, payload_read = stake_delegation_read, auth_read = account_binding_read,
     payload_data = (\<lambda>d. unspec_bytes (sd_account_id d) @ delegation_bytes (sd_delegation d)),
     payload_auth_data = account_binding_bytes, certificate_of = Some CsStakeDelegation\<rparr>"

definition pool_registration_payload :: "(u8 list \<Rightarrow> u8 list option) \<Rightarrow> (pool_registration, pool_signature) payload" where
  "pool_registration_payload point = \<lparr>has_data = True, has_auth = True, payload_read = registration_read point,
     auth_read = pool_signature_read, payload_data = registration_bytes, payload_auth_data = pool_signature_bytes,
     certificate_of = Some CsPoolRegistration\<rparr>"

definition pool_retirement_payload :: "(pool_retirement, pool_signature) payload" where
  "pool_retirement_payload = \<lparr>has_data = True, has_auth = True, payload_read = retirement_read,
     auth_read = pool_signature_read, payload_data = retirement_bytes, payload_auth_data = pool_signature_bytes,
     certificate_of = Some CsPoolRetirement\<rparr>"

definition pool_update_payload :: "(u8 list \<Rightarrow> u8 list option) \<Rightarrow> (pool_update, pool_signature) payload" where
  "pool_update_payload point = \<lparr>has_data = True, has_auth = True, payload_read = update_read point,
     auth_read = pool_signature_read, payload_data = update_bytes, payload_auth_data = pool_signature_bytes,
     certificate_of = Some CsPoolUpdate\<rparr>"

definition update_proposal_payload :: "(update_proposal, signature) payload" where
  "update_proposal_payload = \<lparr>has_data = True, has_auth = True, payload_read = update_proposal_read,
     auth_read = deserialize_signature, payload_data = update_proposal_bytes, payload_auth_data = sig_bytes,
     certificate_of = Some CsUpdateProposal\<rparr>"

definition update_vote_payload :: "(update_vote, signature) payload" where
  "update_vote_payload = \<lparr>has_data = True, has_auth = True, payload_read = update_vote_read,
     auth_read = deserialize_signature, payload_data = update_vote_bytes, payload_auth_data = sig_bytes,
     certificate_of = Some CsUpdateVote\<rparr>"

definition mint_token_payload :: "(mint_token, unit) payload" where
  "mint_token_payload = \<lparr>has_data = True, has_auth = False, payload_read = mint_token_read, auth_read = read_unit,
     payload_data = mint_token_bytes, payload_auth_data = (\<lambda>_. []), certificate_of = Some CsMintToken\<rparr>"

section \<open>Certificates\<close>

definition apply_update :: "update_proposal \<Rightarrow> ledger \<Rightarrow> (ledger_error, ledger) outcome" where
  "apply_update u l = obind (map_err UpdateErr (try_apply (lg_settings l) (up_changes u))) (\<lambda>s. Ok (l\<lparr>lg_settings := s\<rparr>))"

definition apply_update_proposal ::
  "crypto \<Rightarrow> digest \<Rightarrow> update_proposal \<Rightarrow> u8 list \<Rightarrow> signature \<Rightarrow> block_date \<Rightarrow> ledger \<Rightarrow> (ledger_error, ledger) outcome" where
  "apply_update_proposal C i u auth_data sig cur_date l =
     (if \<not> c_verify C (leader_key (up_proposer_id u)) auth_data sig then Err UpdateProposalSignatureFailed
      else obind (map_err UpdateErr (apply_proposal (c_hd C) (lg_updates l) i u (lg_settings l) cur_date)) (\<lambda>ups.
           Ok (l\<lparr>lg_updates := ups\<rparr>)))"

definition apply_update_vote :: "crypto \<Rightarrow> update_vote \<Rightarrow> u8 list \<Rightarrow> signature \<Rightarrow> ledger \<Rightarrow> (ledger_error, ledger) outcome" where
  "apply_update_vote C v auth_data sig l =
     (if \<not> c_verify C (leader_key (uv_voter_id v)) auth_data sig then Err UpdateVoteSignatureFailed
      else obind (map_err UpdateErr (apply_vote (c_hd C) (c_hl C) (lg_updates l) v (lg_settings l))) (\<lambda>ups.
           Ok (l\<lparr>lg_updates := ups\<rparr>)))"

definition apply_pool_registration :: "crypto \<Rightarrow> pool_registration \<Rightarrow> ledger \<Rightarrow> (ledger_error, ledger) outcome" where
  "apply_pool_registration C cert l =
     obind (valid_pool_registration_certificate cert) (\<lambda>_.
     obind (map_err DelegationErr (register_stake_pool (c_hd C) (c_blake C) (lg_delegation l) cert)) (\<lambda>ps. Ok (l\<lparr>lg_delegation := ps\<rparr>)))"

definition apply_pool_registration_signcheck ::
  "crypto \<Rightarrow> pool_registration \<Rightarrow> u8 list \<Rightarrow> pool_signature \<Rightarrow> ledger \<Rightarrow> (ledger_error, ledger) outcome" where
  "apply_pool_registration_signcheck C cert bad sig l =
     obind (valid_pool_registration_certificate cert) (\<lambda>_.
     obind (valid_pool_signature sig) (\<lambda>_.
     if pool_signature_verify (c_verify C) sig cert bad = VFailed then Err PoolRetirementSignatureFailed
     else apply_pool_registration C cert l))"

definition apply_pool_retirement ::
  "crypto \<Rightarrow> pool_retirement \<Rightarrow> u8 list \<Rightarrow> pool_signature \<Rightarrow> ledger \<Rightarrow> (ledger_error, ledger) outcome" where
  "apply_pool_retirement C cert bad sig l =
     obind (valid_pool_signature sig) (\<lambda>_.
     obind (map_err DelegationErr (stake_pool_get (c_hd C) (lg_delegation l) (prt_pool_id cert))) (\<lambda>reg.
     if pool_signature_verify (c_verify C) sig reg bad = VFailed then Err PoolRetirementSignatureFailed
     else obind (map_err DelegationErr (deregister_stake_pool (c_hd C) (lg_delegation l) (prt_pool_id cert))) (\<lambda>ps.
          Ok (l\<lparr>lg_delegation := ps\<rparr>))))"

definition apply_pool_update :: "crypto \<Rightarrow> pool_update \<Rightarrow> u8 list \<Rightarrow> pool_signature \<Rightarrow> ledger \<Rightarrow> (ledger_error, ledger) outcome" where
  "apply_pool_update C cert bad sig l =
     obind (valid_pool_update_certificate cert) (\<lambda>_.
     obind (valid_pool_signature sig) (\<lambda>_.
     obind (map_err DelegationErr (stake_pool_get_state (c_hd C) (lg_delegation l) (pu_pool_id cert))) (\<lambda>st.
     obind (current_pool_registration_hash (c_blake C) st) (\<lambda>h.
     if pu_last_pool_reg_hash cert \<noteq> h then Err PoolUpdateLastHashDoesntMatch
     else if pr_rewards (pu_new_pool_reg cert) \<noteq> pr_rewards (pool_reg st) then Err PoolUpdateFeesNotAllowedYet
     else if pool_signature_verify (c_verify C) sig (pool_reg st) bad = VFailed then Err PoolUpdateSignatureFailed
     else
       obind (map_err DelegationErr (stake_pool_set_state (c_hd C) (lg_delegation l) (pu_pool_id cert)
           (st\<lparr>pool_reg := pu_new_pool_reg cert\<rparr>))) (\<lambda>ps.
       Ok (l\<lparr>lg_delegation := ps\<rparr>))))))"

definition apply_stake_delegation :: "crypto \<Rightarrow> stake_delegation \<Rightarrow> ledger \<Rightarrow> (ledger_error, ledger) outcome" where
  "apply_stake_delegation C cert l =
     obind (ok_or AccountIdentifierInvalid (to_single_account (sd_account_id cert))) (\<lambda>account_key.
     obind (map_err AccountLedgerErr (set_delegation (c_ha C) (lg_accounts l) account_key (sd_delegation cert))) (\<lambda>as.
     Ok (l\<lparr>lg_accounts := as\<rparr>)))"

definition apply_owner_stake_delegation ::
  "crypto \<Rightarrow> unspecified_account_identifier \<Rightarrow> tx_witness \<Rightarrow> owner_stake_delegation \<Rightarrow> ledger \<Rightarrow> (ledger_error, ledger) outcome" where
  "apply_owner_stake_delegation C account w delegation l =
     obind (match_identifier_witness account w) (\<lambda>m. case m of
       MatchSingle a _ _ \<Rightarrow>
         obind (map_err AccountLedgerErr (set_delegation (c_ha C) (lg_accounts l) a (osd_delegation delegation))) (\<lambda>as.
         Ok (l\<lparr>lg_accounts := as\<rparr>))
     | MatchMulti a _ _ \<Rightarrow>
         obind (map_err MultisigLedgerErr (ms_set_delegation (c_hd C) (lg_multisig l) a (osd_delegation delegation))) (\<lambda>ms.
         Ok (l\<lparr>lg_multisig := ms\<rparr>)))"

definition token_totals_add :: "digest hasher \<Rightarrow> (digest, val) hamt \<Rightarrow> digest \<Rightarrow> val \<Rightarrow> (value_error, (digest, val) hamt) outcome" where
  "token_totals_add hf m token v = hamt_insert_or_update hf m token v (\<lambda>cur. omap Some (value_checked_add cur v))"

definition mint_token_unchecked :: "crypto \<Rightarrow> mint_token \<Rightarrow> ledger \<Rightarrow> (ledger_error, ledger) outcome" where
  "mint_token_unchecked C m l =
     (let token = token_identifier_bytes (policy_hash (mt_policy m)) (mt_name m) in
      obind (map_err AccountLedgerErr (token_add (c_ha C) (c_hd C) (lg_accounts l) (mt_to m) token (mt_value m))) (\<lambda>as.
      obind (map_err FeeCalculationError (token_totals_add (c_hd C) (lg_token_totals l) token (mt_value m))) (\<lambda>totals.
      Ok (l\<lparr>lg_accounts := as, lg_token_totals := totals\<rparr>))))"

definition mint_token_checked :: "crypto \<Rightarrow> mint_token \<Rightarrow> ledger \<Rightarrow> (ledger_error, ledger) outcome" where
  "mint_token_checked C m l = obind (check_minting_tx (mt_policy m)) (\<lambda>_. mint_token_unchecked C m l)"

end
