(* ===== verification/Vote_Plan.thy ===== *)
theory Vote_Plan
  imports Unit_Vector Block_Ledger
begin

text \<open>
  What is voted on (\<open>vote/choice.rs\<close>, \<open>vote/payload.rs\<close>, \<open>certificate/vote_plan.rs\<close>, \<open>certificate/vote_cast.rs\<close>,
  \<open>certificate/vote_tally.rs\<close>, \<open>certificate/encrypted_vote_tally.rs\<close>, \<open>ledger/governance/\<close>): options and choices,
  the payload of a vote, the rules of governance, vote plans with their dates and proposals, and the four
  certificates on the wire.
\<close>

section \<open>Options and choices\<close>

text \<open>The options are the range from zero up to the stored end.\<close>

datatype vote_options = Options (options_end: u8)

definition NUM_CHOICES_MAX :: u8 where "NUM_CHOICES_MAX = 16"

definition options_new_length :: "u8 \<Rightarrow> (u8, vote_options) outcome" where
  "options_new_length n = (if n > 0 \<and> n \<le> NUM_CHOICES_MAX then Ok (Options n) else Err n)"

definition options_validate :: "vote_options \<Rightarrow> u8 \<Rightarrow> bool" where
  "options_validate opts choice \<longleftrightarrow> choice < options_end opts"

definition choice_count :: "vote_options \<Rightarrow> nat" where
  "choice_count opts = unat (options_end opts)"

section \<open>Payloads\<close>

datatype payload_type = PublicVote | PrivateVote

fun payload_type_byte :: "payload_type \<Rightarrow> u8" where
  "payload_type_byte PublicVote = 1"
| "payload_type_byte PrivateVote = 2"

definition payload_type_try_from :: "u8 \<Rightarrow> (read_error, payload_type) outcome" where
  "payload_type_try_from v =
     (if v = 0 then Err (StructureInvalid ''Found a 0 PayloadType. This is unexpected and known to be an error to read a 0.'')
      else if v = 1 then Ok PublicVote
      else if v = 2 then Ok PrivateVote
      else Err (StructureInvalid ''invalid value for a PayloadType''))"

definition payload_type_read :: "payload_type reader" where
  "payload_type_read buf = obind (get_u8 buf) (\<lambda>(v, buf). obind (payload_type_try_from v) (\<lambda>t. Ok (t, buf)))"

datatype ('s, 'g) vote_payload =
    PublicPayload u8
  | PrivatePayload "'g ciphertext list" "('s, 'g) unit_vector_zkp"

fun payload_type_of :: "('s, 'g) vote_payload \<Rightarrow> payload_type" where
  "payload_type_of (PublicPayload _) = PublicVote"
| "payload_type_of (PrivatePayload _ _) = PrivateVote"

text \<open>The proof is written with its number of bits as one byte; the constructor asserts that it fits.\<close>

definition proof_from_inner :: "('s, 'g) unit_vector_zkp \<Rightarrow> ('e, ('s, 'g) unit_vector_zkp) outcome" where
  "proof_from_inner p = obind (require (length (uz_ibas p) \<le> 255)) (\<lambda>_. Ok p)"

definition proof_serialize_in :: "('s, 'g) curve \<Rightarrow> ('s, 'g) unit_vector_zkp \<Rightarrow> byte_builder \<Rightarrow> ('e, byte_builder) outcome" where
  "proof_serialize_in V p bb =
     obind (require (length (uz_ibas p) \<le> 255)) (\<lambda>_.
     let bb = bb_u8 bb (of_nat (length (uz_ibas p)));
         bb = bb_fold bb (uz_ibas p) (\<lambda>bb a. bb_bytes bb (announcement_to_bytes V a));
         bb = bb_fold bb (uz_ds p) (\<lambda>bb d. bb_bytes bb (ct_to_bytes V d));
         bb = bb_fold bb (uz_zwvs p) (\<lambda>bb z. bb_bytes bb (response_to_bytes V z))
     in Ok (bb_bytes bb (sc_to_bytes V (uz_r p))))"

text \<open>A field of known size that may be refused.\<close>

definition read_decoded :: "nat \<Rightarrow> (u8 list \<Rightarrow> (read_error, 'a option) outcome) \<Rightarrow> string \<Rightarrow> 'a reader" where
  "read_decoded n dec msg buf =
     obind (get_slice n buf) (\<lambda>(bs, buf). obind (dec bs) (\<lambda>v. obind (ok_or (StructureInvalid msg) v) (\<lambda>x. Ok (x, buf))))"

definition from_parts ::
  "'g announcement list \<Rightarrow> 'g ciphertext list \<Rightarrow> 's response_randomness list \<Rightarrow> 's \<Rightarrow> ('e, ('s, 'g) unit_vector_zkp) outcome" where
  "from_parts ibas ds zwvs r =
     obind (require (length ibas = length ds)) (\<lambda>_. obind (require (length ibas = length zwvs)) (\<lambda>_.
     Ok \<lparr>uz_ibas = ibas, uz_ds = ds, uz_zwvs = zwvs, uz_r = r\<rparr>))"

definition proof_from_buffer :: "('s, 'g) curve \<Rightarrow> ('s, 'g) unit_vector_zkp reader" where
  "proof_from_buffer V buf =
     obind (get_u8 buf) (\<lambda>(bits, buf).
     obind (read_vec (read_decoded ANNOUNCEMENT_BYTES_LEN (\<lambda>b. Ok (announcement_from_bytes V b)) ''Invalid IBA component'') (unat bits) buf) (\<lambda>(ibas, buf).
     obind (read_vec (read_decoded CIPHERTEXT_BYTES_LEN (ct_from_bytes V) ''Invalid encoded ciphertext'') (unat bits) buf) (\<lambda>(bs, buf).
     obind (read_vec (read_decoded RESPONSE_BYTES_LEN (\<lambda>b. Ok (response_from_bytes V b)) ''Invalid ZWV component'') (unat bits) buf) (\<lambda>(zwvs, buf).
     obind (read_decoded SCALAR_BYTES_LEN (\<lambda>b. Ok (sc_from_bytes V b)) ''Invalid Proof encoded R scalar'' buf) (\<lambda>(r, buf).
     obind (from_parts ibas bs zwvs r) (\<lambda>p. Ok (p, buf)))))))"

definition encrypted_vote_serialize_in :: "('s, 'g) curve \<Rightarrow> 'g ciphertext list \<Rightarrow> byte_builder \<Rightarrow> ('e, byte_builder) outcome" where
  "encrypted_vote_serialize_in V cs bb = bb_iter8 bb cs (\<lambda>bb c. bb_bytes bb (ct_to_bytes V c))"

definition encrypted_vote_read :: "('s, 'g) curve \<Rightarrow> 'g ciphertext list reader" where
  "encrypted_vote_read V buf =
     obind (get_u8 buf) (\<lambda>(n, buf). read_vec (read_decoded CIPHERTEXT_BYTES_LEN (ct_from_bytes V) ''Invalid private vote'') (unat n) buf)"

fun vote_payload_serialize_in :: "('s, 'g) curve \<Rightarrow> ('s, 'g) vote_payload \<Rightarrow> byte_builder \<Rightarrow> ('e, byte_builder) outcome" where
  "vote_payload_serialize_in V (PublicPayload choice) bb = Ok (bb_u8 (bb_u8 bb (payload_type_byte PublicVote)) choice)"
| "vote_payload_serialize_in V (PrivatePayload ev p) bb =
     obind (encrypted_vote_serialize_in V ev (bb_u8 bb (payload_type_byte PrivateVote))) (proof_serialize_in V p)"

definition vote_payload_read :: "('s, 'g) curve \<Rightarrow> ('s, 'g) vote_payload reader" where
  "vote_payload_read V buf =
     obind (payload_type_read buf) (\<lambda>(t, buf).
     if t = PublicVote then obind (get_u8 buf) (\<lambda>(c, buf). Ok (PublicPayload c, buf))
     else obind (encrypted_vote_read V buf) (\<lambda>(ev, buf). obind (proof_from_buffer V buf) (\<lambda>(p, buf). Ok (PrivatePayload ev p, buf))))"

section \<open>Governance\<close>

datatype treasury_action = TreasuryNoOp | TransferToRewards val
datatype treasury_action_type = TreasuryNoOpType | TransferToRewardsType
datatype parameters_action_type = ParametersNoOpType | RewardAddType

record acceptance_criteria =
  minimum_stake_participation :: "ratio option"
  minimum_approval :: "ratio option"
  ac_blank :: u8
  ac_favorable :: u8
  ac_rejection :: u8
  ac_options :: vote_options

definition acceptance_criteria_default :: acceptance_criteria where
  "acceptance_criteria_default =
     \<lparr>minimum_stake_participation = Some \<lparr>numerator = 30, denominator = 100\<rparr>,
      minimum_approval = Some \<lparr>numerator = 50, denominator = 100\<rparr>,
      ac_blank = 0, ac_favorable = 1, ac_rejection = 2, ac_options = Options 3\<rparr>"

fun treasury_action_to_type :: "treasury_action \<Rightarrow> treasury_action_type" where
  "treasury_action_to_type TreasuryNoOp = TreasuryNoOpType"
| "treasury_action_to_type (TransferToRewards _) = TransferToRewardsType"

fun treasury_action_serialize_in :: "treasury_action \<Rightarrow> byte_builder \<Rightarrow> byte_builder" where
  "treasury_action_serialize_in TreasuryNoOp bb = bb_u8 bb 0"
| "treasury_action_serialize_in (TransferToRewards v) bb = bb_u64 (bb_u8 bb 1) (amount v)"

definition treasury_action_read :: "treasury_action reader" where
  "treasury_action_read buf =
     obind (get_u8 buf) (\<lambda>(t, buf).
     if t = 0 then Ok (TreasuryNoOp, buf)
     else if t = 1 then obind (value_read buf) (\<lambda>(v, buf). Ok (TransferToRewards v, buf))
     else Err (UnknownTag (ucast t)))"

fun parameters_action_to_type :: "governance_action \<Rightarrow> parameters_action_type" where
  "parameters_action_to_type NoOpAction = ParametersNoOpType"
| "parameters_action_to_type (RewardAddAction _) = RewardAddType"

fun parameters_action_serialize_in :: "governance_action \<Rightarrow> byte_builder \<Rightarrow> byte_builder" where
  "parameters_action_serialize_in NoOpAction bb = bb_u8 bb 0"
| "parameters_action_serialize_in (RewardAddAction v) bb = bb_u64 (bb_u8 bb 1) (amount v)"

definition parameters_action_read :: "governance_action reader" where
  "parameters_action_read buf =
     obind (get_u8 buf) (\<lambda>(t, buf).
     if t = 0 then Ok (NoOpAction, buf)
     else if t = 1 then obind (value_read buf) (\<lambda>(v, buf). Ok (RewardAddAction v, buf))
     else Err (UnknownTag (ucast t)))"

text \<open>The criteria of one family of actions; the log of the parameters is the field \<open>lg_actions\<close> of the ledger.\<close>

record 'a action_governance =
  criteria_per_action :: "('a, acceptance_criteria) hamt"
  default_criteria :: acceptance_criteria

definition action_governance_new :: "'a action_governance" where
  "action_governance_new = \<lparr>criteria_per_action = hamt_new, default_criteria = acceptance_criteria_default\<rparr>"

definition set_default_acceptance_criteria :: "'a action_governance \<Rightarrow> acceptance_criteria \<Rightarrow> 'a action_governance \<times> acceptance_criteria" where
  "set_default_acceptance_criteria g new = (g\<lparr>default_criteria := new\<rparr>, default_criteria g)"

definition set_acceptance_criteria :: "'a hasher \<Rightarrow> 'a action_governance \<Rightarrow> 'a \<Rightarrow> acceptance_criteria \<Rightarrow> (unit, 'a action_governance) outcome" where
  "set_acceptance_criteria hf g action criteria =
     obind (hamt_insert_or_update_simple hf (criteria_per_action g) action criteria (\<lambda>_. Some criteria)) (\<lambda>m.
     Ok (g\<lparr>criteria_per_action := m\<rparr>))"

definition acceptance_criteria_for :: "'a hasher \<Rightarrow> 'a action_governance \<Rightarrow> 'a \<Rightarrow> ('e, acceptance_criteria) outcome" where
  "acceptance_criteria_for hf g action =
     obind (hamt_lookup hf (criteria_per_action g) action) (\<lambda>c. Ok (case c of None \<Rightarrow> default_criteria g | Some c \<Rightarrow> c))"

record governance =
  gv_treasury :: "treasury_action_type action_governance"
  gv_parameters :: "parameters_action_type action_governance"

text \<open>The hash functions of the two tries.\<close>

record gov_hashers =
  gh_treasury :: "treasury_action_type hasher"
  gh_parameters :: "parameters_action_type hasher"

section \<open>Vote plans\<close>

datatype vote_action = OffChain | TreasuryAction treasury_action | ParametersAction governance_action

record proposal =
  pp_external_id :: digest
  pp_options :: vote_options
  pp_action :: vote_action

record token_identifier =
  ti_policy_hash :: "u8 list"
  ti_token_name :: "u8 list"

definition token_bytes :: "token_identifier \<Rightarrow> u8 list" where
  "token_bytes t = token_identifier_bytes (ti_policy_hash t) (ti_token_name t)"

definition token_identifier_read :: "token_identifier reader" where
  "token_identifier_read buf =
     obind (read_array POLICY_HASH_SIZE buf) (\<lambda>(policy, buf). obind (token_name_read buf) (\<lambda>(name, buf).
     Ok (\<lparr>ti_policy_hash = policy, ti_token_name = name\<rparr>, buf)))"

record 'g vote_plan =
  vp_vote_start :: block_date
  vp_vote_end :: block_date
  vp_committee_end :: block_date
  vp_payload_type :: payload_type
  vp_proposals :: "proposal list"
  vp_committee_keys :: "'g list"
  vp_voting_token :: token_identifier

definition PROPOSALS_MAX_LEN :: nat where "PROPOSALS_MAX_LEN = 255"

text \<open>\<open>Success\<close> with the longer list, or \<open>Full\<close> with the refused proposal.\<close>

definition proposals_push :: "proposal list \<Rightarrow> proposal \<Rightarrow> (proposal, proposal list) outcome" where
  "proposals_push ps p = (if length ps \<ge> PROPOSALS_MAX_LEN then Err p else Ok (ps @ [p]))"

definition proposal_check_governance :: "gov_hashers \<Rightarrow> governance \<Rightarrow> proposal \<Rightarrow> ('e, bool) outcome" where
  "proposal_check_governance H g p =
     (case pp_action p of
        OffChain \<Rightarrow> Ok True
      | ParametersAction a \<Rightarrow>
          omap (\<lambda>c. ac_options c = pp_options p) (acceptance_criteria_for (gh_parameters H) (gv_parameters g) (parameters_action_to_type a))
      | TreasuryAction a \<Rightarrow>
          omap (\<lambda>c. ac_options c = pp_options p) (acceptance_criteria_for (gh_treasury H) (gv_treasury g) (treasury_action_to_type a)))"

fun proposals_check_governance :: "gov_hashers \<Rightarrow> governance \<Rightarrow> proposal list \<Rightarrow> ('e, bool) outcome" where
  "proposals_check_governance H g [] = Ok True"
| "proposals_check_governance H g (p # ps) =
     obind (proposal_check_governance H g p) (\<lambda>ok. if ok then proposals_check_governance H g ps else Ok False)"

definition check_governance :: "gov_hashers \<Rightarrow> governance \<Rightarrow> 'g vote_plan \<Rightarrow> ('e, bool) outcome" where
  "check_governance H g vp = proposals_check_governance H g (vp_proposals vp)"

definition is_governance :: "'g vote_plan \<Rightarrow> bool" where
  "is_governance vp = list_ex (\<lambda>p. pp_action p \<noteq> OffChain) (vp_proposals vp)"

definition vote_started :: "'g vote_plan \<Rightarrow> block_date \<Rightarrow> bool" where
  "vote_started vp date \<longleftrightarrow> vp_vote_start vp \<le> date"

definition vote_finished :: "'g vote_plan \<Rightarrow> block_date \<Rightarrow> bool" where
  "vote_finished vp date \<longleftrightarrow> vp_vote_end vp \<le> date"

definition can_vote :: "'g vote_plan \<Rightarrow> block_date \<Rightarrow> bool" where
  "can_vote vp date \<longleftrightarrow> vote_started vp date \<and> \<not> vote_finished vp date"

definition committee_started :: "'g vote_plan \<Rightarrow> block_date \<Rightarrow> bool" where
  "committee_started vp date \<longleftrightarrow> vp_vote_end vp \<le> date"

definition committee_finished :: "'g vote_plan \<Rightarrow> block_date \<Rightarrow> bool" where
  "committee_finished vp date \<longleftrightarrow> vp_committee_end vp \<le> date"

definition committee_time :: "'g vote_plan \<Rightarrow> block_date \<Rightarrow> bool" where
  "committee_time vp date \<longleftrightarrow> committee_started vp date \<and> \<not> committee_finished vp date"

fun vote_action_serialize_in :: "vote_action \<Rightarrow> byte_builder \<Rightarrow> byte_builder" where
  "vote_action_serialize_in OffChain bb = bb_u8 bb 0"
| "vote_action_serialize_in (TreasuryAction a) bb = bb_sub (bb_u8 bb 1) (treasury_action_serialize_in a)"
| "vote_action_serialize_in (ParametersAction a) bb = bb_sub (bb_u8 bb 2) (parameters_action_serialize_in a)"

definition proposal_serialize_in :: "proposal \<Rightarrow> byte_builder \<Rightarrow> byte_builder" where
  "proposal_serialize_in p bb =
     bb_sub (bb_u8 (bb_bytes bb (pp_external_id p)) (options_end (pp_options p))) (vote_action_serialize_in (pp_action p))"

definition vote_plan_serialize_in :: "('s, 'g) curve \<Rightarrow> 'g vote_plan \<Rightarrow> byte_builder \<Rightarrow> ('e, byte_builder) outcome" where
  "vote_plan_serialize_in V vp bb =
     (let bb = bb_u32 (bb_u32 bb (bd_epoch (vp_vote_start vp))) (bd_slot (vp_vote_start vp));
          bb = bb_u32 (bb_u32 bb (bd_epoch (vp_vote_end vp))) (bd_slot (vp_vote_end vp));
          bb = bb_u32 (bb_u32 bb (bd_epoch (vp_committee_end vp))) (bd_slot (vp_committee_end vp));
          bb = bb_u8 bb (payload_type_byte (vp_payload_type vp)) in
      obind (bb_iter8 bb (vp_proposals vp) (\<lambda>bb p. proposal_serialize_in p bb)) (\<lambda>bb.
      obind (bb_iter8 bb (vp_committee_keys vp) (\<lambda>bb k. bb_bytes bb (cv_to_bytes V k))) (\<lambda>bb.
      Ok (bb_bytes bb (token_bytes (vp_voting_token vp))))))"

definition vote_plan_serialize :: "('s, 'g) curve \<Rightarrow> 'g vote_plan \<Rightarrow> ('e, u8 list) outcome" where
  "vote_plan_serialize V vp = obind (vote_plan_serialize_in V vp bb_new) bb_finalize"

definition vote_plan_to_id :: "(u8 list \<Rightarrow> digest) \<Rightarrow> ('s, 'g) curve \<Rightarrow> 'g vote_plan \<Rightarrow> ('e, digest) outcome" where
  "vote_plan_to_id blake V vp = omap blake (vote_plan_serialize V vp)"

definition vote_action_read :: "vote_action reader" where
  "vote_action_read buf =
     obind (get_u8 buf) (\<lambda>(t, buf).
     if t = 0 then Ok (OffChain, buf)
     else if t = 1 then obind (treasury_action_read buf) (\<lambda>(a, buf). Ok (TreasuryAction a, buf))
     else if t = 2 then obind (parameters_action_read buf) (\<lambda>(a, buf). Ok (ParametersAction a, buf))
     else Err (UnknownTag (ucast t)))"

definition options_read :: "vote_options reader" where
  "options_read buf =
     obind (get_u8 buf) (\<lambda>(n, buf).
     obind (map_err (\<lambda>_. StructureInvalid ''Invalid multi choice option'') (options_new_length n)) (\<lambda>opts. Ok (opts, buf)))"

definition proposal_read :: "proposal reader" where
  "proposal_read buf =
     obind (read_array 32 buf) (\<lambda>(external_id, buf).
     obind (options_read buf) (\<lambda>(options, buf).
     obind (vote_action_read buf) (\<lambda>(action, buf).
     Ok (\<lparr>pp_external_id = external_id, pp_options = options, pp_action = action\<rparr>, buf))))"

definition date_read :: "block_date reader" where
  "date_read buf = obind (get_u32 buf) (\<lambda>(e, buf). obind (get_u32 buf) (\<lambda>(s, buf). Ok (BlockDate e s, buf)))"

definition vote_plan_read :: "('s, 'g) curve \<Rightarrow> 'g vote_plan reader" where
  "vote_plan_read V buf =
     obind (date_read buf) (\<lambda>(vote_start, buf).
     obind (date_read buf) (\<lambda>(vote_end, buf).
     obind (date_read buf) (\<lambda>(committee_end, buf).
     obind (payload_type_read buf) (\<lambda>(t, buf).
     obind (read_counted8 proposal_read buf) (\<lambda>(proposals, buf).
     obind (read_counted8 (read_decoded GROUP_BYTES_LEN (\<lambda>b. Ok (cv_from_bytes V b)) ''invalid public key format'') buf) (\<lambda>(keys, buf).
     obind (token_identifier_read buf) (\<lambda>(token, buf).
     Ok (\<lparr>vp_vote_start = vote_start, vp_vote_end = vote_end, vp_committee_end = committee_end, vp_payload_type = t,
          vp_proposals = proposals, vp_committee_keys = keys, vp_voting_token = token\<rparr>, buf))))))))"

section \<open>Proofs of the committee\<close>

text \<open>\<open>VotePlanProof\<close> and \<open>EncryptedVoteTallyProof\<close> have the same two fields.\<close>

record committee_proof =
  cp_id :: committee_id
  cp_signature :: signature

definition committee_read :: "committee_id reader" where
  "committee_read buf =
     obind (get_slice COMMITTEE_ID_SIZE buf) (\<lambda>(s, buf).
     obind (map_err (\<lambda>_. StructureInvalid ''Not enough bytes'') (committee_try_from s)) (\<lambda>c. Ok (c, buf)))"

text \<open>\<open>expect\<close>: the identifier has to be a key.\<close>

definition committee_public_key :: "committee_id \<Rightarrow> ('e, public_key) outcome" where
  "committee_public_key c = unwrap (public_from_binary (committee_bytes c))"

definition committee_proof_serialize_in :: "committee_proof \<Rightarrow> byte_builder \<Rightarrow> byte_builder" where
  "committee_proof_serialize_in p bb = bb_bytes (bb_bytes bb (committee_bytes (cp_id p))) (sig_bytes (cp_signature p))"

definition committee_proof_read :: "committee_proof reader" where
  "committee_proof_read buf =
     obind (committee_read buf) (\<lambda>(c, buf). obind (deserialize_signature buf) (\<lambda>(s, buf).
     Ok (\<lparr>cp_id = c, cp_signature = s\<rparr>, buf)))"

definition committee_proof_verify :: "verifier \<Rightarrow> committee_proof \<Rightarrow> u8 list \<Rightarrow> ('e, bool) outcome" where
  "committee_proof_verify verify p bad = omap (\<lambda>pk. verify pk bad (cp_signature p)) (committee_public_key (cp_id p))"

datatype tally_proof = TallyProofPublic committee_proof | TallyProofPrivate committee_proof

fun tally_proof_committee :: "tally_proof \<Rightarrow> committee_id" where
  "tally_proof_committee (TallyProofPublic p) = cp_id p"
| "tally_proof_committee (TallyProofPrivate p) = cp_id p"

fun tally_proof_serialize_in :: "tally_proof \<Rightarrow> byte_builder \<Rightarrow> byte_builder" where
  "tally_proof_serialize_in (TallyProofPublic p) bb = committee_proof_serialize_in p (bb_u8 bb 0)"
| "tally_proof_serialize_in (TallyProofPrivate p) bb = committee_proof_serialize_in p (bb_u8 bb 1)"

fun tally_proof_verify :: "verifier \<Rightarrow> tally_proof \<Rightarrow> payload_type \<Rightarrow> u8 list \<Rightarrow> ('e, bool) outcome" where
  "tally_proof_verify verify (TallyProofPublic p) t bad = (if t \<noteq> PublicVote then Ok False else committee_proof_verify verify p bad)"
| "tally_proof_verify verify (TallyProofPrivate p) t bad = (if t \<noteq> PrivateVote then Ok False else committee_proof_verify verify p bad)"

definition tally_proof_read :: "tally_proof reader" where
  "tally_proof_read buf =
     obind (get_u8 buf) (\<lambda>(t, buf).
     if t = 0 then obind (committee_proof_read buf) (\<lambda>(p, buf). Ok (TallyProofPublic p, buf))
     else if t = 1 then obind (committee_proof_read buf) (\<lambda>(p, buf). Ok (TallyProofPrivate p, buf))
     else Err (StructureInvalid ''Unknown Tally proof type''))"

section \<open>Casting and tallying\<close>

record ('s, 'g) vote_cast =
  vc_vote_plan :: digest
  vc_proposal_index :: u8
  vc_payload :: "('s, 'g) vote_payload"

definition vote_cast_serialize_in :: "('s, 'g) curve \<Rightarrow> ('s, 'g) vote_cast \<Rightarrow> byte_builder \<Rightarrow> ('e, byte_builder) outcome" where
  "vote_cast_serialize_in V c bb =
     vote_payload_serialize_in V (vc_payload c) (bb_u8 (bb_bytes bb (vc_vote_plan c)) (vc_proposal_index c))"

definition vote_cast_read :: "('s, 'g) curve \<Rightarrow> ('s, 'g) vote_cast reader" where
  "vote_cast_read V buf =
     obind (read_array 32 buf) (\<lambda>(plan, buf). obind (get_u8 buf) (\<lambda>(i, buf). obind (vote_payload_read V buf) (\<lambda>(p, buf).
     Ok (\<lparr>vc_vote_plan = plan, vc_proposal_index = i, vc_payload = p\<rparr>, buf))))"

record ('s, 'g) decrypted_proposal =
  dp_decrypt_shares :: "('s, 'g) tally_decrypt_share list"
  dp_tally_result :: "u64 list"

datatype ('s, 'g) tally_payload = TallyPayloadPublic | TallyPayloadPrivate "('s, 'g) decrypted_proposal list"

record ('s, 'g) vote_tally =
  vt_id :: digest
  vt_payload :: "('s, 'g) tally_payload"

fun tally_payload_type :: "('s, 'g) tally_payload \<Rightarrow> payload_type" where
  "tally_payload_type TallyPayloadPublic = PublicVote"
| "tally_payload_type (TallyPayloadPrivate _) = PrivateVote"

fun tally_payload_decrypted :: "('s, 'g) tally_payload \<Rightarrow> ('s, 'g) decrypted_proposal list option" where
  "tally_payload_decrypted TallyPayloadPublic = None"
| "tally_payload_decrypted (TallyPayloadPrivate ps) = Some ps"

text \<open>All the shares of one proposal have to speak of the same number of options.\<close>

definition decrypted_tally_new :: "('s, 'g) decrypted_proposal list \<Rightarrow> (unit, ('s, 'g) decrypted_proposal list) outcome" where
  "decrypted_tally_new ps =
     (if list_all (\<lambda>p. case dp_decrypt_shares p of [] \<Rightarrow> True | first # shares \<Rightarrow> list_all (\<lambda>sh. length sh = length first) shares) ps
      then Ok ps else Err ())"

text \<open>Without shares, two zeros are written and the result is dropped.\<close>

definition decrypted_proposal_bytes :: "('s, 'g) curve \<Rightarrow> ('s, 'g) decrypted_proposal \<Rightarrow> byte_builder \<Rightarrow> ('e, byte_builder) outcome" where
  "decrypted_proposal_bytes V p bb =
     obind (require (length (dp_decrypt_shares p) \<le> 255)) (\<lambda>_.
     if dp_decrypt_shares p = [] then Ok (bb_u8 (bb_u8 bb 0) 0)
     else
       obind (require (length (dp_tally_result p) \<le> 255)) (\<lambda>_.
       let bb = bb_u8 (bb_u8 bb (of_nat (length (dp_decrypt_shares p)))) (of_nat (length (dp_tally_result p)));
           bb = bb_fold bb (dp_decrypt_shares p) (\<lambda>bb sh. bb_bytes bb (share_to_bytes V sh))
       in Ok (bb_fold bb (dp_tally_result p) (\<lambda>bb w. bb_u64 bb w))))"

fun decrypted_proposals_bytes :: "('s, 'g) curve \<Rightarrow> ('s, 'g) decrypted_proposal list \<Rightarrow> byte_builder \<Rightarrow> ('e, byte_builder) outcome" where
  "decrypted_proposals_bytes V [] bb = Ok bb"
| "decrypted_proposals_bytes V (p # ps) bb = obind (decrypted_proposal_bytes V p bb) (decrypted_proposals_bytes V ps)"

definition vote_tally_serialize_in :: "('s, 'g) curve \<Rightarrow> ('s, 'g) vote_tally \<Rightarrow> byte_builder \<Rightarrow> ('e, byte_builder) outcome" where
  "vote_tally_serialize_in V t bb =
     (let bb = bb_u8 (bb_bytes bb (vt_id t)) (payload_type_byte (tally_payload_type (vt_payload t))) in
      case vt_payload t of
        TallyPayloadPublic \<Rightarrow> Ok bb
      | TallyPayloadPrivate ps \<Rightarrow>
          obind (require (length ps \<le> 255)) (\<lambda>_. decrypted_proposals_bytes V ps (bb_u8 bb (of_nat (length ps)))))"

definition decrypted_proposal_read :: "('s, 'g) curve \<Rightarrow> ('s, 'g) decrypted_proposal reader" where
  "decrypted_proposal_read V buf =
     obind (get_u8 buf) (\<lambda>(shares_number, buf). obind (get_u8 buf) (\<lambda>(options_number, buf).
     obind (share_bytes_len (unat options_number)) (\<lambda>share_bytes.
     obind (read_vec (read_decoded share_bytes (share_from_bytes V) ''invalid decrypt share structure'') (unat shares_number) buf) (\<lambda>(shares, buf).
     obind (read_vec get_u64 (unat options_number) buf) (\<lambda>(decrypted, buf).
     Ok (\<lparr>dp_decrypt_shares = shares, dp_tally_result = decrypted\<rparr>, buf))))))"

definition vote_tally_read :: "('s, 'g) curve \<Rightarrow> ('s, 'g) vote_tally reader" where
  "vote_tally_read V buf =
     obind (read_array 32 buf) (\<lambda>(id, buf). obind (payload_type_read buf) (\<lambda>(t, buf).
     if t = PublicVote then Ok (\<lparr>vt_id = id, vt_payload = TallyPayloadPublic\<rparr>, buf)
     else
       obind (read_counted8 (decrypted_proposal_read V) buf) (\<lambda>(ps, buf).
       obind (map_err (\<lambda>_. InvalidData ''decrypt_shares in the proposal should have the same options amount'') (decrypted_tally_new ps)) (\<lambda>ps.
       Ok (\<lparr>vt_id = id, vt_payload = TallyPayloadPrivate ps\<rparr>, buf)))))"

definition encrypted_vote_tally_read :: "digest reader" where
  "encrypted_vote_tally_read = read_array 32"

section \<open>The wire formats\<close>

text \<open>Decoders of the curve library accept one encoding of every element.\<close>

definition curve_canonical :: "('s, 'g) curve \<Rightarrow> bool" where
  "curve_canonical V \<longleftrightarrow> (\<forall>b a. length b = GROUP_BYTES_LEN \<longrightarrow> cv_from_bytes V b = Some a \<longrightarrow> cv_to_bytes V a = b)
     \<and> (\<forall>b a. length b = SCALAR_BYTES_LEN \<longrightarrow> sc_from_bytes V b = Some a \<longrightarrow> sc_to_bytes V a = b)"

lemma decoded_format:
  assumes "\<And>x. valid x \<Longrightarrow> length (enc x) = n \<and> dec (enc x) = Ok (Some x)"
    and "\<And>bs. length bs = n \<Longrightarrow> \<exists>v. dec bs = Ok v \<and> (\<forall>x. v = Some x \<longrightarrow> valid x \<and> enc x = bs)"
  shows "canonical_format valid enc (read_decoded n dec msg)"
proof -
  have "canonical_format valid enc (\<lambda>buf. obind (read_array n buf) (\<lambda>(bs, buf). obind (dec bs) (\<lambda>v. obind (ok_or (StructureInvalid msg) v) (\<lambda>x. Ok (x, buf)))))"
  proof (rule bind_format [where p = enc and encr = "\<lambda>_ _. []", OF array_format])
    fix bs :: "u8 list" assume len: "length bs = n"
    obtain v where v: "dec bs = Ok v" "\<And>x. v = Some x \<Longrightarrow> valid x \<and> enc x = bs" using assms(2) [OF len] by blast
    have inj: "x = y" if "valid x" "valid y" "enc y = enc x" for x y using assms(1) [OF that(1)] assms(1) [OF that(2)] that(3) by simp
    have "canonical_format (\<lambda>y. valid y \<and> enc y = bs) (\<lambda>_. []) (\<lambda>buf. obind (ok_or (StructureInvalid msg) v) (\<lambda>x. Ok (x, buf)))"
      by (rule check_format, rule return_format) (use v assms(1) inj in auto)
    then show "canonical_format (\<lambda>y. valid y \<and> enc y = bs) (\<lambda>_. [])
        (\<lambda>buf. obind (dec bs) (\<lambda>v. obind (ok_or (StructureInvalid msg) v) (\<lambda>x. Ok (x, buf))))"
      by (simp add: v(1))
  qed (use assms(1) in auto)
  then show ?thesis by (rule format_transfer) (simp_all add: read_decoded_def read_array_def)
qed

lemma canonicalD:
  "curve_canonical V \<Longrightarrow> length b = GROUP_BYTES_LEN \<Longrightarrow> cv_from_bytes V b = Some a \<Longrightarrow> cv_to_bytes V a = b"
  "curve_canonical V \<Longrightarrow> length b = SCALAR_BYTES_LEN \<Longrightarrow> sc_from_bytes V b = Some s \<Longrightarrow> sc_to_bytes V s = b"
  by (simp_all add: curve_canonical_def)

lemmas curve_bytes = scale_laws(5-8)

lemma group_format:
  assumes "curve_ok V" and "curve_canonical V"
  shows "canonical_format (\<lambda>_. True) (cv_to_bytes V) (read_decoded GROUP_BYTES_LEN (\<lambda>b. Ok (cv_from_bytes V b)) msg)"
  by (rule decoded_format) (use assms in \<open>auto simp: curve_bytes canonicalD\<close>)

lemma scalar_format:
  assumes "curve_ok V" and "curve_canonical V"
  shows "canonical_format (\<lambda>_. True) (sc_to_bytes V) (read_decoded SCALAR_BYTES_LEN (\<lambda>b. Ok (sc_from_bytes V b)) msg)"
  by (rule decoded_format) (use assms in \<open>auto simp: curve_bytes canonicalD\<close>)

lemma split_three: "length bs = n * 3 \<Longrightarrow> take n bs @ take n (drop n bs) @ drop (n * 2) bs = bs"
  by (simp add: append_take_drop_id [symmetric] mult_2_right drop_drop [symmetric] del: drop_drop append_take_drop_id)
     (metis append_take_drop_id drop_drop)

lemma canonical_parts:
  assumes "curve_canonical V"
  shows "length bs = GROUP_BYTES_LEN * 2 \<Longrightarrow> cv_from_bytes V (take GROUP_BYTES_LEN bs) = Some a
      \<Longrightarrow> cv_from_bytes V (drop GROUP_BYTES_LEN bs) = Some b \<Longrightarrow> cv_to_bytes V a @ cv_to_bytes V b = bs"
    and "length bs = GROUP_BYTES_LEN * 3 \<Longrightarrow> cv_from_bytes V (take GROUP_BYTES_LEN bs) = Some a
      \<Longrightarrow> cv_from_bytes V (take GROUP_BYTES_LEN (drop GROUP_BYTES_LEN bs)) = Some b
      \<Longrightarrow> cv_from_bytes V (drop (GROUP_BYTES_LEN * 2) bs) = Some c \<Longrightarrow> cv_to_bytes V a @ cv_to_bytes V b @ cv_to_bytes V c = bs"
    and "length bs = SCALAR_BYTES_LEN * 3 \<Longrightarrow> sc_from_bytes V (take SCALAR_BYTES_LEN bs) = Some s
      \<Longrightarrow> sc_from_bytes V (take SCALAR_BYTES_LEN (drop SCALAR_BYTES_LEN bs)) = Some t
      \<Longrightarrow> sc_from_bytes V (drop (SCALAR_BYTES_LEN * 2) bs) = Some u \<Longrightarrow> sc_to_bytes V s @ sc_to_bytes V t @ sc_to_bytes V u = bs"
proof -
  note g = canonicalD(1) [OF assms] and sc = canonicalD(2) [OF assms]
  show "cv_to_bytes V a @ cv_to_bytes V b = bs"
    if "length bs = GROUP_BYTES_LEN * 2" "cv_from_bytes V (take GROUP_BYTES_LEN bs) = Some a" "cv_from_bytes V (drop GROUP_BYTES_LEN bs) = Some b"
    using g [OF _ that(2)] g [OF _ that(3)] that(1) by simp
  show "cv_to_bytes V a @ cv_to_bytes V b @ cv_to_bytes V c = bs"
    if "length bs = GROUP_BYTES_LEN * 3" "cv_from_bytes V (take GROUP_BYTES_LEN bs) = Some a"
      "cv_from_bytes V (take GROUP_BYTES_LEN (drop GROUP_BYTES_LEN bs)) = Some b" "cv_from_bytes V (drop (GROUP_BYTES_LEN * 2) bs) = Some c"
    using g [OF _ that(2)] g [OF _ that(3)] g [OF _ that(4)] that(1) split_three [OF that(1)] by simp
  show "sc_to_bytes V s @ sc_to_bytes V t @ sc_to_bytes V u = bs"
    if "length bs = SCALAR_BYTES_LEN * 3" "sc_from_bytes V (take SCALAR_BYTES_LEN bs) = Some s"
      "sc_from_bytes V (take SCALAR_BYTES_LEN (drop SCALAR_BYTES_LEN bs)) = Some t" "sc_from_bytes V (drop (SCALAR_BYTES_LEN * 2) bs) = Some u"
    using sc [OF _ that(2)] sc [OF _ that(3)] sc [OF _ that(4)] that(1) split_three [OF that(1)] by simp
qed

lemma ciphertext_format:
  assumes "curve_ok V" and "curve_canonical V"
  shows "canonical_format (\<lambda>_. True) (ct_to_bytes V) (read_decoded CIPHERTEXT_BYTES_LEN (ct_from_bytes V) msg)"
proof (rule decoded_format)
  show "length (ct_to_bytes V x) = CIPHERTEXT_BYTES_LEN \<and> ct_from_bytes V (ct_to_bytes V x) = Ok (Some x)" for x
    using assms(1) by (simp add: ct_to_bytes_def ct_from_bytes_def CIPHERTEXT_BYTES_LEN_def curve_bytes require_def)
  show "\<exists>v. ct_from_bytes V bs = Ok v \<and> (\<forall>x. v = Some x \<longrightarrow> True \<and> ct_to_bytes V x = bs)"
    if "length bs = CIPHERTEXT_BYTES_LEN" for bs
    using that canonical_parts(1) [OF assms(2), of bs]
    by (auto simp: ct_from_bytes_def ct_to_bytes_def CIPHERTEXT_BYTES_LEN_def require_def split: option.splits)
qed

lemma announcement_format:
  assumes "curve_ok V" and "curve_canonical V"
  shows "canonical_format (\<lambda>_. True) (announcement_to_bytes V) (read_decoded ANNOUNCEMENT_BYTES_LEN (\<lambda>b. Ok (announcement_from_bytes V b)) msg)"
proof (rule decoded_format)
  show "length (announcement_to_bytes V x) = ANNOUNCEMENT_BYTES_LEN \<and> Ok (announcement_from_bytes V (announcement_to_bytes V x)) = Ok (Some x)" for x
    using assms(1) by (simp add: announcement_to_bytes_def announcement_from_bytes_def ANNOUNCEMENT_BYTES_LEN_def curve_bytes)
  show "\<exists>v. Ok (announcement_from_bytes V bs) = Ok v \<and> (\<forall>x. v = Some x \<longrightarrow> True \<and> announcement_to_bytes V x = bs)"
    if "length bs = ANNOUNCEMENT_BYTES_LEN" for bs
    using that canonical_parts(2) [OF assms(2), of bs]
    by (auto simp: announcement_from_bytes_def announcement_to_bytes_def ANNOUNCEMENT_BYTES_LEN_def split: option.splits)
qed

lemma response_format:
  assumes "curve_ok V" and "curve_canonical V"
  shows "canonical_format (\<lambda>_. True) (response_to_bytes V) (read_decoded RESPONSE_BYTES_LEN (\<lambda>b. Ok (response_from_bytes V b)) msg)"
proof (rule decoded_format)
  show "length (response_to_bytes V x) = RESPONSE_BYTES_LEN \<and> Ok (response_from_bytes V (response_to_bytes V x)) = Ok (Some x)" for x
    using assms(1) by (simp add: response_to_bytes_def response_from_bytes_def RESPONSE_BYTES_LEN_def curve_bytes)
  show "\<exists>v. Ok (response_from_bytes V bs) = Ok v \<and> (\<forall>x. v = Some x \<longrightarrow> True \<and> response_to_bytes V x = bs)"
    if "length bs = RESPONSE_BYTES_LEN" for bs
    using that canonical_parts(3) [OF assms(2), of bs]
    by (auto simp: response_from_bytes_def response_to_bytes_def RESPONSE_BYTES_LEN_def split: option.splits)
qed

lemma payload_type_format: "canonical_format (\<lambda>_. True) (\<lambda>t. [payload_type_byte t]) payload_type_read"
proof -
  have "canonical_format (\<lambda>_. True) (\<lambda>t. [payload_type_byte t])
      (\<lambda>buf. obind (get_u8 buf) (\<lambda>(v, buf). obind (payload_type_try_from v) (\<lambda>t. Ok (t, buf))))"
  proof (rule bind_format [where p = payload_type_byte and encr = "\<lambda>_ _. []", OF u8_format.canonical_format_axioms])
    fix v :: u8
    have one: "True \<and> payload_type_byte t = 1 \<longleftrightarrow> t = PublicVote" "True \<and> payload_type_byte t = 2 \<longleftrightarrow> t = PrivateVote" for t by (cases t; simp)+
    have none: "\<not> (True \<and> payload_type_byte t = v)" if "v \<noteq> 1" "v \<noteq> 2" for t using that by (cases t) auto
    show "canonical_format (\<lambda>t. True \<and> payload_type_byte t = v) (\<lambda>_. []) (\<lambda>buf. obind (payload_type_try_from v) (\<lambda>t. Ok (t, buf)))"
    proof -
      consider "v = 1" | "v = 2" | "v \<noteq> 1" "v \<noteq> 2" by blast
      then show ?thesis
      proof cases
        case 1
        then show ?thesis using return_format [of "\<lambda>t. True \<and> payload_type_byte t = v" PublicVote "\<lambda>_. []"] one by (simp add: payload_type_try_from_def)
      next
        case 2
        then show ?thesis using return_format [of "\<lambda>t. True \<and> payload_type_byte t = v" PrivateVote "\<lambda>_. []"] one by (simp add: payload_type_try_from_def)
      next
        case 3
        then show ?thesis using fail_format [of "\<lambda>t. True \<and> payload_type_byte t = v"] none by (simp add: payload_type_try_from_def)
      qed
    qed
  qed auto
  then show ?thesis by (simp add: payload_type_read_def [abs_def])
qed

lemma date_format: "canonical_format (\<lambda>_. True) date_bytes date_read"
proof -
  have "canonical_format (\<lambda>_. True) (record_bytes [\<lambda>d. to_be_bytes (bd_epoch d), \<lambda>d. to_be_bytes (bd_slot d)]) date_read"
    unfolding date_read_def [abs_def]
    by (rule field_format [OF u32_format.canonical_format_axioms, where p = bd_epoch],
        rule field_format [OF u32_format.canonical_format_axioms, where p = bd_slot], rule end_format) (auto simp: block_date.expand)
  then show ?thesis by (rule format_transfer) (simp_all add: date_bytes_def)
qed

fun treasury_action_bytes :: "treasury_action \<Rightarrow> u8 list" where
  "treasury_action_bytes TreasuryNoOp = [0]"
| "treasury_action_bytes (TransferToRewards v) = 1 # value_bytes v"

fun parameters_action_bytes :: "governance_action \<Rightarrow> u8 list" where
  "parameters_action_bytes NoOpAction = [0]"
| "parameters_action_bytes (RewardAddAction v) = 1 # value_bytes v"

fun vote_action_bytes :: "vote_action \<Rightarrow> u8 list" where
  "vote_action_bytes OffChain = [0]"
| "vote_action_bytes (TreasuryAction a) = 1 # treasury_action_bytes a"
| "vote_action_bytes (ParametersAction a) = 2 # parameters_action_bytes a"

lemma action_tag:
  "hd (treasury_action_bytes a) = (case a of TreasuryNoOp \<Rightarrow> 0 | _ \<Rightarrow> 1)"
  "hd (parameters_action_bytes b) = (case b of NoOpAction \<Rightarrow> 0 | _ \<Rightarrow> 1)"
  "hd (vote_action_bytes c) = (case c of OffChain \<Rightarrow> 0 | TreasuryAction _ \<Rightarrow> 1 | ParametersAction _ \<Rightarrow> 2)"
  by (simp_all split: treasury_action.split governance_action.split vote_action.split)

lemma action_nonempty: "treasury_action_bytes a \<noteq> []" "parameters_action_bytes b \<noteq> []" "vote_action_bytes c \<noteq> []"
  by (auto elim: treasury_action_bytes.elims parameters_action_bytes.elims vote_action_bytes.elims)

lemma treasury_action_format: "canonical_format (\<lambda>_. True) treasury_action_bytes treasury_action_read"
  unfolding treasury_action_read_def [abs_def]
proof (rule bind_format [where p = "hd \<circ> treasury_action_bytes" and encr = "\<lambda>_. tl \<circ> treasury_action_bytes", OF u8_format.canonical_format_axioms])
  fix t :: u8
  have one: "canonical_format (\<lambda>a. True \<and> (hd \<circ> treasury_action_bytes) a = 1) (tl \<circ> treasury_action_bytes)
      (\<lambda>b. obind (value_read b) (\<lambda>(v, buf). Ok (TransferToRewards v, buf)))"
    by (rule map_format [OF value_format.canonical_format_axioms, where h = "\<lambda>a. case a of TransferToRewards v \<Rightarrow> v"])
       (auto elim!: treasury_action_bytes.elims split: treasury_action.splits)
  have zero: "canonical_format (\<lambda>a. True \<and> (hd \<circ> treasury_action_bytes) a = 0) (tl \<circ> treasury_action_bytes) (\<lambda>b. Ok (TreasuryNoOp, b))"
    by (rule return_format) (auto simp: action_tag split: treasury_action.splits)
  show "canonical_format (\<lambda>a. True \<and> (hd \<circ> treasury_action_bytes) a = t) (tl \<circ> treasury_action_bytes)
      (\<lambda>buf. if t = 0 then Ok (TreasuryNoOp, buf)
        else if t = 1 then obind (value_read buf) (\<lambda>(v, buf). Ok (TransferToRewards v, buf)) else Err (UnknownTag (ucast t)))"
    by (intro if_format fail_format) (use zero one in \<open>auto simp: action_tag split: treasury_action.splits\<close>)
qed (simp_all add: action_nonempty)

lemma parameters_action_format: "canonical_format (\<lambda>_. True) parameters_action_bytes parameters_action_read"
  unfolding parameters_action_read_def [abs_def]
proof (rule bind_format [where p = "hd \<circ> parameters_action_bytes" and encr = "\<lambda>_. tl \<circ> parameters_action_bytes", OF u8_format.canonical_format_axioms])
  fix t :: u8
  have one: "canonical_format (\<lambda>a. True \<and> (hd \<circ> parameters_action_bytes) a = 1) (tl \<circ> parameters_action_bytes)
      (\<lambda>b. obind (value_read b) (\<lambda>(v, buf). Ok (RewardAddAction v, buf)))"
    by (rule map_format [OF value_format.canonical_format_axioms, where h = "\<lambda>a. case a of RewardAddAction v \<Rightarrow> v"])
       (auto elim!: parameters_action_bytes.elims split: governance_action.splits)
  have zero: "canonical_format (\<lambda>a. True \<and> (hd \<circ> parameters_action_bytes) a = 0) (tl \<circ> parameters_action_bytes) (\<lambda>b. Ok (NoOpAction, b))"
    by (rule return_format) (auto simp: action_tag split: governance_action.splits)
  show "canonical_format (\<lambda>a. True \<and> (hd \<circ> parameters_action_bytes) a = t) (tl \<circ> parameters_action_bytes)
      (\<lambda>buf. if t = 0 then Ok (NoOpAction, buf)
        else if t = 1 then obind (value_read buf) (\<lambda>(v, buf). Ok (RewardAddAction v, buf)) else Err (UnknownTag (ucast t)))"
    by (intro if_format fail_format) (use zero one in \<open>auto simp: action_tag split: governance_action.splits\<close>)
qed (simp_all add: action_nonempty)

lemma vote_action_format: "canonical_format (\<lambda>_. True) vote_action_bytes vote_action_read"
  unfolding vote_action_read_def [abs_def]
proof (rule bind_format [where p = "hd \<circ> vote_action_bytes" and encr = "\<lambda>_. tl \<circ> vote_action_bytes", OF u8_format.canonical_format_axioms])
  fix t :: u8
  have one: "canonical_format (\<lambda>a. True \<and> (hd \<circ> vote_action_bytes) a = 1) (tl \<circ> vote_action_bytes)
      (\<lambda>b. obind (treasury_action_read b) (\<lambda>(a, buf). Ok (TreasuryAction a, buf)))"
    by (rule map_format [OF treasury_action_format, where h = "\<lambda>a. case a of TreasuryAction a \<Rightarrow> a"])
       (auto elim!: vote_action_bytes.elims split: vote_action.splits)
  have two: "canonical_format (\<lambda>a. True \<and> (hd \<circ> vote_action_bytes) a = 2) (tl \<circ> vote_action_bytes)
      (\<lambda>b. obind (parameters_action_read b) (\<lambda>(a, buf). Ok (ParametersAction a, buf)))"
    by (rule map_format [OF parameters_action_format, where h = "\<lambda>a. case a of ParametersAction a \<Rightarrow> a"])
       (auto elim!: vote_action_bytes.elims split: vote_action.splits)
  have zero: "canonical_format (\<lambda>a. True \<and> (hd \<circ> vote_action_bytes) a = 0) (tl \<circ> vote_action_bytes) (\<lambda>b. Ok (OffChain, b))"
    by (rule return_format) (auto simp: action_tag split: vote_action.splits)
  show "canonical_format (\<lambda>a. True \<and> (hd \<circ> vote_action_bytes) a = t) (tl \<circ> vote_action_bytes)
      (\<lambda>buf. if t = 0 then Ok (OffChain, buf)
        else if t = 1 then obind (treasury_action_read buf) (\<lambda>(a, buf). Ok (TreasuryAction a, buf))
        else if t = 2 then obind (parameters_action_read buf) (\<lambda>(a, buf). Ok (ParametersAction a, buf))
        else Err (UnknownTag (ucast t)))"
    by (intro if_format fail_format) (use zero one two in \<open>auto simp: action_tag split: vote_action.splits\<close>)
qed (simp_all add: action_nonempty)

definition options_ok :: "vote_options \<Rightarrow> bool" where
  "options_ok opts \<longleftrightarrow> 0 < options_end opts \<and> options_end opts \<le> NUM_CHOICES_MAX"

lemma options_format: "canonical_format options_ok (\<lambda>opts. [options_end opts]) options_read"
  unfolding options_read_def [abs_def]
proof (rule bind_format [where p = options_end and encr = "\<lambda>_ _. []", OF u8_format.canonical_format_axioms])
  fix n :: u8
  show "canonical_format (\<lambda>opts. options_ok opts \<and> options_end opts = n) (\<lambda>_. [])
      (\<lambda>buf. obind (map_err (\<lambda>_. StructureInvalid ''Invalid multi choice option'') (options_new_length n)) (\<lambda>opts. Ok (opts, buf)))"
  proof (cases "n > 0 \<and> n \<le> NUM_CHOICES_MAX")
    case True
    then have "options_ok y \<and> options_end y = n \<longleftrightarrow> y = Options n" for y by (cases y) (auto simp: options_ok_def)
    then have "canonical_format (\<lambda>opts. options_ok opts \<and> options_end opts = n) (\<lambda>_. []) (\<lambda>buf. Ok (Options n, buf))" by (rule return_format) simp
    then show ?thesis using True by (simp add: options_new_length_def)
  next
    case False
    then show ?thesis using fail_format [of "\<lambda>opts. options_ok opts \<and> options_end opts = n"] by (auto simp: options_new_length_def options_ok_def)
  qed
qed auto

definition proposal_ok :: "proposal \<Rightarrow> bool" where
  "proposal_ok p \<longleftrightarrow> length (pp_external_id p) = 32 \<and> options_ok (pp_options p)"

definition proposal_bytes :: "proposal \<Rightarrow> u8 list" where
  "proposal_bytes = record_bytes [\<lambda>p. pp_external_id p, \<lambda>p. [options_end (pp_options p)], \<lambda>p. vote_action_bytes (pp_action p)]"

lemma proposal_format: "canonical_format proposal_ok proposal_bytes proposal_read"
  unfolding proposal_read_def [abs_def] proposal_bytes_def
  by (rule field_format [OF array_format, where p = pp_external_id], rule field_format [OF options_format, where p = pp_options],
      rule field_format [OF vote_action_format, where p = pp_action], rule end_format) (auto simp: proposal_ok_def)

definition token_ok :: "token_identifier \<Rightarrow> bool" where
  "token_ok t \<longleftrightarrow> length (ti_policy_hash t) = POLICY_HASH_SIZE \<and> length (ti_token_name t) \<le> TOKEN_NAME_MAX_SIZE"

lemma token_name_format:
  "canonical_format (\<lambda>n. length n \<le> TOKEN_NAME_MAX_SIZE) (\<lambda>n. of_nat (length n) # n) token_name_read"
  unfolding token_name_read_def [abs_def]
proof (rule bind_format [where p = "\<lambda>n. of_nat (length n)" and encr = "\<lambda>_ n. n", OF u8_format.canonical_format_axioms])
  fix n :: u8
  have "length x \<le> TOKEN_NAME_MAX_SIZE \<and> of_nat (length x) = n \<longleftrightarrow> length x = unat n" if "unat n \<le> TOKEN_NAME_MAX_SIZE" for x :: "u8 list"
    using that by (auto simp: TOKEN_NAME_MAX_SIZE_def unat_of_nat_id)
  moreover have "\<not> (length x \<le> TOKEN_NAME_MAX_SIZE \<and> of_nat (length x) = n)" if "\<not> unat n \<le> TOKEN_NAME_MAX_SIZE" for x :: "u8 list"
    using that by (auto simp: TOKEN_NAME_MAX_SIZE_def unat_of_nat_id)
  ultimately show "canonical_format (\<lambda>x. length x \<le> TOKEN_NAME_MAX_SIZE \<and> of_nat (length x) = n) (\<lambda>n. n)
      (\<lambda>b. if unat n > TOKEN_NAME_MAX_SIZE then Err (SizeTooBig TOKEN_NAME_MAX_SIZE (unat n)) else get_slice (unat n) b)"
    by (intro if_format fail_format format_transfer [OF array_format [of "unat n"]]) (auto simp: read_array_def not_less)
qed auto

lemma token_format: "canonical_format token_ok token_bytes token_identifier_read"
proof -
  have "canonical_format token_ok (record_bytes [\<lambda>t. ti_policy_hash t, \<lambda>t. of_nat (length (ti_token_name t)) # ti_token_name t]) token_identifier_read"
    unfolding token_identifier_read_def [abs_def]
    by (rule field_format [OF array_format, where p = ti_policy_hash], rule field_format [OF token_name_format, where p = ti_token_name],
        rule end_format) (auto simp: token_ok_def)
  then show ?thesis by (rule format_transfer) (simp_all add: token_bytes_def token_identifier_bytes_def)
qed

definition counted :: "('a \<Rightarrow> u8 list) \<Rightarrow> 'a list \<Rightarrow> u8 list" where
  "counted enc xs = of_nat (length xs) # concat (map enc xs)"

lemma counted_format:
  "canonical_format valid enc rd \<Longrightarrow> canonical_format (\<lambda>xs. length xs < 2 ^ 8 \<and> (\<forall>x \<in> set xs. valid x)) (counted enc) (read_counted8 rd)"
  by (rule format_transfer [OF counted8_format]) (simp_all add: counted_def)

definition vote_plan_ok :: "'g vote_plan \<Rightarrow> bool" where
  "vote_plan_ok vp \<longleftrightarrow> length (vp_proposals vp) < 2 ^ 8 \<and> (\<forall>p \<in> set (vp_proposals vp). proposal_ok p)
     \<and> length (vp_committee_keys vp) < 2 ^ 8 \<and> token_ok (vp_voting_token vp)"

definition vote_plan_bytes :: "('s, 'g) curve \<Rightarrow> 'g vote_plan \<Rightarrow> u8 list" where
  "vote_plan_bytes V = record_bytes [\<lambda>p. date_bytes (vp_vote_start p), \<lambda>p. date_bytes (vp_vote_end p), \<lambda>p. date_bytes (vp_committee_end p),
     \<lambda>p. [payload_type_byte (vp_payload_type p)], \<lambda>p. counted proposal_bytes (vp_proposals p),
     \<lambda>p. counted (cv_to_bytes V) (vp_committee_keys p), \<lambda>p. token_bytes (vp_voting_token p)]"

lemma vote_plan_format:
  assumes "curve_ok V" and "curve_canonical V"
  shows "canonical_format vote_plan_ok (vote_plan_bytes V) (vote_plan_read V)"
  unfolding vote_plan_read_def [abs_def] vote_plan_bytes_def
  by (rule field_format [OF date_format, where p = vp_vote_start], rule field_format [OF date_format, where p = vp_vote_end],
      rule field_format [OF date_format, where p = vp_committee_end], rule field_format [OF payload_type_format, where p = vp_payload_type],
      rule field_format [OF counted_format [OF proposal_format], where p = vp_proposals],
      rule field_format [OF counted_format [OF group_format [OF assms]], where p = vp_committee_keys],
      rule field_format [OF token_format, where p = vp_voting_token], rule end_format)
     (auto simp: vote_plan_ok_def)

definition zkp_ok :: "('s, 'g) unit_vector_zkp \<Rightarrow> bool" where
  "zkp_ok p \<longleftrightarrow> length (uz_ibas p) < 2 ^ 8 \<and> length (uz_ds p) = length (uz_ibas p) \<and> length (uz_zwvs p) = length (uz_ibas p)"

definition zkp_bytes :: "('s, 'g) curve \<Rightarrow> ('s, 'g) unit_vector_zkp \<Rightarrow> u8 list" where
  "zkp_bytes V = record_bytes [\<lambda>p. [of_nat (length (uz_ibas p))], \<lambda>p. concat (map (announcement_to_bytes V) (uz_ibas p)),
     \<lambda>p. concat (map (ct_to_bytes V) (uz_ds p)), \<lambda>p. concat (map (response_to_bytes V) (uz_zwvs p)), \<lambda>p. sc_to_bytes V (uz_r p)]"

lemma zkp_format:
  assumes "curve_ok V" and "curve_canonical V"
  shows "canonical_format zkp_ok (zkp_bytes V) (proof_from_buffer V)"
proof -
  have len: "length (uz_ibas p) = unat n" if "zkp_ok p" "of_nat (length (uz_ibas p)) = n" for p :: "('a, 'b) unit_vector_zkp" and n :: u8
    using that by (auto simp: zkp_ok_def unat_of_nat_id)
  have "canonical_format zkp_ok (zkp_bytes V) (\<lambda>buf.
     obind (get_u8 buf) (\<lambda>(bits, buf).
     obind (read_vec (read_decoded ANNOUNCEMENT_BYTES_LEN (\<lambda>b. Ok (announcement_from_bytes V b)) ''Invalid IBA component'') (unat bits) buf) (\<lambda>(ibas, buf).
     obind (read_vec (read_decoded CIPHERTEXT_BYTES_LEN (ct_from_bytes V) ''Invalid encoded ciphertext'') (unat bits) buf) (\<lambda>(bs, buf).
     obind (read_vec (read_decoded RESPONSE_BYTES_LEN (\<lambda>b. Ok (response_from_bytes V b)) ''Invalid ZWV component'') (unat bits) buf) (\<lambda>(zwvs, buf).
     obind (read_decoded SCALAR_BYTES_LEN (\<lambda>b. Ok (sc_from_bytes V b)) ''Invalid Proof encoded R scalar'' buf) (\<lambda>(r, buf).
     obind (from_parts ibas bs zwvs r) (\<lambda>p. Ok (p, buf))))))))"
    unfolding zkp_bytes_def
  proof (rule field_format [OF u8_format.canonical_format_axioms, where p = "\<lambda>p. of_nat (length (uz_ibas p))"],
      rule field_format [OF vec_format [OF announcement_format [OF assms]], where p = uz_ibas],
      rule field_format [OF vec_format [OF ciphertext_format [OF assms]], where p = uz_ds],
      rule field_format [OF vec_format [OF response_format [OF assms]], where p = uz_zwvs],
      rule field_format [OF scalar_format [OF assms], where p = uz_r])
    fix bits :: u8 and ibas :: "'b announcement list" and bs :: "'b ciphertext list" and zwvs :: "'a response_randomness list" and r :: 'a
    assume l: "length ibas = unat bits \<and> (\<forall>x \<in> set ibas. True)" "length bs = unat bits \<and> (\<forall>x \<in> set bs. True)"
      "length zwvs = unat bits \<and> (\<forall>x \<in> set zwvs. True)"
    let ?p = "\<lparr>uz_ibas = ibas, uz_ds = bs, uz_zwvs = zwvs, uz_r = r\<rparr>"
    have "((((zkp_ok y \<and> of_nat (length (uz_ibas y)) = bits) \<and> uz_ibas y = ibas) \<and> uz_ds y = bs) \<and> uz_zwvs y = zwvs) \<and> uz_r y = r \<longleftrightarrow> y = ?p" for y
      using l unat_lt_2p [of bits] by (cases y) (auto simp: zkp_ok_def)
    then have "canonical_format (\<lambda>y. ((((zkp_ok y \<and> of_nat (length (uz_ibas y)) = bits) \<and> uz_ibas y = ibas) \<and> uz_ds y = bs) \<and> uz_zwvs y = zwvs) \<and> uz_r y = r)
        (record_bytes []) (\<lambda>buf. Ok (?p, buf))" by (rule end_format)
    then show "canonical_format (\<lambda>y. ((((zkp_ok y \<and> of_nat (length (uz_ibas y)) = bits) \<and> uz_ibas y = ibas) \<and> uz_ds y = bs) \<and> uz_zwvs y = zwvs) \<and> uz_r y = r)
        (record_bytes []) (\<lambda>buf. obind (from_parts ibas bs zwvs r) (\<lambda>p. Ok (p, buf)))"
      using l by (simp add: from_parts_def require_def)
  qed (use len in \<open>auto simp: zkp_ok_def\<close>)
  then show ?thesis by (simp add: proof_from_buffer_def [abs_def])
qed

fun vote_payload_ok :: "('s, 'g) vote_payload \<Rightarrow> bool" where
  "vote_payload_ok (PublicPayload _) = True"
| "vote_payload_ok (PrivatePayload ev p) \<longleftrightarrow> length ev < 2 ^ 8 \<and> zkp_ok p"

fun vote_payload_bytes :: "('s, 'g) curve \<Rightarrow> ('s, 'g) vote_payload \<Rightarrow> u8 list" where
  "vote_payload_bytes V (PublicPayload c) = [1, c]"
| "vote_payload_bytes V (PrivatePayload ev p) = 2 # counted (ct_to_bytes V) ev @ zkp_bytes V p"

lemma payload_type_simps: "payload_type_of y = PublicVote \<longleftrightarrow> (\<exists>c. y = PublicPayload c)"
  "payload_type_of y = PrivateVote \<longleftrightarrow> (\<exists>ev p. y = PrivatePayload ev p)"
  by (cases y; simp)+

lemma vote_payload_format:
  assumes "curve_ok V" and "curve_canonical V"
  shows "canonical_format vote_payload_ok (vote_payload_bytes V) (vote_payload_read V)"
  unfolding vote_payload_read_def [abs_def]
proof (rule bind_format [where p = payload_type_of and encr = "\<lambda>_. tl \<circ> vote_payload_bytes V", OF payload_type_format])
  fix t
  have pub: "canonical_format (\<lambda>y. vote_payload_ok y \<and> payload_type_of y = PublicVote) (tl \<circ> vote_payload_bytes V)
      (\<lambda>b. obind (get_u8 b) (\<lambda>(c, buf). Ok (PublicPayload c, buf)))"
    by (rule map_format [OF u8_format.canonical_format_axioms, where h = "\<lambda>y. case y of PublicPayload c \<Rightarrow> c"])
       (auto simp: payload_type_simps)
  have enc: "canonical_format (\<lambda>cs. length cs < 2 ^ 8) (counted (ct_to_bytes V)) (encrypted_vote_read V)"
    by (rule format_transfer [OF counted_format [OF ciphertext_format [OF assms]]]) (simp_all add: encrypted_vote_read_def read_counted8_def)
  have "canonical_format (\<lambda>y. vote_payload_ok y \<and> payload_type_of y = PrivateVote)
      (record_bytes [\<lambda>y. counted (ct_to_bytes V) (case y of PrivatePayload ev p \<Rightarrow> ev), \<lambda>y. zkp_bytes V (case y of PrivatePayload ev p \<Rightarrow> p)])
      (\<lambda>b. obind (encrypted_vote_read V b) (\<lambda>(ev, buf). obind (proof_from_buffer V buf) (\<lambda>(p, buf). Ok (PrivatePayload ev p, buf))))"
    by (rule field_format [OF enc, where p = "\<lambda>y. case y of PrivatePayload ev p \<Rightarrow> ev"],
        rule field_format [OF zkp_format [OF assms], where p = "\<lambda>y. case y of PrivatePayload ev p \<Rightarrow> p"], rule end_format)
       (auto simp: payload_type_simps)
  then have priv: "canonical_format (\<lambda>y. vote_payload_ok y \<and> payload_type_of y = PrivateVote) (tl \<circ> vote_payload_bytes V)
      (\<lambda>b. obind (encrypted_vote_read V b) (\<lambda>(ev, buf). obind (proof_from_buffer V buf) (\<lambda>(p, buf). Ok (PrivatePayload ev p, buf))))"
    by (rule format_transfer) (auto simp: payload_type_simps)
  show "canonical_format (\<lambda>y. vote_payload_ok y \<and> payload_type_of y = t) (tl \<circ> vote_payload_bytes V)
      (\<lambda>buf. if t = PublicVote then obind (get_u8 buf) (\<lambda>(c, buf). Ok (PublicPayload c, buf))
        else obind (encrypted_vote_read V buf) (\<lambda>(ev, buf). obind (proof_from_buffer V buf) (\<lambda>(p, buf). Ok (PrivatePayload ev p, buf))))"
    using pub priv by (cases t) simp_all
qed (auto elim!: vote_payload_ok.elims)

definition vote_cast_ok :: "('s, 'g) vote_cast \<Rightarrow> bool" where
  "vote_cast_ok c \<longleftrightarrow> length (vc_vote_plan c) = 32 \<and> vote_payload_ok (vc_payload c)"

definition vote_cast_bytes :: "('s, 'g) curve \<Rightarrow> ('s, 'g) vote_cast \<Rightarrow> u8 list" where
  "vote_cast_bytes V = record_bytes [\<lambda>c. vc_vote_plan c, \<lambda>c. [vc_proposal_index c], \<lambda>c. vote_payload_bytes V (vc_payload c)]"

lemma vote_cast_format:
  assumes "curve_ok V" and "curve_canonical V"
  shows "canonical_format vote_cast_ok (vote_cast_bytes V) (vote_cast_read V)"
  unfolding vote_cast_read_def [abs_def] vote_cast_bytes_def
  by (rule field_format [OF array_format, where p = vc_vote_plan], rule field_format [OF u8_format.canonical_format_axioms, where p = vc_proposal_index],
      rule field_format [OF vote_payload_format [OF assms], where p = vc_payload], rule end_format) (auto simp: vote_cast_ok_def)

text \<open>What the writers write.\<close>

lemma vote_action_write: "vote_action_serialize_in a bb = bb\<lparr>bb_buffer := bb_buffer bb @ vote_action_bytes a\<rparr>"
proof -
  have t: "treasury_action_serialize_in x bb = bb\<lparr>bb_buffer := bb_buffer bb @ treasury_action_bytes x\<rparr>" for x bb
    by (cases x) (simp_all add: bb_simps value_bytes_def)
  have p: "parameters_action_serialize_in x bb = bb\<lparr>bb_buffer := bb_buffer bb @ parameters_action_bytes x\<rparr>" for x bb
    by (cases x) (simp_all add: bb_simps value_bytes_def)
  show ?thesis by (cases a) (simp_all add: bb_simps bb_sub_def t p)
qed

lemma counted_write:
  assumes "\<And>x bb. f bb x = bb\<lparr>bb_buffer := bb_buffer bb @ enc x\<rparr>" and "length xs < 2 ^ 8"
  shows "bb_iter8 bb xs f = Ok (bb\<lparr>bb_buffer := bb_buffer bb @ counted enc xs\<rparr>)"
  using bb_iter_appends(1) [of f enc xs bb] assms by (simp add: appends_def counted_def)

lemma vote_plan_write:
  assumes "vote_plan_ok vp"
  shows "vote_plan_serialize V vp = (Ok (vote_plan_bytes V vp) :: ('e, _) outcome)"
proof -
  have p: "proposal_serialize_in x bb = bb\<lparr>bb_buffer := bb_buffer bb @ proposal_bytes x\<rparr>" for x bb
    by (simp add: proposal_serialize_in_def proposal_bytes_def bb_simps bb_sub_def vote_action_write)
  have "bb_iter8 bb (vp_proposals vp) (\<lambda>bb p. proposal_serialize_in p bb) = (Ok (bb\<lparr>bb_buffer := bb_buffer bb @ counted proposal_bytes (vp_proposals vp)\<rparr>) :: ('e, _) outcome)"
    "bb_iter8 bb (vp_committee_keys vp) (\<lambda>bb k. bb_bytes bb (cv_to_bytes V k)) = (Ok (bb\<lparr>bb_buffer := bb_buffer bb @ counted (cv_to_bytes V) (vp_committee_keys vp)\<rparr>) :: ('e, _) outcome)" for bb
    using assms by (intro counted_write; simp add: p bb_simps vote_plan_ok_def)+
  then show ?thesis
    by (simp add: vote_plan_serialize_def vote_plan_serialize_in_def Let_def bb_simps vote_plan_bytes_def date_bytes_def bb_finalize_def bb_new_def)
qed

lemma fold_write: "bb_fold bb xs (\<lambda>bb x. bb\<lparr>bb_buffer := bb_buffer bb @ enc x\<rparr>) = bb\<lparr>bb_buffer := bb_buffer bb @ concat (map enc xs)\<rparr>"
  by (rule bb_fold_appends) (simp add: appends_def)

lemma vote_cast_write:
  assumes "vote_cast_ok c"
  shows "vote_cast_serialize_in V c bb = (Ok (bb\<lparr>bb_buffer := bb_buffer bb @ vote_cast_bytes V c\<rparr>) :: ('e, _) outcome)"
proof -
  have z: "proof_serialize_in V p bb = (Ok (bb\<lparr>bb_buffer := bb_buffer bb @ zkp_bytes V p\<rparr>) :: ('e, _) outcome)" if "zkp_ok p" for p bb
    using that by (simp add: proof_serialize_in_def zkp_bytes_def zkp_ok_def require_def fold_write bb_simps Let_def)
  have e: "encrypted_vote_serialize_in V cs bb = (Ok (bb\<lparr>bb_buffer := bb_buffer bb @ counted (ct_to_bytes V) cs\<rparr>) :: ('e, _) outcome)" if "length cs < 2 ^ 8" for cs bb
    unfolding encrypted_vote_serialize_in_def using that by (intro counted_write) (simp add: bb_simps)
  show ?thesis using assms
    by (cases "vc_payload c") (simp_all add: vote_cast_serialize_in_def vote_cast_bytes_def vote_cast_ok_def bb_simps z e)
qed

lemma committee_format: "canonical_format (\<lambda>c. length (committee_bytes c) = COMMITTEE_ID_SIZE) committee_bytes committee_read"
proof -
  have "canonical_format (\<lambda>c. length (committee_bytes c) = COMMITTEE_ID_SIZE) committee_bytes
      (\<lambda>buf. obind (read_array COMMITTEE_ID_SIZE buf) (\<lambda>(s, buf). Ok (CommitteeId s, buf)))"
    by (rule map_format [OF array_format, where h = committee_bytes]) auto
  then show ?thesis
  proof (rule format_transfer)
    fix b :: read_buf assume "rb_ok b"
    then have len: "length s = COMMITTEE_ID_SIZE" if "read_array COMMITTEE_ID_SIZE b = Ok (s, b')" for s b'
      using canonical_format.rd_canonical [OF array_format, of b] that by blast
    show "committee_read b = obind (read_array COMMITTEE_ID_SIZE b) (\<lambda>(s, buf). Ok (CommitteeId s, buf))"
      using len by (cases "read_array COMMITTEE_ID_SIZE b") (auto simp: committee_read_def read_array_def committee_try_from_def)
  qed simp_all
qed

definition committee_proof_ok :: "committee_proof \<Rightarrow> bool" where
  "committee_proof_ok p \<longleftrightarrow> length (committee_bytes (cp_id p)) = COMMITTEE_ID_SIZE \<and> sig_ok (cp_signature p)"

definition committee_proof_bytes :: "committee_proof \<Rightarrow> u8 list" where
  "committee_proof_bytes = record_bytes [\<lambda>p. committee_bytes (cp_id p), \<lambda>p. sig_bytes (cp_signature p)]"

lemma committee_proof_format: "canonical_format committee_proof_ok committee_proof_bytes committee_proof_read"
  unfolding committee_proof_read_def [abs_def] committee_proof_bytes_def
  by (rule field_format [OF committee_format, where p = cp_id], rule field_format [OF signature_format, where p = cp_signature], rule end_format)
     (auto simp: committee_proof_ok_def)

fun tally_proof_ok :: "tally_proof \<Rightarrow> bool" where
  "tally_proof_ok (TallyProofPublic p) = committee_proof_ok p"
| "tally_proof_ok (TallyProofPrivate p) = committee_proof_ok p"

fun tally_proof_bytes :: "tally_proof \<Rightarrow> u8 list" where
  "tally_proof_bytes (TallyProofPublic p) = 0 # committee_proof_bytes p"
| "tally_proof_bytes (TallyProofPrivate p) = 1 # committee_proof_bytes p"

lemma tally_proof_format: "canonical_format tally_proof_ok tally_proof_bytes tally_proof_read"
  unfolding tally_proof_read_def [abs_def]
proof (rule bind_format [where p = "hd \<circ> tally_proof_bytes" and encr = "\<lambda>_. tl \<circ> tally_proof_bytes", OF u8_format.canonical_format_axioms])
  fix t :: u8
  have tag: "hd (tally_proof_bytes y) = (case y of TallyProofPublic _ \<Rightarrow> 0 | _ \<Rightarrow> 1)" for y by (cases y) simp_all
  have zero: "canonical_format (\<lambda>y. tally_proof_ok y \<and> (hd \<circ> tally_proof_bytes) y = 0) (tl \<circ> tally_proof_bytes)
      (\<lambda>b. obind (committee_proof_read b) (\<lambda>(p, buf). Ok (TallyProofPublic p, buf)))"
    by (rule map_format [OF committee_proof_format, where h = "\<lambda>y. case y of TallyProofPublic p \<Rightarrow> p"])
       (auto simp: tag split: tally_proof.splits)
  have one: "canonical_format (\<lambda>y. tally_proof_ok y \<and> (hd \<circ> tally_proof_bytes) y = 1) (tl \<circ> tally_proof_bytes)
      (\<lambda>b. obind (committee_proof_read b) (\<lambda>(p, buf). Ok (TallyProofPrivate p, buf)))"
    by (rule map_format [OF committee_proof_format, where h = "\<lambda>y. case y of TallyProofPrivate p \<Rightarrow> p"])
       (auto simp: tag split: tally_proof.splits)
  show "canonical_format (\<lambda>y. tally_proof_ok y \<and> (hd \<circ> tally_proof_bytes) y = t) (tl \<circ> tally_proof_bytes)
      (\<lambda>buf. if t = 0 then obind (committee_proof_read buf) (\<lambda>(p, buf). Ok (TallyProofPublic p, buf))
        else if t = 1 then obind (committee_proof_read buf) (\<lambda>(p, buf). Ok (TallyProofPrivate p, buf))
        else Err (StructureInvalid ''Unknown Tally proof type''))"
    by (intro if_format fail_format) (use zero one in \<open>auto simp: tag split: tally_proof.splits\<close>)
qed (auto elim!: tally_proof_ok.elims)


lemma sample_curve_canonical: "curve_canonical sample_curve"
proof -
  have "replicate 24 0 @ to_be_bytes (from_be_bytes (drop 24 b) :: u64) = b" if "length b = 32" "take 24 b = replicate 24 0" for b :: "u8 list"
    using that append_take_drop_id [of 24 b] by simp
  then show ?thesis by (simp add: curve_canonical_def sample_curve_def GROUP_BYTES_LEN_def SCALAR_BYTES_LEN_def)
qed

definition sample_plan :: "u64 vote_plan" where
  "sample_plan = \<lparr>vp_vote_start = BlockDate 1 0, vp_vote_end = BlockDate 2 0, vp_committee_end = BlockDate 3 0, vp_payload_type = PublicVote,
     vp_proposals = [\<lparr>pp_external_id = replicate 32 7, pp_options = Options 3, pp_action = TreasuryAction (TransferToRewards (Value 5))\<rparr>],
     vp_committee_keys = [], vp_voting_token = \<lparr>ti_policy_hash = replicate 28 0, ti_token_name = []\<rparr>\<rparr>"

definition sample_cast :: "(u64, u64) vote_cast" where
  "sample_cast = \<lparr>vc_vote_plan = replicate 32 9, vc_proposal_index = 0, vc_payload = PublicPayload 1\<rparr>"


end
