(* ===== verification/Reward_Distribution.thy ===== *)
theory Reward_Distribution
  imports Ledger
begin

text \<open>
  The rewards of an epoch (\<open>ledger/ledger.rs\<close>: \<open>distribute_rewards\<close>, \<open>distribute_poolid_rewards\<close>,
  \<open>apply_protocol_changes\<close>): what is drawn from the reward pot and the fees, the cut of the treasury, the
  part of each pool, of its owners and of its delegators. The theorem shows that every coin that leaves a
  pot arrives in an account or in the treasury, and that the report tells the truth about it.
\<close>

section \<open>Operations\<close>

definition treasury_credit :: "val \<Rightarrow> ledger \<Rightarrow> (ledger_error, ledger) outcome" where
  "treasury_credit v l = obind (map_err LedgerPotErr (pots_treasury_add (lg_pots l) v)) (\<lambda>p. Ok (l\<lparr>lg_pots := p\<rparr>))"

text \<open>The pool rewards are paid to a ledger, and each payment is entered in the report.\<close>

type_synonym reward_state = "ledger \<times> epoch_rewards_info"

fun reward_account :: "crypto \<Rightarrow> epoch \<Rightarrow> acc_identifier \<Rightarrow> val \<Rightarrow> reward_state \<Rightarrow> (ledger_error, reward_state) outcome" where
  "reward_account C ep i v (l, ri) =
     obind (map_err FeeCalculationError (add_rewards_to_account (c_ha C) (lg_accounts l) i ep v ())) (\<lambda>as.
     obind (add_to_account ri i v) (\<lambda>ri. Ok (l\<lparr>lg_accounts := as\<rparr>, ri)))"

fun reward_accounts :: "crypto \<Rightarrow> epoch \<Rightarrow> val \<Rightarrow> acc_identifier list \<Rightarrow> reward_state \<Rightarrow> (ledger_error, reward_state) outcome" where
  "reward_accounts C ep v [] s = Ok s"
| "reward_accounts C ep v (i # is) s = obind (reward_account C ep i v s) (reward_accounts C ep v is)"

text \<open>The owners' part. \<open>owners[0]\<close> panics when there is no owner, and a multisig account is unimplemented.\<close>

definition reward_owners :: "crypto \<Rightarrow> epoch \<Rightarrow> pool_registration \<Rightarrow> val \<Rightarrow> reward_state \<Rightarrow> (ledger_error, reward_state) outcome" where
  "reward_owners C ep reg v s =
     (case pr_reward_account reg of
        Some (SingleAcc i) \<Rightarrow> reward_account C ep i v s
      | Some (MultiAcc _) \<Rightarrow> Panic
      | None \<Rightarrow>
          (case pr_owners reg of
             [] \<Rightarrow> Panic
           | o1 # os \<Rightarrow>
               if length (pr_owners reg) > 1 then
                 obind (unwrap (split_in v (of_nat (length (pr_owners reg))))) (\<lambda>splitted.
                 obind (reward_accounts C ep (parts splitted) (map Identifier (pr_owners reg)) s) (\<lambda>s.
                 if remaining splitted > value_zero then reward_account C ep (Identifier o1) (remaining splitted) s else Ok s))
               else reward_account C ep (Identifier o1) v s))"

fun reward_delegators ::
  "crypto \<Rightarrow> epoch \<Rightarrow> val \<Rightarrow> stake \<Rightarrow> (acc_identifier \<times> stake) list \<Rightarrow> val \<Rightarrow> reward_state \<Rightarrow> (ledger_error, val \<times> reward_state) outcome" where
  "reward_delegators C ep v total_stake [] leftover s = Ok (leftover, s)"
| "reward_delegators C ep v total_stake ((i, st) # as) leftover s =
     obind (percent_stake_new st total_stake) (\<lambda>ps.
     obind (scale_value ps v) (\<lambda>r.
     obind (unwrap (value_sub leftover r)) (\<lambda>leftover.
     obind (reward_account C ep i r s) (\<lambda>s. reward_delegators C ep v total_stake as leftover s))))"

definition distribute_poolid_rewards ::
  "crypto \<Rightarrow> epoch \<Rightarrow> digest \<Rightarrow> val \<Rightarrow> pool_stake_information \<Rightarrow> reward_state \<Rightarrow> (ledger_error, reward_state) outcome" where
  "distribute_poolid_rewards C ep pool_id total_reward psi s =
     (case s of (l, ri) \<Rightarrow>
      case psi_registration psi of
        None \<Rightarrow> obind (treasury_credit total_reward l) (\<lambda>l. Ok (l, ri))
      | Some reg \<Rightarrow>
          obind (unwrap (tax_cut total_reward (pr_rewards reg))) (\<lambda>distr.
          obind (map_err DelegationErr (stake_pool_set_rewards (c_hd C) (lg_delegation l) pool_id ep (taxed distr) (after_tax distr))) (\<lambda>ps.
          obind (reward_owners C ep reg (taxed distr) (l\<lparr>lg_delegation := ps\<rparr>, set_stake_pool ri pool_id (taxed distr) (after_tax distr))) (\<lambda>s.
          obind (if after_tax distr > value_zero
                 then reward_delegators C ep (after_tax distr) (psd_total (psi_stake psi)) (psd_accounts (psi_stake psi)) (after_tax distr) s
                 else Ok (after_tax distr, s)) (\<lambda>(leftover, l, ri).
          if leftover > value_zero then obind (treasury_credit leftover l) (\<lambda>l. Ok (l, ri)) else Ok (l, ri))))))"

definition pool_capper :: "ledger_parameters \<Rightarrow> leaders_log \<Rightarrow> val \<Rightarrow> (ledger_error, val option) outcome" where
  "pool_capper lp log total_reward =
     (case pool_participation_capping (lp_reward_params lp) of
        None \<Rightarrow> Ok None
      | Some (threshold, expected_nb_pools) \<Rightarrow>
          if nb_participants log \<ge> unat threshold
          then obind (pdiv (amount total_reward) (ucast expected_nb_pools)) (\<lambda>c. Ok (Some (Value c)))
          else Ok None)"

definition cap_reward :: "val option \<Rightarrow> val \<Rightarrow> ledger \<Rightarrow> (ledger_error, val \<times> ledger) outcome" where
  "cap_reward capper uncapped l =
     (case capper of
        None \<Rightarrow> Ok (uncapped, l)
      | Some cap \<Rightarrow>
          (let actual = min cap uncapped in
           obind (unwrap (value_sub uncapped actual)) (\<lambda>forfeited.
           obind (treasury_credit forfeited l) (\<lambda>l. Ok (actual, l)))))"

fun reward_pools ::
  "crypto \<Rightarrow> epoch \<Rightarrow> stake_distribution \<Rightarrow> val option \<Rightarrow> val \<Rightarrow> (digest \<times> u32) list \<Rightarrow> reward_state \<Rightarrow> (ledger_error, reward_state) outcome" where
  "reward_pools C ep sd capper unit [] s = Ok s"
| "reward_pools C ep sd capper unit ((pool_id, pool_blocks) # pools) (l, ri) =
     obind (unwrap (value_scale unit pool_blocks)) (\<lambda>uncapped.
     obind (cap_reward capper uncapped l) (\<lambda>(reward, l).
     obind (case map_of (sd_to_pools sd) pool_id of
              Some psi \<Rightarrow> distribute_poolid_rewards C ep pool_id reward psi (l, ri)
            | None \<Rightarrow> obind (treasury_credit reward l) (\<lambda>l. Ok (l, ri))) (\<lambda>s.
     reward_pools C ep sd capper unit pools s)))"

text \<open>The fees join the rewards or go to the treasury.\<close>

definition collect_fees :: "fees_goes_to \<Rightarrow> val \<Rightarrow> ledger \<Rightarrow> (ledger_error, val \<times> ledger) outcome" where
  "collect_fees goes_to drawn l =
     (let (p, fees) = siphon_fees (lg_pots l) in
      case goes_to of
        FeesToRewards \<Rightarrow> obind (unwrap (value_add drawn fees)) (\<lambda>t. Ok (t, l\<lparr>lg_pots := p\<rparr>))
      | FeesToTreasury \<Rightarrow> obind (treasury_credit fees (l\<lparr>lg_pots := p\<rparr>)) (\<lambda>l. Ok (drawn, l)))"

definition reward_leaders ::
  "crypto \<Rightarrow> epoch \<Rightarrow> stake_distribution \<Rightarrow> ledger_parameters \<Rightarrow> leaders_log \<Rightarrow> val \<Rightarrow> reward_state \<Rightarrow> (ledger_error, reward_state) outcome" where
  "reward_leaders C ep sd lp log total_reward s =
     (if total_reward > value_zero then
        obind (pool_capper lp log total_reward) (\<lambda>capper.
        obind (unwrap (split_in total_reward (ll_total log))) (\<lambda>reward_unit.
        obind (reward_pools C ep sd capper (parts reward_unit) (hamt_iter (ll_log log)) s) (\<lambda>(l, ri).
        if remaining reward_unit > value_zero then obind (treasury_credit (remaining reward_unit) l) (\<lambda>l. Ok (l, ri)) else Ok (l, ri))))
      else Ok s)"

definition can_distribute_reward :: "ledger \<Rightarrow> bool" where
  "can_distribute_reward l \<longleftrightarrow> ll_total (lg_leaders_log l) \<noteq> 0"

definition distribute_rewards ::
  "crypto \<Rightarrow> stake_distribution \<Rightarrow> ledger_parameters \<Rightarrow> rewards_info_parameters \<Rightarrow> ledger \<Rightarrow> (ledger_error, reward_state) outcome" where
  "distribute_rewards C sd lp rip l =
     (if ll_total (lg_leaders_log l) = 0 then Ok (l, rewards_info_new rip)
      else
        obind (padd (bd_epoch (lg_date l)) 1) (\<lambda>ep.
        obind (get_total_stake sd) (\<lambda>declared_stake.
        obind (rewards_contribution_calculation ep (lp_reward_params lp) declared_stake) (\<lambda>expected.
        obind (draw_reward (lg_pots l) expected) (\<lambda>(p, drawn).
        obind (collect_fees (lp_fees_goes_to lp) drawn (l\<lparr>lg_pots := p\<rparr>)) (\<lambda>(total_reward, l1).
        obind (map_err FeeCalculationError (tax_cut total_reward (lp_treasury_tax lp))) (\<lambda>distr.
        obind (treasury_credit (taxed distr) l1) (\<lambda>l2.
        obind (reward_leaders C ep sd lp (lg_leaders_log l2) (after_tax distr)
            (l2\<lparr>lg_leaders_log := leaders_new\<rparr>, (rewards_info_new rip)\<lparr>eri_drawn := drawn, eri_fees := pot_fees p\<rparr>)) (\<lambda>(l3, ri).
        obind (unwrap (value_sub (treasury_val (pot_treasury (lg_pots l3))) (treasury_val (pot_treasury (lg_pots l))))) (\<lambda>added.
        obind (set_treasury ri added) (\<lambda>ri. Ok (l3, ri))))))))))))"

fun apply_actions :: "governance_action list \<Rightarrow> pots \<Rightarrow> (pot_error, pots) outcome" where
  "apply_actions [] p = Ok p"
| "apply_actions (NoOpAction # as) p = apply_actions as p"
| "apply_actions (RewardAddAction v # as) p = obind (pots_rewards_add p v) (apply_actions as)"

definition apply_protocol_changes :: "ledger \<Rightarrow> (ledger_error, ledger) outcome" where
  "apply_protocol_changes l =
     obind (map_err LedgerPotErr (apply_actions (lg_actions l) (lg_pots l))) (\<lambda>p. Ok (l\<lparr>lg_pots := p, lg_actions := []\<rparr>))"

section \<open>Payments\<close>

lemma ledger_ok_frame [simp]:
  "ledger_ok C K F (l\<lparr>lg_pots := p\<rparr>) = ledger_ok C K F l"
  "ledger_ok C K F (l\<lparr>lg_delegation := ps\<rparr>) = ledger_ok C K F l"
  "ledger_ok C K F (l\<lparr>lg_leaders_log := log\<rparr>) = ledger_ok C K F l"
  by (simp_all add: ledger_ok_def)

lemma ledger_coins_frame [simp]:
  "ledger_coins C (l\<lparr>lg_delegation := ps\<rparr>) = ledger_coins C l"
  "ledger_coins C (l\<lparr>lg_leaders_log := log\<rparr>) = ledger_coins C l"
  by (simp_all add: ledger_coins_def)

text \<open>
  Between two states of the distribution: \<open>v\<close> coins arrived in accounts or in the treasury, which never
  shrinks; the unspent outputs, the other pots and the head of the report stay.
\<close>

definition pays :: "crypto \<Rightarrow> acc_identifier set \<Rightarrow> digest set \<Rightarrow> reward_state \<Rightarrow> nat \<Rightarrow> reward_state \<Rightarrow> bool" where
  "pays C K F s v s' \<longleftrightarrow> (case (s, s') of ((l, ri), (l', ri')) \<Rightarrow>
     (ledger_ok C K F l \<longrightarrow> ledger_ok C K F l' \<and> ledger_coins C l' = ledger_coins C l + v)
     \<and> lg_utxos l' = lg_utxos l \<and> lg_oldutxos l' = lg_oldutxos l \<and> lg_multisig l' = lg_multisig l \<and> lg_static l' = lg_static l
     \<and> lg_date l' = lg_date l \<and> lg_chain_length l' = lg_chain_length l \<and> lg_actions l' = lg_actions l \<and> lg_updates l' = lg_updates l
     \<and> lg_settings l' = lg_settings l \<and> lg_leaders_log l' = lg_leaders_log l \<and> pot_fees (lg_pots l') = pot_fees (lg_pots l) \<and> pot_rewards (lg_pots l') = pot_rewards (lg_pots l)
     \<and> coins (treasury_val (pot_treasury (lg_pots l))) \<le> coins (treasury_val (pot_treasury (lg_pots l')))
     \<and> eri_drawn ri' = eri_drawn ri \<and> eri_fees ri' = eri_fees ri \<and> eri_treasury ri' = eri_treasury ri)"

lemma pays_refl [simp]: "pays C K F s 0 s"
  by (cases s) (simp add: pays_def)

lemma pays_trans: "pays C K F s v s' \<Longrightarrow> pays C K F s' w s'' \<Longrightarrow> pays C K F s (v + w) s''"
  by (cases s; cases s'; cases s'') (auto simp: pays_def)

lemma pays_ok: "pays C K F (l, ri) v (l', ri') \<Longrightarrow> ledger_ok C K F l \<Longrightarrow> ledger_ok C K F l'"
  by (simp add: pays_def)

lemma treasury_credit_pays:
  assumes "treasury_credit v l = Ok l'"
  shows "pays C K F (l, ri) (coins v) (l', ri)"
proof -
  obtain p where p: "pots_treasury_add (lg_pots l) v = Ok p" "l' = l\<lparr>lg_pots := p\<rparr>"
    using assms by (auto simp: treasury_credit_def outcome_simps)
  then show ?thesis using pots_treasury_add_spec [OF p(1)] by (auto simp: pays_def ledger_coins_def pots_coins_def)
qed

lemma reward_account_pays:
  assumes "reward_account C ep i v s = Ok s'" and "i \<in> K"
  shows "pays C K F s (coins v) s'"
proof -
  obtain l ri where s: "s = (l, ri)" by fastforce
  obtain as ri' where as: "add_rewards_to_account (c_ha C) (lg_accounts l) i ep v () = Ok as"
    and ri': "add_to_account ri i v = (Ok ri' :: (ledger_error, _) outcome)" and s': "s' = (l\<lparr>lg_accounts := as\<rparr>, ri')"
    using assms(1) unfolding s by (auto simp: outcome_simps)
  have "ledger_ok C K F (l\<lparr>lg_accounts := as\<rparr>) \<and> ledger_coins C (l\<lparr>lg_accounts := as\<rparr>) = ledger_coins C l + coins v"
    if ok: "ledger_ok C K F l"
    using account_change [OF ok step_reward [OF account_fresh [OF ok assms(2)] as]] assms(2) by simp
  moreover have "eri_drawn ri' = eri_drawn ri \<and> eri_fees ri' = eri_fees ri \<and> eri_treasury ri' = eri_treasury ri"
    using ri' by (auto simp: add_to_account_def outcome_simps split: if_splits)
  ultimately show ?thesis unfolding s s' by (simp add: pays_def)
qed

lemma reward_accounts_pays:
  "reward_accounts C ep v is s = Ok s' \<Longrightarrow> set is \<subseteq> K \<Longrightarrow> pays C K F s (length is * coins v) s'"
proof (induction "is" arbitrary: s)
  case (Cons i "is")
  then obtain s1 where "reward_account C ep i v s = Ok s1" "reward_accounts C ep v is s1 = Ok s'" by (auto simp: outcome_simps)
  then show ?case using pays_trans [OF reward_account_pays, of C ep i v s s1 K F] Cons by simp
qed simp

lemma split_in_Ok: "split_in v n = Ok s \<Longrightarrow> coins (parts s) * unat n + coins (remaining s) = coins v"
  using split_in_conserves [of n v] by (simp only: outcome.case)

lemma tax_cut_Ok: "tax_cut v t = Ok d \<Longrightarrow> ratio_ok (tax_ratio t) \<Longrightarrow> coins v = coins (taxed d) + coins (after_tax d)"
  using tax_cut_spec [of t v] by (auto split: if_splits)

lemma coins_not_positive: "\<not> value_zero < v \<Longrightarrow> coins v = 0"
  by (simp add: checked_simps)

text \<open>Who may be paid by a pool, and that its tax is one the readers accept.\<close>

definition registration_payable :: "acc_identifier set \<Rightarrow> pool_registration \<Rightarrow> bool" where
  "registration_payable K reg \<longleftrightarrow> ratio_ok (tax_ratio (pr_rewards reg)) \<and> length (pr_owners reg) < 2 ^ 32
     \<and> Identifier ` set (pr_owners reg) \<subseteq> K \<and> (\<forall>i. pr_reward_account reg = Some (SingleAcc i) \<longrightarrow> i \<in> K)"

definition pool_payable :: "acc_identifier set \<Rightarrow> pool_stake_information \<Rightarrow> bool" where
  "pool_payable K psi \<longleftrightarrow> fst ` set (psd_accounts (psi_stake psi)) \<subseteq> K
     \<and> (\<forall>reg. psi_registration psi = Some reg \<longrightarrow> registration_payable K reg)"

lemma reward_owners_pays:
  assumes "reward_owners C ep reg v s = Ok s'" and "registration_payable K reg"
  shows "pays C K F s (coins v) s'"
proof (cases "pr_reward_account reg")
  case None
  note acc = None
  show ?thesis
  proof (cases "pr_owners reg")
    case (Cons o1 os)
    have o1: "Identifier o1 \<in> K" using assms(2) Cons by (auto simp: registration_payable_def)
    show ?thesis
    proof (cases "length (pr_owners reg) > 1")
      case True
      let ?n = "of_nat (length (pr_owners reg)) :: u32"
      obtain sp s1 where sp: "split_in v ?n = Ok sp" and s1: "reward_accounts C ep (parts sp) (map Identifier (pr_owners reg)) s = Ok s1"
        and r: "(if remaining sp > value_zero then reward_account C ep (Identifier o1) (remaining sp) s1 else Ok s1) = Ok s'"
        using assms(1) True Cons acc by (auto simp: reward_owners_def outcome_simps)
      have n: "unat ?n = length (pr_owners reg)" using assms(2) by (simp add: registration_payable_def unat_of_nat_id)
      have "pays C K F s (length (pr_owners reg) * coins (parts sp)) s1"
        using reward_accounts_pays [OF s1, of K F] assms(2) by (simp add: registration_payable_def)
      moreover have "pays C K F s1 (coins (remaining sp)) s'"
        using r reward_account_pays [OF _ o1] coins_not_positive [of "remaining sp"] by (auto split: if_splits)
      ultimately show ?thesis using pays_trans split_in_Ok [OF sp] n by (metis mult.commute)
    next
      case False
      then show ?thesis using assms(1) Cons acc reward_account_pays [OF _ o1] by (simp add: reward_owners_def)
    qed
  qed (use assms(1) acc in \<open>simp add: reward_owners_def\<close>)
next
  case (Some a)
  then show ?thesis using assms reward_account_pays [of C ep _ v s s' K F]
    by (cases a) (auto simp: reward_owners_def registration_payable_def)
qed

lemma reward_delegators_pays:
  "reward_delegators C ep v t as leftover s = Ok (lft, s') \<Longrightarrow> fst ` set as \<subseteq> K
   \<Longrightarrow> \<exists>w. coins leftover = coins lft + w \<and> pays C K F s w s'"
proof (induction as arbitrary: leftover s)
  case (Cons a as)
  obtain i st where a: "a = (i, st)" by fastforce
  obtain r left1 s1 where r: "value_checked_sub leftover r = Ok left1" "reward_account C ep i r s = Ok s1"
    "reward_delegators C ep v t as left1 s1 = Ok (lft, s')"
    using Cons.prems(1) unfolding a by (auto simp: outcome_simps)
  obtain w where w: "coins left1 = coins lft + w" "pays C K F s1 w s'" using Cons.IH [OF r(3)] Cons.prems(2) by auto
  have "coins leftover = coins r + coins left1" using r(1) by (simp add: checked_simps)
  then show ?case using w pays_trans [OF reward_account_pays [OF r(2)] w(2)] Cons.prems(2) a
    by (intro exI [of _ "coins r + w"]) auto
qed (auto intro: exI [of _ 0])

lemma distribute_poolid_rewards_pays:
  assumes "distribute_poolid_rewards C ep pid v psi s = Ok s'" and "pool_payable K psi"
  shows "pays C K F s (coins v) s'"
proof -
  obtain l ri where s: "s = (l, ri)" by fastforce
  show ?thesis
  proof (cases "psi_registration psi")
    case None
    then obtain l1 where "treasury_credit v l = Ok l1" "s' = (l1, ri)"
      using assms(1) s by (auto simp: distribute_poolid_rewards_def outcome_simps)
    then show ?thesis using treasury_credit_pays s by simp
  next
    case (Some reg)
    have reg: "registration_payable K reg" using assms(2) Some by (simp add: pool_payable_def)
    obtain d ps s1 lft l2 ri2 where d: "tax_cut v (pr_rewards reg) = Ok d"
      and own: "reward_owners C ep reg (taxed d) (l\<lparr>lg_delegation := ps\<rparr>, set_stake_pool ri pid (taxed d) (after_tax d)) = Ok s1"
      and del: "(if after_tax d > value_zero then reward_delegators C ep (after_tax d) (psd_total (psi_stake psi)) (psd_accounts (psi_stake psi)) (after_tax d) s1
          else Ok (after_tax d, s1)) = Ok (lft, l2, ri2)"
      and last: "(if lft > value_zero then obind (treasury_credit lft l2) (\<lambda>l. Ok (l, ri2)) else Ok (l2, ri2)) = Ok s'"
      using assms(1) Some s by (auto simp: distribute_poolid_rewards_def outcome_simps)
    have "pays C K F s 0 (l\<lparr>lg_delegation := ps\<rparr>, set_stake_pool ri pid (taxed d) (after_tax d))"
      unfolding s by (auto simp: pays_def set_stake_pool_def)
    from pays_trans [OF this reward_owners_pays [OF own reg]] have p1: "pays C K F s (coins (taxed d)) s1" by simp
    obtain w where w: "coins (after_tax d) = coins lft + w" "pays C K F s1 w (l2, ri2)"
      using del reward_delegators_pays [of C ep "after_tax d" _ _ "after_tax d" s1 lft "(l2, ri2)" K F] assms(2)
      by (auto simp: pool_payable_def split: if_splits intro: exI [of _ 0])
    have p3: "pays C K F (l2, ri2) (coins lft) s'"
      using last treasury_credit_pays coins_not_positive [of lft] by (auto simp: outcome_simps split: if_splits)
    have "coins v = coins (taxed d) + coins (after_tax d)"
      by (rule tax_cut_Ok [OF d]) (use reg in \<open>simp add: registration_payable_def\<close>)
    then have "coins v = coins (taxed d) + w + coins lft" using w(1) by simp
    then show ?thesis using pays_trans [OF pays_trans [OF p1 w(2)] p3] by simp
  qed
qed

lemma cap_reward_pays:
  assumes "cap_reward capper v l = Ok (r, l')"
  shows "\<exists>w. coins v = coins r + w \<and> pays C K F (l, ri) w (l', ri)"
proof (cases capper)
  case (Some c)
  obtain f where f: "value_checked_sub v (min c v) = Ok f" "treasury_credit f l = Ok l'" "r = min c v"
    using assms Some by (auto simp: cap_reward_def Let_def outcome_simps)
  then have "coins v = coins r + coins f" by (simp only: value_sub_iffs)
  with treasury_credit_pays [OF f(2)] show ?thesis by blast
qed (use assms in \<open>auto simp: cap_reward_def intro: exI [of _ 0]\<close>)

lemma reward_pools_pays:
  assumes "\<forall>psi \<in> snd ` set (sd_to_pools sd). pool_payable K psi"
  shows "reward_pools C ep sd capper unit log s = Ok s' \<Longrightarrow> pays C K F s (coins unit * (\<Sum>x \<leftarrow> log. unat (snd x))) s'"
proof (induction log arbitrary: s)
  case (Cons x log)
  obtain pid n l ri where s: "x = (pid, n)" "s = (l, ri)" by (cases x; cases s) auto
  obtain u r l1 s2 where u: "value_scale unit n = Ok u" "cap_reward capper u l = Ok (r, l1)"
    and p: "(case map_of (sd_to_pools sd) pid of Some psi \<Rightarrow> distribute_poolid_rewards C ep pid r psi (l1, ri)
            | None \<Rightarrow> obind (treasury_credit r l1) (\<lambda>l. Ok (l, ri))) = Ok s2"
    and more: "reward_pools C ep sd capper unit log s2 = Ok s'"
    using Cons.prems unfolding s by (auto simp: outcome_simps)
  obtain w where w: "coins u = coins r + w" "pays C K F (l, ri) w (l1, ri)" using cap_reward_pays [OF u(2)] by blast
  have "pays C K F (l1, ri) (coins r) s2"
  proof (cases "map_of (sd_to_pools sd) pid")
    case None
    then show ?thesis using p treasury_credit_pays by (auto simp: outcome_simps)
  next
    case (Some psi)
    then have "pool_payable K psi" using assms map_of_SomeD [OF Some] by force
    then show ?thesis using p Some distribute_poolid_rewards_pays by simp
  qed
  from pays_trans [OF pays_trans [OF w(2) this] Cons.IH [OF more]]
  have "pays C K F s (w + coins r + coins unit * (\<Sum>x \<leftarrow> log. unat (snd x))) s'" using s by simp
  moreover have "coins u = coins unit * unat n" using u(1) by (simp add: checked_simps)
  ultimately show ?case using w(1) s by (simp add: distrib_left add.commute)
qed simp

lemma reward_leaders_pays:
  assumes "reward_leaders C ep sd lp log v s = Ok s'" and "leaders_ok (c_hd C) log"
    and "\<forall>psi \<in> snd ` set (sd_to_pools sd). pool_payable K psi"
  shows "pays C K F s (coins v) s'"
proof (cases "v > value_zero")
  case True
  obtain capper sp l ri where sp: "split_in v (ll_total log) = Ok sp" and pools: "reward_pools C ep sd capper (parts sp) (hamt_iter (ll_log log)) s = Ok (l, ri)"
    and r: "(if remaining sp > value_zero then obind (treasury_credit (remaining sp) l) (\<lambda>l. Ok (l, ri)) else Ok (l, ri)) = Ok s'"
    using assms(1) True by (auto simp: reward_leaders_def outcome_simps)
  have "pays C K F (l, ri) (coins (remaining sp)) s'"
    using r treasury_credit_pays coins_not_positive [of "remaining sp"] by (auto simp: outcome_simps split: if_splits)
  from pays_trans [OF reward_pools_pays [OF assms(3) pools] this] show ?thesis
    using split_in_Ok [OF sp] leaders_entries [OF assms(2)] by simp
qed (use assms(1) coins_not_positive [of v] in \<open>simp add: reward_leaders_def\<close>)

text \<open>What the fees add to the rewards or to the treasury.\<close>

lemma collect_fees_spec:
  assumes "collect_fees g drawn l = Ok (t, l')"
  shows "ledger_ok C K F l' = ledger_ok C K F l" and "ledger_coins C l' + coins t = ledger_coins C l + coins drawn"
    and "\<exists>tr. l' = l\<lparr>lg_pots := (lg_pots l)\<lparr>pot_fees := value_zero, pot_treasury := tr\<rparr>\<rparr>
      \<and> coins (treasury_val (pot_treasury (lg_pots l))) \<le> coins (treasury_val tr)"
proof -
  let ?p = "lg_pots l"
  obtain tr where tr: "l' = l\<lparr>lg_pots := ?p\<lparr>pot_fees := value_zero, pot_treasury := tr\<rparr>\<rparr>"
    "coins (treasury_val tr) + coins t = coins (treasury_val (pot_treasury ?p)) + coins (pot_fees ?p) + coins drawn"
    "coins (treasury_val (pot_treasury ?p)) \<le> coins (treasury_val tr)"
  proof (cases g)
    case FeesToRewards
    then have "l' = l\<lparr>lg_pots := ?p\<lparr>pot_fees := value_zero, pot_treasury := pot_treasury ?p\<rparr>\<rparr>" "coins t = coins drawn + coins (pot_fees ?p)"
      using assms by (auto simp: collect_fees_def siphon_fees_def outcome_simps checked_simps)
    then show ?thesis using that by fastforce
  next
    case FeesToTreasury
    then obtain p where p: "pots_treasury_add (?p\<lparr>pot_fees := value_zero\<rparr>) (pot_fees ?p) = Ok p" "l' = l\<lparr>lg_pots := p\<rparr>" "t = drawn"
      using assms by (auto simp: collect_fees_def siphon_fees_def treasury_credit_def outcome_simps)
    from pots_treasury_add_spec [OF p(1)] obtain n where "p = ?p\<lparr>pot_fees := value_zero, pot_treasury := Treasury n\<rparr>"
      "coins n = coins (treasury_val (pot_treasury ?p)) + coins (pot_fees ?p)" by auto
    then show ?thesis using that [of "Treasury n"] p(2,3) by simp
  qed
  then show "ledger_ok C K F l' = ledger_ok C K F l" and "ledger_coins C l' + coins t = ledger_coins C l + coins drawn"
    and "\<exists>tr. l' = l\<lparr>lg_pots := (lg_pots l)\<lparr>pot_fees := value_zero, pot_treasury := tr\<rparr>\<rparr>
      \<and> coins (treasury_val (pot_treasury (lg_pots l))) \<le> coins (treasury_val tr)"
    by (auto simp: ledger_coins_def pots_coins_def)
qed

section \<open>The distribution as a whole\<close>

definition treasury_coins :: "ledger \<Rightarrow> nat" where
  "treasury_coins l = coins (treasury_val (pot_treasury (lg_pots l)))"

text \<open>The accounts and the treasury together receive what the pots give.\<close>

lemma pays_accounts:
  assumes "pays C K F (l, ri) v (l', ri')" and "ledger_ok C K F l"
  shows "account_total (c_ha C) (lg_accounts l') + treasury_coins l' = account_total (c_ha C) (lg_accounts l) + treasury_coins l + v"
  using assms by (auto simp: pays_def ledger_coins_def pots_coins_def treasury_coins_def)

text \<open>The steps of a distribution that succeeds, with what each of them moves.\<close>

lemma distribute_rewards_steps:
  assumes "distribute_rewards C sd lp rip l = Ok (l', ri')" and "ll_total (lg_leaders_log l) \<noteq> 0"
  obtains ep drawn n t l1 d l2 ri added where
    "coins (pot_rewards (lg_pots l)) = coins n + coins drawn"
    "collect_fees (lp_fees_goes_to lp) drawn (l\<lparr>lg_pots := (lg_pots l)\<lparr>pot_rewards := n\<rparr>\<rparr>) = Ok (t, l1)"
    "tax_cut t (lp_treasury_tax lp) = Ok d" "treasury_credit (taxed d) l1 = Ok l2"
    "reward_leaders C ep sd lp (lg_leaders_log l2) (after_tax d)
       (l2\<lparr>lg_leaders_log := leaders_new\<rparr>, (rewards_info_new rip)\<lparr>eri_drawn := drawn, eri_fees := pot_fees (lg_pots l)\<rparr>) = Ok (l', ri)"
    "treasury_coins l' = treasury_coins l + coins added" "ri' = ri\<lparr>eri_treasury := added\<rparr>"
proof -
  obtain ep expd p drawn t l1 d l2 ri added where
    s: "draw_reward (lg_pots l) expd = (Ok (p, drawn) :: (ledger_error, _) outcome)" "collect_fees (lp_fees_goes_to lp) drawn (l\<lparr>lg_pots := p\<rparr>) = Ok (t, l1)"
    "tax_cut t (lp_treasury_tax lp) = Ok d" "treasury_credit (taxed d) l1 = Ok l2"
    "reward_leaders C ep sd lp (lg_leaders_log l2) (after_tax d)
       (l2\<lparr>lg_leaders_log := leaders_new\<rparr>, (rewards_info_new rip)\<lparr>eri_drawn := drawn, eri_fees := pot_fees p\<rparr>) = Ok (l', ri)"
    "value_checked_sub (treasury_val (pot_treasury (lg_pots l'))) (treasury_val (pot_treasury (lg_pots l))) = Ok added"
    "set_treasury ri added = (Ok ri' :: (ledger_error, _) outcome)"
    using assms by (auto simp: distribute_rewards_def outcome_simps)
  obtain n where "p = (lg_pots l)\<lparr>pot_rewards := n\<rparr>" "coins (pot_rewards (lg_pots l)) = coins n + coins drawn"
    using draw_reward_spec [of "lg_pots l" expd, where 'e = ledger_error] s(1) by auto
  then show thesis using that s by (auto simp: set_treasury_def outcome_simps treasury_coins_def value_sub_iffs)
qed

lemma distribute_rewards_spec:
  assumes "distribute_rewards C sd lp rip l = Ok (l', ri)" and "ledger_ok C K F l" and "leaders_ok (c_hd C) (lg_leaders_log l)"
    and "\<forall>psi \<in> snd ` set (sd_to_pools sd). pool_payable K psi" and "ratio_ok (tax_ratio (lp_treasury_tax lp))"
  shows "ledger_ok C K F l' \<and> ledger_coins C l' = ledger_coins C l \<and> lg_utxos l' = lg_utxos l \<and> lg_multisig l' = lg_multisig l
    \<and> distribute_rewards C sd lp rip l' = Ok (l', rewards_info_new rip)
    \<and> (if can_distribute_reward l
       then coins (pot_rewards (lg_pots l)) = coins (pot_rewards (lg_pots l')) + coins (eri_drawn ri)
         \<and> eri_fees ri = pot_fees (lg_pots l) \<and> pot_fees (lg_pots l') = value_zero
         \<and> treasury_coins l' = treasury_coins l + coins (eri_treasury ri)
         \<and> account_total (c_ha C) (lg_accounts l') + coins (eri_treasury ri)
           = account_total (c_ha C) (lg_accounts l) + coins (eri_drawn ri) + coins (eri_fees ri)
       else l' = l)
    \<and> lg_static l' = lg_static l \<and> lg_date l' = lg_date l \<and> lg_chain_length l' = lg_chain_length l \<and> lg_actions l' = lg_actions l
    \<and> lg_updates l' = lg_updates l \<and> lg_settings l' = lg_settings l
    \<and> lg_leaders_log l' = (if can_distribute_reward l then leaders_new else lg_leaders_log l)"
proof (cases "ll_total (lg_leaders_log l) = 0")
  case True
  then show ?thesis using assms(1,2) by (simp add: distribute_rewards_def can_distribute_reward_def)
next
  case False
  obtain ep drawn n t l1 d l2 r0 added where s: "coins (pot_rewards (lg_pots l)) = coins n + coins drawn"
    "collect_fees (lp_fees_goes_to lp) drawn (l\<lparr>lg_pots := (lg_pots l)\<lparr>pot_rewards := n\<rparr>\<rparr>) = Ok (t, l1)"
    "tax_cut t (lp_treasury_tax lp) = Ok d" "treasury_credit (taxed d) l1 = Ok l2"
    "reward_leaders C ep sd lp (lg_leaders_log l2) (after_tax d)
       (l2\<lparr>lg_leaders_log := leaders_new\<rparr>, (rewards_info_new rip)\<lparr>eri_drawn := drawn, eri_fees := pot_fees (lg_pots l)\<rparr>) = Ok (l', r0)"
    "treasury_coins l' = treasury_coins l + coins added" "ri = r0\<lparr>eri_treasury := added\<rparr>"
    by (rule distribute_rewards_steps [OF assms(1) False])
  let ?l0 = "l\<lparr>lg_pots := (lg_pots l)\<lparr>pot_rewards := n\<rparr>\<rparr>" and ?l2 = "l2\<lparr>lg_leaders_log := leaders_new\<rparr>"
  note fees = collect_fees_spec [OF s(2)]
  obtain tr where l1: "l1 = ?l0\<lparr>lg_pots := (lg_pots ?l0)\<lparr>pot_fees := value_zero, pot_treasury := tr\<rparr>\<rparr>" using fees(3) by blast
  have ok1: "ledger_ok C K F l1" using fees(1) assms(2) by simp
  have tax: "coins t = coins (taxed d) + coins (after_tax d)" by (rule tax_cut_Ok [OF s(3) assms(5)])
  have p2: "pays C K F (l1, r0) (coins (taxed d)) (l2, r0)" by (rule treasury_credit_pays [OF s(4)])
  have log2: "lg_leaders_log l2 = lg_leaders_log l" using p2 l1 by (simp add: pays_def)
  have ok2: "ledger_ok C K F ?l2" using pays_ok [OF p2 ok1] by simp
  have p3: "pays C K F (?l2, (rewards_info_new rip)\<lparr>eri_drawn := drawn, eri_fees := pot_fees (lg_pots l)\<rparr>) (coins (after_tax d)) (l', r0)"
    by (rule reward_leaders_pays [OF s(5) _ assms(4)]) (simp add: log2 assms(3))
  have e: "eri_drawn ri = drawn" "eri_fees ri = pot_fees (lg_pots l)" "eri_treasury ri = added" using p3 s(7) by (auto simp: pays_def)
  have pots: "pot_fees (lg_pots l') = value_zero" "pot_rewards (lg_pots l') = n" "lg_leaders_log l' = leaders_new"
    "lg_utxos l' = lg_utxos l" "lg_multisig l' = lg_multisig l" "lg_oldutxos l' = lg_oldutxos l" "lg_static l' = lg_static l"
    "lg_date l' = lg_date l" "lg_chain_length l' = lg_chain_length l" "lg_actions l' = lg_actions l"
    "lg_updates l' = lg_updates l" "lg_settings l' = lg_settings l"
    using p2 p3 l1 by (auto simp: pays_def)
  have ok': "ledger_ok C K F l'" by (rule pays_ok [OF p3 ok2])
  have c2: "ledger_coins C l2 = ledger_coins C l1 + coins (taxed d)" using p2 ok1 by (simp add: pays_def)
  have c3: "ledger_coins C l' = ledger_coins C l2 + coins (after_tax d)" using p3 ok2 by (simp add: pays_def)
  have c0: "ledger_coins C l = ledger_coins C ?l0 + coins drawn" using s(1) by (simp add: ledger_coins_def pots_coins_def)
  have total: "ledger_coins C l' = ledger_coins C l" using c0 c2 c3 tax fees(2) [of C] by simp
  then have "account_total (c_ha C) (lg_accounts l') + coins added = account_total (c_ha C) (lg_accounts l) + coins drawn + coins (pot_fees (lg_pots l))"
    using pots s(1,6) by (simp add: ledger_coins_def pots_coins_def treasury_coins_def)
  moreover have "distribute_rewards C sd lp rip l' = Ok (l', rewards_info_new rip)"
    using pots(3) by (simp add: distribute_rewards_def leaders_new_def)
  ultimately show ?thesis using False ok' total pots e s(1,6) by (simp add: can_distribute_reward_def)
qed

lemma apply_actions_spec:
  "apply_actions as p = Ok p' \<Longrightarrow> \<exists>n. p' = p\<lparr>pot_rewards := n\<rparr>
     \<and> coins n = coins (pot_rewards p) + (\<Sum>a \<leftarrow> as. case a of NoOpAction \<Rightarrow> 0 | RewardAddAction v \<Rightarrow> coins v)"
proof (induction as arbitrary: p)
  case Nil
  then show ?case by (intro exI [of _ "pot_rewards p"]) simp
next
  case (Cons a as)
  show ?case
  proof (cases a)
    case NoOpAction
    then show ?thesis using Cons by simp
  next
    case (RewardAddAction v)
    then obtain p1 where p1: "pots_rewards_add p v = Ok p1" "apply_actions as p1 = Ok p'" using Cons.prems by (auto simp: outcome_simps)
    obtain n where "p1 = p\<lparr>pot_rewards := n\<rparr>" "coins n = coins (pot_rewards p) + coins v" using pots_rewards_add_spec [OF p1(1)] by blast
    then show ?thesis using Cons.IH [OF p1(2)] RewardAddAction by auto
  qed
qed

definition sample_pool :: pool_registration where
  "sample_pool = \<lparr>pr_serial = 0, pr_start_validity = 0, pr_permissions = PoolPermissions 1,
     pr_owners = [PublicKey (replicate 32 7)], pr_operators = [],
     pr_rewards = \<lparr>tax_fixed = Value 3, tax_ratio = \<lparr>numerator = 0, denominator = 1\<rparr>, tax_max_limit = None\<rparr>,
     pr_reward_account = None, pr_keys = \<lparr>gpl_kes = KesPublicKey [], gpl_vrf = VrfPublicKey []\<rparr>\<rparr>"

definition sample_rewarded :: ledger where
  "sample_rewarded = sample_funded\<lparr>lg_pots := pots_zero\<lparr>pot_fees := Value 10\<rparr>,
     lg_leaders_log := \<lparr>ll_total = 1, ll_log = \<lparr>root = Node 1 [Leaf 0 [9] 1]\<rparr>\<rparr>,
     lg_delegation := \<lparr>root = Node 1 [Leaf 0 [9] (pool_state_new sample_pool)]\<rparr>\<rparr>"

definition sample_distribution :: stake_distribution where
  "sample_distribution = \<lparr>sd_unassigned = Stake 0, sd_dangling = Stake 0, sd_to_pools = [([9],
     \<lparr>psi_registration = Some sample_pool, psi_stake = \<lparr>psd_total = Stake 10, psd_accounts = [(sample_account, Stake 5)]\<rparr>\<rparr>)]\<rparr>"

lemma sample_distribute:
  "case distribute_rewards sample_crypto sample_distribution (get_ledger_parameters sample_rewarded) report_all sample_rewarded of
     Ok (l, ri) \<Rightarrow> eri_treasury ri = Value 4 \<and> eri_accounts ri sample_account = Some (Value 6) | _ \<Rightarrow> False"
  by code_simp

lemma sample_rewarded_ok:
  "ledger_ok sample_crypto {sample_account} {[9]} sample_rewarded" "leaders_ok (c_hd sample_crypto) (lg_leaders_log sample_rewarded)"
proof -
  show "ledger_ok sample_crypto {sample_account} {[9]} sample_rewarded"
    using sample_funded_ok by (simp add: sample_rewarded_def ledger_ok_def)
  have "increase_for (c_hd sample_crypto) leaders_new [9] = (Ok (lg_leaders_log sample_rewarded) :: (unit, _) outcome)" by code_simp
  then show "leaders_ok (c_hd sample_crypto) (lg_leaders_log sample_rewarded)"
    using increase_for_spec [OF leaders_new_ok, of "c_hd sample_crypto" "[9]", where 'e = unit] by (simp add: leaders_new_def)
qed

text \<open>
  C3. Distributing the rewards of an epoch moves coins and makes or loses none: the reward pot gives what is
  reported as drawn, the fee pot gives all it holds, the treasury gets what is reported for it, and the
  accounts get exactly the rest. Afterwards the log of block makers is empty, so a second call changes
  nothing. The conditions ask that the accounts to be paid are known and that the taxes have ratios of at
  most one.
\<close>

theorem rewards_conserve:
  assumes "distribute_rewards C sd lp rip l = Ok (l', ri)" and "ledger_ok C K F l" and "leaders_ok (c_hd C) (lg_leaders_log l)"
    and "\<forall>psi \<in> snd ` set (sd_to_pools sd). pool_payable K psi" and "ratio_ok (tax_ratio (lp_treasury_tax lp))"
  shows "ledger_ok C K F l' \<and> ledger_coins C l' = ledger_coins C l \<and> lg_utxos l' = lg_utxos l \<and> lg_multisig l' = lg_multisig l
    \<and> distribute_rewards C sd lp rip l' = Ok (l', rewards_info_new rip)
    \<and> (if can_distribute_reward l
       then coins (pot_rewards (lg_pots l)) = coins (pot_rewards (lg_pots l')) + coins (eri_drawn ri)
         \<and> eri_fees ri = pot_fees (lg_pots l) \<and> pot_fees (lg_pots l') = value_zero
         \<and> treasury_coins l' = treasury_coins l + coins (eri_treasury ri)
         \<and> account_total (c_ha C) (lg_accounts l') + coins (eri_treasury ri)
           = account_total (c_ha C) (lg_accounts l) + coins (eri_drawn ri) + coins (eri_fees ri)
       else l' = l)"
  using distribute_rewards_spec [OF assms] by blast

theorem rewards_conserve_witness:
  "\<exists>l ri. distribute_rewards sample_crypto sample_distribution (get_ledger_parameters sample_rewarded) report_all sample_rewarded = Ok (l, ri)
     \<and> account_total (c_ha sample_crypto) (lg_accounts l) + coins (Value 4)
       = account_total (c_ha sample_crypto) (lg_accounts sample_rewarded) + coins (eri_drawn ri) + coins (Value 10)"
proof -
  obtain l ri where r: "distribute_rewards sample_crypto sample_distribution (get_ledger_parameters sample_rewarded) report_all sample_rewarded = Ok (l, ri)"
    and t: "eri_treasury ri = Value 4" using sample_distribute by (auto split: outcome.splits)
  have "\<forall>psi \<in> snd ` set (sd_to_pools sample_distribution). pool_payable {sample_account} psi"
    by (simp add: sample_distribution_def pool_payable_def registration_payable_def sample_pool_def sample_account_def ratio_ok_def)
  moreover have "ratio_ok (tax_ratio (lp_treasury_tax (get_ledger_parameters sample_rewarded)))" unfolding ratio_ok_def by code_simp
  moreover have "can_distribute_reward sample_rewarded" "pot_fees (lg_pots sample_rewarded) = Value 10"
    by (simp_all add: can_distribute_reward_def sample_rewarded_def)
  ultimately show ?thesis using rewards_conserve [OF r sample_rewarded_ok] r t by simp
qed

end
