(* ===== verification/Blocks.thy ===== *)
theory Blocks
  imports Block_Ledger Reward_Distribution
begin

text \<open>
  Fragments and blocks (\<open>fragment/\<close>, \<open>legacy.rs\<close>, \<open>chaintypes.rs\<close>, \<open>chaineval.rs\<close> and the top of
  \<open>ledger/ledger.rs\<close>): the bytes and the identifier of a fragment, what each kind of fragment does, the first
  block, and beginning, filling and finishing a block. The fragments of the voting certificates are
  added in theory \<open>Voting\<close>; the fragments of the \<open>evm\<close> feature are refused, as in a build without that feature.

  The theorems show that no fragment and no block makes or loses a coin, that the date and the length of
  the chain only grow, and that reapplying an old block is refused.
\<close>

section \<open>Fragments\<close>

type_synonym utxo_declaration = "(u8 list \<times> val) list"

datatype fragment =
    FInitial "config_param list"
  | FOldUtxoDeclaration utxo_declaration
  | FTransaction tx_slice
  | FOwnerStakeDelegation tx_slice
  | FStakeDelegation tx_slice
  | FPoolRegistration tx_slice
  | FPoolRetirement tx_slice
  | FPoolUpdate tx_slice
  | FUpdateProposal tx_slice
  | FUpdateVote tx_slice
  | FMintToken tx_slice
  | FEvm tx_slice

fun fragment_tag :: "fragment \<Rightarrow> u8" where
  "fragment_tag (FInitial _) = 0"
| "fragment_tag (FOldUtxoDeclaration _) = 1"
| "fragment_tag (FTransaction _) = 2"
| "fragment_tag (FOwnerStakeDelegation _) = 3"
| "fragment_tag (FStakeDelegation _) = 4"
| "fragment_tag (FPoolRegistration _) = 5"
| "fragment_tag (FPoolRetirement _) = 6"
| "fragment_tag (FPoolUpdate _) = 7"
| "fragment_tag (FUpdateProposal _) = 8"
| "fragment_tag (FUpdateVote _) = 9"
| "fragment_tag (FMintToken _) = 14"
| "fragment_tag (FEvm _) = 15"

text \<open>Legacy unspent outputs; writing them asserts that there are fewer than 255.\<close>

fun declaration_entries :: "utxo_declaration \<Rightarrow> u8 list \<Rightarrow> (io_error, u8 list) outcome" where
  "declaration_entries [] w = Ok w"
| "declaration_entries ((b, v) # addrs) w =
     obind (codec_put_be_u64 w (amount v)) (\<lambda>w.
     obind (codec_put_be_u16 w (of_nat (length b))) (\<lambda>w.
     obind (write_all w b) (declaration_entries addrs)))"

definition utxo_declaration_serialize :: "utxo_declaration \<Rightarrow> u8 list \<Rightarrow> (io_error, u8 list) outcome" where
  "utxo_declaration_serialize addrs w =
     obind (require (length addrs < 255)) (\<lambda>_.
     obind (codec_put_u8 w (of_nat (length addrs))) (declaration_entries addrs))"

text \<open>A transaction is written as its bytes.\<close>

definition transaction_serialize :: "tx_slice \<Rightarrow> u8 list \<Rightarrow> (io_error, u8 list) outcome" where
  "transaction_serialize tx w = write_all w (tx_data tx)"

definition fragment_to_raw :: "fragment \<Rightarrow> ('e, u8 list) outcome" where
  "fragment_to_raw f =
     obind (unwrap (codec_put_u8 [] 0)) (\<lambda>w.
     obind (unwrap (codec_put_u8 w (fragment_tag f))) (\<lambda>w.
     unwrap (case f of
       FInitial i \<Rightarrow> config_params_serialize i w
     | FOldUtxoDeclaration s \<Rightarrow> utxo_declaration_serialize s w
     | FTransaction tx \<Rightarrow> transaction_serialize tx w
     | FOwnerStakeDelegation tx \<Rightarrow> transaction_serialize tx w
     | FStakeDelegation tx \<Rightarrow> transaction_serialize tx w
     | FPoolRegistration tx \<Rightarrow> transaction_serialize tx w
     | FPoolRetirement tx \<Rightarrow> transaction_serialize tx w
     | FPoolUpdate tx \<Rightarrow> transaction_serialize tx w
     | FUpdateProposal tx \<Rightarrow> transaction_serialize tx w
     | FUpdateVote tx \<Rightarrow> transaction_serialize tx w
     | FMintToken tx \<Rightarrow> transaction_serialize tx w
     | FEvm tx \<Rightarrow> transaction_serialize tx w)))"

definition FRAGMENT_SIZE_BYTES_LEN :: nat where "FRAGMENT_SIZE_BYTES_LEN = 4"

definition raw_id :: "(u8 list \<Rightarrow> digest) \<Rightarrow> u8 list \<Rightarrow> digest" where
  "raw_id blake raw = blake raw"

definition size_bytes_plus_size :: "u8 list \<Rightarrow> nat" where
  "size_bytes_plus_size raw = FRAGMENT_SIZE_BYTES_LEN + length raw"

definition raw_serialize :: "u8 list \<Rightarrow> u8 list \<Rightarrow> (io_error, u8 list) outcome" where
  "raw_serialize raw w = obind (codec_put_be_u32 w (of_nat (length raw))) (\<lambda>w. write_all w raw)"

definition raw_read :: "u8 list reader" where
  "raw_read buf = obind (get_u32 buf) (\<lambda>(n, buf). get_slice (unat n) buf)"

definition fragment_hash :: "(u8 list \<Rightarrow> digest) \<Rightarrow> fragment \<Rightarrow> ('e, digest) outcome" where
  "fragment_hash blake f = omap (raw_id blake) (fragment_to_raw f)"

fun contents_bytes :: "fragment list \<Rightarrow> u8 list \<Rightarrow> ('e, u8 list) outcome" where
  "contents_bytes [] bytes = Ok bytes"
| "contents_bytes (f # fs) bytes =
     obind (fragment_to_raw f) (\<lambda>raw. obind (unwrap (raw_serialize raw bytes)) (contents_bytes fs))"

definition compute_hash_size :: "(u8 list \<Rightarrow> digest) \<Rightarrow> fragment list \<Rightarrow> ('e, digest \<times> u32) outcome" where
  "compute_hash_size blake contents = omap (\<lambda>bytes. (blake bytes, of_nat (length bytes))) (contents_bytes contents [])"

section \<open>Applying a fragment\<close>

definition transact ::
  "crypto \<Rightarrow> ('p, 'a) payload \<Rightarrow> digest \<Rightarrow> tx_slice \<Rightarrow> block_date \<Rightarrow> ledger_parameters \<Rightarrow> ledger \<Rightarrow> (ledger_error, ledger) outcome" where
  "transact C P fid tx d lp l = omap fst (apply_transaction C P fid tx d lp l)"

text \<open>The first input and the first witness, each with the \<open>unwrap\<close> of the source.\<close>

definition first_input :: "tx_slice \<Rightarrow> ('e, tx_input) outcome" where
  "first_input tx = obind (inputs_slice tx) (\<lambda>s. obind (inputs_next (nb_inputs tx) s 0) (\<lambda>r. omap fst (unwrap_opt r)))"

definition first_witness :: "tx_slice \<Rightarrow> ('e, tx_witness) outcome" where
  "first_witness tx = obind (witnesses_slice tx) (\<lambda>s. obind (witnesses_next s 0) (\<lambda>r. omap fst (unwrap_opt r)))"

text \<open>A certificate with its binding signature, as read from the transaction.\<close>

definition with_certificate ::
  "('p, 'a) payload \<Rightarrow> tx_slice \<Rightarrow> ('p \<Rightarrow> u8 list \<Rightarrow> 'a \<Rightarrow> (ledger_error, ledger) outcome) \<Rightarrow> (ledger_error, ledger) outcome" where
  "with_certificate P tx f =
     obind (into_payload P tx) (\<lambda>cert. obind (transaction_binding_auth_data tx) (\<lambda>bad.
     obind (into_payload_auth P tx) (\<lambda>sig. f cert bad sig)))"

definition apply_owner_delegation_fragment ::
  "crypto \<Rightarrow> digest \<Rightarrow> tx_slice \<Rightarrow> block_date \<Rightarrow> ledger_parameters \<Rightarrow> ledger \<Rightarrow> (ledger_error, ledger) outcome" where
  "apply_owner_delegation_fragment C fid tx d lp l =
     obind (valid_stake_owner_delegation_transaction tx) (\<lambda>_.
     obind (transact C owner_delegation_payload fid tx d lp l) (\<lambda>l.
     obind (first_input tx) (\<lambda>input.
     case to_enum input of
       UtxoInput _ \<Rightarrow> Err OwnerStakeDelegationInvalidTransaction
     | AccountInput account_id _ \<Rightarrow>
         obind (first_witness tx) (\<lambda>w.
         obind (into_payload owner_delegation_payload tx) (\<lambda>delegation.
         apply_owner_stake_delegation C account_id w delegation l)))))"

definition verify_account_binding ::
  "crypto \<Rightarrow> tx_slice \<Rightarrow> stake_delegation \<Rightarrow> account_binding_signature \<Rightarrow> (ledger_error, bool) outcome" where
  "verify_account_binding C tx cert sig =
     (case sig of
        BindSingle s \<Rightarrow>
          obind (ok_or AccountIdentifierInvalid (to_single_account (sd_account_id cert))) (\<lambda>pk.
          obind (transaction_binding_auth_data tx) (\<lambda>bad. Ok (c_verify C (id_key pk) bad s)))
      | BindMulti _ \<Rightarrow> Ok False)"

definition apply_delegation_fragment ::
  "crypto \<Rightarrow> digest \<Rightarrow> tx_slice \<Rightarrow> block_date \<Rightarrow> ledger_parameters \<Rightarrow> ledger \<Rightarrow> (ledger_error, ledger) outcome" where
  "apply_delegation_fragment C fid tx d lp l =
     obind (into_payload stake_delegation_payload tx) (\<lambda>cert.
     obind (into_payload_auth stake_delegation_payload tx) (\<lambda>sig.
     obind (verify_account_binding C tx cert sig) (\<lambda>verified.
     if \<not> verified then Err StakeDelegationSignatureFailed
     else obind (transact C stake_delegation_payload fid tx d lp l) (apply_stake_delegation C cert))))"

text \<open>\<open>point\<close> decodes a VRF key, which the curve library does.\<close>

definition apply_fragment ::
  "crypto \<Rightarrow> (u8 list \<Rightarrow> u8 list option) \<Rightarrow> ledger_parameters \<Rightarrow> fragment \<Rightarrow> block_date \<Rightarrow> ledger \<Rightarrow> (ledger_error, ledger) outcome" where
  "apply_fragment C point lp f d l =
     obind (fragment_hash (c_blake C) f) (\<lambda>fid.
     case f of
       FInitial _ \<Rightarrow> Err Block0OnlyFragmentReceived
     | FOldUtxoDeclaration _ \<Rightarrow> Err Block0OnlyFragmentReceived
     | FTransaction tx \<Rightarrow> transact C no_extra fid tx d lp l
     | FOwnerStakeDelegation tx \<Rightarrow> apply_owner_delegation_fragment C fid tx d lp l
     | FStakeDelegation tx \<Rightarrow> apply_delegation_fragment C fid tx d lp l
     | FPoolRegistration tx \<Rightarrow>
         obind (transact C (pool_registration_payload point) fid tx d lp l) (\<lambda>l.
         with_certificate (pool_registration_payload point) tx (\<lambda>cert bad sig. apply_pool_registration_signcheck C cert bad sig l))
     | FPoolRetirement tx \<Rightarrow>
         obind (transact C pool_retirement_payload fid tx d lp l) (\<lambda>l.
         with_certificate pool_retirement_payload tx (\<lambda>cert bad sig. apply_pool_retirement C cert bad sig l))
     | FPoolUpdate tx \<Rightarrow>
         obind (transact C (pool_update_payload point) fid tx d lp l) (\<lambda>l.
         with_certificate (pool_update_payload point) tx (\<lambda>cert bad sig. apply_pool_update C cert bad sig l))
     | FUpdateProposal tx \<Rightarrow>
         obind (transact C update_proposal_payload fid tx d lp l) (\<lambda>l.
         with_certificate update_proposal_payload tx (\<lambda>cert bad sig. apply_update_proposal C fid cert bad sig d l))
     | FUpdateVote tx \<Rightarrow>
         obind (transact C update_vote_payload fid tx d lp l) (\<lambda>l.
         with_certificate update_vote_payload tx (\<lambda>cert bad sig. apply_update_vote C cert bad sig l))
     | FMintToken tx \<Rightarrow>
         obind (transact C mint_token_payload fid tx d lp l) (\<lambda>l.
         obind (into_payload mint_token_payload tx) (\<lambda>m. mint_token_checked C m l))
     | FEvm _ \<Rightarrow> Err DisabledEvmTransactions)"

section \<open>Blocks\<close>

definition chain_length_increase :: "u32 \<Rightarrow> ('e, u32) outcome" where
  "chain_length_increase n = unwrap_opt (checked_add n 1)"

definition nth_ancestor :: "u32 \<Rightarrow> u32 \<Rightarrow> u32 option" where
  "nth_ancestor n depth = checked_sub n depth"

record apply_block_ledger =
  abl_ledger :: ledger
  abl_params :: ledger_parameters
  abl_date :: block_date

datatype consensus_eval_context = EvalGenesis | EvalBft | EvalPraos "u8 list" digest

record header_content_eval_context =
  hc_block_date :: block_date
  hc_chain_length :: u32
  hc_content_hash :: digest
  hc_consensus :: consensus_eval_context

definition nonce_hash_with :: "(u8 list \<Rightarrow> digest) \<Rightarrow> u8 list \<Rightarrow> u8 list \<Rightarrow> u8 list" where
  "nonce_hash_with blake nonce other = blake (nonce @ other)"

definition begin_block :: "crypto \<Rightarrow> u32 \<Rightarrow> block_date \<Rightarrow> ledger \<Rightarrow> (ledger_error, apply_block_ledger) outcome" where
  "begin_block C chain_length block_date l =
     obind (chain_length_increase (lg_chain_length l)) (\<lambda>n.
     if chain_length \<noteq> n then Err (WrongChainLength chain_length n)
     else if block_date \<le> lg_date l then Err (NonMonotonicDate block_date (lg_date l))
     else if bd_epoch block_date > bd_epoch (lg_date l) \<and> ll_total (lg_leaders_log l) > 0 then Panic
     else
       obind (process_proposals (c_hd C) (lg_updates l) (lg_settings l) (lg_date l) block_date) (\<lambda>(updates, s).
       let l = l\<lparr>lg_chain_length := n, lg_updates := updates, lg_settings := s\<rparr> in
       Ok \<lparr>abl_ledger = l, abl_params = get_ledger_parameters l, abl_date = block_date\<rparr>))"

definition block_apply_fragment ::
  "crypto \<Rightarrow> (u8 list \<Rightarrow> u8 list option) \<Rightarrow> fragment \<Rightarrow> apply_block_ledger \<Rightarrow> (ledger_error, apply_block_ledger) outcome" where
  "block_apply_fragment C point f b =
     obind (apply_fragment C point (abl_params b) f (abl_date b) (abl_ledger b)) (\<lambda>l. Ok (b\<lparr>abl_ledger := l\<rparr>))"

definition finish_block :: "crypto \<Rightarrow> consensus_eval_context \<Rightarrow> apply_block_ledger \<Rightarrow> (ledger_error, ledger) outcome" where
  "finish_block C ctx b =
     (let l = (abl_ledger b)\<lparr>lg_date := abl_date b\<rparr> in
      case ctx of
        EvalBft \<Rightarrow> Ok l
      | EvalGenesis \<Rightarrow> Ok l
      | EvalPraos nonce pool_creator \<Rightarrow>
          (let s = lg_settings l in
           obind (increase_for (c_hd C) (lg_leaders_log l) pool_creator) (\<lambda>log.
           Ok (l\<lparr>lg_settings := s\<lparr>s_consensus_nonce := nonce_hash_with (c_blake C) (s_consensus_nonce s) nonce\<rparr>, lg_leaders_log := log\<rparr>))))"

definition apply_block ::
  "crypto \<Rightarrow> (u8 list \<Rightarrow> u8 list option) \<Rightarrow> ledger_parameters \<Rightarrow> fragment list \<Rightarrow> header_content_eval_context \<Rightarrow> ledger \<Rightarrow> (ledger_error, ledger) outcome" where
  "apply_block C point lp contents m l =
     obind (compute_hash_size (c_blake C) contents) (\<lambda>(content_hash, content_size).
     if content_size > lp_block_content_max_size lp then Err (InvalidContentSize content_size (lp_block_content_max_size lp))
     else if content_hash \<noteq> hc_content_hash m then Err (InvalidContentHash content_hash (hc_content_hash m))
     else
       obind (begin_block C (hc_chain_length m) (hc_block_date m) l) (\<lambda>b.
       obind (ofold (block_apply_fragment C point) contents b) (\<lambda>b.
       finish_block C (hc_consensus m) b)))"

section \<open>The first block\<close>

record block0_params =
  b0_regular :: "config_param list"
  b0_start_time :: "u64 option"
  b0_discrimination :: "discrimination option"
  b0_slot_duration :: "u8 option"
  b0_slots_per_epoch :: "u32 option"
  b0_kes_update_speed :: "u32 option"
  b0_pots :: pots

definition block0_params_start :: block0_params where
  "block0_params_start = \<lparr>b0_regular = [], b0_start_time = None, b0_discrimination = None, b0_slot_duration = None,
     b0_slots_per_epoch = None, b0_kes_update_speed = None, b0_pots = pots_zero\<rparr>"

fun block0_param :: "config_param \<Rightarrow> block0_params \<Rightarrow> block0_params" where
  "block0_param (Block0Date d) b = b\<lparr>b0_start_time := Some d\<rparr>"
| "block0_param (CfgDiscrimination d) b = b\<lparr>b0_discrimination := Some d\<rparr>"
| "block0_param (CfgSlotDuration d) b = b\<lparr>b0_slot_duration := Some d\<rparr>"
| "block0_param (SlotsPerEpoch n) b = b\<lparr>b0_slots_per_epoch := Some n\<rparr>"
| "block0_param (KesUpdateSpeed n) b = b\<lparr>b0_kes_update_speed := Some n\<rparr>"
| "block0_param (TreasuryAdd v) b = b\<lparr>b0_pots := (b0_pots b)\<lparr>pot_treasury := treasury_initial v\<rparr>\<rparr>"
| "block0_param (RewardPot v) b = b\<lparr>b0_pots := (b0_pots b)\<lparr>pot_rewards := v\<rparr>\<rparr>"
| "block0_param p b = b\<lparr>b0_regular := b0_regular b @ [p]\<rparr>"

text \<open>
  The ledger before the fragments of block 0: the parameters that must be there, the time frame of the
  first era, and the settings. The start of the time line in seconds since the epoch of the clock.
\<close>

definition block0_ledger :: "digest \<Rightarrow> config_param list \<Rightarrow> (ledger_error, ledger) outcome" where
  "block0_ledger h params =
     (let b = fold block0_param params block0_params_start in
      obind (ok_or (Block0Err InitialMessageNoDate) (b0_start_time b)) (\<lambda>start.
      obind (ok_or (Block0Err InitialMessageNoDiscrimination) (b0_discrimination b)) (\<lambda>disc.
      obind (ok_or (Block0Err InitialMessageNoSlotDuration) (b0_slot_duration b)) (\<lambda>dur.
      obind (ok_or (Block0Err InitialMessageNoSlotsPerEpoch) (b0_slots_per_epoch b)) (\<lambda>spe.
      obind (ok_or (Block0Err InitialMessageNoKesUpdateSpeed) (b0_kes_update_speed b)) (\<lambda>kes.
      obind (slot_duration_from_secs (ucast dur)) (\<lambda>sdur.
      let tf = time_frame_new (timeline_new (duration_from_secs start)) sdur;
          era = time_era_new (slot0 tf) 0 spe in
      obind settings_new (\<lambda>s0.
      obind (map_err UpdateErr (try_apply s0 (b0_regular b))) (\<lambda>s.
      if s_bft_leaders s = [] then Err (Block0Err InitialMessageNoConsensusLeaderId)
      else Ok (ledger_empty s \<lparr>block0_initial_hash = h, block0_start_time = start, static_discrimination = disc, kes_update_speed = kes\<rparr>
             era (b0_pots b)))))))))))"

definition old_outputs :: "utxo_declaration \<Rightarrow> (u8 \<times> u8 list tx_output) list" where
  "old_outputs addrs = map (\<lambda>(i, d). (of_nat i, \<lparr>out_address = fst d, out_value = snd d\<rparr>)) (enumerate 0 addrs)"

definition apply_old_declaration ::
  "digest hasher \<Rightarrow> digest \<Rightarrow> (digest, u8 list) utxo_ledger \<Rightarrow> utxo_declaration \<Rightarrow> (ledger_error, (digest, u8 list) utxo_ledger) outcome" where
  "apply_old_declaration hf fid us decl =
     obind (require (length decl < 255)) (\<lambda>_. map_err UtxoErr (utxo_add hf us fid (old_outputs decl)))"

definition block0_fragment ::
  "crypto \<Rightarrow> (u8 list \<Rightarrow> u8 list option) \<Rightarrow> fragment \<Rightarrow> ledger \<Rightarrow> (ledger_error, ledger) outcome" where
  "block0_fragment C point f l =
     obind (fragment_hash (c_blake C) f) (\<lambda>fid.
     case f of
       FInitial _ \<Rightarrow> Err (Block0Err InitialMessageMany)
     | FOldUtxoDeclaration old \<Rightarrow> obind (apply_old_declaration (c_hd C) fid (lg_oldutxos l) old) (\<lambda>us. Ok (l\<lparr>lg_oldutxos := us\<rparr>))
     | FTransaction tx \<Rightarrow> obind (valid_block0_transaction_no_inputs tx) (\<lambda>_. apply_tx_outputs C fid tx l)
     | FUpdateProposal _ \<Rightarrow> Err (Block0Err HasUpdateProposal)
     | FUpdateVote _ \<Rightarrow> Err (Block0Err HasUpdateVote)
     | FOwnerStakeDelegation _ \<Rightarrow> Err (Block0Err HasOwnerStakeDelegation)
     | FStakeDelegation tx \<Rightarrow>
         obind (valid_block0_cert_transaction tx) (\<lambda>_.
         obind (into_payload stake_delegation_payload tx) (\<lambda>cert. apply_stake_delegation C cert l))
     | FPoolRegistration tx \<Rightarrow>
         obind (valid_block0_cert_transaction tx) (\<lambda>_.
         obind (into_payload (pool_registration_payload point) tx) (\<lambda>cert. apply_pool_registration C cert l))
     | FPoolRetirement _ \<Rightarrow> Err (Block0Err HasPoolManagement)
     | FPoolUpdate _ \<Rightarrow> Err (Block0Err HasPoolManagement)
     | FMintToken tx \<Rightarrow>
         obind (valid_block0_cert_transaction tx) (\<lambda>_.
         obind (into_payload mint_token_payload tx) (\<lambda>m. mint_token_unchecked C m l))
     | FEvm _ \<Rightarrow> Err DisabledEvmTransactions)"

definition validate_utxo_total_value :: "ledger \<Rightarrow> (ledger_error, unit) outcome" where
  "validate_utxo_total_value l = obind (ledger_total_value l) (\<lambda>_. Ok ())"

fun ledger_new :: "crypto \<Rightarrow> (u8 list \<Rightarrow> u8 list option) \<Rightarrow> digest \<Rightarrow> fragment list \<Rightarrow> (ledger_error, ledger) outcome" where
  "ledger_new C point h [] = Err (Block0Err InitialMessageMissing)"
| "ledger_new C point h (FInitial params # contents) =
     obind (block0_ledger h params) (\<lambda>l.
     obind (ofold (block0_fragment C point) contents l) (\<lambda>l.
     obind (validate_utxo_total_value l) (\<lambda>_. Ok l)))"
| "ledger_new C point h (f # contents) = Err ExpectingInitialMessage"

section \<open>What a fragment leaves alone\<close>

definition same_chain :: "ledger \<Rightarrow> ledger \<Rightarrow> bool" where
  "same_chain l l' \<longleftrightarrow> lg_date l' = lg_date l \<and> lg_chain_length l' = lg_chain_length l \<and> lg_leaders_log l' = lg_leaders_log l
     \<and> lg_static l' = lg_static l \<and> lg_actions l' = lg_actions l \<and> lg_settings l' = lg_settings l \<and> lg_era l' = lg_era l"

lemma same_chain_refl [simp]: "same_chain l l"
  by (simp add: same_chain_def)

lemma same_chain_updates [simp]:
  "same_chain l (l\<lparr>lg_utxos := us\<rparr>)" "same_chain l (l\<lparr>lg_oldutxos := old\<rparr>)" "same_chain l (l\<lparr>lg_accounts := as\<rparr>)"
  "same_chain l (l\<lparr>lg_multisig := ms\<rparr>)" "same_chain l (l\<lparr>lg_delegation := ps\<rparr>)" "same_chain l (l\<lparr>lg_pots := p\<rparr>)"
  "same_chain l (l\<lparr>lg_updates := ups\<rparr>)"
  by (simp_all add: same_chain_def)

lemma same_chain_trans: "same_chain l l' \<Longrightarrow> same_chain l' l'' \<Longrightarrow> same_chain l l''"
  by (simp add: same_chain_def)

lemma for_each_keeps:
  assumes "\<And>x acc acc'. f x acc = Ok acc' \<Longrightarrow> R acc acc'" and "\<And>a. R a a" and "\<And>a b c. R a b \<Longrightarrow> R b c \<Longrightarrow> R a c"
  shows "for_each nxt f n s acc = Ok acc' \<Longrightarrow> R acc acc'"
proof (induction n arbitrary: s acc)
  case (Suc n)
  then show ?case using assms by (auto simp: obind_Ok_iff split: option.splits prod.splits) blast
qed simp

lemma input_to_utxo_chain: "apply_input_to_utxo C l h u w = Ok l' \<Longrightarrow> same_chain l l'"
  by (auto simp: apply_input_to_utxo_def Let_def obind_Ok_iff same_chain_def split: tx_witness.splits if_splits prod.splits)

lemma tx_input_chain:
  assumes "apply_tx_input C h x l = Ok l'"
  shows "same_chain l l'"
proof (cases "to_enum (fst x)")
  case (AccountInput a v)
  then obtain m where "match_identifier_witness a (snd x) = Ok m" using assms by (auto simp: apply_tx_input_def obind_Ok_iff)
  then show ?thesis using assms AccountInput by (cases m) (auto simp: apply_tx_input_def obind_Ok_iff)
qed (use assms input_to_utxo_chain in \<open>simp add: apply_tx_input_def\<close>)

lemma tx_output_chain:
  "apply_tx_output C o' st = Ok st' \<Longrightarrow> same_chain (fst st) (fst st') \<and> lg_oldutxos (fst st') = lg_oldutxos (fst st)"
  by (auto simp: apply_tx_output_def add_value_or_create_account_def obind_Ok_iff same_chain_def
      split: kind.splits if_splits prod.splits outcome.splits account_error.splits)

lemma tx_outputs_chain:
  assumes "apply_tx_outputs C fid tx l = Ok l'"
  shows "same_chain l l'" and "lg_oldutxos l' = lg_oldutxos l"
proof -
  obtain st where st: "each_output tx (apply_tx_output C) (l, [], 0) = Ok st" using assms by (auto simp: apply_tx_outputs_def obind_Ok_iff)
  obtain l1 us n where s: "st = (l1, us, n)" by (cases st)
  then have l': "l' = l1 \<or> (\<exists>u. l' = l1\<lparr>lg_utxos := u\<rparr>)"
    using assms st by (auto simp: apply_tx_outputs_def obind_Ok_iff split: if_splits)
  obtain x where l1: "for_each (outputs_next x) (apply_tx_output C) (Suc (length x)) 0 (l, [], 0) = Ok (l1, us, n)"
    using st unfolding s each_output_def by (auto simp: obind_Ok_iff simp del: for_each.simps)
  let ?R = "\<lambda>st st'. same_chain (fst st) (fst st') \<and> lg_oldutxos (fst st') = lg_oldutxos (fst st)"
  have "?R (l, [] :: (u8 \<times> address tx_output) list, 0 :: nat) (l1, us, n)"
    by (rule for_each_keeps [where R = ?R, OF tx_output_chain _ _ l1]) (auto intro: same_chain_trans)
  then show "same_chain l l'" and "lg_oldutxos l' = lg_oldutxos l" using l' by (auto simp: same_chain_def)
qed

lemma transact_chain:
  assumes "transact C P fid tx d lp l = Ok l'"
  shows "same_chain l l'"
proof -
  obtain l1 l2 fee where l1: "apply_tx_inputs C tx l = Ok l1" and l2: "apply_tx_outputs C fid tx l1 = Ok l2" and l': "apply_tx_fee fee l2 = Ok l'"
    using assms by (auto simp: transact_def omap_iffs apply_transaction_def Let_def obind_Ok_iff)
  have "same_chain l l1"
  proof -
    obtain h s ws where "for_each (inputs_witnesses_next (nb_inputs tx) s ws) (apply_tx_input C h) 256 (0, 0) l = Ok l1"
      using l1 by (auto simp: apply_tx_inputs_def each_input_witness_def obind_Ok_iff)
    from for_each_keeps [where R = same_chain, OF tx_input_chain same_chain_refl same_chain_trans this] show ?thesis .
  qed
  moreover have "same_chain l1 l2" by (rule tx_outputs_chain [OF l2])
  moreover have "same_chain l2 l'" using l' by (auto simp: apply_tx_fee_def obind_Ok_iff same_chain_def)
  ultimately show ?thesis using same_chain_trans by blast
qed

section \<open>Fragments conserve value\<close>

lemma ledger_frame_updates [simp]:
  "ledger_ok C K F (l\<lparr>lg_updates := ups\<rparr>) = ledger_ok C K F l" "ledger_coins C (l\<lparr>lg_updates := ups\<rparr>) = ledger_coins C l"
  "ledger_ok C K F (l\<lparr>lg_settings := s\<rparr>) = ledger_ok C K F l" "ledger_coins C (l\<lparr>lg_settings := s\<rparr>) = ledger_coins C l"
  "ledger_ok C K F (l\<lparr>lg_date := d\<rparr>) = ledger_ok C K F l" "ledger_coins C (l\<lparr>lg_date := d\<rparr>) = ledger_coins C l"
  "ledger_ok C K F (l\<lparr>lg_chain_length := n\<rparr>) = ledger_ok C K F l" "ledger_coins C (l\<lparr>lg_chain_length := n\<rparr>) = ledger_coins C l"
  "ledger_ok C K F (l\<lparr>lg_actions := as\<rparr>) = ledger_ok C K F l" "ledger_coins C (l\<lparr>lg_actions := as\<rparr>) = ledger_coins C l"
  by (simp_all add: ledger_ok_def ledger_coins_def)

text \<open>A step that only moves coins and leaves the chain alone.\<close>

definition keeps :: "crypto \<Rightarrow> acc_identifier set \<Rightarrow> digest set \<Rightarrow> ledger \<Rightarrow> ledger \<Rightarrow> bool" where
  "keeps C K F l l' \<longleftrightarrow> same_chain l l'
     \<and> (ledger_ok C K F l \<longrightarrow> ledger_ok C K F l' \<and> ledger_coins C l' = ledger_coins C l)"

lemma keeps_refl [simp]: "keeps C K F l l"
  by (simp add: keeps_def)

lemma keeps_trans: "keeps C K F l l' \<Longrightarrow> keeps C K F l' l'' \<Longrightarrow> keeps C K F l l''"
  using same_chain_trans by (auto simp: keeps_def)

text \<open>A transaction as it is built or read, paying to known accounts.\<close>

definition tx_ok :: "('p, 'a) payload \<Rightarrow> acc_identifier set \<Rightarrow> tx_slice \<Rightarrow> bool" where
  "tx_ok P K tx \<longleftrightarrow> (\<exists>vp va x. parts_ok P vp va x \<and> tx = parts_tx P x \<and> (\<forall>o' \<in> set (tp_outputs x). output_account o' \<subseteq> K))"

lemma transact_keeps:
  assumes "transact C P fid tx d lp l = Ok l'" and "tx_ok P K tx" and "fid \<in> F"
  shows "keeps C K F l l'"
proof -
  obtain vp va x where x: "parts_ok P vp va x" "tx = parts_tx P x" "\<forall>o' \<in> set (tp_outputs x). output_account o' \<subseteq> K"
    using assms(2) by (auto simp: tx_ok_def)
  have m: "ledger_ok C K F l \<Longrightarrow> moves C K F l 0 0 (Ok l')"
    using transaction_moves [OF x(1) _ assms(3) x(3), of C l d lp] assms(1) x(2) by (simp add: transact_def)
  show ?thesis using m transact_chain [OF assms(1)] by (simp add: keeps_def)
qed

lemma set_delegation_Ok:
  assumes "account_ok hf ht as" and "set_delegation hf as i d = Ok as'"
  shows "hamt_map hf as i \<noteq> None"
  using assms(2) account_update [OF assms(1), of i "\<lambda>st. Ok (Some (account_state_set_delegation st d))"]
  unfolding set_delegation_def by (cases "hamt_map hf as i") auto

lemma set_delegation_keeps:
  assumes "set_delegation (c_ha C) (lg_accounts l) i d = Ok as"
  shows "keeps C K F l (l\<lparr>lg_accounts := as\<rparr>)"
proof -
  have "ledger_ok C K F (l\<lparr>lg_accounts := as\<rparr>) \<and> ledger_coins C (l\<lparr>lg_accounts := as\<rparr>) = ledger_coins C l" if ok: "ledger_ok C K F l"
  proof -
    have "i \<in> K" using set_delegation_Ok [OF ledger_okD(3) [OF ok] assms] ledger_okD(6) [OF ok] by auto
    then show ?thesis using account_change [OF ok step_delegate [OF assms]] by simp
  qed
  then show ?thesis by (simp add: keeps_def)
qed

lemma ms_delegation_keeps:
  assumes "ms_set_delegation (c_hd C) (lg_multisig l) i d = Ok ms"
  shows "keeps C K F l (l\<lparr>lg_multisig := ms\<rparr>)"
proof -
  obtain as where as: "set_delegation (c_hd C) (ms_accounts (lg_multisig l)) i d = Ok as" "ms = (lg_multisig l)\<lparr>ms_accounts := as\<rparr>"
    using assms by (auto simp: ms_set_delegation_def obind_Ok_iff outcome_simps)
  have "ledger_ok C K F (l\<lparr>lg_multisig := ms\<rparr>) \<and> ledger_coins C (l\<lparr>lg_multisig := ms\<rparr>) = ledger_coins C l" if ok: "ledger_ok C K F l"
    using multisig_change [OF ok step_delegate [OF as(1)]] set_delegation_Ok [OF ms_okD(1) [OF ledger_okD(4) [OF ok]] as(1)] as(2) by simp
  then show ?thesis by (simp add: keeps_def)
qed

lemma certificate_keeps:
  "apply_stake_delegation C cert l = Ok l' \<Longrightarrow> keeps C K F l l'"
  "apply_owner_stake_delegation C a w dl l = Ok l' \<Longrightarrow> keeps C K F l l'"
  "apply_pool_registration C reg l = Ok l' \<Longrightarrow> keeps C K F l l'"
  "apply_pool_registration_signcheck C reg bad psig l = Ok l' \<Longrightarrow> keeps C K F l l'"
  "apply_pool_retirement C ret bad psig l = Ok l' \<Longrightarrow> keeps C K F l l'"
  "apply_pool_update C upd bad psig l = Ok l' \<Longrightarrow> keeps C K F l l'"
  "apply_update_proposal C pid up bad sig d l = Ok l' \<Longrightarrow> keeps C K F l l'"
  "apply_update_vote C uv bad sig l = Ok l' \<Longrightarrow> keeps C K F l l'"
  subgoal using set_delegation_keeps by (auto simp: apply_stake_delegation_def obind_Ok_iff outcome_simps)
  subgoal
  proof -
    assume ok: "apply_owner_stake_delegation C a w dl l = Ok l'"
    then obtain m where "match_identifier_witness a w = Ok m" by (auto simp: apply_owner_stake_delegation_def obind_Ok_iff)
    then show ?thesis using ok set_delegation_keeps ms_delegation_keeps
      by (cases m) (auto simp: apply_owner_stake_delegation_def obind_Ok_iff outcome_simps)
  qed
  by (auto simp: apply_pool_registration_def apply_pool_registration_signcheck_def apply_pool_retirement_def apply_pool_update_def
      apply_update_proposal_def apply_update_vote_def obind_Ok_iff outcome_simps keeps_def split: if_splits)

fun fragment_tx_ok :: "(u8 list \<Rightarrow> u8 list option) \<Rightarrow> acc_identifier set \<Rightarrow> fragment \<Rightarrow> bool" where
  "fragment_tx_ok point K (FInitial _) = True"
| "fragment_tx_ok point K (FOldUtxoDeclaration _) = True"
| "fragment_tx_ok point K (FTransaction tx) = tx_ok no_extra K tx"
| "fragment_tx_ok point K (FOwnerStakeDelegation tx) = tx_ok owner_delegation_payload K tx"
| "fragment_tx_ok point K (FStakeDelegation tx) = tx_ok stake_delegation_payload K tx"
| "fragment_tx_ok point K (FPoolRegistration tx) = tx_ok (pool_registration_payload point) K tx"
| "fragment_tx_ok point K (FPoolRetirement tx) = tx_ok pool_retirement_payload K tx"
| "fragment_tx_ok point K (FPoolUpdate tx) = tx_ok (pool_update_payload point) K tx"
| "fragment_tx_ok point K (FUpdateProposal tx) = tx_ok update_proposal_payload K tx"
| "fragment_tx_ok point K (FUpdateVote tx) = tx_ok update_vote_payload K tx"
| "fragment_tx_ok point K (FMintToken tx) = tx_ok mint_token_payload K tx"
| "fragment_tx_ok point K (FEvm _) = True"

text \<open>The transaction of the fragment is well formed and its identifier is known.\<close>

definition fragment_ok :: "crypto \<Rightarrow> (u8 list \<Rightarrow> u8 list option) \<Rightarrow> acc_identifier set \<Rightarrow> digest set \<Rightarrow> fragment \<Rightarrow> bool" where
  "fragment_ok C point K F f \<longleftrightarrow> fragment_tx_ok point K f
     \<and> (\<forall>fid. fragment_hash (c_blake C) f = (Ok fid :: (ledger_error, _) outcome) \<longrightarrow> fid \<in> F)"

lemma certificate_after:
  assumes "obind (transact C P fid tx d lp l) (\<lambda>l. with_certificate P tx (f l)) = Ok l'"
    and "tx_ok P K tx" and "fid \<in> F" and "\<And>l1 cert bad sig l2. f l1 cert bad sig = Ok l2 \<Longrightarrow> keeps C K F l1 l2"
  shows "keeps C K F l l'"
proof -
  obtain l1 cert bad sig where "transact C P fid tx d lp l = Ok l1" "f l1 cert bad sig = Ok l'"
    using assms(1) by (auto simp: with_certificate_def obind_Ok_iff)
  then show ?thesis using transact_keeps [OF _ assms(2,3)] assms(4) keeps_trans by blast
qed

lemma owner_delegation_keeps:
  assumes "apply_owner_delegation_fragment C fid tx d lp l = Ok l'" and "tx_ok owner_delegation_payload K tx" and "fid \<in> F"
  shows "keeps C K F l l'"
proof -
  obtain l1 inp where l1: "transact C owner_delegation_payload fid tx d lp l = Ok l1" and
    r: "(case to_enum inp of UtxoInput _ \<Rightarrow> Err OwnerStakeDelegationInvalidTransaction
     | AccountInput account_id _ \<Rightarrow> obind (first_witness tx) (\<lambda>w. obind (into_payload owner_delegation_payload tx) (\<lambda>delegation.
         apply_owner_stake_delegation C account_id w delegation l1))) = Ok l'"
    using assms(1) by (auto simp: apply_owner_delegation_fragment_def obind_Ok_iff)
  have "keeps C K F l1 l'" using r certificate_keeps(2) by (cases "to_enum inp") (auto simp: obind_Ok_iff)
  then show ?thesis using transact_keeps [OF l1 assms(2,3)] keeps_trans by blast
qed

lemma delegation_fragment_keeps:
  assumes "apply_delegation_fragment C fid tx d lp l = Ok l'" and "tx_ok stake_delegation_payload K tx" and "fid \<in> F"
  shows "keeps C K F l l'"
proof -
  obtain l1 cert where "transact C stake_delegation_payload fid tx d lp l = Ok l1" "apply_stake_delegation C cert l1 = Ok l'"
    using assms(1) by (auto simp: apply_delegation_fragment_def obind_Ok_iff split: if_splits)
  then show ?thesis using transact_keeps [OF _ assms(2,3)] certificate_keeps(1) keeps_trans by blast
qed

lemma mint_never: "mint_token_checked C m l = Err AdditionalMintingNotAllowed"
  by (simp add: mint_token_checked_def check_minting_tx_def)

lemma apply_fragment_keeps:
  assumes "apply_fragment C point lp f d l = Ok l'" and "fragment_ok C point K F f"
  shows "keeps C K F l l'"
proof -
  obtain fid where fid: "fragment_hash (c_blake C) f = (Ok fid :: (ledger_error, _) outcome)"
    using assms(1) by (auto simp: apply_fragment_def obind_Ok_iff)
  then have F: "fid \<in> F" and t: "fragment_tx_ok point K f" using assms(2) by (auto simp: fragment_ok_def)
  note after = certificate_after [where F = F and fid = fid, OF _ _ F] and keep = certificate_keeps
  show ?thesis
  proof (cases f)
    case (FTransaction tx)
    then show ?thesis using assms(1) fid t transact_keeps [OF _ _ F] by (simp add: apply_fragment_def)
  next
    case (FOwnerStakeDelegation tx)
    then show ?thesis using assms(1) fid t owner_delegation_keeps [OF _ _ F] by (simp add: apply_fragment_def)
  next
    case (FStakeDelegation tx)
    then show ?thesis using assms(1) fid t delegation_fragment_keeps [OF _ _ F] by (simp add: apply_fragment_def)
  next
    case (FPoolRegistration tx)
    then show ?thesis using assms(1) fid t by (intro after [OF _ _ keep(4)]) (simp_all add: apply_fragment_def)
  next
    case (FPoolRetirement tx)
    then show ?thesis using assms(1) fid t by (intro after [OF _ _ keep(5)]) (simp_all add: apply_fragment_def)
  next
    case (FPoolUpdate tx)
    then show ?thesis using assms(1) fid t by (intro after [OF _ _ keep(6)]) (simp_all add: apply_fragment_def)
  next
    case (FUpdateProposal tx)
    then show ?thesis using assms(1) fid t by (intro after [OF _ _ keep(7)]) (simp_all add: apply_fragment_def)
  next
    case (FUpdateVote tx)
    then show ?thesis using assms(1) fid t by (intro after [OF _ _ keep(8)]) (simp_all add: apply_fragment_def)
  next
    case (FMintToken tx)
    then show ?thesis using assms(1) fid by (auto simp: apply_fragment_def obind_Ok_iff mint_never)
  qed (use assms(1) fid in \<open>simp_all add: apply_fragment_def\<close>)
qed

section \<open>Blocks and the chain\<close>

text \<open>
  The invariant of a chain: the ledger is well formed, the log of block makers counts the blocks of known
  pools, and no governance action waits.
\<close>

definition chain_ok :: "crypto \<Rightarrow> acc_identifier set \<Rightarrow> digest set \<Rightarrow> ledger \<Rightarrow> bool" where
  "chain_ok C K F l \<longleftrightarrow> ledger_ok C K F l \<and> leaders_ok (c_hd C) (lg_leaders_log l)
     \<and> dom (hamt_map (c_hd C) (ll_log (lg_leaders_log l))) \<subseteq> F \<and> lg_actions l = []"

lemma increase_for_dom:
  assumes "leaders_ok hp l" and "increase_for hp l p = (Ok l' :: ('e, _) outcome)"
  shows "dom (hamt_map hp (ll_log l')) = insert p (dom (hamt_map hp (ll_log l)))"
proof -
  let ?f = "\<lambda>v. omap Some (padd v 1) :: (unit, u32 option) outcome"
  have ok: "hamt_ok hp (ll_log l)" using assms(1) by (simp add: leaders_ok_def)
  have "hamt_insert_or_update hp (ll_log l) p 1 ?f = Ok (ll_log l')"
    using assms(2) by (auto simp: increase_for_def obind_Ok_iff outcome_simps)
  with hamt_upsert_ok [OF ok, of p 1 ?f] show ?thesis
    by (auto simp: omap_iffs split: option.splits outcome.splits)
qed

lemma begin_block_spec:
  assumes "begin_block C n d l = Ok b"
  shows "\<exists>ups s. abl_ledger b = l\<lparr>lg_chain_length := n, lg_updates := ups, lg_settings := s\<rparr> \<and> abl_date b = d
    \<and> unat n = unat (lg_chain_length l) + 1 \<and> lg_date l < d \<and> (bd_epoch (lg_date l) < bd_epoch d \<longrightarrow> ll_total (lg_leaders_log l) = 0)"
proof -
  obtain ups s where s: "unwrap_opt (checked_add (lg_chain_length l) 1) = (Ok n :: (ledger_error, _) outcome)" "\<not> d \<le> lg_date l"
    "\<not> (bd_epoch (lg_date l) < bd_epoch d \<and> 0 < ll_total (lg_leaders_log l))"
    "abl_ledger b = l\<lparr>lg_chain_length := n, lg_updates := ups, lg_settings := s\<rparr>" "abl_date b = d"
    using assms by (auto simp: begin_block_def chain_length_increase_def Let_def obind_Ok_iff split: if_splits)
  have "unat n = unat (lg_chain_length l) + 1" using s(1) by (auto simp: outcome_simps checked_simps unwrap_opt_def split: option.splits)
  moreover have "ll_total (lg_leaders_log l) = 0" if "\<not> 0 < ll_total (lg_leaders_log l)" using that word_neq_0_conv by blast
  ultimately show ?thesis using s(2-5) by (intro exI [of _ ups] exI [of _ s]) (auto simp: not_le)
qed

lemma block_fragments_keep:
  "ofold (block_apply_fragment C point) fs b = Ok b' \<Longrightarrow> \<forall>f \<in> set fs. fragment_ok C point K F f
   \<Longrightarrow> keeps C K F (abl_ledger b) (abl_ledger b') \<and> abl_date b' = abl_date b"
proof (induction fs arbitrary: b)
  case (Cons f fs)
  obtain b1 where b1: "block_apply_fragment C point f b = Ok b1" and more: "ofold (block_apply_fragment C point) fs b1 = Ok b'"
    using Cons.prems(1) by (auto simp: obind_Ok_iff)
  obtain l1 where l1: "apply_fragment C point (abl_params b) f (abl_date b) (abl_ledger b) = Ok l1" "b1 = b\<lparr>abl_ledger := l1\<rparr>"
    using b1 by (auto simp: block_apply_fragment_def obind_Ok_iff)
  have "keeps C K F (abl_ledger b) l1" using apply_fragment_keeps [OF l1(1)] Cons.prems(2) by simp
  then show ?case using Cons.IH [OF more] Cons.prems(2) l1(2) keeps_trans by fastforce
qed simp

fun creator_ok :: "digest set \<Rightarrow> consensus_eval_context \<Rightarrow> bool" where
  "creator_ok F (EvalPraos _ p) = (p \<in> F)"
| "creator_ok F _ = True"

lemma finish_block_spec:
  assumes "finish_block C ctx b = Ok l'" and "chain_ok C K F (abl_ledger b)" and "creator_ok F ctx"
  shows "chain_ok C K F l' \<and> ledger_coins C l' = ledger_coins C (abl_ledger b) \<and> lg_date l' = abl_date b
    \<and> lg_chain_length l' = lg_chain_length (abl_ledger b) \<and> lg_static l' = lg_static (abl_ledger b)
    \<and> unat (ll_total (lg_leaders_log l')) = unat (ll_total (lg_leaders_log (abl_ledger b))) + (case ctx of EvalPraos _ _ \<Rightarrow> 1 | _ \<Rightarrow> 0)"
proof (cases ctx)
  case (EvalPraos nonce p)
  let ?l = "abl_ledger b"
  obtain s log where log: "increase_for (c_hd C) (lg_leaders_log ?l) p = (Ok log :: (ledger_error, _) outcome)"
    and l': "l' = ?l\<lparr>lg_date := abl_date b, lg_settings := s, lg_leaders_log := log\<rparr>"
    using assms(1) EvalPraos by (auto simp: finish_block_def Let_def obind_Ok_iff)
  have ok: "leaders_ok (c_hd C) (lg_leaders_log ?l)" "dom (hamt_map (c_hd C) (ll_log (lg_leaders_log ?l))) \<subseteq> F" "inj_on (c_hd C) F" "p \<in> F"
    using assms(2,3) EvalPraos by (auto simp: chain_ok_def ledger_ok_def)
  have fresh: "hash_fresh (c_hd C) (ll_log (lg_leaders_log ?l)) p" by (rule known_fresh [OF ok(3,2,4)])
  have "leaders_ok (c_hd C) log" "unat (ll_total log) = unat (ll_total (lg_leaders_log ?l)) + 1"
    using increase_for_spec [OF ok(1) fresh, where 'e = ledger_error] log by (auto split: if_splits)
  moreover have "dom (hamt_map (c_hd C) (ll_log log)) \<subseteq> F" using increase_for_dom [OF ok(1) log] ok(2,4) by auto
  ultimately show ?thesis using assms(2) EvalPraos unfolding l' by (simp add: chain_ok_def)
qed (use assms in \<open>auto simp: finish_block_def chain_ok_def\<close>)

text \<open>What a block does to the chain.\<close>

lemma apply_block_spec:
  assumes "apply_block C point lp contents m l = Ok l'" and "chain_ok C K F l"
    and "\<forall>f \<in> set contents. fragment_ok C point K F f" and "creator_ok F (hc_consensus m)"
  shows "chain_ok C K F l' \<and> ledger_coins C l' = ledger_coins C l \<and> lg_static l' = lg_static l
    \<and> lg_date l' = hc_block_date m \<and> lg_date l < lg_date l' \<and> lg_chain_length l' = hc_chain_length m
    \<and> unat (lg_chain_length l') = unat (lg_chain_length l) + 1"
proof -
  obtain b b' where b: "begin_block C (hc_chain_length m) (hc_block_date m) l = Ok b"
    and f: "ofold (block_apply_fragment C point) contents b = Ok b'" and l': "finish_block C (hc_consensus m) b' = Ok l'"
    using assms(1) by (auto simp: apply_block_def obind_Ok_iff split: if_splits)
  obtain ups s where sp: "abl_ledger b = l\<lparr>lg_chain_length := hc_chain_length m, lg_updates := ups, lg_settings := s\<rparr>"
    "abl_date b = hc_block_date m" "unat (hc_chain_length m) = unat (lg_chain_length l) + 1" "lg_date l < hc_block_date m"
    using begin_block_spec [OF b] by blast
  have ok: "chain_ok C K F (abl_ledger b)" "ledger_coins C (abl_ledger b) = ledger_coins C l" using assms(2) sp(1) by (simp_all add: chain_ok_def)
  have k: "keeps C K F (abl_ledger b) (abl_ledger b')" "abl_date b' = abl_date b" using block_fragments_keep [OF f assms(3)] by auto
  then have "chain_ok C K F (abl_ledger b')" using ok(1) by (auto simp: chain_ok_def keeps_def same_chain_def)
  note fin = finish_block_spec [OF l' this assms(4)]
  show ?thesis using fin k ok sp by (simp add: chain_ok_def keeps_def same_chain_def)
qed

section \<open>The first block\<close>

lemma utxo_add_known:
  assumes "utxo_add hf us t outs = Ok u" and "utxo_ok hf us" and "inj_on hf F" and "dom (hamt_map hf us) \<subseteq> F" and "t \<in> F"
  shows "utxo_ok hf u" and "dom (hamt_map hf u) \<subseteq> F"
proof -
  have fresh: "hash_fresh hf us t" by (rule known_fresh [OF assms(3,4,5)])
  have u: "utxo_ok hf u" "utxo_map hf u = (\<lambda>(t', i). if t' = t then map_of (rev outs) i else utxo_map hf us (t', i))"
    using utxo_add_spec [OF assms(2), of outs t] assms(1) fresh by (auto split: if_splits)
  then show "utxo_ok hf u" by simp
  show "dom (hamt_map hf u) \<subseteq> F"
  proof
    fix t' assume "t' \<in> dom (hamt_map hf u)"
    then obtain i where "(t', i) \<in> dom (utxo_map hf u)" using utxo_dom [OF u(1), of t'] by blast
    then have "t' = t \<or> (t', i) \<in> dom (utxo_map hf us)" using u(2) by (auto split: if_splits)
    then show "t' \<in> F" using utxo_dom [OF assms(2), of t'] assms(4,5) by blast
  qed
qed

text \<open>The invariant while block 0 is read; the legacy outputs are known too.\<close>

definition block0_ok :: "crypto \<Rightarrow> acc_identifier set \<Rightarrow> digest set \<Rightarrow> ledger \<Rightarrow> bool" where
  "block0_ok C K F l \<longleftrightarrow> chain_ok C K F l \<and> dom (hamt_map (c_hd C) (lg_oldutxos l)) \<subseteq> F"

text \<open>Fragments of block 0: at most 254 outputs, since block 0 does not check their number, and no minting.\<close>

fun block0_fragment_ok :: "crypto \<Rightarrow> (u8 list \<Rightarrow> u8 list option) \<Rightarrow> acc_identifier set \<Rightarrow> digest set \<Rightarrow> fragment \<Rightarrow> bool" where
  "block0_fragment_ok C point K F (FMintToken _) = False"
| "block0_fragment_ok C point K F (FTransaction tx) = (fragment_ok C point K F (FTransaction tx) \<and> nb_outputs tx < 255)"
| "block0_fragment_ok C point K F f = fragment_ok C point K F f"

lemma block0_fragment_okD: "block0_fragment_ok C point K F f \<Longrightarrow> fragment_ok C point K F f"
  by (cases f) auto

lemma tx_outputs_ok:
  assumes "apply_tx_outputs C t tx l = Ok l'" and "ledger_ok C K F l" and "t \<in> F" and "tx_ok no_extra K tx" and "nb_outputs tx < 255"
  shows "ledger_ok C K F l'"
proof -
  obtain vp va x where x: "parts_ok no_extra vp va x" "tx = parts_tx no_extra x" "\<forall>o' \<in> set (tp_outputs x). output_account o' \<subseteq> K"
    using assms(4) by (auto simp: tx_ok_def)
  have "length (tp_outputs x) < 256" using x(1) by (simp add: parts_ok_def)
  then have "length (tp_outputs x) < 255"
    using assms(5) unat_of_nat_id [of "length (tp_outputs x)", where 'a = 8] by (simp add: x(2) parts_slices word_less_nat_alt)
  then have "moves C K F l 0 (coin_total (map out_value (tp_outputs x))) (apply_tx_outputs C t tx l)"
    using assms(2,3) x by (intro tx_outputs_moves) (simp_all add: parts_each(2) [OF x(1)])
  then show ?thesis using assms(1) by simp
qed

lemma block0_fragment_ok:
  assumes "block0_fragment C point f l = Ok l'" and "block0_ok C K F l" and "block0_fragment_ok C point K F f"
  shows "block0_ok C K F l' \<and> same_chain l l'"
proof -
  obtain fid where fid: "fragment_hash (c_blake C) f = (Ok fid :: (ledger_error, _) outcome)"
    using assms(1) by (auto simp: block0_fragment_def obind_Ok_iff)
  then have F: "fid \<in> F" and t: "fragment_tx_ok point K f"
    using block0_fragment_okD [OF assms(3)] by (auto simp: fragment_ok_def)
  have ok: "ledger_ok C K F l" "inj_on (c_hd C) F" "dom (hamt_map (c_hd C) (lg_oldutxos l)) \<subseteq> F" "utxo_ok (c_hd C) (lg_oldutxos l)"
    using assms(2) by (auto simp: block0_ok_def chain_ok_def ledger_ok_def)
  have done_by: "block0_ok C K F l' \<and> same_chain l l'"
    if "same_chain l l'" "ledger_ok C K F l'" "dom (hamt_map (c_hd C) (lg_oldutxos l')) \<subseteq> F"
    using that assms(2) by (auto simp: block0_ok_def chain_ok_def same_chain_def)
  have keep: ?thesis if k: "keeps C K F l l'" "lg_oldutxos l' = lg_oldutxos l"
    using done_by k ok by (simp add: keeps_def)
  show ?thesis
  proof (cases f)
    case (FOldUtxoDeclaration old)
    then obtain us where us: "utxo_add (c_hd C) (lg_oldutxos l) fid (old_outputs old) = Ok us" "l' = l\<lparr>lg_oldutxos := us\<rparr>"
      using assms(1) fid by (auto simp: block0_fragment_def apply_old_declaration_def obind_Ok_iff outcome_simps)
    note u = utxo_add_known [OF us(1) ok(4,2,3) F]
    then have "ledger_ok C K F l'" using ok(1) us(2) by (simp add: ledger_ok_def)
    then show ?thesis using done_by us(2) u by simp
  next
    case (FTransaction tx)
    then have r: "apply_tx_outputs C fid tx l = Ok l'" using assms(1) fid by (auto simp: block0_fragment_def obind_Ok_iff)
    have "ledger_ok C K F l'" using tx_outputs_ok [OF r ok(1) F] FTransaction t assms(3) by simp
    then show ?thesis using done_by tx_outputs_chain [OF r] ok(3) by simp
  next
    case (FStakeDelegation tx)
    then obtain cert where c: "apply_stake_delegation C cert l = Ok l'" using assms(1) fid by (auto simp: block0_fragment_def obind_Ok_iff)
    then have "lg_oldutxos l' = lg_oldutxos l" by (auto simp: apply_stake_delegation_def obind_Ok_iff)
    then show ?thesis using keep certificate_keeps(1) [OF c] by blast
  next
    case (FPoolRegistration tx)
    then obtain cert where c: "apply_pool_registration C cert l = Ok l'" using assms(1) fid by (auto simp: block0_fragment_def obind_Ok_iff)
    then have "lg_oldutxos l' = lg_oldutxos l" by (auto simp: apply_pool_registration_def obind_Ok_iff)
    then show ?thesis using keep certificate_keeps(3) [OF c] by blast
  qed (use assms(1,3) fid in \<open>simp_all add: block0_fragment_def\<close>)
qed

lemma block0_ledger_ok:
  assumes "block0_ledger h params = Ok l" and "inj_on (c_ha C) K" and "inj_on (c_hd C) F"
  shows "block0_ok C K F l \<and> lg_date l = block_date_first \<and> lg_chain_length l = 0 \<and> block0_initial_hash (lg_static l) = h"
proof -
  obtain s sp era p where "l = ledger_empty s sp era p" "block0_initial_hash sp = h"
    using assms(1) by (auto simp: block0_ledger_def Let_def obind_Ok_iff split: if_splits)
  then show ?thesis using assms(2,3)
    by (simp add: block0_ok_def chain_ok_def ledger_ok_def ledger_empty_def utxo_new_def utxo_map_def utxo_ok_def leaders_new_def leaders_ok_def)
qed

lemma block0_fragments_ok:
  "ofold (block0_fragment C point) fs l = Ok l' \<Longrightarrow> block0_ok C K F l \<Longrightarrow> \<forall>f \<in> set fs. block0_fragment_ok C point K F f
   \<Longrightarrow> block0_ok C K F l' \<and> same_chain l l'"
proof (induction fs arbitrary: l)
  case (Cons f fs)
  then obtain l1 where "block0_fragment C point f l = Ok l1" "ofold (block0_fragment C point) fs l1 = Ok l'" by (auto simp: obind_Ok_iff)
  then show ?case using Cons block0_fragment_ok [of C point f l l1 K F] same_chain_trans by (metis list.set_intros)
qed simp

lemma ledger_new_ok:
  assumes "ledger_new C point h contents = Ok l" and "inj_on (c_ha C) K" and "inj_on (c_hd C) F"
    and "\<forall>f \<in> set contents. block0_fragment_ok C point K F f"
  shows "chain_ok C K F l \<and> ledger_coins C l < 2 ^ 64 \<and> lg_date l = block_date_first \<and> lg_chain_length l = 0
    \<and> block0_initial_hash (lg_static l) = h"
proof -
  obtain params fs where c: "contents = FInitial params # fs"
    using assms(1) by (cases "(C, point, h, contents)" rule: ledger_new.cases) auto
  obtain l0 v where l0: "block0_ledger h params = Ok l0" and l: "ofold (block0_fragment C point) fs l0 = Ok l" and v: "ledger_total_value l = Ok v"
    using assms(1) unfolding c by (auto simp: obind_Ok_iff validate_utxo_total_value_def)
  note b0 = block0_ledger_ok [OF l0 assms(2,3)]
  have b: "block0_ok C K F l" "same_chain l0 l" using block0_fragments_ok [OF l] b0 assms(4) c by auto
  then have "coins v = ledger_coins C l" using ledger_total_exact v by (auto simp: block0_ok_def chain_ok_def)
  then have "ledger_coins C l < 2 ^ 64" using coins_less [of v] by simp
  then show ?thesis using b b0 by (simp add: block0_ok_def same_chain_def)
qed

section \<open>The chain as a state machine\<close>

text \<open>
  The steps a node takes on its ledger: applying a block, distributing the rewards of an epoch, and carrying
  out the governance actions. The parameters of a step are what the caller passes; the conditions say that
  they were read by the readers of this library.
\<close>

inductive chain_step :: "crypto \<Rightarrow> (u8 list \<Rightarrow> u8 list option) \<Rightarrow> acc_identifier set \<Rightarrow> digest set \<Rightarrow> ledger \<Rightarrow> ledger \<Rightarrow> bool"
  for C point K F where
  chain_block: "\<lbrakk>\<forall>f \<in> set contents. fragment_ok C point K F f; creator_ok F (hc_consensus m);
     apply_block C point lp contents m l = Ok l'\<rbrakk> \<Longrightarrow> chain_step C point K F l l'"
| chain_rewards: "\<lbrakk>\<forall>psi \<in> snd ` set (sd_to_pools sd). pool_payable K psi; ratio_ok (tax_ratio (lp_treasury_tax lp));
     distribute_rewards C sd lp rip l = Ok (l', ri)\<rbrakk> \<Longrightarrow> chain_step C point K F l l'"
| chain_protocol: "apply_protocol_changes l = Ok l' \<Longrightarrow> chain_step C point K F l l'"

inductive chain_run :: "crypto \<Rightarrow> (u8 list \<Rightarrow> u8 list option) \<Rightarrow> acc_identifier set \<Rightarrow> digest set \<Rightarrow> ledger \<Rightarrow> ledger \<Rightarrow> bool"
  for C point K F where
  run_start: "chain_run C point K F l l"
| run_step: "chain_run C point K F l l' \<Longrightarrow> chain_step C point K F l' l'' \<Longrightarrow> chain_run C point K F l l''"

inductive_cases chain_stepE: "chain_step C point K F l l'"

text \<open>What a step, and so a run, may change: the date and the length of the chain only grow.\<close>

definition chain_grows :: "crypto \<Rightarrow> ledger \<Rightarrow> ledger \<Rightarrow> bool" where
  "chain_grows C l l' \<longleftrightarrow> ledger_coins C l' = ledger_coins C l \<and> lg_static l' = lg_static l
     \<and> lg_date l \<le> lg_date l' \<and> unat (lg_chain_length l) \<le> unat (lg_chain_length l')"

lemma chain_step_grows:
  assumes "chain_step C point K F l l'" and "chain_ok C K F l"
  shows "chain_ok C K F l' \<and> chain_grows C l l'"
  using assms(1)
proof cases
  case (chain_block contents m lp)
  then show ?thesis using apply_block_spec [OF chain_block(3) assms(2) chain_block(1,2)] by (auto simp: chain_grows_def)
next
  case (chain_rewards sd lp rip ri)
  have "ledger_ok C K F l" "leaders_ok (c_hd C) (lg_leaders_log l)" using assms(2) by (auto simp: chain_ok_def)
  from distribute_rewards_spec [OF chain_rewards(3) this chain_rewards(1,2)] show ?thesis
    using assms(2) leaders_new_ok by (auto simp: chain_ok_def chain_grows_def leaders_new_def)
next
  case chain_protocol
  then show ?thesis using assms(2) by (auto simp: chain_ok_def chain_grows_def apply_protocol_changes_def outcome_simps)
qed

lemma chain_run_grows:
  "chain_run C point K F l l' \<Longrightarrow> chain_ok C K F l \<Longrightarrow> chain_ok C K F l' \<and> chain_grows C l l'"
proof (induction rule: chain_run.induct)
  case (run_step l l' l'')
  then show ?case using chain_step_grows [of C point K F l' l''] by (auto simp: chain_grows_def)
qed (simp add: chain_grows_def)

text \<open>A sample chain: one leader, a hundred coins in the reward pot, and an empty block of that leader.\<close>

definition sample_params :: "config_param list" where
  "sample_params = [Block0Date 0, CfgDiscrimination Test, CfgSlotDuration 10, SlotsPerEpoch 10, KesUpdateSpeed 1,
     RewardPot (Value 100), AddBftLeader sample_leader]"

definition sample_block0 :: "fragment list" where
  "sample_block0 = [FInitial sample_params]"

definition sample_genesis :: ledger where
  "sample_genesis = sample_empty\<lparr>lg_pots := pots_zero\<lparr>pot_rewards := Value 100\<rparr>\<rparr>"

definition sample_header :: header_content_eval_context where
  "sample_header = \<lparr>hc_block_date = BlockDate 0 1, hc_chain_length = 1, hc_content_hash = replicate 32 0, hc_consensus = EvalBft\<rparr>"

lemma sample_ledger_new: "ledger_new sample_crypto (\<lambda>_. None) (replicate 32 0) sample_block0 = Ok sample_genesis"
proof -
  let ?s = "sample_settings\<lparr>s_bft_leaders := [], s_committees := []\<rparr>"
  have new: "settings_new = (Ok ?s :: (ledger_error, _) outcome)" and app: "try_apply ?s [AddBftLeader sample_leader] = Ok sample_settings"
    by code_simp+
  have "s_bft_leaders sample_settings \<noteq> []" by (simp add: sample_settings_def)
  then have "block0_ledger (replicate 32 0) sample_params = Ok sample_genesis"
    by (simp add: block0_ledger_def sample_params_def block0_params_start_def Let_def slot_duration_from_secs_def require_def ok_or_def new app
        time_frame_new_def slot0_def time_era_new_def sample_genesis_def sample_empty_def sample_static_def ledger_empty_def)
  moreover have "validate_utxo_total_value sample_genesis = Ok ()" by code_simp
  ultimately show ?thesis by (simp add: sample_block0_def)
qed

lemma sample_block_applies:
  "case apply_block sample_crypto (\<lambda>_. None) (get_ledger_parameters sample_genesis) [] sample_header sample_genesis of
     Ok l \<Rightarrow> lg_date l = BlockDate 0 1 | _ \<Rightarrow> False"
  by code_simp

lemma sample_block0_ok: "\<forall>f \<in> set sample_block0. block0_fragment_ok sample_crypto (\<lambda>_. None) {} {replicate 32 0} f"
  by (auto simp: sample_block0_def fragment_ok_def fragment_hash_def raw_id_def sample_crypto_def omap_iffs)

lemma sample_chain_steps:
  obtains l where "apply_block sample_crypto (\<lambda>_. None) (get_ledger_parameters sample_genesis) [] sample_header sample_genesis = Ok l"
    "lg_date l = BlockDate 0 1" "chain_run sample_crypto (\<lambda>_. None) {} {replicate 32 0} sample_genesis l"
proof -
  obtain l where r: "apply_block sample_crypto (\<lambda>_. None) (get_ledger_parameters sample_genesis) [] sample_header sample_genesis = Ok l"
    "lg_date l = BlockDate 0 1" using sample_block_applies by (auto split: outcome.splits)
  have "chain_step sample_crypto (\<lambda>_. None) {} {replicate 32 0} sample_genesis l"
    by (rule chain_block [OF _ _ r(1)]) (simp_all add: sample_header_def)
  from run_step [OF run_start this] show thesis using that r by blast
qed



text \<open>
  C4. A block is applied at most once. After a block with the header content \<open>m\<close> was applied, no ledger of any
  later run accepts a block with that header content, whatever its fragments are and whatever parameters
  are passed.
\<close>

theorem block_applied_once:
  assumes "chain_ok C K F l" and "\<forall>f \<in> set contents. fragment_ok C point K F f" and "creator_ok F (hc_consensus m)"
    and "apply_block C point lp contents m l = Ok l'" and "chain_run C point K F l' l''"
  shows "apply_block C point lp' contents' m l'' \<noteq> Ok l3"
proof
  assume again: "apply_block C point lp' contents' m l'' = Ok l3"
  have "chain_ok C K F l'" "lg_chain_length l' = hc_chain_length m" using apply_block_spec [OF assms(4,1,2,3)] by auto
  then have "unat (hc_chain_length m) \<le> unat (lg_chain_length l'')" using chain_run_grows [OF assms(5)] by (auto simp: chain_grows_def)
  moreover obtain b where "begin_block C (hc_chain_length m) (hc_block_date m) l'' = Ok b"
    using again by (auto simp: apply_block_def obind_Ok_iff split: if_splits)
  then have "unat (hc_chain_length m) = unat (lg_chain_length l'') + 1" using begin_block_spec by blast
  ultimately show False by simp
qed

theorem block_applied_once_witness:
  "\<exists>l. lg_date l = BlockDate 0 1 \<and> (\<forall>l'. apply_block sample_crypto (\<lambda>_. None) (get_ledger_parameters l) [] sample_header l \<noteq> Ok l')"
proof -
  obtain l where r: "apply_block sample_crypto (\<lambda>_. None) (get_ledger_parameters sample_genesis) [] sample_header sample_genesis = Ok l"
    "lg_date l = BlockDate 0 1" by (rule sample_chain_steps)
  have "chain_ok sample_crypto {} {replicate 32 0} sample_genesis" using ledger_new_ok [OF sample_ledger_new _ _ sample_block0_ok] by simp
  from block_applied_once [OF this _ _ r(1) run_start] show ?thesis using r(2) by (intro exI [of _ l]) (auto simp: sample_header_def)
qed



end
