(* ===== verification/Voting.thy ===== *)
theory Voting
  imports Vote_Plan Blocks
begin

text \<open>
  Voting on chain (\<open>vote/tally.rs\<close>, \<open>vote/manager.rs\<close>, \<open>vote/ledger.rs\<close>, \<open>ledger/token_distribution.rs\<close> and the
  vote operations of \<open>ledger/ledger.rs\<close>): votes are recorded per account and proposal, tallied with the tokens
  of the accounts, judged by the rules of governance, and what was decided is done to the pots. The random
  factor that a verifier of a ballot draws is an argument.
\<close>

section \<open>Tallies\<close>

record tally_result =
  tr_results :: "u64 list"
  tr_options :: vote_options

datatype 'g private_tally_state = TallyEncrypted "'g encrypted_tally" val | TallyDecrypted tally_result
datatype 'g tally = TallyPublic tally_result | TallyPrivate "'g private_tally_state"

datatype tally_error =
    InvalidChoice vote_options u8 | InvalidPrivacy | TallyAlreadyDecrypted | NoEncryptedTally | BadDecryptShares | InvalidDecryption

definition weight_saturating_add :: "u64 \<Rightarrow> u64 \<Rightarrow> u64" where
  "weight_saturating_add a b = (case checked_add a b of Some c \<Rightarrow> c | None \<Rightarrow> - 1)"

fun tally_result_of :: "'g tally \<Rightarrow> tally_result option" where
  "tally_result_of (TallyPublic r) = Some r"
| "tally_result_of (TallyPrivate (TallyDecrypted r)) = Some r"
| "tally_result_of (TallyPrivate (TallyEncrypted _ _)) = None"

fun private_encrypted :: "'g tally \<Rightarrow> (tally_error, 'g encrypted_tally \<times> val) outcome" where
  "private_encrypted (TallyPrivate (TallyEncrypted t s)) = Ok (t, s)"
| "private_encrypted (TallyPrivate (TallyDecrypted _)) = Err TallyAlreadyDecrypted"
| "private_encrypted (TallyPublic _) = Err InvalidPrivacy"

fun private_total_power :: "'g tally \<Rightarrow> (tally_error, u64) outcome" where
  "private_total_power (TallyPrivate (TallyEncrypted _ s)) = Ok (amount s)"
| "private_total_power (TallyPrivate (TallyDecrypted _)) = Err TallyAlreadyDecrypted"
| "private_total_power (TallyPublic _) = Err InvalidPrivacy"

fun private_set_result :: "'g tally \<Rightarrow> tally_result \<Rightarrow> (tally_error, 'g tally) outcome" where
  "private_set_result (TallyPrivate (TallyDecrypted _)) r = Err TallyAlreadyDecrypted"
| "private_set_result (TallyPrivate (TallyEncrypted _ _)) r = Ok (TallyPrivate (TallyDecrypted r))"
| "private_set_result (TallyPublic _) r = Err InvalidPrivacy"

definition tally_result_new :: "vote_options \<Rightarrow> tally_result" where
  "tally_result_new opts = \<lparr>tr_results = replicate (choice_count opts) 0, tr_options = opts\<rparr>"

definition participation :: "tally_result \<Rightarrow> ('e, u64) outcome" where
  "participation r = fold (\<lambda>w acc. obind acc (\<lambda>a. padd a w)) (tr_results r) (Ok 0)"

definition results_add_vote :: "tally_result \<Rightarrow> u8 \<Rightarrow> u64 \<Rightarrow> (tally_error, tally_result) outcome" where
  "results_add_vote r choice weight =
     (if \<not> options_validate (tr_options r) choice then Err (InvalidChoice (tr_options r) choice)
      else if weight = 0 then Ok r
      else
        let index = unat choice in
        obind (require (index < length (tr_results r))) (\<lambda>_.
        Ok (r\<lparr>tr_results := (tr_results r)[index := weight_saturating_add (tr_results r ! index) weight]\<rparr>)))"

section \<open>Who has how many tokens\<close>

record token_distribution =
  td_totals :: "(digest, val) hamt"
  td_accounts :: accounts
  td_token :: token_identifier

definition td_get_total :: "crypto \<Rightarrow> token_distribution \<Rightarrow> ('e, val) outcome" where
  "td_get_total C td = omap (\<lambda>v. case v of None \<Rightarrow> value_zero | Some v \<Rightarrow> v) (hamt_lookup (c_hd C) (td_totals td) (token_bytes (td_token td)))"

definition td_get_account :: "crypto \<Rightarrow> token_distribution \<Rightarrow> acc_identifier \<Rightarrow> ('e, val option) outcome" where
  "td_get_account C td a =
     (case get_state (c_ha C) (td_accounts td) a of
        Ok st \<Rightarrow> hamt_lookup (c_hd C) (acc_tokens st) (token_bytes (td_token td))
      | Err _ \<Rightarrow> Ok None
      | Panic \<Rightarrow> Panic)"

section \<open>One proposal\<close>

datatype 'g validated_payload = ValidatedPublic u8 | ValidatedPrivate "'g ballot"

record 'g proposal_manager =
  pm_votes :: "(acc_identifier, 'g validated_payload) hamt"
  pm_options :: vote_options
  pm_tally :: "'g tally option"
  pm_action :: vote_action

datatype ('s, 'g) vote_error =
    InvalidVotePlan digest "('s, 'g) vote_cast"
  | NotVoteTime block_date block_date "('s, 'g) vote_cast"
  | AlreadyVoted
  | InvalidVoteProposal nat "('s, 'g) vote_cast"
  | InvalidPayloadType payload_type payload_type
  | NotCommitteeTime block_date block_date
  | InvalidTallyCommittee
  | CannotTallyVotes tally_error
  | VoteVerificationError
  | PrivateVoteInvalidSize nat nat

definition proposal_manager_new :: "proposal \<Rightarrow> 'g proposal_manager" where
  "proposal_manager_new p = \<lparr>pm_votes = hamt_new, pm_options = pp_options p, pm_tally = None, pm_action = pp_action p\<rparr>"

definition pm_vote :: "crypto \<Rightarrow> 'g proposal_manager \<Rightarrow> acc_identifier \<Rightarrow> 'g validated_payload \<Rightarrow> (('s, 'g) vote_error, 'g proposal_manager) outcome" where
  "pm_vote C m a payload =
     obind (map_err (\<lambda>_. AlreadyVoted) (hamt_insert (c_ha C) (pm_votes m) a payload)) (\<lambda>votes. Ok (m\<lparr>pm_votes := votes\<rparr>))"

definition check_already_voted :: "crypto \<Rightarrow> 'g proposal_manager \<Rightarrow> acc_identifier \<Rightarrow> (('s, 'g) vote_error, unit) outcome" where
  "check_already_voted C m a = obind (hamt_contains_key (c_ha C) (pm_votes m) a) (\<lambda>b. if b then Err AlreadyVoted else Ok ())"

text \<open>The choice of a public vote is not looked at.\<close>

definition validate_public_vote ::
  "crypto \<Rightarrow> 'g proposal_manager \<Rightarrow> acc_identifier \<Rightarrow> ('s, 'g) vote_cast \<Rightarrow> (('s, 'g) vote_error, 'g validated_payload) outcome" where
  "validate_public_vote C m a cast =
     obind (check_already_voted C m a) (\<lambda>_.
     case vc_payload cast of
       PublicPayload choice \<Rightarrow> Ok (ValidatedPublic choice)
     | PrivatePayload _ _ \<Rightarrow> Err (InvalidPayloadType PrivateVote PublicVote))"

definition validate_private_vote ::
  "('s::comm_ring_1, 'g::ab_group_add) curve \<Rightarrow> 's \<Rightarrow> crypto \<Rightarrow> 'g proposal_manager \<Rightarrow> acc_identifier \<Rightarrow> ('s, 'g) vote_cast \<Rightarrow> 'g \<Rightarrow> 'g
   \<Rightarrow> (('s, 'g) vote_error, 'g validated_payload) outcome" where
  "validate_private_vote V batch C m a cast crs election_pk =
     obind (check_already_voted C m a) (\<lambda>_.
     case vc_payload cast of
       PublicPayload _ \<Rightarrow> Err (InvalidPayloadType PublicVote PrivateVote)
     | PrivatePayload ev p \<Rightarrow>
         if length ev \<noteq> choice_count (pm_options m) then Err (PrivateVoteInvalidSize (length ev) (choice_count (pm_options m)))
         else omap ValidatedPrivate (map_err (\<lambda>_. VoteVerificationError) (try_from_vote_and_proof V ev p crs election_pk batch)))"

fun public_tally_loop ::
  "crypto \<Rightarrow> token_distribution \<Rightarrow> (acc_identifier \<times> 'g validated_payload) list \<Rightarrow> tally_result \<Rightarrow> (('s, 'g) vote_error, tally_result) outcome" where
  "public_tally_loop C td [] r = Ok r"
| "public_tally_loop C td ((a, payload) # vs) r =
     obind (td_get_account C td a) (\<lambda>stake.
     case stake of
       None \<Rightarrow> public_tally_loop C td vs r
     | Some stake \<Rightarrow>
         (case payload of
            ValidatedPublic choice \<Rightarrow>
              obind (map_err CannotTallyVotes (results_add_vote r choice (amount stake))) (public_tally_loop C td vs)
          | ValidatedPrivate _ \<Rightarrow> Err (InvalidPayloadType PrivateVote PublicVote)))"

text \<open>A ratio that does not exceed the required one fails the criterion.\<close>

definition passes :: "ratio option \<Rightarrow> ratio \<Rightarrow> ('e, bool) outcome" where
  "passes criteria r = (case criteria of None \<Rightarrow> Ok True | Some c \<Rightarrow> omap (\<lambda>x. x = OGreater) (ratio_cmp r c))"

definition check_governance_criteria :: "u64 \<Rightarrow> acceptance_criteria \<Rightarrow> tally_result \<Rightarrow> ('e, bool) outcome" where
  "check_governance_criteria total_stake acceptance results =
     (if total_stake = 0 then Ok False
      else obind (participation results) (\<lambda>part.
        if part = 0 then Ok False
        else case nth_opt (tr_results results) (unat (ac_favorable acceptance)) of
            None \<Rightarrow> Ok False
          | Some favorable \<Rightarrow>
              (case nth_opt (tr_results results) (unat (ac_rejection acceptance)) of
                 None \<Rightarrow> Ok False
               | Some v \<Rightarrow>
                   obind (padd v favorable) (\<lambda>non_blanks.
                   if non_blanks = 0 then Ok False
                   else
                     obind (passes (minimum_stake_participation acceptance) \<lparr>numerator = part, denominator = total_stake\<rparr>) (\<lambda>ok.
                     if \<not> ok then Ok False
                     else passes (minimum_approval acceptance) \<lparr>numerator = favorable, denominator = non_blanks\<rparr>)))))"

definition pm_check :: "gov_hashers \<Rightarrow> 'g proposal_manager \<Rightarrow> u64 \<Rightarrow> governance \<Rightarrow> tally_result \<Rightarrow> ('e, bool) outcome" where
  "pm_check H m total_stake g results =
     (case pm_action m of
        OffChain \<Rightarrow> Ok False
      | TreasuryAction a \<Rightarrow>
          obind (acceptance_criteria_for (gh_treasury H) (gv_treasury g) (treasury_action_to_type a)) (\<lambda>acceptance.
          check_governance_criteria total_stake acceptance results)
      | ParametersAction a \<Rightarrow>
          obind (acceptance_criteria_for (gh_parameters H) (gv_parameters g) (parameters_action_to_type a)) (\<lambda>acceptance.
          check_governance_criteria total_stake acceptance results))"

text \<open>With the tallied proposal come the actions that the callback is called with.\<close>

definition pm_public_tally ::
  "crypto \<Rightarrow> gov_hashers \<Rightarrow> token_distribution \<Rightarrow> governance \<Rightarrow> 'g proposal_manager
   \<Rightarrow> (('s, 'g) vote_error, 'g proposal_manager \<times> vote_action list) outcome" where
  "pm_public_tally C H td g m =
     obind (public_tally_loop C td (hamt_iter (pm_votes m)) (tally_result_new (pm_options m))) (\<lambda>results.
     obind (td_get_total C td) (\<lambda>total.
     obind (pm_check H m (amount total) g results) (\<lambda>ok.
     Ok (m\<lparr>pm_tally := Some (TallyPublic results)\<rparr>, if ok then [pm_action m] else []))))"

text \<open>The ballots with the stake of their accounts; \<open>options.max() + 1\<close> panics without options.\<close>

fun ballots_with_stake ::
  "crypto \<Rightarrow> token_distribution \<Rightarrow> (acc_identifier \<times> 'g validated_payload) list \<Rightarrow> (('s, 'g) vote_error, ('g ballot \<times> u64) list) outcome" where
  "ballots_with_stake C td [] = Ok []"
| "ballots_with_stake C td ((a, payload) # vs) =
     obind (td_get_account C td a) (\<lambda>stake.
     case stake of
       None \<Rightarrow> ballots_with_stake C td vs
     | Some stake \<Rightarrow>
         (case payload of
            ValidatedPublic _ \<Rightarrow> Err (InvalidPayloadType PublicVote PrivateVote)
          | ValidatedPrivate b \<Rightarrow> omap (\<lambda>bs. (b, amount stake) # bs) (ballots_with_stake C td vs)))"

definition pm_private_tally ::
  "('s, 'g::ab_group_add) curve \<Rightarrow> crypto \<Rightarrow> token_distribution \<Rightarrow> 'g \<Rightarrow> 'g \<Rightarrow> 'g proposal_manager
   \<Rightarrow> (('s, 'g) vote_error, 'g proposal_manager) outcome" where
  "pm_private_tally V C td election_pk crs m =
     obind (require (options_end (pm_options m) > 0)) (\<lambda>_.
     obind (ballots_with_stake C td (hamt_iter (pm_votes m))) (\<lambda>bs.
     obind (add_ballots bs (encrypted_tally_new V (choice_count (pm_options m)) election_pk crs)) (\<lambda>t.
     obind (td_get_total C td) (\<lambda>total.
     Ok (m\<lparr>pm_tally := Some (TallyPrivate (TallyEncrypted t total))\<rparr>)))))"

fun add_votes :: "tally_result \<Rightarrow> nat \<Rightarrow> u64 list \<Rightarrow> (tally_error, tally_result) outcome" where
  "add_votes r i [] = Ok r"
| "add_votes r i (w # ws) = obind (require (i \<le> 255)) (\<lambda>_. obind (results_add_vote r (of_nat i) w) (\<lambda>r. add_votes r (Suc i) ws))"

definition pm_finalize_private_tally ::
  "('s, 'g::ab_group_add) curve \<Rightarrow> gov_hashers \<Rightarrow> 'g list \<Rightarrow> ('s, 'g) decrypted_proposal \<Rightarrow> governance \<Rightarrow> 'g proposal_manager
   \<Rightarrow> (tally_error, 'g proposal_manager \<times> vote_action list) outcome" where
  "pm_finalize_private_tally V H committee_pks dp g m =
     obind (ok_or NoEncryptedTally (pm_tally m)) (\<lambda>tally.
     obind (private_encrypted tally) (\<lambda>(encrypted_tally, total_stake).
     obind (tally_verify V (dp_tally_result dp) encrypted_tally committee_pks (dp_decrypt_shares dp)) (\<lambda>ok.
     if \<not> ok then Err InvalidDecryption
     else
       obind (add_votes (tally_result_new (pm_options m)) 0 (dp_tally_result dp)) (\<lambda>result.
       obind (pm_check H m (amount total_stake) g result) (\<lambda>accepted.
       obind (private_set_result tally result) (\<lambda>tally.
       Ok (m\<lparr>pm_tally := Some tally\<rparr>, if accepted then [pm_action m] else [])))))))"

section \<open>The proposals of a plan\<close>

datatype 'g proposal_managers =
    ManagersPublic "'g proposal_manager list"
  | ManagersPrivate "'g proposal_manager list" 'g 'g

fun managers :: "'g proposal_managers \<Rightarrow> 'g proposal_manager list" where
  "managers (ManagersPublic ms) = ms"
| "managers (ManagersPrivate ms _ _) = ms"

fun set_managers :: "'g proposal_managers \<Rightarrow> 'g proposal_manager list \<Rightarrow> 'g proposal_managers" where
  "set_managers (ManagersPublic _) ms = ManagersPublic ms"
| "set_managers (ManagersPrivate _ crs pk) ms = ManagersPrivate ms crs pk"

definition proposal_managers_new :: "(u8 list \<Rightarrow> digest) \<Rightarrow> ('s, 'g::ab_group_add) curve \<Rightarrow> 'g vote_plan \<Rightarrow> ('e, 'g proposal_managers) outcome" where
  "proposal_managers_new blake V plan =
     (let ms = map proposal_manager_new (vp_proposals plan) in
      case vp_payload_type plan of
        PublicVote \<Rightarrow> Ok (ManagersPublic ms)
      | PrivateVote \<Rightarrow>
          obind (vote_plan_to_id blake V plan) (\<lambda>id.
          obind (from_participants (vp_committee_keys plan)) (\<lambda>pk. Ok (ManagersPrivate ms (from_hash V id) pk))))"

definition pms_vote ::
  "crypto \<Rightarrow> 'g proposal_managers \<Rightarrow> acc_identifier \<Rightarrow> 'g validated_payload \<Rightarrow> nat \<Rightarrow> (('s, 'g) vote_error, 'g proposal_managers) outcome" where
  "pms_vote C pms a payload index =
     (case nth_opt (managers pms) index of
        Some m \<Rightarrow> obind (pm_vote C m a payload) (\<lambda>m'. Ok (set_managers pms ((managers pms)[index := m'])))
      | None \<Rightarrow> Panic)"

fun public_tally_all ::
  "crypto \<Rightarrow> gov_hashers \<Rightarrow> token_distribution \<Rightarrow> governance \<Rightarrow> 'g proposal_manager list
   \<Rightarrow> (('s, 'g) vote_error, 'g proposal_manager list \<times> vote_action list) outcome" where
  "public_tally_all C H td g [] = Ok ([], [])"
| "public_tally_all C H td g (m # ms) =
     obind (pm_public_tally C H td g m) (\<lambda>(m', as). omap (\<lambda>(ms', bs). (m' # ms', as @ bs)) (public_tally_all C H td g ms))"

fun pms_public_tally ::
  "crypto \<Rightarrow> gov_hashers \<Rightarrow> token_distribution \<Rightarrow> governance \<Rightarrow> 'g proposal_managers
   \<Rightarrow> (('s, 'g) vote_error, 'g proposal_managers \<times> vote_action list) outcome" where
  "pms_public_tally C H td g (ManagersPublic ms) = omap (map_prod ManagersPublic id) (public_tally_all C H td g ms)"
| "pms_public_tally C H td g (ManagersPrivate _ _ _) = Err (InvalidPayloadType PrivateVote PublicVote)"

definition pms_validate_vote ::
  "('s::comm_ring_1, 'g::ab_group_add) curve \<Rightarrow> 's \<Rightarrow> crypto \<Rightarrow> 'g proposal_managers \<Rightarrow> acc_identifier \<Rightarrow> ('s, 'g) vote_cast
   \<Rightarrow> (('s, 'g) vote_error, 'g validated_payload \<times> nat) outcome" where
  "pms_validate_vote V batch C pms a cast =
     (let index = unat (vc_proposal_index cast) in
      obind (ok_or (InvalidVoteProposal (length (managers pms)) cast) (nth_opt (managers pms) index)) (\<lambda>m.
      obind (case pms of
               ManagersPublic _ \<Rightarrow> validate_public_vote C m a cast
             | ManagersPrivate _ crs pk \<Rightarrow> validate_private_vote V batch C m a cast crs pk) (\<lambda>payload.
      Ok (payload, index))))"

fun private_tally_all ::
  "('s, 'g::ab_group_add) curve \<Rightarrow> crypto \<Rightarrow> token_distribution \<Rightarrow> 'g \<Rightarrow> 'g \<Rightarrow> 'g proposal_manager list
   \<Rightarrow> (('s, 'g) vote_error, 'g proposal_manager list) outcome" where
  "private_tally_all V C td pk crs [] = Ok []"
| "private_tally_all V C td pk crs (m # ms) =
     obind (pm_private_tally V C td pk crs m) (\<lambda>m'. omap (\<lambda>ms'. m' # ms') (private_tally_all V C td pk crs ms))"

fun pms_start_private_tally ::
  "('s, 'g::ab_group_add) curve \<Rightarrow> crypto \<Rightarrow> token_distribution \<Rightarrow> 'g proposal_managers \<Rightarrow> (('s, 'g) vote_error, 'g proposal_managers) outcome" where
  "pms_start_private_tally V C td (ManagersPrivate ms crs pk) =
     omap (\<lambda>ms'. ManagersPrivate ms' crs pk) (private_tally_all V C td pk crs ms)"
| "pms_start_private_tally V C td (ManagersPublic _) = Err (InvalidPayloadType PublicVote PrivateVote)"

text \<open>The proposals are zipped with the decrypted ones: those without a decrypted result are dropped.\<close>

fun finalize_all ::
  "('s, 'g::ab_group_add) curve \<Rightarrow> gov_hashers \<Rightarrow> 'g list \<Rightarrow> governance \<Rightarrow> ('g proposal_manager \<times> ('s, 'g) decrypted_proposal) list
   \<Rightarrow> (('s, 'g) vote_error, 'g proposal_manager list \<times> vote_action list) outcome" where
  "finalize_all V H pks g [] = Ok ([], [])"
| "finalize_all V H pks g ((m, dp) # more_ms) =
     obind (map_err CannotTallyVotes (pm_finalize_private_tally V H pks dp g m)) (\<lambda>(m', as).
     omap (\<lambda>(ms', bs). (m' # ms', as @ bs)) (finalize_all V H pks g more_ms))"

fun pms_finalize_private_tally ::
  "('s, 'g::ab_group_add) curve \<Rightarrow> gov_hashers \<Rightarrow> 'g list \<Rightarrow> ('s, 'g) decrypted_proposal list \<Rightarrow> governance \<Rightarrow> 'g proposal_managers
   \<Rightarrow> (('s, 'g) vote_error, 'g proposal_managers \<times> vote_action list) outcome" where
  "pms_finalize_private_tally V H pks dt g (ManagersPrivate ms crs pk) =
     omap (map_prod (\<lambda>ms'. ManagersPrivate ms' crs pk) id) (finalize_all V H pks g (zip ms dt))"
| "pms_finalize_private_tally V H pks dt g (ManagersPublic _) = Err (InvalidPayloadType PublicVote PrivateVote)"

section \<open>A plan\<close>

record 'g vote_plan_manager =
  vm_id :: digest
  vm_plan :: "'g vote_plan"
  vm_committee :: "committee_id set"
  vm_managers :: "'g proposal_managers"

definition vm_new :: "(u8 list \<Rightarrow> digest) \<Rightarrow> ('s, 'g::ab_group_add) curve \<Rightarrow> 'g vote_plan \<Rightarrow> committee_id set \<Rightarrow> ('e, 'g vote_plan_manager) outcome" where
  "vm_new blake V plan committee =
     obind (vote_plan_to_id blake V plan) (\<lambda>id.
     obind (proposal_managers_new blake V plan) (\<lambda>ms.
     Ok \<lparr>vm_id = id, vm_plan = plan, vm_committee = committee, vm_managers = ms\<rparr>))"

definition vote_plan_elapsed :: "'g vote_plan_manager \<Rightarrow> block_date \<Rightarrow> bool" where
  "vote_plan_elapsed vm date \<longleftrightarrow> vp_committee_end (vm_plan vm) < date"

record 'g vote_proposal_status =
  ps_index :: u8
  ps_proposal_id :: digest
  ps_options :: vote_options
  ps_tally :: "'g tally option"
  ps_votes :: "(acc_identifier, 'g validated_payload) hamt"

record 'g vote_plan_status =
  st_id :: digest
  st_payload :: payload_type
  st_vote_start :: block_date
  st_vote_end :: block_date
  st_committee_end :: block_date
  st_committee_keys :: "'g list"
  st_proposals :: "'g vote_proposal_status list"
  st_voting_token :: token_identifier

definition vm_statuses :: "'g vote_plan_manager \<Rightarrow> 'g vote_plan_status" where
  "vm_statuses vm =
     (let plan = vm_plan vm in
      \<lparr>st_id = vm_id vm, st_payload = vp_payload_type plan, st_vote_start = vp_vote_start plan, st_vote_end = vp_vote_end plan,
       st_committee_end = vp_committee_end plan, st_committee_keys = vp_committee_keys plan,
       st_proposals = map (\<lambda>(i, p, m). \<lparr>ps_index = of_nat i, ps_proposal_id = pp_external_id p, ps_options = pp_options p,
         ps_tally = pm_tally m, ps_votes = pm_votes m\<rparr>) (enumerate 0 (zip (vp_proposals plan) (managers (vm_managers vm)))),
       st_voting_token = vp_voting_token plan\<rparr>)"

definition vm_vote ::
  "('s::comm_ring_1, 'g::ab_group_add) curve \<Rightarrow> 's \<Rightarrow> crypto \<Rightarrow> block_date \<Rightarrow> acc_identifier \<Rightarrow> ('s, 'g) vote_cast \<Rightarrow> 'g vote_plan_manager
   \<Rightarrow> (('s, 'g) vote_error, 'g vote_plan_manager) outcome" where
  "vm_vote V batch C date a cast vm =
     (let plan = vm_plan vm in
      if vc_vote_plan cast \<noteq> vm_id vm then Err (InvalidVotePlan (vm_id vm) cast)
      else if \<not> can_vote plan date then Err (NotVoteTime (vp_vote_start plan) (vp_vote_end plan) cast)
      else if vp_payload_type plan \<noteq> payload_type_of (vc_payload cast)
      then Err (InvalidPayloadType (payload_type_of (vc_payload cast)) (vp_payload_type plan))
      else
        obind (pms_validate_vote V batch C (vm_managers vm) a cast) (\<lambda>(payload, index).
        obind (pms_vote C (vm_managers vm) a payload index) (\<lambda>ms. Ok (vm\<lparr>vm_managers := ms\<rparr>))))"

definition vm_public_tally ::
  "crypto \<Rightarrow> gov_hashers \<Rightarrow> (digest, val) hamt \<Rightarrow> accounts \<Rightarrow> block_date \<Rightarrow> governance \<Rightarrow> committee_id \<Rightarrow> 'g vote_plan_manager
   \<Rightarrow> (('s, 'g) vote_error, 'g vote_plan_manager \<times> vote_action list) outcome" where
  "vm_public_tally C H totals accs date g sig vm =
     (let plan = vm_plan vm in
      if \<not> committee_time plan date then Err (NotCommitteeTime (vp_vote_end plan) (vp_committee_end plan))
      else if sig \<notin> vm_committee vm then Err InvalidTallyCommittee
      else if vp_payload_type plan \<noteq> PublicVote then Err (CannotTallyVotes InvalidPrivacy)
      else
        obind (pms_public_tally C H \<lparr>td_totals = totals, td_accounts = accs, td_token = vp_voting_token plan\<rparr> g (vm_managers vm)) (\<lambda>(ms, as).
        Ok (vm\<lparr>vm_managers := ms\<rparr>, as)))"

definition vm_start_private_tally ::
  "('s, 'g::ab_group_add) curve \<Rightarrow> crypto \<Rightarrow> (digest, val) hamt \<Rightarrow> accounts \<Rightarrow> block_date \<Rightarrow> committee_id \<Rightarrow> 'g vote_plan_manager
   \<Rightarrow> (('s, 'g) vote_error, 'g vote_plan_manager) outcome" where
  "vm_start_private_tally V C totals accs date sig vm =
     (let plan = vm_plan vm in
      if \<not> committee_time plan date then Err (NotCommitteeTime (vp_vote_end plan) (vp_committee_end plan))
      else if sig \<notin> vm_committee vm then Err InvalidTallyCommittee
      else if vp_payload_type plan \<noteq> PrivateVote then Err (CannotTallyVotes InvalidPrivacy)
      else
        obind (pms_start_private_tally V C \<lparr>td_totals = totals, td_accounts = accs, td_token = vp_voting_token plan\<rparr> (vm_managers vm)) (\<lambda>ms.
        Ok (vm\<lparr>vm_managers := ms\<rparr>)))"

text \<open>Neither the date nor the committee is checked here.\<close>

definition vm_finalize_private_tally ::
  "('s, 'g::ab_group_add) curve \<Rightarrow> gov_hashers \<Rightarrow> ('s, 'g) decrypted_proposal list \<Rightarrow> governance \<Rightarrow> 'g vote_plan_manager
   \<Rightarrow> (('s, 'g) vote_error, 'g vote_plan_manager \<times> vote_action list) outcome" where
  "vm_finalize_private_tally V H dt g vm =
     obind (pms_finalize_private_tally V H (vp_committee_keys (vm_plan vm)) dt g (vm_managers vm)) (\<lambda>(ms, as).
     Ok (vm\<lparr>vm_managers := ms\<rparr>, as))"

section \<open>All plans\<close>

type_synonym 'g vote_plans = "(digest, 'g vote_plan_manager) hamt"

datatype ('s, 'g) plans_error =
    VotePlanInsertionError digest insert_error
  | VoteError digest "('s, 'g) vote_error update_error"
  | VotePlanVoteEndPassed block_date block_date
  | VotePlanVoteStartStartedAlready block_date block_date
  | VotePlanMissingCommitteeMemberKey

definition plans_apply_vote ::
  "('s::comm_ring_1, 'g::ab_group_add) curve \<Rightarrow> 's \<Rightarrow> crypto \<Rightarrow> block_date \<Rightarrow> acc_identifier \<Rightarrow> ('s, 'g) vote_cast \<Rightarrow> 'g vote_plans
   \<Rightarrow> (('s, 'g) plans_error, 'g vote_plans) outcome" where
  "plans_apply_vote V batch C date a cast plans =
     (let id = vc_vote_plan cast in
      map_err (VoteError id) (hamt_update (c_hd C) plans id (\<lambda>v. omap Some (vm_vote V batch C date a cast v))))"

definition add_vote_plan ::
  "('s, 'g::ab_group_add) curve \<Rightarrow> crypto \<Rightarrow> block_date \<Rightarrow> 'g vote_plan \<Rightarrow> committee_id set \<Rightarrow> 'g vote_plans
   \<Rightarrow> (('s, 'g) plans_error, 'g vote_plans) outcome" where
  "add_vote_plan V C current_date plan committee plans =
     (if current_date > vp_vote_end plan then Err (VotePlanVoteEndPassed current_date (vp_vote_end plan))
      else if current_date > vp_vote_start plan then Err (VotePlanVoteStartStartedAlready current_date (vp_vote_start plan))
      else if vp_payload_type plan = PrivateVote \<and> vp_committee_keys plan = [] then Err VotePlanMissingCommitteeMemberKey
      else
        obind (vote_plan_to_id (c_blake C) V plan) (\<lambda>id.
        obind (vm_new (c_blake C) V plan committee) (\<lambda>manager.
        map_err (VotePlanInsertionError id) (hamt_insert (c_hd C) plans id manager))))"

text \<open>
  What the committee's certificate does to the plan it names, and the actions handed to the callback; the
  private branch unwraps the decrypted result of the certificate.
\<close>

definition committee_result ::
  "('s, 'g::ab_group_add) curve \<Rightarrow> crypto \<Rightarrow> gov_hashers \<Rightarrow> block_date \<Rightarrow> (digest, val) hamt \<Rightarrow> accounts \<Rightarrow> governance
   \<Rightarrow> ('s, 'g) vote_tally \<Rightarrow> tally_proof \<Rightarrow> 'g vote_plan_manager \<Rightarrow> (('s, 'g) vote_error, 'g vote_plan_manager \<times> vote_action list) outcome" where
  "committee_result V C H date totals accs g tally sig vm =
     (case sig of
        TallyProofPublic p \<Rightarrow> vm_public_tally C H totals accs date g (tally_proof_committee sig) vm
      | TallyProofPrivate p \<Rightarrow>
          obind (unwrap_opt (tally_payload_decrypted (vt_payload tally))) (\<lambda>shares. vm_finalize_private_tally V H shares g vm))"

definition apply_committee_result ::
  "('s, 'g::ab_group_add) curve \<Rightarrow> crypto \<Rightarrow> gov_hashers \<Rightarrow> block_date \<Rightarrow> (digest, val) hamt \<Rightarrow> accounts \<Rightarrow> governance
   \<Rightarrow> ('s, 'g) vote_tally \<Rightarrow> tally_proof \<Rightarrow> 'g vote_plans \<Rightarrow> (('s, 'g) plans_error, 'g vote_plans \<times> vote_action list) outcome" where
  "apply_committee_result V C H date totals accs g tally sig plans =
     (let id = vt_id tally in
      obind (map_err (VoteError id) (hamt_update (c_hd C) plans id (\<lambda>v. omap (\<lambda>r. Some (fst r)) (committee_result V C H date totals accs g tally sig v)))) (\<lambda>plans'.
      obind (hamt_lookup (c_hd C) plans id) (\<lambda>v.
      obind (unwrap_opt v) (\<lambda>v.
      obind (unwrap (committee_result V C H date totals accs g tally sig v)) (\<lambda>r. Ok (plans', snd r))))))"

definition plans_apply_encrypted_vote_tally ::
  "('s, 'g::ab_group_add) curve \<Rightarrow> crypto \<Rightarrow> block_date \<Rightarrow> (digest, val) hamt \<Rightarrow> accounts \<Rightarrow> digest \<Rightarrow> committee_id \<Rightarrow> 'g vote_plans
   \<Rightarrow> (('s, 'g) plans_error, 'g vote_plans) outcome" where
  "plans_apply_encrypted_vote_tally V C date totals accs plan_id committee plans =
     map_err (VoteError plan_id) (hamt_update (c_hd C) plans plan_id (\<lambda>v. omap Some (vm_start_private_tally V C totals accs date committee v)))"

section \<open>The ledger with its votes\<close>

record 'g voting_ledger =
  vl_base :: ledger
  vl_votes :: "'g vote_plans"
  vl_governance :: governance

datatype ('s, 'g) voting_error =
    BaseErr ledger_error
  | VotePlanErr "('s, 'g) plans_error"
  | VoteCastInvalidTransaction
  | VotePlanProofInvalidSignature
  | VotePlanProofInvalidCommittee
  | VotePlanInvalidGovernanceParameters
  | VoteTallyProofFailed

definition plan_committee :: "tx_slice \<Rightarrow> (('s, 'g) voting_error, committee_id set) outcome" where
  "plan_committee tx =
     each_input tx (\<lambda>input committee.
       case to_enum input of
         UtxoInput _ \<Rightarrow> Err VoteCastInvalidTransaction
       | AccountInput account_id _ \<Rightarrow>
           obind (unwrap (committee_try_from (unspec_bytes account_id))) (\<lambda>c. Ok (insert c committee))) {}"

definition apply_vote_plan ::
  "('s, 'g::ab_group_add) curve \<Rightarrow> crypto \<Rightarrow> gov_hashers \<Rightarrow> tx_slice \<Rightarrow> block_date \<Rightarrow> 'g vote_plan \<Rightarrow> ledger_parameters \<Rightarrow> committee_proof
   \<Rightarrow> 'g voting_ledger \<Rightarrow> (('s, 'g) voting_error, 'g voting_ledger) outcome" where
  "apply_vote_plan V C H tx cur_date plan dyn_params sig l =
     obind (transaction_binding_auth_data tx) (\<lambda>bad.
     obind (committee_proof_verify (c_verify C) sig bad) (\<lambda>ok.
     if \<not> ok then Err VotePlanProofInvalidSignature
     else
       obind (check_governance H (vl_governance l) plan) (\<lambda>ok.
       if \<not> ok then Err VotePlanInvalidGovernanceParameters
       else
         obind (if \<not> is_governance plan then plan_committee tx else Ok {}) (\<lambda>committee.
         let committee = committee \<union> set (lp_committees dyn_params) in
         if cp_id sig \<notin> committee then Err VotePlanProofInvalidCommittee
         else obind (map_err VotePlanErr (add_vote_plan V C cur_date plan committee (vl_votes l))) (\<lambda>votes. Ok (l\<lparr>vl_votes := votes\<rparr>))))))"

definition apply_vote_cast ::
  "('s::comm_ring_1, 'g::ab_group_add) curve \<Rightarrow> 's \<Rightarrow> crypto \<Rightarrow> acc_identifier \<Rightarrow> ('s, 'g) vote_cast \<Rightarrow> 'g voting_ledger
   \<Rightarrow> (('s, 'g) voting_error, 'g voting_ledger) outcome" where
  "apply_vote_cast V batch C a vote l =
     obind (map_err VotePlanErr (plans_apply_vote V batch C (lg_date (vl_base l)) a vote (vl_votes l))) (\<lambda>votes. Ok (l\<lparr>vl_votes := votes\<rparr>))"

definition active_vote_plans :: "'g voting_ledger \<Rightarrow> 'g vote_plan_status list" where
  "active_vote_plans l = map (\<lambda>(_, plan). vm_statuses plan) (hamt_iter (vl_votes l))"

text \<open>What was decided: coins move from the treasury to the rewards, an action on the parameters is logged.\<close>

fun apply_action :: "vote_action \<Rightarrow> ledger \<Rightarrow> (ledger_error, ledger) outcome" where
  "apply_action OffChain l = Ok l"
| "apply_action (TreasuryAction TreasuryNoOp) l = Ok l"
| "apply_action (TreasuryAction (TransferToRewards v)) l =
     obind (draw_treasury (lg_pots l) v) (\<lambda>(pots, v).
     obind (map_err LedgerPotErr (pots_rewards_add pots v)) (\<lambda>pots. Ok (l\<lparr>lg_pots := pots\<rparr>)))"
| "apply_action (ParametersAction a) l = Ok (l\<lparr>lg_actions := lg_actions l @ [a]\<rparr>)"

definition apply_vote_tally ::
  "('s, 'g::ab_group_add) curve \<Rightarrow> crypto \<Rightarrow> gov_hashers \<Rightarrow> ('s, 'g) vote_tally \<Rightarrow> u8 list \<Rightarrow> tally_proof \<Rightarrow> 'g voting_ledger
   \<Rightarrow> (('s, 'g) voting_error, 'g voting_ledger) outcome" where
  "apply_vote_tally V C H tally bad sig l =
     obind (tally_proof_verify (c_verify C) sig (tally_payload_type (vt_payload tally)) bad) (\<lambda>ok.
     if \<not> ok then Err VoteTallyProofFailed
     else
       let b = vl_base l in
       obind (map_err VotePlanErr (apply_committee_result V C H (lg_date b) (lg_token_totals b) (lg_accounts b) (vl_governance l) tally sig (vl_votes l)))
         (\<lambda>(votes, actions).
       obind (map_err BaseErr (ofold apply_action actions b)) (\<lambda>b. Ok (l\<lparr>vl_base := b, vl_votes := votes\<rparr>))))"

definition apply_encrypted_vote_tally ::
  "('s, 'g::ab_group_add) curve \<Rightarrow> crypto \<Rightarrow> digest \<Rightarrow> u8 list \<Rightarrow> committee_proof \<Rightarrow> 'g voting_ledger
   \<Rightarrow> (('s, 'g) voting_error, 'g voting_ledger) outcome" where
  "apply_encrypted_vote_tally V C plan_id bad sig l =
     obind (committee_proof_verify (c_verify C) sig bad) (\<lambda>ok.
     if \<not> ok then Err VoteTallyProofFailed
     else
       let b = vl_base l in
       obind (map_err VotePlanErr (plans_apply_encrypted_vote_tally V C (lg_date b) (lg_token_totals b) (lg_accounts b) plan_id (cp_id sig) (vl_votes l)))
         (\<lambda>votes. Ok (l\<lparr>vl_votes := votes\<rparr>)))"

section \<open>Fragments\<close>

definition decrypted_bytes :: "('s, 'g) curve \<Rightarrow> ('s, 'g) decrypted_proposal \<Rightarrow> u8 list" where
  "decrypted_bytes V p =
     (if dp_decrypt_shares p = [] then [0, 0]
      else of_nat (length (dp_decrypt_shares p)) # of_nat (length (dp_tally_result p)) # concat (map (share_to_bytes V) (dp_decrypt_shares p))
        @ concat (map to_be_bytes (dp_tally_result p)))"

definition vote_tally_bytes :: "('s, 'g) curve \<Rightarrow> ('s, 'g) vote_tally \<Rightarrow> u8 list" where
  "vote_tally_bytes V t = vt_id t @ [payload_type_byte (tally_payload_type (vt_payload t))]
     @ (case vt_payload t of TallyPayloadPublic \<Rightarrow> [] | TallyPayloadPrivate ps \<Rightarrow> counted (decrypted_bytes V) ps)"

definition vote_plan_payload :: "('s, 'g) curve \<Rightarrow> ('g vote_plan, committee_proof) payload" where
  "vote_plan_payload V = \<lparr>has_data = True, has_auth = True, payload_read = vote_plan_read V, auth_read = committee_proof_read,
     payload_data = vote_plan_bytes V, payload_auth_data = committee_proof_bytes, certificate_of = Some CsVotePlan\<rparr>"

definition vote_cast_payload :: "('s, 'g) curve \<Rightarrow> (('s, 'g) vote_cast, unit) payload" where
  "vote_cast_payload V = \<lparr>has_data = True, has_auth = False, payload_read = vote_cast_read V, auth_read = read_unit,
     payload_data = vote_cast_bytes V, payload_auth_data = (\<lambda>_. []), certificate_of = Some CsVoteCast\<rparr>"

definition vote_tally_payload :: "('s, 'g) curve \<Rightarrow> (('s, 'g) vote_tally, tally_proof) payload" where
  "vote_tally_payload V = \<lparr>has_data = True, has_auth = True, payload_read = vote_tally_read V, auth_read = tally_proof_read,
     payload_data = vote_tally_bytes V, payload_auth_data = tally_proof_bytes, certificate_of = Some CsVoteTally\<rparr>"

definition encrypted_vote_tally_payload :: "(digest, committee_proof) payload" where
  "encrypted_vote_tally_payload = \<lparr>has_data = True, has_auth = True, payload_read = encrypted_vote_tally_read, auth_read = committee_proof_read,
     payload_data = (\<lambda>id. id), payload_auth_data = committee_proof_bytes, certificate_of = Some CsEncryptedVoteTally\<rparr>"

datatype vote_fragment =
    VFBase fragment
  | VFVotePlan tx_slice
  | VFVoteCast tx_slice
  | VFVoteTally tx_slice
  | VFEncryptedVoteTally tx_slice

definition vote_transaction_raw :: "u8 \<Rightarrow> tx_slice \<Rightarrow> ('e, u8 list) outcome" where
  "vote_transaction_raw tag tx =
     obind (unwrap (codec_put_u8 [] 0)) (\<lambda>w. obind (unwrap (codec_put_u8 w tag)) (\<lambda>w. unwrap (transaction_serialize tx w)))"

fun vote_fragment_to_raw :: "vote_fragment \<Rightarrow> ('e, u8 list) outcome" where
  "vote_fragment_to_raw (VFBase f) = fragment_to_raw f"
| "vote_fragment_to_raw (VFVotePlan tx) = vote_transaction_raw 10 tx"
| "vote_fragment_to_raw (VFVoteCast tx) = vote_transaction_raw 11 tx"
| "vote_fragment_to_raw (VFVoteTally tx) = vote_transaction_raw 12 tx"
| "vote_fragment_to_raw (VFEncryptedVoteTally tx) = vote_transaction_raw 13 tx"

definition valid_vote_cast :: "tx_slice \<Rightarrow> (('s, 'g) voting_error, unit) outcome" where
  "valid_vote_cast tx = if_cond_fail_with (nb_inputs tx \<noteq> 1 \<or> nb_witnesses tx \<noteq> 1 \<or> nb_outputs tx \<noteq> 0) VoteCastInvalidTransaction"

text \<open>The transaction first, then the certificate on the ledger it leaves.\<close>

definition transact_then ::
  "crypto \<Rightarrow> ('p, 'a) payload \<Rightarrow> digest \<Rightarrow> tx_slice \<Rightarrow> block_date \<Rightarrow> ledger_parameters \<Rightarrow> 'g voting_ledger
   \<Rightarrow> ('g voting_ledger \<Rightarrow> (('s, 'g) voting_error, 'g voting_ledger) outcome) \<Rightarrow> (('s, 'g) voting_error, 'g voting_ledger) outcome" where
  "transact_then C P fid tx d lp l f = obind (map_err BaseErr (transact C P fid tx d lp (vl_base l))) (\<lambda>b. f (l\<lparr>vl_base := b\<rparr>))"

definition apply_vote_fragment ::
  "('s::comm_ring_1, 'g::ab_group_add) curve \<Rightarrow> 's \<Rightarrow> crypto \<Rightarrow> gov_hashers \<Rightarrow> (u8 list \<Rightarrow> u8 list option) \<Rightarrow> ledger_parameters \<Rightarrow> vote_fragment
   \<Rightarrow> block_date \<Rightarrow> 'g voting_ledger \<Rightarrow> (('s, 'g) voting_error, 'g voting_ledger) outcome" where
  "apply_vote_fragment V batch C H point lp f d l =
     obind (omap (raw_id (c_blake C)) (vote_fragment_to_raw f)) (\<lambda>fid.
     case f of
       VFBase f \<Rightarrow> obind (map_err BaseErr (apply_fragment C point lp f d (vl_base l))) (\<lambda>b. Ok (l\<lparr>vl_base := b\<rparr>))
     | VFVotePlan tx \<Rightarrow>
         transact_then C (vote_plan_payload V) fid tx d lp l (\<lambda>l.
         obind (into_payload (vote_plan_payload V) tx) (\<lambda>plan.
         obind (into_payload_auth (vote_plan_payload V) tx) (\<lambda>sig.
         apply_vote_plan V C H tx d plan lp sig l)))
     | VFVoteCast tx \<Rightarrow>
         obind (valid_vote_cast tx) (\<lambda>_.
         transact_then C (vote_cast_payload V) fid tx d lp l (\<lambda>l.
         obind (first_input tx) (\<lambda>input. obind (first_witness tx) (\<lambda>w.
         obind (case (to_enum input, w) of
                  (AccountInput account_id _, AccountWitness _ _) \<Rightarrow> ok_or (BaseErr AccountIdentifierInvalid) (to_single_account account_id)
                | _ \<Rightarrow> Err VoteCastInvalidTransaction) (\<lambda>account_id.
         obind (into_payload (vote_cast_payload V) tx) (\<lambda>cast.
         apply_vote_cast V batch C account_id cast l))))))
     | VFVoteTally tx \<Rightarrow>
         transact_then C (vote_tally_payload V) fid tx d lp l (\<lambda>l.
         obind (into_payload (vote_tally_payload V) tx) (\<lambda>tally.
         obind (transaction_binding_auth_data tx) (\<lambda>bad.
         obind (into_payload_auth (vote_tally_payload V) tx) (\<lambda>sig.
         apply_vote_tally V C H tally bad sig l))))
     | VFEncryptedVoteTally tx \<Rightarrow>
         transact_then C encrypted_vote_tally_payload fid tx d lp l (\<lambda>l.
         obind (into_payload encrypted_vote_tally_payload tx) (\<lambda>id.
         obind (transaction_binding_auth_data tx) (\<lambda>bad.
         obind (into_payload_auth encrypted_vote_tally_payload tx) (\<lambda>sig.
         apply_encrypted_vote_tally V C id bad sig l)))))"

definition block0_vote_fragment ::
  "('s::comm_ring_1, 'g::ab_group_add) curve \<Rightarrow> crypto \<Rightarrow> gov_hashers \<Rightarrow> ledger_parameters \<Rightarrow> vote_fragment \<Rightarrow> 'g voting_ledger
   \<Rightarrow> (('s, 'g) voting_error, 'g voting_ledger) outcome option" where
  "block0_vote_fragment V C H params f l =
     (case f of
        VFBase _ \<Rightarrow> None
      | VFVotePlan tx \<Rightarrow> Some (
          obind (map_err BaseErr (valid_block0_cert_transaction tx)) (\<lambda>_.
          obind (into_payload (vote_plan_payload V) tx) (\<lambda>plan.
          obind (into_payload_auth (vote_plan_payload V) tx) (\<lambda>sig.
          apply_vote_plan V C H tx (lg_date (vl_base l)) plan params sig l))))
      | VFVoteCast _ \<Rightarrow> Some (Err (BaseErr (Block0Err HasVoteCast)))
      | VFVoteTally _ \<Rightarrow> Some (Err (BaseErr (Block0Err HasVoteTally)))
      | VFEncryptedVoteTally _ \<Rightarrow> Some (Err (BaseErr (Block0Err HasVoteTally))))"

section \<open>Votes move no coins\<close>

text \<open>A step that keeps the invariant of the ledger, its date, and the number of coins.\<close>

definition holds :: "crypto \<Rightarrow> acc_identifier set \<Rightarrow> digest set \<Rightarrow> ledger \<Rightarrow> ledger \<Rightarrow> bool" where
  "holds C K F l l' \<longleftrightarrow> lg_date l' = lg_date l \<and> (ledger_ok C K F l \<longrightarrow> ledger_ok C K F l' \<and> ledger_coins C l' = ledger_coins C l)"

lemma holds_refl [simp]: "holds C K F l l"
  by (simp add: holds_def)

lemma holds_trans: "holds C K F l l' \<Longrightarrow> holds C K F l' l'' \<Longrightarrow> holds C K F l l''"
  by (auto simp: holds_def)

lemma keeps_holds: "keeps C K F l l' \<Longrightarrow> holds C K F l l'"
  by (auto simp: keeps_def holds_def same_chain_def)

text \<open>A transfer to the rewards takes exactly what it adds.\<close>

lemma transfer_holds:
  assumes "apply_action (TreasuryAction (TransferToRewards v)) l = Ok l'"
  shows "holds C K F l l'"
proof -
  obtain n d where d: "draw_treasury (lg_pots l) v = (Ok ((lg_pots l)\<lparr>pot_treasury := Treasury n\<rparr>, d) :: (ledger_error, _) outcome)"
    "coins (treasury_val (pot_treasury (lg_pots l))) = coins n + coins d"
    using draw_treasury_spec [of "lg_pots l" v, where 'e = ledger_error] by blast
  obtain p where p: "pots_rewards_add ((lg_pots l)\<lparr>pot_treasury := Treasury n\<rparr>) d = Ok p" "l' = l\<lparr>lg_pots := p\<rparr>"
    using assms d(1) by (auto simp: outcome_simps)
  obtain m where m: "p = (lg_pots l)\<lparr>pot_treasury := Treasury n, pot_rewards := m\<rparr>" "coins m = coins (pot_rewards (lg_pots l)) + coins d"
    using pots_rewards_add_spec [OF p(1)] by auto
  have "pots_coins p = pots_coins (lg_pots l)" using m d(2) by (simp add: pots_coins_def)
  then show ?thesis by (simp add: p(2) holds_def ledger_ok_def ledger_coins_def)
qed

lemma apply_action_holds: "apply_action a l = Ok l' \<Longrightarrow> holds C K F l l'"
proof (induction a l rule: apply_action.induct)
  case (3 v l)
  then show ?case by (rule transfer_holds)
qed (auto simp: holds_def)

lemma apply_actions_hold: "ofold apply_action as l = Ok l' \<Longrightarrow> holds C K F l l'"
proof (induction as arbitrary: l)
  case (Cons a as)
  then obtain l1 where "apply_action a l = Ok l1" "ofold apply_action as l1 = Ok l'" by (auto simp: outcome_simps)
  then show ?case using apply_action_holds Cons.IH holds_trans by blast
qed simp

text \<open>The base ledger after a transaction and a certificate that leaves it alone, or does what was decided.\<close>

lemma transact_then_holds:
  assumes "transact_then C P fid tx d lp l f = Ok l'" and "tx_ok P K tx" and "fid \<in> F"
    and "\<And>l l'. f l = Ok l' \<Longrightarrow> holds C K F (vl_base l) (vl_base l')"
  shows "holds C K F (vl_base l) (vl_base l')"
proof -
  obtain b where b: "transact C P fid tx d lp (vl_base l) = Ok b" "f (l\<lparr>vl_base := b\<rparr>) = Ok l'"
    using assms(1) by (auto simp: transact_then_def outcome_simps)
  have "holds C K F (vl_base l) b" using transact_keeps [OF b(1) assms(2,3)] by (rule keeps_holds)
  then show ?thesis using assms(4) [OF b(2)] holds_trans by fastforce
qed

fun vote_fragment_tx_ok :: "('s, 'g) curve \<Rightarrow> (u8 list \<Rightarrow> u8 list option) \<Rightarrow> acc_identifier set \<Rightarrow> vote_fragment \<Rightarrow> bool" where
  "vote_fragment_tx_ok V point K (VFBase f) = fragment_tx_ok point K f"
| "vote_fragment_tx_ok V point K (VFVotePlan tx) = tx_ok (vote_plan_payload V) K tx"
| "vote_fragment_tx_ok V point K (VFVoteCast tx) = tx_ok (vote_cast_payload V) K tx"
| "vote_fragment_tx_ok V point K (VFVoteTally tx) = tx_ok (vote_tally_payload V) K tx"
| "vote_fragment_tx_ok V point K (VFEncryptedVoteTally tx) = tx_ok encrypted_vote_tally_payload K tx"

definition vote_fragment_ok :: "('s, 'g) curve \<Rightarrow> crypto \<Rightarrow> (u8 list \<Rightarrow> u8 list option) \<Rightarrow> acc_identifier set \<Rightarrow> digest set \<Rightarrow> vote_fragment \<Rightarrow> bool" where
  "vote_fragment_ok V C point K F f \<longleftrightarrow> vote_fragment_tx_ok V point K f
     \<and> (\<forall>raw. vote_fragment_to_raw f = (Ok raw :: (ledger_error, _) outcome) \<longrightarrow> c_blake C raw \<in> F)"

lemma vote_transaction_raw_eq: "vote_transaction_raw tag tx = Ok (0 # tag # tx_data tx)"
  by (simp add: vote_transaction_raw_def transaction_serialize_def codec_put_u8_def write_all_def)

lemma certificate_base:
  "apply_vote_plan V C H tx d plan lp sig l = Ok l' \<Longrightarrow> holds C K F (vl_base l) (vl_base l')"
  "apply_vote_cast V batch C a cast l = Ok l' \<Longrightarrow> holds C K F (vl_base l) (vl_base l')"
  "apply_encrypted_vote_tally V C plan_id bad sig l = Ok l' \<Longrightarrow> holds C K F (vl_base l) (vl_base l')"
  by (auto simp: apply_vote_plan_def apply_vote_cast_def apply_encrypted_vote_tally_def obind_Ok_iff outcome_simps Let_def split: if_splits)

lemma apply_vote_tally_holds: "apply_vote_tally V C H tally bad sig l = Ok l' \<Longrightarrow> holds C K F (vl_base l) (vl_base l')"
  by (auto simp: apply_vote_tally_def obind_Ok_iff outcome_simps Let_def split: if_splits intro: apply_actions_hold)

lemma apply_vote_fragment_holds:
  assumes "apply_vote_fragment V batch C H point lp f d l = Ok l'" and "vote_fragment_ok V C point K F f"
  shows "holds C K F (vl_base l) (vl_base l')"
proof -
  have t: "vote_fragment_tx_ok V point K f"
    and raw: "\<And>raw. vote_fragment_to_raw f = (Ok raw :: (ledger_error, _) outcome) \<Longrightarrow> c_blake C raw \<in> F"
    using assms(2) by (auto simp: vote_fragment_ok_def)
  note defs = apply_vote_fragment_def raw_id_def vote_transaction_raw_eq
  show ?thesis
  proof (cases f)
    case (VFBase g)
    then obtain b where b: "apply_fragment C point lp g d (vl_base l) = Ok b" "l' = l\<lparr>vl_base := b\<rparr>"
      using assms(1) by (auto simp: defs obind_Ok_iff outcome_simps)
    have "fragment_ok C point K F g"
      using t raw VFBase by (auto simp: fragment_ok_def fragment_hash_def raw_id_def outcome_simps)
    then show ?thesis using apply_fragment_keeps [OF b(1)] keeps_holds b(2) by auto
  next
    case (VFVotePlan tx)
    then have "c_blake C (0 # 10 # tx_data tx) \<in> F" using raw by (simp add: vote_transaction_raw_eq)
    then show ?thesis using assms(1) t VFVotePlan
      by (auto simp: defs elim!: transact_then_holds) (auto simp: obind_Ok_iff certificate_base(1))
  next
    case (VFVoteCast tx)
    then have "c_blake C (0 # 11 # tx_data tx) \<in> F" using raw by (simp add: vote_transaction_raw_eq)
    then show ?thesis using assms(1) t VFVoteCast
      by (auto simp: defs obind_Ok_iff elim!: transact_then_holds) (auto simp: obind_Ok_iff certificate_base(2))
  next
    case (VFVoteTally tx)
    then have "c_blake C (0 # 12 # tx_data tx) \<in> F" using raw by (simp add: vote_transaction_raw_eq)
    then show ?thesis using assms(1) t VFVoteTally
      by (auto simp: defs elim!: transact_then_holds) (auto simp: obind_Ok_iff apply_vote_tally_holds)
  next
    case (VFEncryptedVoteTally tx)
    then have "c_blake C (0 # 13 # tx_data tx) \<in> F" using raw by (simp add: vote_transaction_raw_eq)
    then show ?thesis using assms(1) t VFEncryptedVoteTally
      by (auto simp: defs elim!: transact_then_holds) (auto simp: obind_Ok_iff certificate_base(3))
  qed
qed

text \<open>
  C9. No fragment of a block, with votes or without, makes or loses coins: after any sequence of accepted fragments
  the ledger is well formed and holds as many coins as before, also when a tally was taken and the treasury paid
  what was decided.
\<close>

theorem vote_fragments_conserve:
  assumes "ofold (\<lambda>f. apply_vote_fragment V batch C H point lp f d) fs l = Ok l'"
    and "\<forall>f \<in> set fs. vote_fragment_ok V C point K F f" and "ledger_ok C K F (vl_base l)"
  shows "ledger_ok C K F (vl_base l') \<and> ledger_coins C (vl_base l') = ledger_coins C (vl_base l)
    \<and> (ledger_total_value (vl_base l') = Ok v \<longleftrightarrow> ledger_total_value (vl_base l) = Ok v)"
proof -
  have "holds C K F (vl_base l) (vl_base l')" using assms(1,2)
  proof (induction fs arbitrary: l)
    case (Cons f fs)
    then obtain l1 where l1: "apply_vote_fragment V batch C H point lp f d l = Ok l1" "ofold (\<lambda>f. apply_vote_fragment V batch C H point lp f d) fs l1 = Ok l'"
      by (auto simp: outcome_simps)
    show ?case using holds_trans [OF apply_vote_fragment_holds [OF l1(1)] Cons.IH [OF l1(2)]] Cons.prems(2) by simp
  qed simp
  then have "ledger_ok C K F (vl_base l')" "ledger_coins C (vl_base l') = ledger_coins C (vl_base l)" using assms(3) by (simp_all add: holds_def)
  then show ?thesis using ledger_total_exact [of C K F "vl_base l'"] ledger_total_exact [OF assms(3)] by simp
qed

section \<open>Recorded votes\<close>

text \<open>The votes of every proposal are well formed, and their voters are known accounts.\<close>

definition manager_ok :: "crypto \<Rightarrow> acc_identifier set \<Rightarrow> 'g proposal_manager \<Rightarrow> bool" where
  "manager_ok C K m \<longleftrightarrow> hamt_ok (c_ha C) (pm_votes m) \<and> dom (hamt_map (c_ha C) (pm_votes m)) \<subseteq> K"

definition plans_ok :: "crypto \<Rightarrow> acc_identifier set \<Rightarrow> digest set \<Rightarrow> 'g vote_plans \<Rightarrow> bool" where
  "plans_ok C K F ps \<longleftrightarrow> hamt_ok (c_hd C) ps \<and> inj_on (c_ha C) K \<and> inj_on (c_hd C) F \<and> dom (hamt_map (c_hd C) ps) \<subseteq> F
     \<and> (\<forall>vm \<in> ran (hamt_map (c_hd C) ps). \<forall>m \<in> set (managers (vm_managers vm)). manager_ok C K m)"

text \<open>The vote of an account on one proposal of a plan.\<close>

definition recorded :: "crypto \<Rightarrow> 'g vote_plans \<Rightarrow> digest \<Rightarrow> nat \<Rightarrow> acc_identifier \<Rightarrow> 'g validated_payload option" where
  "recorded C ps p i a =
     (case hamt_map (c_hd C) ps p of
        None \<Rightarrow> None
      | Some vm \<Rightarrow> (let ms = managers (vm_managers vm) in if i < length ms then hamt_map (c_ha C) (pm_votes (ms ! i)) a else None))"

lemma managers_set [simp]: "managers (set_managers pms ms) = ms"
  by (cases pms) simp_all

lemma pm_vote_cases:
  assumes "manager_ok C K m" and "inj_on (c_ha C) K" and "a \<in> K"
  shows "case hamt_map (c_ha C) (pm_votes m) a of
      Some _ \<Rightarrow> pm_vote C m a p = (Err AlreadyVoted :: (('s, 'g) vote_error, _) outcome)
    | None \<Rightarrow> \<exists>vs. pm_vote C m a p = (Ok (m\<lparr>pm_votes := vs\<rparr>) :: (('s, 'g) vote_error, _) outcome) \<and> hamt_map (c_ha C) vs = (hamt_map (c_ha C) (pm_votes m))(a \<mapsto> p)
        \<and> manager_ok C K (m\<lparr>pm_votes := vs\<rparr>)"
proof -
  have ok: "hamt_ok (c_ha C) (pm_votes m)" and sub: "dom (hamt_map (c_ha C) (pm_votes m)) \<subseteq> K"
    using assms(1) by (simp_all add: manager_ok_def)
  have fresh: "hash_fresh (c_ha C) (pm_votes m) a" using sub assms(2,3) by (auto simp: hash_fresh_def dest: inj_onD)
  show ?thesis
  proof (cases "hamt_map (c_ha C) (pm_votes m) a")
    case None
    from pm.ins_new [OF ok None, of p] fresh obtain vs where
      "hamt_insert (c_ha C) (pm_votes m) a p = Ok vs" "hamt_map (c_ha C) vs = (hamt_map (c_ha C) (pm_votes m))(a \<mapsto> p)" "hamt_ok (c_ha C) vs" by blast
    moreover from this have "dom (hamt_map (c_ha C) vs) \<subseteq> K" using sub assms(3) by simp
    ultimately show ?thesis using None by (simp add: pm_vote_def manager_ok_def) (rule exI [of _ vs], simp)
  next
    case (Some v)
    from pm.ins_old [OF ok Some, of p] Some show ?thesis by (simp add: pm_vote_def)
  qed
qed

text \<open>Tallies leave the votes alone.\<close>

lemma public_tally_votes: "pm_public_tally C H td g m = Ok (m', as) \<Longrightarrow> pm_votes m' = pm_votes m"
  by (auto simp: pm_public_tally_def obind_Ok_iff)

lemma public_tally_all_votes: "public_tally_all C H td g ms = Ok (ms', as) \<Longrightarrow> list_all2 (\<lambda>m m'. pm_votes m' = pm_votes m) ms ms'"
  by (induction ms arbitrary: ms' as) (auto simp: obind_Ok_iff outcome_simps dest: public_tally_votes)

lemma private_tally_all_votes: "private_tally_all V C td pk crs ms = Ok ms' \<Longrightarrow> list_all2 (\<lambda>m m'. pm_votes m' = pm_votes m) ms ms'"
  by (induction ms arbitrary: ms') (auto simp: obind_Ok_iff outcome_simps pm_private_tally_def)

lemma finalize_votes: "pm_finalize_private_tally V H pks dp g m = Ok (m', as) \<Longrightarrow> pm_votes m' = pm_votes m"
  by (auto simp: pm_finalize_private_tally_def obind_Ok_iff split: if_splits)

lemma finalize_all_votes:
  "finalize_all V H pks g (zip ms dt) = Ok (ms', as) \<Longrightarrow> length ms \<le> length dt \<Longrightarrow> list_all2 (\<lambda>m m'. pm_votes m' = pm_votes m) ms ms'"
proof (induction ms arbitrary: dt ms' as)
  case (Cons m ms)
  then obtain d ds where "dt = d # ds" by (cases dt) auto
  with Cons show ?case by (auto simp: obind_Ok_iff outcome_simps dest: finalize_votes)
qed auto

definition same_votes :: "'g vote_plan_manager \<Rightarrow> 'g vote_plan_manager \<Rightarrow> bool" where
  "same_votes vm vm' \<longleftrightarrow> vm_plan vm' = vm_plan vm \<and> vm_id vm' = vm_id vm
     \<and> list_all2 (\<lambda>m m'. pm_votes m' = pm_votes m) (managers (vm_managers vm)) (managers (vm_managers vm'))"

lemma vm_public_tally_votes: "vm_public_tally C H totals accs d g sig vm = Ok (vm', as) \<Longrightarrow> same_votes vm vm'"
  by (cases "vm_managers vm") (auto simp: vm_public_tally_def same_votes_def obind_Ok_iff outcome_simps Let_def split: if_splits dest: public_tally_all_votes)

lemma vm_start_votes: "vm_start_private_tally V C totals accs d sig vm = Ok vm' \<Longrightarrow> same_votes vm vm'"
  by (cases "vm_managers vm") (auto simp: vm_start_private_tally_def same_votes_def obind_Ok_iff outcome_simps Let_def split: if_splits dest: private_tally_all_votes)

lemma vm_finalize_votes:
  "vm_finalize_private_tally V H dt g vm = Ok (vm', as) \<Longrightarrow> length (managers (vm_managers vm)) \<le> length dt \<Longrightarrow> same_votes vm vm'"
  by (cases "vm_managers vm") (auto simp: vm_finalize_private_tally_def same_votes_def obind_Ok_iff outcome_simps dest: finalize_all_votes)

lemma committee_result_votes:
  assumes "committee_result V C H d totals accs g tally sig vm = Ok (vm', as)"
    and "\<forall>dt. vt_payload tally = TallyPayloadPrivate dt \<longrightarrow> length (managers (vm_managers vm)) \<le> length dt"
  shows "same_votes vm vm'"
  using assms by (cases sig; cases "vt_payload tally")
    (auto simp: committee_result_def outcome_simps intro: vm_public_tally_votes vm_finalize_votes)

text \<open>An accepted vote adds itself and nothing else, and only where the account had not voted.\<close>

lemma vm_vote_spec:
  assumes "vm_vote V batch C d a cast vm = Ok vm'" and "\<forall>m \<in> set (managers (vm_managers vm)). manager_ok C K m"
    and "inj_on (c_ha C) K" and "a \<in> K"
  shows "\<exists>payload vs. let ms = managers (vm_managers vm); i = unat (vc_proposal_index cast) in
    vc_vote_plan cast = vm_id vm \<and> can_vote (vm_plan vm) d \<and> i < length ms \<and> hamt_map (c_ha C) (pm_votes (ms ! i)) a = None
    \<and> vm' = vm\<lparr>vm_managers := set_managers (vm_managers vm) (ms[i := (ms ! i)\<lparr>pm_votes := vs\<rparr>])\<rparr>
    \<and> hamt_map (c_ha C) vs = (hamt_map (c_ha C) (pm_votes (ms ! i)))(a \<mapsto> payload) \<and> manager_ok C K ((ms ! i)\<lparr>pm_votes := vs\<rparr>)"
proof -
  let ?ms = "managers (vm_managers vm)" and ?i = "unat (vc_proposal_index cast)"
  obtain payload pms where pv: "pms_validate_vote V batch C (vm_managers vm) a cast = Ok (payload, ?i)" "pms_vote C (vm_managers vm) a payload ?i = (Ok pms :: (('a, 'b) vote_error, _) outcome)"
    "vm' = vm\<lparr>vm_managers := pms\<rparr>" and conds: "vc_vote_plan cast = vm_id vm" "can_vote (vm_plan vm) d"
    using assms(1) by (auto simp: vm_vote_def Let_def obind_Ok_iff pms_validate_vote_def split: if_splits)
  have i: "?i < length ?ms" using pv(1) by (auto simp: pms_validate_vote_def Let_def obind_Ok_iff ok_or_def nth_opt_eq split: option.splits if_splits)
  then obtain m' where m': "pm_vote C (?ms ! ?i) a payload = (Ok m' :: (('a, 'b) vote_error, _) outcome)" "pms = set_managers (vm_managers vm) (?ms[?i := m'])"
    using pv(2) by (auto simp: pms_vote_def nth_opt_eq obind_Ok_iff)
  have "manager_ok C K (?ms ! ?i)" using assms(2) i by simp
  from pm_vote_cases [OF this assms(3,4), of payload, where 's = 'a] m'(1)
  show ?thesis using conds i pv(3) m'(2) by (auto simp: Let_def split: option.splits)
qed

text \<open>One plan is replaced, and its recorded votes only grow.\<close>

definition grows :: "crypto \<Rightarrow> acc_identifier set \<Rightarrow> 'g vote_plan_manager \<Rightarrow> 'g vote_plan_manager \<Rightarrow> bool" where
  "grows C K vm vm' \<longleftrightarrow> list_all2 (\<lambda>m m'. (manager_ok C K m \<longrightarrow> manager_ok C K m') \<and> hamt_map (c_ha C) (pm_votes m) \<subseteq>\<^sub>m hamt_map (c_ha C) (pm_votes m'))
     (managers (vm_managers vm)) (managers (vm_managers vm'))"

lemma same_votes_grows: "same_votes vm vm' \<Longrightarrow> grows C K vm vm'"
  by (auto simp: same_votes_def grows_def manager_ok_def elim!: list_all2_mono)

definition plans_grow :: "crypto \<Rightarrow> 'g vote_plans \<Rightarrow> 'g vote_plans \<Rightarrow> bool" where
  "plans_grow C ps ps' \<longleftrightarrow> (\<forall>p i a v. recorded C ps p i a = Some v \<longrightarrow> recorded C ps' p i a = Some v)"

lemma update_grows:
  assumes "plans_ok C K F ps" and "hamt_update (c_hd C) ps p f = Ok ps'"
    and "\<And>vm r. hamt_map (c_hd C) ps p = Some vm \<Longrightarrow> f vm = Ok r \<Longrightarrow> \<exists>vm'. r = Some vm' \<and> grows C K vm vm'"
  shows "plans_ok C K F ps' \<and> plans_grow C ps ps'"
proof -
  have ok: "hamt_ok (c_hd C) ps" using assms(1) by (simp add: plans_ok_def)
  obtain vm where vm: "hamt_map (c_hd C) ps p = Some vm"
    using pm.upd_missing [OF ok, of p f] assms(2) by (cases "hamt_map (c_hd C) ps p") auto
  obtain r where r: "f vm = Ok r"
    using pm.upd_error [OF ok vm, of f] pm.upd_panic [OF ok vm, of f] assms(2) by (cases "f vm") auto
  obtain vm' where vm': "r = Some vm'" "grows C K vm vm'" using assms(3) [OF vm r] by blast
  have m: "hamt_map (c_hd C) ps' = (hamt_map (c_hd C) ps)(p \<mapsto> vm')" "hamt_ok (c_hd C) ps'"
    using pm.upd_ok [OF ok vm, of f r] r assms(2) vm'(1) by auto
  have "\<forall>m \<in> set (managers (vm_managers vm)). manager_ok C K m" using assms(1) vm by (auto simp: plans_ok_def ran_def)
  then have "\<forall>m \<in> set (managers (vm_managers vm')). manager_ok C K m"
    using vm'(2) by (auto simp: grows_def list_all2_conv_all_nth all_set_conv_all_nth)
  then have "plans_ok C K F ps'" using assms(1) vm m by (auto simp: plans_ok_def ran_def split: if_splits)
  moreover have "plans_grow C ps ps'"
    unfolding plans_grow_def
  proof (intro allI impI)
    fix q i a v assume old: "recorded C ps q i a = Some v"
    show "recorded C ps' q i a = Some v"
    proof (cases "q = p")
      case True
      let ?ms = "managers (vm_managers vm)" and ?ms' = "managers (vm_managers vm')"
      have i: "i < length ?ms" "hamt_map (c_ha C) (pm_votes (?ms ! i)) a = Some v"
        using old True vm by (auto simp: recorded_def Let_def split: if_splits)
      have "length ?ms' = length ?ms" "hamt_map (c_ha C) (pm_votes (?ms ! i)) \<subseteq>\<^sub>m hamt_map (c_ha C) (pm_votes (?ms' ! i))"
        using vm'(2) i(1) by (auto simp: grows_def list_all2_conv_all_nth)
      then show ?thesis using True i m(1) by (auto simp: recorded_def Let_def map_le_def dom_def)
    qed (use old m(1) in \<open>simp add: recorded_def\<close>)
  qed
  ultimately show ?thesis by blast
qed

lemma apply_vote_grows:
  assumes "plans_ok C K F ps" and "a \<in> K" and "plans_apply_vote V batch C d a cast ps = Ok ps'"
  shows "plans_ok C K F ps' \<and> plans_grow C ps ps'"
proof -
  have upd: "hamt_update (c_hd C) ps (vc_vote_plan cast) (\<lambda>v. omap Some (vm_vote V batch C d a cast v)) = Ok ps'"
    using assms(3) by (auto simp: plans_apply_vote_def Let_def outcome_simps)
  show ?thesis
  proof (rule update_grows [OF assms(1) upd])
    fix vm r assume vm: "hamt_map (c_hd C) ps (vc_vote_plan cast) = Some vm" and r: "omap Some (vm_vote V batch C d a cast vm) = Ok r"
    then obtain vm' where vm': "vm_vote V batch C d a cast vm = Ok vm'" "r = Some vm'" by (auto simp: outcome_simps)
    have ms: "\<forall>m \<in> set (managers (vm_managers vm)). manager_ok C K m" and K: "inj_on (c_ha C) K"
      using assms(1) vm by (auto simp: plans_ok_def ran_def)
    from vm_vote_spec [OF vm'(1) ms K assms(2)] have "grows C K vm vm'"
      by (auto simp: grows_def Let_def list_all2_conv_all_nth nth_list_update map_le_def)
    then show "\<exists>vm'. r = Some vm' \<and> grows C K vm vm'" using vm'(2) by blast
  qed
qed

lemma add_vote_plan_grows:
  fixes V :: "('s, 'g::ab_group_add) curve"
  assumes "plans_ok C K F ps" and "\<And>plan_id. vote_plan_to_id (c_blake C) V plan = (Ok plan_id :: (('s, 'g) plans_error, _) outcome) \<Longrightarrow> plan_id \<in> F"
    and "add_vote_plan V C d plan committee ps = (Ok ps' :: (('s, 'g) plans_error, _) outcome)"
  shows "plans_ok C K F ps' \<and> plans_grow C ps ps'"
proof -
  obtain plan_id vm where id: "vote_plan_to_id (c_blake C) V plan = (Ok plan_id :: (('s, 'g) plans_error, _) outcome)"
    and vm: "vm_new (c_blake C) V plan committee = (Ok vm :: (('s, 'g) plans_error, _) outcome)" and ins: "hamt_insert (c_hd C) ps plan_id vm = Ok ps'"
    using assms(3) by (auto simp: add_vote_plan_def obind_Ok_iff outcome_simps split: if_splits)
  have ok: "hamt_ok (c_hd C) ps" and F: "inj_on (c_hd C) F" "dom (hamt_map (c_hd C) ps) \<subseteq> F" using assms(1) by (simp_all add: plans_ok_def)
  have "plan_id \<in> F" by (rule assms(2) [OF id])
  then have fresh: "hash_fresh (c_hd C) ps plan_id" using F by (auto simp: hash_fresh_def dest: inj_onD)
  have none: "hamt_map (c_hd C) ps plan_id = None" using pm.ins_old [OF ok, of plan_id _ vm] ins by (cases "hamt_map (c_hd C) ps plan_id") auto
  have m: "hamt_map (c_hd C) ps' = (hamt_map (c_hd C) ps)(plan_id \<mapsto> vm)" "hamt_ok (c_hd C) ps'"
    using pm.ins_new [OF ok none, of vm] fresh ins by auto
  have "managers (vm_managers vm) = map proposal_manager_new (vp_proposals plan)"
    using vm by (auto simp: vm_new_def proposal_managers_new_def obind_Ok_iff Let_def split: payload_type.splits)
  then have "\<forall>m \<in> set (managers (vm_managers vm)). manager_ok C K m" by (auto simp: proposal_manager_new_def manager_ok_def)
  then have "plans_ok C K F ps'" using assms(1) m \<open>plan_id \<in> F\<close> none by (auto simp: plans_ok_def ran_def split: if_splits)
  moreover have "plans_grow C ps ps'" using none by (auto simp: plans_grow_def recorded_def m(1) split: if_splits)
  ultimately show ?thesis by blast
qed

text \<open>The life of the vote plans of a ledger.\<close>

inductive vote_step ::
  "('s::comm_ring_1, 'g::ab_group_add) curve \<Rightarrow> crypto \<Rightarrow> gov_hashers \<Rightarrow> acc_identifier set \<Rightarrow> digest set \<Rightarrow> 'g vote_plans \<Rightarrow> 'g vote_plans \<Rightarrow> bool"
  for V :: "('s::comm_ring_1, 'g::ab_group_add) curve" and C H K F where
  step_plan: "add_vote_plan V C d plan committee ps = (Ok ps' :: (('s, 'g) plans_error, _) outcome)
    \<Longrightarrow> (\<And>plan_id. vote_plan_to_id (c_blake C) V plan = (Ok plan_id :: (('s, 'g) plans_error, _) outcome) \<Longrightarrow> plan_id \<in> F)
    \<Longrightarrow> vote_step V C H K F ps ps'"
| step_vote: "plans_apply_vote V batch C d a cast ps = Ok ps' \<Longrightarrow> a \<in> K \<Longrightarrow> vote_step V C H K F ps ps'"
| step_start: "plans_apply_encrypted_vote_tally V C d totals accs p c ps = Ok ps' \<Longrightarrow> vote_step V C H K F ps ps'"
| step_tally: "apply_committee_result V C H d totals accs g tally sig ps = Ok (ps', as)
    \<Longrightarrow> (\<And>vm dt. hamt_map (c_hd C) ps (vt_id tally) = Some vm \<Longrightarrow> vt_payload tally = TallyPayloadPrivate dt
          \<Longrightarrow> length (managers (vm_managers vm)) \<le> length dt)
    \<Longrightarrow> vote_step V C H K F ps ps'"

inductive vote_run ::
  "('s::comm_ring_1, 'g::ab_group_add) curve \<Rightarrow> crypto \<Rightarrow> gov_hashers \<Rightarrow> acc_identifier set \<Rightarrow> digest set \<Rightarrow> 'g vote_plans \<Rightarrow> 'g vote_plans \<Rightarrow> bool"
  for V C H K F where
  run_refl: "vote_run V C H K F ps ps"
| run_step: "vote_run V C H K F ps ps' \<Longrightarrow> vote_step V C H K F ps' ps'' \<Longrightarrow> vote_run V C H K F ps ps''"

lemma vote_step_grows:
  assumes "vote_step V C H K F ps ps'" and "plans_ok C K F ps"
  shows "plans_ok C K F ps' \<and> plans_grow C ps ps'"
  using assms
proof (induction rule: vote_step.induct)
  case (step_plan d plan committee ps ps')
  then show ?case using add_vote_plan_grows by blast
next
  case (step_vote batch d a cast ps ps')
  then show ?case using apply_vote_grows by blast
next
  case (step_start d totals accs p c ps ps')
  then have "hamt_update (c_hd C) ps p (\<lambda>v. omap Some (vm_start_private_tally V C totals accs d c v)) = Ok ps'"
    by (auto simp: plans_apply_encrypted_vote_tally_def outcome_simps)
  from update_grows [OF step_start(2) this] show ?case by (auto simp: outcome_simps dest!: vm_start_votes intro: same_votes_grows)
next
  case (step_tally d totals accs g tally sig ps ps' as)
  then have upd: "hamt_update (c_hd C) ps (vt_id tally) (\<lambda>v. omap (\<lambda>r. Some (fst r)) (committee_result V C H d totals accs g tally sig v)) = Ok ps'"
    by (auto simp: apply_committee_result_def outcome_simps Let_def)
  show ?case
  proof (rule update_grows [OF step_tally(3) upd])
    fix vm r assume vm: "hamt_map (c_hd C) ps (vt_id tally) = Some vm"
      and r: "omap (\<lambda>r. Some (fst r)) (committee_result V C H d totals accs g tally sig vm) = Ok r"
    then obtain vm' as' where res: "committee_result V C H d totals accs g tally sig vm = Ok (vm', as')" "r = Some vm'" by (auto simp: outcome_simps)
    have "same_votes vm vm'" using committee_result_votes [OF res(1)] step_tally(2) [OF vm] by blast
    then show "\<exists>vm'. r = Some vm' \<and> grows C K vm vm'" using res(2) same_votes_grows by blast
  qed
qed


text \<open>Casting a public vote, on every branch.\<close>

lemma public_vote_cases:
  fixes V :: "('s::comm_ring_1, 'g::ab_group_add) curve"
  assumes "plans_ok C K F ps" and "a \<in> K" and "hamt_map (c_hd C) ps p = Some vm" and "vm_id vm = p"
    and "vm_managers vm = ManagersPublic ms" and "vp_payload_type (vm_plan vm) = PublicVote"
  shows "case plans_apply_vote V batch C d a \<lparr>vc_vote_plan = p, vc_proposal_index = i, vc_payload = PublicPayload choice\<rparr> ps of
      Ok ps' \<Rightarrow> can_vote (vm_plan vm) d \<and> unat i < length ms \<and> recorded C ps p (unat i) a = None
        \<and> recorded C ps' = (\<lambda>q j b. if q = p \<and> j = unat i \<and> b = a then Some (ValidatedPublic choice) else recorded C ps q j b)
    | Err _ \<Rightarrow> \<not> (can_vote (vm_plan vm) d \<and> unat i < length ms \<and> recorded C ps p (unat i) a = None)
    | Panic \<Rightarrow> False"
proof -
  let ?cast = "\<lparr>vc_vote_plan = p, vc_proposal_index = i, vc_payload = PublicPayload choice\<rparr> :: ('s, 'g) vote_cast"
  have ok: "hamt_ok (c_hd C) ps" and inj: "inj_on (c_ha C) K" and mok: "\<forall>m \<in> set ms. manager_ok C K m"
    using assms by (auto simp: plans_ok_def ran_def)
  have rec: "recorded C ps p j b = (if j < length ms then hamt_map (c_ha C) (pm_votes (ms ! j)) b else None)" for j b
    using assms(3,5) by (simp add: recorded_def)
  note defs = vm_vote_def Let_def assms(4-6) pms_validate_vote_def ok_or_def nth_opt_eq
  show ?thesis
  proof (cases "can_vote (vm_plan vm) d \<and> unat i < length ms \<and> recorded C ps p (unat i) a = None")
    case True
    let ?m = "ms ! unat i"
    have m: "manager_ok C K ?m" "hamt_map (c_ha C) (pm_votes ?m) a = None" using True mok rec by auto
    obtain vs where vs: "pm_vote C ?m a (ValidatedPublic choice) = (Ok (?m\<lparr>pm_votes := vs\<rparr>) :: (('s, 'g) vote_error, _) outcome)"
      "hamt_map (c_ha C) vs = (hamt_map (c_ha C) (pm_votes ?m))(a \<mapsto> ValidatedPublic choice)"
      using pm_vote_cases [OF m(1) inj assms(2), of "ValidatedPublic choice", where 's = 's] m(2) by auto
    let ?vm = "vm\<lparr>vm_managers := ManagersPublic (ms[unat i := ?m\<lparr>pm_votes := vs\<rparr>])\<rparr>"
    have "check_already_voted C ?m a = (Ok () :: (('s, 'g) vote_error, _) outcome)"
      using m by (simp add: check_already_voted_def hamt_contains_key_def manager_ok_def pm.lookup_alpha)
    then have "vm_vote V batch C d a ?cast vm = Ok ?vm" using True vs(1)
      by (simp add: defs validate_public_vote_def pms_vote_def)
    then obtain ps' where ps': "plans_apply_vote V batch C d a ?cast ps = Ok ps'" "hamt_map (c_hd C) ps' = (hamt_map (c_hd C) ps)(p \<mapsto> ?vm)"
      using pm.upd_ok [OF ok assms(3), of "\<lambda>v. omap Some (vm_vote V batch C d a ?cast v)" "Some ?vm"] by (auto simp: plans_apply_vote_def)
    have "recorded C ps' q j b = (if q = p \<and> j = unat i \<and> b = a then Some (ValidatedPublic choice) else recorded C ps q j b)" for q j b
      using True rec vs(2) by (auto simp: recorded_def ps'(2) nth_list_update)
    then have "recorded C ps' = (\<lambda>q j b. if q = p \<and> j = unat i \<and> b = a then Some (ValidatedPublic choice) else recorded C ps q j b)" by (intro ext)
    then show ?thesis using ps'(1) True by simp
  next
    case False
    obtain e where "vm_vote V batch C d a ?cast vm = Err e"
    proof (cases "can_vote (vm_plan vm) d \<and> unat i < length ms")
      case True
      then have m: "hamt_ok (c_ha C) (pm_votes (ms ! unat i))" "hamt_map (c_ha C) (pm_votes (ms ! unat i)) a \<noteq> None"
        using False mok rec by (auto simp: manager_ok_def)
      then have "check_already_voted C (ms ! unat i) a = (Err AlreadyVoted :: (('s, 'g) vote_error, _) outcome)"
        by (simp add: check_already_voted_def hamt_contains_key_def pm.lookup_alpha)
      then show thesis using that True by (simp add: defs validate_public_vote_def)
    next
      case False
      then show thesis
        using that [of "if can_vote (vm_plan vm) d then InvalidVoteProposal (length ms) ?cast else NotVoteTime (vp_vote_start (vm_plan vm)) (vp_vote_end (vm_plan vm)) ?cast"]
        by (auto simp: defs)
    qed
    then have "plans_apply_vote V batch C d a ?cast ps = Err (VoteError p (ValueCallbackError e))"
      using pm.upd_error [OF ok assms(3), of "\<lambda>v. omap Some (vm_vote V batch C d a ?cast v)" e] by (simp add: plans_apply_vote_def)
    then show ?thesis using False by simp
  qed
qed


section \<open>What a tally counts\<close>

text \<open>The stake that an account votes with, if it holds the token at all.\<close>

definition td_ok :: "crypto \<Rightarrow> token_distribution \<Rightarrow> bool" where
  "td_ok C td \<longleftrightarrow> account_ok (c_ha C) (c_hd C) (td_accounts td) \<and> hamt_ok (c_hd C) (td_totals td)"

definition stake_of :: "crypto \<Rightarrow> token_distribution \<Rightarrow> acc_identifier \<Rightarrow> nat" where
  "stake_of C td a =
     (case hamt_map (c_ha C) (td_accounts td) a of
        None \<Rightarrow> 0
      | Some st \<Rightarrow> (case hamt_map (c_hd C) (acc_tokens st) (token_bytes (td_token td)) of None \<Rightarrow> 0 | Some v \<Rightarrow> coins v))"

definition holds_token :: "crypto \<Rightarrow> token_distribution \<Rightarrow> acc_identifier \<Rightarrow> bool" where
  "holds_token C td a \<longleftrightarrow>
     (\<exists>st v. hamt_map (c_ha C) (td_accounts td) a = Some st \<and> hamt_map (c_hd C) (acc_tokens st) (token_bytes (td_token td)) = Some v)"

lemma td_get_account_eq:
  assumes "td_ok C td"
  shows "\<exists>v. td_get_account C td a = (Ok v :: ('e, _) outcome) \<and> (v \<noteq> None \<longleftrightarrow> holds_token C td a)
    \<and> (case v of None \<Rightarrow> stake_of C td a = 0 | Some x \<Rightarrow> stake_of C td a = coins x)"
proof -
  have acc: "hamt_ok (c_ha C) (td_accounts td)" and toks: "\<And>st. hamt_map (c_ha C) (td_accounts td) a = Some st \<Longrightarrow> hamt_ok (c_hd C) (acc_tokens st)"
    using assms by (auto simp: td_ok_def account_ok_def account_state_ok_def ran_def)
  show ?thesis
  proof (cases "hamt_map (c_ha C) (td_accounts td) a")
    case None
    then show ?thesis by (simp add: td_get_account_def get_state_def pm.lookup_alpha [OF acc] ok_or_def stake_of_def holds_token_def)
  next
    case (Some st)
    then show ?thesis
      by (simp add: td_get_account_def get_state_def pm.lookup_alpha [OF acc] pm.lookup_alpha [OF toks [OF Some]] ok_or_def stake_of_def holds_token_def
          split: option.splits)
  qed
qed

text \<open>Votes are added up with saturation, so the result is the sum cut off at the largest weight.\<close>

definition saturated :: "nat \<Rightarrow> u64" where
  "saturated n = of_nat (min n (2 ^ 64 - 1))"

lemma saturated_unat [simp]: "unat (saturated n) = min n (2 ^ 64 - 1)"
  by (simp add: saturated_def unat_of_nat)

lemma saturated_add: "weight_saturating_add (saturated n) w = saturated (n + unat w)"
proof -
  have "unat w < 2 ^ 64" using unsigned_less [of w] by simp
  then have "unat (weight_saturating_add (saturated n) w) = unat (saturated (n + unat w))"
    by (auto simp: weight_saturating_add_def checked_add_def unat_word_ariths unsigned_minus_1_eq_mask mask_eq_exp_minus_1)
  then show ?thesis by (simp only: word_unat_eq_iff)
qed

definition results_are :: "tally_result \<Rightarrow> vote_options \<Rightarrow> (nat \<Rightarrow> nat) \<Rightarrow> bool" where
  "results_are r opts f \<longleftrightarrow> r = \<lparr>tr_results = map (\<lambda>c. saturated (f c)) [0..<choice_count opts], tr_options = opts\<rparr>"

lemma results_new: "results_are (tally_result_new opts) opts (\<lambda>_. 0)"
  by (simp add: results_are_def tally_result_new_def saturated_def map_replicate_const)

lemma add_vote_results:
  assumes "results_are r opts f"
  shows "if choice < options_end opts
    then \<exists>r'. results_add_vote r choice w = Ok r' \<and> results_are r' opts (f(unat choice := f (unat choice) + unat w))
    else results_add_vote r choice w = Err (InvalidChoice opts choice)"
proof (cases "choice < options_end opts")
  case True
  let ?f = "f(unat choice := f (unat choice) + unat w)"
  have i: "unat choice < choice_count opts" using True by (simp add: choice_count_def word_less_nat_alt)
  have r: "r = \<lparr>tr_results = map (\<lambda>c. saturated (f c)) [0..<choice_count opts], tr_options = opts\<rparr>"
    using assms by (simp add: results_are_def)
  have "map (\<lambda>c. saturated (?f c)) [0..<choice_count opts] = (map (\<lambda>c. saturated (f c)) [0..<choice_count opts])[unat choice := saturated (f (unat choice) + unat w)]"
    using i by (intro nth_equalityI) (auto simp: nth_list_update)
  moreover have "(map (\<lambda>c. saturated (f c)) [0..<choice_count opts])[unat choice := saturated (f (unat choice))] = map (\<lambda>c. saturated (f c)) [0..<choice_count opts]"
    using i by (intro nth_equalityI) (auto simp: nth_list_update)
  ultimately show ?thesis using True i
    by (auto simp: r results_add_vote_def options_validate_def results_are_def saturated_add require_def Let_def)
next
  case False
  then show ?thesis using assms by (simp add: results_add_vote_def options_validate_def results_are_def)
qed

text \<open>The weight of a choice among the given votes.\<close>

definition vote_weight :: "crypto \<Rightarrow> token_distribution \<Rightarrow> (acc_identifier \<times> 'g validated_payload) list \<Rightarrow> nat \<Rightarrow> nat" where
  "vote_weight C td vs c = (\<Sum>(a, p) \<leftarrow> vs. case p of ValidatedPublic x \<Rightarrow> if unat x = c then stake_of C td a else 0 | _ \<Rightarrow> 0)"

lemma public_tally_loop_eq:
  assumes "td_ok C td" and "\<forall>(a, p) \<in> set vs. \<exists>c. p = ValidatedPublic c"
    and "results_are r opts f"
  shows "if \<forall>(a, p) \<in> set vs. \<forall>c. p = ValidatedPublic c \<longrightarrow> holds_token C td a \<longrightarrow> c < options_end opts
    then \<exists>r'. public_tally_loop C td vs r = (Ok r' :: (('s, 'g) vote_error, _) outcome) \<and> results_are r' opts (\<lambda>c. f c + vote_weight C td vs c)
    else \<exists>c. public_tally_loop C td vs r = (Err (CannotTallyVotes (InvalidChoice opts c)) :: (('s, 'g) vote_error, _) outcome) \<and> \<not> c < options_end opts"
  using assms(2,3)
proof (induction vs arbitrary: r f)
  case (Cons ap vs)
  obtain a c where ap: "ap = (a, ValidatedPublic c)" using Cons.prems(1) by (cases ap) auto
  have rest_ok: "\<forall>(a, p) \<in> set vs. \<exists>c. p = ValidatedPublic c" using Cons.prems(1) by simp
  obtain v where v: "td_get_account C td a = (Ok v :: (('s, 'g) vote_error, _) outcome)" "v \<noteq> None \<longleftrightarrow> holds_token C td a"
    "case v of None \<Rightarrow> stake_of C td a = 0 | Some x \<Rightarrow> stake_of C td a = coins x"
    using td_get_account_eq [OF assms(1)] by blast
  show ?case
  proof (cases v)
    case None
    then have "vote_weight C td (ap # vs) = vote_weight C td vs" using v(3) by (auto simp: vote_weight_def ap)
    then show ?thesis using Cons.IH [OF rest_ok Cons.prems(2)] v None by (simp add: ap)
  next
    case (Some x)
    show ?thesis
    proof (cases "c < options_end opts")
      case True
      let ?f = "f(unat c := f (unat c) + unat (amount x))"
      obtain r1 where r1: "results_add_vote r c (amount x) = Ok r1" "results_are r1 opts ?f"
        using add_vote_results [OF Cons.prems(2), of c "amount x"] True by auto
      have eq: "(\<lambda>n. ?f n + vote_weight C td vs n) = (\<lambda>n. f n + vote_weight C td (ap # vs) n)"
        using v(3) Some by (auto simp: vote_weight_def ap coins_def)
      have "public_tally_loop C td (ap # vs) r = (public_tally_loop C td vs r1 :: (('s, 'g) vote_error, _) outcome)" using v(1) Some r1(1) by (simp add: ap)
      moreover have "(\<forall>(a, p) \<in> set (ap # vs). \<forall>c. p = ValidatedPublic c \<longrightarrow> holds_token C td a \<longrightarrow> c < options_end opts)
        \<longleftrightarrow> (\<forall>(a, p) \<in> set vs. \<forall>c. p = ValidatedPublic c \<longrightarrow> holds_token C td a \<longrightarrow> c < options_end opts)" using True by (simp add: ap)
      ultimately show ?thesis using Cons.IH [OF rest_ok r1(2), unfolded eq] by (simp only:)
    next
      case False
      then have "results_add_vote r c (amount x) = Err (InvalidChoice opts c)" using add_vote_results [OF Cons.prems(2), of c "amount x"] by simp
      then show ?thesis using v Some False by (auto simp: ap)
    qed
  qed
qed (simp add: vote_weight_def)


definition total_tokens :: "crypto \<Rightarrow> token_distribution \<Rightarrow> val" where
  "total_tokens C td = (case hamt_map (c_hd C) (td_totals td) (token_bytes (td_token td)) of None \<Rightarrow> value_zero | Some v \<Rightarrow> v)"

lemma td_get_total_eq: "td_ok C td \<Longrightarrow> td_get_total C td = Ok (total_tokens C td)"
  by (simp add: td_ok_def td_get_total_def total_tokens_def pm.lookup_alpha)

text \<open>The stake behind a choice: that of all accounts which voted for it.\<close>

definition stake_for :: "crypto \<Rightarrow> token_distribution \<Rightarrow> 'g proposal_manager \<Rightarrow> nat \<Rightarrow> nat" where
  "stake_for C td m c = (\<Sum>a | \<exists>x. hamt_map (c_ha C) (pm_votes m) a = Some (ValidatedPublic x) \<and> unat x = c. stake_of C td a)"

lemma vote_weight_stake:
  assumes "hamt_ok (c_ha C) (pm_votes m)"
  shows "vote_weight C td (hamt_iter (pm_votes m)) c = stake_for C td m c"
proof -
  let ?vs = "hamt_iter (pm_votes m)"
  let ?g = "\<lambda>(a, p). case p of ValidatedPublic x \<Rightarrow> if unat x = c then stake_of C td a else 0 | _ \<Rightarrow> 0"
  have d: "distinct (map fst ?vs)" and m: "map_of ?vs = hamt_map (c_ha C) (pm_votes m)"
    using pm.entries_keys [OF assms] pm.entries_alpha [OF assms] by auto
  have mem: "(a, p) \<in> set ?vs \<longleftrightarrow> hamt_map (c_ha C) (pm_votes m) a = Some p" for a p using map_of_eq_Some_iff [OF d] by (simp add: m)
  have "vote_weight C td ?vs c = (\<Sum>q \<in> set ?vs. ?g q)"
    using d by (simp add: vote_weight_def sum_list_distinct_conv_sum_set distinct_map)
  also have "\<dots> = (\<Sum>q \<in> {q \<in> set ?vs. \<exists>x. snd q = ValidatedPublic x \<and> unat x = c}. stake_of C td (fst q))"
    by (rule sum.mono_neutral_cong_right) (auto split: validated_payload.splits if_splits)
  also have "\<dots> = (\<Sum>a \<in> fst ` {q \<in> set ?vs. \<exists>x. snd q = ValidatedPublic x \<and> unat x = c}. stake_of C td a)"
    using d by (subst sum.reindex) (auto simp: distinct_map intro: inj_on_subset)
  also have "fst ` {q \<in> set ?vs. \<exists>x. snd q = ValidatedPublic x \<and> unat x = c} = {a. \<exists>x. hamt_map (c_ha C) (pm_votes m) a = Some (ValidatedPublic x) \<and> unat x = c}"
    by (auto simp: mem image_iff) 
  finally show ?thesis by (simp add: stake_for_def)
qed

text \<open>
  C13. The tally of a public proposal: every choice gets the stake of the accounts that voted for it, cut off at
  the largest weight, and the criteria of governance decide on that result. If a single account that holds
  the token voted for a choice that does not exist, there is no tally at all.
\<close>

theorem public_tally_counts:
  fixes m :: "'g proposal_manager"
  assumes "td_ok C td" and "hamt_ok (c_ha C) (pm_votes m)" and "\<forall>p \<in> ran (hamt_map (c_ha C) (pm_votes m)). \<exists>c. p = ValidatedPublic c"
  shows "let r = \<lparr>tr_results = map (\<lambda>c. saturated (stake_for C td m c)) [0..<choice_count (pm_options m)], tr_options = pm_options m\<rparr> in
    if \<exists>a c. hamt_map (c_ha C) (pm_votes m) a = Some (ValidatedPublic c) \<and> holds_token C td a \<and> options_end (pm_options m) \<le> c
    then \<exists>c. pm_public_tally C H td g m = (Err (CannotTallyVotes (InvalidChoice (pm_options m) c)) :: (('s, 'g) vote_error, _) outcome)
    else pm_public_tally C H td g m = (obind (pm_check H m (amount (total_tokens C td)) g r) (\<lambda>ok.
      Ok (m\<lparr>pm_tally := Some (TallyPublic r)\<rparr>, if ok then [pm_action m] else [])) :: (('s, 'g) vote_error, _) outcome)"
proof -
  let ?vs = "hamt_iter (pm_votes m)" and ?opts = "pm_options m"
  have "map_of ?vs = hamt_map (c_ha C) (pm_votes m)" "distinct (map fst ?vs)" using pm.entries_alpha [OF assms(2)] pm.entries_keys [OF assms(2)] by auto
  then have mem: "(a, p) \<in> set ?vs \<longleftrightarrow> hamt_map (c_ha C) (pm_votes m) a = Some p" for a p using map_of_eq_Some_iff by metis
  have pub: "\<forall>(a, p) \<in> set ?vs. \<exists>c. p = ValidatedPublic c" using assms(3) by (fastforce simp: mem ran_def)
  have good: "(\<forall>(a, p) \<in> set ?vs. \<forall>c. p = ValidatedPublic c \<longrightarrow> holds_token C td a \<longrightarrow> c < options_end ?opts)
    \<longleftrightarrow> \<not> (\<exists>a c. hamt_map (c_ha C) (pm_votes m) a = Some (ValidatedPublic c) \<and> holds_token C td a \<and> options_end ?opts \<le> c)"
    by (simp add: Ball_def split_paired_All mem not_le) blast
  note loop = public_tally_loop_eq [OF assms(1) pub results_new [of ?opts], where 's = 's, unfolded good if_bool_eq_conj]
  note defs = pm_public_tally_def td_get_total_eq [OF assms(1)] results_are_def vote_weight_stake [OF assms(2)] Let_def
  show ?thesis
  proof (cases "\<exists>a c. hamt_map (c_ha C) (pm_votes m) a = Some (ValidatedPublic c) \<and> holds_token C td a \<and> options_end ?opts \<le> c")
    case True
    with loop obtain c where "public_tally_loop C td ?vs (tally_result_new ?opts) = (Err (CannotTallyVotes (InvalidChoice ?opts c)) :: (('s, 'g) vote_error, _) outcome)"
      by blast
    then show ?thesis using True by (simp add: defs)
  next
    case False
    with loop obtain r where "public_tally_loop C td ?vs (tally_result_new ?opts) = (Ok r :: (('s, 'g) vote_error, _) outcome)"
      "results_are r ?opts (\<lambda>c. 0 + vote_weight C td ?vs c)" by blast
    then show ?thesis using False by (auto simp: defs)
  qed
qed


section \<open>Who may publish a private result\<close>

definition governance_ok :: "gov_hashers \<Rightarrow> governance \<Rightarrow> bool" where
  "governance_ok H g \<longleftrightarrow> hamt_ok (gh_treasury H) (criteria_per_action (gv_treasury g)) \<and> hamt_ok (gh_parameters H) (criteria_per_action (gv_parameters g))"

lemma participation_new [simp]: "participation (tally_result_new opts) = Ok 0"
proof -
  have "fold (\<lambda>w acc. obind acc (\<lambda>a. padd a w)) (replicate n 0) (Ok 0) = (Ok 0 :: ('e, u64) outcome)" for n
    by (induction n) (simp_all add: padd_def checked_add_def unwrap_opt_def)
  then show ?thesis by (simp add: participation_def tally_result_new_def)
qed

text \<open>Without any vote no action is taken.\<close>

lemma pm_check_new: "governance_ok H g \<Longrightarrow> pm_check H m n g (tally_result_new opts) = Ok False"
  by (auto simp: pm_check_def check_governance_criteria_def acceptance_criteria_for_def governance_ok_def pm.lookup_alpha split: vote_action.splits)

definition nothing_counted :: "'g proposal_manager \<Rightarrow> 'g proposal_manager" where
  "nothing_counted m = m\<lparr>pm_tally := Some (TallyPrivate (TallyDecrypted (tally_result_new (pm_options m))))\<rparr>"

lemma finalize_nothing:
  assumes "governance_ok H g" and "pm_tally m = Some (TallyPrivate (TallyEncrypted t s))"
  shows "pm_finalize_private_tally V H pks \<lparr>dp_decrypt_shares = [], dp_tally_result = []\<rparr> g m = Ok (nothing_counted m, [])"
  using assms by (simp add: pm_finalize_private_tally_def ok_or_def tally_verify_def validate_partial_decryptions_def validated_decrypt_def
      require_def pm_check_new nothing_counted_def)

lemma finalize_all_nothing:
  assumes "governance_ok H g" and "\<forall>m \<in> set ms. \<exists>t s. pm_tally m = Some (TallyPrivate (TallyEncrypted t s))"
  shows "finalize_all V H pks g (zip ms (replicate (length ms) \<lparr>dp_decrypt_shares = [], dp_tally_result = []\<rparr>)) = Ok (map nothing_counted ms, [])"
  using assms(2) by (induction ms) (auto simp: finalize_nothing [OF assms(1)])



section \<open>Samples\<close>

definition sample_hashers :: gov_hashers where
  "sample_hashers = \<lparr>gh_treasury = (\<lambda>_. 0), gh_parameters = (\<lambda>_. 0)\<rparr>"

definition sample_governance :: governance where
  "sample_governance = \<lparr>gv_treasury = action_governance_new, gv_parameters = action_governance_new\<rparr>"

lemma sample_governance_ok: "governance_ok sample_hashers sample_governance"
  by (simp add: governance_ok_def sample_governance_def action_governance_new_def)

definition single :: "'k \<Rightarrow> 'v \<Rightarrow> ('k, 'v) hamt" where
  "single k v = \<lparr>root = Node 1 [Leaf 0 k v]\<rparr>"

lemma single_map: "hamt_ok (\<lambda>_. 0) (single k v)" "hamt_map (\<lambda>_. 0) (single k v) = [k \<mapsto> v]"
proof -
  have bits: "is_not_found (get_index_sparse small_bitmap_new 0)" "\<not> is_set small_bitmap_new 0" "set_index small_bitmap_new 0 = 1"
    by code_simp+
  have pos: "get_found (get_sparse_pos small_bitmap_new 0) = (Ok 0 :: (insert_error, _) outcome)" by code_simp
  have "hamt_insert (\<lambda>_. 0) hamt_new k v = Ok (single k v)"
    by (simp add: hamt_insert_def hamt_new_def insert_rec.simps node_new_def level_index_def Let_def bits pos set_at_def
        clone_array_and_insert_at_pos_def require_def insert_at_def single_def)
  then show "hamt_ok (\<lambda>_. 0) (single k v)" "hamt_map (\<lambda>_. 0) (single k v) = [k \<mapsto> v]"
    using pm.ins_new [of "\<lambda>_. 0" hamt_new k v] by (auto simp: hash_fresh_def)
qed

definition sample_manager :: "u64 proposal_manager" where
  "sample_manager = proposal_manager_new (hd (vp_proposals sample_plan))"

definition sample_vm :: "u64 vote_plan_manager" where
  "sample_vm = \<lparr>vm_id = replicate 32 9, vm_plan = sample_plan, vm_committee = {}, vm_managers = ManagersPublic [sample_manager]\<rparr>"

definition sample_open :: "u64 vote_plans" where
  "sample_open = single (replicate 32 9) sample_vm"

lemma sample_open_ok: "plans_ok sample_crypto {sample_account} {replicate 32 9} sample_open"
  by (auto simp: plans_ok_def sample_open_def sample_crypto_def single_map sample_vm_def sample_manager_def proposal_manager_new_def manager_ok_def)

lemma sample_open_map: "hamt_map (c_hd sample_crypto) sample_open = [replicate 32 9 \<mapsto> sample_vm]"
  by (simp add: sample_open_def sample_crypto_def single_map)


definition sample_voted :: "u64 proposal_manager" where
  "sample_voted = sample_manager\<lparr>pm_votes := single sample_account (ValidatedPublic 1)\<rparr>"

definition sample_closed :: "u64 vote_plans" where
  "sample_closed = single (replicate 32 9) (sample_vm\<lparr>vm_managers := ManagersPublic [sample_voted, sample_manager]\<rparr>)"

lemma sample_closed_ok: "plans_ok sample_crypto {sample_account} {replicate 32 9} sample_closed"
  by (auto simp: plans_ok_def sample_closed_def sample_crypto_def single_map sample_vm_def sample_voted_def sample_manager_def
      proposal_manager_new_def manager_ok_def)


text \<open>An account with five tokens that voted for the second choice, and one with a choice that does not exist.\<close>

definition sample_td :: token_distribution where
  "sample_td = \<lparr>td_totals = hamt_new, td_accounts = single sample_account
     ((account_state_new (Value 1) ())\<lparr>acc_tokens := single (token_bytes (vp_voting_token sample_plan)) (Value 5)\<rparr>),
     td_token = vp_voting_token sample_plan\<rparr>"

lemma sample_td_ok: "td_ok sample_crypto sample_td"
  by (simp add: td_ok_def sample_td_def sample_crypto_def account_ok_def single_map account_state_ok_def account_state_new_def sci_default_ok)

lemma sample_td_stake: "stake_of sample_crypto sample_td sample_account = 5" "holds_token sample_crypto sample_td sample_account"
  by (simp_all add: stake_of_def holds_token_def sample_td_def sample_crypto_def single_map coins_def)


lemma stake_for_single: "stake_for sample_crypto sample_td (sample_manager\<lparr>pm_votes := single sample_account (ValidatedPublic x)\<rparr>) c = (if unat x = c then 5 else 0)"
proof -
  have "{a. \<exists>y. [sample_account \<mapsto> ValidatedPublic x] a = Some (ValidatedPublic y) \<and> unat y = c} = (if unat x = c then {sample_account} else {})"
    by (auto split: if_splits)
  moreover have "c_ha sample_crypto = (\<lambda>_. 0)" by (simp add: sample_crypto_def)
  ultimately show ?thesis by (simp add: stake_for_def single_map sample_td_stake)
qed

theorem public_tally_counts_witness:
  "pm_public_tally sample_crypto sample_hashers sample_td sample_governance (sample_voted\<lparr>pm_action := OffChain\<rparr>)
      = (Ok (sample_voted\<lparr>pm_action := OffChain, pm_tally := Some (TallyPublic \<lparr>tr_results = [0, 5, 0], tr_options = Options 3\<rparr>)\<rparr>, []) :: ((u64, u64) vote_error, _) outcome)"
proof -
  let ?m = "sample_voted\<lparr>pm_action := OffChain\<rparr>"
  have votes: "hamt_map (c_ha sample_crypto) (pm_votes ?m) = [sample_account \<mapsto> ValidatedPublic 1]" "hamt_ok (c_ha sample_crypto) (pm_votes ?m)"
    by (simp_all add: sample_voted_def sample_crypto_def single_map)
  have opts: "pm_options ?m = Options 3" by (simp add: sample_voted_def sample_manager_def proposal_manager_new_def sample_plan_def)
  have "stake_for sample_crypto sample_td ?m = stake_for sample_crypto sample_td sample_voted" by (simp add: stake_for_def fun_eq_iff)
  then have stakes: "map (\<lambda>c. saturated (stake_for sample_crypto sample_td ?m c)) [0..<choice_count (Options 3)] = [0, 5, 0]"
    by (simp add: sample_voted_def stake_for_single choice_count_def upt_rec saturated_def)
  have none: "\<not> (\<exists>a c. hamt_map (c_ha sample_crypto) (pm_votes ?m) a = Some (ValidatedPublic c) \<and> holds_token sample_crypto sample_td a \<and> options_end (pm_options ?m) \<le> c)"
    unfolding votes opts by (auto split: if_splits simp: word_le_nat_alt)
  have "\<forall>p \<in> ran (hamt_map (c_ha sample_crypto) (pm_votes ?m)). \<exists>c. p = ValidatedPublic c" unfolding votes by auto
  from public_tally_counts [OF sample_td_ok votes(2) this, where 's = u64 and H = sample_hashers and g = sample_governance] none
  show ?thesis by (simp add: Let_def stakes opts pm_check_def)
qed



text \<open>A block with one transaction between accounts.\<close>

abbreviation sample_fid :: digest where "sample_fid \<equiv> replicate 32 0"

lemma sample_known: "ledger_ok sample_crypto {sample_account} {sample_fid} sample_funded"
  using sample_funded_ok by (simp add: ledger_ok_def sample_funded_def sample_empty_def ledger_empty_def utxo_new_def)

definition sample_result :: "(ledger_error, ledger) outcome" where
  "sample_result =
     obind (ofold (apply_tx_input sample_crypto sample_fid) (zip (tp_inputs sample_parts) (tp_witnesses sample_parts)) sample_funded) (\<lambda>l.
     obind (obind (ofold (apply_tx_output sample_crypto) (tp_outputs sample_parts) (l, [], 0)) (\<lambda>(l, us, _).
       if us \<noteq> [] then obind (map_err UtxoErr (utxo_add (c_hd sample_crypto) (lg_utxos l) sample_fid us)) (\<lambda>us. Ok (l\<lparr>lg_utxos := us\<rparr>)) else Ok l))
     (apply_tx_fee value_zero))"

lemma sample_result_ok: "case sample_result of Ok _ \<Rightarrow> True | _ \<Rightarrow> False"
  by code_simp

lemma sample_transact:
  "transact sample_crypto no_extra sample_fid (parts_tx no_extra sample_parts) (BlockDate 0 1) (get_ledger_parameters sample_funded) sample_funded = sample_result"
proof -
  let ?tx = "parts_tx no_extra sample_parts"
  have blake: "c_blake sample_crypto = (\<lambda>_. sample_fid)" by (simp add: sample_crypto_def)
  have fee: "calculate_fee no_extra ?tx (get_ledger_parameters sample_funded) = value_zero" unfolding calculate_fee_def parts_slices by code_simp
  have "valid_transaction_ios_number ?tx = Ok ()" unfolding valid_transaction_ios_number_def parts_slices by code_simp
  moreover have "valid_transaction_date (lg_settings sample_funded) (valid_until ?tx) (BlockDate 0 1) = Ok ()" unfolding parts_slices by code_simp
  moreover have "verify_strictly_balanced ?tx value_zero = Ok ()"
    unfolding verify_strictly_balanced_def parts_totals [OF sample_parts_ok] by code_simp
  ultimately show ?thesis
    by (simp add: transact_def apply_transaction_def fee Let_def apply_tx_inputs_def transaction_sign_data_hash_def parts_slices
        parts_each(2,4) [OF sample_parts_ok] apply_tx_outputs_def sample_result_def omap_obind comp_def blake)
qed

theorem vote_fragments_conserve_witness:
  "\<exists>l'. ofold (\<lambda>f. apply_vote_fragment sample_curve 0 sample_crypto sample_hashers (\<lambda>_. None) (get_ledger_parameters sample_funded) f (BlockDate 0 1))
      [VFBase (FTransaction (parts_tx no_extra sample_parts))] \<lparr>vl_base = sample_funded, vl_votes = sample_open, vl_governance = sample_governance\<rparr> = Ok l'
    \<and> ledger_coins sample_crypto (vl_base l') = ledger_coins sample_crypto sample_funded"
proof -
  let ?l = "\<lparr>vl_base = sample_funded, vl_votes = sample_open, vl_governance = sample_governance\<rparr>" and ?f = "VFBase (FTransaction (parts_tx no_extra sample_parts))"
  obtain b where b: "sample_result = Ok b" using sample_result_ok by (auto split: outcome.splits)
  have raw: "omap (raw_id (c_blake sample_crypto)) (fragment_to_raw (FTransaction (parts_tx no_extra sample_parts))) = (Ok sample_fid :: ((u64, u64) voting_error, _) outcome)"
    "omap (raw_id (c_blake sample_crypto)) (fragment_to_raw (FTransaction (parts_tx no_extra sample_parts))) = (Ok sample_fid :: (ledger_error, _) outcome)"
    by (simp_all add: raw_id_def sample_crypto_def fragment_to_raw_def transaction_serialize_def codec_put_u8_def write_all_def)
  have ok: "ofold (\<lambda>f. apply_vote_fragment sample_curve 0 sample_crypto sample_hashers (\<lambda>_. None) (get_ledger_parameters sample_funded) f (BlockDate 0 1)) [?f] ?l = Ok (?l\<lparr>vl_base := b\<rparr>)"
    by (simp add: apply_vote_fragment_def raw apply_fragment_def fragment_hash_def sample_transact b)
  have "\<forall>o' \<in> set (tp_outputs sample_parts). output_account o' \<subseteq> {sample_account}" by (simp add: sample_parts_def)
  then have "tx_ok no_extra {sample_account} (parts_tx no_extra sample_parts)" unfolding tx_ok_def using sample_parts_ok by blast
  then have frag: "\<forall>f \<in> set [?f]. vote_fragment_ok sample_curve sample_crypto (\<lambda>_. None) {sample_account} {sample_fid} f"
    by (simp add: vote_fragment_ok_def sample_crypto_def)
  show ?thesis using vote_fragments_conserve [OF ok frag] sample_known ok by auto
qed

end
